(* ===== verification/Prelude.thy ===== *)
theory Prelude
  imports Main "HOL-Library.Product_Lexorder"
begin

text \<open>
  Shared vocabulary of the development: results of code that can raise, instants
  on a microsecond time line, the lemma collections the component theories fill,
  and generic facts on lists and maps.
\<close>

named_theorems row_simps "field-level effect of one UPDATE on one task row"
named_theorems table_simps "what a query or an UPDATE does to a table"
named_theorems move_intros "introduction of single task moves"

section \<open>Results\<close>

text \<open>
  A call that can raise is a sum: \<open>Inl\<close> carries the exception, \<open>Inr\<close> the value.
  \<open>rbind\<close> sequences two such calls, the second seeing the value of the first.
\<close>

definition rbind :: "'e + 'a \<Rightarrow> ('a \<Rightarrow> 'e + 'b) \<Rightarrow> 'e + 'b" where
  "rbind r f = (case r of Inl e \<Rightarrow> Inl e | Inr a \<Rightarrow> f a)"

lemma rbind_simps [simp]: "rbind (Inl e) f = Inl e" "rbind (Inr a) f = f a"
  by (simp_all add: rbind_def)

lemma rbind_Inr_iff: "rbind r f = Inr b \<longleftrightarrow> (\<exists>a. r = Inr a \<and> f a = Inr b)"
  by (cases r) auto

lemma rbind_Inl_iff: "rbind r f = Inl e \<longleftrightarrow> r = Inl e \<or> (\<exists>a. r = Inr a \<and> f a = Inl e)"
  by (cases r) auto

text \<open>Map a raising function over a list, stopping at the first exception.\<close>

fun rmap :: "('a \<Rightarrow> 'e + 'b) \<Rightarrow> 'a list \<Rightarrow> 'e + 'b list" where
  "rmap f [] = Inr []"
| "rmap f (x # xs) = rbind (f x) (\<lambda>y. rbind (rmap f xs) (\<lambda>ys. Inr (y # ys)))"

lemma rmap_Inr_set: "rmap f xs = Inr ys \<Longrightarrow> y \<in> set ys \<Longrightarrow> \<exists>x \<in> set xs. f x = Inr y"
  by (induction xs arbitrary: ys) (auto simp: rbind_Inr_iff)

lemma rmap_Inr_length: "rmap f xs = Inr ys \<Longrightarrow> length ys = length xs"
  by (induction xs arbitrary: ys) (auto simp: rbind_Inr_iff)

section \<open>Lexicographic order\<close>

lemma lex_less_iff: "(a, b) < (c, d) \<longleftrightarrow> a < c \<or> a = c \<and> b < d"
  for a c :: "'a::linorder" and b d :: "'b::linorder"
  by auto

lemma lex_le_iff: "(a, b) \<le> (c, d) \<longleftrightarrow> a < c \<or> a = c \<and> b \<le> d"
  for a c :: "'a::linorder" and b d :: "'b::linorder"
  by auto

section \<open>Lists\<close>

lemma filter_map_same:
  assumes "\<And>x. x \<in> set xs \<Longrightarrow> P (f x) = Q x"
  shows "length (filter P (map f xs)) = length (filter Q xs)"
  using assms by (induction xs) auto

lemma hd_filter_sorted_least:
  fixes xs :: "'a::linorder list"
  assumes "sorted xs" and "filter P xs = y # ys" and "x \<in> set xs" and "P x"
  shows "y \<le> x"
proof -
  have "sorted (y # ys)" using sorted_wrt_filter [OF assms(1), of P] assms(2) by simp
  moreover have "x \<in> set (filter P xs)" using assms(3,4) by simp
  ultimately show ?thesis using assms(2) by auto
qed

lemma sorted_le_last:
  fixes xs :: "'a::linorder list"
  shows "sorted xs \<Longrightarrow> x \<in> set xs \<Longrightarrow> x \<le> last xs"
  by (induction xs) auto

lemma last_filter_sorted_greatest:
  fixes xs :: "'a::linorder list"
  assumes "sorted xs" and "x \<in> set xs" and "P x"
  shows "x \<le> last (filter P xs)"
proof (rule sorted_le_last)
  show "sorted (filter P xs)" by (rule sorted_wrt_filter [OF assms(1)])
  show "x \<in> set (filter P xs)" using assms(2,3) by simp
qed

definition the_default :: "'v \<Rightarrow> 'v option \<Rightarrow> 'v" where
  "the_default d x = (case x of None \<Rightarrow> d | Some v \<Rightarrow> v)"

end
