(* ===== verification/TaskRow.thy ===== *)
theory TaskRow
  imports Prelude "HOL-Library.Word"
begin

text \<open>
  The task table of \<open>src/django_ox/models.py\<close>: the row of \<open>OxTask\<close>, its statuses and
  the two statements every operation is built from, a read and one conditional UPDATE.  Instants are
  microseconds, \<open>NULL\<close> is \<open>None\<close>.  The locale states what clients of the table rely on:
  an UPDATE rewrites exactly the rows its condition matches and reports how many.
\<close>

section \<open>Rows\<close>

datatype status = READY | RUNNING | FAILED | SUCCESSFUL | LOST | DISCARDED | WAITING

datatype json = JNull | JBool bool | JInt int | JStr string | JList "json list"
  | JObj "(string \<times> json) list"

record attempt_error =
  exception_class_path :: string
  traceback :: string

type_synonym uuid = "128 word"

record ox_task =
  pk :: uuid
  task_path :: string
  args :: json
  kwargs :: json
  queue_name :: string
  priority :: int
  takes_context :: bool
  backend_name :: string
  status :: status
  run_after :: "int option"
  attempts :: int
  max_attempts :: int
  return_value :: "json option"
  errors :: "attempt_error list"
  worker_ids :: "string list"
  enqueued_at :: int
  started_at :: "int option"
  last_attempted_at :: "int option"
  finished_at :: "int option"
  locked_by :: "string option"
  locked_at :: "int option"
  lease_expires_at :: "int option"
  lease_epoch :: int

text \<open>The lock columns as every release of a row clears them.\<close>

definition clear_lock :: "ox_task \<Rightarrow> ox_task" where
  "clear_lock r = r\<lparr>locked_by := None, locked_at := None, lease_expires_at := None\<rparr>"

section \<open>Statements\<close>

type_synonym table = "ox_task list"

definition wf_table :: "table \<Rightarrow> bool" where
  "wf_table t = distinct (map pk t)"

definition fetch :: "uuid \<Rightarrow> table \<Rightarrow> ox_task option" where
  "fetch k t = find (\<lambda>r. pk r = k) t"

definition update_where :: "(ox_task \<Rightarrow> bool) \<Rightarrow> (ox_task \<Rightarrow> ox_task) \<Rightarrow> table \<Rightarrow> table \<times> nat" where
  "update_where P f t = (map (\<lambda>r. if P r then f r else r) t, length (filter P t))"

definition insert_row :: "ox_task \<Rightarrow> table \<Rightarrow> table" where
  "insert_row r t = t @ [r]"

section \<open>What a client of the table relies on\<close>

locale row_store =
  fixes wf :: "'s \<Rightarrow> bool"
    and keyof :: "'r \<Rightarrow> 'k"
    and lookup :: "'k \<Rightarrow> 's \<Rightarrow> 'r option"
    and upd :: "('r \<Rightarrow> bool) \<Rightarrow> ('r \<Rightarrow> 'r) \<Rightarrow> 's \<Rightarrow> 's \<times> nat"
  assumes lookup_key: "wf s \<Longrightarrow> lookup k s = Some r \<Longrightarrow> keyof r = k"
    and upd_wf: "wf s \<Longrightarrow> (\<And>r. keyof (f r) = keyof r) \<Longrightarrow> wf (fst (upd P f s))"
    and lookup_upd: "wf s \<Longrightarrow> (\<And>r. keyof (f r) = keyof r) \<Longrightarrow>
      lookup k (fst (upd P f s)) = map_option (\<lambda>r. if P r then f r else r) (lookup k s)"
    and upd_one: "wf s \<Longrightarrow> (\<And>r. P r \<Longrightarrow> keyof r = k) \<Longrightarrow>
      snd (upd P f s) = (case lookup k s of Some r \<Rightarrow> if P r then 1 else 0 | None \<Rightarrow> 0)"
begin

text \<open>A statement pinned to one keyof moves that row or nothing.\<close>

lemma pinned_moved_iff:
  assumes "wf s" "\<And>r. P r \<Longrightarrow> keyof r = k"
  shows "snd (upd P f s) = 1 \<longleftrightarrow> (\<exists>r. lookup k s = Some r \<and> P r)"
  using upd_one [OF assms] by (auto split: option.splits)

lemma pinned_count:
  assumes "wf s" "\<And>r. P r \<Longrightarrow> keyof r = k"
  shows "snd (upd P f s) \<le> 1"
  using upd_one [OF assms] by (auto split: option.splits)

lemma pinned_row:
  assumes "wf s" "\<And>r. keyof (f r) = keyof r" "lookup k s = Some r" "P r"
  shows "lookup k (fst (upd P f s)) = Some (f r)"
  using lookup_upd [of s f k P, OF assms(1,2)] assms(3,4) by simp

lemma missed_row:
  assumes "wf s" "\<And>r. keyof (f r) = keyof r" "\<And>r. lookup k s = Some r \<Longrightarrow> \<not> P r"
  shows "lookup k (fst (upd P f s)) = lookup k s"
  using lookup_upd [of s f k P, OF assms(1,2)] assms(3) by (cases "lookup k s") simp_all

lemma pinned_elsewhere:
  assumes "wf s" "\<And>r. keyof (f r) = keyof r" "\<And>r. P r \<Longrightarrow> keyof r = k" "j \<noteq> k"
  shows "lookup j (fst (upd P f s)) = lookup j s"
proof (rule missed_row [OF assms(1,2)])
  fix r assume "lookup j s = Some r"
  then show "\<not> P r" using lookup_key [OF assms(1)] assms(3,4) by blast
qed

text \<open>
  Compare and set: a statement pinned to a version it replaces matches at most once.  A second
  one, whatever else ran in between that did not put the version back, matches nothing.
\<close>

lemma version_gone:
  assumes wf: "wf s" and pin: "\<And>r. P r \<Longrightarrow> keyof r = k \<and> ver r = v"
    and gone: "\<And>r. lookup k s = Some r \<Longrightarrow> ver r \<noteq> v"
  shows "snd (upd P f s) = 0"
  using upd_one [OF wf, of P k f] pin gone by (auto split: option.splits)

lemma cas_once:
  assumes wf: "wf s" and keyof: "\<And>r. keyof (f r) = keyof r"
    and pin: "\<And>r. P r \<Longrightarrow> keyof r = k \<and> ver r = v" and bump: "\<And>r. P r \<Longrightarrow> ver (f r) \<noteq> v"
    and first: "snd (upd P f s) = 1"
  shows "snd (upd P f (fst (upd P f s))) = 0"
proof (rule version_gone [where ver = ver and v = v and k = k])
  show "wf (fst (upd P f s))" by (rule upd_wf [OF wf keyof])
  show "keyof r = k \<and> ver r = v" if "P r" for r by (rule pin [OF that])
  obtain r where r: "lookup k s = Some r" "P r"
    using pinned_moved_iff [of s P k f] wf pin first by blast
  fix q assume "lookup k (fst (upd P f s)) = Some q"
  with pinned_row [of s f k r P, OF wf keyof r] bump [OF r(2)] show "ver q \<noteq> v" by simp
qed

end

section \<open>The table provides it\<close>

lemma find_map_same:
  "(\<And>r. pk (g r) = pk r) \<Longrightarrow> find (\<lambda>r. pk r = k) (map g t) = map_option g (find (\<lambda>r. pk r = k) t)"
  by (induction t) auto

lemma fetch_Some: "wf_table t \<Longrightarrow> fetch k t = Some r \<longleftrightarrow> r \<in> set t \<and> pk r = k"
  by (induction t) (auto simp: fetch_def wf_table_def)

lemma fetch_None: "fetch k t = None \<longleftrightarrow> k \<notin> pk ` set t"
  by (induction t) (auto simp: fetch_def)

lemma filter_pk_none: "k \<notin> pk ` set t \<Longrightarrow> (\<And>r. P r \<Longrightarrow> pk r = k) \<Longrightarrow> filter P t = []"
  by (induction t) auto

lemma pinned_length:
  "wf_table t \<Longrightarrow> (\<And>r. P r \<Longrightarrow> pk r = k) \<Longrightarrow>
    length (filter P t) = (case fetch k t of Some r \<Rightarrow> if P r then 1 else 0 | None \<Rightarrow> 0)"
proof (induction t)
  case (Cons x t)
  show ?case
  proof (cases "pk x = k")
    case True
    with Cons.prems have "k \<notin> pk ` set t" by (auto simp: wf_table_def)
    from filter_pk_none [OF this Cons.prems(2)] True show ?thesis by (simp add: fetch_def)
  next
    case False
    with Cons show ?thesis by (auto simp: fetch_def wf_table_def)
  qed
qed (simp add: fetch_def)

interpretation tasks: row_store wf_table pk fetch update_where
proof (unfold_locales, goal_cases)
  case (1 s k r) then show ?case by (simp add: fetch_Some)
next
  case (2 s f P)
  then have "map pk (map (\<lambda>r. if P r then f r else r) s) = map pk s" by simp
  with 2(1) show ?case unfolding wf_table_def update_where_def fst_conv by (simp only:)
next
  case (3 s f k P)
  then show ?case unfolding fetch_def update_where_def by (simp add: find_map_same)
next
  case (4 s P k f)
  then show ?case by (simp add: update_where_def pinned_length)
qed

text \<open>The same laws over the result of one statement.\<close>

lemma update_facts:
  assumes "update_where P f t = (t', n)" and "wf_table t" and "\<forall>r. pk (f r) = pk r"
  shows "wf_table t'" and "fetch j t' = map_option (\<lambda>r. if P r then f r else r) (fetch j t)"
  using tasks.upd_wf [of t f P] tasks.lookup_upd [of t f j P] assms by simp_all

lemma update_count:
  assumes "update_where P f t = (t', n)" and "wf_table t" and "\<forall>r. P r \<longrightarrow> pk r = k"
  shows "n = (case fetch k t of Some r \<Rightarrow> if P r then 1 else 0 | None \<Rightarrow> 0)"
  using tasks.upd_one [of t P k f] assms by simp

lemma update_moved:
  assumes "update_where P f t = (t', 1)" and "wf_table t" and "\<forall>r. P r \<longrightarrow> pk r = k"
  obtains r where "fetch k t = Some r" "P r"
  using update_count [OF assms] by (auto split: option.splits if_splits)

lemma update_set:
  "update_where P f t = (t', n) \<Longrightarrow> set t' = (\<lambda>r. if P r then f r else r) ` set t"
  by (auto simp: update_where_def)

lemma insert_row_wf: "wf_table t \<Longrightarrow> fetch (pk r) t = None \<Longrightarrow> wf_table (insert_row r t)"
  by (auto simp: wf_table_def insert_row_def fetch_None)

lemma fetch_insert:
  "fetch k (insert_row r t) = (case fetch k t of Some q \<Rightarrow> Some q | None \<Rightarrow> if k = pk r then Some r else None)"
  by (induction t) (auto simp: fetch_def insert_row_def)

lemma clear_lock_simps [simp]:
  "pk (clear_lock r) = pk r" "status (clear_lock r) = status r" "lease_epoch (clear_lock r) = lease_epoch r"
  "attempts (clear_lock r) = attempts r" "max_attempts (clear_lock r) = max_attempts r"
  "worker_ids (clear_lock r) = worker_ids r" "errors (clear_lock r) = errors r"
  "run_after (clear_lock r) = run_after r" "finished_at (clear_lock r) = finished_at r"
  "locked_by (clear_lock r) = None" "locked_at (clear_lock r) = None" "lease_expires_at (clear_lock r) = None"
  by (simp_all add: clear_lock_def)

end
