(* ===== verification/PyStr.thy ===== *)
theory PyStr
  imports Prelude
begin

text \<open>
  The operations of Python's \<open>str\<close> and \<open>int\<close> that the parsers of this
  repository use, on ASCII text: \<open>strip\<close>, \<open>split\<close>, \<open>partition\<close>, \<open>lower\<close>,
  \<open>isdigit\<close> and \<open>int()\<close>, the last with its optional sign, its single
  underscores between digits and its limit of 4300 digits.
\<close>

definition code_of :: "char \<Rightarrow> nat" where
  "code_of c = of_char c"

definition is_space :: "char \<Rightarrow> bool" where
  "is_space c = (code_of c = 32 \<or> (9 \<le> code_of c \<and> code_of c \<le> 13)
                 \<or> (28 \<le> code_of c \<and> code_of c \<le> 31))"

definition is_digit :: "char \<Rightarrow> bool" where
  "is_digit c = (48 \<le> code_of c \<and> code_of c \<le> 57)"

definition lower_char :: "char \<Rightarrow> char" where
  "lower_char c = (if 65 \<le> code_of c \<and> code_of c \<le> 90 then char_of (code_of c + 32) else c)"

definition lower :: "string \<Rightarrow> string" where
  "lower s = map lower_char s"

definition py_strip :: "string \<Rightarrow> string" where
  "py_strip s = rev (dropWhile is_space (rev (dropWhile is_space s)))"

function py_split :: "string \<Rightarrow> string list" where
  "py_split s = (let t = dropWhile is_space s
     in if t = [] then []
        else takeWhile (\<lambda>c. \<not> is_space c) t # py_split (dropWhile (\<lambda>c. \<not> is_space c) t))"
  by pat_completeness auto
termination
proof (relation "measure length", simp)
  fix s t :: string
  assume t: "t = dropWhile is_space s" and ne: "t \<noteq> []"
  then have "\<not> is_space (hd t)" by (metis hd_dropWhile)
  with ne have "length (dropWhile (\<lambda>c. \<not> is_space c) t) < length t"
    by (cases t) (auto simp: le_imp_less_Suc length_dropWhile_le)
  also have "length t \<le> length s" by (simp add: t length_dropWhile_le)
  finally show "(dropWhile (\<lambda>c. \<not> is_space c) t, s) \<in> measure length" by simp
qed

declare py_split.simps [simp del]

text \<open>\<open>s.split(c)\<close> on a one-character separator, and the two ends of \<open>s.partition(c)\<close>.\<close>

fun split_on :: "char \<Rightarrow> string \<Rightarrow> string list" where
  "split_on c [] = [[]]"
| "split_on c (x # xs) =
     (if x = c then [] # split_on c xs
      else (case split_on c xs of [] \<Rightarrow> [[x]] | w # ws \<Rightarrow> (x # w) # ws))"

lemma split_on_not_Nil [simp]: "split_on c s \<noteq> []"
  by (cases s) (auto split: list.splits)

definition before_char :: "char \<Rightarrow> string \<Rightarrow> string" where
  "before_char c s = takeWhile (\<lambda>x. x \<noteq> c) s"

definition after_char :: "char \<Rightarrow> string \<Rightarrow> string" where
  "after_char c s = tl (dropWhile (\<lambda>x. x \<noteq> c) s)"

section \<open>Integers\<close>

definition digits_value :: "string \<Rightarrow> int" where
  "digits_value s = foldl (\<lambda>a c. a * 10 + (int (code_of c) - 48)) 0 s"

lemma digits_value_nonneg_acc:
  "\<forall>c \<in> set s. is_digit c \<Longrightarrow> 0 \<le> a \<Longrightarrow>
     0 \<le> foldl (\<lambda>a c. a * 10 + (int (code_of c) - 48)) a s"
  by (induction s arbitrary: a) (auto simp: is_digit_def)

lemma digits_value_nonneg: "\<forall>c \<in> set s. is_digit c \<Longrightarrow> 0 \<le> digits_value s"
  unfolding digits_value_def by (rule digits_value_nonneg_acc) simp_all

definition isdigit :: "string \<Rightarrow> bool" where
  "isdigit s = (s \<noteq> [] \<and> (\<forall>c \<in> set s. is_digit c))"

text \<open>\<open>int()\<close> refuses more than 4300 digits, the interpreter's default limit.\<close>

definition max_str_digits :: nat where
  "max_str_digits = 4300"

text \<open>The digits of a number literal whose underscores stand singly between digits.\<close>

fun underscored :: "string \<Rightarrow> string option" where
  "underscored [] = None"
| "underscored [c] = (if is_digit c then Some [c] else None)"
| "underscored (c # d # s) =
     (if \<not> is_digit c then None
      else if d = CHR ''_'' then map_option ((#) c) (underscored s)
      else map_option ((#) c) (underscored (d # s)))"

definition unsigned_int :: "string \<Rightarrow> int option" where
  "unsigned_int s =
     (case underscored s of None \<Rightarrow> None
      | Some ds \<Rightarrow> if length ds > max_str_digits then None else Some (digits_value ds))"

definition py_int :: "string \<Rightarrow> int option" where
  "py_int s =
     (case py_strip s of [] \<Rightarrow> None
      | c # r \<Rightarrow> if c = CHR ''-'' then map_option uminus (unsigned_int r)
                 else if c = CHR ''+'' then unsigned_int r
                 else unsigned_int (c # r))"

end
