(* ===== verification/TaskIds.thy ===== *)
theory TaskIds
  imports TaskRow PyStr "HOL-Library.List_Lexorder" "HOL-Library.Multiset"
begin

text \<open>
  The ids of tasks: \<open>_pk\<close>, which reads what a caller passed, \<open>_ids\<close> and \<open>_pinned\<close>,
  which make a selection distinct, and the orders in which databases keep uuid keys
  (\<open>src/django_ox/actions.py\<close> and \<open>_waiting.py\<close>).  A text that is not a uuid is
  \<open>None\<close>.  The orders are injective, so every bulk call takes the rows it shares with another
  in one order.
\<close>

section \<open>Reading an id\<close>

datatype task_id = Uuid uuid | Text string

text \<open>\<open>s.replace(p, "")\<close> and \<open>s.strip("{}")\<close>\<close>

fun drop_prefix :: "string \<Rightarrow> string \<Rightarrow> string option" where
  "drop_prefix [] s = Some s"
| "drop_prefix (c # p) [] = None"
| "drop_prefix (c # p) (d # s) = (if c = d then drop_prefix p s else None)"

fun remove_from :: "nat \<Rightarrow> string \<Rightarrow> string \<Rightarrow> string" where
  "remove_from 0 p s = s"
| "remove_from (Suc n) p [] = []"
| "remove_from (Suc n) p (c # s) =
     (case drop_prefix p (c # s) of
        Some r \<Rightarrow> remove_from n p r
      | None \<Rightarrow> c # remove_from n p s)"

definition remove_all_str :: "string \<Rightarrow> string \<Rightarrow> string" where
  "remove_all_str p s = remove_from (length s) p s"

definition strip_braces :: "string \<Rightarrow> string" where
  "strip_braces s = (let b = (\<lambda>c. c = CHR ''{'' \<or> c = CHR ''}'')
     in rev (dropWhile b (rev (dropWhile b s))))"

definition hex_value :: "char \<Rightarrow> int option" where
  "hex_value c =
     (let n = int (code_of (lower_char c)) in
      if 48 \<le> n \<and> n \<le> 57 then Some (n - 48)
      else if 97 \<le> n \<and> n \<le> 102 then Some (n - 87) else None)"

text \<open>The digits of \<open>int(s, 16)\<close>, with single underscores between them.\<close>

fun hex_digits :: "int \<Rightarrow> string \<Rightarrow> int option" where
  "hex_digits acc [] = None"
| "hex_digits acc [c] = map_option (\<lambda>v. acc * 16 + v) (hex_value c)"
| "hex_digits acc (c # d # s) =
     (case hex_value c of
        None \<Rightarrow> None
      | Some v \<Rightarrow> if d = CHR ''_'' then hex_digits (acc * 16 + v) s
                  else hex_digits (acc * 16 + v) (d # s))"

definition hex_unsigned :: "string \<Rightarrow> int option" where
  "hex_unsigned s =
     (case s of
        c # d # r \<Rightarrow>
          if c = CHR ''0'' \<and> (d = CHR ''x'' \<or> d = CHR ''X'')
          then (case r of e # q \<Rightarrow> hex_digits 0 (if e = CHR ''_'' then q else e # q) | [] \<Rightarrow> None)
          else hex_digits 0 s
      | _ \<Rightarrow> hex_digits 0 s)"

definition hex_int :: "string \<Rightarrow> int option" where
  "hex_int s =
     (case py_strip s of
        [] \<Rightarrow> None
      | c # r \<Rightarrow> if c = CHR ''+'' then hex_unsigned r
                 else if c = CHR ''-'' then map_option uminus (hex_unsigned r)
                 else hex_unsigned (c # r))"

text \<open>\<open>uuid.UUID(text)\<close>: 32 characters after the prefixes, braces and hyphens are gone.\<close>

definition uuid_of_text :: "string \<Rightarrow> uuid option" where
  "uuid_of_text s =
     (let h = remove_all_str ''-''
                (strip_braces (remove_all_str ''uuid:'' (remove_all_str ''urn:'' s)))
      in if length h \<noteq> 32 then None
         else (case hex_int h of
                 Some v \<Rightarrow> if 0 \<le> v \<and> v < 2 ^ 128 then Some (word_of_int v) else None
               | None \<Rightarrow> None))"

definition pk_of :: "task_id \<Rightarrow> uuid option" where
  "pk_of i = (case i of Uuid k \<Rightarrow> Some k | Text s \<Rightarrow> uuid_of_text s)"

definition id_text :: "task_id \<Rightarrow> string option" where
  "id_text i = (case i of Uuid k \<Rightarrow> None | Text s \<Rightarrow> Some s)"

section \<open>Key order\<close>

definition byte :: "uuid \<Rightarrow> nat \<Rightarrow> nat" where
  "byte k i = unat (drop_bit (8 * (15 - i)) k) mod 256"

definition uuid_bytes :: "uuid \<Rightarrow> nat list" where
  "uuid_bytes k = map (byte k) [0 ..< 16]"

definition slice :: "nat \<Rightarrow> nat \<Rightarrow> 'a list \<Rightarrow> 'a list" where
  "slice a b xs = take (b - a) (drop a xs)"

definition reversed_fields :: "nat list \<Rightarrow> bool" where
  "reversed_fields raw = (0 < raw ! 6 \<and> raw ! 6 < 96 \<and> 128 \<le> raw ! 8)"

definition mariadb_uuid_order :: "uuid \<Rightarrow> nat list" where
  "mariadb_uuid_order k =
     (let raw = uuid_bytes k in
      if reversed_fields raw
      then slice 10 16 raw @ slice 8 10 raw @ slice 6 8 raw @ slice 4 6 raw @ slice 0 4 raw
      else raw)"

definition key_order :: "bool \<Rightarrow> uuid \<Rightarrow> nat list" where
  "key_order mariadb k = (if mariadb then mariadb_uuid_order k else uuid_bytes k)"

section \<open>Selections\<close>

text \<open>
  \<open>_ids\<close>: the distinct keys in first-seen order, and how many distinct malformed items.
  \<open>_pinned\<close>: the distinct keys in key order, each with the first epoch given for it.
\<close>

definition malformed_texts :: "task_id list \<Rightarrow> string list" where
  "malformed_texts sel = remdups (List.map_filter (\<lambda>i. if pk_of i = None then id_text i else None) sel)"

fun first_seen :: "'a list \<Rightarrow> 'a list" where
  "first_seen [] = []"
| "first_seen (x # xs) = x # filter (\<lambda>y. y \<noteq> x) (first_seen xs)"

definition ids_of :: "task_id list \<Rightarrow> uuid list \<times> nat" where
  "ids_of sel = (first_seen (List.map_filter pk_of sel), length (malformed_texts sel))"

fun first_given :: "(uuid \<times> int) list \<Rightarrow> (uuid \<times> int) list" where
  "first_given [] = []"
| "first_given ((k, e) # ps) = (k, e) # filter (\<lambda>p. fst p \<noteq> k) (first_given ps)"

definition usable :: "task_id \<times> int \<Rightarrow> (uuid \<times> int) option" where
  "usable p = map_option (\<lambda>k. (k, snd p)) (pk_of (fst p))"

definition pinned :: "bool \<Rightarrow> (task_id \<times> int) list \<Rightarrow> (uuid \<times> int) list \<times> task_id list" where
  "pinned mariadb given =
     (sort_key (\<lambda>p. key_order mariadb (fst p)) (first_given (List.map_filter usable given)),
      map fst (filter (\<lambda>p. pk_of (fst p) = None) given))"

section \<open>What a selection becomes\<close>

lemma set_first_seen [simp]: "set (first_seen xs) = set xs"
  by (induction xs) auto

lemma distinct_first_seen [simp]: "distinct (first_seen xs)"
  by (induction xs) auto

lemma keys_without: "fst ` {p \<in> A. fst p \<noteq> k} = fst ` A - {k}"
  by auto

lemma fst_first_given [simp]: "fst ` set (first_given ps) = fst ` set ps"
  by (induction ps rule: first_given.induct) (simp_all add: keys_without)

lemma first_given_subset: "set (first_given ps) \<subseteq> set ps"
  by (induction ps rule: first_given.induct) auto

lemma map_fst_filter: "map fst (filter (\<lambda>p. fst p \<noteq> k) ps) = filter (\<lambda>x. x \<noteq> k) (map fst ps)"
  by (induction ps) auto

lemma distinct_first_given [simp]: "distinct (map fst (first_given ps))"
  by (induction ps rule: first_given.induct) (simp_all add: map_fst_filter)

lemma pinned_keys [simp]: "distinct (map fst (fst (pinned m given)))"
proof -
  have "mset (map fst (fst (pinned m given))) = mset (map fst (first_given (List.map_filter usable given)))"
    by (simp add: pinned_def)
  then show ?thesis using distinct_first_given mset_eq_imp_distinct_iff by blast
qed

lemma pinned_member:
  assumes "(k, e) \<in> set (fst (pinned m given))"
  shows "\<exists>i. (i, e) \<in> set given \<and> pk_of i = Some k"
proof -
  have "(k, e) \<in> set (List.map_filter usable given)"
    using assms first_given_subset by (auto simp: pinned_def)
  then show ?thesis by (auto simp: List.map_filter_def usable_def)
qed

section \<open>The key orders are injective\<close>

lemma byte_bit:
  assumes "j < 8"
  shows "bit (byte k i) j = bit k (8 * (15 - i) + j)"
proof -
  have "byte k i = take_bit 8 (unat (drop_bit (8 * (15 - i)) k))"
    by (simp add: byte_def take_bit_eq_mod)
  then show ?thesis using assms by (simp add: bit_take_bit_iff bit_unsigned_iff bit_drop_bit_eq)
qed

lemma byte_lt: "byte k i < 256"
  by (simp add: byte_def)

lemma uuid_bytes_length [simp]: "length (uuid_bytes k) = 16"
  by (simp add: uuid_bytes_def)

lemma uuid_bytes_inj: "uuid_bytes k = uuid_bytes j \<Longrightarrow> k = j"
proof (rule bit_word_eqI)
  fix n :: nat
  assume e: "uuid_bytes k = uuid_bytes j" and n: "n < LENGTH(128)"
  let ?i = "15 - n div 8"
  have i: "?i < 16" "8 * (15 - ?i) + n mod 8 = n" using n by simp_all
  from e i(1) have "byte k ?i = byte j ?i" by (simp add: uuid_bytes_def)
  then show "bit k n = bit j n" using byte_bit [of "n mod 8" _ ?i] i(2) by (metis mod_less_divisor zero_less_numeral)
qed

definition swap_fields :: "nat list \<Rightarrow> nat list" where
  "swap_fields raw = slice 10 16 raw @ slice 8 10 raw @ slice 6 8 raw @ slice 4 6 raw @ slice 0 4 raw"

lemma slices:
  assumes "length raw = 16"
  shows "raw = slice 0 4 raw @ slice 4 6 raw @ slice 6 8 raw @ slice 8 10 raw @ slice 10 16 raw"
proof -
  have "drop a raw = slice a b raw @ drop b raw" if "a \<le> b" for a b
    using that by (metis slice_def add_diff_inverse_nat append_take_drop_id drop_drop add.commute linorder_not_less)
  from this [of 0 4] this [of 4 6] this [of 6 8] this [of 8 10] this [of 10 16]
  show ?thesis using assms by simp
qed

lemma swap_fields_inj:
  assumes "length a = 16" "length b = 16" "swap_fields a = swap_fields b"
  shows "a = b"
proof -
  have "length (slice i j x) = j - i" if "length x = 16" "i \<le> j" "j \<le> 16" for i j and x :: "nat list"
    using that by (simp add: slice_def)
  note l = this [OF assms(1)] this [OF assms(2)]
  have "slice 10 16 a = slice 10 16 b" "slice 8 10 a = slice 8 10 b" "slice 6 8 a = slice 6 8 b"
    "slice 4 6 a = slice 4 6 b" "slice 0 4 a = slice 0 4 b"
    using assms(3) by (simp_all add: swap_fields_def l)
  then show ?thesis using slices [OF assms(1)] slices [OF assms(2)] by simp
qed

text \<open>An RFC 4122 version 4 id, as Django's \<open>uuid4\<close> default makes them.\<close>

definition is_uuid4 :: "uuid \<Rightarrow> bool" where
  "is_uuid4 k = (64 \<le> byte k 6 \<and> byte k 6 < 80 \<and> 128 \<le> byte k 8 \<and> byte k 8 < 192)"

lemma uuid4_reversed: "is_uuid4 k \<Longrightarrow> reversed_fields (uuid_bytes k)"
  by (simp add: is_uuid4_def reversed_fields_def uuid_bytes_def)

lemma key_order_inj:
  assumes "mariadb \<Longrightarrow> is_uuid4 k \<and> is_uuid4 j" "key_order mariadb k = key_order mariadb j"
  shows "k = j"
proof (cases mariadb)
  case True
  then have "swap_fields (uuid_bytes k) = swap_fields (uuid_bytes j)"
    using assms uuid4_reversed by (simp add: key_order_def mariadb_uuid_order_def swap_fields_def Let_def)
  then show ?thesis using swap_fields_inj uuid_bytes_inj by simp
qed (use assms uuid_bytes_inj in \<open>simp add: key_order_def\<close>)

lemma key_order_inj_on:
  "(mariadb \<Longrightarrow> \<forall>k \<in> A. is_uuid4 k) \<Longrightarrow> inj_on (key_order mariadb) A"
  by (intro inj_onI) (blast intro: key_order_inj)

text \<open>Two bulk calls take the rows they share in one order.\<close>

lemma shared_in_one_order:
  assumes "distinct xs" "distinct ys" "inj_on f (set xs \<inter> set ys)"
  shows "filter (\<lambda>k. k \<in> set ys) (sort_key f xs) = filter (\<lambda>k. k \<in> set xs) (sort_key f ys)"
    (is "?l = ?r")
proof -
  let ?a = "filter (\<lambda>k. k \<in> set ys) xs" and ?b = "filter (\<lambda>k. k \<in> set xs) ys"
  have "mset ?a = mset ?b" using assms(1,2) by (intro set_eq_iff_mset_eq_distinct [THEN iffD1]) auto
  moreover have "inj_on f (set ?a)" using assms(3) by (rule inj_on_subset) auto
  ultimately have "sort_key f ?a = sort_key f ?b"
    by (intro sort_key_inj_key_eq) simp_all
  then show ?thesis by (simp add: filter_sort)
qed

end
