(* ===== verification/Contention.thy ===== *)
theory Contention
  imports Prelude
begin

text \<open>
  \<open>src/django_ox/_contention.py\<close>, and \<open>lock_contention\<close> of \<open>src/django_ox/schedules.py\<close>:
  which database errors mean that a transaction lost a race, and the loop that runs a transaction
  again after one.  A body is given the number of the attempt and the committed state; it returns an
  error, and then its transaction has left the state alone, or a value and the state it commits.
\<close>

section \<open>Errors\<close>

record driver_error =
  sqlstate :: "string option"
  pgcode :: "string option"
  arg0 :: "int option"
  message :: string

record db_error =
  raised :: driver_error
  cause :: "driver_error option"

datatype failure = DatabaseError db_error | OtherError string

text \<open>\<open>getattr(e, "sqlstate", None) or getattr(e, "pgcode", None)\<close>: an empty string is false.\<close>

definition error_state :: "driver_error \<Rightarrow> string option" where
  "error_state e = (case sqlstate e of Some s \<Rightarrow> if s = [] then pgcode e else Some s | None \<Rightarrow> pgcode e)"

definition own_contention :: "driver_error \<Rightarrow> bool" where
  "own_contention e = (error_state e \<in> {Some ''40P01'', Some ''40001''} \<or> arg0 e = Some 1213)"

definition is_contention :: "db_error \<Rightarrow> bool" where
  "is_contention e =
     (own_contention (raised e) \<or> (case cause e of None \<Rightarrow> False | Some c \<Rightarrow> own_contention c))"

fun starts_with :: "string \<Rightarrow> string \<Rightarrow> bool" where
  "starts_with [] s = True"
| "starts_with (c # p) s = (case s of [] \<Rightarrow> False | d # r \<Rightarrow> c = d \<and> starts_with p r)"

fun contains :: "string \<Rightarrow> string \<Rightarrow> bool" where
  "contains p [] = (p = [])"
| "contains p (c # s) = (starts_with p (c # s) \<or> contains p s)"

definition lock_contention :: "db_error \<Rightarrow> bool" where
  "lock_contention e =
     (arg0 (raised e) \<in> {Some 1205, Some 1213}
      \<or> (case cause e of None \<Rightarrow> False | Some c \<Rightarrow> error_state c \<in> {Some ''55P03'', Some ''40P01''})
      \<or> contains ''database is locked'' (message (raised e)))"

section \<open>Running a transaction again\<close>

definition max_tries :: nat where
  "max_tries = 3"

text \<open>\<open>attempts(using)\<close>: inside a caller's transaction nothing runs again.\<close>

definition tries_for :: "bool \<Rightarrow> bool \<Rightarrow> nat" where
  "tries_for autocommit in_atomic = (if autocommit \<and> \<not> in_atomic then max_tries else 1)"

text \<open>
  The loop.  \<open>others\<close> is what other sessions commit while this one pauses after an attempt.
\<close>

function run_from ::
  "nat \<Rightarrow> (nat \<Rightarrow> 's \<Rightarrow> failure + 'a \<times> 's) \<Rightarrow> (nat \<Rightarrow> 's \<Rightarrow> 's) \<Rightarrow> nat \<Rightarrow> 's \<Rightarrow> (failure + 'a) \<times> 's" where
  "run_from tries body others attempt s =
     (case body attempt s of
        Inr (a, s') \<Rightarrow> (Inr a, s')
      | Inl (OtherError x) \<Rightarrow> (Inl (OtherError x), s)
      | Inl (DatabaseError e) \<Rightarrow>
          if tries \<le> attempt \<or> \<not> is_contention e then (Inl (DatabaseError e), s)
          else run_from tries body others (attempt + 1) (others attempt s))"
  by pat_completeness auto
termination
  by (relation "measure (\<lambda>(tries, _, _, attempt, _). tries - attempt)") auto

declare run_from.simps [simp del]

definition run_contended ::
  "nat \<Rightarrow> (nat \<Rightarrow> 's \<Rightarrow> failure + 'a \<times> 's) \<Rightarrow> (nat \<Rightarrow> 's \<Rightarrow> 's) \<Rightarrow> 's \<Rightarrow> (failure + 'a) \<times> 's" where
  "run_contended tries body others s = run_from tries body others 1 s"

section \<open>What the loop gives\<close>

text \<open>The committed state the attempt numbered \<open>n\<close> starts from.\<close>

fun state_at :: "(nat \<Rightarrow> 's \<Rightarrow> 's) \<Rightarrow> 's \<Rightarrow> nat \<Rightarrow> 's" where
  "state_at others s 0 = s"
| "state_at others s (Suc n) = (if n = 0 then s else others n (state_at others s n))"

definition contended :: "failure + 'b \<Rightarrow> bool" where
  "contended r = (case r of Inl (DatabaseError e) \<Rightarrow> is_contention e | _ \<Rightarrow> False)"

lemma contended_Inr [simp]: "\<not> contended (Inr x)"
  by (simp add: contended_def)

lemma run_from_cases:
  assumes "attempt \<le> tries"
  obtains (ended) a s' where "body attempt s = Inr (a, s')" "run_from tries body others attempt s = (Inr a, s')"
  | (raised) e where "body attempt s = Inl e" "\<not> contended (body attempt s) \<or> attempt = tries"
      "run_from tries body others attempt s = (Inl e, s)"
  | (again) "contended (body attempt s)" "attempt < tries"
      "run_from tries body others attempt s = run_from tries body others (attempt + 1) (others attempt s)"
proof (cases "body attempt s")
  case (Inr p)
  then show thesis using ended by (cases p) (simp add: run_from.simps)
next
  case (Inl e)
  show thesis
  proof (cases "contended (body attempt s) \<and> attempt < tries")
    case True
    with Inl obtain x where "e = DatabaseError x" "is_contention x"
      by (cases e) (simp_all add: contended_def)
    with True Inl show thesis by (intro again) (simp_all add: run_from.simps [of tries body others attempt s])
  next
    case False
    have "run_from tries body others attempt s = (Inl e, s)"
      using Inl False assms by (cases e) (auto simp: run_from.simps [of tries body others attempt s] contended_def)
    with False assms Inl show thesis by (intro raised [of e]) auto
  qed
qed

text \<open>
  The loop ends with some attempt \<open>n\<close> of at most \<open>tries\<close>: every attempt before it lost a race,
  and its outcome is the call's.  An error leaves the state the attempt started from.
\<close>

lemma run_from_attempt:
  assumes "1 \<le> k" "k \<le> tries"
  shows "\<exists>n. k \<le> n \<and> n \<le> tries
    \<and> (\<forall>m. k \<le> m \<longrightarrow> m < n \<longrightarrow> contended (body m (state_at others s m)))
    \<and> (case body n (state_at others s n) of
         Inr (a, s') \<Rightarrow> run_from tries body others k (state_at others s k) = (Inr a, s')
       | Inl e \<Rightarrow> run_from tries body others k (state_at others s k) = (Inl e, state_at others s n)
           \<and> (contended (body n (state_at others s n)) \<longrightarrow> n = tries))"
  using assms
proof (induction "tries - k" arbitrary: k rule: less_induct)
  case less
  from less.prems(2) show ?case
  proof (cases rule: run_from_cases [of k tries body "state_at others s k" others])
    case (ended a s')
    with less.prems show ?thesis by (intro exI [of _ k]) simp
  next
    case (raised e)
    with less.prems show ?thesis by (intro exI [of _ k]) auto
  next
    case again
    from less.prems(1) have st: "others k (state_at others s k) = state_at others s (k + 1)" by simp
    have "tries - (k + 1) < tries - k" "1 \<le> k + 1" "k + 1 \<le> tries" using again(2) by simp_all
    from less.hyps [OF this] obtain n where n: "k + 1 \<le> n" "n \<le> tries"
      "\<forall>m. k + 1 \<le> m \<longrightarrow> m < n \<longrightarrow> contended (body m (state_at others s m))"
      "case body n (state_at others s n) of
         Inr (a, s') \<Rightarrow> run_from tries body others (k + 1) (state_at others s (k + 1)) = (Inr a, s')
       | Inl e \<Rightarrow> run_from tries body others (k + 1) (state_at others s (k + 1)) = (Inl e, state_at others s n)
           \<and> (contended (body n (state_at others s n)) \<longrightarrow> n = tries)" by blast
    have m: "contended (body m (state_at others s m))" if "k \<le> m" "m < n" for m
      using n(3) again(1) that by (cases "m = k") auto
    have eq: "run_from tries body others k (state_at others s k)
        = run_from tries body others (k + 1) (state_at others s (k + 1))"
      using again(3) unfolding st .
    show ?thesis
      by (intro exI [of _ n] conjI n(2) n(4) [folded eq] allI impI) (use n(1) m in simp_all)
  qed
qed

lemma run_contended_result:
  assumes "1 \<le> tries" "run_contended tries body others s = (res, s')"
  obtains n where "1 \<le> n" "n \<le> tries"
    "\<forall>m. 1 \<le> m \<longrightarrow> m < n \<longrightarrow> contended (body m (state_at others s m))"
    "case res of Inr a \<Rightarrow> body n (state_at others s n) = Inr (a, s')
      | Inl e \<Rightarrow> body n (state_at others s n) = Inl e \<and> s' = state_at others s n
          \<and> (contended (Inl e :: failure + unit) \<longrightarrow> n = tries)"
proof -
  have r: "run_from tries body others 1 (state_at others s 1) = (res, s')"
    using assms(2) by (simp add: run_contended_def)
  from run_from_attempt [OF order_refl assms(1), of body others s] obtain n where
    n: "1 \<le> n" "n \<le> tries" "\<forall>m. 1 \<le> m \<longrightarrow> m < n \<longrightarrow> contended (body m (state_at others s m))"
    and o: "case body n (state_at others s n) of
         Inr (a, s') \<Rightarrow> run_from tries body others 1 (state_at others s 1) = (Inr a, s')
       | Inl e \<Rightarrow> run_from tries body others 1 (state_at others s 1) = (Inl e, state_at others s n)
           \<and> (contended (body n (state_at others s n)) \<longrightarrow> n = tries)" by blast
  show thesis
  proof (rule that [OF n])
    show "case res of Inr a \<Rightarrow> body n (state_at others s n) = Inr (a, s')
      | Inl e \<Rightarrow> body n (state_at others s n) = Inl e \<and> s' = state_at others s n
          \<and> (contended (Inl e :: failure + unit) \<longrightarrow> n = tries)"
    proof (cases "body n (state_at others s n)")
      case (Inl e)
      with r o show ?thesis by (simp add: contended_def)
    next
      case (Inr p)
      with r o show ?thesis by (cases p) simp
    qed
  qed
qed

end
