(* ===== verification/Actions.thy ===== *)
theory Actions
  imports TaskIds Contention
begin

text \<open>
  \<open>src/django_ox/actions.py\<close>: what an operator may do to a stored task.  A single-row
  action is a read followed by a compare-and-set; \<open>others\<close> is whatever other sessions commit
  between the two.  A bulk action is one transaction over chunks of keys, run again when it loses a
  race; \<open>fault\<close> says which statement of which attempt raises.
\<close>

section \<open>Single rows\<close>

definition max_attempts_limit :: int where
  "max_attempts_limit = 32767"

definition update_chunk_size :: nat where
  "update_chunk_size = 1000"

definition retryable_statuses :: "status set" where
  "retryable_statuses = {FAILED, LOST}"

definition discardable_statuses :: "status set" where
  "discardable_statuses = {READY, FAILED, LOST, WAITING}"

definition retry_fits :: "ox_task \<Rightarrow> bool" where
  "retry_fits r = (attempts r < max_attempts_limit)"

definition retryable :: "ox_task \<Rightarrow> bool" where
  "retryable r = (retry_fits r \<and> status r \<in> retryable_statuses)"

definition retry_read :: "uuid \<Rightarrow> table \<Rightarrow> (int \<times> int) option" where
  "retry_read k t =
     (case fetch k t of
        Some r \<Rightarrow> if retryable r then Some (lease_epoch r, attempts r) else None
      | None \<Rightarrow> None)"

definition requeued :: "int \<Rightarrow> int \<Rightarrow> ox_task \<Rightarrow> ox_task" where
  "requeued ep budget r =
     clear_lock (r\<lparr>status := READY, lease_epoch := ep, max_attempts := budget,
       run_after := None, finished_at := None\<rparr>)"

definition retry_pin :: "uuid \<Rightarrow> int \<Rightarrow> ox_task \<Rightarrow> bool" where
  "retry_pin k ep r = (pk r = k \<and> retryable r \<and> lease_epoch r = ep)"

definition retry_write :: "uuid \<Rightarrow> int \<Rightarrow> int \<Rightarrow> table \<Rightarrow> table \<times> nat" where
  "retry_write k ep n t = update_where (retry_pin k ep) (requeued (ep + 1) (n + 1)) t"

definition retry :: "(table \<Rightarrow> table) \<Rightarrow> task_id \<Rightarrow> table \<Rightarrow> table \<times> bool" where
  "retry others i t =
     (case pk_of i of
        None \<Rightarrow> (t, False)
      | Some k \<Rightarrow>
          (case retry_read k t of
             None \<Rightarrow> (t, False)
           | Some (ep, n) \<Rightarrow> let (t', moved) = retry_write k ep n (others t) in (t', moved = 1)))"

definition day_micros :: int where
  "day_micros = 86400000000"

definition expire_pin :: "uuid \<Rightarrow> ox_task \<Rightarrow> bool" where
  "expire_pin k r = (pk r = k \<and> status r = RUNNING \<and> locked_at r \<noteq> None)"

definition expired_at :: "int \<Rightarrow> ox_task \<Rightarrow> ox_task" where
  "expired_at past r = r\<lparr>lease_expires_at := Some past, locked_at := Some past\<rparr>"

definition expire_lease :: "int \<Rightarrow> task_id \<Rightarrow> table \<Rightarrow> table \<times> bool" where
  "expire_lease now i t =
     (case pk_of i of
        None \<Rightarrow> (t, False)
      | Some k \<Rightarrow>
          let (t', moved) = update_where (expire_pin k) (expired_at (now - day_micros)) t
          in (t', moved = 1))"

definition discardable :: "ox_task \<Rightarrow> bool" where
  "discardable r = (status r \<in> discardable_statuses)"

definition discard_read :: "uuid \<Rightarrow> table \<Rightarrow> int option" where
  "discard_read k t =
     (case fetch k t of Some r \<Rightarrow> if discardable r then Some (lease_epoch r) else None | None \<Rightarrow> None)"

definition discarded_at :: "int \<Rightarrow> ox_task \<Rightarrow> ox_task" where
  "discarded_at now r = clear_lock (r\<lparr>status := DISCARDED, finished_at := Some now\<rparr>)"

definition discard_pin :: "uuid \<Rightarrow> int \<Rightarrow> ox_task \<Rightarrow> bool" where
  "discard_pin k ep r = (pk r = k \<and> discardable r \<and> lease_epoch r = ep)"

definition discard :: "(table \<Rightarrow> table) \<Rightarrow> int \<Rightarrow> task_id \<Rightarrow> table \<Rightarrow> table \<times> bool" where
  "discard others now i t =
     (case pk_of i of
        None \<Rightarrow> (t, False)
      | Some k \<Rightarrow>
          (case discard_read k t of
             None \<Rightarrow> (t, False)
           | Some ep \<Rightarrow>
               let (t', moved) = update_where (discard_pin k ep) (discarded_at now) (others t)
               in (t', moved = 1)))"

section \<open>Selections\<close>

function chunks :: "nat \<Rightarrow> 'a list \<Rightarrow> 'a list list" where
  "chunks n xs = (if n = 0 \<or> xs = [] then [] else take n xs # chunks n (drop n xs))"
  by pat_completeness auto
termination
  by (relation "measure (\<lambda>(n, xs). length xs)") (auto simp: neq_Nil_conv)

declare chunks.simps [simp del]

text \<open>One attempt of the transaction, from statement number \<open>n\<close> on.\<close>

fun move_chunks ::
  "bool \<Rightarrow> (ox_task \<Rightarrow> bool) \<Rightarrow> (ox_task \<Rightarrow> ox_task) \<Rightarrow> (nat \<Rightarrow> failure option) \<Rightarrow> nat
     \<Rightarrow> uuid list list \<Rightarrow> table \<Rightarrow> failure + nat \<times> table" where
  "move_chunks locking P f fault n [] t = Inr (0, t)"
| "move_chunks locking P f fault n (c # cs) t =
     (case (if locking then fault n else None) of
        Some e \<Rightarrow> Inl e
      | None \<Rightarrow>
          (let m = (if locking then n + 1 else n) in
           case fault m of
             Some e \<Rightarrow> Inl e
           | None \<Rightarrow>
               let (t', k) = update_where (\<lambda>r. pk r \<in> set c \<and> P r) f t in
               rbind (move_chunks locking P f fault (m + 1) cs t') (\<lambda>(j, t''). Inr (k + j, t''))))"

definition move_in_key_order ::
  "bool \<Rightarrow> bool \<Rightarrow> nat \<Rightarrow> (nat \<Rightarrow> nat \<Rightarrow> failure option) \<Rightarrow> (nat \<Rightarrow> table \<Rightarrow> table) \<Rightarrow> uuid list
     \<Rightarrow> (ox_task \<Rightarrow> bool) \<Rightarrow> (ox_task \<Rightarrow> ox_task) \<Rightarrow> table \<Rightarrow> (failure + nat) \<times> table" where
  "move_in_key_order mariadb locking tries fault others ids P f t =
     (let ordered = sort_key (key_order mariadb) ids in
      run_contended tries
        (\<lambda>attempt s. move_chunks locking P f (fault attempt) 0 (chunks update_chunk_size ordered) s)
        others t)"

definition counted :: "nat \<Rightarrow> nat \<Rightarrow> (failure + nat) \<times> table \<Rightarrow> (failure + int \<times> int) \<times> table" where
  "counted distinct_ids malformed out =
     (case out of
        (Inl e, t) \<Rightarrow> (Inl e, t)
      | (Inr changed, t) \<Rightarrow> (Inr (int changed, int distinct_ids + int malformed - int changed), t))"

definition retried :: "ox_task \<Rightarrow> ox_task" where
  "retried r = requeued (lease_epoch r + 1) (attempts r + 1) r"

definition retry_many ::
  "bool \<Rightarrow> bool \<Rightarrow> nat \<Rightarrow> (nat \<Rightarrow> nat \<Rightarrow> failure option) \<Rightarrow> (nat \<Rightarrow> table \<Rightarrow> table) \<Rightarrow> task_id list
     \<Rightarrow> table \<Rightarrow> (failure + int \<times> int) \<times> table" where
  "retry_many mariadb locking tries fault others sel t =
     (let (ids, malformed) = ids_of sel in
      counted (length ids) malformed
        (move_in_key_order mariadb locking tries fault others ids retryable retried t))"

definition discard_many ::
  "bool \<Rightarrow> bool \<Rightarrow> nat \<Rightarrow> (nat \<Rightarrow> nat \<Rightarrow> failure option) \<Rightarrow> (nat \<Rightarrow> table \<Rightarrow> table) \<Rightarrow> int
     \<Rightarrow> task_id list \<Rightarrow> table \<Rightarrow> (failure + int \<times> int) \<times> table" where
  "discard_many mariadb locking tries fault others now sel t =
     (let (ids, malformed) = ids_of sel in
      counted (length ids) malformed
        (move_in_key_order mariadb locking tries fault others ids discardable (discarded_at now) t))"

section \<open>One row\<close>

lemma requeued_simps [row_simps]:
  "pk (requeued ep n r) = pk r" "status (requeued ep n r) = READY" "lease_epoch (requeued ep n r) = ep"
  "attempts (requeued ep n r) = attempts r" "max_attempts (requeued ep n r) = n"
  "worker_ids (requeued ep n r) = worker_ids r" "errors (requeued ep n r) = errors r"
  "run_after (requeued ep n r) = None" "locked_by (requeued ep n r) = None"
  by (simp_all add: requeued_def)

lemma discarded_simps [row_simps]:
  "pk (discarded_at now r) = pk r" "status (discarded_at now r) = DISCARDED"
  "lease_epoch (discarded_at now r) = lease_epoch r" "attempts (discarded_at now r) = attempts r"
  "max_attempts (discarded_at now r) = max_attempts r" "worker_ids (discarded_at now r) = worker_ids r"
  "errors (discarded_at now r) = errors r" "locked_by (discarded_at now r) = None"
  by (simp_all add: discarded_at_def)

lemma expired_simps [row_simps]:
  "pk (expired_at p r) = pk r" "status (expired_at p r) = status r" "lease_epoch (expired_at p r) = lease_epoch r"
  "attempts (expired_at p r) = attempts r" "max_attempts (expired_at p r) = max_attempts r"
  "worker_ids (expired_at p r) = worker_ids r" "errors (expired_at p r) = errors r"
  "locked_by (expired_at p r) = locked_by r" "lease_expires_at (expired_at p r) = Some p"
  by (simp_all add: expired_at_def)

lemma retried_pk [simp]: "pk (retried r) = pk r"
  by (simp add: retried_def row_simps)

lemma retry_read_Some:
  "retry_read k t = Some (ep, n) \<longleftrightarrow>
    (\<exists>r. fetch k t = Some r \<and> retryable r \<and> lease_epoch r = ep \<and> attempts r = n)"
  by (auto simp: retry_read_def split: option.splits)

lemma retry_moved:
  assumes wf: "wf_table (others t)" and m: "retry others i t = (t', True)"
  obtains k r q where "pk_of i = Some k" "fetch k t = Some r" "retryable r"
    "fetch k (others t) = Some q" "retryable q" "lease_epoch q = lease_epoch r"
    "t' = fst (retry_write k (lease_epoch r) (attempts r) (others t))"
    "fetch k t' = Some (requeued (lease_epoch r + 1) (attempts r + 1) q)"
proof -
  from m obtain k ep n where k: "pk_of i = Some k" and rd: "retry_read k t = Some (ep, n)"
    and w: "retry_write k ep n (others t) = (t', 1)"
    by (auto simp: retry_def split: option.splits prod.splits)
  from rd obtain r where r: "fetch k t = Some r" "retryable r" "ep = lease_epoch r" "n = attempts r"
    by (auto simp: retry_read_Some)
  from w have u: "update_where (retry_pin k ep) (requeued (ep + 1) (n + 1)) (others t) = (t', 1)"
    by (simp add: retry_write_def)
  have "\<forall>r. retry_pin k ep r \<longrightarrow> pk r = k" by (simp add: retry_pin_def)
  from update_moved [OF u wf this] obtain q where q: "fetch k (others t) = Some q" "retry_pin k ep q" .
  have "fetch k t' = Some (requeued (ep + 1) (n + 1) q)"
    using update_facts(2) [OF u wf, of k] q by (simp add: row_simps)
  then show thesis using that [OF k r(1,2) q(1)] q(2) w r(3,4) by (simp add: retry_pin_def)
qed

lemma retry_wf: "wf_table t \<Longrightarrow> wf_table (others t) \<Longrightarrow> wf_table (fst (retry others i t))"
  by (auto simp: retry_def retry_write_def row_simps split: option.splits prod.splits
      dest: update_facts(1))

lemma discard_moved:
  assumes wf: "wf_table (others t)" and m: "discard others now i t = (t', True)"
  obtains k r q where "pk_of i = Some k" "fetch k t = Some r" "discardable r"
    "fetch k (others t) = Some q" "discardable q" "lease_epoch q = lease_epoch r"
    "fetch k t' = Some (discarded_at now q)"
proof -
  from m obtain k ep where k: "pk_of i = Some k" and rd: "discard_read k t = Some ep"
    and u: "update_where (discard_pin k ep) (discarded_at now) (others t) = (t', 1)"
    by (auto simp: discard_def split: option.splits prod.splits)
  from rd obtain r where r: "fetch k t = Some r" "discardable r" "ep = lease_epoch r"
    by (auto simp: discard_read_def split: option.splits if_splits)
  have "\<forall>r. discard_pin k ep r \<longrightarrow> pk r = k" by (simp add: discard_pin_def)
  from update_moved [OF u wf this] obtain q where q: "fetch k (others t) = Some q" "discard_pin k ep q" .
  have "fetch k t' = Some (discarded_at now q)"
    using update_facts(2) [OF u wf, of k] q by (simp add: row_simps)
  then show thesis using that [OF k r(1,2) q(1)] q(2) r(3) by (simp add: discard_pin_def)
qed

section \<open>A running row is out of reach\<close>

lemma update_spares:
  assumes u: "update_where P f s = (s', n)" and wf: "wf_table s" and key: "\<forall>r. pk (f r) = pk r"
    and r: "fetch k s = Some r" and spared: "\<not> P r"
  shows "fetch k s' = Some r"
  using update_facts(2) [OF u wf key, of k] r spared by simp

lemma retry_spares_running:
  assumes "wf_table (others t)" "fetch k (others t) = Some r" "status r = RUNNING"
    and "retry others i t = (t', True)"
  shows "fetch k t' = Some r"
proof -
  from assms(4) obtain j ep n where
    u: "update_where (retry_pin j ep) (requeued (ep + 1) (n + 1)) (others t) = (t', 1)"
    by (auto simp: retry_def retry_write_def split: option.splits prod.splits)
  show ?thesis
    by (rule update_spares [OF u assms(1) _ assms(2)])
       (simp_all add: row_simps retry_pin_def retryable_def retryable_statuses_def assms(3))
qed

lemma discard_spares_running:
  assumes "wf_table (others t)" "fetch k (others t) = Some r" "status r = RUNNING"
    and "discard others now i t = (t', True)"
  shows "fetch k t' = Some r"
proof -
  from assms(4) obtain j ep where
    u: "update_where (discard_pin j ep) (discarded_at now) (others t) = (t', 1)"
    by (auto simp: discard_def split: option.splits prod.splits)
  show ?thesis
    by (rule update_spares [OF u assms(1) _ assms(2)])
       (simp_all add: row_simps discard_pin_def discardable_def discardable_statuses_def assms(3))
qed

lemma expire_lease_row:
  assumes wf: "wf_table t" and e: "expire_lease now i t = (t', True)"
  obtains k r where "pk_of i = Some k" "fetch k t = Some r" "status r = RUNNING" "locked_at r \<noteq> None"
    "fetch k t' = Some (expired_at (now - day_micros) r)"
proof -
  from e obtain k where k: "pk_of i = Some k"
    and u: "update_where (expire_pin k) (expired_at (now - day_micros)) t = (t', 1)"
    by (auto simp: expire_lease_def split: option.splits prod.splits)
  have "\<forall>r. expire_pin k r \<longrightarrow> pk r = k" by (simp add: expire_pin_def)
  from update_moved [OF u wf this] obtain r where r: "fetch k t = Some r" "expire_pin k r" .
  have "fetch k t' = Some (expired_at (now - day_micros) r)"
    using update_facts(2) [OF u wf, of k] r by (simp add: row_simps)
  then show thesis using that [OF k r(1)] r(2) by (simp add: expire_pin_def)
qed

section \<open>A selection\<close>

lemma concat_chunks: "0 < n \<Longrightarrow> concat (chunks n xs) = xs"
proof (induction n xs rule: chunks.induct)
  case (1 n xs)
  then show ?case by (cases "xs = []") (simp_all add: chunks.simps [of n xs] chunks.simps [of n "[]"])
qed

text \<open>What a bulk move makes of a table, and how many rows it moves.\<close>

definition move_rows :: "uuid set \<Rightarrow> (ox_task \<Rightarrow> bool) \<Rightarrow> (ox_task \<Rightarrow> ox_task) \<Rightarrow> table \<Rightarrow> table" where
  "move_rows A P f t = map (\<lambda>r. if pk r \<in> A \<and> P r then f r else r) t"

definition rows_moving :: "uuid set \<Rightarrow> (ox_task \<Rightarrow> bool) \<Rightarrow> table \<Rightarrow> nat" where
  "rows_moving A P t = length (filter (\<lambda>r. pk r \<in> A \<and> P r) t)"

lemma move_rows_Un:
  assumes "\<forall>r. pk (f r) = pk r" "A \<inter> B = {}"
  shows "move_rows B P f (move_rows A P f t) = move_rows (A \<union> B) P f t"
    and "rows_moving A P t + rows_moving B P (move_rows A P f t) = rows_moving (A \<union> B) P t"
  using assms by (induction t) (auto simp: move_rows_def rows_moving_def)

lemma move_chunks_Inr:
  assumes "move_chunks locking P f fault n cs t = Inr (j, t')"
    and "\<forall>r. pk (f r) = pk r" "distinct (concat cs)"
  shows "t' = move_rows (set (concat cs)) P f t \<and> j = rows_moving (set (concat cs)) P t"
  using assms(1,3)
proof (induction cs arbitrary: n t j t')
  case Nil
  then show ?case by (simp add: move_rows_def rows_moving_def)
next
  case (Cons c cs)
  let ?u = "move_rows (set c) P f t"
  from Cons.prems(1) obtain m i where m: "move_chunks locking P f fault m cs ?u = Inr (i, t')"
    and j: "j = rows_moving (set c) P t + i"
    by (auto simp: update_where_def move_rows_def rows_moving_def Let_def rbind_Inr_iff
        split: option.splits if_splits)
  from Cons.prems(2) have d: "distinct (concat cs)" "set c \<inter> set (concat cs) = {}" by auto
  from Cons.IH [OF m d(1)] move_rows_Un [OF assms(2) d(2), of P t] j
  show ?case by (simp add: Un_commute)
qed

lemma move_chunks_clean:
  assumes "\<forall>m. fault m = None"
  shows "move_chunks locking P f fault n cs t \<noteq> Inl e"
  using assms
  by (induction cs arbitrary: n t) (auto simp: update_where_def Let_def rbind_Inl_iff)

text \<open>
  A bulk move commits the whole selection from the state one attempt starts from, or, after an
  error, nothing.
\<close>

lemma move_in_key_order_cases:
  assumes keep: "\<forall>r. pk (f r) = pk r" and ids: "distinct ids" and tries: "1 \<le> tries"
    and out: "move_in_key_order mariadb locking tries fault others ids P f t = (res, t')"
  obtains n where "1 \<le> n" "n \<le> tries"
    "\<And>j. res = Inr j \<Longrightarrow> j = rows_moving (set ids) P (state_at others t n)
        \<and> t' = move_rows (set ids) P f (state_at others t n)"
    "\<And>e. res = Inl e \<Longrightarrow> t' = state_at others t n"
proof -
  let ?cs = "chunks update_chunk_size (sort_key (key_order mariadb) ids)"
  let ?body = "\<lambda>attempt s. move_chunks locking P f (fault attempt) 0 ?cs s"
  have cs: "distinct (concat ?cs)" "set (concat ?cs) = set ids"
    using ids by (simp_all add: concat_chunks update_chunk_size_def del: set_concat)
  have r: "run_from tries ?body others 1 (state_at others t 1) = (res, t')"
    using out by (simp add: move_in_key_order_def run_contended_def Let_def)
  from run_from_attempt [OF order_refl tries, of ?body others t] obtain n where
    n: "1 \<le> n" "n \<le> tries" and o: "case ?body n (state_at others t n) of
         Inr (a, s') \<Rightarrow> run_from tries ?body others 1 (state_at others t 1) = (Inr a, s')
       | Inl e \<Rightarrow> run_from tries ?body others 1 (state_at others t 1) = (Inl e, state_at others t n)
           \<and> (contended (?body n (state_at others t n)) \<longrightarrow> n = tries)" by blast
  show thesis
  proof (rule that [OF n])
    fix j assume "res = Inr j"
    with r o have "?body n (state_at others t n) = Inr (j, t')" by (auto split: sum.splits prod.splits)
    from move_chunks_Inr [OF this keep cs(1)] cs(2)
    show "j = rows_moving (set ids) P (state_at others t n)
        \<and> t' = move_rows (set ids) P f (state_at others t n)" by simp
  next
    fix e assume "res = Inl e"
    with r o show "t' = state_at others t n" by (auto split: sum.splits prod.splits)
  qed
qed

lemma move_in_key_order_clean:
  assumes keep: "\<forall>r. pk (f r) = pk r" and ids: "distinct ids" and tries: "1 \<le> tries"
    and clean: "\<forall>a m. fault a m = None"
  shows "move_in_key_order mariadb locking tries fault others ids P f t
    = (Inr (rows_moving (set ids) P t), move_rows (set ids) P f t)"
proof -
  let ?cs = "chunks update_chunk_size (sort_key (key_order mariadb) ids)"
  have cs: "distinct (concat ?cs)" "set (concat ?cs) = set ids"
    using ids by (simp_all add: concat_chunks update_chunk_size_def del: set_concat)
  obtain j t' where m: "move_chunks locking P f (fault 1) 0 ?cs t = Inr (j, t')"
    using move_chunks_clean [of "fault 1" locking P f 0 ?cs t] clean
    by (cases "move_chunks locking P f (fault 1) 0 ?cs t") auto
  from move_chunks_Inr [OF m keep cs(1)] cs(2) m show ?thesis
    by (simp add: move_in_key_order_def run_contended_def run_from.simps)
qed

lemma rows_moving_le: "wf_table t \<Longrightarrow> finite A \<Longrightarrow> rows_moving A P t \<le> card A"
proof -
  assume wf: "wf_table t" and A: "finite A"
  let ?rs = "filter (\<lambda>r. pk r \<in> A \<and> P r) t"
  have "distinct (map pk ?rs)" using wf by (simp add: wf_table_def distinct_map_filter)
  from distinct_card [OF this] have "rows_moving A P t = card (pk ` set ?rs)"
    by (simp only: rows_moving_def set_map length_map)
  also have "\<dots> \<le> card A" using A by (intro card_mono) auto
  finally show ?thesis .
qed

lemma fetch_move_rows:
  assumes "wf_table t" "\<forall>r. pk (f r) = pk r"
  shows "fetch k (move_rows A P f t) = map_option (\<lambda>r. if k \<in> A \<and> P r then f r else r) (fetch k t)"
proof -
  have "update_where (\<lambda>r. pk r \<in> A \<and> P r) f t = (move_rows A P f t, rows_moving A P t)"
    by (simp add: update_where_def move_rows_def rows_moving_def)
  note u = update_facts(2) [OF this assms, of k]
  show ?thesis
  proof (cases "fetch k t")
    case (Some r)
    then have "pk r = k" using fetch_Some [OF assms(1)] by blast
    with u Some show ?thesis by simp
  qed (use u in simp)
qed

lemma move_rows_wf: "wf_table t \<Longrightarrow> \<forall>r. pk (f r) = pk r \<Longrightarrow> wf_table (move_rows A P f t)"
  using update_facts(1) [of "\<lambda>r. pk r \<in> A \<and> P r" f t] by (simp add: update_where_def move_rows_def)

lemma rows_moving_card:
  assumes wf: "wf_table t"
  shows "rows_moving A P t = card {k \<in> A. \<exists>r. fetch k t = Some r \<and> P r}"
proof -
  let ?rs = "filter (\<lambda>r. pk r \<in> A \<and> P r) t"
  have "distinct (map pk ?rs)" using wf by (simp add: wf_table_def distinct_map_filter)
  from distinct_card [OF this] have "rows_moving A P t = card (pk ` set ?rs)"
    by (simp only: rows_moving_def set_map length_map)
  moreover have "pk ` set ?rs = {k \<in> A. \<exists>r. fetch k t = Some r \<and> P r}"
    using fetch_Some [OF wf] by (auto simp: image_iff)
  ultimately show ?thesis by simp
qed

lemma ids_of_distinct: "ids_of sel = (ids, malformed) \<Longrightarrow> distinct ids"
  by (auto simp: ids_of_def)

lemma keeps_key [simp]: "\<forall>r. pk (retried r) = pk r" "\<forall>r. pk (discarded_at now r) = pk r"
  by (simp_all add: row_simps)

text \<open>A bulk action that met no fault: the counts it returns and what each row became.\<close>

lemma bulk_clean:
  assumes wf: "wf_table t" and keep: "\<forall>r. pk (f r) = pk r" and tries: "1 \<le> tries"
    and clean: "\<forall>a m. fault a m = None" and ids: "distinct ids"
    and out: "counted (length ids) malformed (move_in_key_order mariadb locking tries fault others ids P f t)
      = (Inr (changed, skipped), t')"
  shows "changed = int (card {k \<in> set ids. \<exists>r. fetch k t = Some r \<and> P r})"
    and "changed + skipped = int (length ids + malformed)" and "0 \<le> skipped"
    and "fetch k t' = map_option (\<lambda>r. if k \<in> set ids \<and> P r then f r else r) (fetch k t)"
proof -
  note m = move_in_key_order_clean [OF keep ids tries clean, of mariadb locking others P t]
  from out m have c: "changed = int (rows_moving (set ids) P t)"
    "skipped = int (length ids) + int malformed - changed" "t' = move_rows (set ids) P f t"
    by (auto simp: counted_def)
  show "changed = int (card {k \<in> set ids. \<exists>r. fetch k t = Some r \<and> P r})"
    using c(1) rows_moving_card [OF wf] by simp
  show "changed + skipped = int (length ids + malformed)" using c(2) by simp
  show "0 \<le> skipped"
    using c(1,2) rows_moving_le [OF wf, of "set ids" P] distinct_card [OF ids] by simp
  show "fetch k t' = map_option (\<lambda>r. if k \<in> set ids \<and> P r then f r else r) (fetch k t)"
    unfolding c(3) by (rule fetch_move_rows [OF wf keep])
qed

end
