(* ===== verification/Waiting.thy ===== *)
theory Waiting
  imports Actions
begin

text \<open>
  \<open>src/django_ox/_waiting.py\<close>: moves into and out of \<open>WAITING\<close>.  Every move is a
  compare-and-set on status and lease epoch.  A bulk release commits chunk by chunk; a bulk cancel
  and a bulk revival are one transaction.
\<close>

section \<open>Statements\<close>

definition cancellable :: "status list" where
  "cancellable = [READY, WAITING]"

text \<open>\<open>_released\<close>: the later of now and the row's own \<open>run_after\<close>.\<close>

definition released :: "int \<Rightarrow> ox_task \<Rightarrow> ox_task" where
  "released now r = r\<lparr>status := READY,
     run_after := Some (case run_after r of Some u \<Rightarrow> if now < u then u else now | None \<Rightarrow> now)\<rparr>"

definition release_pin :: "uuid \<Rightarrow> int \<Rightarrow> ox_task \<Rightarrow> bool" where
  "release_pin k ep r = (pk r = k \<and> status r = WAITING \<and> lease_epoch r = ep)"

definition release :: "int \<Rightarrow> task_id \<Rightarrow> int \<Rightarrow> table \<Rightarrow> table \<times> bool" where
  "release now i ep t =
     (case pk_of i of
        None \<Rightarrow> (t, False)
      | Some k \<Rightarrow> let (t', moved) = update_where (release_pin k ep) (released now) t in (t', moved = 1))"

text \<open>
  \<open>_pinned_rows\<close>: one epoch compares a constant, several compare a \<open>CASE\<close> on the key whose
  branches are tried in ascending epoch order; no branch gives \<open>NULL\<close>, which equals nothing.
\<close>

definition epochs_of :: "(uuid \<times> int) list \<Rightarrow> int list" where
  "epochs_of chunk = sort (remdups (map snd chunk))"

definition keys_at :: "(uuid \<times> int) list \<Rightarrow> int \<Rightarrow> uuid list" where
  "keys_at chunk ep = map fst (filter (\<lambda>p. snd p = ep) chunk)"

definition case_epoch :: "(uuid \<times> int) list \<Rightarrow> uuid \<Rightarrow> int option" where
  "case_epoch chunk k = find (\<lambda>ep. k \<in> set (keys_at chunk ep)) (epochs_of chunk)"

definition pinned_rows :: "(uuid \<times> int) list \<Rightarrow> status list \<Rightarrow> ox_task \<Rightarrow> bool" where
  "pinned_rows chunk statuses r =
     (pk r \<in> fst ` set chunk \<and> status r \<in> set statuses
      \<and> (case epochs_of chunk of
           [ep] \<Rightarrow> lease_epoch r = ep
         | _ \<Rightarrow> case_epoch chunk (pk r) = Some (lease_epoch r)))"

text \<open>
  The locking read and the UPDATE of one chunk, the statements numbered from \<open>n\<close>: an error at
  either, or the next statement's number, the rows moved and the table.
\<close>

definition locked_update ::
  "bool \<Rightarrow> (nat \<Rightarrow> failure option) \<Rightarrow> nat \<Rightarrow> (ox_task \<Rightarrow> bool) \<Rightarrow> (ox_task \<Rightarrow> ox_task) \<Rightarrow> table
     \<Rightarrow> failure + nat \<times> nat \<times> table" where
  "locked_update locking fault n P f t =
     (case (if locking then fault n else None) of
        Some e \<Rightarrow> Inl e
      | None \<Rightarrow>
          (let m = (if locking then n + 1 else n) in
           case fault m of
             Some e \<Rightarrow> Inl e
           | None \<Rightarrow> let (t', k) = update_where P f t in Inr (m + 1, k, t')))"

section \<open>Bulk release\<close>

definition release_chunk ::
  "bool \<Rightarrow> int \<Rightarrow> (uuid \<times> int) list \<Rightarrow> (nat \<Rightarrow> failure option) \<Rightarrow> table \<Rightarrow> failure + nat \<times> table" where
  "release_chunk locking now chunk fault t =
     rbind (locked_update locking fault 0 (pinned_rows chunk [WAITING]) (released now) t)
       (\<lambda>(_, k, t'). Inr (k, t'))"

fun release_chunks ::
  "bool \<Rightarrow> nat \<Rightarrow> (nat \<Rightarrow> nat \<Rightarrow> nat \<Rightarrow> failure option) \<Rightarrow> (nat \<Rightarrow> nat \<Rightarrow> table \<Rightarrow> table) \<Rightarrow> int
     \<Rightarrow> nat \<Rightarrow> (uuid \<times> int) list list \<Rightarrow> table \<Rightarrow> (failure + nat) \<times> table" where
  "release_chunks locking tries fault others now i [] t = (Inr 0, t)"
| "release_chunks locking tries fault others now i (c # cs) t =
     (case run_contended tries (\<lambda>a s. release_chunk locking now c (fault i a) s) (others i) t of
        (Inl e, t') \<Rightarrow> (Inl e, t')
      | (Inr k, t') \<Rightarrow>
          (case release_chunks locking tries fault others now (i + 1) cs t' of
             (Inl e, t'') \<Rightarrow> (Inl e, t'')
           | (Inr m, t'') \<Rightarrow> (Inr (k + m), t'')))"

definition release_many ::
  "bool \<Rightarrow> bool \<Rightarrow> nat \<Rightarrow> (nat \<Rightarrow> nat \<Rightarrow> nat \<Rightarrow> failure option) \<Rightarrow> (nat \<Rightarrow> nat \<Rightarrow> table \<Rightarrow> table) \<Rightarrow> int
     \<Rightarrow> (task_id \<times> int) list \<Rightarrow> table \<Rightarrow> (failure + int \<times> int) \<times> table" where
  "release_many mariadb locking tries fault others now given t =
     (let (pairs, malformed) = pinned mariadb given in
      counted (length pairs) (length (remdups (List.map_filter id_text malformed)))
        (release_chunks locking tries fault others now 0 (chunks update_chunk_size pairs) t))"

section \<open>Bulk cancel\<close>

fun cancel_chunks ::
  "bool \<Rightarrow> int \<Rightarrow> (nat \<Rightarrow> failure option) \<Rightarrow> nat \<Rightarrow> (uuid \<times> int) list list \<Rightarrow> table
     \<Rightarrow> failure + nat \<times> table" where
  "cancel_chunks locking now fault n [] t = Inr (0, t)"
| "cancel_chunks locking now fault n (c # cs) t =
     rbind (locked_update locking fault n (pinned_rows c cancellable) (discarded_at now) t) (\<lambda>(m, k, t').
     rbind (cancel_chunks locking now fault m cs t') (\<lambda>(j, t''). Inr (k + j, t'')))"

definition cancel_many ::
  "bool \<Rightarrow> bool \<Rightarrow> nat \<Rightarrow> (nat \<Rightarrow> nat \<Rightarrow> failure option) \<Rightarrow> (nat \<Rightarrow> table \<Rightarrow> table) \<Rightarrow> int
     \<Rightarrow> (task_id \<times> int) list \<Rightarrow> table \<Rightarrow> (failure + nat) \<times> table" where
  "cancel_many mariadb locking tries fault others now given t =
     run_contended tries
       (\<lambda>a s. cancel_chunks locking now (fault a) 0 (chunks update_chunk_size (fst (pinned mariadb given))) s)
       others t"

section \<open>Bulk revival\<close>

datatype revival = REVIVED | NOT_FOUND | WRONG_STATUS_OR_EPOCH

datatype revive_error = NotATaskId task_id | ReviveFailed failure

definition revived :: "ox_task \<Rightarrow> ox_task" where
  "revived r = r\<lparr>status := WAITING, lease_epoch := lease_epoch r + 1, finished_at := None\<rparr>"

definition revival_of :: "table \<Rightarrow> uuid \<times> int \<Rightarrow> revival" where
  "revival_of t p =
     (case fetch (fst p) t of
        None \<Rightarrow> NOT_FOUND
      | Some r \<Rightarrow> if (status r, lease_epoch r) \<noteq> (DISCARDED, snd p) then WRONG_STATUS_OR_EPOCH else REVIVED)"

fun revive_chunks ::
  "(nat \<Rightarrow> failure option) \<Rightarrow> nat \<Rightarrow> (uuid \<times> int) list list \<Rightarrow> table
     \<Rightarrow> failure + (uuid \<times> revival) list \<times> table" where
  "revive_chunks fault n [] t = Inr ([], t)"
| "revive_chunks fault n (c # cs) t =
     (case fault n of
        Some e \<Rightarrow> Inl e
      | None \<Rightarrow>
          (let entries = map (\<lambda>p. (fst p, revival_of t p)) c;
               revivable = filter (\<lambda>p. revival_of t p = REVIVED) c
           in if revivable = [] then
                rbind (revive_chunks fault (n + 1) cs t) (\<lambda>(es, t''). Inr (entries @ es, t''))
              else
                (case fault (n + 1) of
                   Some e \<Rightarrow> Inl e
                 | None \<Rightarrow>
                     let (t', _) = update_where (pinned_rows revivable [DISCARDED]) revived t in
                     rbind (revive_chunks fault (n + 2) cs t') (\<lambda>(es, t''). Inr (entries @ es, t'')))))"

definition revive_many ::
  "bool \<Rightarrow> nat \<Rightarrow> (nat \<Rightarrow> nat \<Rightarrow> failure option) \<Rightarrow> (nat \<Rightarrow> table \<Rightarrow> table)
     \<Rightarrow> (task_id \<times> int) list \<Rightarrow> table \<Rightarrow> (revive_error + (uuid \<times> revival) list) \<times> table" where
  "revive_many mariadb tries fault others given t =
     (case pinned mariadb given of
        (pairs, bad # _) \<Rightarrow> (Inl (NotATaskId bad), t)
      | (pairs, []) \<Rightarrow>
          (case run_contended tries
                  (\<lambda>a s. revive_chunks (fault a) 0 (chunks update_chunk_size pairs) s) others t of
             (Inl e, t') \<Rightarrow> (Inl (ReviveFailed e), t')
           | (Inr es, t') \<Rightarrow> (Inr es, t')))"

section \<open>Pins\<close>

lemma released_simps [row_simps]:
  "pk (released now r) = pk r" "status (released now r) = READY" "lease_epoch (released now r) = lease_epoch r"
  "attempts (released now r) = attempts r" "max_attempts (released now r) = max_attempts r"
  "worker_ids (released now r) = worker_ids r" "errors (released now r) = errors r"
  "locked_by (released now r) = locked_by r"
  by (simp_all add: released_def)

lemma revived_simps [row_simps]:
  "pk (revived r) = pk r" "status (revived r) = WAITING" "lease_epoch (revived r) = lease_epoch r + 1"
  "attempts (revived r) = attempts r" "max_attempts (revived r) = max_attempts r"
  "worker_ids (revived r) = worker_ids r" "errors (revived r) = errors r"
  "locked_by (revived r) = locked_by r" "run_after (revived r) = run_after r"
  by (simp_all add: revived_def)

lemma case_epoch_eq:
  assumes "distinct (map fst c)"
  shows "case_epoch c k = Some ep \<longleftrightarrow> (k, ep) \<in> set c"
proof
  assume "case_epoch c k = Some ep"
  then have "k \<in> set (keys_at c ep)" unfolding case_epoch_def find_Some_iff by blast
  then show "(k, ep) \<in> set c" by (auto simp: keys_at_def)
next
  assume e: "(k, ep) \<in> set c"
  have uniq: "(k, e) \<in> set c \<Longrightarrow> e = ep" for e using assms e by (meson eq_key_imp_eq_value)
  from e have m: "ep \<in> set (epochs_of c)" "k \<in> set (keys_at c ep)"
    by (force simp: epochs_of_def keys_at_def)+
  have "find (\<lambda>ep. k \<in> set (keys_at c ep)) (epochs_of c) \<noteq> None"
    using m by (auto simp: find_None_iff)
  then obtain e where f: "find (\<lambda>ep. k \<in> set (keys_at c ep)) (epochs_of c) = Some e" by blast
  then have "k \<in> set (keys_at c e)" unfolding find_Some_iff by blast
  then have "(k, e) \<in> set c" by (auto simp: keys_at_def)
  with uniq f show "case_epoch c k = Some ep" by (simp add: case_epoch_def)
qed

definition pins :: "(uuid \<times> int) set \<Rightarrow> status set \<Rightarrow> ox_task \<Rightarrow> bool" where
  "pins A sts r = ((pk r, lease_epoch r) \<in> A \<and> status r \<in> sts)"

lemma pinned_rows_pins:
  assumes d: "distinct (map fst c)"
  shows "pinned_rows c sts r = pins (set c) (set sts) r"
proof (cases "\<exists>ep. epochs_of c = [ep]")
  case True
  then obtain ep where ep: "epochs_of c = [ep]" by blast
  have se: "set (epochs_of c) = snd ` set c" by (simp add: epochs_of_def)
  have "snd ` set c = {ep}" using se ep by simp
  then have "(k, e) \<in> set c \<longleftrightarrow> k \<in> fst ` set c \<and> e = ep" for k e by force
  then show ?thesis using ep by (auto simp: pinned_rows_def pins_def)
next
  case False
  then have "pinned_rows c sts r \<longleftrightarrow> pk r \<in> fst ` set c \<and> status r \<in> set sts
      \<and> case_epoch c (pk r) = Some (lease_epoch r)"
    by (auto simp: pinned_rows_def split: list.split)
  then show ?thesis unfolding case_epoch_eq [OF d] by (force simp: pins_def)
qed

lemma filter_disjoint_count:
  "(\<And>r. \<not> (P r \<and> Q r)) \<Longrightarrow>
    length (filter (\<lambda>r. P r \<or> Q r) t) = length (filter P t) + length (filter Q t)"
  by (induction t) auto

text \<open>Statements pinned to disjoint keys combine into one.\<close>

lemma pins_Un:
  assumes "\<forall>r. pk (f r) = pk r" "fst ` A \<inter> fst ` B = {}"
    and "update_where (pins A sts) f t = (t1, j)" "update_where (pins B sts) f t1 = (t2, k)"
  shows "update_where (pins (A \<union> B) sts) f t = (t2, j + k)"
proof -
  have off: "pins B sts (f r) = False" if "pins A sts r" for r
    using that assms(1,2) by (force simp: pins_def)
  have excl: "\<not> (pins A sts r \<and> pins B sts r)" for r
    using assms(2) by (force simp: pins_def)
  have un: "pins (A \<union> B) sts = (\<lambda>r. pins A sts r \<or> pins B sts r)" by (rule ext) (auto simp: pins_def)
  have t1: "t1 = map (\<lambda>r. if pins A sts r then f r else r) t" "j = length (filter (pins A sts) t)"
    using assms(3) by (simp_all add: update_where_def)
  have "t2 = map (\<lambda>r. if pins B sts r then f r else r) t1" "k = length (filter (pins B sts) t1)"
    using assms(4) by (simp_all add: update_where_def)
  moreover have "map (\<lambda>r. if pins B sts r then f r else r) t1 = map (\<lambda>r. if pins (A \<union> B) sts r then f r else r) t"
    unfolding t1 map_map by (rule map_cong) (use off excl un in auto)
  moreover have "length (filter (pins B sts) t1) = length (filter (pins B sts) t)"
    unfolding t1 by (rule filter_map_same) (use off excl in auto)
  ultimately show ?thesis unfolding update_where_def prod.inject
    using filter_disjoint_count [of "pins A sts" "pins B sts" t] excl un t1(2) by auto
qed

lemma pins_empty: "update_where (pins {} sts) f t = (t, 0)"
  by (simp add: update_where_def pins_def)

lemma chunk_keys:
  "distinct (map fst (c @ cs)) \<Longrightarrow> distinct (map fst c) \<and> distinct (map fst cs) \<and> fst ` set c \<inter> fst ` set cs = {}"
  by auto

section \<open>What the bulk moves commit\<close>

lemma locked_update_Inr:
  "locked_update locking fault n P f t = Inr (m, k, t') \<Longrightarrow> update_where P f t = (t', k)"
  by (auto simp: locked_update_def Let_def split: option.splits if_splits prod.splits)

lemma cancel_chunks_Inr:
  assumes "cancel_chunks locking now fault n cs t = Inr (j, t')" "distinct (map fst (concat cs))"
  shows "update_where (pins (set (concat cs)) {READY, WAITING}) (discarded_at now) t = (t', j)"
  using assms
proof (induction cs arbitrary: n t j t')
  case Nil then show ?case by (simp add: pins_empty)
next
  case (Cons c cs)
  note d0 = chunk_keys [OF Cons.prems(2) [unfolded concat.simps]]
  then have d: "distinct (map fst c)" "distinct (map fst (concat cs))" "fst ` set c \<inter> fst ` set (concat cs) = {}"
    by blast+
  from Cons.prems(1) obtain m k t1 i where
    l: "locked_update locking fault n (pinned_rows c cancellable) (discarded_at now) t = Inr (m, k, t1)"
    and r: "cancel_chunks locking now fault m cs t1 = Inr (i, t')" and j: "j = k + i"
    by (auto simp: rbind_Inr_iff)
  have "pinned_rows c cancellable = pins (set c) {READY, WAITING}"
    by (rule ext) (simp add: pinned_rows_pins [OF d(1)] cancellable_def)
  with locked_update_Inr [OF l] have
    u: "update_where (pins (set c) {READY, WAITING}) (discarded_at now) t = (t1, k)" by simp
  from pins_Un [OF _ d(3) u Cons.IH [OF r d(2)]] j show ?case by (simp add: row_simps)
qed

lemma revival_of_other:
  assumes "wf_table t" "update_where (pins A sts) revived t = (t', k)" "fst p \<notin> fst ` A"
  shows "revival_of t' p = revival_of t p"
proof -
  have "fetch (fst p) t' = fetch (fst p) t"
  proof (cases "fetch (fst p) t")
    case (Some r)
    then have "pk r = fst p" using fetch_Some [OF assms(1)] by blast
    then have "\<not> pins A sts r"
      using assms(3) image_eqI [of "fst p" fst "(pk r, lease_epoch r)" A] by (auto simp: pins_def)
    then show ?thesis using update_facts(2) [OF assms(2,1), of "fst p"] Some by (simp add: row_simps)
  qed (use update_facts(2) [OF assms(2,1), of "fst p"] in \<open>simp add: row_simps\<close>)
  then show ?thesis by (simp add: revival_of_def)
qed

lemma revivable_pins:
  assumes wf: "wf_table t" and d: "distinct (map fst c)"
  shows "update_where (pinned_rows (filter (\<lambda>p. revival_of t p = REVIVED) c) [DISCARDED]) revived t
    = update_where (pins (set c) {DISCARDED}) revived t"
proof -
  have df: "distinct (map fst (filter (\<lambda>p. revival_of t p = REVIVED) c))"
    using d by (simp add: distinct_map_filter)
  have "pinned_rows (filter (\<lambda>p. revival_of t p = REVIVED) c) [DISCARDED] r = pins (set c) {DISCARDED} r"
    if "r \<in> set t" for r
  proof -
    from that wf have "fetch (pk r) t = Some r" by (simp add: fetch_Some)
    then have "revival_of t (pk r, lease_epoch r) = REVIVED \<longleftrightarrow> status r = DISCARDED"
      by (simp add: revival_of_def)
    then show ?thesis unfolding pinned_rows_pins [OF df] by (auto simp: pins_def)
  qed
  then show ?thesis unfolding update_where_def prod.inject by (auto intro!: arg_cong [where f = length] filter_cong)
qed

lemma revive_chunks_Inr:
  assumes "revive_chunks fault n cs t = Inr (es, t')" "distinct (map fst (concat cs))" "wf_table t"
  shows "es = map (\<lambda>p. (fst p, revival_of t p)) (concat cs)
    \<and> t' = fst (update_where (pins (set (concat cs)) {DISCARDED}) revived t)"
  using assms
proof (induction cs arbitrary: n t es t')
  case Nil then show ?case by (simp add: pins_empty)
next
  case (Cons c cs)
  note d0 = chunk_keys [OF Cons.prems(2) [unfolded concat.simps]]
  then have d: "distinct (map fst c)" "distinct (map fst (concat cs))" "fst ` set c \<inter> fst ` set (concat cs) = {}"
    by blast+
  let ?rev = "filter (\<lambda>p. revival_of t p = REVIVED) c"
  obtain t1 k where u: "update_where (pins (set c) {DISCARDED}) revived t = (t1, k)" by fastforce
  have same: "update_where (pinned_rows ?rev [DISCARDED]) revived t = (t1, k)"
    using revivable_pins [OF Cons.prems(3) d(1)] u by simp
  have "\<exists>m fs. revive_chunks fault m cs t1 = Inr (fs, t') \<and> es = map (\<lambda>p. (fst p, revival_of t p)) c @ fs"
  proof (cases "?rev = []")
    case True
    then have "t1 = t" using same by (simp add: update_where_def pinned_rows_def)
    with Cons.prems(1) True show ?thesis
      by (cases "fault n") (auto simp: Let_def rbind_Inr_iff simp del: filter_empty_conv)
  next
    case False
    with Cons.prems(1) show ?thesis unfolding revive_chunks.simps Let_def same
      by (auto simp: rbind_Inr_iff split: option.splits)
  qed
  then obtain m fs where r: "revive_chunks fault m cs t1 = Inr (fs, t')"
    and es: "es = map (\<lambda>p. (fst p, revival_of t p)) c @ fs" by blast
  have wf1: "wf_table t1" by (rule update_facts(1) [OF u Cons.prems(3)]) (simp add: row_simps)
  note ih = Cons.IH [OF r d(2) wf1]
  obtain k2 where u2: "update_where (pins (set (concat cs)) {DISCARDED}) revived t1 = (t', k2)"
    using ih by (metis prod.collapse)
  have "map (\<lambda>p. (fst p, revival_of t1 p)) (concat cs) = map (\<lambda>p. (fst p, revival_of t p)) (concat cs)"
  proof (rule map_cong [OF refl])
    fix p assume "p \<in> set (concat cs)"
    then have "fst p \<notin> fst ` set c" using d(3) by blast
    from revival_of_other [OF Cons.prems(3) u this]
    show "(fst p, revival_of t1 p) = (fst p, revival_of t p)" by simp
  qed
  with ih es pins_Un [OF _ d(3) u u2] show ?case by (simp add: row_simps)
qed

lemma revive_many_Inr:
  assumes tries: "1 \<le> tries" and wf: "\<forall>n. wf_table (state_at others t n)"
    and out: "revive_many mariadb tries fault others given t = (Inr es, t')"
  shows "\<exists>n. 1 \<le> n \<and> n \<le> tries
    \<and> es = map (\<lambda>p. (fst p, revival_of (state_at others t n) p)) (fst (pinned mariadb given))
    \<and> t' = fst (update_where (pins (set (fst (pinned mariadb given))) {DISCARDED}) revived (state_at others t n))"
proof -
  let ?ps = "fst (pinned mariadb given)"
  let ?body = "\<lambda>a s. revive_chunks (fault a) 0 (chunks update_chunk_size ?ps) s"
  have cs: "concat (chunks update_chunk_size ?ps) = ?ps" by (simp add: concat_chunks update_chunk_size_def)
  have "run_contended tries ?body others t = (Inr es, t')"
    using out by (cases "pinned mariadb given") (auto simp: revive_many_def split: list.splits sum.splits prod.splits)
  from run_contended_result [OF tries this] obtain n where
    n: "1 \<le> n" "n \<le> tries" and b: "?body n (state_at others t n) = Inr (es, t')" by auto
  from revive_chunks_Inr [OF b _ wf [rule_format]] n show ?thesis unfolding cs by (intro exI [of _ n]) simp
qed

end
