(* ===== verification/PyVal.thy ===== *)
theory PyVal
  imports Complex_Main PyStr
begin

text \<open>
  The values a settings file can hold, as the option parsers of this repository tell them apart.
  Floats are rationals, with the three that are not finite apart; a \<open>timedelta\<close> is its
  microseconds, from \<open>-999999999\<close> days to just under \<open>1000000000\<close> days.  \<open>PyOther\<close>
  is a value of any other type, named.
\<close>

datatype pyval =
    PyNone
  | PyBool bool
  | PyInt int
  | PyFloat rat
  | PyNan
  | PyInfinity bool
  | PyStr string
  | PyDelta int
  | PyList "pyval list"
  | PyTuple "pyval list"
  | PyDict "(pyval \<times> pyval) list"
  | PyOther string

text \<open>A dict given as its items in insertion order; keys are distinct in a Python dict.\<close>

definition dict_get :: "(pyval \<times> pyval) list \<Rightarrow> string \<Rightarrow> pyval option" where
  "dict_get d k = map_of d (PyStr k)"

definition dict_has :: "(pyval \<times> pyval) list \<Rightarrow> string \<Rightarrow> bool" where
  "dict_has d k = (dict_get d k \<noteq> None)"

definition delta_min :: int where
  "delta_min = - 999999999 * 86400000000"

definition delta_max :: int where
  "delta_max = 1000000000 * 86400000000 - 1"

text \<open>Round half to even, the rounding of \<open>timedelta(seconds=...)\<close>.\<close>

definition half_even :: "rat \<Rightarrow> int" where
  "half_even x =
     (let f = \<lfloor>x\<rfloor>; rest = x - of_int f in
      if rest < 1 / 2 then f else if 1 / 2 < rest then f + 1 else if even f then f else f + 1)"

definition to_micros :: "rat \<Rightarrow> int" where
  "to_micros s = half_even (s * 1000000)"

definition seconds_delta :: "rat \<Rightarrow> int option" where
  "seconds_delta s =
     (let us = to_micros s in if delta_min \<le> us \<and> us \<le> delta_max then Some us else None)"

lemma half_even_int [simp]: "half_even (of_int n) = n"
  by (simp add: half_even_def Let_def)

lemma to_micros_of_int [simp]: "to_micros (of_int n) = n * 1000000"
proof -
  have "(of_int n :: rat) * 1000000 = of_int (n * 1000000)" by simp
  then show ?thesis unfolding to_micros_def by (metis half_even_int)
qed

lemma half_even_near: "\<bar>of_int (half_even x) - x\<bar> \<le> 1 / 2"
proof -
  have f: "of_int \<lfloor>x\<rfloor> \<le> x" "x < of_int \<lfloor>x\<rfloor> + 1" by linarith+
  show ?thesis unfolding half_even_def Let_def using f by (auto split: if_splits)
qed

lemma half_even_mono_0: "0 \<le> x \<Longrightarrow> 0 \<le> half_even x"
  using half_even_near [of x] by linarith

lemma to_micros_nonneg: "0 \<le> s \<Longrightarrow> 0 \<le> to_micros s"
  by (simp add: to_micros_def half_even_mono_0)

end
