(* ===== verification/Outcome.thy ===== *)
theory Outcome
  imports TaskRow PyVal
begin

text \<open>
  Recording what an attempt did (\<open>src/django_ox/worker.py\<close>): the fenced outcome write, its
  second try on another connection, and the decision between a retry and \<open>FAILED\<close>.  Delays are
  rational seconds; \<open>to_micros\<close> is the rounding of \<open>timedelta(seconds=...)\<close>.
\<close>

section \<open>Outcomes\<close>

text \<open>An outcome write's columns: the status, then the values the caller computed.\<close>

datatype outcome =
    Succeeded json int "attempt_error list"
  | FailedNow int "attempt_error list" "int option"
  | RetryAt int "attempt_error list" "int option"

definition hand_over :: "int option \<Rightarrow> ox_task \<Rightarrow> ox_task" where
  "hand_over ep r = (case ep of None \<Rightarrow> r | Some e \<Rightarrow> r\<lparr>lease_epoch := e\<rparr>)"

fun outcome_fields :: "outcome \<Rightarrow> ox_task \<Rightarrow> ox_task" where
  "outcome_fields (Succeeded v now errs) r =
     clear_lock (r\<lparr>status := SUCCESSFUL, return_value := Some v, errors := errs, finished_at := Some now\<rparr>)"
| "outcome_fields (FailedNow now errs ep) r =
     hand_over ep (clear_lock (r\<lparr>status := FAILED, errors := errs, finished_at := Some now\<rparr>))"
| "outcome_fields (RetryAt due errs ep) r =
     hand_over ep (clear_lock (r\<lparr>status := READY, errors := errs, run_after := Some due\<rparr>))"

fun outcome_status :: "outcome \<Rightarrow> status" where
  "outcome_status (Succeeded v now errs) = SUCCESSFUL"
| "outcome_status (FailedNow now errs ep) = FAILED"
| "outcome_status (RetryAt due errs ep) = READY"

fun outcome_epoch :: "outcome \<Rightarrow> int option" where
  "outcome_epoch (Succeeded v now errs) = None"
| "outcome_epoch (FailedNow now errs ep) = ep"
| "outcome_epoch (RetryAt due errs ep) = ep"

definition writable_statuses :: "status set" where
  "writable_statuses = {RUNNING, LOST}"

definition outcome_pin :: "ox_task \<Rightarrow> ox_task \<Rightarrow> bool" where
  "outcome_pin d r = (pk r = pk d \<and> lease_epoch r = lease_epoch d \<and> status r \<in> writable_statuses)"

text \<open>\<open>_write_outcome\<close>: whether it landed, the task in memory, the table.\<close>

definition write_outcome :: "ox_task \<Rightarrow> outcome \<Rightarrow> table \<Rightarrow> (bool \<times> ox_task) \<times> table" where
  "write_outcome d out t =
     (let (t', updated) = update_where (outcome_pin d) (outcome_fields out) t in
      if updated = 0 then ((False, d), t') else ((True, outcome_fields out d), t'))"

section \<open>A second try\<close>

text \<open>
  \<open>_outcome_already_written\<close>: the row holds this write, by its columns that compare in SQL.
\<close>

definition outcome_already_written :: "ox_task \<Rightarrow> outcome \<Rightarrow> table \<Rightarrow> bool" where
  "outcome_already_written d out t =
     list_ex (\<lambda>r. pk r = pk d \<and> status r = outcome_status out
       \<and> lease_epoch r = (case outcome_epoch out of None \<Rightarrow> lease_epoch d | Some e \<Rightarrow> e)
       \<and> locked_by r = None \<and> locked_at r = None \<and> lease_expires_at r = None
       \<and> (case out of Succeeded _ now _ \<Rightarrow> finished_at r = Some now
                    | FailedNow now _ _ \<Rightarrow> finished_at r = Some now
                    | RetryAt due _ _ \<Rightarrow> run_after r = Some due)) t"

text \<open>
  How a statement's try ends: a reply, or a database error, with whether the server had applied the
  write and whether the connection is gone (a second try: whether the connect was refused).
\<close>

datatype reply = Replied | Broke bool bool

definition applied :: "bool \<Rightarrow> ox_task \<Rightarrow> outcome \<Rightarrow> table \<Rightarrow> table" where
  "applied a d out t = (if a then snd (write_outcome d out t) else t)"

text \<open>The tries after the first, one per remaining reply; \<open>waits\<close> is how many refusals may wait.\<close>

fun write_again ::
  "nat \<Rightarrow> reply list \<Rightarrow> (nat \<Rightarrow> table \<Rightarrow> table) \<Rightarrow> nat \<Rightarrow> ox_task \<Rightarrow> outcome \<Rightarrow> table
     \<Rightarrow> (bool \<times> ox_task) \<times> table" where
  "write_again waits [] others n d out t = ((False, d), t)"
| "write_again waits (Replied # rs) others n d out t =
     (let s = others n t in
      if outcome_already_written d out s then ((True, outcome_fields out d), s)
      else write_outcome d out s)"
| "write_again waits (Broke a refused # rs) others n d out t =
     (let s = others n t; s' = (if refused \<or> outcome_already_written d out s then s else applied a d out s) in
      if refused \<and> 0 < waits then write_again (waits - 1) rs others (n + 1) d out s'
      else ((False, d), s'))"

text \<open>
  \<open>_write_outcome_reconnecting\<close>: \<open>None\<close> is the error of the first try raised on, when its
  connection still answers or belongs to a caller's transaction.
\<close>

definition write_outcome_reconnecting ::
  "nat \<Rightarrow> reply \<Rightarrow> reply list \<Rightarrow> (nat \<Rightarrow> table \<Rightarrow> table) \<Rightarrow> ox_task \<Rightarrow> outcome \<Rightarrow> table
     \<Rightarrow> (bool \<times> ox_task) option \<times> table" where
  "write_outcome_reconnecting waits first rest others d out t =
     (case first of
        Replied \<Rightarrow> (case write_outcome d out t of (res, t') \<Rightarrow> (Some res, t'))
      | Broke a gone \<Rightarrow>
          (let s = applied a d out t in
           if \<not> gone then (None, s)
           else (case write_again waits rest others 0 d out s of (res, t') \<Rightarrow> (Some res, t'))))"

section \<open>Retry or fail\<close>

definition max_seconds :: rat where
  "max_seconds = 365250 * 86400"

record backoff_cfg =
  backoff_initial :: rat
  backoff_max :: rat

text \<open>The worker's exponential backoff, its exponent capped at 64 doublings.\<close>

definition worker_delay :: "backoff_cfg \<Rightarrow> int \<Rightarrow> rat" where
  "worker_delay b n =
     (let doublings = min (max (n - 1) 0) 64
      in min (backoff_initial b * 2 ^ nat doublings) (backoff_max b))"

datatype raised_kind = OrdinaryException | Interrupt | OtherBaseException

text \<open>What a task's backoff callback answered; \<open>AnsweredOther\<close> is any other value.\<close>

datatype answer =
    AnsweredNone
  | AnsweredSeconds int
  | AnsweredDelta int
  | AnsweredAwaitable
  | AnsweredOther
  | CallbackRaised raised_kind

datatype decision = Escapes | WorkerDecides | Declined | Delay rat

definition usable_delay :: "rat \<Rightarrow> decision" where
  "usable_delay s = (if 0 \<le> s \<and> s \<le> max_seconds then Delay s else WorkerDecides)"

definition backoff_decision :: "bool \<Rightarrow> answer \<Rightarrow> decision" where
  "backoff_decision inline ans =
     (case ans of
        CallbackRaised k \<Rightarrow> if inline \<and> k \<noteq> OrdinaryException then Escapes else WorkerDecides
      | AnsweredNone \<Rightarrow> Declined
      | AnsweredAwaitable \<Rightarrow> WorkerDecides
      | AnsweredOther \<Rightarrow> WorkerDecides
      | AnsweredSeconds n \<Rightarrow> usable_delay (of_int n)
      | AnsweredDelta us \<Rightarrow> usable_delay (of_int us / 1000000))"

text \<open>
  The policy an attempt resolved: whether the task was rebuilt, whether it runs on the caller's
  thread, and what its own backoff answers when it has one.
\<close>

record attempt_policy =
  pol_task :: bool
  pol_inline :: bool
  pol_backoff :: "answer option"

definition failure_decision :: "backoff_cfg \<Rightarrow> attempt_policy option \<Rightarrow> ox_task \<Rightarrow> decision" where
  "failure_decision b pol d =
     (if attempts d < max_attempts d then
        (case (case pol of None \<Rightarrow> WorkerDecides
                 | Some p \<Rightarrow> (case pol_backoff p of None \<Rightarrow> WorkerDecides
                     | Some ans \<Rightarrow> backoff_decision (pol_inline p) ans)) of
           WorkerDecides \<Rightarrow> Delay (worker_delay b (attempts d))
         | dec \<Rightarrow> dec)
      else Declined)"

datatype event =
    LeaseLost
  | TaskFailed bool
  | TaskRetrying rat
  | TaskSucceeded
  | FinishedSignal

definition failure_outcome :: "int \<Rightarrow> attempt_error \<Rightarrow> bool \<Rightarrow> ox_task \<Rightarrow> rat option \<Rightarrow> outcome" where
  "failure_outcome now err release d delay =
     (let errs = errors d @ [err]; ep = (if release then Some (lease_epoch d + 1) else None) in
      case delay of None \<Rightarrow> FailedNow now errs ep | Some s \<Rightarrow> RetryAt (now + to_micros s) errs ep)"

text \<open>
  \<open>_handle_failure\<close> for a write that gets its reply.  \<open>importable\<close> says whether the task
  imports when there is no policy to say so; \<open>None\<close> is the interrupt a caller's own thread raises
  on.
\<close>

definition handle_failure ::
  "backoff_cfg \<Rightarrow> attempt_policy option \<Rightarrow> bool \<Rightarrow> bool \<Rightarrow> int \<Rightarrow> attempt_error \<Rightarrow> ox_task \<Rightarrow> table
     \<Rightarrow> ((bool \<times> event list) \<times> ox_task) option \<times> table" where
  "handle_failure b policy importable release now err d t =
     (let pol = (if release then None else policy) in
      case failure_decision b pol d of
        Escapes \<Rightarrow> (None, t)
      | Delay s \<Rightarrow>
          (case write_outcome d (failure_outcome now err release d (Some s)) t of
             ((landed, d'), t') \<Rightarrow> (Some ((landed, [if landed then TaskRetrying s else LeaseLost]), d'), t'))
      | _ \<Rightarrow>
          (case write_outcome d (failure_outcome now err release d None) t of
             ((landed, d'), t') \<Rightarrow>
               (Some ((landed,
                  (if \<not> landed then [LeaseLost]
                   else (if (case pol of None \<Rightarrow> importable | Some p \<Rightarrow> pol_task p) then [FinishedSignal] else [])
                     @ [TaskFailed (attempts d < max_attempts d)])), d'), t')))"

section \<open>The fence\<close>

lemma hand_over_simps [simp]:
  "pk (hand_over ep r) = pk r" "status (hand_over ep r) = status r" "attempts (hand_over ep r) = attempts r"
  "max_attempts (hand_over ep r) = max_attempts r" "worker_ids (hand_over ep r) = worker_ids r"
  "errors (hand_over ep r) = errors r" "locked_by (hand_over ep r) = locked_by r"
  "lease_epoch (hand_over ep r) = (case ep of None \<Rightarrow> lease_epoch r | Some e \<Rightarrow> e)"
  by (simp_all add: hand_over_def split: option.split)

lemma outcome_fields_shape:
  "outcome_fields out r = hand_over (outcome_epoch out) (clear_lock
     (case out of
        Succeeded v now errs \<Rightarrow>
          r\<lparr>status := SUCCESSFUL, return_value := Some v, errors := errs, finished_at := Some now\<rparr>
      | FailedNow now errs ep \<Rightarrow> r\<lparr>status := FAILED, errors := errs, finished_at := Some now\<rparr>
      | RetryAt due errs ep \<Rightarrow> r\<lparr>status := READY, errors := errs, run_after := Some due\<rparr>))"
  by (cases out) (simp_all add: hand_over_def)

lemma outcome_fields_simps [row_simps]:
  "pk (outcome_fields out r) = pk r" "status (outcome_fields out r) = outcome_status out"
  "attempts (outcome_fields out r) = attempts r" "max_attempts (outcome_fields out r) = max_attempts r"
  "worker_ids (outcome_fields out r) = worker_ids r" "locked_by (outcome_fields out r) = None"
  "lease_epoch (outcome_fields out r) = (case outcome_epoch out of None \<Rightarrow> lease_epoch r | Some e \<Rightarrow> e)"
  by (simp_all split: outcome.split option.split add: outcome_fields_shape)

lemma outcome_status_final: "outcome_status out \<notin> writable_statuses"
  by (cases out) (simp_all add: writable_statuses_def)

lemma outcome_off: "\<not> outcome_pin d (outcome_fields out r)"
  using outcome_status_final [of out] by (simp add: outcome_pin_def row_simps)

lemma write_outcome_cases:
  assumes wf: "wf_table t" and w: "write_outcome d out t = ((landed, d'), t')"
  obtains (landed) r where "landed" "fetch (pk d) t = Some r" "outcome_pin d r"
      "fetch (pk d) t' = Some (outcome_fields out r)" "d' = outcome_fields out d" "wf_table t'"
  | (refused) "\<not> landed" "t' = t" "d' = d"
      "\<And>r. fetch (pk d) t = Some r \<Longrightarrow> \<not> outcome_pin d r"
proof -
  obtain t1 n where u: "update_where (outcome_pin d) (outcome_fields out) t = (t1, n)" by fastforce
  have pin: "\<forall>r. outcome_pin d r \<longrightarrow> pk r = pk d" by (simp add: outcome_pin_def)
  have key: "\<forall>r. pk (outcome_fields out r) = pk r" by (simp add: row_simps)
  note cnt = update_count [OF u wf pin]
  show thesis
  proof (cases "n = 0")
    case True
    then have off: "\<And>r. fetch (pk d) t = Some r \<Longrightarrow> \<not> outcome_pin d r"
      using cnt by (auto split: option.splits if_splits)
    have "\<not> outcome_pin d r" if "r \<in> set t" for r
      using off [of r] that fetch_Some [OF wf, of "pk d" r] pin by auto
    then have "t1 = t" using u by (auto simp: update_where_def intro!: map_idI)
    with True u w off show thesis by (intro refused) (simp_all add: write_outcome_def)
  next
    case False
    then obtain r where r: "fetch (pk d) t = Some r" "outcome_pin d r"
      using cnt by (auto split: option.splits if_splits)
    from update_facts(1) [OF u wf key] update_facts(2) [OF u wf key, of "pk d"] r False u w
    show thesis by (intro landed [OF _ r]) (simp_all add: write_outcome_def)
  qed
qed

text \<open>A second write of the same execution matches nothing.\<close>

lemma write_outcome_twice:
  assumes wf: "wf_table t" and w: "write_outcome d out t = ((True, d'), t')"
  shows "write_outcome d out' t' = ((False, d), t')"
proof -
  obtain b d2 t2 where w2: "write_outcome d out' t' = ((b, d2), t2)" by (metis prod.collapse)
  from wf w obtain r where r: "fetch (pk d) t' = Some (outcome_fields out r)" "wf_table t'"
    by (cases rule: write_outcome_cases) auto
  from r(2) w2 show ?thesis
    by (cases rule: write_outcome_cases) (use r(1) outcome_off in \<open>auto simp: w2\<close>)
qed

lemma applied_twice:
  assumes wf: "wf_table t"
  shows "applied a d out (applied b d out t) = (if a \<or> b then snd (write_outcome d out t) else t)"
proof (cases b)
  case True
  obtain landed d' t' where w: "write_outcome d out t = ((landed, d'), t')" by (metis prod.collapse)
  show ?thesis
  proof (cases landed)
    case l: True
    with w write_outcome_twice [of t d out d' t' out, OF wf] True show ?thesis by (simp add: applied_def)
  next
    case False
    from wf w have "t' = t" by (cases rule: write_outcome_cases) (use False in auto)
    with w True show ?thesis by (simp add: applied_def)
  qed
qed (simp add: applied_def)

text \<open>However the connection breaks, the table holds the write once or not at all.\<close>

lemma write_again_once:
  assumes again: "snd (write_outcome d out w) = w" "snd (write_outcome d out t) = w" and s: "s \<in> {t, w}"
  shows "snd (write_again waits rs (\<lambda>n u. u) n d out s) \<in> {t, w}"
  using s
proof (induction rs arbitrary: waits n s)
  case (Cons r rs)
  have one: "snd (write_outcome d out s) = w" using Cons.prems again by blast
  show ?case
  proof (cases r)
    case Replied
    then show ?thesis using Cons.prems one by (simp add: Let_def)
  next
    case (Broke a refused)
    define s1 where "s1 = (if refused \<or> outcome_already_written d out s then s else applied a d out s)"
    have "s1 \<in> {t, w}" unfolding s1_def applied_def one using Cons.prems by simp
    moreover have "write_again waits (Broke a refused # rs) (\<lambda>n u. u) n d out s =
      (if refused \<and> 0 < waits then write_again (waits - 1) rs (\<lambda>n u. u) (n + 1) d out s1 else ((False, d), s1))"
      unfolding write_again.simps Let_def s1_def ..
    ultimately show ?thesis using Cons.IH [of s1 "waits - 1" "n + 1"] unfolding Broke by (simp del: write_again.simps)
  qed
qed simp

lemma reconnecting_once:
  assumes wf: "wf_table t"
  shows "snd (write_outcome_reconnecting waits first rest (\<lambda>n u. u) d out t) \<in> {t, snd (write_outcome d out t)}"
proof (cases first)
  case Replied
  then show ?thesis by (auto simp: write_outcome_reconnecting_def split: prod.splits)
next
  case (Broke a gone)
  let ?w = "snd (write_outcome d out t)"
  have again: "snd (write_outcome d out ?w) = ?w"
    using applied_twice [OF wf, of True d out True] by (simp add: applied_def)
  have s: "applied a d out t \<in> {t, ?w}" by (simp add: applied_def)
  from write_again_once [OF again refl s, of waits rest 0] s Broke show ?thesis
    by (auto simp: write_outcome_reconnecting_def Let_def split: prod.splits)
qed

lemma worker_delay_bounds:
  assumes "0 \<le> backoff_initial b" "0 \<le> backoff_max b"
  shows "0 \<le> worker_delay b n" "worker_delay b n \<le> backoff_max b"
  using assms by (auto simp: worker_delay_def Let_def)

lemma worker_delay_mono:
  assumes "0 \<le> backoff_initial b" "m \<le> n"
  shows "worker_delay b m \<le> worker_delay b n"
proof -
  have "(2::rat) ^ nat (min (max (m - 1) 0) 64) \<le> 2 ^ nat (min (max (n - 1) 0) 64)"
    using assms(2) by (intro power_increasing) auto
  then have "backoff_initial b * 2 ^ nat (min (max (m - 1) 0) 64)
      \<le> backoff_initial b * 2 ^ nat (min (max (n - 1) 0) 64)"
    using assms(1) by (intro mult_left_mono)
  then show ?thesis by (simp add: worker_delay_def Let_def min.coboundedI1)
qed

lemma failure_delay_bounds:
  assumes "0 \<le> backoff_initial b" "0 \<le> backoff_max b" "backoff_max b \<le> max_seconds"
    and "failure_decision b pol d = Delay s"
  shows "attempts d < max_attempts d \<and> 0 \<le> s \<and> s \<le> max_seconds"
  using assms worker_delay_bounds [OF assms(1,2), of "attempts d"]
  by (auto simp: failure_decision_def backoff_decision_def usable_delay_def
      split: if_splits option.splits decision.splits answer.splits)

end
