(* ===== verification/Claim.thy ===== *)
theory Claim
  imports TaskRow
begin

text \<open>
  Claiming a task (\<open>src/django_ox/worker.py\<close>, from \<open>claim_filter_q\<close> to
  \<open>_reload_claimed\<close>): which rows are runnable, in which order, and the three ways a
  database lets one worker take one.  The single PostgreSQL statement computes the new values from the
  row it updates; the other two write literals computed from the row they read, under a row lock or
  under a compare-and-set.  \<open>busy\<close> is the set of rows other transactions hold locked, and
  \<open>others n\<close> what other sessions commit before the call's statement number \<open>n\<close>.
\<close>

section \<open>Configuration and candidates\<close>

record worker_cfg =
  worker_id :: string
  queues :: "string list"
  lock_timeout :: int
  reap_batch :: nat

datatype vendor = Postgresql | Mysql | Sqlite | OtherVendor

record db_features =
  vendor :: vendor
  skip_locked :: bool

record claim_filter =
  filter_q :: "(ox_task \<Rightarrow> bool) option"
  filter_sql :: "(ox_task \<Rightarrow> bool) option"

definition passes :: "(ox_task \<Rightarrow> bool) option \<Rightarrow> ox_task \<Rightarrow> bool" where
  "passes extra r = (case extra of None \<Rightarrow> True | Some p \<Rightarrow> p r)"

definition runnable :: "worker_cfg \<Rightarrow> (ox_task \<Rightarrow> bool) option \<Rightarrow> int \<Rightarrow> ox_task \<Rightarrow> bool" where
  "runnable cfg extra now r =
     (status r = READY \<and> (case run_after r of None \<Rightarrow> True | Some u \<Rightarrow> u \<le> now)
      \<and> (queues cfg = [] \<or> queue_name r \<in> set (queues cfg)) \<and> passes extra r)"

text \<open>
  \<open>ORDER BY priority DESC, enqueued_at\<close>; rows equal on both come in table order, which
  stands for the order the database happens to give them.
\<close>

definition claim_order :: "ox_task \<Rightarrow> int \<times> int" where
  "claim_order r = (- priority r, enqueued_at r)"

definition ready_queryset ::
  "worker_cfg \<Rightarrow> (ox_task \<Rightarrow> bool) option \<Rightarrow> int \<Rightarrow> table \<Rightarrow> ox_task list" where
  "ready_queryset cfg extra now t = sort_key claim_order (filter (runnable cfg extra now) t)"

text \<open>\<open>_postgresql_honours_the_claim_filter\<close>, and whether its notice is now logged.\<close>

definition honours_filter :: "claim_filter \<Rightarrow> bool \<Rightarrow> bool \<times> bool" where
  "honours_filter f noticed =
     (if filter_q f = None then (True, noticed)
      else if filter_sql f \<noteq> None then (True, noticed)
      else (False, True))"

section \<open>What a claim writes\<close>

definition claim_fields :: "worker_cfg \<Rightarrow> int \<Rightarrow> ox_task \<Rightarrow> ox_task \<Rightarrow> ox_task" where
  "claim_fields cfg clock c r =
     r\<lparr>status := RUNNING, locked_by := Some (worker_id cfg), locked_at := Some clock,
       lease_expires_at := Some (clock + lock_timeout cfg), lease_epoch := lease_epoch c + 1,
       attempts := attempts c + 1,
       started_at := Some (case started_at c of Some s \<Rightarrow> s | None \<Rightarrow> clock),
       last_attempted_at := Some clock, worker_ids := worker_ids c @ [worker_id cfg]\<rparr>"

definition claimed_row :: "worker_cfg \<Rightarrow> int \<Rightarrow> ox_task \<Rightarrow> ox_task" where
  "claimed_row cfg clock r =
     r\<lparr>status := RUNNING, locked_by := Some (worker_id cfg), locked_at := Some clock,
       lease_expires_at := Some (clock + lock_timeout cfg), lease_epoch := lease_epoch r + 1,
       attempts := attempts r + 1,
       started_at := Some (case started_at r of Some s \<Rightarrow> s | None \<Rightarrow> clock),
       last_attempted_at := Some clock, worker_ids := worker_ids r @ [worker_id cfg]\<rparr>"

section \<open>The three claims\<close>

definition claim_one_postgresql ::
  "worker_cfg \<Rightarrow> claim_filter \<Rightarrow> (uuid \<Rightarrow> bool) \<Rightarrow> int \<Rightarrow> int \<Rightarrow> table \<Rightarrow> ox_task option \<times> table" where
  "claim_one_postgresql cfg f busy now clock t =
     (case filter (\<lambda>r. \<not> busy (pk r)) (ready_queryset cfg (filter_sql f) now t) of
        [] \<Rightarrow> (None, t)
      | c # _ \<Rightarrow>
          (let t' = fst (update_where (\<lambda>r. pk r = pk c) (claimed_row cfg clock) t)
           in (fetch (pk c) t', t')))"

definition claim_one_locking ::
  "worker_cfg \<Rightarrow> claim_filter \<Rightarrow> (uuid \<Rightarrow> bool) \<Rightarrow> int \<Rightarrow> int \<Rightarrow> table \<Rightarrow> ox_task option \<times> table" where
  "claim_one_locking cfg f busy now clock t =
     (case filter (\<lambda>r. \<not> busy (pk r)) (ready_queryset cfg (filter_q f) now t) of
        [] \<Rightarrow> (None, t)
      | c # _ \<Rightarrow>
          (let t' = fst (update_where (\<lambda>r. pk r = pk c) (claim_fields cfg clock c) t)
           in (fetch (pk c) t', t')))"

definition cas_pin :: "ox_task \<Rightarrow> ox_task \<Rightarrow> bool" where
  "cas_pin c r = (pk r = pk c \<and> status r = READY \<and> attempts r = attempts c \<and> lease_epoch r = lease_epoch c)"

definition reload_claimed :: "uuid \<Rightarrow> int \<Rightarrow> table \<Rightarrow> ox_task option" where
  "reload_claimed k granted t =
     (case fetch k t of Some r \<Rightarrow> if lease_epoch r = granted then Some r else None | None \<Rightarrow> None)"

definition claim_batch_size :: nat where
  "claim_batch_size = 5"

fun claim_candidates ::
  "worker_cfg \<Rightarrow> (nat \<Rightarrow> table \<Rightarrow> table) \<Rightarrow> (nat \<Rightarrow> int) \<Rightarrow> nat \<Rightarrow> ox_task list \<Rightarrow> table
     \<Rightarrow> ox_task option \<times> table" where
  "claim_candidates cfg others clock n [] t = (None, t)"
| "claim_candidates cfg others clock n (c # cs) t =
     (let (t', moved) = update_where (cas_pin c) (claim_fields cfg (clock n) c) (others n t) in
      if moved = 0 then claim_candidates cfg others clock (n + 1) cs t'
      else (let s = others (n + 1) t' in
            case reload_claimed (pk c) (lease_epoch c + 1) s of
              None \<Rightarrow> claim_candidates cfg others clock (n + 2) cs s
            | Some held \<Rightarrow> (Some held, s)))"

text \<open>The compare-and-set claim also says whether it met only rows that others took.\<close>

definition claim_one_cas ::
  "worker_cfg \<Rightarrow> claim_filter \<Rightarrow> (nat \<Rightarrow> table \<Rightarrow> table) \<Rightarrow> int \<Rightarrow> (nat \<Rightarrow> int) \<Rightarrow> table
     \<Rightarrow> (ox_task option \<times> bool) \<times> table" where
  "claim_one_cas cfg f others now clock t =
     (let batch = take claim_batch_size (ready_queryset cfg (filter_q f) now t) in
      case claim_candidates cfg others clock 0 batch t of
        (Some held, t') \<Rightarrow> ((Some held, False), t')
      | (None, t') \<Rightarrow> ((None, batch \<noteq> []), t'))"

text \<open>\<open>_claim_one\<close>: which of the three, by what the database offers.\<close>

definition claim_one ::
  "db_features \<Rightarrow> worker_cfg \<Rightarrow> claim_filter \<Rightarrow> bool \<Rightarrow> (uuid \<Rightarrow> bool) \<Rightarrow> (nat \<Rightarrow> table \<Rightarrow> table)
     \<Rightarrow> int \<Rightarrow> (nat \<Rightarrow> int) \<Rightarrow> table \<Rightarrow> (ox_task option \<times> bool) \<times> table" where
  "claim_one db cfg f noticed busy others now clock t =
     (if vendor db = Postgresql \<and> skip_locked db \<and> fst (honours_filter f noticed) then
        (case claim_one_postgresql cfg f busy now (clock 0) t of (c, t') \<Rightarrow> ((c, False), t'))
      else if skip_locked db then
        (case claim_one_locking cfg f busy now (clock 0) t of (c, t') \<Rightarrow> ((c, False), t'))
      else claim_one_cas cfg f others now clock t)"

section \<open>What they have in common\<close>

lemma claim_order_le:
  "claim_order r \<le> claim_order q \<longleftrightarrow>
    priority q < priority r \<or> priority q = priority r \<and> enqueued_at r \<le> enqueued_at q"
  unfolding claim_order_def lex_le_iff by auto

lemma claimed_simps [row_simps]:
  "pk (claimed_row cfg clock r) = pk r" "status (claimed_row cfg clock r) = RUNNING"
  "lease_epoch (claimed_row cfg clock r) = lease_epoch r + 1" "attempts (claimed_row cfg clock r) = attempts r + 1"
  "max_attempts (claimed_row cfg clock r) = max_attempts r"
  "worker_ids (claimed_row cfg clock r) = worker_ids r @ [worker_id cfg]"
  "errors (claimed_row cfg clock r) = errors r" "locked_by (claimed_row cfg clock r) = Some (worker_id cfg)"
  by (simp_all add: claimed_row_def)

text \<open>The literals of \<open>_claim_fields\<close> are the expressions of the PostgreSQL statement, while
  the row is at the version that was read.\<close>

lemma claim_fields_same:
  assumes "attempts c = attempts r" "lease_epoch c = lease_epoch r" "worker_ids c = worker_ids r"
    "started_at c = started_at r"
  shows "claim_fields cfg clock c r = claimed_row cfg clock r"
  using assms by (simp add: claim_fields_def claimed_row_def)

lemma claim_fields_pk [simp]: "pk (claim_fields cfg clock c r) = pk r"
  by (simp add: claim_fields_def)

lemma claim_fields_epoch [simp]: "lease_epoch (claim_fields cfg clock c r) = lease_epoch c + 1"
  by (simp add: claim_fields_def)

lemma ready_queryset_set: "set (ready_queryset cfg extra now t) = {r \<in> set t. runnable cfg extra now r}"
  by (simp add: ready_queryset_def)

lemma ready_queryset_first:
  assumes "filter P (ready_queryset cfg extra now t) = c # cs"
  shows "c \<in> set t" "runnable cfg extra now c" "P c"
    "\<And>r. r \<in> set t \<Longrightarrow> runnable cfg extra now r \<Longrightarrow> P r \<Longrightarrow> claim_order c \<le> claim_order r"
proof -
  have in_c: "c \<in> set (filter P (ready_queryset cfg extra now t))" using assms by simp
  then show "c \<in> set t" "runnable cfg extra now c" "P c" by (auto simp: ready_queryset_set)
  have "sorted (map claim_order (ready_queryset cfg extra now t))"
    by (simp add: ready_queryset_def)
  then have s: "sorted (map claim_order (c # cs))"
    using assms by (metis sorted_map sorted_wrt_filter)
  fix r assume "r \<in> set t" "runnable cfg extra now r" "P r"
  then have "r \<in> set (filter P (ready_queryset cfg extra now t))" by (simp add: ready_queryset_set)
  then have "r \<in> set (c # cs)" using assms by simp
  then show "claim_order c \<le> claim_order r" using s by auto
qed

lemma claim_one_postgresql_same:
  assumes "wf_table t"
  shows "claim_one_postgresql cfg \<lparr>filter_q = e, filter_sql = e\<rparr> busy now clock t
    = claim_one_locking cfg \<lparr>filter_q = e, filter_sql = e\<rparr> busy now clock t"
proof -
  have "update_where (\<lambda>r. pk r = pk c) (claimed_row cfg clock) t
      = update_where (\<lambda>r. pk r = pk c) (claim_fields cfg clock c) t"
    if "c \<in> set t" for c
  proof -
    have "r = c" if "r \<in> set t" "pk r = pk c" for r
      using assms \<open>c \<in> set t\<close> that unfolding wf_table_def by (simp add: distinct_map inj_on_def)
    then have "r \<in> set t \<Longrightarrow> pk r = pk c \<Longrightarrow> claimed_row cfg clock r = claim_fields cfg clock c r" for r
      by (metis claim_fields_same)
    then show ?thesis by (simp add: update_where_def)
  qed
  moreover have "c \<in> set t" if "filter P (ready_queryset cfg e now t) = c # cs" for c cs P
    by (rule ready_queryset_first(1) [OF that])
  ultimately show ?thesis
    unfolding claim_one_postgresql_def claim_one_locking_def claim_filter.simps
    by (auto split: list.split)
qed

lemma claim_one_cas_same:
  assumes wf: "wf_table t"
  shows "claim_one_cas cfg f (\<lambda>n s. s) now (\<lambda>n. clock) t
    = (case claim_one_locking cfg f (\<lambda>k. False) now clock t of (c, t') \<Rightarrow> ((c, False), t'))"
proof (cases "ready_queryset cfg (filter_q f) now t")
  case Nil
  then show ?thesis by (simp add: claim_one_cas_def claim_one_locking_def)
next
  case (Cons c cs)
  then have "filter (\<lambda>r. True) (ready_queryset cfg (filter_q f) now t) = c # cs" by simp
  from ready_queryset_first(1,2) [OF this] have c: "c \<in> set t" "status c = READY" by (auto simp: runnable_def)
  let ?f = "claim_fields cfg clock c"
  let ?t = "fst (update_where (\<lambda>r. pk r = pk c) ?f t)"
  have pin: "cas_pin c r \<longleftrightarrow> pk r = pk c" if "r \<in> set t" for r
    using wf that c unfolding wf_table_def by (auto simp: distinct_map inj_on_def cas_pin_def)
  have fc: "fetch (pk c) t = Some c" by (simp add: fetch_Some [OF wf] c)
  have u: "update_where (cas_pin c) ?f t = (?t, 1)"
  proof -
    have "length (filter (cas_pin c) t) = 1"
      using pinned_length [OF wf, of "cas_pin c" "pk c"] fc c by (simp add: cas_pin_def)
    moreover have "map (\<lambda>r. if cas_pin c r then ?f r else r) t = ?t"
      using pin by (auto simp: update_where_def)
    ultimately show ?thesis by (simp add: update_where_def)
  qed
  have "fetch (pk c) ?t = Some (?f c)"
    using update_facts(2) [OF u wf, of "pk c"] fc c by (simp add: cas_pin_def)
  then have "reload_claimed (pk c) (lease_epoch c + 1) ?t = Some (?f c)" "fetch (pk c) ?t = Some (?f c)"
    by (simp_all add: reload_claimed_def)
  then show ?thesis using u Cons
    by (simp add: claim_one_cas_def claim_one_locking_def claim_batch_size_def Let_def)
qed

text \<open>Without interference every path claims the first runnable row, or there is none.\<close>

lemma claim_one_locking_first:
  assumes wf: "wf_table t" and c: "claim_one_locking cfg f (\<lambda>k. False) now clock t = (got, t')"
  shows "case got of
      None \<Rightarrow> t' = t \<and> (\<forall>r \<in> set t. \<not> runnable cfg (filter_q f) now r)
    | Some d \<Rightarrow> (\<exists>r \<in> set t. runnable cfg (filter_q f) now r \<and> d = claimed_row cfg clock r
        \<and> fetch (pk r) t' = Some d
        \<and> (\<forall>q \<in> set t. runnable cfg (filter_q f) now q \<longrightarrow> claim_order r \<le> claim_order q))"
proof (cases "ready_queryset cfg (filter_q f) now t")
  case Nil
  then have "\<forall>r \<in> set t. \<not> runnable cfg (filter_q f) now r"
    using ready_queryset_set [of cfg "filter_q f" now t] by auto
  with c Nil show ?thesis by (auto simp: claim_one_locking_def)
next
  case (Cons r rs)
  then have q: "filter (\<lambda>r. True) (ready_queryset cfg (filter_q f) now t) = r # rs" by simp
  note first = ready_queryset_first [OF q]
  obtain t1 n where u: "update_where (\<lambda>q. pk q = pk r) (claim_fields cfg clock r) t = (t1, n)" by fastforce
  have "fetch (pk r) t = Some r" using first(1) by (simp add: fetch_Some [OF wf])
  with update_facts(2) [OF u wf, of "pk r"] have "fetch (pk r) t1 = Some (claimed_row cfg clock r)"
    by (simp add: claim_fields_same)
  then have "got = Some (claimed_row cfg clock r)" "t' = t1" "fetch (pk r) t' = Some (claimed_row cfg clock r)"
    using c Cons u by (auto simp: claim_one_locking_def)
  with first show ?thesis by auto
qed

lemma claim_one_same:
  assumes "wf_table t"
  shows "claim_one db cfg \<lparr>filter_q = e, filter_sql = e\<rparr> noticed (\<lambda>k. False) (\<lambda>n s. s) now (\<lambda>n. clock) t
    = (case claim_one_locking cfg \<lparr>filter_q = e, filter_sql = e\<rparr> (\<lambda>k. False) now clock t of
         (c, t') \<Rightarrow> ((c, False), t'))"
  unfolding claim_one_def claim_one_postgresql_same [OF assms] claim_one_cas_same [OF assms] by simp

end
