(* ===== verification/Reaper.thy ===== *)
theory Reaper
  imports Claim TaskIds
begin

text \<open>
  The lease after the claim (\<open>src/django_ox/worker.py\<close>): the worker's renewal of its rows in
  flight, and the reaper, which takes rows back from workers that stopped renewing.  A read and the
  UPDATE that follows it are separate statements; \<open>others\<close> is what commits before the UPDATE, and
  each statement has its own reading of the lease clock and its own cutoff.
\<close>

section \<open>Renewal\<close>

text \<open>
  \<open>_renewable\<close>: of the executions in flight, the latest of each row decides, and one inside its
  caller's atomic block leaves the row out.
\<close>

definition latest_epoch :: "(uuid \<times> int) list \<Rightarrow> uuid \<Rightarrow> int" where
  "latest_epoch in_flight k = Max (set (map snd (filter (\<lambda>p. fst p = k) in_flight)))"

definition renewable :: "(uuid \<times> int) list \<Rightarrow> (uuid \<times> int) list \<Rightarrow> uuid list" where
  "renewable in_flight in_callers_block =
     filter (\<lambda>k. (k, latest_epoch in_flight k) \<notin> set in_callers_block) (remdups (map fst in_flight))"

definition renewed_row :: "worker_cfg \<Rightarrow> int \<Rightarrow> ox_task \<Rightarrow> ox_task" where
  "renewed_row cfg clock r = r\<lparr>locked_at := Some clock, lease_expires_at := Some (clock + lock_timeout cfg)\<rparr>"

definition renew_pin :: "worker_cfg \<Rightarrow> uuid list \<Rightarrow> ox_task \<Rightarrow> bool" where
  "renew_pin cfg ks r = (pk r \<in> set ks \<and> status r = RUNNING \<and> locked_by r = Some (worker_id cfg))"

definition renew_leases ::
  "worker_cfg \<Rightarrow> int \<Rightarrow> (uuid \<times> int) list \<Rightarrow> (uuid \<times> int) list \<Rightarrow> table \<Rightarrow> nat \<times> table" where
  "renew_leases cfg clock in_flight in_callers_block t =
     (let ks = renewable in_flight in_callers_block in
      if ks = [] then (0, t)
      else (case update_where (renew_pin cfg ks) (renewed_row cfg clock) t of (t', n) \<Rightarrow> (n, t')))"

section \<open>Abandoned leases\<close>

text \<open>A comparison with \<open>NULL\<close> is never true.\<close>

definition sql_less :: "int option \<Rightarrow> int \<Rightarrow> bool" where
  "sql_less a b = (case a of None \<Rightarrow> False | Some x \<Rightarrow> x < b)"

definition sql_ge :: "int option \<Rightarrow> int option \<Rightarrow> bool" where
  "sql_ge a b = (case (a, b) of (Some x, Some y) \<Rightarrow> y \<le> x | _ \<Rightarrow> False)"

definition abandoned_lease :: "int \<Rightarrow> int \<Rightarrow> ox_task \<Rightarrow> bool" where
  "abandoned_lease now cutoff r =
     (sql_less (lease_expires_at r) now
        \<and> (sql_ge (lease_expires_at r) (locked_at r) \<or> sql_less (locked_at r) cutoff)
      \<or> lease_expires_at r = None \<and> sql_less (locked_at r) cutoff)"

definition stuck :: "int \<Rightarrow> int \<Rightarrow> ox_task \<Rightarrow> bool" where
  "stuck now cutoff r = (abandoned_lease now cutoff r \<and> status r = RUNNING)"

section \<open>Requeue\<close>

record reap_clock =
  at_read :: "int \<times> int"
  at_write :: "int \<times> int"

datatype reap_log = NoLine | Names "uuid list" | CountOnly nat

definition requeue_manifest :: "bool \<Rightarrow> worker_cfg \<Rightarrow> int \<times> int \<Rightarrow> table \<Rightarrow> ox_task list" where
  "requeue_manifest mariadb cfg c t =
     take (reap_batch cfg) (sort_key (\<lambda>r. key_order mariadb (pk r))
       (filter (\<lambda>r. stuck (fst c) (snd c) r \<and> attempts r < max_attempts r) t))"

definition reclaimed_row :: "ox_task \<Rightarrow> ox_task" where
  "reclaimed_row r = clear_lock (r\<lparr>status := READY, lease_epoch := lease_epoch r + 1\<rparr>)"

definition requeue_pin :: "int \<times> int \<Rightarrow> uuid list \<Rightarrow> ox_task \<Rightarrow> bool" where
  "requeue_pin c ks r = (stuck (fst c) (snd c) r \<and> attempts r < max_attempts r \<and> pk r \<in> set ks)"

definition requeue_abandoned ::
  "bool \<Rightarrow> worker_cfg \<Rightarrow> reap_clock \<Rightarrow> (table \<Rightarrow> table) \<Rightarrow> table \<Rightarrow> (nat \<times> reap_log) \<times> table" where
  "requeue_abandoned mariadb cfg c others t =
     (let manifest = requeue_manifest mariadb cfg (at_read c) t in
      if manifest = [] then ((0, NoLine), t)
      else (case update_where (requeue_pin (at_write c) (map pk manifest)) reclaimed_row (others t) of
              (t', n) \<Rightarrow>
                if n = 0 then ((0, NoLine), t')
                else if n = length manifest then ((n, Names (map pk manifest)), t')
                else ((n, CountOnly n), t')))"

section \<open>Exhausted\<close>

definition quoted :: "string option \<Rightarrow> string" where
  "quoted w = (case w of None \<Rightarrow> ''None'' | Some s \<Rightarrow> [CHR 0x27] @ s @ [CHR 0x27])"

text \<open>The lost-lease note; worker ids have no character that \<open>repr\<close> escapes.\<close>

definition abandoned_error :: "string option \<Rightarrow> attempt_error" where
  "abandoned_error holder =
     \<lparr>exception_class_path = ''django_ox.exceptions.TaskAbandoned'',
      traceback = ''Worker '' @ quoted holder @
        '' stopped renewing its lease on this task; the lease expired with no attempts remaining. What the attempt did was never observed: it may have succeeded, it may have failed, it may not have got that far. This record is the lost lease, not a cause.''\<rparr>"

definition lost_row :: "int \<Rightarrow> ox_task \<Rightarrow> ox_task \<Rightarrow> ox_task" where
  "lost_row now d r =
     clear_lock (r\<lparr>status := LOST, finished_at := Some now,
       errors := errors d @ [abandoned_error (locked_by d)]\<rparr>)"

definition lost_pin :: "int \<times> int \<Rightarrow> ox_task \<Rightarrow> ox_task \<Rightarrow> bool" where
  "lost_pin c d r = (abandoned_lease (fst c) (snd c) r \<and> pk r = pk d \<and> status r = RUNNING
     \<and> lease_epoch r = lease_epoch d)"

definition exhausted_rows :: "bool \<Rightarrow> worker_cfg \<Rightarrow> int \<times> int \<Rightarrow> table \<Rightarrow> ox_task list" where
  "exhausted_rows mariadb cfg c t =
     take (reap_batch cfg) (sort_key (\<lambda>r. key_order mariadb (pk r))
       (filter (\<lambda>r. stuck (fst c) (snd c) r \<and> max_attempts r \<le> attempts r) t))"

fun mark_lost ::
  "(nat \<Rightarrow> int \<times> int) \<Rightarrow> (nat \<Rightarrow> int) \<Rightarrow> (nat \<Rightarrow> table \<Rightarrow> table) \<Rightarrow> nat \<Rightarrow> ox_task list \<Rightarrow> table
     \<Rightarrow> nat \<times> table" where
  "mark_lost cs now others i [] t = (0, t)"
| "mark_lost cs now others i (d # ds) t =
     (case update_where (lost_pin (cs i) d) (lost_row (now i) d) (others i t) of
        (t', n) \<Rightarrow> (case mark_lost cs now others (i + 1) ds t' of (m, t'') \<Rightarrow> ((if n = 0 then 0 else 1) + m, t'')))"

definition abandon_exhausted ::
  "bool \<Rightarrow> worker_cfg \<Rightarrow> int \<times> int \<Rightarrow> (nat \<Rightarrow> int \<times> int) \<Rightarrow> (nat \<Rightarrow> int) \<Rightarrow> (nat \<Rightarrow> table \<Rightarrow> table)
     \<Rightarrow> table \<Rightarrow> nat \<times> table" where
  "abandon_exhausted mariadb cfg c cs now others t =
     mark_lost cs now others 0 (exhausted_rows mariadb cfg c t) t"

text \<open>\<open>reap\<close>: both branches, the second reading the table the first left.\<close>

definition reap ::
  "bool \<Rightarrow> worker_cfg \<Rightarrow> reap_clock \<Rightarrow> (table \<Rightarrow> table) \<Rightarrow> int \<times> int \<Rightarrow> (nat \<Rightarrow> int \<times> int) \<Rightarrow> (nat \<Rightarrow> int)
     \<Rightarrow> (nat \<Rightarrow> table \<Rightarrow> table) \<Rightarrow> table \<Rightarrow> (nat \<times> reap_log) \<times> table" where
  "reap mariadb cfg c others c2 cs now others2 t =
     (case requeue_abandoned mariadb cfg c others t of
        ((n, line), t') \<Rightarrow>
          (case abandon_exhausted mariadb cfg c2 cs now others2 t' of (m, t'') \<Rightarrow> ((n + m, line), t'')))"

section \<open>Facts\<close>

lemma reaper_rows [row_simps]:
  "pk (renewed_row cfg clock r) = pk r" "status (renewed_row cfg clock r) = status r"
  "lease_epoch (renewed_row cfg clock r) = lease_epoch r" "attempts (renewed_row cfg clock r) = attempts r"
  "max_attempts (renewed_row cfg clock r) = max_attempts r" "worker_ids (renewed_row cfg clock r) = worker_ids r"
  "errors (renewed_row cfg clock r) = errors r" "locked_by (renewed_row cfg clock r) = locked_by r"
  "pk (reclaimed_row r) = pk r" "status (reclaimed_row r) = READY" "lease_epoch (reclaimed_row r) = lease_epoch r + 1"
  "attempts (reclaimed_row r) = attempts r" "max_attempts (reclaimed_row r) = max_attempts r"
  "worker_ids (reclaimed_row r) = worker_ids r" "errors (reclaimed_row r) = errors r"
  "pk (lost_row now d r) = pk r" "status (lost_row now d r) = LOST" "lease_epoch (lost_row now d r) = lease_epoch r"
  "attempts (lost_row now d r) = attempts r" "max_attempts (lost_row now d r) = max_attempts r"
  "worker_ids (lost_row now d r) = worker_ids r"
  by (simp_all add: renewed_row_def reclaimed_row_def lost_row_def)

text \<open>A lease its holder has just renewed is not abandoned, whatever the cutoff, until it expires.\<close>

lemma renewed_not_abandoned:
  assumes "0 \<le> lock_timeout cfg" "now \<le> clock + lock_timeout cfg"
  shows "\<not> abandoned_lease now cutoff (renewed_row cfg clock r)"
  using assms by (simp add: abandoned_lease_def renewed_row_def sql_less_def)

text \<open>A lease with an expiry of its own is judged by it alone, by every reaper alike.\<close>

lemma own_expiry_decides:
  assumes "lease_expires_at r = Some x" "locked_at r = Some l" "l \<le> x"
  shows "abandoned_lease now cutoff r \<longleftrightarrow> x < now"
  using assms by (auto simp: abandoned_lease_def sql_less_def sql_ge_def)

lemma latest_epoch_Max:
  assumes "(k, e) \<in> set fl" "\<And>e'. (k, e') \<in> set fl \<Longrightarrow> e' \<le> e"
  shows "latest_epoch fl k = e"
  unfolding latest_epoch_def by (rule Max_eqI) (use assms in \<open>auto intro: image_eqI [of _ snd "(k, e)"]\<close>)

lemma distinct_subset_eq:
  assumes "distinct xs" "set xs \<subseteq> set ys" "length xs = length ys"
  shows "set xs = set ys"
proof (rule card_subset_eq [OF finite_set assms(2)])
  have "card (set ys) \<le> length ys" by (rule card_length)
  moreover have "card (set xs) = length xs" by (rule distinct_card [OF assms(1)])
  moreover have "card (set xs) \<le> card (set ys)" by (rule card_mono [OF finite_set assms(2)])
  ultimately show "card (set xs) = card (set ys)" using assms(3) by simp
qed

text \<open>
  A line that names rows names exactly the rows the UPDATE moved, whatever happened between the
  read and the write.
\<close>

lemma requeue_names_exact:
  assumes wf: "wf_table (others t)"
    and q: "requeue_abandoned mariadb cfg c others t = ((n, Names ks), t')"
  shows "set ks = {k. \<exists>r. fetch k (others t) = Some r \<and> requeue_pin (at_write c) ks r}"
    and "k \<in> set ks \<Longrightarrow> \<exists>r. fetch k (others t) = Some r \<and> fetch k t' = Some (reclaimed_row r)"
    and "k \<notin> set ks \<Longrightarrow> fetch k t' = fetch k (others t)"
proof -
  let ?m = "requeue_manifest mariadb cfg (at_read c) t"
  have ks: "ks = map pk ?m" and u: "update_where (requeue_pin (at_write c) ks) reclaimed_row (others t) = (t', length ks)"
    using q by (auto simp: requeue_abandoned_def Let_def split: if_splits prod.splits)
  let ?hit = "filter (requeue_pin (at_write c) ks) (others t)"
  have "distinct (map pk ?hit)" using wf by (simp add: wf_table_def distinct_map_filter)
  moreover have "set (map pk ?hit) \<subseteq> set ks" by (auto simp: requeue_pin_def)
  moreover have "length (map pk ?hit) = length ks" using u by (simp add: update_where_def)
  ultimately have hit: "set (map pk ?hit) = set ks" by (rule distinct_subset_eq)
  show "set ks = {k. \<exists>r. fetch k (others t) = Some r \<and> requeue_pin (at_write c) ks r}"
    unfolding hit [symmetric] by (auto simp: fetch_Some [OF wf])
  note f = update_facts(2) [OF u wf]
  show "\<exists>r. fetch k (others t) = Some r \<and> fetch k t' = Some (reclaimed_row r)" if "k \<in> set ks"
  proof -
    from that have "k \<in> set (map pk ?hit)" unfolding hit .
    then obtain r where "r \<in> set (others t)" "requeue_pin (at_write c) ks r" "pk r = k" by auto
    then have "fetch k (others t) = Some r" "requeue_pin (at_write c) ks r" by (simp_all add: fetch_Some [OF wf])
    with f [of k] show ?thesis by (simp add: row_simps)
  qed
  show "fetch k t' = fetch k (others t)" if "k \<notin> set ks"
  proof (cases "fetch k (others t)")
    case (Some r)
    then have "\<not> requeue_pin (at_write c) ks r" using that by (simp add: fetch_Some [OF wf] requeue_pin_def)
    with f [of k] Some show ?thesis by (simp add: row_simps)
  qed (use f [of k] in \<open>simp add: row_simps\<close>)
qed

end
