(* ===== verification/Recovery.thy ===== *)
theory Recovery
  imports Reaper
begin

text \<open>
  A claim that raised and may have committed (\<open>src/django_ox/worker.py\<close>, \<open>_hand_off\<close> to
  \<open>_release_claim\<close>, and the registrations of \<open>execute\<close>): what a worker remembers of its own
  claims, the fence around a claim, and the look that puts a lost claim's row back on the queue with
  its attempt refunded.  A lease is a primary key with the epoch its claim was granted.
\<close>

type_synonym lease = "uuid \<times> int"

record own_claims =
  in_flight :: "lease list"
  handed_off :: "lease list"
  unsettled :: "lease list"
  claims_in_flight :: nat
  claim_generation :: nat
  claim_unconfirmed_at :: "int option"

section \<open>The claim fence\<close>

text \<open>\<open>_claiming\<close>: counted in and the generation moved on, then counted out.\<close>

definition count_in :: "own_claims \<Rightarrow> own_claims" where
  "count_in w = w\<lparr>claims_in_flight := claims_in_flight w + 1, claim_generation := claim_generation w + 1\<rparr>"

definition count_out :: "own_claims \<Rightarrow> own_claims" where
  "count_out w = w\<lparr>claims_in_flight := claims_in_flight w - 1\<rparr>"

definition hand_off :: "lease \<Rightarrow> own_claims \<Rightarrow> own_claims" where
  "hand_off l w = w\<lparr>handed_off := List.insert l (handed_off w)\<rparr>"

text \<open>\<open>_claim\<close> on a database error out of the claim.\<close>

definition note_raised :: "bool \<Rightarrow> int \<Rightarrow> own_claims \<Rightarrow> own_claims" where
  "note_raised noted tick w = (if noted then w\<lparr>claim_unconfirmed_at := Some tick\<rparr> else w)"

text \<open>\<open>execute\<close>: into flight in one step, and out of it in one step.\<close>

definition start_execution :: "lease \<Rightarrow> own_claims \<Rightarrow> own_claims" where
  "start_execution l w =
     w\<lparr>handed_off := removeAll l (handed_off w), in_flight := List.insert l (in_flight w)\<rparr>"

definition end_execution :: "bool \<Rightarrow> lease \<Rightarrow> own_claims \<Rightarrow> own_claims" where
  "end_execution recorded l w =
     w\<lparr>in_flight := removeAll l (in_flight w),
       unsettled := (if recorded then removeAll l (unsettled w) else List.insert l (unsettled w))\<rparr>"

section \<open>The look\<close>

datatype look_check = Deferred | NothingPending | StoppedLooking | LookAt nat

definition recovery_check :: "int \<Rightarrow> int \<Rightarrow> own_claims \<Rightarrow> look_check \<times> own_claims" where
  "recovery_check timeout tick w =
     (if claims_in_flight w \<noteq> 0 then (Deferred, w)
      else (case claim_unconfirmed_at w of
              None \<Rightarrow> (NothingPending, w)
            | Some since \<Rightarrow>
                if timeout < tick - since then (StoppedLooking, w\<lparr>claim_unconfirmed_at := None\<rparr>)
                else (LookAt (claim_generation w), w)))"

definition known_leases :: "own_claims \<Rightarrow> lease list" where
  "known_leases w = in_flight w @ handed_off w @ unsettled w"

definition examined_leases :: "own_claims \<Rightarrow> lease list" where
  "examined_leases w = handed_off w @ unsettled w"

definition recovery_rows :: "worker_cfg \<Rightarrow> table \<Rightarrow> ox_task list" where
  "recovery_rows cfg t = filter (\<lambda>r. status r = RUNNING \<and> locked_by r = Some (worker_id cfg)) t"

text \<open>
  The rows as the look read them: those of the first read, then those of the second, which reads
  only the examined keys the first did not return.
\<close>

definition seen_row :: "ox_task list \<Rightarrow> table \<Rightarrow> uuid \<Rightarrow> ox_task option" where
  "seen_row rows t2 k = (case fetch k rows of Some r \<Rightarrow> Some r | None \<Rightarrow> fetch k t2)"

definition claim_over :: "worker_cfg \<Rightarrow> ox_task list \<Rightarrow> table \<Rightarrow> lease \<Rightarrow> bool" where
  "claim_over cfg rows t2 l =
     (case seen_row rows t2 (fst l) of
        None \<Rightarrow> False
      | Some r \<Rightarrow> snd l < lease_epoch r
          \<or> lease_epoch r = snd l \<and> (status r \<noteq> RUNNING \<or> locked_by r \<noteq> Some (worker_id cfg)))"

definition forget_over :: "(lease \<Rightarrow> bool) \<Rightarrow> own_claims \<Rightarrow> own_claims \<Rightarrow> own_claims" where
  "forget_over over snapshot w =
     (let gone = filter over (examined_leases snapshot) in
      w\<lparr>handed_off := filter (\<lambda>l. l \<notin> set gone) (handed_off w),
        unsettled := filter (\<lambda>l. l \<notin> set gone) (unsettled w)\<rparr>)"

datatype verdict = Known | ReapersRow | Refused | Refund

definition look_verdict :: "worker_cfg \<Rightarrow> int \<Rightarrow> int \<Rightarrow> lease list \<Rightarrow> ox_task \<Rightarrow> verdict" where
  "look_verdict cfg now cutoff known r =
     (if pk r \<in> fst ` set known then Known
      else if abandoned_lease now cutoff r then ReapersRow
      else if \<not> (1 \<le> attempts r \<and> int (length (worker_ids r)) = attempts r
                 \<and> last (worker_ids r) = worker_id cfg) then Refused
      else Refund)"

section \<open>The release\<close>

definition refunded_row :: "ox_task \<Rightarrow> ox_task \<Rightarrow> ox_task" where
  "refunded_row d r =
     (let n = attempts d - 1;
          q = clear_lock (r\<lparr>status := READY, lease_epoch := lease_epoch d + 1, attempts := n,
                worker_ids := butlast (worker_ids d)\<rparr>)
      in if n = 0 then q\<lparr>started_at := None\<rparr> else q)"

definition refund_pin :: "worker_cfg \<Rightarrow> ox_task \<Rightarrow> ox_task \<Rightarrow> bool" where
  "refund_pin cfg d r =
     (pk r = pk d \<and> status r = RUNNING \<and> locked_by r = Some (worker_id cfg) \<and> lease_epoch r = lease_epoch d)"

definition release_claim :: "worker_cfg \<Rightarrow> ox_task \<Rightarrow> table \<Rightarrow> bool \<times> table" where
  "release_claim cfg d t =
     (case update_where (refund_pin cfg d) (refunded_row d) t of (t', n) \<Rightarrow> (n \<noteq> 0, t'))"

fun release_claims ::
  "worker_cfg \<Rightarrow> int \<Rightarrow> int \<Rightarrow> lease list \<Rightarrow> (nat \<Rightarrow> table \<Rightarrow> table) \<Rightarrow> nat \<Rightarrow> ox_task list \<Rightarrow> table
     \<Rightarrow> uuid list \<times> table" where
  "release_claims cfg now cutoff known others i [] t = ([], t)"
| "release_claims cfg now cutoff known others i (d # ds) t =
     (if look_verdict cfg now cutoff known d = Refund then
        (case release_claim cfg d (others i t) of
           (landed, t') \<Rightarrow>
             (case release_claims cfg now cutoff known others (i + 1) ds t' of
                (ks, t'') \<Rightarrow> ((if landed then [pk d] else []) @ ks, t'')))
      else release_claims cfg now cutoff known others i ds t)"

text \<open>
  \<open>_recover_claims\<close> on a usable connection.  \<open>w1\<close> is the worker's memory when the snapshot
  is taken, \<open>w2\<close> when the entries that are over are dropped, \<open>gen2\<close> and \<open>gen3\<close> the
  generation at the two comparisons; other threads of the worker move them.
\<close>

definition recover_claims ::
  "worker_cfg \<Rightarrow> int \<Rightarrow> int \<Rightarrow> int \<Rightarrow> own_claims \<Rightarrow> own_claims \<Rightarrow> own_claims \<Rightarrow> nat \<Rightarrow> nat
     \<Rightarrow> (nat \<Rightarrow> table \<Rightarrow> table) \<Rightarrow> table \<Rightarrow> (bool \<times> uuid list) \<times> own_claims \<times> table" where
  "recover_claims cfg tick now cutoff w0 w1 w2 gen2 gen3 others t =
     (case recovery_check (lock_timeout cfg) tick w0 of
        (Deferred, w) \<Rightarrow> ((False, []), w, t)
      | (NothingPending, w) \<Rightarrow> ((True, []), w, t)
      | (StoppedLooking, w) \<Rightarrow> ((True, []), w, t)
      | (LookAt g, _) \<Rightarrow>
          (let rows = recovery_rows cfg t; t2 = others 0 t;
               w = forget_over (claim_over cfg rows t2) w1 w2
           in if gen2 \<noteq> g then ((False, []), w, t2)
              else (case release_claims cfg now cutoff (known_leases w1) others 1 rows t2 of
                      (ks, t') \<Rightarrow>
                        if gen3 \<noteq> g then ((False, ks), w, t')
                        else ((True, ks), w\<lparr>claim_unconfirmed_at := None\<rparr>, t'))))"

section \<open>Facts\<close>

lemma refunded_simps [row_simps]:
  "pk (refunded_row d r) = pk r" "status (refunded_row d r) = READY" "lease_epoch (refunded_row d r) = lease_epoch d + 1"
  "attempts (refunded_row d r) = attempts d - 1" "max_attempts (refunded_row d r) = max_attempts r"
  "worker_ids (refunded_row d r) = butlast (worker_ids d)" "errors (refunded_row d r) = errors r"
  "locked_by (refunded_row d r) = None"
  by (simp_all add: refunded_row_def Let_def)

text \<open>The refund undoes the claim, but for the epoch and the instant of the claim.\<close>

lemma refund_undoes_claim:
  assumes "status r = READY" "locked_by r = None" "locked_at r = None" "lease_expires_at r = None"
    and "attempts r = 0 \<longleftrightarrow> started_at r = None"
  shows "refunded_row (claimed_row cfg clock r) (claimed_row cfg clock r)
    = r\<lparr>lease_epoch := lease_epoch r + 2, last_attempted_at := Some clock\<rparr>"
  using assms by (auto simp: refunded_row_def claimed_row_def clear_lock_def Let_def)

lemma release_claims_spare:
  assumes "wf_table t" "\<forall>i s. wf_table s \<longrightarrow> wf_table (others i s)"
    and "\<forall>i s. fetch k (others i s) = fetch k s" "k \<in> fst ` set known"
    and "release_claims cfg now cutoff known others i ds t = (ks, t')"
  shows "fetch k t' = fetch k t \<and> k \<notin> set ks"
  using assms(1,5)
proof (induction ds arbitrary: i t ks t')
  case (Cons d ds)
  show ?case
  proof (cases "look_verdict cfg now cutoff known d = Refund")
    case False
    with Cons show ?thesis by simp
  next
    case True
    then have kd: "pk d \<noteq> k" using assms(4) by (auto simp: look_verdict_def split: if_splits)
    obtain n t1 where u: "update_where (refund_pin cfg d) (refunded_row d) (others i t) = (t1, n)" by fastforce
    obtain ks2 t2 where r: "release_claims cfg now cutoff known others (i + 1) ds t1 = (ks2, t2)" by fastforce
    have wf: "wf_table (others i t)" using assms(2) Cons.prems(1) by simp
    have wf1: "wf_table t1" by (rule update_facts(1) [OF u wf]) (simp add: row_simps)
    have "fetch k t1 = fetch k (others i t)"
    proof (cases "fetch k (others i t)")
      case (Some r)
      then have "pk r = k" by (simp add: fetch_Some [OF wf])
      then have "\<not> refund_pin cfg d r" using kd by (simp add: refund_pin_def)
      with update_facts(2) [OF u wf, of k] Some show ?thesis by (simp add: row_simps)
    qed (use update_facts(2) [OF u wf, of k] in \<open>simp add: row_simps\<close>)
    moreover have "t' = t2" "set ks \<subseteq> insert (pk d) (set ks2)"
      using Cons.prems(2) True u r by (auto simp: release_claim_def split: if_splits)
    ultimately show ?thesis using Cons.IH [OF wf1 r] kd assms(3) by auto
  qed
qed simp

end
