(* ===== verification/Moves.thy ===== *)
theory Moves
  imports Waiting Outcome Recovery
begin

text \<open>
  What may ever happen to one task row.  \<open>row_move\<close> is the specification of the store: one
  constructor per UPDATE in the package, each with its guard.  Its consequences are what the rest of
  the program relies on: the lease epoch never goes back, what a claim read is determined by the
  epoch, and a row that left \<open>RUNNING\<close> comes back to it only through a new epoch.
\<close>

section \<open>The moves\<close>

inductive row_move :: "ox_task \<Rightarrow> ox_task \<Rightarrow> bool" where
  claim: "status r = READY \<Longrightarrow> row_move r (claimed_row cfg clock r)"
| renew: "status r = RUNNING \<Longrightarrow> row_move r (renewed_row cfg clock r)"
| outcome: "status r \<in> writable_statuses \<Longrightarrow> outcome_epoch out \<in> {None, Some (lease_epoch r + 1)} \<Longrightarrow>
    (outcome_status out = READY \<Longrightarrow> attempts r < max_attempts r) \<Longrightarrow> row_move r (outcome_fields out r)"
| requeue: "status r = RUNNING \<Longrightarrow> attempts r < max_attempts r \<Longrightarrow> row_move r (reclaimed_row r)"
| lost: "status r = RUNNING \<Longrightarrow> max_attempts r \<le> attempts r \<Longrightarrow> row_move r (lost_row now r r)"
| refund: "status r = RUNNING \<Longrightarrow> row_move r (refunded_row r r)"
| retry: "retryable r \<Longrightarrow> row_move r (retried r)"
| discard: "discardable r \<Longrightarrow> row_move r (discarded_at now r)"
| expire: "status r = RUNNING \<Longrightarrow> row_move r (expired_at past r)"
| release: "status r = WAITING \<Longrightarrow> row_move r (released now r)"
| revive: "status r = DISCARDED \<Longrightarrow> row_move r (revived r)"

lemmas row_move_intros [move_intros] = row_move.intros

inductive_cases row_move_from: "row_move r r'"

lemma retried_simps [row_simps]:
  "status (retried r) = READY" "lease_epoch (retried r) = lease_epoch r + 1"
  "attempts (retried r) = attempts r" "max_attempts (retried r) = attempts r + 1"
  "worker_ids (retried r) = worker_ids r" "locked_by (retried r) = None"
  by (simp_all add: retried_def row_simps)

lemma row_move_pk: "row_move r r' \<Longrightarrow> pk r' = pk r"
  by (induction rule: row_move.induct) (simp_all add: row_simps)

section \<open>The epoch orders a row's history\<close>

definition rank :: "status \<Rightarrow> int" where
  "rank s = (case s of RUNNING \<Rightarrow> 0 | LOST \<Rightarrow> 1 | _ \<Rightarrow> 2)"

definition stage :: "ox_task \<Rightarrow> int \<times> int" where
  "stage r = (lease_epoch r, rank (status r))"

lemma rank_simps [simp]:
  "rank READY = 2" "rank RUNNING = 0" "rank FAILED = 2" "rank SUCCESSFUL = 2" "rank LOST = 1"
  "rank DISCARDED = 2" "rank WAITING = 2"
  by (simp_all add: rank_def)

lemma rank_bounds: "0 \<le> rank s" "rank s \<le> 2"
  by (cases s; simp)+

lemma outcome_rank: "rank (outcome_status out) = 2"
  by (cases out) simp_all

lemma row_move_stage: "row_move r r' \<Longrightarrow> stage r \<le> stage r'"
  by (induction rule: row_move.induct)
     (auto simp: stage_def row_simps outcome_rank writable_statuses_def less_eq_prod_def
        discardable_def discardable_statuses_def)

definition frame :: "ox_task \<Rightarrow> int \<times> int \<times> string list \<times> int option" where
  "frame r = (attempts r, max_attempts r, worker_ids r, started_at r)"

lemma started_simps [row_simps]:
  "started_at (renewed_row cfg clock r) = started_at r" "started_at (expired_at p r) = started_at r"
  "started_at (lost_row now d r) = started_at r" "started_at (discarded_at now r) = started_at r"
  "started_at (released now r) = started_at r" "started_at (reclaimed_row r) = started_at r"
  "started_at (retried r) = started_at r" "started_at (revived r) = started_at r"
  "started_at (outcome_fields out r) = started_at r"
  by (simp_all add: renewed_row_def expired_at_def lost_row_def discarded_at_def released_def reclaimed_row_def
      retried_def requeued_def revived_def clear_lock_def outcome_fields_shape hand_over_def
      split: outcome.split option.split)

lemma row_move_frame: "row_move r r' \<Longrightarrow> lease_epoch r' = lease_epoch r \<Longrightarrow> frame r' = frame r"
  by (induction rule: row_move.induct) (auto simp: frame_def row_simps)

text \<open>Everything but the two lease instants.\<close>

definition core :: "ox_task \<Rightarrow> ox_task" where
  "core r = r\<lparr>locked_at := None, lease_expires_at := None\<rparr>"

lemma row_move_core:
  assumes "row_move r r'" "status r' = RUNNING" "lease_epoch r' = lease_epoch r"
  shows "core r' = core r \<and> status r = RUNNING"
  using assms
proof (induction rule: row_move.induct)
  case (outcome r out)
  then show ?case using outcome_status_final [of out] by (simp add: row_simps writable_statuses_def)
qed (simp_all add: row_simps core_def renewed_row_def expired_at_def)

section \<open>Histories\<close>

abbreviation evolves :: "ox_task \<Rightarrow> ox_task \<Rightarrow> bool" where
  "evolves \<equiv> row_move\<^sup>*\<^sup>*"

lemma evolves_pk: "evolves r r' \<Longrightarrow> pk r' = pk r"
  by (induction rule: rtranclp_induct) (auto dest: row_move_pk)

lemma evolves_stage: "evolves r r' \<Longrightarrow> stage r \<le> stage r'"
  by (induction rule: rtranclp_induct) (auto dest: row_move_stage)

lemma evolves_epoch: "evolves r r' \<Longrightarrow> lease_epoch r \<le> lease_epoch r'"
  by (drule evolves_stage) (auto simp: stage_def)

lemma evolves_frame:
  assumes "evolves r r'" "lease_epoch r' = lease_epoch r"
  shows "frame r' = frame r"
  using assms
proof (induction rule: rtranclp_induct)
  case (step y z)
  from evolves_epoch [OF step(1)] row_move_stage [OF step(2)] step.prems
  have "lease_epoch y = lease_epoch r" "lease_epoch z = lease_epoch y" by (auto simp: stage_def)
  with step.IH row_move_frame [OF step(2)] show ?case by simp
qed simp

text \<open>A row that is running at one epoch, before and after, has only been renewed.\<close>

lemma evolves_core:
  assumes "evolves r r'" "status r' = RUNNING" "lease_epoch r' = lease_epoch r"
  shows "core r' = core r \<and> status r = RUNNING"
  using assms
proof (induction rule: rtranclp_induct)
  case (step y z)
  from evolves_epoch [OF step(1)] row_move_stage [OF step(2)] step.prems(2)
  have e: "lease_epoch y = lease_epoch r" "lease_epoch z = lease_epoch y" by (auto simp: stage_def)
  from row_move_core [OF step(2) step.prems(1) e(2)] step.IH e(1) show ?case by simp
qed simp

lemma no_move_from_successful: "status r = SUCCESSFUL \<Longrightarrow> \<not> row_move r r'"
  by (auto elim!: row_move_from simp: writable_statuses_def retryable_def retryable_statuses_def
      discardable_def discardable_statuses_def)

lemma successful_final: "evolves r r' \<Longrightarrow> status r = SUCCESSFUL \<Longrightarrow> r' = r"
  by (induction rule: rtranclp_induct) (auto dest: no_move_from_successful)

text \<open>Once an outcome has landed at an epoch, no later version at that epoch is writable.\<close>

lemma landed_closes_epoch:
  assumes "evolves (outcome_fields out r) q" "lease_epoch q \<le> lease_epoch r"
    and "outcome_epoch out \<in> {None, Some (lease_epoch r + 1)}"
  shows "status q \<notin> writable_statuses"
proof -
  have "stage (outcome_fields out r) \<le> stage q" by (rule evolves_stage [OF assms(1)])
  then have "rank (status q) = 2 \<or> rank (status q) > 2"
    using assms(2,3) by (auto simp: stage_def row_simps outcome_rank split: option.splits)
  then show ?thesis by (auto simp: writable_statuses_def)
qed

section \<open>Bookkeeping\<close>

definition row_ok :: "ox_task \<Rightarrow> bool" where
  "row_ok r =
     (0 \<le> attempts r \<and> int (length (worker_ids r)) = attempts r
      \<and> attempts r \<le> lease_epoch r
      \<and> (attempts r = 0 \<longleftrightarrow> started_at r = None)
      \<and> (if status r = RUNNING
         then 1 \<le> attempts r \<and> locked_by r = Some (last (worker_ids r))
           \<and> locked_at r \<noteq> None \<and> lease_expires_at r \<noteq> None
         else locked_by r = None \<and> locked_at r = None \<and> lease_expires_at r = None))"

definition within_budget :: "ox_task \<Rightarrow> bool" where
  "within_budget r =
     (attempts r \<le> max_attempts r \<and> (status r \<in> {READY, WAITING} \<longrightarrow> attempts r < max_attempts r)
      \<and> 0 \<le> attempts r)"

definition fresh_row :: "ox_task \<Rightarrow> bool" where
  "fresh_row r =
     (status r \<in> {READY, WAITING} \<and> attempts r = 0 \<and> worker_ids r = [] \<and> lease_epoch r = 0
      \<and> started_at r = None \<and> locked_by r = None \<and> locked_at r = None \<and> lease_expires_at r = None
      \<and> finished_at r = None \<and> errors r = [] \<and> 1 \<le> max_attempts r)"

lemma fresh_row_ok: "fresh_row r \<Longrightarrow> row_ok r"
  by (auto simp: fresh_row_def row_ok_def)

lemma fresh_row_budget: "fresh_row r \<Longrightarrow> within_budget r"
  by (auto simp: fresh_row_def within_budget_def)

lemma lock_cleared [row_simps]:
  "locked_at (outcome_fields out r) = None" "lease_expires_at (outcome_fields out r) = None"
  "locked_by (reclaimed_row r) = None" "locked_at (reclaimed_row r) = None" "lease_expires_at (reclaimed_row r) = None"
  "locked_by (lost_row now d r) = None" "locked_at (lost_row now d r) = None" "lease_expires_at (lost_row now d r) = None"
  "locked_at (refunded_row d r) = None" "lease_expires_at (refunded_row d r) = None"
  "locked_at (retried r) = None" "lease_expires_at (retried r) = None"
  "locked_at (discarded_at now r) = None" "lease_expires_at (discarded_at now r) = None"
  "locked_at (released now r) = locked_at r" "lease_expires_at (released now r) = lease_expires_at r"
  "locked_at (revived r) = locked_at r" "lease_expires_at (revived r) = lease_expires_at r"
  by (simp_all add: outcome_fields_shape hand_over_def clear_lock_def reclaimed_row_def lost_row_def refunded_row_def
      retried_def requeued_def discarded_at_def released_def revived_def Let_def split: outcome.split option.split)

lemma row_move_ok: "row_move r r' \<Longrightarrow> row_ok r \<Longrightarrow> row_ok r'"
proof (induction rule: row_move.induct)
  case (claim r cfg clock)
  then show ?case by (simp add: row_ok_def claimed_row_def)
next
  case (renew r cfg clock)
  then show ?case by (simp add: row_ok_def renewed_row_def)
next
  case (outcome r out)
  moreover have "outcome_status out \<noteq> RUNNING" by (cases out) simp_all
  ultimately show ?case by (auto simp: row_ok_def row_simps split: if_splits)
next
  case (refund r)
  then have "worker_ids r \<noteq> []" by (auto simp: row_ok_def)
  with refund show ?case
    by (auto simp: row_ok_def row_simps refunded_row_def Let_def clear_lock_def)
next
  case (expire r past)
  then show ?case by (simp add: row_ok_def expired_at_def)
next
  case (retry r)
  then show ?case by (auto simp: row_ok_def row_simps split: if_splits)
qed (auto simp: row_ok_def row_simps)

lemma evolves_ok: "evolves r r' \<Longrightarrow> row_ok r \<Longrightarrow> row_ok r'"
  by (induction rule: rtranclp_induct) (auto dest: row_move_ok)

text \<open>Only a revival takes a row past the budget it was given.\<close>

lemma row_move_budget:
  assumes "row_move r r'" "within_budget r" "row_ok r" "status r \<noteq> DISCARDED"
  shows "within_budget r'"
  using assms
proof (induction rule: row_move.induct)
  case (outcome r out)
  moreover have "outcome_status out \<noteq> WAITING" by (cases out) simp_all
  ultimately show ?case by (auto simp: within_budget_def row_simps)
next
  case (retry r)
  then show ?case by (auto simp: within_budget_def row_simps retryable_def retry_fits_def)
next
  case (refund r)
  then show ?case by (auto simp: within_budget_def row_simps row_ok_def)
qed (auto simp: within_budget_def row_simps)

end
