(* ===== verification/System.thy ===== *)
theory System
  imports Moves
begin

text \<open>
  The task table under any number of workers, reapers and operators.  One step is one statement of
  the package, with the pin and the values the code gives it; a statement that follows a read takes
  its values from any version of the row that was ever visible, so every interleaving and every stale
  read is a path of the relation.  \<open>seen\<close>, \<open>grants\<close> and \<open>landed\<close> are not kept by any
  code: all versions of all rows, the leases claims were granted, and the leases whose outcome write
  landed.
\<close>

section \<open>States and steps\<close>

record system =
  tbl :: table
  seen :: "ox_task set"
  grants :: "(lease \<times> string) list"
  landed :: "lease list"

definition lease_of :: "ox_task \<Rightarrow> lease" where
  "lease_of r = (pk r, lease_epoch r)"

definition statement :: "(ox_task \<Rightarrow> bool) \<Rightarrow> (ox_task \<Rightarrow> ox_task) \<Rightarrow> system \<Rightarrow> system" where
  "statement P f s =
     (let t' = fst (update_where P f (tbl s)) in s\<lparr>tbl := t', seen := seen s \<union> set t'\<rparr>)"

definition matched :: "(ox_task \<Rightarrow> bool) \<Rightarrow> system \<Rightarrow> bool" where
  "matched P s = list_ex P (tbl s)"

definition grant :: "bool \<Rightarrow> lease \<Rightarrow> string \<Rightarrow> system \<Rightarrow> system" where
  "grant moved l w s = (if moved then s\<lparr>grants := grants s @ [(l, w)]\<rparr> else s)"

definition land :: "bool \<Rightarrow> lease \<Rightarrow> system \<Rightarrow> system" where
  "land moved l s = (if moved then s\<lparr>landed := landed s @ [l]\<rparr> else s)"

definition empty_system :: system where
  "empty_system = \<lparr>tbl = [], seen = {}, grants = [], landed = []\<rparr>"

inductive sys_step :: "system \<Rightarrow> system \<Rightarrow> bool" where
  enqueue: "fresh_row r \<Longrightarrow> pk r \<notin> pk ` seen s \<Longrightarrow>
    sys_step s (s\<lparr>tbl := insert_row r (tbl s), seen := insert r (seen s)\<rparr>)"
| claim: "r \<in> set (tbl s) \<Longrightarrow> status r = READY \<Longrightarrow>
    sys_step s (grant True (pk r, lease_epoch r + 1) (worker_id cfg)
      (statement (\<lambda>q. pk q = pk r) (claimed_row cfg clock) s))"
| claim_cas: "c \<in> seen s \<Longrightarrow>
    sys_step s (grant (matched (cas_pin c) s) (pk c, lease_epoch c + 1) (worker_id cfg)
      (statement (cas_pin c) (claim_fields cfg clock c) s))"
| renew: "sys_step s (statement (renew_pin cfg ks) (renewed_row cfg clock) s)"
| outcome: "d \<in> seen s \<Longrightarrow> outcome_epoch out \<in> {None, Some (lease_epoch d + 1)} \<Longrightarrow>
    (outcome_status out = READY \<Longrightarrow> attempts d < max_attempts d) \<Longrightarrow>
    sys_step s (land (matched (outcome_pin d) s) (lease_of d)
      (statement (outcome_pin d) (outcome_fields out) s))"
| requeue: "sys_step s (statement (requeue_pin c ks) reclaimed_row s)"
| lost: "d \<in> seen s \<Longrightarrow> max_attempts d \<le> attempts d \<Longrightarrow>
    sys_step s (statement (lost_pin c d) (lost_row now d) s)"
| refund: "d \<in> seen s \<Longrightarrow> sys_step s (statement (refund_pin cfg d) (refunded_row d) s)"
| retry: "d \<in> seen s \<Longrightarrow>
    sys_step s (statement (retry_pin (pk d) (lease_epoch d)) (requeued (lease_epoch d + 1) (attempts d + 1)) s)"
| retry_many: "sys_step s (statement (\<lambda>r. pk r \<in> set ks \<and> retryable r) retried s)"
| discard: "sys_step s (statement (discard_pin k ep) (discarded_at now) s)"
| discard_many: "sys_step s (statement (\<lambda>r. pk r \<in> set ks \<and> discardable r) (discarded_at now) s)"
| expire: "sys_step s (statement (expire_pin k) (expired_at past) s)"
| release: "sys_step s (statement (release_pin k ep) (released now) s)"
| release_many: "sys_step s (statement (pinned_rows ps [WAITING]) (released now) s)"
| cancel_many: "sys_step s (statement (pinned_rows ps cancellable) (discarded_at now) s)"
| revive_many: "sys_step s (statement (pinned_rows ps [DISCARDED]) revived s)"
| delete: "sys_step s (s\<lparr>tbl := filter (\<lambda>r. pk r \<notin> set ks) (tbl s)\<rparr>)"

inductive reachable :: "system \<Rightarrow> bool" where
  init: "reachable empty_system"
| step: "reachable s \<Longrightarrow> sys_step s s' \<Longrightarrow> reachable s'"

section \<open>The invariant\<close>

definition history_ok :: "system \<Rightarrow> bool" where
  "history_ok s =
     (wf_table (tbl s) \<and> set (tbl s) \<subseteq> seen s \<and> (\<forall>r \<in> seen s. row_ok r)
      \<and> (\<forall>c \<in> seen s. \<forall>r \<in> set (tbl s). pk r = pk c \<longrightarrow> evolves c r))"

definition grants_ok :: "system \<Rightarrow> bool" where
  "grants_ok s =
     (distinct (map fst (grants s))
      \<and> (\<forall>l \<in> fst ` set (grants s). \<exists>c \<in> seen s. lease_of c = l)
      \<and> (\<forall>r \<in> set (tbl s). status r \<in> writable_statuses \<longrightarrow> lease_of r \<in> fst ` set (grants s)))"

definition landed_ok :: "system \<Rightarrow> bool" where
  "landed_ok s =
     (distinct (landed s) \<and> set (landed s) \<subseteq> fst ` set (grants s)
      \<and> (\<forall>r \<in> set (tbl s). \<forall>ep. (pk r, ep) \<in> set (landed s) \<longrightarrow>
            ep < lease_epoch r \<or> ep = lease_epoch r \<and> rank (status r) = 2))"

definition sys_inv :: "system \<Rightarrow> bool" where
  "sys_inv s = (history_ok s \<and> grants_ok s \<and> landed_ok s)"

section \<open>Statements are moves\<close>

text \<open>Every pin and value list of the code, from a stale version, is a move of the row it matches.\<close>

definition moves_rows :: "(ox_task \<Rightarrow> bool) \<Rightarrow> (ox_task \<Rightarrow> ox_task) \<Rightarrow> system \<Rightarrow> bool" where
  "moves_rows P f s = ((\<forall>r. pk (f r) = pk r) \<and> (\<forall>r \<in> set (tbl s). P r \<longrightarrow> row_move r (f r)))"

lemma history_evolves: "history_ok s \<Longrightarrow> c \<in> seen s \<Longrightarrow> r \<in> set (tbl s) \<Longrightarrow> pk r = pk c \<Longrightarrow> evolves c r"
  by (simp add: history_ok_def)

lemma same_frame:
  assumes "history_ok s" "c \<in> seen s" "r \<in> set (tbl s)" "pk r = pk c" "lease_epoch r = lease_epoch c"
  shows "attempts r = attempts c" "max_attempts r = max_attempts c" "worker_ids r = worker_ids c"
    "started_at r = started_at c"
  using evolves_frame [OF history_evolves [OF assms(1-4)] assms(5)] by (simp_all add: frame_def)

lemma statement_claim:
  assumes "wf_table (tbl s)" "r \<in> set (tbl s)" "status r = READY"
  shows "moves_rows (\<lambda>q. pk q = pk r) (claimed_row cfg clock) s"
proof -
  have "q = r" if "q \<in> set (tbl s)" "pk q = pk r" for q
    using assms(1,2) that unfolding wf_table_def by (simp add: distinct_map inj_on_def)
  then show ?thesis using assms(3) by (auto simp: moves_rows_def row_simps intro: row_move.claim)
qed

lemma statement_claim_cas:
  assumes "history_ok s" "c \<in> seen s"
  shows "moves_rows (cas_pin c) (claim_fields cfg clock c) s"
proof -
  have "claim_fields cfg clock c r = claimed_row cfg clock r" if "r \<in> set (tbl s)" "cas_pin c r" for r
    by (rule claim_fields_same) (use same_frame [OF assms that(1)] that(2) in \<open>simp_all add: cas_pin_def\<close>)
  then show ?thesis by (auto simp: moves_rows_def cas_pin_def intro: row_move.claim)
qed

lemma statement_outcome:
  assumes "history_ok s" "d \<in> seen s" "outcome_epoch out \<in> {None, Some (lease_epoch d + 1)}"
    and "outcome_status out = READY \<Longrightarrow> attempts d < max_attempts d"
  shows "moves_rows (outcome_pin d) (outcome_fields out) s"
  unfolding moves_rows_def
proof (intro conjI allI ballI impI)
  fix r assume r: "r \<in> set (tbl s)" "outcome_pin d r"
  then have "pk r = pk d" "lease_epoch r = lease_epoch d" "status r \<in> writable_statuses"
    by (simp_all add: outcome_pin_def)
  with same_frame [OF assms(1,2) r(1)] assms(3,4) show "row_move r (outcome_fields out r)"
    by (intro row_move.outcome) auto
qed (simp add: row_simps)

lemma statement_lost:
  assumes "history_ok s" "d \<in> seen s" "max_attempts d \<le> attempts d"
  shows "moves_rows (lost_pin c d) (lost_row now d) s"
  unfolding moves_rows_def
proof (intro conjI allI ballI impI)
  fix r assume r: "r \<in> set (tbl s)" "lost_pin c d r"
  then have p: "pk r = pk d" "lease_epoch r = lease_epoch d" "status r = RUNNING"
    by (simp_all add: lost_pin_def)
  have "core r = core d"
    using evolves_core [OF history_evolves [OF assms(1,2) r(1) p(1)] p(3,2)] by simp
  then have "errors (core r) = errors (core d)" "locked_by (core r) = locked_by (core d)" by simp_all
  then have "lost_row now d r = lost_row now r r" by (simp add: lost_row_def core_def)
  with same_frame [OF assms(1,2) r(1)] p assms(3) show "row_move r (lost_row now d r)"
    by (auto intro: row_move.lost)
qed (simp add: row_simps)

lemma statement_refund:
  assumes "history_ok s" "d \<in> seen s"
  shows "moves_rows (refund_pin cfg d) (refunded_row d) s"
  unfolding moves_rows_def
proof (intro conjI allI ballI impI)
  fix r assume r: "r \<in> set (tbl s)" "refund_pin cfg d r"
  then have p: "pk r = pk d" "lease_epoch r = lease_epoch d" "status r = RUNNING"
    by (simp_all add: refund_pin_def)
  have "refunded_row d r = refunded_row r r"
    using same_frame [OF assms r(1) p(1,2)] p(2) by (simp add: refunded_row_def)
  with p(3) show "row_move r (refunded_row d r)" by (auto intro: row_move.refund)
qed (simp add: row_simps)

lemma statement_retry:
  assumes "history_ok s" "d \<in> seen s"
  shows "moves_rows (retry_pin (pk d) (lease_epoch d)) (requeued (lease_epoch d + 1) (attempts d + 1)) s"
  unfolding moves_rows_def
proof (intro conjI allI ballI impI)
  fix r assume r: "r \<in> set (tbl s)" "retry_pin (pk d) (lease_epoch d) r"
  then have p: "pk r = pk d" "lease_epoch r = lease_epoch d" "retryable r"
    by (simp_all add: retry_pin_def)
  have "requeued (lease_epoch d + 1) (attempts d + 1) r = retried r"
    using same_frame [OF assms r(1) p(1,2)] p(2) by (simp add: retried_def)
  with p(3) show "row_move r (requeued (lease_epoch d + 1) (attempts d + 1) r)" by (auto intro: row_move.retry)
qed (simp add: row_simps)

lemma statement_plain [move_intros]:
  "moves_rows (renew_pin cfg ks) (renewed_row cfg clock) s"
  "moves_rows (requeue_pin c ks) reclaimed_row s"
  "moves_rows (\<lambda>r. pk r \<in> set ks \<and> retryable r) retried s"
  "moves_rows (discard_pin k ep) (discarded_at now) s"
  "moves_rows (\<lambda>r. pk r \<in> set ks \<and> discardable r) (discarded_at now) s"
  "moves_rows (expire_pin k) (expired_at past) s"
  "moves_rows (release_pin k ep) (released now) s"
  "moves_rows (pinned_rows ps [WAITING]) (released now) s"
  "moves_rows (pinned_rows ps cancellable) (discarded_at now) s"
  "moves_rows (pinned_rows ps [DISCARDED]) revived s"
  by (auto simp: moves_rows_def row_simps renew_pin_def requeue_pin_def stuck_def discard_pin_def expire_pin_def
      release_pin_def pinned_rows_def cancellable_def discardable_def discardable_statuses_def
      intro: row_move.intros)

section \<open>Statements keep the invariant\<close>

lemma statement_simps [simp]:
  "tbl (statement P f s) = map (\<lambda>r. if P r then f r else r) (tbl s)"
  "seen (statement P f s) = seen s \<union> set (tbl (statement P f s))"
  "grants (statement P f s) = grants s" "landed (statement P f s) = landed s"
  by (simp_all add: statement_def update_where_def Let_def)

lemma grant_simps [simp]:
  "tbl (grant b l w s) = tbl s" "seen (grant b l w s) = seen s" "landed (grant b l w s) = landed s"
  "grants (grant b l w s) = grants s @ (if b then [(l, w)] else [])"
  by (simp_all add: grant_def)

lemma land_simps [simp]:
  "tbl (land b l s) = tbl s" "seen (land b l s) = seen s" "grants (land b l s) = grants s"
  "landed (land b l s) = landed s @ (if b then [l] else [])"
  by (simp_all add: land_def)

lemma history_same [simp]:
  "history_ok (grant b l w s) = history_ok s" "history_ok (land b l s) = history_ok s"
  by (simp_all add: history_ok_def)

lemma new_row:
  assumes "moves_rows P f s" "q \<in> set (tbl (statement P f s))"
  obtains r where "r \<in> set (tbl s)" "q = (if P r then f r else r)" "evolves r q" "pk q = pk r"
proof -
  from assms(2) obtain r where r: "r \<in> set (tbl s)" "q = (if P r then f r else r)" by auto
  with assms(1) have "evolves r q" "pk q = pk r" by (auto simp: moves_rows_def)
  with r that show thesis by blast
qed

lemma row_unique: "wf_table t \<Longrightarrow> r \<in> set t \<Longrightarrow> q \<in> set t \<Longrightarrow> pk r = pk q \<Longrightarrow> r = q"
  by (simp add: wf_table_def distinct_map inj_on_def)

lemma history_statement:
  assumes h: "history_ok s" and m: "moves_rows P f s"
  shows "history_ok (statement P f s)"
proof -
  let ?t = "tbl (statement P f s)"
  have "update_where P f (tbl s) = (?t, length (filter P (tbl s)))" by (simp add: update_where_def)
  from update_facts(1) [OF this] h m have wf: "wf_table ?t" by (simp add: history_ok_def moves_rows_def)
  have ok: "row_ok q" if "q \<in> set ?t" for q
    using new_row [OF m that] h by (metis evolves_ok history_ok_def subsetD)
  have ev: "evolves c q" if "c \<in> seen s \<union> set ?t" "q \<in> set ?t" "pk q = pk c" for c q
  proof (cases "c \<in> set ?t")
    case True
    then have "q = c" using row_unique [OF wf] that by blast
    then show ?thesis by simp
  next
    case False
    then have c: "c \<in> seen s" using that by blast
    from new_row [OF m that(2)] obtain r where r: "r \<in> set (tbl s)" "evolves r q" "pk q = pk r" by metis
    with history_evolves [OF h c r(1)] that(3) show ?thesis by (simp add: rtranclp_trans)
  qed
  have "\<forall>r \<in> seen s. row_ok r" using h by (simp add: history_ok_def)
  then show ?thesis unfolding history_ok_def statement_simps(2) using wf ok ev by blast
qed

text \<open>A statement that makes no row writable keeps every lease.\<close>

definition keeps_leases :: "(ox_task \<Rightarrow> bool) \<Rightarrow> (ox_task \<Rightarrow> ox_task) \<Rightarrow> system \<Rightarrow> bool" where
  "keeps_leases P f s = (\<forall>r \<in> set (tbl s). P r \<longrightarrow> status (f r) \<in> writable_statuses \<longrightarrow>
     status r \<in> writable_statuses \<and> lease_epoch (f r) = lease_epoch r)"

lemma grants_statement:
  assumes g: "grants_ok s" and m: "moves_rows P f s" and k: "keeps_leases P f s"
  shows "grants_ok (statement P f s)"
proof -
  have "lease_of q \<in> fst ` set (grants s)"
    if "q \<in> set (tbl (statement P f s))" "status q \<in> writable_statuses" for q
  proof -
    from new_row [OF m that(1)] obtain r where r: "r \<in> set (tbl s)" "q = (if P r then f r else r)" "pk q = pk r"
      by metis
    with k that(2) have "status r \<in> writable_statuses \<and> lease_of q = lease_of r"
      by (auto simp: keeps_leases_def lease_of_def split: if_splits)
    with g r(1) show ?thesis by (simp add: grants_ok_def)
  qed
  moreover have "\<exists>c \<in> seen (statement P f s). lease_of c = l" if "l \<in> fst ` set (grants s)" for l
    using g that unfolding grants_ok_def statement_simps(2) by blast
  ultimately show ?thesis using g unfolding grants_ok_def statement_simps(3) by blast
qed

lemma landed_later:
  assumes "evolves r q" "ep < lease_epoch r \<or> ep = lease_epoch r \<and> rank (status r) = 2"
  shows "ep < lease_epoch q \<or> ep = lease_epoch q \<and> rank (status q) = 2"
  using evolves_stage [OF assms(1)] assms(2) rank_bounds(2) [of "status q"]
  by (auto simp: stage_def)

lemma landed_statement:
  assumes l: "landed_ok s" and m: "moves_rows P f s"
  shows "landed_ok (statement P f s)"
proof -
  have "ep < lease_epoch q \<or> ep = lease_epoch q \<and> rank (status q) = 2"
    if q: "q \<in> set (tbl (statement P f s))" and ep: "(pk q, ep) \<in> set (landed s)" for q ep
  proof -
    from new_row [OF m q] obtain r where r: "r \<in> set (tbl s)" "evolves r q" "pk q = pk r" by metis
    have "ep < lease_epoch r \<or> ep = lease_epoch r \<and> rank (status r) = 2"
      using l r(1,3) ep by (simp add: landed_ok_def)
    from landed_later [OF r(2) this] show ?thesis .
  qed
  with l show ?thesis unfolding landed_ok_def statement_simps(3,4) by blast
qed

lemma inv_statement:
  "sys_inv s \<Longrightarrow> moves_rows P f s \<Longrightarrow> keeps_leases P f s \<Longrightarrow> sys_inv (statement P f s)"
  by (simp only: sys_inv_def history_statement grants_statement landed_statement)

lemma keeps_plain [move_intros]:
  "keeps_leases (renew_pin cfg ks) (renewed_row cfg clock) s"
  "keeps_leases (requeue_pin c ks) reclaimed_row s"
  "keeps_leases (lost_pin c d) (lost_row now d) s"
  "keeps_leases (refund_pin cfg d) (refunded_row d) s"
  "keeps_leases (retry_pin k ep) (requeued ep' n) s"
  "keeps_leases (\<lambda>r. pk r \<in> set ks \<and> retryable r) retried s"
  "keeps_leases (discard_pin k ep) (discarded_at now) s"
  "keeps_leases (\<lambda>r. pk r \<in> set ks \<and> discardable r) (discarded_at now) s"
  "keeps_leases (expire_pin k) (expired_at past) s"
  "keeps_leases (release_pin k ep) (released now) s"
  "keeps_leases (pinned_rows ps [WAITING]) (released now) s"
  "keeps_leases (pinned_rows ps cancellable) (discarded_at now) s"
  "keeps_leases (pinned_rows ps [DISCARDED]) revived s"
  by (auto simp: keeps_leases_def row_simps writable_statuses_def lost_pin_def)

lemma keeps_outcome [move_intros]: "keeps_leases (outcome_pin d) (outcome_fields out) s"
  using outcome_status_final by (auto simp: keeps_leases_def row_simps)

section \<open>Claims grant each lease once\<close>

lemma inv_claim:
  assumes inv: "sys_inv s" and m: "moves_rows P f s" and r: "r \<in> set (tbl s)" "P r"
    and only: "\<forall>q \<in> set (tbl s). P q \<longrightarrow> q = r" and f: "f r = claimed_row cfg clock r"
  shows "sys_inv (grant True (pk r, lease_epoch r + 1) w (statement P f s))" (is "sys_inv ?s")
proof -
  from inv have h: "history_ok s" and g: "grants_ok s" and l: "landed_ok s" by (simp_all add: sys_inv_def)
  let ?l = "(pk r, lease_epoch r + 1)"
  have new: "?l \<notin> fst ` set (grants s)"
  proof
    assume "?l \<in> fst ` set (grants s)"
    then obtain c where c: "c \<in> seen s" "lease_of c = ?l" using g unfolding grants_ok_def by blast
    then have "evolves c r" using history_evolves [OF h c(1) r(1)] by (simp add: lease_of_def)
    from evolves_epoch [OF this] c(2) show False by (simp add: lease_of_def)
  qed
  have fr: "f r \<in> set (tbl (statement P f s))" "lease_of (f r) = ?l"
    using r by (force simp: image_iff, simp add: f lease_of_def row_simps)
  have writable: "lease_of q \<in> insert ?l (fst ` set (grants s))"
    if q: "q \<in> set (tbl (statement P f s))" "status q \<in> writable_statuses" for q
  proof -
    from new_row [OF m q(1)] obtain r' where r': "r' \<in> set (tbl s)" "q = (if P r' then f r' else r')" by metis
    show ?thesis
    proof (cases "P r'")
      case True
      then have "q = f r" using only r' by auto
      then show ?thesis using fr(2) by simp
    next
      case False
      then have "q = r'" using r' by simp
      then show ?thesis using g r'(1) q(2) unfolding grants_ok_def by blast
    qed
  qed
  have "grants_ok ?s" unfolding grants_ok_def
  proof (intro conjI ballI impI)
    show "distinct (map fst (grants ?s))" using g new by (auto simp: grants_ok_def)
    fix l assume "l \<in> fst ` set (grants ?s)"
    then have "l = ?l \<or> l \<in> fst ` set (grants s)" by auto
    then show "\<exists>c \<in> seen ?s. lease_of c = l"
    proof
      assume "l = ?l"
      then show ?thesis using fr unfolding grant_simps statement_simps(2) by blast
    next
      assume "l \<in> fst ` set (grants s)"
      then show ?thesis using g unfolding grants_ok_def grant_simps statement_simps(2) by blast
    qed
  next
    fix q assume "q \<in> set (tbl ?s)" "status q \<in> writable_statuses"
    then show "lease_of q \<in> fst ` set (grants ?s)" using writable [of q] by auto
  qed
  moreover have "landed_ok ?s"
    using landed_statement [OF l m] unfolding landed_ok_def by auto
  ultimately show ?thesis using history_statement [OF h m] by (simp add: sys_inv_def del: statement_simps)
qed

section \<open>At most one outcome lands per lease\<close>

lemma inv_outcome:
  assumes inv: "sys_inv s" and m: "moves_rows (outcome_pin d) (outcome_fields out) s"
    and r: "r \<in> set (tbl s)" "outcome_pin d r"
    and ep: "outcome_epoch out \<in> {None, Some (lease_epoch d + 1)}"
  shows "sys_inv (land True (lease_of d) (statement (outcome_pin d) (outcome_fields out) s))"
    (is "sys_inv (land True ?l ?s)")
proof -
  from inv have h: "history_ok s" and g: "grants_ok s" and l: "landed_ok s" by (simp_all add: sys_inv_def)
  from r(2) have p: "pk r = pk d" "lease_epoch r = lease_epoch d" "status r \<in> writable_statuses"
    by (simp_all add: outcome_pin_def)
  have lr: "lease_of r = ?l" using p by (simp add: lease_of_def)
  have granted: "?l \<in> fst ` set (grants s)" using g r(1) p(3) unfolding lr [symmetric] grants_ok_def by blast
  have new: "?l \<notin> set (landed s)"
  proof
    assume "?l \<in> set (landed s)"
    with l r(1) p have "rank (status r) = 2" by (fastforce simp: landed_ok_def lease_of_def)
    with p(3) show False by (auto simp: writable_statuses_def)
  qed
  have closed: "e < lease_epoch q \<or> e = lease_epoch q \<and> rank (status q) = 2"
    if q: "q \<in> set (tbl ?s)" and e: "(pk q, e) = ?l" for q e
  proof -
    from new_row [OF m q] obtain r' where r': "r' \<in> set (tbl s)" "pk q = pk r'"
      "q = (if outcome_pin d r' then outcome_fields out r' else r')" by metis
    have "r' = r" using row_unique [of "tbl s" r' r] h r(1) r'(1,2) e p(1)
      by (simp add: history_ok_def lease_of_def)
    then have "q = outcome_fields out r" using r'(3) r(2) by simp
    then show ?thesis using e ep p(2) by (auto simp: row_simps outcome_rank lease_of_def split: option.splits)
  qed
  have "landed_ok (land True ?l ?s)" unfolding landed_ok_def
  proof (intro conjI ballI allI impI)
    show "distinct (landed (land True ?l ?s))" using l new by (simp add: landed_ok_def)
    show "set (landed (land True ?l ?s)) \<subseteq> fst ` set (grants (land True ?l ?s))"
      using l granted by (auto simp: landed_ok_def)
    fix q e assume q: "q \<in> set (tbl (land True ?l ?s))" and "(pk q, e) \<in> set (landed (land True ?l ?s))"
    then have "(pk q, e) = ?l \<or> (pk q, e) \<in> set (landed ?s)" by auto
    with closed [of q e] landed_statement [OF l m] q
    show "e < lease_epoch q \<or> e = lease_epoch q \<and> rank (status q) = 2"
      unfolding land_simps landed_ok_def by blast
  qed
  moreover have "grants_ok (land True ?l ?s)"
    using grants_statement [OF g m keeps_outcome] by (simp add: grants_ok_def)
  ultimately show ?thesis using history_statement [OF h m] by (simp add: sys_inv_def del: statement_simps)
qed

lemma unmatched_statement:
  assumes "\<not> matched P s" "set (tbl s) \<subseteq> seen s"
  shows "statement P f s = s"
proof -
  have "map (\<lambda>r. if P r then f r else r) (tbl s) = tbl s"
    using assms(1) by (auto simp: matched_def list_ex_iff intro!: map_idI)
  then have "fst (update_where P f (tbl s)) = tbl s" by (simp add: update_where_def)
  then show ?thesis using assms(2) by (simp add: statement_def Let_def Un_absorb2)
qed

lemma inv_insert:
  assumes inv: "sys_inv s" and fresh: "fresh_row r" and new: "pk r \<notin> pk ` seen s"
  shows "sys_inv (s\<lparr>tbl := insert_row r (tbl s), seen := insert r (seen s)\<rparr>)" (is "sys_inv ?s")
proof -
  from inv have h: "history_ok s" and g: "grants_ok s" and l: "landed_ok s" by (simp_all add: sys_inv_def)
  have t: "set (tbl ?s) = insert r (set (tbl s))" by (simp add: insert_row_def)
  have absent: "fetch (pk r) (tbl s) = None"
    using h new by (auto simp: fetch_None history_ok_def)
  have "pk q \<noteq> pk r" if "q \<in> set (tbl s)" for q
    using h new that unfolding history_ok_def by (metis image_eqI subsetD)
  moreover have "pk r \<noteq> pk q" if "q \<in> seen s" for q
    using new that by (metis image_eqI)
  ultimately have "evolves c q" if "c \<in> insert r (seen s)" "q \<in> insert r (set (tbl s))" "pk q = pk c" for c q
    using h that unfolding history_ok_def by (metis insertE rtranclp.rtrancl_refl)
  then have "history_ok ?s"
    using h fresh_row_ok [OF fresh] insert_row_wf [OF _ absent] unfolding history_ok_def t by auto
  moreover have unlanded: "(pk r, e) \<notin> set (landed s)" for e
  proof
    assume "(pk r, e) \<in> set (landed s)"
    then have "(pk r, e) \<in> fst ` set (grants s)" using l unfolding landed_ok_def by blast
    then obtain c where "c \<in> seen s" "lease_of c = (pk r, e)" using g unfolding grants_ok_def by blast
    then have "c \<in> seen s" "pk c = pk r" by (simp_all add: lease_of_def)
    then show False using new by (metis image_eqI)
  qed
  moreover have "status r \<notin> writable_statuses"
    using fresh by (auto simp: fresh_row_def writable_statuses_def)
  ultimately show ?thesis using g l unfolding sys_inv_def grants_ok_def landed_ok_def t by auto
qed

lemma inv_delete:
  assumes inv: "sys_inv s"
  shows "sys_inv (s\<lparr>tbl := filter (\<lambda>r. pk r \<notin> set ks) (tbl s)\<rparr>)"
  using assms by (auto simp: sys_inv_def history_ok_def grants_ok_def landed_ok_def wf_table_def distinct_map_filter)

lemma sys_step_inv:
  assumes "sys_step s s'" "sys_inv s"
  shows "sys_inv s'"
  using assms
proof (induction rule: sys_step.induct)
  case (enqueue r s)
  then show ?case by (intro inv_insert)
next
  case (claim r s cfg clock)
  then have h: "history_ok s" by (simp add: sys_inv_def)
  then have wf: "wf_table (tbl s)" by (simp add: history_ok_def)
  show ?case
    by (rule inv_claim [OF claim(3) statement_claim [OF wf claim(1,2)] claim(1)])
       (use row_unique [OF wf _ claim(1)] in auto)
next
  case (claim_cas c s cfg clock)
  then have h: "history_ok s" by (simp add: sys_inv_def)
  then have wf: "wf_table (tbl s)" by (simp add: history_ok_def)
  note m = statement_claim_cas [OF h claim_cas(1), of cfg clock]
  show ?case
  proof (cases "matched (cas_pin c) s")
    case True
    then obtain r where r: "r \<in> set (tbl s)" "cas_pin c r" by (auto simp: matched_def list_ex_iff)
    then have p: "pk r = pk c" "lease_epoch r = lease_epoch c" by (simp_all add: cas_pin_def)
    have only: "\<forall>q \<in> set (tbl s). cas_pin c q \<longrightarrow> q = r"
      using row_unique [OF wf _ r(1)] p(1) by (auto simp: cas_pin_def)
    have "claim_fields cfg clock c r = claimed_row cfg clock r"
      by (rule claim_fields_same) (use same_frame [OF h claim_cas(1) r(1) p] p in simp_all)
    from inv_claim [OF claim_cas(2) m r only this, of "worker_id cfg"] True p show ?thesis by simp
  next
    case False
    then have "statement (cas_pin c) (claim_fields cfg clock c) s = s"
      using h unmatched_statement by (simp add: history_ok_def)
    with False claim_cas(2) show ?thesis by (simp add: grant_def)
  qed
next
  case (outcome d s out)
  then have h: "history_ok s" by (simp add: sys_inv_def)
  note m = statement_outcome [OF h outcome(1-3)]
  show ?case
  proof (cases "matched (outcome_pin d) s")
    case True
    then obtain r where r: "r \<in> set (tbl s)" "outcome_pin d r" by (auto simp: matched_def list_ex_iff)
    from inv_outcome [OF outcome(4) m r outcome(2)] True show ?thesis by simp
  next
    case False
    then have "statement (outcome_pin d) (outcome_fields out) s = s"
      using h unmatched_statement by (simp add: history_ok_def)
    with False outcome(4) show ?thesis by (simp add: land_def)
  qed
next
  case (lost d s c now)
  then show ?case by (intro inv_statement statement_lost move_intros) (simp_all add: sys_inv_def)
next
  case (refund d s cfg)
  then show ?case by (intro inv_statement statement_refund move_intros) (simp_all add: sys_inv_def)
next
  case (retry d s)
  then show ?case by (intro inv_statement statement_retry move_intros) (simp_all add: sys_inv_def)
next
  case (delete s ks)
  then show ?case by (intro inv_delete)
qed (intro inv_statement move_intros; assumption)+

lemma reachable_inv: "reachable s \<Longrightarrow> sys_inv s"
proof (induction rule: reachable.induct)
  case init
  show ?case
    by (simp add: sys_inv_def history_ok_def grants_ok_def landed_ok_def empty_system_def wf_table_def)
next
  case (step s s')
  then show ?case by (blast intro: sys_step_inv)
qed

section \<open>What every reachable state satisfies\<close>

lemma reachable_wf: "reachable s \<Longrightarrow> wf_table (tbl s)"
  using reachable_inv by (auto simp: sys_inv_def history_ok_def)

lemma reachable_seen: "reachable s \<Longrightarrow> set (tbl s) \<subseteq> seen s"
  using reachable_inv by (auto simp: sys_inv_def history_ok_def)

lemma reachable_row_ok: "reachable s \<Longrightarrow> r \<in> set (tbl s) \<Longrightarrow> row_ok r"
  using reachable_inv [of s] by (auto simp: sys_inv_def history_ok_def)

lemma reachable_grants_distinct: "reachable s \<Longrightarrow> distinct (map fst (grants s))"
  using reachable_inv by (auto simp: sys_inv_def grants_ok_def)

lemma reachable_landed: "reachable s \<Longrightarrow> distinct (landed s) \<and> set (landed s) \<subseteq> fst ` set (grants s)"
  using reachable_inv by (auto simp: sys_inv_def landed_ok_def)

text \<open>An execution whose row has been handed on writes nothing.\<close>

lemma superseded_write_refused:
  assumes "reachable s" "d \<in> seen s" "r \<in> set (tbl s)" "pk r = pk d" "lease_epoch d < lease_epoch r"
  shows "write_outcome d out (tbl s) = ((False, d), tbl s)"
proof -
  have wf: "wf_table (tbl s)" using reachable_inv [OF assms(1)] by (simp add: sys_inv_def history_ok_def)
  obtain b d' t' where w: "write_outcome d out (tbl s) = ((b, d'), t')" by (metis prod.collapse)
  have f: "fetch (pk d) (tbl s) = Some r" using assms(3,4) by (simp add: fetch_Some [OF wf])
  from wf w show ?thesis
  proof (cases rule: write_outcome_cases)
    case (landed q)
    with f assms(5) show ?thesis by (simp add: outcome_pin_def)
  qed (simp add: w)
qed

text \<open>The look's consistency check never refuses a row the worker holds.\<close>

lemma look_never_refuses:
  assumes "reachable s" "r \<in> set (recovery_rows cfg (tbl s))"
  shows "look_verdict cfg now cutoff known r \<noteq> Refused"
  using reachable_row_ok [OF assms(1), of r] assms(2)
  by (auto simp: recovery_rows_def look_verdict_def row_ok_def)

section \<open>Budgets\<close>

lemma statement_versions:
  assumes "moves_rows P f s" "set (tbl s) \<subseteq> seen s" "q \<in> seen (statement P f s)"
  shows "q \<in> seen s \<or> (\<exists>r \<in> set (tbl s). row_move r q)"
  using assms by (auto simp: moves_rows_def split: if_splits)

lemma step_versions:
  assumes "sys_step s s'" "sys_inv s" "q \<in> seen s'"
  shows "q \<in> seen s \<or> fresh_row q \<or> (\<exists>r \<in> set (tbl s). row_move r q)"
proof -
  from assms(2) have h: "history_ok s" by (simp add: sys_inv_def)
  then have sub: "set (tbl s) \<subseteq> seen s" and wf: "wf_table (tbl s)" by (simp_all add: history_ok_def)
  have plain: ?thesis if "moves_rows P f s" "q \<in> seen (statement P f s)" for P f
    using statement_versions [OF that(1) sub that(2)] by blast
  have same: "seen (grant b l w u) = seen u" "seen (land b l u) = seen u" for b l w u by simp_all
  show ?thesis
    using assms(1,3) h sub wf plain
  proof (induction rule: sys_step.induct)
    case (claim r s cfg clock)
    then show ?case unfolding same by (metis statement_claim)
  next
    case (claim_cas c s cfg clock)
    then show ?case unfolding same by (metis statement_claim_cas)
  next
    case (outcome d s out)
    then show ?case unfolding same by (metis statement_outcome)
  next
    case (lost d s c now)
    then show ?case by (metis statement_lost)
  next
    case (refund d s cfg)
    then show ?case by (metis statement_refund)
  next
    case (retry d s)
    then show ?case by (metis statement_retry)
  next
    case (enqueue r s)
    then show ?case by auto
  next
    case (delete s ks)
    then show ?case by auto
  qed (metis statement_plain)+
qed

text \<open>A task that nobody discarded stays within its budget.\<close>

lemma reachable_budget:
  assumes "reachable s" "r \<in> seen s" "\<forall>q \<in> seen s. pk q = pk r \<longrightarrow> status q \<noteq> DISCARDED"
  shows "within_budget r"
  using assms
proof (induction arbitrary: r rule: reachable.induct)
  case init
  then show ?case by (simp add: empty_system_def)
next
  case (step s s')
  note inv = reachable_inv [OF step.hyps(1)]
  have sub: "seen s \<subseteq> seen s'" using step.hyps(2) by (induction rule: sys_step.induct) (auto simp: grant_def land_def)
  have old: "within_budget r0" if "r0 \<in> seen s" "pk r0 = pk r" for r0
    using step.IH [OF that(1)] step.prems(2) that(2) sub by auto
  from step_versions [OF step.hyps(2) inv step.prems(1)] show ?case
  proof (elim disjE bexE)
    fix r0 assume m: "r0 \<in> set (tbl s)" "row_move r0 r"
    then have "r0 \<in> seen s" "row_ok r0" "pk r0 = pk r"
      using inv row_move_pk [OF m(2)] by (auto simp: sys_inv_def history_ok_def)
    with old [of r0] row_move_budget [OF m(2)] step.prems(2) sub show ?thesis by (metis subsetD)
  qed (use old fresh_row_budget in auto)
qed

text \<open>A result stays: no statement changes a row that was ever \<open>SUCCESSFUL\<close>.\<close>

lemma reachable_successful:
  assumes "reachable s" "d \<in> seen s" "status d = SUCCESSFUL" "r \<in> set (tbl s)" "pk r = pk d"
  shows "r = d"
  using reachable_inv [OF assms(1)] assms by (auto simp: sys_inv_def dest!: history_evolves successful_final)

end
