(* ===== verification/Refine.thy ===== *)
theory Refine
  imports System
begin

text \<open>
  The operations implement the store.  Every operation of the package, run on the table of a
  reachable state while others act between its statements, is a path of \<open>sys_step\<close>; what it
  reports is what the path records: a claim that returns a task was granted its lease, and a write that
  says it landed is in \<open>landed\<close>.
\<close>

text \<open>What others may do between two statements: any path of the system.\<close>

definition env_ok :: "(table \<Rightarrow> table) \<Rightarrow> bool" where
  "env_ok f = (\<forall>s. reachable s \<longrightarrow> (\<exists>s'. sys_step\<^sup>*\<^sup>* s s' \<and> tbl s' = f (tbl s)))"

lemma env_ok_id: "env_ok (\<lambda>t. t)"
  by (auto simp: env_ok_def)

lemma env_okD:
  assumes "env_ok f" "reachable s"
  obtains s' where "sys_step\<^sup>*\<^sup>* s s'" "tbl s' = f (tbl s)"
  using assms by (auto simp: env_ok_def)

lemma step_seen: "sys_step s s' \<Longrightarrow> seen s \<subseteq> seen s'"
  by (induction rule: sys_step.induct) (auto simp: grant_def land_def)

lemma path_seen: "sys_step\<^sup>*\<^sup>* s s' \<Longrightarrow> seen s \<subseteq> seen s'"
  by (induction rule: rtranclp_induct) (auto dest: step_seen)

lemma step_grants: "sys_step s s' \<Longrightarrow> set (grants s) \<subseteq> set (grants s')"
  by (induction rule: sys_step.induct) (auto simp: grant_def land_def)

lemma path_grants: "sys_step\<^sup>*\<^sup>* s s' \<Longrightarrow> set (grants s) \<subseteq> set (grants s')"
  by (induction rule: rtranclp_induct) (auto dest: step_grants)

lemma path_reachable: "reachable s \<Longrightarrow> sys_step\<^sup>*\<^sup>* s s' \<Longrightarrow> reachable s'"
  by (rotate_tac, induction rule: rtranclp_induct) (auto intro: reachable.step)

lemma update_is_statement:
  "update_where P f (tbl s) = (t', n) \<Longrightarrow> t' = tbl (statement P f s) \<and> (n = 0 \<longleftrightarrow> \<not> matched P s)"
  by (auto simp: update_where_def matched_def filter_empty_conv list_ex_iff)

section \<open>Outcomes\<close>

definition outcome_allowed :: "ox_task \<Rightarrow> outcome \<Rightarrow> bool" where
  "outcome_allowed d out =
     (outcome_epoch out \<in> {None, Some (lease_epoch d + 1)}
      \<and> (outcome_status out = READY \<longrightarrow> attempts d < max_attempts d))"

lemma write_outcome_path:
  assumes "d \<in> seen s" "outcome_allowed d out" and w: "write_outcome d out (tbl s) = ((b, d'), t')"
  shows "\<exists>s'. sys_step s s' \<and> tbl s' = t' \<and> landed s' = landed s @ (if b then [lease_of d] else [])"
proof -
  obtain n where u: "update_where (outcome_pin d) (outcome_fields out) (tbl s) = (t', n)"
    and b: "b \<longleftrightarrow> n \<noteq> 0"
    using w by (auto simp: write_outcome_def split: prod.splits if_splits)
  from update_is_statement [OF u] b
  have "t' = tbl (statement (outcome_pin d) (outcome_fields out) s)" "b \<longleftrightarrow> matched (outcome_pin d) s" by auto
  with sys_step.outcome [OF assms(1), of out] assms(2) show ?thesis
    by (intro exI) (auto simp: outcome_allowed_def simp del: statement_simps(1))
qed

lemma failure_allowed:
  assumes "case delay of None \<Rightarrow> True | Some s \<Rightarrow> attempts d < max_attempts d"
  shows "outcome_allowed d (failure_outcome now err rel d delay)"
  using assms by (auto simp: outcome_allowed_def failure_outcome_def Let_def split: option.splits)

lemma delay_within_budget: "failure_decision b pol d = Delay s \<Longrightarrow> attempts d < max_attempts d"
  by (auto simp: failure_decision_def split: if_splits)

lemma handle_failure_path:
  assumes "d \<in> seen s"
    and h: "handle_failure b policy importable rel now err d (tbl s) = (Some ((ok, evs), d'), t')"
  shows "\<exists>s'. sys_step s s' \<and> tbl s' = t' \<and> landed s' = landed s @ (if ok then [lease_of d] else [])"
proof -
  have "\<exists>delay. (case delay of None \<Rightarrow> True | Some s \<Rightarrow> attempts d < max_attempts d)
      \<and> write_outcome d (failure_outcome now err rel d delay) (tbl s) = ((ok, d'), t')"
    using h delay_within_budget
    by (auto simp: handle_failure_def Let_def split: decision.splits prod.splits
        intro: exI [of _ None] exI [of _ "Some s" for s])
  then show ?thesis using write_outcome_path [OF assms(1) failure_allowed] by blast
qed

section \<open>Claims\<close>

lemma ready_in_seen:
  "reachable s \<Longrightarrow> set (ready_queryset cfg extra now (tbl s)) \<subseteq> seen s"
  using reachable_seen by (auto simp: ready_queryset_set)

lemma locked_claim_path:
  assumes r: "reachable s" and c: "c \<in> set (tbl s)" "status c = READY"
    and f: "\<And>r. r \<in> set (tbl s) \<Longrightarrow> pk r = pk c \<Longrightarrow> f r = claimed_row cfg clock r"
  shows "\<exists>s'. sys_step s s' \<and> tbl s' = fst (update_where (\<lambda>r. pk r = pk c) f (tbl s))
    \<and> fetch (pk c) (tbl s') = Some (claimed_row cfg clock c)
    \<and> (lease_of (claimed_row cfg clock c), worker_id cfg) \<in> set (grants s')"
proof -
  let ?s = "grant True (pk c, lease_epoch c + 1) (worker_id cfg)
    (statement (\<lambda>q. pk q = pk c) (claimed_row cfg clock) s)"
  have step: "sys_step s ?s" by (rule sys_step.claim [OF c])
  then have wf: "wf_table (tbl ?s)" using r reachable.step reachable_wf by blast
  have t: "tbl ?s = fst (update_where (\<lambda>r. pk r = pk c) f (tbl s))"
    using f by (auto simp: update_where_def)
  have "claimed_row cfg clock c \<in> set (tbl ?s)" using c(1) by force
  then have "fetch (pk c) (tbl ?s) = Some (claimed_row cfg clock c)"
    by (subst fetch_Some [OF wf]) (simp add: row_simps)
  with step t show ?thesis by (intro exI [of _ ?s]) (simp add: lease_of_def row_simps)
qed

text \<open>The state a claim leaves, and the task it returns.\<close>

definition claim_path :: "worker_cfg \<Rightarrow> system \<Rightarrow> ox_task option \<Rightarrow> table \<Rightarrow> bool" where
  "claim_path cfg s c t' =
     (\<exists>s'. sys_step\<^sup>*\<^sup>* s s' \<and> tbl s' = t'
        \<and> (\<forall>held. c = Some held \<longrightarrow>
              held \<in> seen s' \<and> (lease_of held, worker_id cfg) \<in> set (grants s')))"

lemma claim_path_none: "sys_step\<^sup>*\<^sup>* s s' \<Longrightarrow> claim_path cfg s None (tbl s')"
  by (auto simp: claim_path_def)

lemma claim_path_trans: "sys_step\<^sup>*\<^sup>* s s1 \<Longrightarrow> claim_path cfg s1 c t' \<Longrightarrow> claim_path cfg s c t'"
proof -
  assume a: "sys_step\<^sup>*\<^sup>* s s1" and "claim_path cfg s1 c t'"
  then obtain s' where s': "sys_step\<^sup>*\<^sup>* s1 s'" "tbl s' = t'"
    "\<forall>held. c = Some held \<longrightarrow> held \<in> seen s' \<and> (lease_of held, worker_id cfg) \<in> set (grants s')"
    by (auto simp: claim_path_def)
  from rtranclp_trans [OF a s'(1)] s'(2,3) show ?thesis unfolding claim_path_def by blast
qed

lemma locked_claim:
  assumes r: "reachable s" and q: "filter P (ready_queryset cfg extra now (tbl s)) = c # cs"
    and f: "\<And>r. r \<in> set (tbl s) \<Longrightarrow> pk r = pk c \<Longrightarrow> f r = claimed_row cfg clock r"
    and t: "t' = fst (update_where (\<lambda>r. pk r = pk c) f (tbl s))"
  shows "claim_path cfg s (fetch (pk c) t') t'"
proof -
  from ready_queryset_first(1,2) [OF q] have c: "c \<in> set (tbl s)" "status c = READY"
    by (auto simp: runnable_def)
  from locked_claim_path [OF r c f] obtain s' where s: "sys_step s s'" "tbl s' = t'"
    "fetch (pk c) t' = Some (claimed_row cfg clock c)"
    "(lease_of (claimed_row cfg clock c), worker_id cfg) \<in> set (grants s')" unfolding t by auto
  have r': "reachable s'" using r s(1) by (rule reachable.step)
  have "claimed_row cfg clock c \<in> set (tbl s')"
    using s(3) fetch_Some [OF reachable_wf [OF r']] unfolding s(2) [symmetric] by blast
  with reachable_seen [OF r'] have "claimed_row cfg clock c \<in> seen s'" by blast
  with s show ?thesis unfolding claim_path_def by (intro exI [of _ s']) auto
qed

lemma claim_candidates_path:
  assumes "reachable s" "set cs \<subseteq> seen s" "\<forall>n. env_ok (others n)"
    and "claim_candidates cfg others clock n cs (tbl s) = (c, t')"
  shows "claim_path cfg s c t'"
  using assms(1,2,4)
proof (induction cs arbitrary: s n)
  case (Cons d cs)
  from assms(3) obtain s1 where s1: "sys_step\<^sup>*\<^sup>* s s1" "tbl s1 = others n (tbl s)"
    using env_okD [OF _ Cons.prems(1)] by blast
  have r1: "reachable s1" by (rule path_reachable [OF Cons.prems(1) s1(1)])
  have d: "d \<in> seen s1" using path_seen [OF s1(1)] Cons.prems(2) by auto
  obtain t2 moved where u: "update_where (cas_pin d) (claim_fields cfg (clock n) d) (tbl s1) = (t2, moved)"
    by fastforce
  note m = update_is_statement [OF u]
  define s2 where "s2 = grant (matched (cas_pin d) s1) (pk d, lease_epoch d + 1) (worker_id cfg)
    (statement (cas_pin d) (claim_fields cfg (clock n) d) s1)"
  have st: "sys_step s1 s2" unfolding s2_def by (rule sys_step.claim_cas [OF d])
  have t2: "tbl s2 = t2" using m by (simp add: s2_def)
  have p2: "sys_step\<^sup>*\<^sup>* s s2" using s1(1) st by simp
  have r2: "reachable s2" by (rule path_reachable [OF Cons.prems(1) p2])
  have cs2: "set cs \<subseteq> seen s2" using path_seen [OF p2] Cons.prems(2) by auto
  show ?case
  proof (cases "moved = 0")
    case True
    with Cons.prems(3) u s1(2) t2 have "claim_candidates cfg others clock (n + 1) cs (tbl s2) = (c, t')" by simp
    from claim_path_trans [OF p2 Cons.IH [OF r2 cs2 this]] show ?thesis .
  next
    case False
    from assms(3) obtain s3 where s3: "sys_step\<^sup>*\<^sup>* s2 s3" "tbl s3 = others (n + 1) (tbl s2)"
      using env_okD [OF _ r2] by blast
    have p3: "sys_step\<^sup>*\<^sup>* s s3" using p2 s3(1) by simp
    have r3: "reachable s3" by (rule path_reachable [OF r2 s3(1)])
    show ?thesis
    proof (cases "reload_claimed (pk d) (lease_epoch d + 1) (tbl s3)")
      case None
      with False Cons.prems(3) u s1(2) t2 s3(2)
      have "claim_candidates cfg others clock (n + 2) cs (tbl s3) = (c, t')" by simp
      from claim_path_trans [OF p3 Cons.IH [OF r3 _ this]] cs2 path_seen [OF s3(1)] show ?thesis by blast
    next
      case (Some held)
      with False Cons.prems(3) u s1(2) t2 s3(2) have ct: "c = Some held" "t' = tbl s3" by auto
      from Some have h: "fetch (pk d) (tbl s3) = Some held" "lease_epoch held = lease_epoch d + 1"
        by (auto simp: reload_claimed_def split: option.splits if_splits)
      then have hp: "held \<in> set (tbl s3)" "pk held = pk d" using fetch_Some [OF reachable_wf [OF r3]] by auto
      have "(lease_of held, worker_id cfg) \<in> set (grants s2)"
        using False m h(2) hp(2) by (simp add: s2_def lease_of_def)
      then have "(lease_of held, worker_id cfg) \<in> set (grants s3)" using path_grants [OF s3(1)] by blast
      with p3 hp(1) reachable_seen [OF r3] ct show ?thesis unfolding claim_path_def by blast
    qed
  qed
qed (auto simp: claim_path_def)

lemma claim_one_path:
  assumes r: "reachable s" and env: "\<forall>n. env_ok (others n)"
    and c: "claim_one db cfg f noticed busy others now clock (tbl s) = ((c, lost_all), t')"
  shows "claim_path cfg s c t'"
proof -
  have same: "q = d" if "d \<in> set (tbl s)" "q \<in> set (tbl s)" "pk q = pk d" for q d
    using row_unique [OF reachable_wf [OF r]] that by blast
  have pg: "claim_path cfg s d u" if "claim_one_postgresql cfg f busy now (clock 0) (tbl s) = (d, u)" for d u
    using that locked_claim [OF r, where f = "claimed_row cfg (clock 0)"] claim_path_none [of s s]
    by (auto simp: claim_one_postgresql_def Let_def split: list.splits)
  have lk: "claim_path cfg s d u" if "claim_one_locking cfg f busy now (clock 0) (tbl s) = (d, u)" for d u
  proof (cases "filter (\<lambda>r. \<not> busy (pk r)) (ready_queryset cfg (filter_q f) now (tbl s))")
    case (Cons x xs)
    from ready_queryset_first(1) [OF Cons] same
    have "claim_fields cfg (clock 0) x q = claimed_row cfg (clock 0) q"
      if "q \<in> set (tbl s)" "pk q = pk x" for q using that by (metis claim_fields_same)
    from locked_claim [OF r Cons this refl] that Cons show ?thesis
      by (auto simp: claim_one_locking_def Let_def)
  qed (use that claim_path_none [of s s] in \<open>simp add: claim_one_locking_def\<close>)
  have cas: "claim_path cfg s d u" if "claim_one_cas cfg f others now clock (tbl s) = ((d, l), u)" for d l u
  proof -
    let ?b = "take claim_batch_size (ready_queryset cfg (filter_q f) now (tbl s))"
    have "claim_candidates cfg others clock 0 ?b (tbl s) = (d, u)"
      using that by (auto simp: claim_one_cas_def Let_def split: prod.splits option.splits)
    with claim_candidates_path [OF r _ env] ready_in_seen [OF r] set_take_subset show ?thesis by (metis subset_trans)
  qed
  from c pg lk cas show ?thesis unfolding claim_one_def by (auto split: if_splits prod.splits)
qed

section \<open>Reaper, recovery, operators\<close>

lemma statement_path:
  assumes r: "reachable s" and env: "env_ok f"
    and st: "\<And>s1. seen s \<subseteq> seen s1 \<Longrightarrow> sys_step s1 (statement P g s1)"
    and u: "update_where P g (f (tbl s)) = (t', n)"
  shows "\<exists>s'. sys_step\<^sup>*\<^sup>* s s' \<and> tbl s' = t'"
proof -
  obtain s1 where s1: "sys_step\<^sup>*\<^sup>* s s1" "tbl s1 = f (tbl s)" by (rule env_okD [OF env r])
  from st [OF path_seen [OF s1(1)]] s1(1) have "sys_step\<^sup>*\<^sup>* s (statement P g s1)" by simp
  with update_is_statement [of P g s1 t' n] u s1(2) show ?thesis by auto
qed

lemma mark_lost_path:
  assumes "reachable s" "set ds \<subseteq> seen s" "\<forall>d \<in> set ds. max_attempts d \<le> attempts d" "\<forall>n. env_ok (others n)"
    and "mark_lost cs now others i ds (tbl s) = (m, t')"
  shows "\<exists>s'. sys_step\<^sup>*\<^sup>* s s' \<and> tbl s' = t'"
  using assms(1,2,3,5)
proof (induction ds arbitrary: s i m)
  case (Cons d ds)
  obtain t1 n where u: "update_where (lost_pin (cs i) d) (lost_row (now i) d) (others i (tbl s)) = (t1, n)"
    by fastforce
  obtain m1 where k: "mark_lost cs now others (i + 1) ds t1 = (m1, t')"
    using Cons.prems(4) u by (auto split: prod.splits)
  have "\<exists>s1. sys_step\<^sup>*\<^sup>* s s1 \<and> tbl s1 = t1"
    by (rule statement_path [OF Cons.prems(1) assms(4) [rule_format] _ u])
       (use Cons.prems(2,3) in \<open>auto intro!: sys_step.lost\<close>)
  then obtain s1 where s1: "sys_step\<^sup>*\<^sup>* s s1" "tbl s1 = t1" by blast
  from Cons.IH [OF path_reachable [OF Cons.prems(1) s1(1)], of "i + 1" m1] path_seen [OF s1(1)] Cons.prems k s1
  show ?case by (auto intro: rtranclp_trans)
qed auto

lemma requeue_path:
  assumes "reachable s" "env_ok others" "requeue_abandoned mariadb cfg c others (tbl s) = (res, t')"
  shows "\<exists>s'. sys_step\<^sup>*\<^sup>* s s' \<and> tbl s' = t'"
proof (cases "requeue_manifest mariadb cfg (at_read c) (tbl s) = []")
  case False
  then obtain n where "update_where (requeue_pin (at_write c)
      (map pk (requeue_manifest mariadb cfg (at_read c) (tbl s)))) reclaimed_row (others (tbl s)) = (t', n)"
    using assms(3) by (auto simp: requeue_abandoned_def Let_def split: prod.splits if_splits)
  then show ?thesis by (rule statement_path [OF assms(1,2), rotated]) (rule sys_step.requeue)
qed (use assms(3) in \<open>auto simp: requeue_abandoned_def\<close>)

lemma reap_path:
  assumes r: "reachable s" and env: "env_ok others" "\<forall>n. env_ok (others2 n)"
    and p: "reap mariadb cfg c others c2 cs now others2 (tbl s) = (res, t')"
  shows "\<exists>s'. sys_step\<^sup>*\<^sup>* s s' \<and> tbl s' = t'"
proof -
  obtain q t1 where q: "requeue_abandoned mariadb cfg c others (tbl s) = (q, t1)" by fastforce
  from requeue_path [OF r env(1) q] obtain s1 where s1: "sys_step\<^sup>*\<^sup>* s s1" "tbl s1 = t1" by blast
  have r1: "reachable s1" by (rule path_reachable [OF r s1(1)])
  let ?ds = "exhausted_rows mariadb cfg c2 (tbl s1)"
  from p q obtain m where m: "mark_lost cs now others2 0 ?ds (tbl s1) = (m, t')"
    by (auto simp: reap_def abandon_exhausted_def s1(2) split: prod.splits)
  have "set ?ds \<subseteq> seen s1" "\<forall>d \<in> set ?ds. max_attempts d \<le> attempts d"
    using reachable_seen [OF r1] by (auto simp: exhausted_rows_def dest!: in_set_takeD)
  from mark_lost_path [OF r1 this env(2) m] s1(1) show ?thesis by (auto intro: rtranclp_trans)
qed

lemma release_claims_path:
  assumes "reachable s" "set ds \<subseteq> seen s" "\<forall>n. env_ok (others n)"
    and "release_claims cfg now cutoff known others i ds (tbl s) = (ks, t')"
  shows "\<exists>s'. sys_step\<^sup>*\<^sup>* s s' \<and> tbl s' = t'"
  using assms(1,2,4)
proof (induction ds arbitrary: s i ks)
  case (Cons d ds)
  show ?case
  proof (cases "look_verdict cfg now cutoff known d = Refund")
    case True
    obtain t1 n where u: "update_where (refund_pin cfg d) (refunded_row d) (others i (tbl s)) = (t1, n)" by fastforce
    obtain ks1 where k: "release_claims cfg now cutoff known others (i + 1) ds t1 = (ks1, t')"
      using Cons.prems(3) True u by (auto simp: release_claim_def split: prod.splits)
    have "\<exists>s1. sys_step\<^sup>*\<^sup>* s s1 \<and> tbl s1 = t1"
      by (rule statement_path [OF Cons.prems(1) assms(3) [rule_format] _ u])
         (use Cons.prems(2) in \<open>auto intro!: sys_step.refund\<close>)
    then obtain s1 where s1: "sys_step\<^sup>*\<^sup>* s s1" "tbl s1 = t1" by blast
    from Cons.IH [OF path_reachable [OF Cons.prems(1) s1(1)], of "i + 1" ks1] path_seen [OF s1(1)] Cons.prems k s1
    show ?thesis by (auto intro: rtranclp_trans)
  qed (use Cons in auto)
qed auto

lemma retry_path:
  assumes r: "reachable s" and env: "env_ok others" and m: "retry others i (tbl s) = (t', b)"
  shows "\<exists>s'. sys_step\<^sup>*\<^sup>* s s' \<and> tbl s' = t'"
proof (cases "\<exists>k ep n. pk_of i = Some k \<and> retry_read k (tbl s) = Some (ep, n)")
  case True
  then obtain k ep n where k: "pk_of i = Some k" "retry_read k (tbl s) = Some (ep, n)" by blast
  then obtain d where d: "fetch k (tbl s) = Some d" "lease_epoch d = ep" "attempts d = n"
    by (auto simp: retry_read_Some)
  then have dk: "d \<in> seen s" "pk d = k"
    using fetch_Some [OF reachable_wf [OF r]] reachable_seen [OF r] by auto
  obtain j where u: "update_where (retry_pin k ep) (requeued (ep + 1) (n + 1)) (others (tbl s)) = (t', j)"
    using m k by (auto simp: retry_def retry_write_def split: prod.splits)
  show ?thesis
    by (rule statement_path [OF r env _ u]) (use sys_step.retry [of d] dk d in auto)
qed (use m in \<open>auto simp: retry_def split: option.splits\<close>)

lemma discard_path:
  assumes r: "reachable s" and env: "env_ok others" and m: "discard others now i (tbl s) = (t', b)"
  shows "\<exists>s'. sys_step\<^sup>*\<^sup>* s s' \<and> tbl s' = t'"
proof (cases "\<exists>k ep. pk_of i = Some k \<and> discard_read k (tbl s) = Some ep")
  case True
  then obtain k ep where k: "pk_of i = Some k" "discard_read k (tbl s) = Some ep" by blast
  obtain j where u: "update_where (discard_pin k ep) (discarded_at now) (others (tbl s)) = (t', j)"
    using m k by (auto simp: discard_def split: prod.splits)
  show ?thesis by (rule statement_path [OF r env _ u]) (rule sys_step.discard)
qed (use m in \<open>auto simp: discard_def split: option.splits\<close>)

end
