(* ===== verification/ClaimFence.thy ===== *)
theory ClaimFence
  imports Recovery
begin

text \<open>
  The claim fence under interleaving (\<open>src/django_ox/worker.py\<close>, \<open>_claiming\<close>,
  \<open>execute\<close> and \<open>_recover_claims\<close>): the worker's threads claim, register, execute and
  settle, leases are lost to reapers, and one look runs its five steps between them, in every order.
  The steps use the operations of the worker's memory.  What is shown is the reason the look may
  refund: the rows it has chosen are claims that raised, and nothing else.
\<close>

section \<open>States and steps\<close>

datatype phase = Idle | Begun | Committed lease | Registered

datatype look =
    NoLook
  | Checked nat
  | Snapshot nat "lease list"
  | ReadRows nat "lease list" "lease list"
  | Releasing "lease list"

text \<open>
  \<open>held\<close> are the leases the database shows RUNNING under this worker's id; \<open>raised\<close>, which
  no code keeps, are those whose claim raised after it committed; \<open>granted\<close>, nor this, every
  lease ever granted.
\<close>

record fence_state =
  threads :: "nat \<Rightarrow> phase"
  mem :: own_claims
  held :: "lease set"
  raised_leases :: "lease set"
  granted :: "lease set"
  looking :: look

definition fence_init :: "own_claims \<Rightarrow> fence_state" where
  "fence_init w = \<lparr>threads = (\<lambda>_. Idle), mem = w, held = {}, raised_leases = {}, granted = {}, looking = NoLook\<rparr>"

definition fresh_memory :: own_claims where
  "fresh_memory = \<lparr>in_flight = [], handed_off = [], unsettled = [], claims_in_flight = 0,
     claim_generation = 0, claim_unconfirmed_at = None\<rparr>"

definition chosen_by_look :: "lease list \<Rightarrow> lease list \<Rightarrow> lease list" where
  "chosen_by_look known rows = filter (\<lambda>l. fst l \<notin> fst ` set known) rows"

inductive fence_step :: "fence_state \<Rightarrow> fence_state \<Rightarrow> bool" where
  Begin: "threads s i = Idle \<Longrightarrow>
    fence_step s (s\<lparr>threads := (threads s)(i := Begun), mem := count_in (mem s)\<rparr>)"
| Commit: "threads s i = Begun \<Longrightarrow> l \<notin> granted s \<Longrightarrow>
    fence_step s (s\<lparr>threads := (threads s)(i := Committed l), held := insert l (held s),
      granted := insert l (granted s)\<rparr>)"
| Nothing: "threads s i = Begun \<Longrightarrow>
    fence_step s (s\<lparr>threads := (threads s)(i := Idle), mem := count_out (note_raised noted tick (mem s))\<rparr>)"
| Raise: "threads s i = Committed l \<Longrightarrow>
    fence_step s (s\<lparr>threads := (threads s)(i := Idle), mem := count_out (note_raised noted tick (mem s)),
      raised_leases := insert l (raised_leases s)\<rparr>)"
| Register: "threads s i = Committed l \<Longrightarrow>
    fence_step s (s\<lparr>threads := (threads s)(i := Registered), mem := hand_off l (mem s)\<rparr>)"
| Return: "threads s i = Registered \<Longrightarrow>
    fence_step s (s\<lparr>threads := (threads s)(i := Idle), mem := count_out (mem s)\<rparr>)"
| Execute: "l \<in> set (handed_off (mem s)) \<Longrightarrow> fence_step s (s\<lparr>mem := start_execution l (mem s)\<rparr>)"
| Record: "l \<in> set (in_flight (mem s)) \<Longrightarrow>
    fence_step s (s\<lparr>mem := end_execution True l (mem s), held := held s - {l}\<rparr>)"
| Unsettle: "l \<in> set (in_flight (mem s)) \<Longrightarrow> fence_step s (s\<lparr>mem := end_execution False l (mem s)\<rparr>)"
| Lose: "fence_step s (s\<lparr>held := held s - {l}\<rparr>)"
| Look: "claims_in_flight (mem s) = 0 \<Longrightarrow> claim_unconfirmed_at (mem s) \<noteq> None \<Longrightarrow>
    fence_step s (s\<lparr>looking := Checked (claim_generation (mem s))\<rparr>)"
| TakeSnapshot: "looking s = Checked g \<Longrightarrow>
    fence_step s (s\<lparr>looking := Snapshot g (known_leases (mem s))\<rparr>)"
| ReadRow: "looking s = Snapshot g known \<Longrightarrow> set rows \<subseteq> held s \<Longrightarrow>
    fence_step s (s\<lparr>looking := ReadRows g known rows\<rparr>)"
| Forget: "(\<forall>l. over l \<longrightarrow> l \<notin> held s) \<Longrightarrow>
    fence_step s (s\<lparr>mem := forget_over over snapshot (mem s)\<rparr>)"
| Choose: "looking s = ReadRows g known rows \<Longrightarrow> claim_generation (mem s) = g \<Longrightarrow>
    fence_step s (s\<lparr>looking := Releasing (chosen_by_look known rows)\<rparr>)"
| GiveUp: "fence_step s (s\<lparr>looking := NoLook\<rparr>)"
| Release: "looking s = Releasing ls \<Longrightarrow> l \<in> set ls \<Longrightarrow> fence_step s (s\<lparr>held := held s - {l}\<rparr>)"

inductive fence_reachable :: "fence_state \<Rightarrow> bool" where
  start: "fence_reachable (fence_init fresh_memory)"
| step: "fence_reachable s \<Longrightarrow> fence_step s s' \<Longrightarrow> fence_reachable s'"

section \<open>The invariant\<close>

definition tracked :: "own_claims \<Rightarrow> lease set" where
  "tracked w = set (in_flight w) \<union> set (handed_off w) \<union> set (unsettled w)"

definition returning :: "(nat \<Rightarrow> phase) \<Rightarrow> lease set" where
  "returning f = {l. \<exists>i. f i = Committed l}"

definition busy_threads :: "(nat \<Rightarrow> phase) \<Rightarrow> nat set" where
  "busy_threads f = {i. f i \<noteq> Idle}"

text \<open>Every claim in flight is counted.\<close>

definition fence_counted :: "fence_state \<Rightarrow> bool" where
  "fence_counted s = (finite (busy_threads (threads s)) \<and> claims_in_flight (mem s) = card (busy_threads (threads s)))"

text \<open>Every row the database holds for the worker is accounted for.\<close>

definition rows_accounted :: "fence_state \<Rightarrow> bool" where
  "rows_accounted s = (held s \<subseteq> raised_leases s \<union> tracked (mem s) \<union> returning (threads s))"

text \<open>A claim that raised is never also one that returned, or is on its way back.\<close>

definition fence_apart :: "fence_state \<Rightarrow> bool" where
  "fence_apart s =
     (raised_leases s \<union> tracked (mem s) \<union> returning (threads s) \<subseteq> granted s
      \<and> raised_leases s \<inter> (tracked (mem s) \<union> returning (threads s)) = {} \<and> tracked (mem s) \<inter> returning (threads s) = {}
      \<and> (\<forall>i j l. threads s i = Committed l \<longrightarrow> threads s j = Committed l \<longrightarrow> i = j))"

text \<open>What the look knows, as long as no claim has begun since its check.\<close>

definition look_sound :: "fence_state \<Rightarrow> bool" where
  "look_sound s =
     (case looking s of
        NoLook \<Rightarrow> True
      | Checked g \<Rightarrow> g \<le> claim_generation (mem s) \<and> (g = claim_generation (mem s) \<longrightarrow> busy_threads (threads s) = {})
      | Snapshot g known \<Rightarrow> g \<le> claim_generation (mem s)
          \<and> (g = claim_generation (mem s) \<longrightarrow> busy_threads (threads s) = {} \<and> tracked (mem s) \<subseteq> set known)
      | ReadRows g known rows \<Rightarrow> g \<le> claim_generation (mem s)
          \<and> (g = claim_generation (mem s) \<longrightarrow> set rows - set known \<subseteq> raised_leases s)
      | Releasing ls \<Rightarrow> set ls \<subseteq> raised_leases s)"

definition fence_inv :: "fence_state \<Rightarrow> bool" where
  "fence_inv s = (fence_counted s \<and> rows_accounted s \<and> look_sound s)"

lemma mem_simps [simp]:
  "tracked (count_in w) = tracked w" "tracked (count_out w) = tracked w" "tracked (note_raised b m w) = tracked w"
  "claim_generation (count_in w) = claim_generation w + 1" "claim_generation (count_out w) = claim_generation w"
  "claim_generation (note_raised b m w) = claim_generation w" "claim_generation (hand_off l w) = claim_generation w"
  "claim_generation (start_execution l w) = claim_generation w"
  "claim_generation (end_execution b l w) = claim_generation w"
  "claim_generation (forget_over ov sn w) = claim_generation w"
  "claims_in_flight (count_in w) = claims_in_flight w + 1"
  "claims_in_flight (count_out w) = claims_in_flight w - 1"
  "claims_in_flight (note_raised b m w) = claims_in_flight w" "claims_in_flight (hand_off l w) = claims_in_flight w"
  "claims_in_flight (start_execution l w) = claims_in_flight w"
  "claims_in_flight (end_execution b l w) = claims_in_flight w"
  "claims_in_flight (forget_over ov sn w) = claims_in_flight w"
  "tracked (hand_off l w) = insert l (tracked w)"
  by (auto simp: count_in_def count_out_def note_raised_def hand_off_def start_execution_def
      end_execution_def forget_over_def tracked_def Let_def)

lemma tracked_start [simp]: "l \<in> set (handed_off w) \<Longrightarrow> tracked (start_execution l w) = tracked w"
  by (auto simp: start_execution_def tracked_def)

lemma tracked_unsettle [simp]: "l \<in> set (in_flight w) \<Longrightarrow> tracked (end_execution False l w) = tracked w"
  by (auto simp: end_execution_def tracked_def)

lemma tracked_record: "tracked (end_execution True l w) = tracked w - {l} \<or>
    tracked (end_execution True l w) = tracked w"
  by (auto simp: end_execution_def tracked_def)

lemma tracked_forget: "tracked w - {l. over l} \<subseteq> tracked (forget_over over sn w)"
  "tracked (forget_over over sn w) \<subseteq> tracked w"
  by (auto simp: forget_over_def tracked_def Let_def)

lemma known_tracked: "set (known_leases w) = tracked w"
  by (auto simp: known_leases_def tracked_def)

lemma busy_upd [simp]:
  "busy_threads (f(i := p)) = (if p = Idle then busy_threads f - {i} else insert i (busy_threads f))"
  by (auto simp: busy_threads_def)

lemma busy_iff [simp]: "i \<in> busy_threads f \<longleftrightarrow> f i \<noteq> Idle"
  by (simp add: busy_threads_def)

lemma returning_iff [simp]: "l \<in> returning f \<longleftrightarrow> (\<exists>i. f i = Committed l)"
  by (simp add: returning_def)

lemma returning_keep:
  "(\<And>l. p \<noteq> Committed l) \<Longrightarrow> (\<And>l. f i \<noteq> Committed l) \<Longrightarrow> returning (f(i := p)) = returning f"
  by (rule set_eqI, unfold returning_iff fun_upd_apply) metis

lemma returning_commit:
  "f i = Begun \<Longrightarrow> returning (f(i := Committed l)) = insert l (returning f)"
  by (rule set_eqI, unfold returning_iff fun_upd_apply insert_iff) (metis phase.distinct(7) phase.inject)

lemma returning_leave:
  "f i = Committed l \<Longrightarrow> (\<And>l. p \<noteq> Committed l) \<Longrightarrow>
    returning f = insert l (returning (f(i := p)))"
  by (rule set_eqI, unfold returning_iff fun_upd_apply insert_iff) (metis phase.inject)

lemma returning_idle: "busy_threads f = {} \<Longrightarrow> returning f = {}"
  by (rule set_eqI, unfold returning_iff busy_threads_def) (auto simp del: returning_iff)

lemma fence_counted_step:
  assumes "fence_step s s'" "fence_counted s"
  shows "fence_counted s'"
  using assms
  by (induction rule: fence_step.induct) (auto simp: fence_counted_def card_insert_if)

lemma rows_accounted_step:
  assumes "fence_step s s'" "rows_accounted s"
  shows "rows_accounted s'"
  using assms
proof (induction rule: fence_step.induct)
  case (Record l s)
  then show ?case using tracked_record [of l "mem s"] by (auto simp: rows_accounted_def)
next
  case (Forget over s snapshot)
  then show ?case using tracked_forget(1) [of "mem s" over snapshot] by (fastforce simp: rows_accounted_def)
qed (auto simp: rows_accounted_def returning_keep returning_commit dest: returning_leave)

lemma returning_gone:
  assumes "f i = Committed l" "\<And>l. p \<noteq> Committed l"
    and "\<forall>i j l. f i = Committed l \<longrightarrow> f j = Committed l \<longrightarrow> i = j"
  shows "l \<notin> returning (f(i := p))"
  using assms by (unfold returning_iff fun_upd_apply) metis

lemma fence_apart_step:
  assumes "fence_step s s'" "fence_apart s"
  shows "fence_apart s'"
  using assms
proof (induction rule: fence_step.induct)
  case (Commit s i l)
  then have "l \<notin> returning (threads s)" unfolding fence_apart_def by blast
  with Commit show ?case unfolding fence_apart_def
    by (simp add: returning_commit del: returning_iff) (auto simp del: returning_iff, (metis returning_iff)+)
next
  case (Raise s i l noted tick)
  then show ?case using returning_leave [of "threads s" i l Idle] returning_gone [of "threads s" i l Idle]
    unfolding fence_apart_def by (auto simp del: returning_iff)
next
  case (Register s i l)
  then show ?case using returning_leave [of "threads s" i l Registered] returning_gone [of "threads s" i l Registered]
    unfolding fence_apart_def by (auto simp del: returning_iff)
next
  case (Record l s)
  then show ?case using tracked_record [of l "mem s"] by (auto simp: fence_apart_def)
next
  case (Forget over s snapshot)
  then show ?case using tracked_forget(2) [of over snapshot "mem s"] unfolding fence_apart_def
    by (simp del: returning_iff) blast
qed (auto simp: fence_apart_def returning_keep)

lemma idle_not_busy: "busy_threads f = {} \<Longrightarrow> f i = Idle"
  by (auto simp: busy_threads_def)

lemma choose_known: "set (chosen_by_look known rows) \<subseteq> set rows - set known"
  by (auto simp: chosen_by_look_def intro: rev_image_eqI)

text \<open>A step that leaves the look alone, starts no claim and registers none keeps what it knows.\<close>

lemma look_sound_mono:
  assumes "look_sound s" "looking s' = looking s" "claim_generation (mem s') = claim_generation (mem s)"
    and "busy_threads (threads s) = {} \<Longrightarrow> busy_threads (threads s') = {}"
    and "busy_threads (threads s) = {} \<Longrightarrow> tracked (mem s') \<subseteq> tracked (mem s)"
    and "raised_leases s \<subseteq> raised_leases s'"
  shows "look_sound s'"
  using assms by (cases "looking s") (simp_all add: look_sound_def, blast+)

lemma look_sound_later:
  assumes "look_sound s" "looking s' = looking s" "claim_generation (mem s) < claim_generation (mem s')"
    and "raised_leases s \<subseteq> raised_leases s'"
  shows "look_sound s'"
  using assms by (auto simp: look_sound_def split: look.splits)

lemma look_sound_step:
  assumes "fence_step s s'" "fence_counted s" "rows_accounted s" "look_sound s"
  shows "look_sound s'"
  using assms
proof (induction rule: fence_step.induct)
  case (Begin s i)
  show ?case by (rule look_sound_later [OF Begin(4)]) simp_all
next
  case (Look s)
  then have "busy_threads (threads s) = {}" by (auto simp: fence_counted_def card_eq_0_iff)
  then show ?case by (simp add: look_sound_def)
next
  case (TakeSnapshot s g)
  then show ?case by (auto simp: look_sound_def known_tracked)
next
  case (ReadRow s g known rows)
  have "set rows - set known \<subseteq> raised_leases s" if g: "g = claim_generation (mem s)"
  proof -
    from ReadRow g have b: "busy_threads (threads s) = {}" and k: "tracked (mem s) \<subseteq> set known"
      by (simp_all add: look_sound_def)
    from returning_idle [OF b] ReadRow(4) have "held s \<subseteq> raised_leases s \<union> tracked (mem s)"
      by (simp add: rows_accounted_def)
    with k ReadRow(2) show ?thesis by blast
  qed
  then show ?case using ReadRow by (simp add: look_sound_def)
next
  case (Choose s g known rows)
  then have "set rows - set known \<subseteq> raised_leases s" by (simp add: look_sound_def)
  with choose_known [of known rows] show ?case by (simp add: look_sound_def)
next
  case (GiveUp s)
  show ?case by (simp add: look_sound_def)
next
  case (Record l s)
  show ?case by (rule look_sound_mono [OF Record(4)]) (use tracked_record [of l "mem s"] in auto)
next
  case (Forget over s snapshot)
  show ?case by (rule look_sound_mono [OF Forget(4)]) (use tracked_forget(2) in auto)
next
  case (Commit s i l)
  show ?case by (rule look_sound_mono [OF Commit(5)]) (use idle_not_busy [of "threads s" i] Commit(1) in auto)
next
  case (Register s i l)
  show ?case by (rule look_sound_mono [OF Register(4)]) (use idle_not_busy [of "threads s" i] Register(1) in auto)
next
  case (Nothing s i noted tick)
  show ?case by (rule look_sound_mono [OF Nothing(4)]) auto
next
  case (Raise s i l noted tick)
  show ?case by (rule look_sound_mono [OF Raise(4)]) auto
next
  case (Return s i)
  show ?case by (rule look_sound_mono [OF Return(4)]) auto
next
  case (Execute l s)
  show ?case by (rule look_sound_mono [OF Execute(4)]) (use Execute(1) in auto)
next
  case (Unsettle l s)
  show ?case by (rule look_sound_mono [OF Unsettle(4)]) (use Unsettle(1) in auto)
next
  case (Lose s l)
  show ?case by (rule look_sound_mono [OF Lose(3)]) auto
next
  case (Release s ls l)
  show ?case by (rule look_sound_mono [OF Release(5)]) auto
qed

section \<open>Every reachable state\<close>

lemma fence_reachable_inv:
  assumes "fence_reachable s"
  shows "fence_inv s \<and> fence_apart s"
  using assms
proof induction
  case start
  show ?case
    by (simp add: fence_inv_def fence_counted_def rows_accounted_def look_sound_def fence_apart_def
        fence_init_def fresh_memory_def tracked_def busy_threads_def returning_def)
next
  case (step s s')
  then show ?case unfolding fence_inv_def
    by (blast intro: fence_counted_step rows_accounted_step look_sound_step fence_apart_step)
qed

lemma look_takes_raised:
  assumes "fence_reachable s" "looking s = Releasing ls" "l \<in> set ls"
  shows "l \<in> raised_leases s \<and> l \<notin> tracked (mem s) \<and> (\<forall>i. threads s i \<noteq> Committed l)"
proof -
  note inv = fence_reachable_inv [OF assms(1)]
  then have r: "l \<in> raised_leases s" using assms(2,3) by (auto simp: fence_inv_def look_sound_def)
  with inv have "l \<notin> tracked (mem s) \<union> returning (threads s)" unfolding fence_apart_def by blast
  with r show ?thesis by auto
qed

end
