(* ===== verification/Runs.thy ===== *)
theory Runs
  imports System ClaimFence
begin

text \<open>
  Concrete runs of the task table, on which the properties that have hypotheses are shown to apply: one task
  enqueued, claimed by a worker, then settled, reaped or lost track of.
\<close>

definition demo_row :: ox_task where
  "demo_row = \<lparr>pk = 1, task_path = ''shop.tasks.bill'', args = JList [], kwargs = JObj [], queue_name = ''default'',
     priority = 0, takes_context = False, backend_name = ''default'', status = READY, run_after = None,
     attempts = 0, max_attempts = 3, return_value = None, errors = [], worker_ids = [], enqueued_at = 10,
     started_at = None, last_attempted_at = None, finished_at = None, locked_by = None, locked_at = None,
     lease_expires_at = None, lease_epoch = 0\<rparr>"

definition demo_cfg :: worker_cfg where
  "demo_cfg = \<lparr>worker_id = ''host-7'', queues = [''default''], lock_timeout = 300000000, reap_batch = 100\<rparr>"

definition demo_claimed :: ox_task where
  "demo_claimed = claimed_row demo_cfg 1000 demo_row"

definition demo_enqueued :: system where
  "demo_enqueued = empty_system\<lparr>tbl := insert_row demo_row [], seen := {demo_row}\<rparr>"

definition demo_running :: system where
  "demo_running = grant True (1, 1) ''host-7'' (statement (\<lambda>q. pk q = 1) (claimed_row demo_cfg 1000) demo_enqueued)"

definition demo_done :: outcome where
  "demo_done = Succeeded (JInt 42) 2000 []"

definition demo_settled :: system where
  "demo_settled = land True (1, 1) (statement (outcome_pin demo_claimed) (outcome_fields demo_done) demo_running)"

definition demo_reclaimed :: system where
  "demo_reclaimed = statement (requeue_pin (900000000, 1000) [1]) reclaimed_row demo_running"

lemma demo_rows [simp]:
  "pk demo_row = 1" "status demo_row = READY" "lease_epoch demo_row = 0" "attempts demo_row = 0"
  "max_attempts demo_row = 3" "worker_id demo_cfg = ''host-7''" "pk demo_claimed = 1"
  "status demo_claimed = RUNNING" "lease_epoch demo_claimed = 1" "attempts demo_claimed = 1"
  "max_attempts demo_claimed = 3" "locked_by demo_claimed = Some ''host-7''"
  by (simp_all add: demo_row_def demo_cfg_def demo_claimed_def row_simps)

lemma demo_fresh: "fresh_row demo_row"
  by (simp add: fresh_row_def demo_row_def)

lemma demo_tables [simp]:
  "tbl demo_enqueued = [demo_row]" "tbl demo_running = [demo_claimed]"
  "tbl demo_settled = [outcome_fields demo_done demo_claimed]"
  by (simp_all add: demo_enqueued_def insert_row_def empty_system_def demo_running_def demo_claimed_def [symmetric]
      demo_settled_def outcome_pin_def writable_statuses_def)

lemma demo_seen [simp]:
  "seen demo_running = {demo_row, demo_claimed}"
  by (simp add: demo_running_def demo_enqueued_def insert_row_def empty_system_def demo_claimed_def [symmetric] insert_commute)

lemma reachable_enqueued: "reachable demo_enqueued"
  using sys_step.enqueue [OF demo_fresh, of empty_system] reachable.init
  by (auto simp: demo_enqueued_def empty_system_def intro: reachable.step)

lemma reachable_running: "reachable demo_running"
proof -
  have "sys_step demo_enqueued demo_running"
    using sys_step.claim [of demo_row demo_enqueued demo_cfg 1000] by (simp add: demo_running_def)
  then show ?thesis by (rule reachable.step [OF reachable_enqueued])
qed

lemma reachable_settled: "reachable demo_settled"
proof -
  have "matched (outcome_pin demo_claimed) demo_running"
    by (simp add: matched_def outcome_pin_def writable_statuses_def)
  then have "sys_step demo_running demo_settled"
    using sys_step.outcome [of demo_claimed demo_running demo_done]
    by (simp add: demo_settled_def demo_done_def lease_of_def)
  then show ?thesis by (rule reachable.step [OF reachable_running])
qed

lemma reachable_reclaimed: "reachable demo_reclaimed"
  unfolding demo_reclaimed_def by (rule reachable.step [OF reachable_running sys_step.requeue])

lemma demo_reclaimed_tbl [simp]: "tbl demo_reclaimed = [reclaimed_row demo_claimed]"
proof -
  have "requeue_pin (900000000, 1000) [1] demo_claimed"
    by (simp add: requeue_pin_def stuck_def abandoned_lease_def demo_claimed_def claimed_row_def demo_cfg_def demo_row_def
        sql_less_def sql_ge_def)
  then show ?thesis by (simp add: demo_reclaimed_def)
qed

lemma demo_reclaimed_seen [simp]: "demo_claimed \<in> seen demo_reclaimed"
  by (simp add: demo_reclaimed_def)

section \<open>Single operations\<close>

lemma demo_claim:
  "claim_one \<lparr>vendor = Sqlite, skip_locked = False\<rparr> demo_cfg \<lparr>filter_q = None, filter_sql = None\<rparr> False
     (\<lambda>k. False) (\<lambda>n t. t) 1000 (\<lambda>n. 1000) [demo_row] = ((Some demo_claimed, False), [demo_claimed])"
proof -
  have "ready_queryset demo_cfg None 1000 [demo_row] = [demo_row]"
    by (simp add: ready_queryset_def runnable_def passes_def demo_row_def demo_cfg_def)
  moreover have "claim_fields demo_cfg 1000 demo_row demo_row = demo_claimed"
    by (simp add: demo_claimed_def claim_fields_same)
  ultimately show ?thesis
    by (simp add: claim_one_def claim_one_cas_def claim_batch_size_def update_where_def cas_pin_def
        reload_claimed_def fetch_def)
qed

definition demo_error :: attempt_error where
  "demo_error = \<lparr>exception_class_path = ''builtins.ValueError'', traceback = ''Traceback''\<rparr>"

lemma demo_failure:
  "handle_failure \<lparr>backoff_initial = 2, backoff_max = 60\<rparr> None True False 2000 demo_error demo_claimed (tbl demo_running)
    = (Some ((True, [TaskRetrying 2]), outcome_fields (RetryAt 2002000 [demo_error] None) demo_claimed),
       [outcome_fields (RetryAt 2002000 [demo_error] None) demo_claimed])"
proof -
  have e: "errors demo_claimed = []" by (simp add: demo_claimed_def row_simps demo_row_def)
  have "to_micros 2 = 2000000" using to_micros_of_int [of 2] by simp
  then show ?thesis
    by (simp add: handle_failure_def failure_decision_def worker_delay_def failure_outcome_def e
        write_outcome_def update_where_def outcome_pin_def writable_statuses_def)
qed

section \<open>A claim whose call raised\<close>

text \<open>A claim commits and its call raises; the look then reads its row and chooses it.\<close>

definition fence_raised :: fence_state where
  "fence_raised =
     (let s0 = fence_init fresh_memory;
          s1 = s0\<lparr>threads := (threads s0)(0 := Begun), mem := count_in (mem s0)\<rparr>;
          s2 = s1\<lparr>threads := (threads s1)(0 := Committed (1, 1)), held := insert (1, 1) (held s1),
            granted := insert (1, 1) (granted s1)\<rparr>
      in s2\<lparr>threads := (threads s2)(0 := Idle), mem := count_out (note_raised True 5 (mem s2)),
            raised_leases := insert (1, 1) (raised_leases s2)\<rparr>)"

definition fence_demo :: fence_state where
  "fence_demo = fence_raised\<lparr>looking := Releasing (chosen_by_look [] [(1, 1)])\<rparr>"

lemma fence_raised_reachable: "fence_reachable fence_raised"
proof -
  let ?s0 = "fence_init fresh_memory"
  let ?s1 = "?s0\<lparr>threads := (threads ?s0)(0 := Begun), mem := count_in (mem ?s0)\<rparr>"
  let ?s2 = "?s1\<lparr>threads := (threads ?s1)(0 := Committed (1, 1)), held := insert (1, 1) (held ?s1),
    granted := insert (1, 1) (granted ?s1)\<rparr>"
  have r1: "fence_reachable ?s1"
    by (rule fence_reachable.step [OF fence_reachable.start fence_step.Begin]) (simp add: fence_init_def)
  have r2: "fence_reachable ?s2"
    by (rule fence_reachable.step [OF r1 fence_step.Commit]) (simp_all add: fence_init_def)
  show ?thesis
    unfolding fence_raised_def Let_def
    by (rule fence_reachable.step [OF r2 fence_step.Raise]) simp
qed

lemma fence_raised_simps [simp]:
  "claims_in_flight (mem fence_raised) = 0" "claim_unconfirmed_at (mem fence_raised) = Some 5"
  "claim_generation (mem fence_raised) = 1" "known_leases (mem fence_raised) = []"
  "held fence_raised = {(1, 1)}"
  by (simp_all add: fence_raised_def fence_init_def fresh_memory_def count_in_def count_out_def note_raised_def
      known_leases_def)

lemma fence_demo_reachable: "fence_reachable fence_demo"
proof -
  let ?s1 = "fence_raised\<lparr>looking := Checked 1\<rparr>"
  let ?s2 = "?s1\<lparr>looking := Snapshot 1 []\<rparr>"
  let ?s3 = "?s2\<lparr>looking := ReadRows 1 [] [(1, 1)]\<rparr>"
  have r1: "fence_reachable ?s1"
    using fence_reachable.step [OF fence_raised_reachable fence_step.Look] by simp
  have r2: "fence_reachable ?s2"
    using fence_reachable.step [OF r1 fence_step.TakeSnapshot, of 1] by simp
  have r3: "fence_reachable ?s3"
    using fence_reachable.step [OF r2 fence_step.ReadRow, of 1 "[]" "[(1, 1)]"] by simp
  show ?thesis
    using fence_reachable.step [OF r3 fence_step.Choose, of 1 "[]" "[(1, 1)]"] by (simp add: fence_demo_def)
qed

lemma fence_demo_looking: "looking fence_demo = Releasing [(1, 1)]"
  by (simp add: fence_demo_def chosen_by_look_def)

section \<open>More runs\<close>

text \<open>The settled row, after an operator selected it for a bulk discard.\<close>

definition demo_kept :: system where
  "demo_kept = statement (\<lambda>r. pk r \<in> set [1] \<and> discardable r) (discarded_at 3000) demo_settled"

lemma reachable_kept: "reachable demo_kept"
  unfolding demo_kept_def by (rule reachable.step [OF reachable_settled sys_step.discard_many])

lemma demo_kept_tbl [simp]: "tbl demo_kept = [outcome_fields demo_done demo_claimed]"
  by (simp add: demo_kept_def discardable_def discardable_statuses_def demo_done_def)

lemma demo_kept_seen: "outcome_fields demo_done demo_claimed \<in> seen demo_kept"
  using reachable_seen [OF reachable_kept] by simp

text \<open>A running row and one that failed on its last attempt.\<close>

definition demo_failed :: ox_task where
  "demo_failed = demo_row\<lparr>pk := 2, status := FAILED, attempts := 3, lease_epoch := 3,
     worker_ids := [''a'', ''b'', ''c''], finished_at := Some 5000\<rparr>"

definition demo_pair :: table where
  "demo_pair = [demo_claimed, demo_failed]"

lemma demo_pair_wf: "wf_table demo_pair"
  by (simp add: wf_table_def demo_pair_def demo_failed_def)

lemma demo_pair_fetch [simp]: "fetch 1 demo_pair = Some demo_claimed" "fetch 2 demo_pair = Some demo_failed"
  by (simp_all add: fetch_def demo_pair_def demo_failed_def)

lemma demo_retryable [simp]: "retryable demo_failed" "\<not> retryable demo_claimed" "\<not> discardable demo_claimed"
  by (simp_all add: retryable_def retry_fits_def retryable_statuses_def max_attempts_limit_def demo_failed_def
      discardable_def discardable_statuses_def)

lemma demo_selection: "ids_of [Uuid 2, Text ''x'', Uuid 1, Uuid 2] = ([2, 1], 1)"
  by code_simp

lemma demo_retry_many:
  "retry_many False False 3 (\<lambda>a m. None) (\<lambda>n t. t) [Uuid 2, Text ''x'', Uuid 1, Uuid 2] demo_pair
    = (Inr (1, 2), [demo_claimed, retried demo_failed])"
proof -
  have "rows_moving {1, 2} retryable demo_pair = 1" "move_rows {1, 2} retryable retried demo_pair
      = [demo_claimed, retried demo_failed]"
    by (simp_all add: rows_moving_def move_rows_def demo_pair_def demo_failed_def [THEN arg_cong [where f = pk], simplified])
  then show ?thesis
    using move_in_key_order_clean [of retried "[2, 1]" 3 "\<lambda>a m. None" False False "\<lambda>n t. t" retryable demo_pair]
    by (simp add: retry_many_def demo_selection counted_def insert_commute)
qed

lemma demo_requeue:
  "requeue_abandoned False demo_cfg \<lparr>at_read = (900000000, 1000), at_write = (900000000, 1000)\<rparr> (\<lambda>t. t) demo_pair
    = ((1, Names [1]), [reclaimed_row demo_claimed, demo_failed])"
proof -
  have "stuck 900000000 1000 demo_claimed" "\<not> stuck 900000000 1000 demo_failed"
    by (simp_all add: stuck_def abandoned_lease_def demo_claimed_def claimed_row_def demo_cfg_def demo_row_def
        sql_less_def sql_ge_def demo_failed_def)
  moreover from this have "requeue_manifest False demo_cfg (900000000, 1000) demo_pair = [demo_claimed]"
    by (simp add: requeue_manifest_def demo_pair_def demo_cfg_def)
  ultimately show ?thesis
    by (simp add: requeue_abandoned_def update_where_def demo_pair_def requeue_pin_def)
qed

lemma demo_bulk_fault:
  "discard_many False False 1 (\<lambda>a m. Some (OtherError ''KeyboardInterrupt'')) (\<lambda>n t. t) 9 [Uuid 2] demo_pair
    = (Inl (OtherError ''KeyboardInterrupt''), demo_pair)"
proof -
  have "ids_of [Uuid 2] = ([2], 0)" by code_simp
  then show ?thesis
    by (simp add: discard_many_def move_in_key_order_def run_contended_def run_from.simps chunks.simps
        update_chunk_size_def counted_def)
qed

lemma demo_revive:
  "revive_many False 1 (\<lambda>a m. None) (\<lambda>n t. t) [(Uuid 2, 3)] demo_pair = (Inr [(2, WRONG_STATUS_OR_EPOCH)], demo_pair)"
proof -
  have p: "pinned False [(Uuid 2, 3)] = ([(2, 3)], [])" by code_simp
  have "revival_of demo_pair (2, 3) = WRONG_STATUS_OR_EPOCH"
    by (simp add: revival_of_def) (simp add: demo_failed_def)
  then show ?thesis
    by (simp add: revive_many_def p run_contended_def run_from.simps chunks.simps update_chunk_size_def)
qed

lemma demo_state_wf: "wf_table (state_at (\<lambda>n t. t) demo_pair n)"
  by (induction n) (simp_all add: demo_pair_wf)

end
