(* ===== verification/TickLog.thy ===== *)
theory TickLog
  imports Actions
begin

text \<open>
  The schedule tick log (\<open>OxScheduleTick\<close>, unique on schedule key and instant) and its two reads in
  \<open>src/django_ox/_stored_read.py\<close>: the newest tick of each key from a bound on, read in slices and, when a
  slice fails on a value the driver cannot hand over, in halves; and the earliest tick of one key.
\<close>

section \<open>The log\<close>

text \<open>A tick whose instant does not read still has its place in the order of the column.\<close>

record tick =
  schedule_name :: string
  scheduled_for :: int
  tick_task :: "nat option"
  readable :: bool

definition tick_id :: "tick \<Rightarrow> string \<times> int" where
  "tick_id t = (schedule_name t, scheduled_for t)"

definition wf_log :: "tick list \<Rightarrow> bool" where
  "wf_log log = distinct (map tick_id log)"

definition recorded :: "string \<Rightarrow> int \<Rightarrow> tick list \<Rightarrow> bool" where
  "recorded k i log = list_ex (\<lambda>t. schedule_name t = k \<and> scheduled_for t = i) log"

lemma recorded_iff: "recorded k i log \<longleftrightarrow> (k, i) \<in> tick_id ` set log"
  by (auto simp: recorded_def tick_id_def list_ex_iff image_iff)

text \<open>\<open>TickRead\<close>: no tick, a tick that does not read, a tick.\<close>

datatype tick_read = Absent | Unreadable | ReadAt int

definition read_tick :: "tick \<Rightarrow> tick_read" where
  "read_tick t = (if readable t then ReadAt (scheduled_for t) else Unreadable)"

section \<open>The newest ticks\<close>

definition newest_read :: "string \<Rightarrow> int \<Rightarrow> tick list \<Rightarrow> tick_read" where
  "newest_read k since log =
     (case filter (\<lambda>t. schedule_name t = k \<and> since \<le> scheduled_for t) log of
        [] \<Rightarrow> Absent
      | ts \<Rightarrow> read_tick (last (sort_key scheduled_for ts)))"

text \<open>
  \<open>_latest\<close>: a statement fails as a whole when it meets a value of a \<open>poison\<close> key; \<open>conn_ok\<close> is
  \<open>can_read_on\<close>, and None the error raised on when it is not.
\<close>

function latest_slice ::
  "(string \<Rightarrow> bool) \<Rightarrow> bool \<Rightarrow> tick list \<Rightarrow> int \<Rightarrow> string list \<Rightarrow> (string \<times> tick_read) list option" where
  "latest_slice poison conn_ok log since keys =
     (if \<not> list_ex poison keys then Some (map (\<lambda>k. (k, newest_read k since log)) keys)
      else if \<not> conn_ok then None
      else if length keys \<le> 1 then Some (map (\<lambda>k. (k, Unreadable)) keys)
      else (let middle = length keys div 2 in
            case (latest_slice poison conn_ok log since (take middle keys),
                  latest_slice poison conn_ok log since (drop middle keys)) of
              (Some a, Some b) \<Rightarrow> Some (a @ b)
            | _ \<Rightarrow> None))"
  by pat_completeness auto
termination
  by (relation "measure (\<lambda>(p, u, l, s, keys). length keys)") auto

declare latest_slice.simps [simp del]

text \<open>\<open>latest_ticks\<close>: \<open>limit\<close> is the connection's maximum of query parameters.\<close>

definition slice_size :: "nat option \<Rightarrow> string list \<Rightarrow> nat" where
  "slice_size limit wanted =
     (case limit of
        None \<Rightarrow> max (length wanted) 1
      | Some l \<Rightarrow> if l = 0 then max (length wanted) 1 else max (l - 1) 1)"

fun read_slices ::
  "(string \<Rightarrow> bool) \<Rightarrow> bool \<Rightarrow> tick list \<Rightarrow> int \<Rightarrow> string list list \<Rightarrow> (string \<times> tick_read) list option" where
  "read_slices poison conn_ok log since [] = Some []"
| "read_slices poison conn_ok log since (c # cs) =
     (case latest_slice poison conn_ok log since c of
        None \<Rightarrow> None
      | Some a \<Rightarrow> map_option (\<lambda>b. a @ b) (read_slices poison conn_ok log since cs))"

definition latest_ticks ::
  "(string \<Rightarrow> bool) \<Rightarrow> bool \<Rightarrow> nat option \<Rightarrow> tick list \<Rightarrow> int \<Rightarrow> string list \<Rightarrow> (string \<times> tick_read) list option" where
  "latest_ticks poison conn_ok limit log since keys =
     (let wanted = first_seen keys in
      map_option (\<lambda>found. map (\<lambda>k. (k, case map_of found k of Some r \<Rightarrow> r | None \<Rightarrow> Absent)) wanted)
        (read_slices poison conn_ok log since (chunks (slice_size limit wanted) wanted)))"

section \<open>The earliest tick\<close>

text \<open>\<open>earliest_tick\<close>, the pass's own rows left out by their identity.\<close>

definition earliest_tick :: "string \<Rightarrow> (string \<times> int) list \<Rightarrow> tick list \<Rightarrow> tick_read" where
  "earliest_tick k exclude log =
     (case filter (\<lambda>t. schedule_name t = k \<and> tick_id t \<notin> set exclude) log of
        [] \<Rightarrow> Absent
      | ts \<Rightarrow> read_tick (hd (sort_key scheduled_for ts)))"

section \<open>Facts\<close>

definition key_read :: "(string \<Rightarrow> bool) \<Rightarrow> tick list \<Rightarrow> int \<Rightarrow> string \<Rightarrow> tick_read" where
  "key_read poison log since k = (if poison k then Unreadable else newest_read k since log)"

lemma latest_slice_narrows:
  "latest_slice poison True log since keys = Some (map (\<lambda>k. (k, key_read poison log since k)) keys)"
proof (induction keys rule: length_induct)
  case (1 keys)
  show ?case
  proof (cases "list_ex poison keys")
    case False
    then have "latest_slice poison True log since keys = Some (map (\<lambda>k. (k, newest_read k since log)) keys)"
      by (simp add: latest_slice.simps [of _ _ _ _ keys])
    moreover have "map (\<lambda>k. (k, newest_read k since log)) keys = map (\<lambda>k. (k, key_read poison log since k)) keys"
      using False by (auto simp: list_ex_iff key_read_def)
    ultimately show ?thesis by simp
  next
    case bad: True
    show ?thesis
    proof (cases "length keys \<le> 1")
      case True
      with bad show ?thesis
        by (cases keys) (auto simp: latest_slice.simps [of _ _ _ _ "[a]" for a] key_read_def)
    next
      case False
      let ?m = "length keys div 2"
      let ?r = "\<lambda>ks. map (\<lambda>k. (k, key_read poison log since k)) ks"
      have "latest_slice poison True log since (take ?m keys) = Some (?r (take ?m keys))"
        "latest_slice poison True log since (drop ?m keys) = Some (?r (drop ?m keys))"
        using 1 False by simp_all
      then have "latest_slice poison True log since keys = Some (?r (take ?m keys) @ ?r (drop ?m keys))"
        using bad False by (simp add: latest_slice.simps [of _ _ _ _ keys] Let_def)
      then show ?thesis by (metis append_take_drop_id map_append)
    qed
  qed
qed

lemma read_slices_narrows:
  "read_slices poison True log since cs = Some (map (\<lambda>k. (k, key_read poison log since k)) (concat cs))"
  by (induction cs) (simp_all add: latest_slice_narrows)

lemma latest_ticks_narrows:
  "latest_ticks poison True limit log since keys
    = Some (map (\<lambda>k. (k, key_read poison log since k)) (first_seen keys))"
proof -
  let ?w = "first_seen keys"
  have "0 < slice_size limit ?w" by (auto simp: slice_size_def split: option.splits)
  then have "concat (chunks (slice_size limit ?w) ?w) = ?w" by (rule concat_chunks)
  then have "read_slices poison True log since (chunks (slice_size limit ?w) ?w)
      = Some (map (\<lambda>k. (k, key_read poison log since k)) ?w)"
    by (simp only: read_slices_narrows)
  then show ?thesis by (simp add: latest_ticks_def Let_def map_of_map_restrict restrict_map_def)
qed

lemma newest_read_at:
  assumes "newest_read k since log = ReadAt i"
  shows "recorded k i log" "since \<le> i" "\<And>t. t \<in> set log \<Longrightarrow> schedule_name t = k \<Longrightarrow> since \<le> scheduled_for t \<Longrightarrow> scheduled_for t \<le> i"
proof -
  let ?ts = "filter (\<lambda>t. schedule_name t = k \<and> since \<le> scheduled_for t) log"
  have ne: "?ts \<noteq> []" using assms by (auto simp: newest_read_def)
  let ?l = "last (sort_key scheduled_for ?ts)"
  have "set (sort_key scheduled_for ?ts) = set ?ts" "sort_key scheduled_for ?ts \<noteq> []" using ne by (auto simp del: filter_empty_conv)
      (metis set_empty set_sort)
  then have l: "?l \<in> set ?ts" by (metis last_in_set)
  have i: "scheduled_for ?l = i" using assms ne
    by (auto simp: newest_read_def read_tick_def split: list.splits if_splits)
  show "recorded k i log" "since \<le> i" using l i by (auto simp: recorded_def list_ex_iff)
  fix t assume "t \<in> set log" "schedule_name t = k" "since \<le> scheduled_for t"
  then have "t \<in> set (sort_key scheduled_for ?ts)" by simp
  then have "scheduled_for t \<in> set (map scheduled_for (sort_key scheduled_for ?ts))" by simp
  from sorted_le_last [OF sorted_sort_key this] have "scheduled_for t \<le> last (map scheduled_for (sort_key scheduled_for ?ts))" .
  then show "scheduled_for t \<le> i" using i \<open>sort_key scheduled_for ?ts \<noteq> []\<close> by (simp add: last_map)
qed

end
