(* ===== verification/Calendar.thy ===== *)
theory Calendar
  imports Prelude
begin

text \<open>
  Naive datetimes as the cron and interval triggers use them: the calendar fields
  of Python's \<open>datetime\<close>, the field-carrying arithmetic the code performs on
  them (next midnight, next hour, a minute either way), and the position of an
  instant on the minute line, by which \<open>datetime\<close> comparison is decided.  Years run
  from 1 to 9999; arithmetic past either end raises.
\<close>

section \<open>Fields\<close>

record datetime =
  dt_year :: int
  dt_month :: int
  dt_day :: int
  dt_hour :: int
  dt_minute :: int
  dt_second :: int
  dt_micro :: int
  dt_fold :: int
  dt_aware :: bool

datatype time_error = YearOutOfRange | DateOverflow

definition is_leap :: "int \<Rightarrow> bool" where
  "is_leap y = (y mod 4 = 0 \<and> (y mod 100 \<noteq> 0 \<or> y mod 400 = 0))"

definition days_in_month :: "int \<Rightarrow> int \<Rightarrow> int" where
  "days_in_month y m =
     (if m = 2 then (if is_leap y then 29 else 28)
      else if m = 4 \<or> m = 6 \<or> m = 9 \<or> m = 11 then 30 else 31)"

definition days_before_year :: "int \<Rightarrow> int" where
  "days_before_year y = (let p = y - 1 in p * 365 + p div 4 - p div 100 + p div 400)"

definition days_before_month :: "int \<Rightarrow> int \<Rightarrow> int" where
  "days_before_month y m =
     (if m = 1 then 0 else if m = 2 then 31 else if m = 3 then 59 else if m = 4 then 90
      else if m = 5 then 120 else if m = 6 then 151 else if m = 7 then 181
      else if m = 8 then 212 else if m = 9 then 243 else if m = 10 then 273
      else if m = 11 then 304 else 334)
     + (if 2 < m \<and> is_leap y then 1 else 0)"

definition ordinal :: "int \<Rightarrow> int \<Rightarrow> int \<Rightarrow> int" where
  "ordinal y m d = days_before_year y + days_before_month y m + d"

text \<open>\<open>datetime.weekday()\<close>: Monday is 0.\<close>

definition weekday :: "datetime \<Rightarrow> int" where
  "weekday dt = (ordinal (dt_year dt) (dt_month dt) (dt_day dt) + 6) mod 7"

definition valid_date :: "int \<Rightarrow> int \<Rightarrow> int \<Rightarrow> bool" where
  "valid_date y m d = (1 \<le> y \<and> y \<le> 9999 \<and> 1 \<le> m \<and> m \<le> 12 \<and> 1 \<le> d \<and> d \<le> days_in_month y m)"

definition valid_dt :: "datetime \<Rightarrow> bool" where
  "valid_dt dt = (valid_date (dt_year dt) (dt_month dt) (dt_day dt)
      \<and> 0 \<le> dt_hour dt \<and> dt_hour dt \<le> 23 \<and> 0 \<le> dt_minute dt \<and> dt_minute dt \<le> 59)"

definition at_time :: "int \<Rightarrow> int \<Rightarrow> int \<Rightarrow> int \<Rightarrow> int \<Rightarrow> datetime" where
  "at_time y m d h mi = \<lparr>dt_year = y, dt_month = m, dt_day = d, dt_hour = h, dt_minute = mi,
     dt_second = 0, dt_micro = 0, dt_fold = 0, dt_aware = False\<rparr>"

text \<open>The order of naive datetimes at whole minutes is the order of their fields.\<close>

definition dt_key :: "datetime \<Rightarrow> int \<times> int \<times> int \<times> int \<times> int" where
  "dt_key dt = (dt_year dt, dt_month dt, dt_day dt, dt_hour dt, dt_minute dt)"

definition abs_minutes :: "datetime \<Rightarrow> int" where
  "abs_minutes dt = ordinal (dt_year dt) (dt_month dt) (dt_day dt) * 1440
     + dt_hour dt * 60 + dt_minute dt"

definition first_minute :: int where
  "first_minute = ordinal 1 1 1 * 1440"

definition last_minute :: int where
  "last_minute = ordinal 9999 12 31 * 1440 + 1439"

section \<open>Arithmetic\<close>

text \<open>\<open>datetime(y, m, d)\<close>\<close>

definition midnight :: "int \<Rightarrow> int \<Rightarrow> int \<Rightarrow> time_error + datetime" where
  "midnight y m d = (if y < 1 \<or> 9999 < y then Inl YearOutOfRange else Inr (at_time y m d 0 0))"

text \<open>\<open>datetime(y, m, d) + timedelta(days=1)\<close>\<close>

definition next_midnight :: "datetime \<Rightarrow> time_error + datetime" where
  "next_midnight dt =
     (let y = dt_year dt; m = dt_month dt; d = dt_day dt in
      if d < days_in_month y m then Inr (at_time y m (d + 1) 0 0)
      else if m < 12 then Inr (at_time y (m + 1) 1 0 0)
      else if y < 9999 then Inr (at_time (y + 1) 1 1 0 0) else Inl DateOverflow)"

text \<open>\<open>dt.replace(minute=0) + timedelta(hours=1)\<close> and \<open>dt + timedelta(minutes=1)\<close>\<close>

definition next_hour :: "datetime \<Rightarrow> time_error + datetime" where
  "next_hour dt =
     (if dt_hour dt < 23
      then Inr (at_time (dt_year dt) (dt_month dt) (dt_day dt) (dt_hour dt + 1) 0)
      else next_midnight dt)"

definition add_minute :: "datetime \<Rightarrow> time_error + datetime" where
  "add_minute dt =
     (if dt_minute dt < 59
      then Inr (at_time (dt_year dt) (dt_month dt) (dt_day dt) (dt_hour dt) (dt_minute dt + 1))
      else next_hour dt)"

text \<open>
  \<open>datetime(y, m, 1) - timedelta(minutes=1)\<close>, \<open>datetime(y, m, d) - timedelta(minutes=1)\<close>
  and \<open>dt.replace(minute=0) - timedelta(minutes=1)\<close>.
\<close>

definition prev_month_end :: "datetime \<Rightarrow> time_error + datetime" where
  "prev_month_end dt =
     (let y = dt_year dt; m = dt_month dt in
      if 1 < m then Inr (at_time y (m - 1) (days_in_month y (m - 1)) 23 59)
      else if 1 < y then Inr (at_time (y - 1) 12 31 23 59) else Inl DateOverflow)"

definition prev_day_end :: "datetime \<Rightarrow> time_error + datetime" where
  "prev_day_end dt =
     (if 1 < dt_day dt then Inr (at_time (dt_year dt) (dt_month dt) (dt_day dt - 1) 23 59)
      else prev_month_end dt)"

definition prev_hour_end :: "datetime \<Rightarrow> time_error + datetime" where
  "prev_hour_end dt =
     (if 0 < dt_hour dt
      then Inr (at_time (dt_year dt) (dt_month dt) (dt_day dt) (dt_hour dt - 1) 59)
      else prev_day_end dt)"

lemma at_time_simps [simp]:
  "dt_year (at_time y m d h mi) = y" "dt_month (at_time y m d h mi) = m"
  "dt_day (at_time y m d h mi) = d" "dt_hour (at_time y m d h mi) = h"
  "dt_minute (at_time y m d h mi) = mi"
  "dt_second (at_time y m d h mi) = 0" "dt_micro (at_time y m d h mi) = 0"
  by (simp_all add: at_time_def)

section \<open>Positions on the minute line\<close>

lemma days_in_month_bounds: "28 \<le> days_in_month y m" "days_in_month y m \<le> 31"
  by (simp_all add: days_in_month_def)

lemma days_in_month_pos [simp]: "1 \<le> days_in_month y m" "0 < days_in_month y m"
  by (simp_all add: days_in_month_def)

lemma days_in_month_ends [simp]: "days_in_month y 12 = 31" "days_in_month y 1 = 31"
  by (simp_all add: days_in_month_def)

lemma months_cases:
  "1 \<le> m \<Longrightarrow> m \<le> 12 \<Longrightarrow>
     m = 1 \<or> m = 2 \<or> m = 3 \<or> m = 4 \<or> m = 5 \<or> m = 6 \<or> m = 7 \<or> m = 8 \<or> m = 9 \<or> m = 10
     \<or> m = 11 \<or> m = (12 :: int)"
  by presburger

lemma days_before_month_Suc:
  "1 \<le> m \<Longrightarrow> m < 12 \<Longrightarrow> days_before_month y (m + 1) = days_before_month y m + days_in_month y m"
  using months_cases [of m] by (auto simp: days_before_month_def days_in_month_def)

lemma days_before_month_mono:
  assumes "1 \<le> m" "m < m'" "m' \<le> 12"
  shows "days_before_month y m + days_in_month y m \<le> days_before_month y m'"
proof -
  from assms(2) have "m + 1 \<le> m'" by simp
  then show ?thesis using assms(3)
  proof (induction m' rule: int_ge_induct)
    case base
    with assms(1) show ?case by (simp add: days_before_month_Suc)
  next
    case (step i)
    then show ?case
      using days_before_month_Suc [of i y] days_in_month_bounds(1) [of y i] assms(1) by simp
  qed
qed

lemma days_before_month_range:
  "1 \<le> m \<Longrightarrow> m \<le> 12 \<Longrightarrow> 0 \<le> days_before_month y m
     \<and> days_before_month y m + days_in_month y m \<le> 365 + (if is_leap y then 1 else 0)"
  by (drule (1) months_cases, elim disjE) (simp_all add: days_before_month_def days_in_month_def)

lemma div_pred:
  fixes y k :: int
  assumes "1 < k"
  shows "y div k - (y - 1) div k = (if y mod k = 0 then 1 else 0)"
proof (cases "y mod k = 0")
  case True
  then have "y div k * k = y" by (metis add.right_neutral div_mult_mod_eq)
  then have "y - 1 = (k - 1) + (y div k - 1) * k" by (simp add: algebra_simps)
  then have "(y - 1) div k = ((k - 1) + (y div k - 1) * k) div k"
    by (rule arg_cong [where f = "\<lambda>z. z div k"])
  also have "\<dots> = (y div k - 1) + (k - 1) div k"
    by (rule div_mult_self1) (use assms in simp)
  also have "(k - 1) div k = 0" using assms by (simp add: div_pos_pos_trivial)
  finally have "(y - 1) div k = y div k - 1" by simp
  with True show ?thesis by simp
next
  case False
  moreover have "0 \<le> y mod k" by (rule pos_mod_sign) (use assms in simp)
  ultimately have "0 < y mod k" by (simp only: order_less_le) simp
  moreover have "y mod k < k" by (rule pos_mod_bound) (use assms in simp)
  moreover have "y - 1 = (y mod k - 1) + (y div k) * k"
    by (simp add: algebra_simps)
  ultimately have eq: "y - 1 = (y mod k - 1) + (y div k) * k"
    and z: "(y mod k - 1) div k = 0" by (simp_all add: div_pos_pos_trivial)
  have "(y - 1) div k = ((y mod k - 1) + (y div k) * k) div k"
    by (rule arg_cong [OF eq])
  moreover have "((y mod k - 1) + (y div k) * k) div k = y div k + (y mod k - 1) div k"
    by (rule div_mult_self1) (use assms in simp)
  ultimately have "(y - 1) div k = y div k" using z by (simp only: add_0_right)
  with False show ?thesis by simp
qed

lemma days_before_year_Suc:
  "days_before_year (y + 1) = days_before_year y + 365 + (if is_leap y then 1 else 0)"
proof -
  have e: "(y * 365 + a - b + c) - ((y - 1) * 365 + a' - b' + c')
      = 365 + (a - a') - (b - b') + (c - c')" for a a' b b' c c' :: int
    by (simp add: left_diff_distrib)
  have step: "y div 4 - (y - 1) div 4 = (if y mod 4 = 0 then 1 else 0)"
    "y div 100 - (y - 1) div 100 = (if y mod 100 = 0 then 1 else 0)"
    "y div 400 - (y - 1) div 400 = (if y mod 400 = 0 then 1 else 0)"
    by (rule div_pred, simp)+
  have sub: "y mod 100 = 0 \<Longrightarrow> y mod 4 = 0" "y mod 400 = 0 \<Longrightarrow> y mod 100 = 0"
    using dvd_trans [of 4 100 y] dvd_trans [of 100 400 y] by (simp_all add: mod_eq_0_iff_dvd)
  have "days_before_year (y + 1) - days_before_year y
      = 365 + (y div 4 - (y - 1) div 4) - (y div 100 - (y - 1) div 100)
            + (y div 400 - (y - 1) div 400)"
    by (simp only: days_before_year_def Let_def e add_diff_cancel_right')
  also have "\<dots> = 365 + (if is_leap y then 1 else 0)"
    unfolding step is_leap_def
    using sub by (cases "y mod 4 = 0"; cases "y mod 100 = 0"; cases "y mod 400 = 0") simp_all
  finally show ?thesis by simp
qed

lemma days_before_year_mono:
  assumes "y < y'"
  shows "days_before_year y + 365 + (if is_leap y then 1 else 0) \<le> days_before_year y'"
proof -
  from assms have "y + 1 \<le> y'" by simp
  then show ?thesis
  proof (induction y' rule: int_ge_induct)
    case base
    show ?case by (simp add: days_before_year_Suc)
  next
    case (step i)
    then show ?case using days_before_year_Suc [of i] by (simp split: if_splits)
  qed
qed

lemma days_before_year_span:
  assumes "0 \<le> n"
  shows "days_before_year y + 365 * n \<le> days_before_year (y + n)"
    and "days_before_year (y + n) \<le> days_before_year y + 366 * n"
proof -
  have "days_before_year y + 365 * n \<le> days_before_year (y + n)
     \<and> days_before_year (y + n) \<le> days_before_year y + 366 * n"
    using assms
  proof (induction n rule: int_ge_induct)
    case (step i)
    then show ?case using days_before_year_Suc [of "y + i"]
      by (simp add: algebra_simps split: if_splits)
  qed simp
  then show "days_before_year y + 365 * n \<le> days_before_year (y + n)"
    and "days_before_year (y + n) \<le> days_before_year y + 366 * n" by auto
qed

lemma ordinal_in_year:
  assumes "valid_date y m d"
  shows "days_before_year y < ordinal y m d"
    and "ordinal y m d \<le> days_before_year y + 365 + (if is_leap y then 1 else 0)"
  using assms days_before_month_range [of m y] by (auto simp: valid_date_def ordinal_def)

lemma ordinal_less:
  assumes "valid_date y m d" "valid_date y' m' d'" "(y, m, d) < (y', m', d')"
  shows "ordinal y m d < ordinal y' m' d'"
proof -
  consider "y < y'" | "y = y'" "m < m'" | "y = y'" "m = m'" "d < d'"
    using assms(3) by (auto simp: lex_less_iff simp del: less_prod_simp)
  then show ?thesis
  proof cases
    case 1
    then show ?thesis
      using days_before_year_mono [of y y'] ordinal_in_year [OF assms(1)]
        ordinal_in_year [OF assms(2)] by linarith
  next
    case 2
    then show ?thesis
      using days_before_month_mono [of m m' y] assms(1,2)
      by (auto simp: ordinal_def valid_date_def)
  next
    case 3
    then show ?thesis by (simp add: ordinal_def)
  qed
qed

lemma abs_minutes_less:
  assumes "valid_dt a" "valid_dt b" "dt_key a < dt_key b"
  shows "abs_minutes a < abs_minutes b"
proof -
  let ?a = "(dt_year a, dt_month a, dt_day a)" and ?b = "(dt_year b, dt_month b, dt_day b)"
  consider "?a < ?b" | "?a = ?b" "(dt_hour a, dt_minute a) < (dt_hour b, dt_minute b)"
    using assms(3) by (auto simp: dt_key_def lex_less_iff simp del: less_prod_simp)
  then show ?thesis
  proof cases
    case 1
    then have "ordinal (dt_year a) (dt_month a) (dt_day a)
        < ordinal (dt_year b) (dt_month b) (dt_day b)"
      using assms(1,2) by (intro ordinal_less) (auto simp: valid_dt_def)
    with assms(1,2) show ?thesis by (auto simp: abs_minutes_def valid_dt_def)
  next
    case 2
    with assms(1,2) show ?thesis by (auto simp: abs_minutes_def valid_dt_def)
  qed
qed

lemma abs_minutes_less_iff:
  assumes "valid_dt a" "valid_dt b"
  shows "abs_minutes a < abs_minutes b \<longleftrightarrow> dt_key a < dt_key b"
proof
  assume l: "abs_minutes a < abs_minutes b"
  show "dt_key a < dt_key b"
  proof (rule ccontr)
    assume "\<not> ?thesis"
    then consider "dt_key b < dt_key a" | "dt_key a = dt_key b" by fastforce
    then show False
      using abs_minutes_less [OF assms(2,1)] l by cases (auto simp: abs_minutes_def dt_key_def)
  qed
qed (rule abs_minutes_less [OF assms])

lemma abs_minutes_le_iff:
  "valid_dt a \<Longrightarrow> valid_dt b \<Longrightarrow> abs_minutes a \<le> abs_minutes b \<longleftrightarrow> dt_key a \<le> dt_key b"
  using abs_minutes_less_iff [of b a] by (simp add: not_less [symmetric])

lemma valid_dt_range: "valid_dt a \<Longrightarrow> first_minute \<le> abs_minutes a \<and> abs_minutes a \<le> last_minute"
proof -
  assume v: "valid_dt a"
  then have "abs_minutes (at_time 1 1 1 0 0) \<le> abs_minutes a"
    by (subst abs_minutes_le_iff)
       (auto simp: valid_dt_def valid_date_def dt_key_def days_in_month_def)
  moreover have "dt_month a = 12 \<Longrightarrow> dt_day a \<le> 31"
    using v by (auto simp: valid_dt_def valid_date_def days_in_month_def)
  with v have "abs_minutes a \<le> abs_minutes (at_time 9999 12 31 23 59)"
    by (subst abs_minutes_le_iff)
       (auto simp: valid_dt_def valid_date_def dt_key_def days_in_month_def)
  ultimately show ?thesis by (simp add: first_minute_def last_minute_def abs_minutes_def)
qed

end
