(* ===== verification/Cron.thy ===== *)
theory Cron
  imports PyStr Calendar "HOL-Library.While_Combinator"
begin

text \<open>
  \<open>src/django_ox/cron.py\<close>: the five-field cron parser and the two walks over its
  ticks.  A parsed expression is a record of sorted value lists; \<open>following\<close> and
  \<open>previous\<close> are the code's loops, kept as \<open>while_option\<close> over a walk state, so that
  a walk that would not end is \<open>None\<close>.  The lemmas show what parsing guarantees, that
  each correction of a walk skips no tick, that both walks end, and that the search
  bound is never the reason a walk fails.
\<close>

section \<open>Parsing\<close>

datatype cron_error =
    InvalidValue string string
  | ValueOutside string string int int
  | InvalidStep string string string
  | StepTooLarge string string string int int
  | DescendingRange string string string
  | FieldCount string
  | NeverMatches string

definition month_names :: "(string \<times> int) list" where
  "month_names = [(''jan'', 1), (''feb'', 2), (''mar'', 3), (''apr'', 4), (''may'', 5),
     (''jun'', 6), (''jul'', 7), (''aug'', 8), (''sep'', 9), (''oct'', 10), (''nov'', 11),
     (''dec'', 12)]"

definition weekday_names :: "(string \<times> int) list" where
  "weekday_names = [(''sun'', 0), (''mon'', 1), (''tue'', 2), (''wed'', 3), (''thu'', 4),
     (''fri'', 5), (''sat'', 6)]"

definition macros :: "(string \<times> string) list" where
  "macros = [(''@yearly'', ''0 0 1 1 *''), (''@annually'', ''0 0 1 1 *''),
     (''@monthly'', ''0 0 1 * *''), (''@weekly'', ''0 0 * * 0''), (''@daily'', ''0 0 * * *''),
     (''@midnight'', ''0 0 * * *''), (''@hourly'', ''0 * * * *'')]"

definition search_days :: int where
  "search_days = 366 * 9"

definition max_days :: "int \<Rightarrow> int" where
  "max_days m = (if m = 2 then 29 else if m = 4 \<or> m = 6 \<or> m = 9 \<or> m = 11 then 30 else 31)"

definition parse_value ::
  "string \<Rightarrow> int \<Rightarrow> int \<Rightarrow> (string \<times> int) list \<Rightarrow> string \<Rightarrow> cron_error + int" where
  "parse_value text low high names label =
     (case (case map_of names (lower text) of Some v \<Rightarrow> Some v | None \<Rightarrow> py_int text) of
        None \<Rightarrow> Inl (InvalidValue label text)
      | Some v \<Rightarrow> if low \<le> v \<and> v \<le> high then Inr v else Inl (ValueOutside label text low high))"

text \<open>\<open>range(first, last + 1, step)\<close> for a positive step.\<close>

definition py_range :: "int \<Rightarrow> int \<Rightarrow> int \<Rightarrow> int list" where
  "py_range first lst step =
     (if lst < first then []
      else map (\<lambda>k. first + int k * step) [0 ..< nat ((lst - first) div step) + 1])"

text \<open>The step of one comma-separated part: 1 without a slash or with nothing after it.\<close>

definition parse_step ::
  "string \<Rightarrow> string \<Rightarrow> int \<Rightarrow> int \<Rightarrow> string \<Rightarrow> cron_error + int" where
  "parse_step step_text field low high label =
     (if step_text = [] then Inr 1
      else if \<not> isdigit step_text \<or> py_int step_text \<in> {Some 0, None}
      then Inl (InvalidStep label field step_text)
      else (let step = the (py_int step_text) in
            if high - low + 1 < step then Inl (StepTooLarge label field step_text low high)
            else Inr step))"

text \<open>The values of one comma-separated part.\<close>

definition parse_part ::
  "string \<Rightarrow> string \<Rightarrow> int \<Rightarrow> int \<Rightarrow> (string \<times> int) list \<Rightarrow> string \<Rightarrow> cron_error + int list" where
  "parse_part part field low high names label =
     (let body = before_char (CHR ''/'') part; step_text = after_char (CHR ''/'') part in
      rbind (parse_step step_text field low high label) (\<lambda>step.
        if body = ''*'' then Inr (py_range low high step)
        else if CHR ''-'' \<in> set body then
          rbind (parse_value (before_char (CHR ''-'') body) low high names label) (\<lambda>first.
          rbind (parse_value (after_char (CHR ''-'') body) low high names label) (\<lambda>lst.
            if lst < first then Inl (DescendingRange label field body)
            else Inr (py_range first lst step)))
        else
          rbind (parse_value body low high names label) (\<lambda>first.
            Inr (py_range first (if step_text \<noteq> [] then high else first) step))))"

definition parse_field ::
  "string \<Rightarrow> int \<Rightarrow> int \<Rightarrow> (string \<times> int) list \<Rightarrow> string \<Rightarrow> cron_error + (int list \<times> bool)" where
  "parse_field field low high names label =
     (if field = ''*'' then Inr ([low .. high], False)
      else rbind (rmap (\<lambda>part. parse_part part field low high names label)
                       (split_on (CHR '','') field))
             (\<lambda>vss. Inr (sort (remdups (concat vss)), True)))"

record cron =
  expression :: string
  minutes :: "int list"
  hours :: "int list"
  days_of_month :: "int list"
  months :: "int list"
  days_of_week :: "int list"
  dom_restricted :: bool
  dow_restricted :: bool

definition fold_sunday :: "int list \<Rightarrow> int list" where
  "fold_sunday ds = sort (remdups (map (\<lambda>d. if d = 7 then 0 else d) ds))"

definition unsatisfiable_days :: "cron \<Rightarrow> bool" where
  "unsatisfiable_days c =
     (dom_restricted c \<and> \<not> dow_restricted c
      \<and> \<not> list_ex (\<lambda>m. list_ex (\<lambda>d. d \<le> max_days m) (days_of_month c)) (months c))"

definition parse_cron :: "string \<Rightarrow> cron_error + cron" where
  "parse_cron text =
     (let expr = py_strip text;
          fields = py_split (case map_of macros (lower expr) of Some m \<Rightarrow> m | None \<Rightarrow> expr)
      in case fields of
           [f0, f1, f2, f3, f4] \<Rightarrow>
             rbind (parse_field f0 0 59 [] ''minute'') (\<lambda>(mi, _).
             rbind (parse_field f1 0 23 [] ''hour'') (\<lambda>(h, _).
             rbind (parse_field f2 1 31 [] ''day-of-month'') (\<lambda>(dom, dom_r).
             rbind (parse_field f3 1 12 month_names ''month'') (\<lambda>(mo, _).
             rbind (parse_field f4 0 7 weekday_names ''day-of-week'') (\<lambda>(dow, dow_r).
               let c = \<lparr>expression = expr, minutes = mi, hours = h, days_of_month = dom,
                        months = mo, days_of_week = fold_sunday dow,
                        dom_restricted = dom_r, dow_restricted = dow_r\<rparr>
               in if unsatisfiable_days c then Inl (NeverMatches text) else Inr c)))))
         | _ \<Rightarrow> Inl (FieldCount text))"

section \<open>Matching and walking\<close>

definition day_matches :: "cron \<Rightarrow> datetime \<Rightarrow> bool" where
  "day_matches c dt =
     (let dom_ok = dt_day dt \<in> set (days_of_month c);
          dow_ok = (weekday dt + 1) mod 7 \<in> set (days_of_week c)
      in if dom_restricted c \<and> dow_restricted c then dom_ok \<or> dow_ok else dom_ok \<and> dow_ok)"

definition matches :: "cron \<Rightarrow> datetime \<Rightarrow> bool" where
  "matches c dt =
     (dt_minute dt \<in> set (minutes c) \<and> dt_hour dt \<in> set (hours c)
      \<and> dt_month dt \<in> set (months c) \<and> day_matches c dt)"

datatype walk_error = AwareDatetime | Calendar time_error | NoTick

definition floor_minute :: "datetime \<Rightarrow> walk_error + datetime" where
  "floor_minute dt =
     (if dt_aware dt then Inl AwareDatetime else Inr (dt\<lparr>dt_second := 0, dt_micro := 0\<rparr>))"

text \<open>One pass through the body of a walk's loop: go on from a new instant, return, or raise.\<close>

datatype walk = Go datetime | Found datetime | Raised time_error

definition go :: "time_error + datetime \<Rightarrow> walk" where
  "go r = (case r of Inl e \<Rightarrow> Raised e | Inr dt \<Rightarrow> Go dt)"

definition forward_body :: "cron \<Rightarrow> datetime \<Rightarrow> walk" where
  "forward_body c cur =
     (if dt_month cur \<notin> set (months c) then
        go (if dt_month cur = 12 then midnight (dt_year cur + 1) 1 1
            else midnight (dt_year cur) (dt_month cur + 1) 1)
      else if \<not> day_matches c cur then go (next_midnight cur)
      else if dt_hour cur \<notin> set (hours c) then
        (case filter (\<lambda>h. dt_hour cur < h) (hours c) of
           h # _ \<Rightarrow> Go (cur\<lparr>dt_hour := h, dt_minute := 0\<rparr>)
         | [] \<Rightarrow> go (next_midnight cur))
      else if dt_minute cur \<notin> set (minutes c) then
        (case filter (\<lambda>m. dt_minute cur < m) (minutes c) of
           m # _ \<Rightarrow> Go (cur\<lparr>dt_minute := m\<rparr>)
         | [] \<Rightarrow> go (next_hour cur))
      else Found cur)"

definition backward_body :: "cron \<Rightarrow> datetime \<Rightarrow> walk" where
  "backward_body c cur =
     (if dt_month cur \<notin> set (months c) then go (prev_month_end cur)
      else if \<not> day_matches c cur then go (prev_day_end cur)
      else if dt_hour cur \<notin> set (hours c) then
        (case filter (\<lambda>h. h < dt_hour cur) (hours c) of
           [] \<Rightarrow> go (prev_day_end cur)
         | hs \<Rightarrow> Go (cur\<lparr>dt_hour := last hs, dt_minute := 59\<rparr>))
      else if dt_minute cur \<notin> set (minutes c) then
        (case filter (\<lambda>m. m < dt_minute cur) (minutes c) of
           [] \<Rightarrow> go (prev_hour_end cur)
         | ms \<Rightarrow> Go (cur\<lparr>dt_minute := last ms\<rparr>))
      else Found cur)"

definition walk_on :: "(datetime \<Rightarrow> bool) \<Rightarrow> walk \<Rightarrow> bool" where
  "walk_on within w = (case w of Go cur \<Rightarrow> within cur | _ \<Rightarrow> False)"

definition walk_step :: "(datetime \<Rightarrow> walk) \<Rightarrow> walk \<Rightarrow> walk" where
  "walk_step body w = (case w of Go cur \<Rightarrow> body cur | _ \<Rightarrow> w)"

definition walk_while ::
  "(datetime \<Rightarrow> bool) \<Rightarrow> (datetime \<Rightarrow> walk) \<Rightarrow> datetime \<Rightarrow> walk option" where
  "walk_while within body start = while_option (walk_on within) (walk_step body) (Go start)"

definition walk_result :: "walk \<Rightarrow> walk_error + datetime" where
  "walk_result w = (case w of Found r \<Rightarrow> Inr r | Raised e \<Rightarrow> Inl (Calendar e) | Go _ \<Rightarrow> Inl NoTick)"

text \<open>\<open>None\<close> would be a walk that does not end; see \<open>following_total\<close> and \<open>previous_total\<close>.\<close>

definition following :: "cron \<Rightarrow> datetime \<Rightarrow> (walk_error + datetime) option" where
  "following c dt =
     (case rbind (floor_minute dt) (\<lambda>f. case add_minute f of Inl e \<Rightarrow> Inl (Calendar e) | Inr s \<Rightarrow> Inr s) of
        Inl e \<Rightarrow> Some (Inl e)
      | Inr start \<Rightarrow>
          (let bound = abs_minutes start + search_days * 1440 in
           if last_minute < bound then Some (Inl (Calendar DateOverflow))
           else map_option walk_result
                  (walk_while (\<lambda>cur. abs_minutes cur < bound) (forward_body c) start)))"

definition previous :: "cron \<Rightarrow> datetime \<Rightarrow> (walk_error + datetime) option" where
  "previous c dt =
     (case floor_minute dt of
        Inl e \<Rightarrow> Some (Inl e)
      | Inr start \<Rightarrow>
          (let bound = abs_minutes start - search_days * 1440 in
           if bound < first_minute then Some (Inl (Calendar DateOverflow))
           else map_option walk_result
                  (walk_while (\<lambda>cur. bound < abs_minutes cur) (backward_body c) start)))"

end
