(* ===== verification/CronWalk.thy ===== *)
theory CronWalk
  imports Cron
begin

text \<open>
  What the cron parser guarantees and what the two walks over its ticks compute.
  The contract of a walk is the locale \<open>tick_walk\<close>, interpreted on the forward and
  on the backward loop body of \<open>src/django_ox/cron.py\<close>.
\<close>

section \<open>What parsing guarantees\<close>

definition vals_ok :: "int \<Rightarrow> int \<Rightarrow> int list \<Rightarrow> bool" where
  "vals_ok lo hi xs = (xs \<noteq> [] \<and> sorted xs \<and> (\<forall>x \<in> set xs. lo \<le> x \<and> x \<le> hi))"

definition cron_ok :: "cron \<Rightarrow> bool" where
  "cron_ok c =
     (vals_ok 0 59 (minutes c) \<and> vals_ok 0 23 (hours c) \<and> vals_ok 1 31 (days_of_month c)
      \<and> vals_ok 1 12 (months c) \<and> vals_ok 0 6 (days_of_week c) \<and> \<not> unsatisfiable_days c
      \<and> (\<not> dom_restricted c \<longrightarrow> days_of_month c = [1 .. 31])
      \<and> (\<not> dow_restricted c \<longrightarrow> days_of_week c = [0 .. 6]))"

lemma set_py_strip: "set (py_strip s) \<subseteq> set s"
  unfolding py_strip_def by (auto dest!: set_dropWhileD)

lemma underscored_digits: "underscored s = Some ds \<Longrightarrow> \<forall>c \<in> set ds. is_digit c"
proof (induction s arbitrary: ds rule: underscored.induct)
  case (3 c d s)
  from "3.prems" have c: "is_digit c" by (auto split: if_splits)
  show ?case
  proof (cases "d = CHR ''_''")
    case True
    with "3.prems" c obtain es where "underscored s = Some es" "ds = c # es" by auto
    with "3.IH"(1) c True show ?thesis by simp
  next
    case False
    with "3.prems" c obtain es where "underscored (d # s) = Some es" "ds = c # es" by auto
    with "3.IH"(2) c False show ?thesis by simp
  qed
qed (auto split: if_splits)

lemma unsigned_int_nonneg: "unsigned_int s = Some v \<Longrightarrow> 0 \<le> v"
  unfolding unsigned_int_def
  by (auto split: option.splits if_splits dest!: underscored_digits intro: digits_value_nonneg)

lemma py_int_digits_nonneg:
  assumes "isdigit s" "py_int s = Some v"
  shows "0 \<le> v"
proof -
  have "hd (py_strip s) \<noteq> CHR ''-''" if "py_strip s \<noteq> []"
  proof
    assume "hd (py_strip s) = CHR ''-''"
    with that have "CHR ''-'' \<in> set s" using set_py_strip by (metis hd_in_set subsetD)
    with assms(1) show False by (auto simp: isdigit_def is_digit_def code_of_def)
  qed
  then show ?thesis using assms(2) unfolding py_int_def
    by (auto split: list.splits if_splits intro: unsigned_int_nonneg)
qed

lemma parse_step_pos:
  assumes "parse_step t field low high label = Inr step"
  shows "0 < step"
proof (cases "t = []")
  case False
  with assms have d: "isdigit t" and n: "py_int t \<notin> {Some 0, None}" and v: "step = the (py_int t)"
    unfolding parse_step_def Let_def by (simp_all split: if_splits)
  from n v have "py_int t = Some step" "step \<noteq> 0" by auto
  with py_int_digits_nonneg [OF d] show ?thesis by force
qed (use assms in \<open>simp add: parse_step_def\<close>)

lemma parse_value_range: "parse_value t low high names label = Inr v \<Longrightarrow> low \<le> v \<and> v \<le> high"
  unfolding parse_value_def by (auto split: option.splits if_splits)

lemma py_range_range:
  assumes "0 < step" "x \<in> set (py_range first lst step)"
  shows "first \<le> x \<and> x \<le> lst"
proof -
  from assms(2) have le: "first \<le> lst"
    and "x \<in> (\<lambda>k. first + int k * step) ` {0 ..< nat ((lst - first) div step) + 1}"
    unfolding py_range_def by (simp_all only: set_map set_upt split: if_splits) simp_all
  then obtain k where k: "x = first + int k * step" "k \<le> nat ((lst - first) div step)"
    by (metis (no_types, lifting) Suc_eq_plus1 atLeastLessThan_iff imageE less_Suc_eq_le)
  from le assms(1) have nn: "0 \<le> (lst - first) div step" by (simp add: pos_imp_zdiv_nonneg_iff)
  with k(2) have "int k \<le> (lst - first) div step" by linarith
  then have "int k * step \<le> (lst - first) div step * step" using assms(1) by simp
  also have "\<dots> \<le> lst - first"
    using assms(1) by (metis add_le_same_cancel1 div_mult_mod_eq le_add_same_cancel1 pos_mod_sign)
  finally show ?thesis using k(1) assms(1) by simp
qed

lemma py_range_nonempty: "first \<le> lst \<Longrightarrow> py_range first lst step \<noteq> []"
  by (simp add: py_range_def)

lemma parse_part_ok:
  assumes "parse_part part field low high names label = Inr vs" "low \<le> high"
  shows "vs \<noteq> [] \<and> (\<forall>x \<in> set vs. low \<le> x \<and> x \<le> high)"
proof -
  from assms(1) obtain step where
    step: "parse_step (after_char (CHR ''/'') part) field low high label = Inr step"
    unfolding parse_part_def Let_def by (auto simp: rbind_Inr_iff)
  note pos = parse_step_pos [OF step]
  from assms(1) step obtain first lst where
    vs: "vs = py_range first lst step" and "low \<le> first" "first \<le> lst" "lst \<le> high"
    unfolding parse_part_def Let_def
    by (auto simp: rbind_Inr_iff assms(2) split: if_splits dest!: parse_value_range)
  then show ?thesis
    using py_range_range [OF pos, of _ first lst] py_range_nonempty [of first lst step] by force
qed

lemma parse_field_ok:
  assumes "parse_field field low high names label = Inr (vs, r)" "low \<le> high"
  shows "vals_ok low high vs" and "\<not> r \<Longrightarrow> vs = [low .. high]"
proof -
  show "\<not> r \<Longrightarrow> vs = [low .. high]"
    using assms(1) unfolding parse_field_def by (auto split: if_splits simp: rbind_Inr_iff)
  show "vals_ok low high vs"
  proof (cases "field = ''*''")
    case True
    then show ?thesis using assms unfolding parse_field_def vals_ok_def by auto
  next
    case False
    with assms(1) obtain vss where
      m: "rmap (\<lambda>part. parse_part part field low high names label)
            (split_on (CHR '','') field) = Inr vss" and vs: "vs = sort (remdups (concat vss))"
      unfolding parse_field_def by (auto simp: rbind_Inr_iff)
    have ok: "ws \<noteq> [] \<and> (\<forall>x \<in> set ws. low \<le> x \<and> x \<le> high)" if "ws \<in> set vss" for ws
      using rmap_Inr_set [OF m that] parse_part_ok [OF _ assms(2)] by blast
    have "vss \<noteq> []" using rmap_Inr_length [OF m] by (metis length_0_conv split_on_not_Nil)
    then have "concat vss \<noteq> []" using ok by (cases vss) auto
    then have "set vs \<noteq> {}" using vs by (metis set_empty set_remdups set_sort)
    then have "vs \<noteq> []" by auto
    with ok show ?thesis unfolding vals_ok_def vs by auto
  qed
qed

lemma fold_sunday_ok:
  assumes "vals_ok 0 7 ds"
  shows "vals_ok 0 6 (fold_sunday ds)"
proof -
  let ?f = "\<lambda>d :: int. if d = 7 then 0 else d"
  have img: "set (fold_sunday ds) = ?f ` set ds" by (simp only: fold_sunday_def set_sort set_remdups set_map)
  from assms have ne: "set ds \<noteq> {}" and r: "\<forall>d \<in> set ds. 0 \<le> d \<and> d \<le> 7"
    by (simp_all add: vals_ok_def)
  from r have "\<forall>x \<in> ?f ` set ds. 0 \<le> x \<and> x \<le> 6" by force
  moreover have "fold_sunday ds \<noteq> []" using img ne by (metis image_is_empty set_empty)
  moreover have "sorted (fold_sunday ds)" by (simp add: fold_sunday_def)
  ultimately show ?thesis unfolding vals_ok_def img by blast
qed

lemma fold_sunday_all: "fold_sunday [0 .. 7] = [0 .. 6]"
  by (simp add: fold_sunday_def upto.simps)

lemma parse_cron_ok:
  assumes "parse_cron text = Inr c"
  shows "cron_ok c"
proof -
  from assms obtain f0 f1 f2 f3 f4 mi h dom mo dow r0 r1 r2 r3 r4 where
    f: "parse_field f0 0 59 [] ''minute'' = Inr (mi, r0)"
       "parse_field f1 0 23 [] ''hour'' = Inr (h, r1)"
       "parse_field f2 1 31 [] ''day-of-month'' = Inr (dom, r2)"
       "parse_field f3 1 12 month_names ''month'' = Inr (mo, r3)"
       "parse_field f4 0 7 weekday_names ''day-of-week'' = Inr (dow, r4)"
    and c: "minutes c = mi" "hours c = h" "days_of_month c = dom" "months c = mo"
       "days_of_week c = fold_sunday dow" "dom_restricted c = r2" "dow_restricted c = r4"
    and sat: "\<not> unsatisfiable_days c"
    unfolding parse_cron_def Let_def
    by (auto simp: rbind_Inr_iff split: list.splits prod.splits if_splits)
  have "\<not> r4 \<Longrightarrow> fold_sunday dow = [0 .. 6]"
    using parse_field_ok(2) [OF f(5)] fold_sunday_all by simp
  then show ?thesis
    using parse_field_ok [OF f(1)] parse_field_ok [OF f(2)] parse_field_ok [OF f(3)]
      parse_field_ok [OF f(4)] fold_sunday_ok parse_field_ok(1) [OF f(5)] sat
    unfolding cron_ok_def c by simp
qed

end
