(* ===== verification/Ticks.thy ===== *)
theory Ticks
  imports CronWalk
begin

text \<open>
  The two walks of \<open>src/django_ox/cron.py\<close> compute the next and the latest tick.
  A walk's contract is the locale \<open>tick_walk\<close>: one pass through the loop body either
  goes on, skipping only instants that are no ticks, or returns a tick, or raises where
  no tick is left.  From the contract alone a walk ends, and what it returns is the
  first tick in its direction.
\<close>

section \<open>The contract of a walk\<close>

locale tick_walk =
  fixes ok :: "'c \<Rightarrow> bool"
    and good :: "datetime \<Rightarrow> bool"
    and tick :: "'c \<Rightarrow> datetime \<Rightarrow> bool"
    and pos :: "datetime \<Rightarrow> int"
    and body :: "'c \<Rightarrow> datetime \<Rightarrow> walk"
  assumes body_go: "ok c \<Longrightarrow> good cur \<Longrightarrow> body c cur = Go n \<Longrightarrow>
      good n \<and> pos cur < pos n
      \<and> (\<forall>x. good x \<longrightarrow> pos cur \<le> pos x \<longrightarrow> pos x < pos n \<longrightarrow> \<not> tick c x)"
    and body_found: "ok c \<Longrightarrow> good cur \<Longrightarrow> body c cur = Found r \<Longrightarrow> r = cur \<and> tick c cur"
    and body_raised: "ok c \<Longrightarrow> good cur \<Longrightarrow> body c cur = Raised e \<Longrightarrow>
      (\<forall>x. good x \<longrightarrow> pos cur \<le> pos x \<longrightarrow> \<not> tick c x)"
begin

lemma walk_invariant:
  assumes ok: "ok c" and start: "good start"
    and run: "walk_while (\<lambda>cur. pos cur < bound) (body c) start = Some w"
  shows "case w of
      Go cur \<Rightarrow> bound \<le> pos cur \<and> (\<forall>x. good x \<longrightarrow> pos start \<le> pos x \<longrightarrow> pos x < pos cur \<longrightarrow> \<not> tick c x)
    | Found r \<Rightarrow> good r \<and> tick c r \<and> pos start \<le> pos r
        \<and> (\<forall>x. good x \<longrightarrow> pos start \<le> pos x \<longrightarrow> pos x < pos r \<longrightarrow> \<not> tick c x)
    | Raised e \<Rightarrow> (\<forall>x. good x \<longrightarrow> pos start \<le> pos x \<longrightarrow> \<not> tick c x)"
proof -
  let ?skipped = "\<lambda>cur. good cur \<and> pos start \<le> pos cur
    \<and> (\<forall>x. good x \<longrightarrow> pos start \<le> pos x \<longrightarrow> pos x < pos cur \<longrightarrow> \<not> tick c x)"
  let ?P = "\<lambda>w. case w of Go cur \<Rightarrow> ?skipped cur | Found r \<Rightarrow> ?skipped r \<and> tick c r
     | Raised e \<Rightarrow> (\<forall>x. good x \<longrightarrow> pos start \<le> pos x \<longrightarrow> \<not> tick c x)"
  have step: "?P (walk_step (body c) w)" if P: "?P w" and b: "walk_on (\<lambda>cur. pos cur < bound) w" for w
  proof -
    from b obtain cur where w: "w = Go cur" by (auto simp: walk_on_def split: walk.splits)
    with P have cur: "?skipped cur" by simp
    show ?thesis
    proof (cases "body c cur")
      case (Go n)
      with body_go [OF ok _ Go] cur show ?thesis unfolding w by (auto simp: walk_step_def not_less)
    next
      case (Found r)
      with body_found [OF ok _ Found] cur show ?thesis unfolding w by (auto simp: walk_step_def)
    next
      case (Raised e)
      with body_raised [OF ok _ Raised] cur show ?thesis unfolding w by (auto simp: walk_step_def)
    qed
  qed
  have init: "?P (Go start)" using start by auto
  note run' = run [unfolded walk_while_def]
  have "?P w" by (rule while_option_rule [where P = ?P, OF step run' init])
  moreover have "\<not> walk_on (\<lambda>cur. pos cur < bound) w" by (rule while_option_stop [OF run'])
  ultimately show ?thesis by (auto simp: walk_on_def split: walk.splits)
qed

lemma walk_ends:
  assumes ok: "ok c" and start: "good start"
  shows "\<exists>w. walk_while (\<lambda>cur. pos cur < bound) (body c) start = Some w"
  unfolding walk_while_def
proof (rule measure_while_option_Some
    [where P = "\<lambda>w. case w of Go cur \<Rightarrow> good cur | _ \<Rightarrow> True"
       and f = "\<lambda>w. case w of Go cur \<Rightarrow> Suc (nat (bound - pos cur)) | _ \<Rightarrow> 0"])
  fix w
  assume "case w of Go cur \<Rightarrow> good cur | _ \<Rightarrow> True" and "walk_on (\<lambda>cur. pos cur < bound) w"
  then obtain cur where w: "w = Go cur" "good cur" "pos cur < bound"
    by (auto simp: walk_on_def split: walk.splits)
  then show "(case walk_step (body c) w of Go cur \<Rightarrow> good cur | _ \<Rightarrow> True)
    \<and> (case walk_step (body c) w of Go cur \<Rightarrow> Suc (nat (bound - pos cur)) | _ \<Rightarrow> 0)
      < (case w of Go cur \<Rightarrow> Suc (nat (bound - pos cur)) | _ \<Rightarrow> 0)"
    using body_go [OF ok w(2)] by (auto simp: walk_step_def split: walk.splits)
qed (use start in simp)

text \<open>Where a tick lies before the bound, the walk returns one, however it would otherwise stop.\<close>

lemma walk_finds:
  assumes "ok c" "good start"
    and "good x" "tick c x" "pos start \<le> pos x" "pos x < bound"
    and "walk_while (\<lambda>cur. pos cur < bound) (body c) start = Some w"
  shows "\<exists>r. w = Found r"
proof (cases w)
  case (Go cur)
  with walk_invariant [OF assms(1,2,7)] assms(3-6) show ?thesis by fastforce
next
  case (Raised e)
  with walk_invariant [OF assms(1,2,7)] assms(3-6) show ?thesis by fastforce
qed simp

end

section \<open>Each correction skips no tick\<close>

lemma valid_dtD:
  assumes "valid_dt x"
  shows "1 \<le> dt_year x" "dt_year x \<le> 9999" "1 \<le> dt_month x" "dt_month x \<le> 12" "1 \<le> dt_day x"
    "dt_day x \<le> days_in_month (dt_year x) (dt_month x)" "0 \<le> dt_hour x" "dt_hour x \<le> 23"
    "0 \<le> dt_minute x" "dt_minute x \<le> 59"
  using assms by (simp_all add: valid_dt_def valid_date_def)

lemma same_day_matches:
  "dt_year x = dt_year y \<Longrightarrow> dt_month x = dt_month y \<Longrightarrow> dt_day x = dt_day y \<Longrightarrow>
     day_matches c x = day_matches c y"
  by (simp add: day_matches_def weekday_def)

definition key5_less :: "datetime \<Rightarrow> datetime \<Rightarrow> bool" where
  "key5_less a b =
     (dt_year a < dt_year b \<or> dt_year a = dt_year b \<and> (dt_month a < dt_month b
       \<or> dt_month a = dt_month b \<and> (dt_day a < dt_day b \<or> dt_day a = dt_day b
         \<and> (dt_hour a < dt_hour b \<or> dt_hour a = dt_hour b \<and> dt_minute a < dt_minute b))))"

lemma abs_minutes_key5:
  "valid_dt a \<Longrightarrow> valid_dt b \<Longrightarrow> abs_minutes a < abs_minutes b \<longleftrightarrow> key5_less a b"
  by (simp add: abs_minutes_less_iff dt_key_def lex_less_iff key5_less_def del: less_prod_simp)

lemma abs_minutes_not_key5:
  "valid_dt a \<Longrightarrow> valid_dt b \<Longrightarrow> abs_minutes a \<le> abs_minutes b \<longleftrightarrow> \<not> key5_less b a"
  using abs_minutes_key5 [of b a] by linarith

text \<open>
  An interval of the minute line in the walk's direction, by fields: what lies from
  \<open>a\<close> up to, not including, \<open>b\<close>.
\<close>

definition span :: "datetime \<Rightarrow> datetime \<Rightarrow> datetime \<Rightarrow> bool" where
  "span a b x = (valid_dt x \<and> \<not> key5_less x a \<and> key5_less x b)"

lemma forward_law:
  assumes "valid_dt cur" "valid_dt n" "key5_less cur n" "\<And>x. span cur n x \<Longrightarrow> \<not> matches c x"
  shows "valid_dt n \<and> abs_minutes cur < abs_minutes n
    \<and> (\<forall>x. valid_dt x \<longrightarrow> abs_minutes cur \<le> abs_minutes x \<longrightarrow> abs_minutes x < abs_minutes n
          \<longrightarrow> \<not> matches c x)"
  using assms by (auto simp: abs_minutes_key5 abs_minutes_not_key5 span_def)

lemma backward_law:
  assumes "valid_dt cur" "valid_dt n" "key5_less n cur"
    "\<And>x. valid_dt x \<Longrightarrow> \<not> key5_less cur x \<Longrightarrow> key5_less n x \<Longrightarrow> \<not> matches c x"
  shows "valid_dt n \<and> - abs_minutes cur < - abs_minutes n
    \<and> (\<forall>x. valid_dt x \<longrightarrow> - abs_minutes cur \<le> - abs_minutes x \<longrightarrow> - abs_minutes x < - abs_minutes n
          \<longrightarrow> \<not> matches c x)"
  using assms by (auto simp: abs_minutes_key5 abs_minutes_not_key5)

lemma valid_at_time:
  "valid_dt (at_time y m d h mi) \<longleftrightarrow> valid_date y m d \<and> 0 \<le> h \<and> h \<le> 23 \<and> 0 \<le> mi \<and> mi \<le> 59"
  by (auto simp: valid_dt_def)

text \<open>
  The arithmetic steps.  Each yields the field-wise neighbour of the current instant:
  what lies in between shares the fields the step does not change.
\<close>

definition later_same_day :: "datetime \<Rightarrow> datetime \<Rightarrow> bool" where
  "later_same_day cur x =
     (dt_year x = dt_year cur \<and> dt_month x = dt_month cur \<and> dt_day x = dt_day cur
      \<and> (dt_hour cur < dt_hour x \<or> dt_hour x = dt_hour cur \<and> dt_minute cur \<le> dt_minute x))"

lemma not_key5_lessD:
  assumes "\<not> key5_less x cur"
  shows "dt_year cur < dt_year x
    \<or> dt_year x = dt_year cur \<and> dt_month cur < dt_month x
    \<or> dt_year x = dt_year cur \<and> dt_month x = dt_month cur \<and> dt_day cur < dt_day x
    \<or> later_same_day cur x"
  using assms unfolding key5_less_def later_same_day_def by linarith

lemma next_midnight_cases:
  assumes "next_midnight cur = Inr n"
  obtains (day) "dt_day cur < days_in_month (dt_year cur) (dt_month cur)"
      "n = at_time (dt_year cur) (dt_month cur) (dt_day cur + 1) 0 0"
    | (month) "days_in_month (dt_year cur) (dt_month cur) \<le> dt_day cur" "dt_month cur < 12"
      "n = at_time (dt_year cur) (dt_month cur + 1) 1 0 0"
    | (year) "days_in_month (dt_year cur) (dt_month cur) \<le> dt_day cur" "12 \<le> dt_month cur"
      "dt_year cur < 9999" "n = at_time (dt_year cur + 1) 1 1 0 0"
  using assms unfolding next_midnight_def Let_def by (auto split: if_splits)

lemma next_midnight_Inr:
  assumes v: "valid_dt cur" and n: "next_midnight cur = Inr n"
  shows "valid_dt n \<and> key5_less cur n \<and> (\<forall>x. span cur n x \<longrightarrow> later_same_day cur x)"
proof -
  note vd = valid_dtD [OF v]
  from n have v': "valid_dt n \<and> key5_less cur n"
    by (cases rule: next_midnight_cases)
       (use vd in \<open>simp_all add: valid_at_time valid_date_def key5_less_def\<close>)
  have "later_same_day cur x" if s: "span cur n x" for x
  proof -
    from s have "\<not> key5_less x cur" and xn: "key5_less x n" and vx: "valid_dt x"
      by (simp_all add: span_def)
    note bd = not_key5_lessD [OF this(1)] and vxd = valid_dtD [OF vx]
    from n show ?thesis
    proof (cases rule: next_midnight_cases)
      case day
      with xn vxd have "dt_year x < dt_year cur \<or> dt_year x = dt_year cur
          \<and> (dt_month x < dt_month cur \<or> dt_month x = dt_month cur \<and> dt_day x \<le> dt_day cur)"
        by (auto simp: key5_less_def)
      with bd show ?thesis by linarith
    next
      case month
      with xn vxd have "dt_year x < dt_year cur \<or> dt_year x = dt_year cur \<and> dt_month x \<le> dt_month cur"
        by (auto simp: key5_less_def)
      with bd month vxd vd show ?thesis by auto
    next
      case year
      with xn vxd have "dt_year x \<le> dt_year cur" by (auto simp: key5_less_def)
      with bd year vxd vd show ?thesis by auto
    qed
  qed
  with v' show ?thesis by blast
qed

lemma next_midnight_Inl:
  assumes "valid_dt cur" "next_midnight cur = Inl e" "valid_dt x" "\<not> key5_less x cur"
  shows "later_same_day cur x"
proof -
  from assms(2) have "dt_year cur \<ge> 9999" "dt_month cur \<ge> 12"
    "dt_day cur \<ge> days_in_month (dt_year cur) (dt_month cur)"
    unfolding next_midnight_def Let_def by (simp_all split: if_splits)
  with not_key5_lessD [OF assms(4)] valid_dtD [OF assms(1)] valid_dtD [OF assms(3)]
  show ?thesis by auto
qed

lemma later_same_day_no_match:
  "later_same_day cur x \<Longrightarrow> \<not> day_matches c cur \<Longrightarrow> \<not> matches c x"
  using same_day_matches [of x cur c] by (simp add: later_same_day_def matches_def)

lemma later_same_day_no_hour:
  assumes "later_same_day cur x" "dt_hour cur \<notin> set (hours c)" "filter (\<lambda>h. dt_hour cur < h) (hours c) = []"
  shows "\<not> matches c x"
  using assms by (auto simp: later_same_day_def matches_def filter_empty_conv)

definition later_same_hour :: "datetime \<Rightarrow> datetime \<Rightarrow> bool" where
  "later_same_hour cur x = (later_same_day cur x \<and> dt_hour x = dt_hour cur)"

lemma later_same_hour_no_minute:
  assumes "later_same_hour cur x" "dt_minute cur \<notin> set (minutes c)"
    "filter (\<lambda>m. dt_minute cur < m) (minutes c) = []"
  shows "\<not> matches c x"
  using assms by (auto simp: later_same_hour_def later_same_day_def matches_def filter_empty_conv)

lemma late_hour:
  "later_same_day cur x \<Longrightarrow> \<not> dt_hour cur < 23 \<Longrightarrow> valid_dt x \<Longrightarrow> later_same_hour cur x"
  using valid_dtD(8) [of x] by (auto simp: later_same_hour_def later_same_day_def)

lemma next_hour_Inr:
  assumes v: "valid_dt cur" and n: "next_hour cur = Inr n"
  shows "valid_dt n \<and> key5_less cur n \<and> (\<forall>x. span cur n x \<longrightarrow> later_same_hour cur x)"
proof (cases "dt_hour cur < 23")
  case True
  with n have n: "n = at_time (dt_year cur) (dt_month cur) (dt_day cur) (dt_hour cur + 1) 0"
    by (simp add: next_hour_def)
  have "later_same_hour cur x" if s: "span cur n x" for x
  proof -
    from s have "\<not> key5_less x cur" and xn: "key5_less x n" and vx: "valid_dt x"
      by (simp_all add: span_def)
    note bd = not_key5_lessD [OF this(1)] and vxd = valid_dtD [OF vx]
    from bd xn vxd show ?thesis unfolding n
      by (auto simp: key5_less_def later_same_hour_def later_same_day_def)
  qed
  with True valid_dtD [OF v] show ?thesis
    unfolding n by (simp add: valid_at_time valid_date_def key5_less_def)
next
  case False
  with n have "next_midnight cur = Inr n" by (simp add: next_hour_def)
  from next_midnight_Inr [OF v this] False show ?thesis
    by (auto simp: span_def intro: late_hour)
qed

lemma next_hour_Inl:
  assumes "valid_dt cur" "next_hour cur = Inl e" "valid_dt x" "\<not> key5_less x cur"
  shows "later_same_hour cur x"
proof -
  from assms(2) have h: "\<not> dt_hour cur < 23" and m: "next_midnight cur = Inl e"
    by (simp_all add: next_hour_def split: if_splits)
  from next_midnight_Inl [OF assms(1) m assms(3,4)] h assms(3) show ?thesis by (blast intro: late_hour)
qed

text \<open>The forward body's month step, by its result.\<close>

definition next_month :: "datetime \<Rightarrow> time_error + datetime" where
  "next_month cur = (if dt_month cur = 12 then midnight (dt_year cur + 1) 1 1
     else midnight (dt_year cur) (dt_month cur + 1) 1)"

lemma next_month_Inr:
  assumes v: "valid_dt cur" and n: "next_month cur = Inr n"
  shows "valid_dt n \<and> key5_less cur n \<and> (\<forall>x. span cur n x \<longrightarrow> dt_month x = dt_month cur)"
proof -
  note vd = valid_dtD [OF v]
  have v': "valid_dt n \<and> key5_less cur n"
    using n vd by (auto simp: next_month_def midnight_def valid_at_time valid_date_def key5_less_def
        split: if_splits)
  have "dt_month x = dt_month cur" if s: "span cur n x" for x
  proof -
    from s have "\<not> key5_less x cur" and xn: "key5_less x n" and vx: "valid_dt x"
      by (simp_all add: span_def)
    note bd = not_key5_lessD [OF this(1)] and vxd = valid_dtD [OF vx]
    have le: "dt_year x < dt_year cur \<or> dt_year x = dt_year cur \<and> dt_month x \<le> dt_month cur"
      using n xn vxd vd by (auto simp: next_month_def midnight_def key5_less_def split: if_splits)
    with bd show ?thesis unfolding later_same_day_def by linarith
  qed
  with v' show ?thesis by blast
qed

lemma next_month_Inl:
  assumes "valid_dt cur" "next_month cur = Inl e" "valid_dt x" "\<not> key5_less x cur"
  shows "dt_month x = dt_month cur"
proof -
  have "9999 \<le> dt_year cur" "12 \<le> dt_month cur"
    using assms(2) valid_dtD [OF assms(1)]
    by (auto simp: next_month_def midnight_def split: if_splits)
  with not_key5_lessD [OF assms(4)] valid_dtD [OF assms(1)] valid_dtD [OF assms(3)]
  show ?thesis by (auto simp: later_same_day_def)
qed

lemma go_simps [simp]:
  "go r = Go n \<longleftrightarrow> r = Inr n" "go r = Raised e \<longleftrightarrow> r = Inl e" "go r \<noteq> Found f"
  "Found f \<noteq> go r"
  by (simp_all add: go_def split: sum.splits)

lemma forward_body_next_month:
  "dt_month cur \<notin> set (months c) \<Longrightarrow> forward_body c cur = go (next_month cur)"
  by (simp add: forward_body_def next_month_def)

lemma later_value_span:
  assumes "sorted xs" "filter (\<lambda>v. a < v) xs = b # ys" "v \<in> set xs" "a < v"
  shows "b \<le> v"
  using hd_filter_sorted_least [OF assms(1,2,3)] assms(4) by simp

lemma first_later:
  assumes "filter (\<lambda>v. a < v) xs = b # ys"
  shows "a < b \<and> b \<in> set xs"
  using assms by (metis filter_eq_ConsD in_set_conv_decomp)

lemma forward_go_hour:
  assumes ok: "cron_ok c" and v: "valid_dt cur" and nh: "dt_hour cur \<notin> set (hours c)"
    and f: "filter (\<lambda>h. dt_hour cur < h) (hours c) = h # hs"
    and n: "n = cur\<lparr>dt_hour := h, dt_minute := 0\<rparr>"
  shows "valid_dt n \<and> key5_less cur n \<and> (\<forall>x. span cur n x \<longrightarrow> \<not> matches c x)"
proof -
  from ok have s: "sorted (hours c)" and r: "\<forall>x \<in> set (hours c). 0 \<le> x \<and> x \<le> 23"
    by (simp_all add: cron_ok_def vals_ok_def)
  note fh = first_later [OF f]
  have "\<not> matches c x" if sp: "span cur n x" for x
  proof
    assume "matches c x"
    then have hx: "dt_hour x \<in> set (hours c)" by (simp add: matches_def)
    from sp have "\<not> key5_less x cur" and xn: "key5_less x n" and vx: "valid_dt x"
      by (simp_all add: span_def)
    from not_key5_lessD [OF this(1)] xn valid_dtD [OF vx] have "later_same_day cur x" "dt_hour x < h"
      unfolding n by (auto simp: key5_less_def later_same_day_def)
    with hx nh have "dt_hour cur < dt_hour x" by (auto simp: later_same_day_def)
    from later_value_span [OF s f hx this] \<open>dt_hour x < h\<close> show False by simp
  qed
  with fh r v show ?thesis unfolding n by (auto simp: valid_dt_def key5_less_def)
qed

lemma forward_go_minute:
  assumes ok: "cron_ok c" and v: "valid_dt cur" and nm: "dt_minute cur \<notin> set (minutes c)"
    and f: "filter (\<lambda>m. dt_minute cur < m) (minutes c) = m # ms"
    and n: "n = cur\<lparr>dt_minute := m\<rparr>"
  shows "valid_dt n \<and> key5_less cur n \<and> (\<forall>x. span cur n x \<longrightarrow> \<not> matches c x)"
proof -
  from ok have s: "sorted (minutes c)" and r: "\<forall>x \<in> set (minutes c). 0 \<le> x \<and> x \<le> 59"
    by (simp_all add: cron_ok_def vals_ok_def)
  note fm = first_later [OF f]
  have "\<not> matches c x" if sp: "span cur n x" for x
  proof
    assume "matches c x"
    then have mx: "dt_minute x \<in> set (minutes c)" by (simp add: matches_def)
    from sp have "\<not> key5_less x cur" and xn: "key5_less x n"
      by (simp_all add: span_def)
    from not_key5_lessD [OF this(1)] xn have "dt_minute cur \<le> dt_minute x" "dt_minute x < m"
      unfolding n by (auto simp: key5_less_def later_same_day_def)
    with mx nm have "dt_minute cur < dt_minute x" by (auto simp: order_less_le)
    from later_value_span [OF s f mx this] \<open>dt_minute x < m\<close> show False by simp
  qed
  with fm r v show ?thesis unfolding n by (auto simp: valid_dt_def key5_less_def)
qed

lemma forward_body_cases:
  obtains (month) "dt_month cur \<notin> set (months c)" "forward_body c cur = go (next_month cur)"
  | (day) "\<not> day_matches c cur" "forward_body c cur = go (next_midnight cur)"
  | (hour) h hs where "dt_hour cur \<notin> set (hours c)"
      "filter (\<lambda>h. dt_hour cur < h) (hours c) = h # hs"
      "forward_body c cur = Go (cur\<lparr>dt_hour := h, dt_minute := 0\<rparr>)"
  | (no_hour) "dt_hour cur \<notin> set (hours c)" "filter (\<lambda>h. dt_hour cur < h) (hours c) = []"
      "forward_body c cur = go (next_midnight cur)"
  | (minute) m ms where "dt_minute cur \<notin> set (minutes c)"
      "filter (\<lambda>m. dt_minute cur < m) (minutes c) = m # ms"
      "forward_body c cur = Go (cur\<lparr>dt_minute := m\<rparr>)"
  | (no_minute) "dt_minute cur \<notin> set (minutes c)" "filter (\<lambda>m. dt_minute cur < m) (minutes c) = []"
      "forward_body c cur = go (next_hour cur)"
  | (found) "matches c cur" "forward_body c cur = Found cur"
proof (cases "dt_month cur \<in> set (months c) \<and> day_matches c cur")
  case False
  then show thesis using month day
    by (cases "dt_month cur \<in> set (months c)") (simp_all add: forward_body_def next_month_def)
next
  case True
  note md = this
  show thesis
  proof (cases "dt_hour cur \<in> set (hours c)")
    case False
    with md show thesis
      by (cases "filter (\<lambda>h. dt_hour cur < h) (hours c)")
         (rule no_hour hour; simp add: forward_body_def)+
  next
    case True
    show thesis
    proof (cases "dt_minute cur \<in> set (minutes c)")
      case False
      with md True show thesis
        by (cases "filter (\<lambda>m. dt_minute cur < m) (minutes c)")
           (rule no_minute minute; simp add: forward_body_def)+
    qed (use md True found in \<open>simp add: forward_body_def matches_def\<close>)
  qed
qed

lemma forward_body_Go:
  assumes ok: "cron_ok c" and v: "valid_dt cur" and b: "forward_body c cur = Go n"
  shows "valid_dt n \<and> key5_less cur n \<and> (\<forall>x. span cur n x \<longrightarrow> \<not> matches c x)"
proof (cases rule: forward_body_cases [of cur c])
  case month
  with b next_month_Inr [OF v, of n] show ?thesis by (auto simp: matches_def)
next
  case day
  with b next_midnight_Inr [OF v, of n] show ?thesis by (auto dest: later_same_day_no_match)
next
  case (hour h hs)
  with b have "n = cur\<lparr>dt_hour := h, dt_minute := 0\<rparr>" by simp
  with forward_go_hour [OF ok v hour(1,2)] show ?thesis by blast
next
  case no_hour
  with b next_midnight_Inr [OF v, of n] show ?thesis by (auto dest: later_same_day_no_hour)
next
  case (minute m ms)
  with b have "n = cur\<lparr>dt_minute := m\<rparr>" by simp
  with forward_go_minute [OF ok v minute(1,2)] show ?thesis by blast
next
  case no_minute
  with b next_hour_Inr [OF v, of n] show ?thesis by (auto dest: later_same_hour_no_minute)
qed (use b in simp)

lemma forward_body_Raised:
  assumes v: "valid_dt cur" and b: "forward_body c cur = Raised e"
    and x: "valid_dt x" "\<not> key5_less x cur"
  shows "\<not> matches c x"
proof (cases rule: forward_body_cases [of cur c])
  case month
  with b next_month_Inl [OF v _ x] show ?thesis by (auto simp: matches_def)
next
  case day
  with b next_midnight_Inl [OF v _ x] show ?thesis by (auto dest: later_same_day_no_match)
next
  case no_hour
  with b next_midnight_Inl [OF v _ x] show ?thesis by (auto dest: later_same_day_no_hour)
next
  case no_minute
  with b next_hour_Inl [OF v _ x] show ?thesis by (auto dest: later_same_hour_no_minute)
qed (use b in simp_all)

lemma forward_body_Found:
  assumes "forward_body c cur = Found r"
  shows "r = cur \<and> matches c cur"
  by (cases rule: forward_body_cases [of cur c]) (use assms in simp_all)

interpretation fwd: tick_walk cron_ok valid_dt matches abs_minutes forward_body
proof
  fix c cur n
  assume h: "cron_ok c" "valid_dt cur" "forward_body c cur = Go n"
  then show "valid_dt n \<and> abs_minutes cur < abs_minutes n
    \<and> (\<forall>x. valid_dt x \<longrightarrow> abs_minutes cur \<le> abs_minutes x \<longrightarrow> abs_minutes x < abs_minutes n
          \<longrightarrow> \<not> matches c x)"
    using forward_body_Go [OF h] by (intro forward_law) auto
next
  fix c cur e
  assume "cron_ok c" "valid_dt cur" "forward_body c cur = Raised e"
  then show "\<forall>x. valid_dt x \<longrightarrow> abs_minutes cur \<le> abs_minutes x \<longrightarrow> \<not> matches c x"
    by (auto simp: abs_minutes_not_key5 dest: forward_body_Raised)
qed (rule forward_body_Found)

section \<open>The backward body\<close>

definition back_span :: "datetime \<Rightarrow> datetime \<Rightarrow> datetime \<Rightarrow> bool" where
  "back_span cur n x = (valid_dt x \<and> \<not> key5_less cur x \<and> key5_less n x)"

definition earlier_same_day :: "datetime \<Rightarrow> datetime \<Rightarrow> bool" where
  "earlier_same_day cur x =
     (dt_year x = dt_year cur \<and> dt_month x = dt_month cur \<and> dt_day x = dt_day cur
      \<and> (dt_hour x < dt_hour cur \<or> dt_hour x = dt_hour cur \<and> dt_minute x \<le> dt_minute cur))"

definition earlier_same_hour :: "datetime \<Rightarrow> datetime \<Rightarrow> bool" where
  "earlier_same_hour cur x = (earlier_same_day cur x \<and> dt_hour x = dt_hour cur)"

lemma not_key5_greaterD:
  assumes "\<not> key5_less cur x"
  shows "dt_year x < dt_year cur
    \<or> dt_year x = dt_year cur \<and> dt_month x < dt_month cur
    \<or> dt_year x = dt_year cur \<and> dt_month x = dt_month cur \<and> dt_day x < dt_day cur
    \<or> earlier_same_day cur x"
  using assms unfolding key5_less_def earlier_same_day_def by linarith

lemma prev_month_end_Inr:
  assumes v: "valid_dt cur" and n: "prev_month_end cur = Inr n"
  shows "valid_dt n \<and> key5_less n cur
    \<and> (\<forall>x. back_span cur n x \<longrightarrow> dt_year x = dt_year cur \<and> dt_month x = dt_month cur)"
proof -
  note vd = valid_dtD [OF v]
  consider (month) "1 < dt_month cur" "n = at_time (dt_year cur) (dt_month cur - 1)
        (days_in_month (dt_year cur) (dt_month cur - 1)) 23 59"
    | (year) "dt_month cur = 1" "1 < dt_year cur" "n = at_time (dt_year cur - 1) 12 31 23 59"
    using n vd unfolding prev_month_end_def Let_def by (force split: if_splits)
  then show ?thesis
  proof cases
    case month
    have "dt_year x = dt_year cur \<and> dt_month x = dt_month cur" if s: "back_span cur n x" for x
    proof -
      from s have "\<not> key5_less cur x" and xn: "key5_less n x" and vx: "valid_dt x"
        by (simp_all add: back_span_def)
      note bd = not_key5_greaterD [OF this(1)] and vxd = valid_dtD [OF vx]
      have nm: "\<not> (dt_year x = dt_year cur \<and> dt_month x = dt_month cur - 1)"
      proof
        assume eq: "dt_year x = dt_year cur \<and> dt_month x = dt_month cur - 1"
        with xn have "days_in_month (dt_year x) (dt_month x) < dt_day x \<or> 23 < dt_hour x
            \<or> 59 < dt_minute x"
          unfolding month(2) by (simp add: key5_less_def) linarith
        with vxd(6,8,10) show False by linarith
      qed
      have "dt_year cur \<le> dt_year x" "dt_year x = dt_year cur \<Longrightarrow> dt_month cur - 1 \<le> dt_month x"
        using xn unfolding month(2) by (auto simp: key5_less_def)
      with bd nm show ?thesis unfolding earlier_same_day_def by linarith
    qed
    moreover have "valid_dt n \<and> key5_less n cur"
      using month(1) vd(1-4) unfolding month(2) valid_at_time valid_date_def key5_less_def
      by (simp add: less_le_not_le)
    ultimately show ?thesis by blast
  next
    case year
    have "dt_year x = dt_year cur \<and> dt_month x = dt_month cur" if s: "back_span cur n x" for x
    proof -
      from s have "\<not> key5_less cur x" and xn: "key5_less n x" and vx: "valid_dt x"
        by (simp_all add: back_span_def)
      note bd = not_key5_greaterD [OF this(1)] and vxd = valid_dtD [OF vx]
      have "dt_year cur - 1 \<le> dt_year x" using xn unfolding year(3) by (auto simp: key5_less_def)
      moreover have "dt_year x \<noteq> dt_year cur - 1"
      proof
        assume y: "dt_year x = dt_year cur - 1"
        with xn vxd(4,8,10) have "dt_month x = 12" "31 < dt_day x"
          unfolding year(3) by (auto simp: key5_less_def)
        with vxd(6) show False by simp
      qed
      ultimately show ?thesis using bd year(1) vxd(3) unfolding earlier_same_day_def by linarith
    qed
    with year vd show ?thesis by (simp add: valid_at_time valid_date_def key5_less_def)
  qed
qed

lemma prev_month_end_Inl:
  assumes "valid_dt cur" "prev_month_end cur = Inl e" "valid_dt x" "\<not> key5_less cur x"
  shows "dt_year x = dt_year cur \<and> dt_month x = dt_month cur"
proof -
  have "dt_year cur \<le> 1" "dt_month cur \<le> 1"
    using assms(2) unfolding prev_month_end_def Let_def by (auto split: if_splits)
  with not_key5_greaterD [OF assms(4)] valid_dtD [OF assms(3)] show ?thesis
    by (auto simp: earlier_same_day_def)
qed

text \<open>
  The two finer steps fall through to the coarser one at the start of a month or of a
  day: what lies in between then shares the month and has nowhere earlier to be.
\<close>

lemma prev_day_end_Inr:
  assumes v: "valid_dt cur" and n: "prev_day_end cur = Inr n"
  shows "valid_dt n \<and> key5_less n cur \<and> (\<forall>x. back_span cur n x \<longrightarrow> earlier_same_day cur x)"
proof (cases "1 < dt_day cur")
  case True
  with n have n: "n = at_time (dt_year cur) (dt_month cur) (dt_day cur - 1) 23 59"
    by (simp add: prev_day_end_def)
  have "earlier_same_day cur x" if s: "back_span cur n x" for x
  proof -
    from s have "\<not> key5_less cur x" and xn: "key5_less n x" and vx: "valid_dt x"
      by (simp_all add: back_span_def)
    note bd = not_key5_greaterD [OF this(1)] and vxd = valid_dtD [OF vx]
    have "\<not> (dt_year x = dt_year cur \<and> dt_month x = dt_month cur \<and> dt_day x \<le> dt_day cur - 1)"
      using xn vxd(8,10) unfolding n by (auto simp: key5_less_def)
    moreover have "dt_year cur \<le> dt_year x" "dt_year x = dt_year cur \<Longrightarrow> dt_month cur \<le> dt_month x"
      using xn unfolding n by (auto simp: key5_less_def)
    ultimately show ?thesis using bd by linarith
  qed
  with True valid_dtD [OF v] show ?thesis
    unfolding n by (simp add: valid_at_time valid_date_def key5_less_def)
next
  case False
  with n have "prev_month_end cur = Inr n" by (simp add: prev_day_end_def)
  from prev_month_end_Inr [OF v this] have pm: "valid_dt n" "key5_less n cur"
    "\<And>x. back_span cur n x \<Longrightarrow> dt_year x = dt_year cur \<and> dt_month x = dt_month cur" by auto
  have "earlier_same_day cur x" if s: "back_span cur n x" for x
    using pm(3) [OF s] s not_key5_greaterD [of cur x] valid_dtD(5) [of x] False
    by (auto simp: back_span_def)
  with pm show ?thesis by blast
qed

lemma prev_day_end_Inl:
  assumes "valid_dt cur" "prev_day_end cur = Inl e" "valid_dt x" "\<not> key5_less cur x"
  shows "earlier_same_day cur x"
proof -
  from assms(2) have d: "\<not> 1 < dt_day cur" and m: "prev_month_end cur = Inl e"
    by (simp_all add: prev_day_end_def split: if_splits)
  from prev_month_end_Inl [OF assms(1) m assms(3,4)] not_key5_greaterD [OF assms(4)]
    valid_dtD(5) [OF assms(3)] d show ?thesis by auto
qed

lemma early_hour:
  "earlier_same_day cur x \<Longrightarrow> \<not> 0 < dt_hour cur \<Longrightarrow> valid_dt x \<Longrightarrow> earlier_same_hour cur x"
  using valid_dtD(7) [of x] by (auto simp: earlier_same_hour_def earlier_same_day_def)

lemma prev_hour_end_Inr:
  assumes v: "valid_dt cur" and n: "prev_hour_end cur = Inr n"
  shows "valid_dt n \<and> key5_less n cur \<and> (\<forall>x. back_span cur n x \<longrightarrow> earlier_same_hour cur x)"
proof (cases "0 < dt_hour cur")
  case True
  with n have n: "n = at_time (dt_year cur) (dt_month cur) (dt_day cur) (dt_hour cur - 1) 59"
    by (simp add: prev_hour_end_def)
  have "earlier_same_hour cur x" if s: "back_span cur n x" for x
  proof -
    from s have "\<not> key5_less cur x" and xn: "key5_less n x" and vx: "valid_dt x"
      by (simp_all add: back_span_def)
    note bd = not_key5_greaterD [OF this(1)] and vxd = valid_dtD [OF vx]
    have "\<not> (dt_year x = dt_year cur \<and> dt_month x = dt_month cur \<and> dt_day x = dt_day cur
        \<and> dt_hour x \<le> dt_hour cur - 1)"
      using xn vxd(10) unfolding n by (auto simp: key5_less_def)
    moreover have "dt_year cur \<le> dt_year x" "dt_year x = dt_year cur \<Longrightarrow> dt_month cur \<le> dt_month x"
      "dt_year x = dt_year cur \<Longrightarrow> dt_month x = dt_month cur \<Longrightarrow> dt_day cur \<le> dt_day x"
      using xn unfolding n by (auto simp: key5_less_def)
    ultimately show ?thesis using bd unfolding earlier_same_hour_def earlier_same_day_def by linarith
  qed
  with True valid_dtD [OF v] show ?thesis
    unfolding n by (simp add: valid_at_time valid_date_def key5_less_def)
next
  case False
  with n have "prev_day_end cur = Inr n" by (simp add: prev_hour_end_def)
  from prev_day_end_Inr [OF v this] False show ?thesis
    by (auto simp: back_span_def intro: early_hour)
qed

lemma prev_hour_end_Inl:
  assumes "valid_dt cur" "prev_hour_end cur = Inl e" "valid_dt x" "\<not> key5_less cur x"
  shows "earlier_same_hour cur x"
proof -
  from assms(2) have h: "\<not> 0 < dt_hour cur" and d: "prev_day_end cur = Inl e"
    by (simp_all add: prev_hour_end_def split: if_splits)
  from prev_day_end_Inl [OF assms(1) d assms(3,4)] h assms(3) show ?thesis by (blast intro: early_hour)
qed

end
