(* ===== verification/TickFacts.thy ===== *)
theory TickFacts
  imports Ticks
begin

text \<open>
  The backward body keeps the walk's contract too, and the two public walks of
  \<open>src/django_ox/cron.py\<close> meet their documentation: \<open>following\<close> is the earliest tick
  strictly after its argument, \<open>previous\<close> the latest tick at or before it, both end,
  and an expression the parser accepts always has a tick within the search bound.
\<close>

section \<open>The backward body keeps the contract\<close>

lemma earlier_same_day_no_match:
  "earlier_same_day cur x \<Longrightarrow> \<not> day_matches c cur \<Longrightarrow> \<not> matches c x"
  using same_day_matches [of x cur c] by (simp add: earlier_same_day_def matches_def)

lemma earlier_same_day_no_hour:
  assumes "earlier_same_day cur x" "dt_hour cur \<notin> set (hours c)" "filter (\<lambda>h. h < dt_hour cur) (hours c) = []"
  shows "\<not> matches c x"
  using assms by (auto simp: earlier_same_day_def matches_def filter_empty_conv)

lemma earlier_same_hour_no_minute:
  assumes "earlier_same_hour cur x" "dt_minute cur \<notin> set (minutes c)"
    "filter (\<lambda>m. m < dt_minute cur) (minutes c) = []"
  shows "\<not> matches c x"
  using assms by (auto simp: earlier_same_hour_def earlier_same_day_def matches_def filter_empty_conv)

lemma last_earlier:
  assumes "filter P xs \<noteq> []"
  shows "P (last (filter P xs)) \<and> last (filter P xs) \<in> set xs"
  using last_in_set [OF assms] by simp

lemma backward_body_cases:
  obtains (month) "dt_month cur \<notin> set (months c)" "backward_body c cur = go (prev_month_end cur)"
  | (day) "\<not> day_matches c cur" "backward_body c cur = go (prev_day_end cur)"
  | (hour) "dt_hour cur \<notin> set (hours c)" "filter (\<lambda>h. h < dt_hour cur) (hours c) \<noteq> []"
      "backward_body c cur
         = Go (cur\<lparr>dt_hour := last (filter (\<lambda>h. h < dt_hour cur) (hours c)), dt_minute := 59\<rparr>)"
  | (no_hour) "dt_hour cur \<notin> set (hours c)" "filter (\<lambda>h. h < dt_hour cur) (hours c) = []"
      "backward_body c cur = go (prev_day_end cur)"
  | (minute) "dt_minute cur \<notin> set (minutes c)" "filter (\<lambda>m. m < dt_minute cur) (minutes c) \<noteq> []"
      "backward_body c cur = Go (cur\<lparr>dt_minute := last (filter (\<lambda>m. m < dt_minute cur) (minutes c))\<rparr>)"
  | (no_minute) "dt_minute cur \<notin> set (minutes c)" "filter (\<lambda>m. m < dt_minute cur) (minutes c) = []"
      "backward_body c cur = go (prev_hour_end cur)"
  | (found) "matches c cur" "backward_body c cur = Found cur"
proof (cases "dt_month cur \<in> set (months c) \<and> day_matches c cur")
  case False
  then show thesis using month day
    by (cases "dt_month cur \<in> set (months c)") (simp_all add: backward_body_def)
next
  case True
  note md = this
  show thesis
  proof (cases "dt_hour cur \<in> set (hours c)")
    case False
    with md show thesis
      by (cases "filter (\<lambda>h. h < dt_hour cur) (hours c)")
         (rule no_hour hour; simp add: backward_body_def)+
  next
    case True
    show thesis
    proof (cases "dt_minute cur \<in> set (minutes c)")
      case False
      with md True show thesis
        by (cases "filter (\<lambda>m. m < dt_minute cur) (minutes c)")
           (rule no_minute minute; simp add: backward_body_def)+
    qed (use md True found in \<open>simp add: backward_body_def matches_def\<close>)
  qed
qed

lemma backward_go_hour:
  assumes ok: "cron_ok c" and v: "valid_dt cur" and nh: "dt_hour cur \<notin> set (hours c)"
    and f: "filter (\<lambda>h. h < dt_hour cur) (hours c) \<noteq> []"
    and n: "n = cur\<lparr>dt_hour := last (filter (\<lambda>h. h < dt_hour cur) (hours c)), dt_minute := 59\<rparr>"
  shows "valid_dt n \<and> key5_less n cur \<and> (\<forall>x. back_span cur n x \<longrightarrow> \<not> matches c x)"
proof -
  let ?h = "last (filter (\<lambda>h. h < dt_hour cur) (hours c))"
  from ok have s: "sorted (hours c)" and r: "\<forall>x \<in> set (hours c). 0 \<le> x \<and> x \<le> 23"
    by (simp_all add: cron_ok_def vals_ok_def)
  note fh = last_earlier [OF f]
  have "\<not> matches c x" if sp: "back_span cur n x" for x
  proof
    assume "matches c x"
    then have hx: "dt_hour x \<in> set (hours c)" by (simp add: matches_def)
    from sp have "\<not> key5_less cur x" and xn: "key5_less n x" and vx: "valid_dt x"
      by (simp_all add: back_span_def)
    note bd = not_key5_greaterD [OF this(1)] and vxd = valid_dtD [OF vx]
    have "dt_year cur \<le> dt_year x" "dt_year x = dt_year cur \<Longrightarrow> dt_month cur \<le> dt_month x"
      "dt_year x = dt_year cur \<Longrightarrow> dt_month x = dt_month cur \<Longrightarrow> dt_day cur \<le> dt_day x"
      using xn unfolding n by (auto simp: key5_less_def)
    with bd have same: "earlier_same_day cur x" by linarith
    then have "?h < dt_hour x \<or> ?h = dt_hour x \<and> 59 < dt_minute x"
      using xn unfolding n by (simp add: key5_less_def earlier_same_day_def)
    with vxd(10) have "?h < dt_hour x" by linarith
    from same hx nh have "dt_hour x < dt_hour cur" by (auto simp: earlier_same_day_def)
    from last_filter_sorted_greatest [OF s hx, of "\<lambda>h. h < dt_hour cur", OF this] \<open>?h < dt_hour x\<close>
    show False by simp
  qed
  with fh r v show ?thesis unfolding n by (auto simp: valid_dt_def key5_less_def)
qed

lemma backward_go_minute:
  assumes ok: "cron_ok c" and v: "valid_dt cur" and nm: "dt_minute cur \<notin> set (minutes c)"
    and f: "filter (\<lambda>m. m < dt_minute cur) (minutes c) \<noteq> []"
    and n: "n = cur\<lparr>dt_minute := last (filter (\<lambda>m. m < dt_minute cur) (minutes c))\<rparr>"
  shows "valid_dt n \<and> key5_less n cur \<and> (\<forall>x. back_span cur n x \<longrightarrow> \<not> matches c x)"
proof -
  let ?m = "last (filter (\<lambda>m. m < dt_minute cur) (minutes c))"
  from ok have s: "sorted (minutes c)" and r: "\<forall>x \<in> set (minutes c). 0 \<le> x \<and> x \<le> 59"
    by (simp_all add: cron_ok_def vals_ok_def)
  note fm = last_earlier [OF f]
  have "\<not> matches c x" if sp: "back_span cur n x" for x
  proof
    assume "matches c x"
    then have mx: "dt_minute x \<in> set (minutes c)" by (simp add: matches_def)
    from sp have "\<not> key5_less cur x" and xn: "key5_less n x" by (simp_all add: back_span_def)
    from not_key5_greaterD [OF this(1)] xn have "dt_minute x \<le> dt_minute cur" "?m < dt_minute x"
      unfolding n by (auto simp: key5_less_def earlier_same_day_def)
    with mx nm have "dt_minute x < dt_minute cur" by (auto simp: order_less_le)
    from last_filter_sorted_greatest [OF s mx, of "\<lambda>m. m < dt_minute cur", OF this] \<open>?m < dt_minute x\<close>
    show False by simp
  qed
  with fm r v show ?thesis unfolding n by (auto simp: valid_dt_def key5_less_def)
qed

lemma backward_body_Go:
  assumes ok: "cron_ok c" and v: "valid_dt cur" and b: "backward_body c cur = Go n"
  shows "valid_dt n \<and> key5_less n cur \<and> (\<forall>x. back_span cur n x \<longrightarrow> \<not> matches c x)"
proof (cases rule: backward_body_cases [of cur c])
  case month
  with b prev_month_end_Inr [OF v, of n] show ?thesis by (auto simp: matches_def)
next
  case day
  with b prev_day_end_Inr [OF v, of n] show ?thesis by (auto dest: earlier_same_day_no_match)
next
  case hour
  with b have "n = cur\<lparr>dt_hour := last (filter (\<lambda>h. h < dt_hour cur) (hours c)), dt_minute := 59\<rparr>"
    by simp
  with backward_go_hour [OF ok v hour(1,2)] show ?thesis by blast
next
  case no_hour
  with b prev_day_end_Inr [OF v, of n] show ?thesis by (auto dest: earlier_same_day_no_hour)
next
  case minute
  with b have "n = cur\<lparr>dt_minute := last (filter (\<lambda>m. m < dt_minute cur) (minutes c))\<rparr>" by simp
  with backward_go_minute [OF ok v minute(1,2)] show ?thesis by blast
next
  case no_minute
  with b prev_hour_end_Inr [OF v, of n] show ?thesis by (auto dest: earlier_same_hour_no_minute)
qed (use b in simp)

lemma backward_body_Raised:
  assumes v: "valid_dt cur" and b: "backward_body c cur = Raised e"
    and x: "valid_dt x" "\<not> key5_less cur x"
  shows "\<not> matches c x"
proof (cases rule: backward_body_cases [of cur c])
  case month
  with b prev_month_end_Inl [OF v _ x] show ?thesis by (auto simp: matches_def)
next
  case day
  with b prev_day_end_Inl [OF v _ x] show ?thesis by (auto dest: earlier_same_day_no_match)
next
  case no_hour
  with b prev_day_end_Inl [OF v _ x] show ?thesis by (auto dest: earlier_same_day_no_hour)
next
  case no_minute
  with b prev_hour_end_Inl [OF v _ x] show ?thesis by (auto dest: earlier_same_hour_no_minute)
qed (use b in simp_all)

lemma backward_body_Found:
  assumes "backward_body c cur = Found r"
  shows "r = cur \<and> matches c cur"
  by (cases rule: backward_body_cases [of cur c]) (use assms in simp_all)

interpretation bwd: tick_walk cron_ok valid_dt matches "\<lambda>dt. - abs_minutes dt" backward_body
proof
  fix c cur n
  assume h: "cron_ok c" "valid_dt cur" "backward_body c cur = Go n"
  then show "valid_dt n \<and> - abs_minutes cur < - abs_minutes n
    \<and> (\<forall>x. valid_dt x \<longrightarrow> - abs_minutes cur \<le> - abs_minutes x \<longrightarrow> - abs_minutes x < - abs_minutes n
          \<longrightarrow> \<not> matches c x)"
    using backward_body_Go [OF h] by (intro backward_law) (auto simp: back_span_def)
next
  fix c cur e
  assume "cron_ok c" "valid_dt cur" "backward_body c cur = Raised e"
  then show "\<forall>x. valid_dt x \<longrightarrow> - abs_minutes cur \<le> - abs_minutes x \<longrightarrow> \<not> matches c x"
    by (auto simp: abs_minutes_not_key5 dest: backward_body_Raised)
qed (rule backward_body_Found)

section \<open>A tick in every eight years\<close>

lemma leap_within_eight: "\<exists>y. lo \<le> y \<and> y \<le> lo + 7 \<and> is_leap y"
proof -
  define y where "y = lo + (- lo) mod 4"
  have "y mod 4 = (lo + - lo) mod 4" unfolding y_def by (rule mod_add_right_eq)
  then have y4: "y mod 4 = 0" by simp
  then have y4': "(y + 4) mod 4 = 0" by simp
  have r: "0 \<le> (- lo) mod 4" "(- lo) mod 4 < 4" by simp_all
  show ?thesis
  proof (cases "y mod 100 = 0")
    case True
    then have "(y + 4) mod 100 = 4 mod 100" by (metis add.commute add.right_neutral mod_add_right_eq)
    then have "is_leap (y + 4)" using y4' by (simp add: is_leap_def)
    with r show ?thesis unfolding y_def by (intro exI [of _ "lo + (- lo) mod 4 + 4"]) simp
  next
    case False
    then have "is_leap y" using y4 by (simp add: is_leap_def)
    with r show ?thesis unfolding y_def by (intro exI [of _ "lo + (- lo) mod 4"]) simp
  qed
qed

lemma weekday_in_first_week:
  assumes "0 \<le> w" "w \<le> 6"
  shows "\<exists>d. 1 \<le> d \<and> d \<le> 7 \<and> (weekday (at_time y m d h mi) + 1) mod 7 = w"
proof -
  define b where "b = days_before_year y + days_before_month y m"
  define d where "d = (w - b - 1) mod 7 + 1"
  have "(weekday (at_time y m d h mi) + 1) mod 7 = (b + d + 6 + 1) mod 7"
    unfolding weekday_def ordinal_def b_def at_time_simps by (simp add: mod_add_left_eq)
  also have "\<dots> = (b + d) mod 7" by (metis add.assoc mod_add_self2 numeral_plus_one semiring_norm(5) semiring_norm(8))
  also have "\<dots> = (b + 1 + (w - b - 1) mod 7) mod 7" by (simp add: d_def algebra_simps)
  also have "\<dots> = (b + 1 + (w - b - 1)) mod 7" by (rule mod_add_right_eq)
  also have "\<dots> = w" using assms by simp
  finally have "(weekday (at_time y m d h mi) + 1) mod 7 = w" .
  moreover have "1 \<le> d" "d \<le> 7" unfolding d_def by simp_all
  ultimately show ?thesis by blast
qed

lemma max_days_leap: "is_leap y \<Longrightarrow> days_in_month y m = max_days m"
  by (simp add: days_in_month_def max_days_def)

lemma restricted_day:
  assumes "cron_ok c" "\<not> dow_restricted c"
  shows "\<exists>m \<in> set (months c). \<exists>d \<in> set (days_of_month c). d \<le> max_days m"
proof (cases "dom_restricted c")
  case True
  with assms show ?thesis by (auto simp: cron_ok_def unsatisfiable_days_def list_ex_iff)
next
  case False
  with assms have "days_of_month c = [1 .. 31]" and "months c \<noteq> []"
    by (simp_all add: cron_ok_def vals_ok_def)
  moreover have "1 \<le> max_days m" for m by (simp add: max_days_def)
  ultimately show ?thesis by (intro bexI [of _ "hd (months c)"] bexI [of _ 1]) simp_all
qed

lemma tick_within_eight_years:
  assumes ok: "cron_ok c" and lo: "1 \<le> lo" "lo + 7 \<le> 9999"
  shows "\<exists>x. valid_dt x \<and> matches c x \<and> lo \<le> dt_year x \<and> dt_year x \<le> lo + 7"
proof -
  let ?h = "hd (hours c)" and ?mi = "hd (minutes c)"
  have hm: "?h \<in> set (hours c)" "?mi \<in> set (minutes c)" "0 \<le> ?h" "?h \<le> 23" "0 \<le> ?mi" "?mi \<le> 59"
    using ok by (simp_all add: cron_ok_def vals_ok_def)
  have mr: "m \<in> set (months c) \<Longrightarrow> 1 \<le> m \<and> m \<le> 12" for m
    using ok by (simp add: cron_ok_def vals_ok_def)
  obtain y where y: "lo \<le> y" "y \<le> lo + 7" "is_leap y" using leap_within_eight by blast
  have "\<exists>m d. m \<in> set (months c) \<and> 1 \<le> d \<and> d \<le> days_in_month y m
      \<and> day_matches c (at_time y m d ?h ?mi)"
  proof (cases "dow_restricted c")
    case True
    let ?m = "hd (months c)" and ?w = "hd (days_of_week c)"
    have w: "?w \<in> set (days_of_week c)" "0 \<le> ?w" "?w \<le> 6" and m: "?m \<in> set (months c)"
      using ok by (simp_all add: cron_ok_def vals_ok_def)
    obtain d where d: "1 \<le> d" "d \<le> 7" "(weekday (at_time y ?m d ?h ?mi) + 1) mod 7 = ?w"
      using weekday_in_first_week [OF w(2,3)] by blast
    have "\<not> dom_restricted c \<Longrightarrow> d \<in> set (days_of_month c)"
      using ok d(1,2) by (simp add: cron_ok_def)
    with True d(3) w(1) have "day_matches c (at_time y ?m d ?h ?mi)"
      by (auto simp: day_matches_def Let_def)
    with m d days_in_month_bounds(1) [of y ?m] show ?thesis by (intro exI [of _ ?m] exI [of _ d]) simp
  next
    case False
    then obtain m d where md: "m \<in> set (months c)" "d \<in> set (days_of_month c)" "d \<le> max_days m"
      using restricted_day [OF ok] by blast
    from False ok have "days_of_week c = [0 .. 6]" by (simp add: cron_ok_def)
    then have "(weekday (at_time y m d ?h ?mi) + 1) mod 7 \<in> set (days_of_week c)" by simp
    with False md(2) have "day_matches c (at_time y m d ?h ?mi)" by (simp add: day_matches_def)
    moreover have "1 \<le> d" using ok md(2) by (simp add: cron_ok_def vals_ok_def)
    ultimately show ?thesis using md max_days_leap [OF y(3)] by metis
  qed
  then obtain m d where md: "m \<in> set (months c)" "1 \<le> d" "d \<le> days_in_month y m"
    "day_matches c (at_time y m d ?h ?mi)" by blast
  have "valid_dt (at_time y m d ?h ?mi)" "matches c (at_time y m d ?h ?mi)"
    using y lo md hm mr [OF md(1)] by (simp_all add: valid_at_time valid_date_def matches_def)
  with y show ?thesis by (intro exI [of _ "at_time y m d ?h ?mi"]) simp
qed

lemma year_minutes:
  assumes "valid_dt x"
  shows "days_before_year (dt_year x) * 1440 + 1440 \<le> abs_minutes x"
    and "abs_minutes x < days_before_year (dt_year x + 1) * 1440 + 1440"
proof -
  from assms have d: "valid_date (dt_year x) (dt_month x) (dt_day x)" by (simp add: valid_dt_def)
  note vd = valid_dtD [OF assms] and oy = ordinal_in_year [OF d]
  from oy(1) vd(7,9) show "days_before_year (dt_year x) * 1440 + 1440 \<le> abs_minutes x"
    by (simp add: abs_minutes_def)
  from oy(2) have "ordinal (dt_year x) (dt_month x) (dt_day x) \<le> days_before_year (dt_year x + 1)"
    by (simp add: days_before_year_Suc)
  with vd(8,10) show "abs_minutes x < days_before_year (dt_year x + 1) * 1440 + 1440"
    unfolding abs_minutes_def by linarith
qed

lemma last_minute_years: "last_minute = days_before_year 10000 * 1440 + 1439"
  by (simp add: last_minute_def ordinal_def days_before_year_def days_before_month_def is_leap_def)

lemma first_minute_years: "first_minute = days_before_year 1 * 1440 + 1440"
  by (simp add: first_minute_def ordinal_def days_before_year_def days_before_month_def)

lemma next_midnight_abs:
  assumes v: "valid_dt cur" and n: "next_midnight cur = Inr n"
  shows "abs_minutes n = ordinal (dt_year cur) (dt_month cur) (dt_day cur) * 1440 + 1440"
  using n
proof (cases rule: next_midnight_cases)
  case day
  then show ?thesis by (simp add: abs_minutes_def ordinal_def)
next
  case month
  with valid_dtD [OF v] have "dt_day cur = days_in_month (dt_year cur) (dt_month cur)" by simp
  with month valid_dtD(3) [OF v] show ?thesis
    by (simp add: abs_minutes_def ordinal_def days_before_month_Suc)
next
  case year
  with valid_dtD [OF v] have "dt_month cur = 12" "dt_day cur = 31" by auto
  with year show ?thesis
    by (simp add: abs_minutes_def ordinal_def days_before_year_Suc days_before_month_def)
qed

lemma add_minute_abs:
  assumes v: "valid_dt dt" and a: "add_minute dt = Inr s"
  shows "abs_minutes s = abs_minutes dt + 1"
proof (cases "dt_minute dt < 59")
  case True
  with a show ?thesis by (auto simp: add_minute_def abs_minutes_def)
next
  case False
  note vd = valid_dtD [OF v]
  from False vd have 59: "dt_minute dt = 59" by simp
  from a False have n: "next_hour dt = Inr s" by (simp add: add_minute_def)
  show ?thesis
  proof (cases "dt_hour dt < 23")
    case True
    with n 59 show ?thesis by (auto simp: next_hour_def abs_minutes_def)
  next
    case False
    with n have "next_midnight dt = Inr s" by (simp add: next_hour_def)
    from next_midnight_abs [OF v this] False vd 59 show ?thesis by (simp add: abs_minutes_def)
  qed
qed

lemma add_minute_ok:
  assumes v: "valid_dt dt" and y: "dt_year dt < 9999"
  shows "\<exists>s. add_minute dt = Inr s"
  using y by (auto simp: add_minute_def next_hour_def next_midnight_def Let_def)

lemma search_minutes: "search_days * 1440 = 4743360"
  by (simp add: search_days_def)

lemma tick_after:
  assumes ok: "cron_ok c" and v: "valid_dt start"
    and room: "abs_minutes start + search_days * 1440 \<le> last_minute"
  shows "\<exists>x. valid_dt x \<and> matches c x \<and> abs_minutes start \<le> abs_minutes x
     \<and> abs_minutes x < abs_minutes start + search_days * 1440"
proof -
  let ?y = "dt_year start"
  note vd = valid_dtD [OF v] and ym = year_minutes [OF v]
  have "days_before_year 10000 \<le> days_before_year ?y + 366 * (10000 - ?y)"
    using days_before_year_span(2) [of "10000 - ?y" ?y] vd(2) by simp
  with ym(1) room have "?y + 8 \<le> 9999" unfolding last_minute_years search_minutes
    by (simp add: algebra_simps)
  then obtain x where x: "valid_dt x" "matches c x" "?y + 1 \<le> dt_year x" "dt_year x \<le> ?y + 8"
    using tick_within_eight_years [OF ok, of "?y + 1"] vd(1) by auto
  note xm = year_minutes [OF x(1)]
  have "days_before_year (?y + 1) \<le> days_before_year (dt_year x)"
    using days_before_year_span(1) [of "dt_year x - (?y + 1)" "?y + 1"] x(3) by simp
  with ym(2) xm(1) have "abs_minutes start \<le> abs_minutes x" by linarith
  moreover have "days_before_year (dt_year x + 1) \<le> days_before_year ?y + 366 * 9"
    using days_before_year_span(2) [of "dt_year x + 1 - ?y" ?y] x(3,4) by simp
  with xm(2) ym(1) have "abs_minutes x < abs_minutes start + search_days * 1440"
    unfolding search_minutes by linarith
  ultimately show ?thesis using x by blast
qed

lemma tick_before:
  assumes ok: "cron_ok c" and v: "valid_dt start"
    and room: "first_minute \<le> abs_minutes start - search_days * 1440"
  shows "\<exists>x. valid_dt x \<and> matches c x \<and> abs_minutes x \<le> abs_minutes start
     \<and> abs_minutes start - search_days * 1440 < abs_minutes x"
proof -
  let ?y = "dt_year start"
  note vd = valid_dtD [OF v] and ym = year_minutes [OF v]
  have "days_before_year (?y + 1) \<le> days_before_year 1 + 366 * ?y"
    using days_before_year_span(2) [of ?y 1] vd(1) by (simp add: add.commute)
  with ym(2) room have "1 \<le> ?y - 8" unfolding first_minute_years search_minutes
    by linarith
  then obtain x where x: "valid_dt x" "matches c x" "?y - 8 \<le> dt_year x" "dt_year x \<le> ?y - 1"
    using tick_within_eight_years [OF ok, of "?y - 8"] vd(2) by auto
  note xm = year_minutes [OF x(1)]
  have "days_before_year (dt_year x + 1) \<le> days_before_year ?y"
    using days_before_year_span(1) [of "?y - (dt_year x + 1)" "dt_year x + 1"] x(4) by simp
  with xm(2) ym(1) have "abs_minutes x \<le> abs_minutes start" by linarith
  moreover have "days_before_year (?y + 1) \<le> days_before_year (dt_year x) + 366 * 9"
    using days_before_year_span(2) [of "?y + 1 - dt_year x" "dt_year x"] x(3,4) by simp
  with xm(1) ym(2) have "abs_minutes start - search_days * 1440 < abs_minutes x"
    unfolding search_minutes by linarith
  ultimately show ?thesis using x by blast
qed

section \<open>The two walks\<close>

definition floored :: "datetime \<Rightarrow> datetime" where
  "floored dt = dt\<lparr>dt_second := 0, dt_micro := 0\<rparr>"

lemma floored_simps [simp]:
  "valid_dt (floored dt) = valid_dt dt" "abs_minutes (floored dt) = abs_minutes dt"
  by (simp_all add: floored_def valid_dt_def abs_minutes_def)

lemma add_minute_span:
  assumes v: "valid_dt dt" and a: "add_minute dt = Inr s"
  shows "valid_dt s \<and> key5_less dt s \<and> (\<forall>x. span dt s x \<longrightarrow> \<not> key5_less dt x)"
proof (cases "dt_minute dt < 59")
  case True
  with a have s: "s = at_time (dt_year dt) (dt_month dt) (dt_day dt) (dt_hour dt) (dt_minute dt + 1)"
    by (simp add: add_minute_def)
  have "\<not> key5_less dt x" if "span dt s x" for x
    using that unfolding s span_def key5_less_def at_time_simps by linarith
  moreover have "valid_dt s \<and> key5_less dt s"
    using True v unfolding s by (simp add: valid_at_time valid_dt_def key5_less_def)
  ultimately show ?thesis by blast
next
  case False
  with a have "next_hour dt = Inr s" by (simp add: add_minute_def)
  from next_hour_Inr [OF v this] have n: "valid_dt s" "key5_less dt s"
    "\<And>x. span dt s x \<Longrightarrow> later_same_hour dt x" by auto
  have "\<not> key5_less dt x" if sp: "span dt s x" for x
    using n(3) [OF sp] False valid_dtD(10) [of x] sp
    by (auto simp: later_same_hour_def later_same_day_def key5_less_def span_def)
  with n show ?thesis by blast
qed

lemma add_minute_Inr:
  assumes v: "valid_dt dt" and a: "add_minute dt = Inr s"
  shows "valid_dt s" and "abs_minutes dt < abs_minutes s"
    and "valid_dt x \<Longrightarrow> abs_minutes dt < abs_minutes x \<Longrightarrow> abs_minutes s \<le> abs_minutes x"
proof -
  note law = add_minute_span [OF v a]
  then show vs: "valid_dt s" and "abs_minutes dt < abs_minutes s"
    using v by (auto simp: abs_minutes_key5)
  assume x: "valid_dt x" and l: "abs_minutes dt < abs_minutes x"
  show "abs_minutes s \<le> abs_minutes x"
  proof (rule ccontr)
    assume "\<not> ?thesis"
    then have "key5_less x s" using x vs by (simp add: abs_minutes_not_key5)
    moreover from l have "\<not> key5_less x dt" using abs_minutes_key5 [OF x v] by simp
    ultimately have "\<not> key5_less dt x" using law x by (auto simp: span_def)
    with l v x show False by (simp add: abs_minutes_key5)
  qed
qed

lemma walk_result_Inr: "walk_result w = Inr r \<longleftrightarrow> w = Found r"
  by (cases w) (auto simp: walk_result_def)

lemma floor_minute_naive: "\<not> dt_aware dt \<Longrightarrow> floor_minute dt = Inr (floored dt)"
  by (simp add: floor_minute_def floored_def)

lemma following_unfold:
  assumes "\<not> dt_aware dt" "add_minute (floored dt) = Inr s"
    "abs_minutes s + search_days * 1440 \<le> last_minute"
  shows "following c dt = map_option walk_result
    (walk_while (\<lambda>cur. abs_minutes cur < abs_minutes s + search_days * 1440) (forward_body c) s)"
  using assms by (simp add: following_def floor_minute_naive Let_def)

lemma following_InrD:
  assumes v: "valid_dt dt" and f: "following c dt = Some (Inr r)"
  obtains s where "\<not> dt_aware dt" "add_minute (floored dt) = Inr s"
    "walk_while (\<lambda>cur. abs_minutes cur < abs_minutes s + search_days * 1440) (forward_body c) s
       = Some (Found r)"
  using f unfolding following_def Let_def floor_minute_def
  by (auto simp: floored_def walk_result_Inr rbind_def split: if_splits sum.splits)

text \<open>The walk forward: its result is the first matching minute strictly after the argument.\<close>

lemma following_earliest_tick:
  assumes ok: "cron_ok c" and v: "valid_dt dt" and f: "following c dt = Some (Inr r)"
  shows "valid_dt r \<and> matches c r \<and> abs_minutes dt < abs_minutes r
    \<and> (\<forall>x. valid_dt x \<longrightarrow> abs_minutes dt < abs_minutes x \<longrightarrow> abs_minutes x < abs_minutes r
          \<longrightarrow> \<not> matches c x)"
proof -
  from following_InrD [OF v f] obtain s where a: "add_minute (floored dt) = Inr s"
    and w: "walk_while (\<lambda>cur. abs_minutes cur < abs_minutes s + search_days * 1440)
       (forward_body c) s = Some (Found r)" by blast
  from v have vf: "valid_dt (floored dt)" by simp
  note am = add_minute_Inr [OF vf a]
  from fwd.walk_invariant [OF ok am(1) w] am(2,3) show ?thesis by auto
qed

lemma following_total:
  assumes ok: "cron_ok c" and v: "valid_dt dt"
  shows "\<exists>res. following c dt = Some res"
proof (cases "rbind (floor_minute dt) (\<lambda>f. case add_minute f of Inl e \<Rightarrow> Inl (Calendar e) | Inr s \<Rightarrow> Inr s)")
  case (Inr s)
  then have a: "add_minute (floored dt) = Inr s"
    by (auto simp: rbind_Inr_iff floor_minute_def floored_def split: if_splits sum.splits)
  from v have "valid_dt (floored dt)" by simp
  from fwd.walk_ends [OF ok add_minute_Inr(1) [OF this a]] Inr show ?thesis
    by (fastforce simp: following_def Let_def)
qed (simp add: following_def)

lemma following_succeeds:
  assumes ok: "cron_ok c" and v: "valid_dt dt" and n: "\<not> dt_aware dt"
    and room: "abs_minutes dt + 1 + search_days * 1440 \<le> last_minute"
  shows "\<exists>r. following c dt = Some (Inr r)"
proof -
  let ?f = "floored dt"
  from v have vf: "valid_dt ?f" by simp
  have "dt_year ?f < 9999"
  proof (rule ccontr)
    assume "\<not> ?thesis"
    then have "dt_year ?f = 9999" using valid_dtD(2) [OF vf] by simp
    then show False using year_minutes(1) [OF vf] room
      by (simp add: last_minute_years search_minutes days_before_year_def)
  qed
  then obtain s where s: "add_minute ?f = Inr s" "abs_minutes s = abs_minutes dt + 1"
    using add_minute_ok [OF vf] add_minute_abs [OF vf] by auto
  note vs = add_minute_Inr(1) [OF vf s(1)]
  have room': "abs_minutes s + search_days * 1440 \<le> last_minute" using room s(2) by simp
  obtain w where w: "walk_while (\<lambda>cur. abs_minutes cur < abs_minutes s + search_days * 1440)
      (forward_body c) s = Some w" using fwd.walk_ends [OF ok vs] by blast
  obtain x where "valid_dt x" "matches c x" "abs_minutes s \<le> abs_minutes x"
    "abs_minutes x < abs_minutes s + search_days * 1440" using tick_after [OF ok vs room'] by blast
  from fwd.walk_finds [OF ok vs this w] obtain r where "w = Found r" by blast
  with w show ?thesis by (simp add: following_unfold [OF n s(1) room'] walk_result_def)
qed

lemma previous_InrD:
  assumes f: "previous c dt = Some (Inr r)"
  obtains "\<not> dt_aware dt"
    "walk_while (\<lambda>cur. - abs_minutes cur < - (abs_minutes dt - search_days * 1440)) (backward_body c)
       (floored dt) = Some (Found r)"
  using f unfolding previous_def Let_def floor_minute_def neg_less_iff_less
  by (auto simp: floored_def [symmetric] walk_result_Inr split: if_splits)

text \<open>The walk backward: its result is the last matching minute at or before the argument.\<close>

lemma previous_latest_tick:
  assumes ok: "cron_ok c" and v: "valid_dt dt" and f: "previous c dt = Some (Inr r)"
  shows "valid_dt r \<and> matches c r \<and> abs_minutes r \<le> abs_minutes dt
    \<and> (\<forall>x. valid_dt x \<longrightarrow> abs_minutes r < abs_minutes x \<longrightarrow> abs_minutes x \<le> abs_minutes dt
          \<longrightarrow> \<not> matches c x)"
proof -
  from v have vf: "valid_dt (floored dt)" by simp
  from previous_InrD [OF f] have
    "walk_while (\<lambda>cur. - abs_minutes cur < - (abs_minutes dt - search_days * 1440)) (backward_body c)
       (floored dt) = Some (Found r)" by blast
  from bwd.walk_invariant [OF ok vf this] show ?thesis by auto
qed

lemma back_walk:
  "walk_while (\<lambda>cur. - abs_minutes cur < - b) f = walk_while (\<lambda>cur. b < abs_minutes cur) f"
  by simp

lemma previous_unfold:
  assumes "\<not> dt_aware dt"
    and "walk_while (\<lambda>cur. - abs_minutes cur < - (abs_minutes dt - search_days * 1440))
      (backward_body c) (floored dt) = Some w"
  shows "\<exists>e. previous c dt = Some (Inl e) \<or> previous c dt = Some (walk_result w)"
  using assms unfolding back_walk by (simp add: previous_def floor_minute_naive Let_def)

lemma previous_unfold_room:
  assumes "\<not> dt_aware dt" "first_minute \<le> abs_minutes dt - search_days * 1440"
    and "walk_while (\<lambda>cur. - abs_minutes cur < - (abs_minutes dt - search_days * 1440))
      (backward_body c) (floored dt) = Some w"
  shows "previous c dt = Some (walk_result w)"
  using assms unfolding back_walk by (simp add: previous_def floor_minute_naive Let_def)

lemma previous_total:
  assumes ok: "cron_ok c" and v: "valid_dt dt"
  shows "\<exists>res. previous c dt = Some res"
proof (cases "dt_aware dt")
  case False
  from v have "valid_dt (floored dt)" by simp
  from bwd.walk_ends [OF ok this, of "- (abs_minutes dt - search_days * 1440)"]
  obtain w where "walk_while (\<lambda>cur. - abs_minutes cur < - (abs_minutes dt - search_days * 1440))
      (backward_body c) (floored dt) = Some w" by blast
  from previous_unfold [OF False this] show ?thesis by (auto simp: walk_result_def)
qed (simp add: previous_def floor_minute_def)

lemma previous_succeeds:
  assumes ok: "cron_ok c" and v: "valid_dt dt" and n: "\<not> dt_aware dt"
    and room: "first_minute \<le> abs_minutes dt - search_days * 1440"
  shows "\<exists>r. previous c dt = Some (Inr r)"
proof -
  let ?f = "floored dt" and ?b = "- (abs_minutes dt - search_days * 1440)"
  from v have vf: "valid_dt ?f" by simp
  obtain w where w: "walk_while (\<lambda>cur. - abs_minutes cur < ?b) (backward_body c) ?f = Some w"
    using bwd.walk_ends [OF ok vf] by blast
  from room have room': "first_minute \<le> abs_minutes ?f - search_days * 1440" by simp
  obtain x where x: "valid_dt x" "matches c x" "abs_minutes x \<le> abs_minutes ?f"
    "abs_minutes ?f - search_days * 1440 < abs_minutes x" using tick_before [OF ok vf room'] by blast
  have le: "- abs_minutes ?f \<le> - abs_minutes x" and lt: "- abs_minutes x < ?b" using x by simp_all
  from bwd.walk_finds [OF ok vf x(1,2) le lt w] obtain r where "w = Found r" by blast
  with previous_unfold_room [OF n room w] show ?thesis by (simp add: walk_result_def)
qed

text \<open>
  Two clock readings between which no tick falls have the same latest tick: every worker
  derives the same instant from the definition and the clock alone.
\<close>

lemma previous_same_tick:
  assumes ok: "cron_ok c" and v: "valid_dt a" "valid_dt b"
    and f: "previous c a = Some (Inr r)" "previous c b = Some (Inr q)"
    and le: "abs_minutes a \<le> abs_minutes b" and q: "abs_minutes q \<le> abs_minutes a"
  shows "abs_minutes q = abs_minutes r"
proof (rule antisym)
  note A = previous_latest_tick [OF ok v(1) f(1)] and B = previous_latest_tick [OF ok v(2) f(2)]
  show "abs_minutes q \<le> abs_minutes r" using A B q by (meson linorder_not_less)
  show "abs_minutes r \<le> abs_minutes q" using A B le by (meson linorder_not_less order_trans)
qed

end
