(* ===== verification/Clock.thy ===== *)
theory Clock
  imports Calendar
begin

text \<open>
  Datetimes on the microsecond line: \<open>datetime - datetime\<close>, \<open>datetime + timedelta\<close>
  and the standard library's conversion of an ordinal back to a date.  Adding raises
  outside the years 1 to 9999 and always gives \<open>fold = 0\<close>.
\<close>

definition full_dt :: "datetime \<Rightarrow> bool" where
  "full_dt dt = (valid_dt dt \<and> 0 \<le> dt_second dt \<and> dt_second dt \<le> 59
     \<and> 0 \<le> dt_micro dt \<and> dt_micro dt \<le> 999999)"

definition minute_us :: int where
  "minute_us = 60000000"

definition day_us :: int where
  "day_us = 86400000000"

definition micros :: "datetime \<Rightarrow> int" where
  "micros dt = abs_minutes dt * minute_us + dt_second dt * 1000000 + dt_micro dt"

text \<open>The year of a 1-based day number, by 400, 100, 4 and 1 year cycles.\<close>

definition year_of_ordinal :: "int \<Rightarrow> int" where
  "year_of_ordinal n =
     (let a = (n - 1) div 146097; r = (n - 1) mod 146097;
          b = r div 36524; s = r mod 36524;
          c = s div 1461; t = s mod 1461;
          d = t div 365
      in 400 * a + 100 * b + 4 * c + d + (if b = 4 \<or> d = 4 then 0 else 1))"

fun month_from :: "int \<Rightarrow> int \<Rightarrow> int list \<Rightarrow> int \<times> int" where
  "month_from y n [] = (12, n)"
| "month_from y n (m # ms) =
     (if n \<le> days_in_month y m then (m, n) else month_from y (n - days_in_month y m) ms)"

definition date_of_ordinal :: "int \<Rightarrow> int \<times> int \<times> int" where
  "date_of_ordinal n =
     (let y = year_of_ordinal n; (m, d) = month_from y (n - days_before_year y) [1 .. 11]
      in (y, m, d))"

definition first_micro :: int where
  "first_micro = first_minute * minute_us"

definition last_micro :: int where
  "last_micro = last_minute * minute_us + 59999999"

definition of_micros :: "int \<Rightarrow> time_error + datetime" where
  "of_micros t =
     (if t < first_micro \<or> last_micro < t then Inl DateOverflow
      else (case date_of_ordinal (t div day_us) of (y, m, d) \<Rightarrow>
        let r = t mod day_us in
        Inr (\<lparr>dt_year = y, dt_month = m, dt_day = d, dt_hour = r div 3600000000,
             dt_minute = r div 60000000 mod 60, dt_second = r div 1000000 mod 60,
             dt_micro = r mod 1000000, dt_fold = 0, dt_aware = False\<rparr>)))"

text \<open>\<open>dt + timedelta(microseconds=us)\<close>\<close>

definition add_micros :: "datetime \<Rightarrow> int \<Rightarrow> time_error + datetime" where
  "add_micros dt us = of_micros (micros dt + us)"

section \<open>The conversion inverts the day count\<close>

lemma cycle_days:
  fixes a b c d :: int
  assumes "0 \<le> b" "b \<le> 3" "0 \<le> c" "c \<le> 24" "0 \<le> d" "d \<le> 3"
  shows "days_before_year (400 * a + 100 * b + 4 * c + d + 1)
    = 146097 * a + 36524 * b + 1461 * c + 365 * d"
proof -
  let ?p = "400 * a + 100 * b + 4 * c + d"
  have "?p div 4 = 100 * a + 25 * b + c" using assms by (intro int_div_pos_eq [where r = d]) simp_all
  moreover have "?p div 100 = 4 * a + b"
    using assms by (intro int_div_pos_eq [where r = "4 * c + d"]) simp_all
  moreover have "?p div 400 = a"
    using assms by (intro int_div_pos_eq [where r = "100 * b + 4 * c + d"]) simp_all
  ultimately show ?thesis unfolding days_before_year_def Let_def by simp
qed

lemma mod_by_quotient:
  fixes p k q r :: int
  assumes "p = k * q + r" "0 \<le> r" "r < k"
  shows "p mod k = r"
  using assms by (rule int_mod_pos_eq)

lemma cycle_leap:
  fixes a b c d :: int
  assumes "0 \<le> b" "b \<le> 3" "0 \<le> c" "c \<le> 24" "0 \<le> d" "d \<le> 3"
  shows "is_leap (400 * a + 100 * b + 4 * c + d + 1) \<longleftrightarrow> d = 3 \<and> (c = 24 \<longrightarrow> b = 3)"
proof -
  let ?p = "400 * a + 100 * b + 4 * c + d + 1"
  consider "d < 3" | "d = 3" "c < 24" | "d = 3" "c = 24" "b < 3" | "d = 3" "c = 24" "b = 3"
    using assms by linarith
  then show ?thesis
  proof cases
    case 1
    have "?p mod 4 = d + 1"
      using assms 1 by (intro mod_by_quotient [where q = "100 * a + 25 * b + c"]) (simp_all add: algebra_simps)
    with 1 assms show ?thesis unfolding is_leap_def by simp
  next
    case 2
    have "?p mod 4 = 0" using assms 2 by (intro mod_by_quotient [where q = "100 * a + 25 * b + c + 1"]) (simp_all add: algebra_simps)
    moreover have "?p mod 100 = 4 * c + 4"
      using assms 2 by (intro mod_by_quotient [where q = "4 * a + b"]) (simp_all add: algebra_simps)
    ultimately show ?thesis using assms 2 unfolding is_leap_def by simp
  next
    case 3
    have "?p mod 100 = 0" using assms 3 by (intro mod_by_quotient [where q = "4 * a + b + 1"]) (simp_all add: algebra_simps)
    moreover have "?p mod 400 = 100 * b + 100"
      using assms 3 by (intro mod_by_quotient [where q = a]) (simp_all add: algebra_simps)
    ultimately show ?thesis using assms 3 unfolding is_leap_def by simp
  next
    case 4
    have "?p mod 4 = 0" using assms 4 by (intro mod_by_quotient [where q = "100 * a + 25 * b + c + 1"]) (simp_all add: algebra_simps)
    moreover have "?p mod 400 = 0" using assms 4 by (intro mod_by_quotient [where q = "a + 1"]) (simp_all add: algebra_simps)
    ultimately show ?thesis using 4 unfolding is_leap_def by simp
  qed
qed

lemma year_of_ordinal:
  "days_before_year (year_of_ordinal n) < n"
  "n \<le> days_before_year (year_of_ordinal n) + 365 + (if is_leap (year_of_ordinal n) then 1 else 0)"
proof -
  define a r where ar: "a = (n - 1) div 146097" "r = (n - 1) mod 146097"
  define b s where bs: "b = r div 36524" "s = r mod 36524"
  define c t where ct: "c = s div 1461" "t = s mod 1461"
  define d u where du: "d = t div 365" "u = t mod 365"
  have n: "n - 1 = 146097 * a + 36524 * b + 1461 * c + 365 * d + u"
    using mult_div_mod_eq [of 146097 "n - 1"] mult_div_mod_eq [of 36524 r]
      mult_div_mod_eq [of 1461 s] mult_div_mod_eq [of 365 t]
    unfolding ar [symmetric] bs [symmetric] ct [symmetric] du [symmetric] by linarith
  have r: "0 \<le> r" "r \<le> 146096" by (simp_all add: ar)
  have b: "0 \<le> b" "b \<le> 4" using r by (simp_all add: bs)
  have s: "0 \<le> s" "s \<le> 36523" by (simp_all add: bs)
  have c: "0 \<le> c" "c \<le> 24" using s by (simp_all add: ct)
  have t: "0 \<le> t" "t \<le> 1460" by (simp_all add: ct)
  have d: "0 \<le> d" "d \<le> 4" using t by (simp_all add: du)
  have u: "0 \<le> u" "u \<le> 364" by (simp_all add: du)
  have rb: "r = 36524 * b + s" "s = 1461 * c + t" "t = 365 * d + u"
    using mult_div_mod_eq [of 36524 r] mult_div_mod_eq [of 1461 s] mult_div_mod_eq [of 365 t]
    unfolding bs [symmetric] ct [symmetric] du [symmetric] by linarith+
  have y: "year_of_ordinal n = 400 * a + 100 * b + 4 * c + d + (if b = 4 \<or> d = 4 then 0 else 1)"
    by (simp add: year_of_ordinal_def ar bs ct du Let_def)
  have "days_before_year (year_of_ordinal n) < n
    \<and> n \<le> days_before_year (year_of_ordinal n) + 365 + (if is_leap (year_of_ordinal n) then 1 else 0)"
  proof -
    consider "b = 4" | "b < 4" "d = 4" | "b < 4" "d < 4" using b d by linarith
    then show ?thesis
    proof cases
      case 1
      then have z: "s = 0" "c = 0" "d = 0" "u = 0" using r s c t d u rb by linarith+
      have "year_of_ordinal n = 400 * a + 100 * 3 + 4 * 24 + 3 + 1" using y 1 z by simp
      then show ?thesis using cycle_days [of 3 24 3 a] cycle_leap [of 3 24 3 a] n 1 z by simp
    next
      case 2
      then have z: "u = 0" using t u rb by linarith
      have c': "c = 24 \<Longrightarrow> b = 3" using 2 z s rb b by linarith
      have "year_of_ordinal n = 400 * a + 100 * b + 4 * c + 3 + 1" using y 2 by simp
      then show ?thesis using cycle_days [of b c 3 a] cycle_leap [of b c 3 a] n 2 z b c c' by simp
    next
      case 3
      have "year_of_ordinal n = 400 * a + 100 * b + 4 * c + d + 1" using y 3 by simp
      then show ?thesis using cycle_days [of b c d a] n 3 b c d u by simp
    qed
  qed
  then show "days_before_year (year_of_ordinal n) < n"
    "n \<le> days_before_year (year_of_ordinal n) + 365 + (if is_leap (year_of_ordinal n) then 1 else 0)"
    by simp_all
qed

lemma month_from_inverts:
  assumes "1 \<le> m" "m \<le> 12" "1 \<le> n" "n \<le> 365 + (if is_leap y then 1 else 0) - days_before_month y m"
    and "month_from y n [m .. 11] = (mo, d)"
  shows "m \<le> mo \<and> mo \<le> 12 \<and> 1 \<le> d \<and> d \<le> days_in_month y mo
    \<and> days_before_month y mo + d = days_before_month y m + n"
  using assms
proof (induction "nat (12 - m)" arbitrary: m n)
  case 0
  then have m: "m = 12" by simp
  with 0 show ?case by (auto simp: days_before_month_def)
next
  case (Suc k)
  then have lt: "m < 12" by simp
  then have l: "[m .. 11] = m # [m + 1 .. 11]" by (simp add: upto_rec1)
  show ?case
  proof (cases "n \<le> days_in_month y m")
    case True
    with Suc.prems l lt show ?thesis by auto
  next
    case False
    have step: "days_before_month y (m + 1) = days_before_month y m + days_in_month y m"
      using days_before_month_Suc [of m y] Suc.prems(1) lt by simp
    have "month_from y (n - days_in_month y m) [m + 1 .. 11] = (mo, d)"
      using Suc.prems(5) False l by simp
    moreover have "k = nat (12 - (m + 1))" using Suc.hyps(2) by simp
    ultimately show ?thesis
      using Suc.hyps(1) [of "m + 1" "n - days_in_month y m"] Suc.prems(1,4) False lt step by simp
  qed
qed

lemma year_range:
  assumes "ordinal 1 1 1 \<le> n" "n \<le> ordinal 9999 12 31"
  shows "1 \<le> year_of_ordinal n \<and> year_of_ordinal n \<le> 9999"
proof
  note y = year_of_ordinal [of n]
  show "1 \<le> year_of_ordinal n"
  proof (rule ccontr)
    assume "\<not> ?thesis"
    then have "days_before_year (year_of_ordinal n) + 365
        + (if is_leap (year_of_ordinal n) then 1 else 0) \<le> days_before_year 1"
      by (intro days_before_year_mono) simp
    with y(2) assms(1) show False by (simp add: days_before_year_def ordinal_def days_before_month_def)
  qed
  show "year_of_ordinal n \<le> 9999"
  proof (rule ccontr)
    assume "\<not> ?thesis"
    then have "days_before_year 9999 + 365 + (if is_leap 9999 then 1 else 0)
        \<le> days_before_year (year_of_ordinal n)"
      by (intro days_before_year_mono) simp
    with y(1) assms(2) show False
      by (simp add: days_before_year_def ordinal_def days_before_month_def is_leap_def)
  qed
qed

lemma date_of_ordinal:
  assumes "ordinal 1 1 1 \<le> n" "n \<le> ordinal 9999 12 31" and d: "date_of_ordinal n = (y, m, d)"
  shows "valid_date y m d \<and> ordinal y m d = n"
proof -
  have y: "y = year_of_ordinal n" and md: "month_from y (n - days_before_year y) [1 .. 11] = (m, d)"
    using d by (auto simp: date_of_ordinal_def Let_def split: prod.splits)
  have before: "days_before_month y 1 = 0" by (simp add: days_before_month_def)
  have "1 \<le> m \<and> m \<le> 12 \<and> 1 \<le> d \<and> d \<le> days_in_month y m
      \<and> days_before_month y m + d = days_before_month y 1 + (n - days_before_year y)"
    by (rule month_from_inverts [OF _ _ _ _ md])
       (use year_of_ordinal [of n] in \<open>simp_all add: y before [unfolded y]\<close>)
  with year_range [OF assms(1,2)] show ?thesis unfolding y [symmetric] valid_date_def ordinal_def before
    by simp
qed

lemma micros_of_micros:
  assumes "of_micros t = Inr dt"
  shows "micros dt = t" "full_dt dt" "dt_fold dt = 0" "\<not> dt_aware dt"
proof -
  obtain y m d where ymd: "date_of_ordinal (t div day_us) = (y, m, d)"
    using prod_cases3 by blast
  define r where "r = t mod day_us"
  have range: "first_micro \<le> t" "t \<le> last_micro" using assms by (auto simp: of_micros_def split: if_splits)
  have r: "0 \<le> r" "r < day_us" by (simp_all add: r_def day_us_def)
  have t: "t = day_us * (t div day_us) + r" by (simp add: r_def)
  have dt: "dt = \<lparr>dt_year = y, dt_month = m, dt_day = d, dt_hour = r div 3600000000,
      dt_minute = r div 60000000 mod 60, dt_second = r div 1000000 mod 60,
      dt_micro = r mod 1000000, dt_fold = 0, dt_aware = False\<rparr>"
    using assms range ymd by (simp add: of_micros_def Let_def r_def)
  have lo: "ordinal 1 1 1 \<le> t div day_us"
    using range(1) t r by (simp add: first_micro_def first_minute_def day_us_def minute_us_def)
  have hi: "t div day_us \<le> ordinal 9999 12 31"
    using range(2) t r by (simp add: last_micro_def last_minute_def day_us_def minute_us_def)
  have v: "valid_date y m d" "ordinal y m d = t div day_us"
    using date_of_ordinal [OF lo hi ymd] by simp_all
  have h: "r div 3600000000 \<le> 23" using r by (simp add: day_us_def)
  have parts: "(r div 3600000000) * 60 + r div 60000000 mod 60 = r div 60000000"
    "(r div 60000000) * 60 + r div 1000000 mod 60 = r div 1000000"
    using mult_div_mod_eq [of 60 "r div 60000000"] mult_div_mod_eq [of 60 "r div 1000000"]
    by (simp_all add: zdiv_zmult2_eq [symmetric])
  show "micros dt = t"
  proof -
    have "abs_minutes dt = (t div day_us) * 1440 + r div 60000000"
      using parts(1) v(2) by (simp add: abs_minutes_def dt)
    moreover have "dt_second dt = r div 1000000 mod 60" "dt_micro dt = r mod 1000000"
      by (simp_all add: dt)
    moreover have "t = 86400000000 * (t div day_us) + r" using t by (simp only: day_us_def)
    moreover have "1000000 * (r div 1000000) + r mod 1000000 = r" by (rule mult_div_mod_eq)
    ultimately show ?thesis using parts(2) unfolding micros_def minute_us_def by linarith
  qed
  have "0 \<le> r div 3600000000" using r by (simp add: pos_imp_zdiv_nonneg_iff)
  moreover have "x mod 60 \<le> 59" "x mod 1000000 \<le> 999999" for x :: int
    using pos_mod_bound [of 60 x] pos_mod_bound [of 1000000 x] by linarith+
  ultimately show "full_dt dt" using v(1) h by (simp add: full_dt_def valid_dt_def dt)
  show "dt_fold dt = 0" "\<not> dt_aware dt" by (simp_all add: dt)
qed

lemma of_micros_ok: "first_micro \<le> t \<Longrightarrow> t \<le> last_micro \<Longrightarrow> \<exists>dt. of_micros t = Inr dt"
  by (auto simp: of_micros_def Let_def split: prod.splits)

lemma micros_range: "full_dt dt \<Longrightarrow> first_micro \<le> micros dt \<and> micros dt \<le> last_micro"
  using valid_dt_range [of dt]
  by (auto simp: full_dt_def micros_def first_micro_def last_micro_def minute_us_def)

end
