(* ===== verification/Trigger.thy ===== *)
theory Trigger
  imports TickFacts Clock
begin

text \<open>
  The \<open>Trigger\<close> protocol of \<open>src/django_ox/schedules.py\<close>: one method, the latest tick at
  or before a datetime, answered from the definition and the clock alone.  The locale states what a
  trigger promises; cron expressions and epoch-anchored intervals both keep it.
\<close>

datatype trigger_error = CronFailed walk_error | AwareClock | IntervalOverflow | ZeroInterval

section \<open>Interval triggers\<close>

definition interval_epoch :: datetime where
  "interval_epoch = at_time 1970 1 1 0 0"

text \<open>\<open>MIN_INTERVAL\<close> and \<open>MAX_INTERVAL\<close>, in microseconds.\<close>

definition min_interval :: int where
  "min_interval = 1000000"

definition max_interval :: int where
  "max_interval = micros interval_epoch - micros (at_time 1 1 1 0 0)"

definition with_fold :: "int \<Rightarrow> datetime \<Rightarrow> datetime" where
  "with_fold f dt = dt\<lparr>dt_fold := f\<rparr>"

text \<open>\<open>IntervalTrigger.previous\<close>\<close>

definition interval_previous :: "int \<Rightarrow> int \<Rightarrow> datetime \<Rightarrow> trigger_error + datetime" where
  "interval_previous every phase dt =
     (if dt_aware dt then Inl AwareClock
      else if every = 0 then Inl ZeroInterval
      else (let elapsed = micros dt - micros interval_epoch - phase in
        case add_micros interval_epoch (elapsed div every * every) of
          Inl _ \<Rightarrow> Inl IntervalOverflow
        | Inr step \<Rightarrow>
            (case add_micros step phase of
               Inl _ \<Rightarrow> Inl IntervalOverflow
             | Inr tick \<Rightarrow> Inr (with_fold (dt_fold dt) tick))))"

definition interval_due :: "int \<Rightarrow> int \<Rightarrow> datetime \<Rightarrow> bool" where
  "interval_due every phase dt = ((micros dt - micros interval_epoch - phase) mod every = 0)"

definition interval_ok :: "int \<Rightarrow> int \<Rightarrow> bool" where
  "interval_ok every phase = (min_interval \<le> every \<and> every \<le> max_interval \<and> 0 \<le> phase \<and> phase < every)"

section \<open>Cron triggers on the microsecond line\<close>

definition cron_due :: "cron \<Rightarrow> datetime \<Rightarrow> bool" where
  "cron_due c dt = (matches c dt \<and> dt_second dt = 0 \<and> dt_micro dt = 0)"

definition cron_previous :: "cron \<Rightarrow> datetime \<Rightarrow> (trigger_error + datetime) option" where
  "cron_previous c dt =
     map_option (\<lambda>r. case r of Inl e \<Rightarrow> Inl (CronFailed e) | Inr x \<Rightarrow> Inr x) (previous c dt)"

datatype trigger = CronTrigger cron | IntervalTrigger int int

fun trigger_previous :: "trigger \<Rightarrow> datetime \<Rightarrow> (trigger_error + datetime) option" where
  "trigger_previous (CronTrigger c) dt = cron_previous c dt"
| "trigger_previous (IntervalTrigger every phase) dt = Some (interval_previous every phase dt)"

fun trigger_due :: "trigger \<Rightarrow> datetime \<Rightarrow> bool" where
  "trigger_due (CronTrigger c) dt = cron_due c dt"
| "trigger_due (IntervalTrigger every phase) dt = interval_due every phase dt"

fun trigger_ok :: "trigger \<Rightarrow> bool" where
  "trigger_ok (CronTrigger c) = cron_ok c"
| "trigger_ok (IntervalTrigger every phase) = interval_ok every phase"

section \<open>What a trigger promises\<close>

locale ticker =
  fixes ok :: "'t \<Rightarrow> bool"
    and due :: "'t \<Rightarrow> datetime \<Rightarrow> bool"
    and latest :: "'t \<Rightarrow> datetime \<Rightarrow> (trigger_error + datetime) option"
  assumes latest_ends: "ok t \<Longrightarrow> full_dt dt \<Longrightarrow> \<exists>r. latest t dt = Some r"
    and latest_tick: "ok t \<Longrightarrow> full_dt dt \<Longrightarrow> latest t dt = Some (Inr r) \<Longrightarrow>
      full_dt r \<and> due t r \<and> micros r \<le> micros dt"
    and latest_last: "ok t \<Longrightarrow> full_dt dt \<Longrightarrow> latest t dt = Some (Inr r) \<Longrightarrow>
      full_dt x \<Longrightarrow> due t x \<Longrightarrow> micros x \<le> micros dt \<Longrightarrow> micros x \<le> micros r"
begin

lemma later_clock:
  assumes "ok t" "full_dt a" "full_dt b" "micros a \<le> micros b"
    and "latest t a = Some (Inr r)" "latest t b = Some (Inr q)"
  shows "micros r \<le> micros q"
  using latest_tick [OF assms(1,2,5)] assms by (blast intro: latest_last order_trans)

lemma no_tick_between:
  assumes "ok t" "full_dt a" "full_dt b" "micros a \<le> micros b"
    and "latest t a = Some (Inr r)" "latest t b = Some (Inr q)"
    and "micros q \<le> micros a"
  shows "micros q = micros r"
  using later_clock [OF assms(1-6)] latest_tick [OF assms(1,3,6)] assms
  by (blast intro: latest_last antisym)

lemma tick_of_tick:
  assumes "ok t" "full_dt a" "latest t a = Some (Inr r)" "latest t r = Some (Inr q)"
  shows "micros q = micros r"
proof -
  note r = latest_tick [OF assms(1-3)]
  then have fr: "full_dt r" by simp
  from latest_tick [OF assms(1) fr assms(4)] have "micros q \<le> micros r" by simp
  moreover from latest_last [OF assms(1) fr assms(4), of r] r have "micros r \<le> micros q" by simp
  ultimately show ?thesis by simp
qed

end

section \<open>Intervals keep it\<close>

lemma micros_fold [simp]: "micros (with_fold f dt) = micros dt"
  by (simp add: micros_def abs_minutes_def with_fold_def)

lemma full_dt_fold [simp]: "full_dt (with_fold f dt) = full_dt dt"
  by (simp add: full_dt_def valid_dt_def with_fold_def)

lemma micros_epoch: "micros interval_epoch = max_interval + first_micro"
  by (simp add: max_interval_def micros_def first_micro_def first_minute_def abs_minutes_def)

lemma interval_previous_micros:
  assumes "interval_previous every phase dt = Inr r"
  shows "micros r = micros interval_epoch + phase
      + (micros dt - micros interval_epoch - phase) div every * every"
    and "full_dt r" "every \<noteq> 0" "dt_fold r = dt_fold dt" "\<not> dt_aware dt"
proof -
  let ?q = "(micros dt - micros interval_epoch - phase) div every * every"
  have "\<not> dt_aware dt \<and> every \<noteq> 0 \<and> (\<exists>s t. add_micros interval_epoch ?q = Inr s
      \<and> add_micros s phase = Inr t \<and> r = with_fold (dt_fold dt) t)"
    using assms by (auto simp: interval_previous_def Let_def split: if_splits sum.splits)
  then obtain s t where c: "\<not> dt_aware dt" "every \<noteq> 0" and s: "of_micros (micros interval_epoch + ?q) = Inr s"
    and t: "of_micros (micros s + phase) = Inr t" and r: "r = with_fold (dt_fold dt) t"
    unfolding add_micros_def by blast
  show "micros r = micros interval_epoch + phase + ?q"
    using micros_of_micros(1) [OF s] micros_of_micros(1) [OF t] r by simp
  show "full_dt r" using micros_of_micros(2) [OF t] r by simp
  show "every \<noteq> 0" "\<not> dt_aware dt" by fact+
  show "dt_fold r = dt_fold dt" by (simp add: r with_fold_def)
qed

lemma interval_previous_tick:
  assumes pos: "0 < every" and p: "interval_previous every phase dt = Inr r"
  shows "full_dt r \<and> interval_due every phase r \<and> micros r \<le> micros dt
    \<and> micros dt < micros r + every"
proof -
  let ?e = "micros dt - micros interval_epoch - phase"
  note r = interval_previous_micros [OF p]
  have "?e div every * every = ?e - ?e mod every" by (rule div_mult_mod_eq [of ?e every, THEN eq_diff_eq [THEN iffD2]])
  then have "micros r = micros dt - ?e mod every" using r(1) by simp
  moreover have "0 \<le> ?e mod every" "?e mod every < every" using pos by simp_all
  moreover have "interval_due every phase r" unfolding interval_due_def r(1) by simp
  ultimately show ?thesis using r(2) by simp
qed

lemma interval_due_gap:
  assumes "0 < every" "interval_due every phase a" "interval_due every phase b" "micros a < micros b"
  shows "micros a + every \<le> micros b"
proof -
  have "(micros b - micros a) mod every = 0"
    using assms(2,3) unfolding interval_due_def by (metis diff_diff_eq2 diff_add_cancel mod_diff_eq diff_zero mod_0 diff_right_commute)
  then have "every dvd micros b - micros a" by (simp add: mod_eq_0_iff_dvd)
  then show ?thesis using assms(4) zdvd_imp_le [of every "micros b - micros a"] by simp
qed

text \<open>From the epoch on, an accepted interval's latest tick is an instant a datetime can say.\<close>

lemma interval_previous_ok:
  assumes "interval_ok every phase" "full_dt dt" "\<not> dt_aware dt" "micros interval_epoch \<le> micros dt"
  shows "\<exists>r. interval_previous every phase dt = Inr r"
proof -
  let ?e = "micros dt - micros interval_epoch - phase"
  let ?q = "?e div every * every"
  have ok: "0 < every" "every \<le> max_interval" "0 \<le> phase" "phase < every"
    using assms(1) by (simp_all add: interval_ok_def min_interval_def)
  have mod: "?q = ?e - ?e mod every" "0 \<le> ?e mod every" "?e mod every < every"
    using ok(1) by (simp_all add: minus_mod_eq_div_mult)
  have "- every < ?e" using assms(4) ok by simp
  then have "- 1 \<le> ?e div every" using ok(1) pos_imp_zdiv_neg_iff
    by (metis div_minus1_right div_neg_pos_less0 linorder_not_less minus_less_iff zdiv_mono1
        nonzero_mult_div_cancel_right mult_minus1 order_less_imp_le less_irrefl)
  then have "- every \<le> ?q" using ok(1) mult_right_mono [of "- 1" "?e div every" every] by simp
  then have lo: "first_micro \<le> micros interval_epoch + ?q" using ok micros_epoch by simp
  have hi: "micros interval_epoch + ?q \<le> last_micro" "micros interval_epoch + ?q + phase \<le> last_micro"
    using mod ok micros_range [OF assms(2)] by linarith+
  obtain s where s: "add_micros interval_epoch ?q = Inr s"
    using of_micros_ok [OF lo hi(1)] by (auto simp: add_micros_def)
  then have "micros s = micros interval_epoch + ?q" using micros_of_micros by (simp add: add_micros_def)
  then obtain t where "add_micros s phase = Inr t"
    using of_micros_ok [of "micros s + phase"] lo hi ok by (auto simp: add_micros_def)
  with s ok assms(3) show ?thesis by (simp add: interval_previous_def Let_def)
qed

text \<open>One microsecond more, and every clock reading before the first phase raises.\<close>

lemma interval_too_long:
  assumes "max_interval < every" "phase < every" "\<not> dt_aware dt"
    and "micros interval_epoch \<le> micros dt" "micros dt < micros interval_epoch + phase"
  shows "interval_previous every phase dt = Inl IntervalOverflow"
proof -
  let ?e = "micros dt - micros interval_epoch - phase"
  have pos: "0 < every" using assms by linarith
  have "?e div every = - 1"
    by (rule int_div_pos_eq [where r = "?e + every"]) (use assms pos in linarith)+
  then have "add_micros interval_epoch (?e div every * every) = Inl DateOverflow"
    using assms(1) micros_epoch by (simp add: add_micros_def of_micros_def)
  then show ?thesis using pos assms(3) by (simp add: interval_previous_def Let_def)
qed

section \<open>Cron expressions keep it\<close>

definition whole_minute :: "datetime \<Rightarrow> bool" where
  "whole_minute dt = (dt_second dt = 0 \<and> dt_micro dt = 0)"

lemma whole_at_time [simp]: "whole_minute (at_time y m d h mi)"
  by (simp add: whole_minute_def)

lemma whole_floored [simp]: "whole_minute (floored dt)"
  by (simp add: whole_minute_def floored_def)

definition whole_walk :: "walk \<Rightarrow> bool" where
  "whole_walk w = (case w of Go dt \<Rightarrow> whole_minute dt | Found dt \<Rightarrow> whole_minute dt | Raised _ \<Rightarrow> True)"

lemma whole_prev [simp]:
  "whole_walk (go (prev_month_end dt))" "whole_walk (go (prev_day_end dt))" "whole_walk (go (prev_hour_end dt))"
  by (simp_all add: prev_month_end_def prev_day_end_def prev_hour_end_def go_def whole_walk_def Let_def)

lemma whole_Go [simp]: "whole_walk (Go dt) = whole_minute dt" "whole_walk (Found dt) = whole_minute dt"
  by (simp_all add: whole_walk_def)

lemma whole_fields [simp]:
  "whole_minute (dt\<lparr>dt_minute := m\<rparr>) = whole_minute dt"
  "whole_minute (dt\<lparr>dt_hour := h\<rparr>) = whole_minute dt"
  by (simp_all add: whole_minute_def)

lemma backward_body_whole: "whole_minute cur \<Longrightarrow> whole_walk (backward_body c cur)"
  by (cases c cur rule: backward_body_cases) simp_all

lemma walk_step_whole: "whole_walk w \<Longrightarrow> whole_walk (walk_step (backward_body c) w)"
  by (cases w) (simp_all add: walk_step_def backward_body_whole)

lemma previous_whole:
  assumes "previous c dt = Some (Inr r)"
  shows "whole_minute r"
proof -
  from previous_InrD [OF assms] obtain w where
    "while_option w (walk_step (backward_body c)) (Go (floored dt)) = Some (Found r)"
    unfolding walk_while_def by blast
  then have "whole_walk (Found r)"
    by (rule while_option_rule [rotated, where P = whole_walk])
       (simp_all add: walk_step_whole)
  then show ?thesis by simp
qed

lemma micros_minutes:
  "full_dt dt \<Longrightarrow> abs_minutes dt * minute_us \<le> micros dt \<and> micros dt < (abs_minutes dt + 1) * minute_us"
  by (auto simp: full_dt_def micros_def minute_us_def)

lemma micros_whole: "whole_minute dt \<Longrightarrow> micros dt = abs_minutes dt * minute_us"
  by (simp add: whole_minute_def micros_def)

lemma whole_le_iff:
  assumes "whole_minute a" "full_dt b"
  shows "micros a \<le> micros b \<longleftrightarrow> abs_minutes a \<le> abs_minutes b"
proof -
  have "micros b < abs_minutes b * 60000000 + 60000000" "abs_minutes b * 60000000 \<le> micros b"
    using micros_minutes [OF assms(2)] by (simp_all add: minute_us_def algebra_simps)
  moreover have "micros a = abs_minutes a * 60000000"
    using micros_whole [OF assms(1)] by (simp add: minute_us_def)
  ultimately show ?thesis by linarith
qed

lemma cron_previous_tick:
  assumes ok: "cron_ok c" and f: "full_dt dt" and p: "cron_previous c dt = Some (Inr r)"
  shows "full_dt r \<and> cron_due c r \<and> micros r \<le> micros dt
    \<and> (\<forall>x. full_dt x \<longrightarrow> cron_due c x \<longrightarrow> micros x \<le> micros dt \<longrightarrow> micros x \<le> micros r)"
proof -
  from p obtain z where z: "previous c dt = Some z" "(case z of Inl e \<Rightarrow> Inl (CronFailed e) | Inr x \<Rightarrow> Inr x) = Inr r"
    by (auto simp: cron_previous_def)
  then have p': "previous c dt = Some (Inr r)" by (cases z) simp_all
  from f have v: "valid_dt dt" by (simp add: full_dt_def)
  note w = previous_whole [OF p'] and l = previous_latest_tick [OF ok v p']
  have fr: "full_dt r" using l w by (simp add: full_dt_def whole_minute_def)
  show ?thesis
  proof (intro conjI allI impI)
    show "full_dt r" by (rule fr)
    show "cron_due c r" using l w by (simp add: cron_due_def whole_minute_def)
    show "micros r \<le> micros dt" using l whole_le_iff [OF w f] by simp
    fix x assume x: "full_dt x" "cron_due c x" "micros x \<le> micros dt"
    then have wx: "whole_minute x" by (simp add: cron_due_def whole_minute_def)
    from x(3) have "abs_minutes x \<le> abs_minutes dt" using whole_le_iff [OF wx f] by simp
    moreover have "valid_dt x" "matches c x" using x by (simp_all add: full_dt_def cron_due_def)
    ultimately have "abs_minutes x \<le> abs_minutes r" using l by (meson linorder_not_less)
    then show "micros x \<le> micros r" using whole_le_iff [OF wx fr] by simp
  qed
qed

lemma cron_previous_ends: "cron_ok c \<Longrightarrow> full_dt dt \<Longrightarrow> \<exists>r. cron_previous c dt = Some r"
  using previous_total [of c dt] by (auto simp: cron_previous_def full_dt_def)

section \<open>The interpretations\<close>

interpretation cron_ticker: ticker cron_ok cron_due cron_previous
  by unfold_locales (use cron_previous_ends cron_previous_tick in blast)+

interpretation interval_ticker: ticker "\<lambda>(e, p). interval_ok e p" "\<lambda>(e, p). interval_due e p"
  "\<lambda>(e, p) dt. Some (interval_previous e p dt)"
proof (unfold_locales, goal_cases)
  case (1 t dt) then show ?case by (cases t) simp
next
  case (2 t dt r)
  obtain e p where t: "t = (e, p)" by (cases t)
  with 2 have "0 < e" "interval_previous e p dt = Inr r" by (simp_all add: interval_ok_def min_interval_def)
  from interval_previous_tick [OF this] show ?case by (simp add: t)
next
  case (3 t dt r x)
  obtain e p where t: "t = (e, p)" by (cases t)
  with 3 have e: "0 < e" by (simp add: interval_ok_def min_interval_def)
  from 3 t have x: "interval_due e p x" and i: "interval_previous e p dt = Inr r" by simp_all
  note q = interval_previous_tick [OF e i]
  show ?case using interval_due_gap [OF e _ x, of r] q 3(6) by (cases "micros r < micros x") auto
qed

interpretation trig: ticker trigger_ok trigger_due trigger_previous
proof (unfold_locales, goal_cases)
  case (1 t dt) then show ?case using cron_previous_ends by (cases t) auto
next
  case (2 t dt r)
  show ?case
  proof (cases t)
    case (CronTrigger c) with 2 cron_ticker.latest_tick [of c dt r] show ?thesis by simp
  next
    case (IntervalTrigger e p)
    with 2 interval_ticker.latest_tick [of "(e, p)" dt r] show ?thesis by simp
  qed
next
  case (3 t dt r x)
  show ?case
  proof (cases t)
    case (CronTrigger c) with 3 cron_ticker.latest_last [of c dt r x] show ?thesis by simp
  next
    case (IntervalTrigger e p)
    with 3 interval_ticker.latest_last [of "(e, p)" dt r x] show ?thesis by simp
  qed
qed

end
