(* ===== verification/Schedules.thy ===== *)
theory Schedules
  imports Trigger PyVal "HOL-Library.Char_ord" "HOL-Library.List_Lexorder"
begin

text \<open>
  Schedules from settings (\<open>src/django_ox/schedules.py\<close>): the schedule record, the parser of
  \<open>OPTIONS["SCHEDULES"]\<close> with every refusal as an error value, and the two checks that look for
  schedule names that would share ticks.  Importing a dotted path, \<open>Task.using\<close>'s validation and
  JSON normalisation are the framework's and are parameters.
\<close>

section \<open>Schedules\<close>

record task_decl =
  td_path :: string
  td_backend :: string
  td_queue :: pyval
  td_priority :: pyval

record schedule =
  sched_name :: string
  sched_task :: task_decl
  sched_trigger :: trigger
  sched_args :: "pyval list"
  sched_kwargs :: "(pyval \<times> pyval) list"
  start_time :: "int option"
  end_time :: "int option"
  starting_deadline :: "int option"
  anchors :: bool
  dispatch_key :: string

text \<open>\<open>Schedule.key\<close> and \<open>Schedule.cron\<close>\<close>

definition schedule_key :: "schedule \<Rightarrow> string" where
  "schedule_key s = (if dispatch_key s = [] then sched_name s else dispatch_key s)"

definition schedule_cron :: "schedule \<Rightarrow> cron option" where
  "schedule_cron s = (case sched_trigger s of CronTrigger c \<Rightarrow> Some c | IntervalTrigger _ _ \<Rightarrow> None)"

section \<open>The parser\<close>

datatype resolved = ImportFailed | NotATask | ATask task_decl

record framework =
  resolve :: "pyval \<Rightarrow> resolved"
  valid_task :: "task_decl \<Rightarrow> bool"
  json_ok :: "pyval \<Rightarrow> bool"

datatype schedule_error =
    SchedulesNotMapping
  | BadName pyval
  | ReservedName string
  | NameTooLong string
  | ConfigNotMapping string
  | UnknownKeys string "pyval list"
  | MissingTask string
  | CronXorEvery string
  | PhaseWithoutEvery string
  | CannotImport string
  | NotTask string
  | CronNotText string
  | BadCron string cron_error
  | IntervalType string string
  | IntervalNotFinite string string
  | NotADelta string string
  | EveryTooShort string int
  | EveryTooLong string int
  | BadPhase string
  | ArgsNotList string
  | KwargsNotDict string
  | NotJson string
  | InvalidTask string

definition schedule_name_max_length :: nat where
  "schedule_name_max_length = 128"

definition stored_key_prefix :: string where
  "stored_key_prefix = ''db:''"

definition schedule_keys :: "string list" where
  "schedule_keys = [''task'', ''cron'', ''every'', ''phase'', ''args'', ''kwargs'', ''queue_name'', ''priority'']"

text \<open>\<open>_as_interval\<close>, in microseconds.\<close>

definition as_interval :: "pyval \<Rightarrow> string \<Rightarrow> string \<Rightarrow> schedule_error + int" where
  "as_interval v name k =
     (case v of
        PyDelta us \<Rightarrow> Inr us
      | PyInt n \<Rightarrow> (case seconds_delta (of_int n) of None \<Rightarrow> Inl (NotADelta name k) | Some us \<Rightarrow> Inr us)
      | PyFloat q \<Rightarrow> (case seconds_delta q of None \<Rightarrow> Inl (NotADelta name k) | Some us \<Rightarrow> Inr us)
      | PyNan \<Rightarrow> Inl (IntervalNotFinite name k)
      | PyInfinity _ \<Rightarrow> Inl (IntervalNotFinite name k)
      | _ \<Rightarrow> Inl (IntervalType name k))"

definition has_prefix :: "string \<Rightarrow> string \<Rightarrow> bool" where
  "has_prefix p s = (take (length p) s = p)"

definition checked_name :: "pyval \<Rightarrow> schedule_error + string" where
  "checked_name n =
     (case n of
        PyStr s \<Rightarrow>
          if s = [] then Inl (BadName n)
          else if has_prefix stored_key_prefix s then Inl (ReservedName s)
          else if schedule_name_max_length < length s then Inl (NameTooLong s)
          else Inr s
      | _ \<Rightarrow> Inl (BadName n))"

definition checked_keys :: "string \<Rightarrow> (pyval \<times> pyval) list \<Rightarrow> schedule_error + pyval" where
  "checked_keys name d =
     (let unknown = filter (\<lambda>k. k \<notin> set (map PyStr schedule_keys)) (map fst d) in
      if unknown \<noteq> [] then Inl (UnknownKeys name unknown)
      else (case dict_get d ''task'' of
              None \<Rightarrow> Inl (MissingTask name)
            | Some t \<Rightarrow>
                if dict_has d ''cron'' = dict_has d ''every'' then Inl (CronXorEvery name)
                else if dict_has d ''phase'' \<and> \<not> dict_has d ''every'' then Inl (PhaseWithoutEvery name)
                else Inr t))"

definition checked_task :: "framework \<Rightarrow> string \<Rightarrow> pyval \<Rightarrow> schedule_error + task_decl" where
  "checked_task fw name v =
     (case resolve fw v of
        ImportFailed \<Rightarrow> Inl (CannotImport name)
      | NotATask \<Rightarrow> Inl (NotTask name)
      | ATask t \<Rightarrow> Inr t)"

definition interval_trigger :: "string \<Rightarrow> (pyval \<times> pyval) list \<Rightarrow> pyval \<Rightarrow> schedule_error + trigger" where
  "interval_trigger name d e =
     rbind (as_interval e name ''every'') (\<lambda>every.
       if every < min_interval then Inl (EveryTooShort name every)
       else if max_interval < every then Inl (EveryTooLong name every)
       else rbind (case dict_get d ''phase'' of None \<Rightarrow> Inr 0 | Some p \<Rightarrow> as_interval p name ''phase'') (\<lambda>phase.
         if phase < 0 \<or> every \<le> phase then Inl (BadPhase name)
         else Inr (IntervalTrigger every phase)))"

definition checked_trigger :: "string \<Rightarrow> (pyval \<times> pyval) list \<Rightarrow> schedule_error + trigger" where
  "checked_trigger name d =
     (case dict_get d ''cron'' of
        Some (PyStr text) \<Rightarrow>
          (case parse_cron text of Inl e \<Rightarrow> Inl (BadCron name e) | Inr c \<Rightarrow> Inr (CronTrigger c))
      | Some _ \<Rightarrow> Inl (CronNotText name)
      | None \<Rightarrow>
          (case dict_get d ''every'' of Some e \<Rightarrow> interval_trigger name d e | None \<Rightarrow> Inl (CronXorEvery name)))"

definition checked_args :: "framework \<Rightarrow> string \<Rightarrow> (pyval \<times> pyval) list
    \<Rightarrow> schedule_error + pyval list \<times> (pyval \<times> pyval) list" where
  "checked_args fw name d =
     (let args = (case dict_get d ''args'' of None \<Rightarrow> PyList [] | Some v \<Rightarrow> v);
          kwargs = (case dict_get d ''kwargs'' of None \<Rightarrow> PyDict [] | Some v \<Rightarrow> v)
      in case (case args of PyList xs \<Rightarrow> Some xs | PyTuple xs \<Rightarrow> Some xs | _ \<Rightarrow> None) of
           None \<Rightarrow> Inl (ArgsNotList name)
         | Some xs \<Rightarrow>
             (case kwargs of
                PyDict kw \<Rightarrow>
                  if json_ok fw (PyList xs) \<and> json_ok fw kwargs then Inr (xs, kw) else Inl (NotJson name)
              | _ \<Rightarrow> Inl (KwargsNotDict name)))"

text \<open>The overrides, and \<open>Task.using\<close> where there are any.\<close>

definition override :: "string \<Rightarrow> (pyval \<times> pyval) list \<Rightarrow> task_decl \<Rightarrow> task_decl" where
  "override alias d t =
     t\<lparr>td_queue := (case dict_get d ''queue_name'' of Some v \<Rightarrow> v | None \<Rightarrow> td_queue t),
       td_priority := (case dict_get d ''priority'' of Some v \<Rightarrow> v | None \<Rightarrow> td_priority t),
       td_backend := alias\<rparr>"

definition using_backend ::
  "framework \<Rightarrow> string \<Rightarrow> string \<Rightarrow> (pyval \<times> pyval) list \<Rightarrow> task_decl \<Rightarrow> schedule_error + task_decl" where
  "using_backend fw alias name d t =
     (if \<not> dict_has d ''queue_name'' \<and> \<not> dict_has d ''priority'' \<and> td_backend t = alias then Inr t
      else if valid_task fw (override alias d t) then Inr (override alias d t)
      else Inl (InvalidTask name))"

text \<open>One entry of the mapping, in the order of the code's checks.\<close>

definition parse_entry :: "framework \<Rightarrow> string \<Rightarrow> pyval \<times> pyval \<Rightarrow> schedule_error + schedule" where
  "parse_entry fw alias entry =
     rbind (checked_name (fst entry)) (\<lambda>name.
     case snd entry of
       PyDict d \<Rightarrow>
         rbind (checked_keys name d) (\<lambda>path.
         rbind (checked_task fw name path) (\<lambda>t.
         rbind (checked_trigger name d) (\<lambda>trig.
         rbind (checked_args fw name d) (\<lambda>(args, kwargs).
         rbind (using_backend fw alias name d t) (\<lambda>task.
           Inr \<lparr>sched_name = name, sched_task = task, sched_trigger = trig, sched_args = args,
                sched_kwargs = kwargs, start_time = None, end_time = None, starting_deadline = None,
                anchors = True, dispatch_key = []\<rparr>)))))
     | _ \<Rightarrow> Inl (ConfigNotMapping name))"

definition schedules_from_options :: "framework \<Rightarrow> (pyval \<times> pyval) list \<Rightarrow> string \<Rightarrow> schedule_error + schedule list" where
  "schedules_from_options fw options alias =
     (case (case dict_get options ''SCHEDULES'' of None \<Rightarrow> PyDict [] | Some v \<Rightarrow> v) of
        PyDict items \<Rightarrow> rmap (parse_entry fw alias) items
      | _ \<Rightarrow> Inl SchedulesNotMapping)"

section \<open>Names\<close>

text \<open>\<open>TASKS\<close>, given as each alias with the value of its \<open>OPTIONS["SCHEDULES"]\<close>; names are
  ASCII text.\<close>

definition names_of :: "pyval \<Rightarrow> string list" where
  "names_of raw =
     (case raw of
        PyDict items \<Rightarrow> sort (remdups (List.map_filter (\<lambda>k. case k of PyStr s \<Rightarrow> Some s | _ \<Rightarrow> None) (map fst items)))
      | _ \<Rightarrow> [])"

definition names_at :: "(string \<times> pyval) list \<Rightarrow> string \<Rightarrow> string list" where
  "names_at tasks alias = (case map_of tasks alias of None \<Rightarrow> [] | Some raw \<Rightarrow> names_of raw)"

definition schedule_name_collisions :: "(string \<times> pyval) list \<Rightarrow> string \<Rightarrow> (string \<times> string) list" where
  "schedule_name_collisions tasks alias =
     (let own = names_at tasks alias in
      concat (map (\<lambda>a. map (\<lambda>n. (n, a)) (filter (\<lambda>n. n \<in> set own) (names_at tasks a)))
        (filter (\<lambda>a. a \<noteq> alias) (map fst tasks))))"

fun fold_names :: "(string \<times> string) list \<Rightarrow> string list \<Rightarrow> (string \<times> string) list" where
  "fold_names memo [] = []"
| "fold_names memo (n # ns) =
     (case map_of memo (lower n) of
        Some other \<Rightarrow> if other \<noteq> n then (other, n) # fold_names memo ns else fold_names memo ns
      | None \<Rightarrow> fold_names ((lower n, n) # memo) ns)"

definition schedule_names_folding_together :: "(string \<times> pyval) list \<Rightarrow> (string \<times> string) list" where
  "schedule_names_folding_together tasks =
     fold_names [] (concat (map (names_at tasks) (sort (map fst tasks))))"

section \<open>What parsing guarantees\<close>

lemma as_interval_Inr_delta: "as_interval (PyDelta us) name k = Inr us"
  by (simp add: as_interval_def)

lemma checked_trigger_ok: "checked_trigger name d = Inr t \<Longrightarrow> trigger_ok t"
  unfolding checked_trigger_def interval_trigger_def
  by (auto simp: rbind_Inr_iff interval_ok_def dest: parse_cron_ok
      split: option.splits pyval.splits sum.splits if_splits)

lemma checked_name_ok:
  "checked_name n = Inr s \<Longrightarrow> n = PyStr s \<and> s \<noteq> [] \<and> \<not> has_prefix stored_key_prefix s
     \<and> length s \<le> schedule_name_max_length"
  by (auto simp: checked_name_def split: pyval.splits if_splits)

lemma using_backend_alias: "using_backend fw alias name d t = Inr t' \<Longrightarrow> td_backend t' = alias"
  by (auto simp: using_backend_def override_def split: if_splits)

definition settings_schedule_ok :: "string \<Rightarrow> schedule \<Rightarrow> bool" where
  "settings_schedule_ok alias s =
     (trigger_ok (sched_trigger s) \<and> sched_name s \<noteq> [] \<and> \<not> has_prefix stored_key_prefix (sched_name s)
      \<and> length (sched_name s) \<le> schedule_name_max_length \<and> td_backend (sched_task s) = alias
      \<and> schedule_key s = sched_name s \<and> anchors s \<and> start_time s = None)"

lemma parse_entry_ok:
  assumes "parse_entry fw alias entry = Inr s"
  shows "settings_schedule_ok alias s \<and> fst entry = PyStr (sched_name s)"
proof -
  from assms obtain name d where n: "checked_name (fst entry) = Inr name" and e: "snd entry = PyDict d"
    unfolding parse_entry_def rbind_Inr_iff by (cases "snd entry") auto
  from assms obtain path t trig args kwargs task where
    tr: "checked_trigger name d = Inr trig" and us: "using_backend fw alias name d t = Inr task"
    and s: "s = \<lparr>sched_name = name, sched_task = task, sched_trigger = trig, sched_args = args,
      sched_kwargs = kwargs, start_time = None, end_time = None, starting_deadline = None,
      anchors = True, dispatch_key = []\<rparr>"
    unfolding parse_entry_def n e rbind_simps pyval.case by (auto simp: rbind_Inr_iff)
  from checked_trigger_ok [OF tr] using_backend_alias [OF us] checked_name_ok [OF n] s
  show ?thesis by (simp add: settings_schedule_ok_def schedule_key_def)
qed

lemma schedules_from_options_ok:
  assumes "schedules_from_options fw options alias = Inr ss" "s \<in> set ss"
  shows "settings_schedule_ok alias s"
  using assms parse_entry_ok
  by (fastforce simp: schedules_from_options_def split: pyval.splits dest: rmap_Inr_set)

lemma fresh_name_iff:
  assumes "m (f n) = None"
  shows "((\<forall>a \<in> N. \<forall>b \<in> N. f a = f b \<longrightarrow> a = b)
      \<and> (\<forall>a \<in> N. \<forall>b. (m(f n \<mapsto> n)) (f a) = Some b \<longrightarrow> a = b)) =
    ((\<forall>a \<in> insert n N. \<forall>b \<in> insert n N. f a = f b \<longrightarrow> a = b)
      \<and> (\<forall>a \<in> insert n N. \<forall>b. m (f a) = Some b \<longrightarrow> a = b))" (is "?l = ?r")
proof
  assume l: ?l
  have "m (f a) = Some b \<longrightarrow> f a \<noteq> f n" for a b using assms by (cases "f a = f n") simp_all
  moreover have "f a = f n \<longrightarrow> a = n" if "a \<in> N" for a using l that by auto
  moreover have "a = b" if "a \<in> N" "m (f a) = Some b" for a b
    using l that assms by (metis fun_upd_other option.distinct(1))
  ultimately show ?r using l assms by (metis insert_iff option.distinct(1))
next
  assume r: ?r
  then have "a = b" if "a \<in> N" "(m(f n \<mapsto> n)) (f a) = Some b" for a b
    using that by (cases "f a = f n") auto
  with r show ?l by blast
qed

lemma known_name_iff:
  assumes "m (f n) = Some n"
  shows "((\<forall>a \<in> N. \<forall>b \<in> N. f a = f b \<longrightarrow> a = b)
      \<and> (\<forall>a \<in> N. \<forall>b. m (f a) = Some b \<longrightarrow> a = b)) =
    ((\<forall>a \<in> insert n N. \<forall>b \<in> insert n N. f a = f b \<longrightarrow> a = b)
      \<and> (\<forall>a \<in> insert n N. \<forall>b. m (f a) = Some b \<longrightarrow> a = b))"
    (is "?l = ?r")
proof
  assume l: ?l
  then have "f a = f n \<longrightarrow> a = n" if "a \<in> N" for a using assms that by simp
  with l assms show ?r by (metis insert_iff option.inject)
qed simp

text \<open>No pair is reported exactly when no two different names fold together.\<close>

lemma fold_names_Nil:
  assumes "\<And>k v. map_of memo k = Some v \<Longrightarrow> lower v = k"
  shows "fold_names memo ns = [] \<longleftrightarrow>
    (\<forall>a \<in> set ns. \<forall>b \<in> set ns. lower a = lower b \<longrightarrow> a = b)
    \<and> (\<forall>a \<in> set ns. \<forall>b. map_of memo (lower a) = Some b \<longrightarrow> a = b)"
  using assms
proof (induction ns arbitrary: memo)
  case (Cons n ns)
  show ?case
  proof (cases "map_of memo (lower n)")
    case None
    have inv: "lower v = k" if "map_of ((lower n, n) # memo) k = Some v" for k v
      using that Cons.prems by (auto split: if_splits)
    have "fold_names memo (n # ns) = [] \<longleftrightarrow> fold_names ((lower n, n) # memo) ns = []"
      using None by simp
    also have "\<dots> = ((\<forall>a \<in> set ns. \<forall>b \<in> set ns. lower a = lower b \<longrightarrow> a = b)
      \<and> (\<forall>a \<in> set ns. \<forall>b. map_of ((lower n, n) # memo) (lower a) = Some b \<longrightarrow> a = b))"
      by (rule Cons.IH) (rule inv)
    finally show ?thesis
      unfolding map_of.simps fst_conv snd_conv list.set fresh_name_iff [of "map_of memo" lower, OF None] .
  next
    case (Some other)
    have lo: "lower other = lower n" using Cons.prems [OF Some] by simp
    show ?thesis
    proof (cases "other = n")
      case True
      have "fold_names memo (n # ns) = [] \<longleftrightarrow> fold_names memo ns = []" using Some True by simp
      also have "\<dots> = ((\<forall>a \<in> set ns. \<forall>b \<in> set ns. lower a = lower b \<longrightarrow> a = b)
        \<and> (\<forall>a \<in> set ns. \<forall>b. map_of memo (lower a) = Some b \<longrightarrow> a = b))"
        by (rule Cons.IH) (rule Cons.prems)
      also note known_name_iff [of "map_of memo" lower, OF Some [unfolded True]]
      finally show ?thesis unfolding list.set .
    next
      case False
      with Some have "fold_names memo (n # ns) \<noteq> []" by simp
      moreover have "\<exists>a \<in> set (n # ns). \<exists>b. map_of memo (lower a) = Some b \<and> a \<noteq> b"
        using Some False by (intro bexI [of _ n] exI [of _ other]) simp_all
      ultimately show ?thesis by blast
    qed
  qed
qed simp

end
