(* ===== verification/Report.thy ===== *)
theory Report
  imports Schedules
begin

text \<open>
  What a worker logs about schedule dispatch failing (\<open>_DispatchReport\<close> in
  \<open>src/django_ox/worker.py\<close>): the first failure of a run in full, later ones counted and summarised at most
  once an interval, then one line when the run ends.  The clock is monotonic, in microseconds.
\<close>

definition report_interval :: int where
  "report_interval = 60000000"

record failing =
  failures :: nat
  unreported :: nat
  reported_at :: int

text \<open>The phase of an unreadable tick, and what abandoned a pass.\<close>

datatype tick_phase = LatestPhase | AnchorPhase
datatype pass_category = DatabasePass | UnexpectedPass

text \<open>A line carries the run's failures and how many of them no line had covered.\<close>

datatype report_line =
    DispatchError string nat nat
  | DispatchRecovered string nat
  | TickUnreadableLine string tick_phase nat nat
  | TickReadableLine string nat
  | DispatchFailed pass_category nat nat
  | DispatchResumed nat

record report =
  rp_schedules :: "string \<Rightarrow> failing option"
  rp_unreadable :: "string \<Rightarrow> failing option"
  rp_passes :: "pass_category \<Rightarrow> failing option"

definition new_report :: report where
  "new_report = \<lparr>rp_schedules = Map.empty, rp_unreadable = Map.empty, rp_passes = Map.empty\<rparr>"

text \<open>One more failure of a run: its state, and the counts of the line when one is written.\<close>

definition count_failure :: "int \<Rightarrow> failing option \<Rightarrow> failing \<times> (nat \<times> nat) option" where
  "count_failure now st =
     (case st of
        None \<Rightarrow> (\<lparr>failures = 1, unreported = 0, reported_at = now\<rparr>, Some (1, 0))
      | Some f \<Rightarrow>
          (let n = failures f + 1; u = unreported f + 1 in
           if now - reported_at f < report_interval
           then (\<lparr>failures = n, unreported = u, reported_at = reported_at f\<rparr>, None)
           else (\<lparr>failures = n, unreported = 0, reported_at = now\<rparr>, Some (n, u))))"

definition retain :: "string set \<Rightarrow> report \<Rightarrow> report" where
  "retain ks r =
     r\<lparr>rp_schedules := (\<lambda>k. if k \<in> ks then rp_schedules r k else None),
       rp_unreadable := (\<lambda>k. if k \<in> ks then rp_unreadable r k else None)\<rparr>"

definition schedule_failed :: "int \<Rightarrow> schedule \<Rightarrow> report \<Rightarrow> report \<times> report_line list" where
  "schedule_failed now s r =
     (let k = schedule_key s in
      case count_failure now (rp_schedules r k) of
        (f, line) \<Rightarrow> (r\<lparr>rp_schedules := (rp_schedules r)(k \<mapsto> f)\<rparr>,
          case line of None \<Rightarrow> [] | Some (n, u) \<Rightarrow> [DispatchError (sched_name s) n u]))"

definition schedule_dispatched :: "schedule \<Rightarrow> report \<Rightarrow> report \<times> report_line list" where
  "schedule_dispatched s r =
     (let k = schedule_key s in
      case rp_schedules r k of
        None \<Rightarrow> (r, [])
      | Some f \<Rightarrow> (r\<lparr>rp_schedules := (rp_schedules r)(k := None)\<rparr>, [DispatchRecovered (sched_name s) (failures f)]))"

definition tick_unreadable :: "int \<Rightarrow> tick_phase \<Rightarrow> schedule \<Rightarrow> report \<Rightarrow> report \<times> report_line list" where
  "tick_unreadable now ph s r =
     (let k = schedule_key s in
      case count_failure now (rp_unreadable r k) of
        (f, line) \<Rightarrow> (r\<lparr>rp_unreadable := (rp_unreadable r)(k \<mapsto> f)\<rparr>,
          case line of None \<Rightarrow> [] | Some (n, u) \<Rightarrow> [TickUnreadableLine (sched_name s) ph n u]))"

definition tick_readable :: "schedule \<Rightarrow> report \<Rightarrow> report \<times> report_line list" where
  "tick_readable s r =
     (let k = schedule_key s in
      case rp_unreadable r k of
        None \<Rightarrow> (r, [])
      | Some f \<Rightarrow> (r\<lparr>rp_unreadable := (rp_unreadable r)(k := None)\<rparr>, [TickReadableLine (sched_name s) (failures f)]))"

definition pass_failed :: "int \<Rightarrow> bool \<Rightarrow> report \<Rightarrow> report \<times> report_line list" where
  "pass_failed now unexpected r =
     (let c = (if unexpected then UnexpectedPass else DatabasePass) in
      case count_failure now (rp_passes r c) of
        (f, line) \<Rightarrow> (r\<lparr>rp_passes := (rp_passes r)(c \<mapsto> f)\<rparr>,
          case line of None \<Rightarrow> [] | Some (n, u) \<Rightarrow> [DispatchFailed c n u]))"

definition pass_failures :: "failing option \<Rightarrow> nat" where
  "pass_failures st = (case st of None \<Rightarrow> 0 | Some f \<Rightarrow> failures f)"

definition pass_completed :: "report \<Rightarrow> report \<times> report_line list" where
  "pass_completed r =
     (if rp_passes r DatabasePass = None \<and> rp_passes r UnexpectedPass = None then (r, [])
      else (r\<lparr>rp_passes := Map.empty\<rparr>,
        [DispatchResumed (pass_failures (rp_passes r DatabasePass) + pass_failures (rp_passes r UnexpectedPass))]))"

section \<open>Every failure is accounted for\<close>

text \<open>A run of failures at given clocks: the state it leaves and the lines it wrote, with their instants.\<close>

fun failing_run :: "int list \<Rightarrow> failing option \<Rightarrow> failing option \<times> (int \<times> nat \<times> nat) list" where
  "failing_run [] st = (st, [])"
| "failing_run (now # ts) st =
     (case count_failure now st of
        (f, line) \<Rightarrow>
          (case failing_run ts (Some f) of
             (st', lines) \<Rightarrow> (st', (case line of None \<Rightarrow> [] | Some c \<Rightarrow> [(now, c)]) @ lines)))"

definition covered :: "(int \<times> nat \<times> nat) list \<Rightarrow> nat" where
  "covered lines = sum_list (map (\<lambda>(w, n, u). u) lines)"

lemma failing_run_counts:
  assumes "failing_run ts (Some f) = (Some g, lines)"
  shows "failures g = failures f + length ts \<and> covered lines + unreported g = unreported f + length ts"
  using assms
proof (induction ts arbitrary: f lines)
  case Nil then show ?case by (simp add: covered_def)
next
  case (Cons now ts)
  obtain f1 line where c: "count_failure now (Some f) = (f1, line)" by fastforce
  from Cons.prems c obtain rest where r: "failing_run ts (Some f1) = (Some g, rest)"
    and l: "lines = (case line of None \<Rightarrow> [] | Some c \<Rightarrow> [(now, c)]) @ rest" by (auto split: prod.splits)
  from Cons.IH [OF r] c l show ?case
    by (auto simp: count_failure_def Let_def covered_def split: if_splits)
qed

lemma failing_run_spaced:
  assumes "failing_run ts (Some f) = (st, lines)"
  shows "\<forall>(w, c) \<in> set lines. reported_at f + report_interval \<le> w"
    and "sorted_wrt (\<lambda>a b. fst a + report_interval \<le> fst b) lines"
proof -
  have "(\<forall>(w, c) \<in> set lines. reported_at f + report_interval \<le> w)
    \<and> sorted_wrt (\<lambda>a b. fst a + report_interval \<le> fst b) lines"
    using assms
  proof (induction ts arbitrary: f lines)
    case Nil then show ?case by simp
  next
    case (Cons now ts)
    obtain f1 line where c: "count_failure now (Some f) = (f1, line)" by fastforce
    from Cons.prems c obtain rest where r: "failing_run ts (Some f1) = (st, rest)"
      and l: "lines = (case line of None \<Rightarrow> [] | Some c \<Rightarrow> [(now, c)]) @ rest" by (auto split: prod.splits)
    have f1: "line = None \<and> reported_at f1 = reported_at f
        \<or> line \<noteq> None \<and> reported_at f1 = now \<and> reported_at f + report_interval \<le> now"
      using c by (auto simp: count_failure_def Let_def split: if_splits)
    moreover have "0 < report_interval" by (simp add: report_interval_def)
    ultimately show ?case using Cons.IH [OF r] l by fastforce
  qed
  then show "\<forall>(w, c) \<in> set lines. reported_at f + report_interval \<le> w"
    "sorted_wrt (\<lambda>a b. fst a + report_interval \<le> fst b) lines" by simp_all
qed

lemma failing_run_Some: "fst (failing_run ts (Some f)) \<noteq> None"
proof (induction ts arbitrary: f)
  case (Cons now ts)
  obtain f1 line where "count_failure now (Some f) = (f1, line)" by fastforce
  with Cons [of f1] show ?case by (auto split: prod.splits)
qed simp

text \<open>From the first failure on: one line in full, and every later failure in one summary or still to come.\<close>

lemma failing_run_from_start:
  assumes "failing_run (t # ts) None = (st, lines)"
  obtains g rest where "st = Some g" "lines = (t, 1, 0) # rest" "failures g = length (t # ts)"
    "1 + covered rest + unreported g = length (t # ts)"
    "sorted_wrt (\<lambda>a b. fst a + report_interval \<le> fst b) lines"
proof -
  let ?f = "\<lparr>failures = 1, unreported = 0, reported_at = t\<rparr>"
  obtain st' rest where r: "failing_run ts (Some ?f) = (st', rest)" by fastforce
  obtain g where g: "st' = Some g" using failing_run_Some [of ts ?f] r by auto
  have "st = Some g" "lines = (t, 1, 0) # rest" using assms r g by (simp_all add: count_failure_def)
  moreover from this failing_run_spaced [OF r] have "sorted_wrt (\<lambda>a b. fst a + report_interval \<le> fst b) lines"
    by auto
  ultimately show thesis using that failing_run_counts [OF r [unfolded g]] by simp
qed

end
