(* ===== verification/Dispatch.thy ===== *)
theory Dispatch
  imports TickLog Report
begin

text \<open>
  One dispatch pass of one worker (\<open>Worker.dispatch_schedules\<close> in \<open>src/django_ox/worker.py\<close>): the due
  tick of every schedule, one bounded read of the tick log, then one transaction per schedule that claims its
  tick under the log's unique constraint and enqueues its task.  What other workers commit meanwhile, and what
  each statement raises, are arguments.  Instants are microseconds; the zone, and whether the project uses one,
  are the two conversions of \<open>zone\<close>.
\<close>

section \<open>Due ticks\<close>

record zone =
  local_of :: "int \<Rightarrow> datetime"
  instant_of :: "datetime \<Rightarrow> int option"

datatype due_read = DueFails | DueAhead | DueAt int

definition due_tick :: "zone \<Rightarrow> int \<Rightarrow> schedule \<Rightarrow> due_read" where
  "due_tick z now s =
     (case trigger_previous (sched_trigger s) (local_of z now) of
        Some (Inr tick) \<Rightarrow>
          (case instant_of z tick of
             None \<Rightarrow> DueFails
           | Some i \<Rightarrow> if now < i then DueAhead else DueAt i)
      | _ \<Rightarrow> DueFails)"

fun due_ticks :: "zone \<Rightarrow> int \<Rightarrow> schedule list \<Rightarrow> (schedule \<times> int) list" where
  "due_ticks z now [] = []"
| "due_ticks z now (s # ss) =
     (case due_tick z now s of DueAt i \<Rightarrow> (s, i) # due_ticks z now ss | _ \<Rightarrow> due_ticks z now ss)"

definition within_bounds :: "schedule \<Rightarrow> int \<Rightarrow> bool" where
  "within_bounds s i =
     ((case start_time s of None \<Rightarrow> True | Some b \<Rightarrow> b \<le> i) \<and> (case end_time s of None \<Rightarrow> True | Some e \<Rightarrow> i \<le> e))"

definition past_deadline :: "schedule \<Rightarrow> int \<Rightarrow> int \<Rightarrow> bool" where
  "past_deadline s now i = (case starting_deadline s of None \<Rightarrow> False | Some d \<Rightarrow> d < now - i)"

text \<open>\<open>_still_due\<close>\<close>

definition still_due :: "zone \<Rightarrow> int \<Rightarrow> schedule \<Rightarrow> int \<Rightarrow> int \<Rightarrow> bool" where
  "still_due z snapshot cur i now =
     ((case trigger_previous (sched_trigger cur) (local_of z snapshot) of
         Some (Inr tick) \<Rightarrow> instant_of z tick = Some i
       | _ \<Rightarrow> False)
      \<and> within_bounds cur i \<and> \<not> past_deadline cur now i)"

section \<open>Errors\<close>

datatype raised_error =
    IntegrityFailure db_error
  | OperationalFailure db_error
  | OtherDatabaseFailure db_error
  | PythonFailure string

text \<open>\<open>_lost_the_race\<close>\<close>

definition lost_the_race :: "db_error \<Rightarrow> bool" where
  "lost_the_race e =
     ((case cause e of None \<Rightarrow> False | Some c \<Rightarrow> error_state c = Some ''23505'')
      \<or> arg0 (raised e) \<in> {Some 1062, Some 1586}
      \<or> contains ''UNIQUE constraint failed'' (message (raised e))
      \<or> contains ''ORA-00001'' (message (raised e)))"

text \<open>
  \<open>_unusable_after_failure\<close>: the sessions (driver object, server id) before and after, whether the
  enclosing transaction can only be rolled back, and whether a trivial query is answered.
\<close>

definition unusable_after_failure :: "(nat \<times> nat) option \<Rightarrow> (nat \<times> nat) option \<Rightarrow> bool \<Rightarrow> bool \<Rightarrow> bool" where
  "unusable_after_failure before after needs_rollback answers =
     (case (before, after) of
        (Some b, Some a) \<Rightarrow> fst a \<noteq> fst b \<or> snd a \<noteq> snd b \<or> needs_rollback \<or> \<not> answers
      | _ \<Rightarrow> True)"

section \<open>One schedule's transaction\<close>

text \<open>The committed tick log and the ids of the tasks that schedules have enqueued.\<close>

record sched_db =
  ticks :: "tick list"
  enqueued :: "nat list"

text \<open>What one schedule's turn meets: others' commits before each statement, and the faults.\<close>

record turn =
  before_exists :: "sched_db \<Rightarrow> sched_db"
  exists_fault :: "raised_error option"
  refreshed :: "schedule \<Rightarrow> raised_error + schedule option"
  admitted_at :: int
  before_insert :: "sched_db \<Rightarrow> sched_db"
  insert_fault :: "raised_error option"
  duplicate :: db_error
  anchor_fault :: "raised_error option"
  before_latch :: "sched_db \<Rightarrow> sched_db"
  enqueue_result :: "raised_error + nat"
  save_fault :: "raised_error option"
  commit_fault :: "raised_error option"
  broken :: bool

definition latch_instant :: int where
  "latch_instant = micros (at_time 1900 1 1 0 0)"

datatype sighting = FirstSighting | AnchoredAt int | AnchorUnreadable | AnchorRaised raised_error

text \<open>
  \<open>_anchor_boundary\<close>, with this pass's row in the log.  Its own transaction's latch row is written and deleted
  again within it; the others act while the latch waits.
\<close>

definition anchor_boundary :: "turn \<Rightarrow> string \<Rightarrow> int \<Rightarrow> sched_db \<Rightarrow> sighting \<times> sched_db" where
  "anchor_boundary tn k own d =
     (case anchor_fault tn of
        Some x \<Rightarrow> (AnchorRaised x, d)
      | None \<Rightarrow>
          (case earliest_tick k [(k, own)] (ticks d) of
             Unreadable \<Rightarrow> (AnchorUnreadable, d)
           | ReadAt i \<Rightarrow> (AnchoredAt i, d)
           | Absent \<Rightarrow>
               (let d' = before_latch tn d in
                case earliest_tick k [(k, own), (k, latch_instant)] (ticks d') of
                  Unreadable \<Rightarrow> (AnchorUnreadable, d')
                | ReadAt i \<Rightarrow> (AnchoredAt i, d')
                | Absent \<Rightarrow> (FirstSighting, d'))))"

datatype block_end =
    NotAdmitted
  | AnchorTickUnreadable
  | BlockRaised bool raised_error
  | BlockCommitted "nat option"

definition without_tick :: "string \<Rightarrow> int \<Rightarrow> sched_db \<Rightarrow> sched_db" where
  "without_tick k i d = d\<lparr>ticks := filter (\<lambda>t. tick_id t \<noteq> (k, i)) (ticks d)\<rparr>"

definition new_tick :: "string \<Rightarrow> int \<Rightarrow> tick" where
  "new_tick k i = \<lparr>schedule_name = k, scheduled_for = i, tick_task = None, readable = True\<rparr>"

definition save_task :: "string \<Rightarrow> int \<Rightarrow> nat \<Rightarrow> sched_db \<Rightarrow> sched_db" where
  "save_task k i tid d =
     d\<lparr>ticks := map (\<lambda>t. if tick_id t = (k, i) then t\<lparr>tick_task := Some tid\<rparr> else t) (ticks d),
       enqueued := enqueued d @ [tid]\<rparr>"

text \<open>After the tick row is in: the sighting, the enqueue, the commit.  A rollback takes the row with it.\<close>

definition after_claim ::
  "turn \<Rightarrow> schedule \<Rightarrow> int \<Rightarrow> int option \<Rightarrow> sched_db \<Rightarrow> block_end \<times> sched_db" where
  "after_claim tn cur i newest d =
     (let k = schedule_key cur;
          (seen, d') = (if newest = None \<and> anchors cur then anchor_boundary tn k i d else (AnchoredAt i, d))
      in case seen of
           AnchorRaised x \<Rightarrow> (BlockRaised True x, without_tick k i d')
         | AnchorUnreadable \<Rightarrow> (AnchorTickUnreadable, without_tick k i d')
         | FirstSighting \<Rightarrow>
             (case commit_fault tn of
                Some x \<Rightarrow> (BlockRaised True x, without_tick k i d')
              | None \<Rightarrow> (BlockCommitted None, d'))
         | AnchoredAt a \<Rightarrow>
             if i < a then (NotAdmitted, without_tick k i d')
             else (case enqueue_result tn of
                     Inl x \<Rightarrow> (BlockRaised True x, without_tick k i d')
                   | Inr tid \<Rightarrow>
                       (case (save_fault tn, commit_fault tn) of
                          (Some x, _) \<Rightarrow> (BlockRaised True x, without_tick k i d')
                        | (None, Some x) \<Rightarrow> (BlockRaised True x, without_tick k i d')
                        | (None, None) \<Rightarrow> (BlockCommitted (Some tid), save_task k i tid d'))))"

definition dispatch_block ::
  "zone \<Rightarrow> int \<Rightarrow> turn \<Rightarrow> schedule \<Rightarrow> int \<Rightarrow> int option \<Rightarrow> sched_db \<Rightarrow> block_end \<times> sched_db" where
  "dispatch_block z now tn s i newest d =
     (case refreshed tn s of
        Inl x \<Rightarrow> (BlockRaised False x, d)
      | Inr None \<Rightarrow> (NotAdmitted, d)
      | Inr (Some cur) \<Rightarrow>
          if \<not> still_due z now cur i (admitted_at tn) then (NotAdmitted, d)
          else
            (let d' = before_insert tn d in
             case insert_fault tn of
               Some x \<Rightarrow> (BlockRaised False x, d')
             | None \<Rightarrow>
                 if recorded (schedule_key cur) i (ticks d') then (BlockRaised False (IntegrityFailure (duplicate tn)), d')
                 else after_claim tn cur i newest (d'\<lparr>ticks := ticks d' @ [new_tick (schedule_key cur) i]\<rparr>)))"

section \<open>One schedule's turn\<close>

text \<open>How a turn ends for the pass: nothing to do, a failure of this schedule, a pass that cannot go on, a tick.\<close>

datatype turn_end =
    Skipped
  | SkippedUnreadable tick_phase
  | Dropped
  | LockUnavailable
  | ScheduleFails
  | PassFails
  | Dispatched "nat option"

definition block_verdict :: "turn \<Rightarrow> block_end \<Rightarrow> turn_end" where
  "block_verdict tn e =
     (case e of
        NotAdmitted \<Rightarrow> Skipped
      | AnchorTickUnreadable \<Rightarrow> SkippedUnreadable AnchorPhase
      | BlockCommitted r \<Rightarrow> Dispatched r
      | BlockRaised claimed x \<Rightarrow>
          if \<not> claimed \<and> (case x of IntegrityFailure e \<Rightarrow> lost_the_race e | _ \<Rightarrow> False) then Skipped
          else if broken tn then PassFails
          else (case x of OperationalFailure e \<Rightarrow> if lock_contention e then LockUnavailable else ScheduleFails
                        | _ \<Rightarrow> ScheduleFails))"

definition take_turn ::
  "zone \<Rightarrow> int \<Rightarrow> turn \<Rightarrow> schedule \<Rightarrow> int \<Rightarrow> tick_read \<Rightarrow> sched_db \<Rightarrow> turn_end \<times> sched_db" where
  "take_turn z now tn s i read d =
     (if \<not> within_bounds s i then (Skipped, d)
      else if read = Unreadable then (SkippedUnreadable LatestPhase, d)
      else
        (let newest = (case read of ReadAt l \<Rightarrow> Some l | _ \<Rightarrow> None) in
         if (case newest of Some l \<Rightarrow> i \<le> l \<and> l \<le> now | None \<Rightarrow> False) then (Skipped, d)
         else
           (let d' = before_exists tn d; ask = (case newest of Some l \<Rightarrow> i \<le> l | None \<Rightarrow> False) in
            case (if ask then exists_fault tn else None) of
              Some x \<Rightarrow> (block_verdict tn (BlockRaised False x), d')
            | None \<Rightarrow>
                if ask \<and> recorded (schedule_key s) i (ticks d') then (Skipped, d')
                else if past_deadline s now i then (Dropped, d')
                else (case dispatch_block z now tn s i newest d' of (e, d'') \<Rightarrow> (block_verdict tn e, d'')))))"

text \<open>The turns of the due schedules in order; a pass that cannot go on raises, None.\<close>

fun take_turns ::
  "zone \<Rightarrow> int \<Rightarrow> (nat \<Rightarrow> turn) \<Rightarrow> nat \<Rightarrow> (string \<times> tick_read) list \<Rightarrow> (schedule \<times> int) list \<Rightarrow> sched_db
     \<Rightarrow> (schedule \<times> turn_end) list option \<times> sched_db" where
  "take_turns z now tn n latest [] d = (Some [], d)"
| "take_turns z now tn n latest ((s, i) # due) d =
     (let read = (case map_of latest (schedule_key s) of Some r \<Rightarrow> r | None \<Rightarrow> Absent) in
      case take_turn z now (tn n) s i read d of
        (PassFails, d') \<Rightarrow> (None, d')
      | (v, d') \<Rightarrow>
          (case take_turns z now tn (n + 1) latest due d' of
             (vs, d'') \<Rightarrow> (map_option (\<lambda>vs. (s, v) # vs) vs, d'')))"

definition dispatched_tasks :: "(schedule \<times> turn_end) list \<Rightarrow> nat list" where
  "dispatched_tasks vs =
     List.map_filter (\<lambda>(s, v). case v of Dispatched r \<Rightarrow> r | _ \<Rightarrow> None) vs"

definition dispatch_schedules ::
  "zone \<Rightarrow> int \<Rightarrow> (string \<Rightarrow> bool) \<Rightarrow> bool \<Rightarrow> nat option \<Rightarrow> (nat \<Rightarrow> turn) \<Rightarrow> schedule list \<Rightarrow> sched_db
     \<Rightarrow> ((schedule \<times> turn_end) list \<times> nat) option \<times> sched_db" where
  "dispatch_schedules z now poison conn_ok limit tn ss d =
     (case due_ticks z now ss of
        [] \<Rightarrow> (Some ([], 0), d)
      | due \<Rightarrow>
          (case latest_ticks poison conn_ok limit (ticks d) (Min (snd ` set due)) (map schedule_key ss) of
             None \<Rightarrow> (None, d)
           | Some latest \<Rightarrow>
               (case take_turns z now tn 0 latest due d of
                  (None, d') \<Rightarrow> (None, d')
                | (Some vs, d') \<Rightarrow> (Some (vs, length (dispatched_tasks vs)), d'))))"

end
