(* ===== verification/DispatchFacts.thy ===== *)
theory DispatchFacts
  imports Dispatch "HOL-Library.Multiset"
begin

text \<open>
  What a dispatch pass guarantees: the log stays unique and every task a schedule enqueued has its own tick
  row, whoever else acts; alone, a turn that dispatched nothing left nothing, and a pass enqueues exactly the
  tasks it counts.
\<close>

section \<open>One task per tick\<close>

definition tasks_of :: "tick list \<Rightarrow> nat list" where
  "tasks_of rows = List.map_filter tick_task rows"

definition sched_ok :: "sched_db \<Rightarrow> bool" where
  "sched_ok d = (wf_log (ticks d) \<and> mset (tasks_of (ticks d)) = mset (enqueued d))"

text \<open>Others keep the log's invariant; while the latch waits they also leave rows without a task alone.\<close>

definition turn_ok :: "turn \<Rightarrow> bool" where
  "turn_ok tn =
     (\<forall>d. sched_ok d \<longrightarrow>
        sched_ok (before_exists tn d) \<and> sched_ok (before_insert tn d) \<and> sched_ok (before_latch tn d)
        \<and> (\<forall>t \<in> set (ticks d). tick_task t = None \<longrightarrow> t \<in> set (ticks (before_latch tn d))))"

lemma tasks_of_simps [simp]:
  "tasks_of [] = []" "tasks_of (t # ts) = (case tick_task t of None \<Rightarrow> [] | Some i \<Rightarrow> [i]) @ tasks_of ts"
  "tasks_of (xs @ ys) = tasks_of xs @ tasks_of ys"
  by (auto simp: tasks_of_def List.map_filter_def split: option.splits)

lemma new_tick_simps [simp]:
  "tick_id (new_tick k i) = (k, i)" "tick_task (new_tick k i) = None" "schedule_name (new_tick k i) = k"
  by (simp_all add: new_tick_def tick_id_def)

lemma tasks_without:
  assumes "\<And>t. t \<in> set rows \<Longrightarrow> tick_id t = x \<Longrightarrow> tick_task t = None"
  shows "tasks_of (filter (\<lambda>t. tick_id t \<noteq> x) rows) = tasks_of rows"
  using assms by (induction rows) auto

lemma tasks_saved:
  assumes "distinct (map tick_id rows)" "t \<in> set rows" "tick_id t = x" "tick_task t = None"
  shows "mset (tasks_of (map (\<lambda>t. if tick_id t = x then t\<lparr>tick_task := Some tid\<rparr> else t) rows))
    = add_mset tid (mset (tasks_of rows))"
  using assms
proof (induction rows)
  case (Cons a rows)
  show ?case
  proof (cases "tick_id a = x")
    case True
    have "a = t" using Cons.prems True by (auto simp: image_iff)
    moreover have "map (\<lambda>t. if tick_id t = x then t\<lparr>tick_task := Some tid\<rparr> else t) rows = rows"
    proof (rule map_idI)
      fix u assume "u \<in> set rows"
      then have "tick_id u \<in> tick_id ` set rows" by (rule imageI)
      then have "tick_id u \<noteq> x" using Cons.prems(1) True by auto
      then show "(if tick_id u = x then u\<lparr>tick_task := Some tid\<rparr> else u) = u" by simp
    qed
    ultimately show ?thesis using True Cons.prems(4) by simp
  next
    case False
    then show ?thesis using Cons by (auto split: option.split)
  qed
qed simp

lemma same_id_row:
  "wf_log rows \<Longrightarrow> t \<in> set rows \<Longrightarrow> u \<in> set rows \<Longrightarrow> tick_id t = tick_id u \<Longrightarrow> t = u"
  by (simp add: wf_log_def distinct_map inj_on_def)

lemma without_tick_ok:
  assumes "sched_ok d" "new_tick k i \<in> set (ticks d)"
  shows "sched_ok (without_tick k i d)"
proof -
  have "tasks_of (filter (\<lambda>t. tick_id t \<noteq> (k, i)) (ticks d)) = tasks_of (ticks d)"
    by (rule tasks_without) (use assms same_id_row [of "ticks d" _ "new_tick k i"] in \<open>force simp: sched_ok_def\<close>)
  then show ?thesis using assms(1) by (simp add: sched_ok_def without_tick_def wf_log_def distinct_map_filter)
qed

lemma save_task_ok:
  assumes "sched_ok d" "new_tick k i \<in> set (ticks d)"
  shows "sched_ok (save_task k i tid d)"
proof -
  have "map tick_id (map (\<lambda>t. if tick_id t = (k, i) then t\<lparr>tick_task := Some tid\<rparr> else t) (ticks d))
      = map tick_id (ticks d)" by (simp add: tick_id_def)
  moreover have "mset (tasks_of (map (\<lambda>t. if tick_id t = (k, i) then t\<lparr>tick_task := Some tid\<rparr> else t) (ticks d)))
      = add_mset tid (mset (tasks_of (ticks d)))"
    by (rule tasks_saved [OF _ assms(2)]) (use assms(1) in \<open>simp_all add: sched_ok_def wf_log_def\<close>)
  ultimately show ?thesis using assms(1) unfolding sched_ok_def save_task_def wf_log_def
    by (simp del: map_map)
qed

lemma insert_tick_ok:
  assumes "sched_ok d" "\<not> recorded k i (ticks d)"
  shows "sched_ok (d\<lparr>ticks := ticks d @ [new_tick k i]\<rparr>)"
  using assms by (simp add: sched_ok_def wf_log_def recorded_iff)

lemma anchor_boundary_ok:
  assumes "turn_ok tn" "sched_ok d" "new_tick k i \<in> set (ticks d)" "anchor_boundary tn k i d = (seen, d')"
  shows "sched_ok d' \<and> new_tick k i \<in> set (ticks d')"
proof -
  have "d' = d \<or> d' = before_latch tn d"
    using assms(4) by (auto simp: anchor_boundary_def Let_def split: option.splits tick_read.splits)
  then show ?thesis using assms(1-3) new_tick_simps(2) unfolding turn_ok_def by metis
qed

lemma after_claim_ok:
  assumes "turn_ok tn" "sched_ok d" "new_tick (schedule_key cur) i \<in> set (ticks d)"
    and "after_claim tn cur i newest d = (e, d')"
  shows "sched_ok d'"
proof -
  obtain seen d1 where s: "(if newest = None \<and> anchors cur then anchor_boundary tn (schedule_key cur) i d
      else (AnchoredAt i, d)) = (seen, d1)" by fastforce
  then have d1: "sched_ok d1" "new_tick (schedule_key cur) i \<in> set (ticks d1)"
    using anchor_boundary_ok [OF assms(1-3)] assms(2,3) by (auto split: if_splits)
  have "d' = d1 \<or> d' = without_tick (schedule_key cur) i d1 \<or> (\<exists>tid. d' = save_task (schedule_key cur) i tid d1)"
    using assms(4) s by (auto simp: after_claim_def Let_def split: sighting.splits option.splits sum.splits if_splits)
  then show ?thesis using d1 without_tick_ok save_task_ok by blast
qed

lemma dispatch_block_ok:
  assumes "turn_ok tn" "sched_ok d" "dispatch_block z now tn s i newest d = (e, d')"
  shows "sched_ok d'"
proof -
  let ?d = "before_insert tn d"
  have d: "sched_ok ?d" using assms(1,2) by (simp add: turn_ok_def)
  have "d' = d \<or> d' = ?d \<or> (\<exists>cur. \<not> recorded (schedule_key cur) i (ticks ?d)
      \<and> after_claim tn cur i newest (?d\<lparr>ticks := ticks ?d @ [new_tick (schedule_key cur) i]\<rparr>) = (e, d'))"
    using assms(3) by (auto simp: dispatch_block_def Let_def split: sum.splits option.splits if_splits)
  then show ?thesis
  proof (elim disjE exE conjE)
    fix cur
    assume n: "\<not> recorded (schedule_key cur) i (ticks ?d)"
      and a: "after_claim tn cur i newest (?d\<lparr>ticks := ticks ?d @ [new_tick (schedule_key cur) i]\<rparr>) = (e, d')"
    show ?thesis by (rule after_claim_ok [OF assms(1) insert_tick_ok [OF d n] _ a]) simp
  qed (use assms(2) d in simp_all)
qed

lemma take_turn_ok:
  assumes "turn_ok tn" "sched_ok d" "take_turn z now tn s i read d = (v, d')"
  shows "sched_ok d'"
proof -
  let ?d = "before_exists tn d"
  have d: "sched_ok ?d" using assms(1,2) by (simp add: turn_ok_def)
  have "d' = d \<or> d' = ?d \<or> (\<exists>newest e. dispatch_block z now tn s i newest ?d = (e, d'))"
    using assms(3) by (auto simp: take_turn_def Let_def split: if_splits option.splits prod.splits)
  then show ?thesis using assms(2) d dispatch_block_ok [OF assms(1) d] by blast
qed

lemma take_turns_ok:
  assumes "\<forall>n. turn_ok (tn n)" "sched_ok d" "take_turns z now tn n latest due d = (vs, d')"
  shows "sched_ok d'"
  using assms(2,3)
proof (induction due arbitrary: n d vs d')
  case (Cons x due)
  obtain s i where x: "x = (s, i)" by fastforce
  let ?r = "case map_of latest (schedule_key s) of Some r \<Rightarrow> r | None \<Rightarrow> Absent"
  obtain v d1 where t: "take_turn z now (tn n) s i ?r d = (v, d1)" by fastforce
  have d1: "sched_ok d1" by (rule take_turn_ok [OF assms(1) [rule_format] Cons.prems(1) t])
  obtain ws d2 where r: "take_turns z now tn (n + 1) latest due d1 = (ws, d2)" by fastforce
  have "d' = d1 \<or> d' = d2" using Cons.prems(2) x t r by (cases v) simp_all
  then show ?case using d1 Cons.IH [OF d1 r] by blast
qed simp

lemma dispatch_schedules_ok:
  assumes "\<forall>n. turn_ok (tn n)" "sched_ok d"
    and "dispatch_schedules z now poison conn_ok limit tn ss d = (res, d')"
  shows "sched_ok d'"
proof -
  have "d' = d \<or> (\<exists>latest due vs. take_turns z now tn 0 latest due d = (vs, d'))"
    using assms(3) by (auto simp: dispatch_schedules_def split: list.splits option.splits prod.splits)
  then show ?thesis using assms(2) take_turns_ok [OF assms(1,2)] by blast
qed

section \<open>A recorded tick\<close>

text \<open>What is in the log stays while others act, and a refresh keeps the schedule's key.\<close>

definition turn_keeps :: "turn \<Rightarrow> schedule \<Rightarrow> int \<Rightarrow> bool" where
  "turn_keeps tn s i =
     ((\<forall>d. recorded (schedule_key s) i (ticks d) \<longrightarrow>
          recorded (schedule_key s) i (ticks (before_exists tn d))
          \<and> recorded (schedule_key s) i (ticks (before_insert tn d)))
      \<and> (\<forall>cur. refreshed tn s = Inr (Some cur) \<longrightarrow> schedule_key cur = schedule_key s))"

lemma block_verdict_Raised: "block_verdict tn (BlockRaised claimed x) \<noteq> Dispatched r"
  by (auto simp: block_verdict_def split: raised_error.splits if_splits)

lemma recorded_not_dispatched:
  assumes keep: "turn_keeps tn s i" and rec: "recorded (schedule_key s) i (ticks d)"
    and t: "take_turn z now tn s i read d = (v, d')"
  shows "v \<noteq> Dispatched r"
proof
  assume v: "v = Dispatched r"
  let ?d = "before_exists tn d"
  have r1: "recorded (schedule_key s) i (ticks ?d)" using keep rec by (simp add: turn_keeps_def)
  obtain newest e where b: "dispatch_block z now tn s i newest ?d = (e, d')" "block_verdict tn e = Dispatched r"
    using t v block_verdict_Raised
    by (auto simp: take_turn_def Let_def split: if_splits option.splits prod.splits)
  have "recorded (schedule_key s) i (ticks (before_insert tn ?d))" using keep r1 by (simp add: turn_keeps_def)
  moreover have "refreshed tn s = Inr (Some cur) \<Longrightarrow> schedule_key cur = schedule_key s" for cur
    using keep by (simp add: turn_keeps_def)
  ultimately have "e = NotAdmitted \<or> (\<exists>c x. e = BlockRaised c x)"
    using b(1) by (auto simp: dispatch_block_def Let_def split: sum.splits option.splits if_splits)
  with b(2) block_verdict_Raised show False by (auto simp: block_verdict_def [of tn NotAdmitted])
qed

section \<open>First sightings\<close>

lemma earliest_absent:
  "earliest_tick k ex rows = Absent \<longleftrightarrow> (\<forall>t \<in> set rows. schedule_name t = k \<longrightarrow> tick_id t \<in> set ex)"
proof -
  have "earliest_tick k ex rows = Absent \<longleftrightarrow> filter (\<lambda>t. schedule_name t = k \<and> tick_id t \<notin> set ex) rows = []"
    by (simp add: earliest_tick_def read_tick_def del: filter_empty_conv split: list.split)
  then show ?thesis by (auto simp: filter_empty_conv)
qed

lemma anchor_first:
  assumes "anchor_boundary tn k i d = (FirstSighting, d')" "t \<in> set (ticks d')" "schedule_name t = k"
  shows "tick_id t = (k, i) \<or> tick_id t = (k, latch_instant)"
  using assms by (auto simp: anchor_boundary_def Let_def earliest_absent split: option.splits tick_read.splits)

text \<open>A tick recorded without a task is the schedule's first: the log holds no other for its key.\<close>

lemma anchored_is_first:
  assumes keep: "turn_keeps tn s i" and t: "take_turn z now tn s i read d = (Dispatched None, d')"
    and k: "t \<in> set (ticks d')" "schedule_name t = schedule_key s"
  shows "scheduled_for t = i \<or> scheduled_for t = latch_instant"
proof -
  obtain newest e where b: "dispatch_block z now tn s i newest (before_exists tn d) = (e, d')"
    "block_verdict tn e = Dispatched None"
    using t block_verdict_Raised by (auto simp: take_turn_def Let_def split: if_splits option.splits prod.splits)
  have e: "e = BlockCommitted None"
    using b(2) block_verdict_Raised by (cases e) (auto simp: block_verdict_def [of tn NotAdmitted]
        block_verdict_def [of tn AnchorTickUnreadable] block_verdict_def [of tn "BlockCommitted r" for r])
  obtain cur d1 where a: "after_claim tn cur i newest d1 = (BlockCommitted None, d')" "schedule_key cur = schedule_key s"
    using b(1) keep unfolding e turn_keeps_def
    by (auto simp: dispatch_block_def Let_def split: sum.splits option.splits if_splits)
  then have "anchor_boundary tn (schedule_key s) i d1 = (FirstSighting, d')"
    by (auto simp: after_claim_def Let_def split: if_splits prod.splits sighting.splits option.splits sum.splits)
  from anchor_first [OF this k] show ?thesis by (auto simp: tick_id_def)
qed

section \<open>Alone\<close>

definition alone :: "turn \<Rightarrow> bool" where
  "alone tn = (\<forall>d. before_exists tn d = d \<and> before_insert tn d = d \<and> before_latch tn d = d)"

definition turn_tasks :: "turn_end \<Rightarrow> nat list" where
  "turn_tasks v = (case v of Dispatched (Some tid) \<Rightarrow> [tid] | _ \<Rightarrow> [])"

lemma turn_tasks_Raised [simp]: "turn_tasks (block_verdict tn (BlockRaised c x)) = []"
  using block_verdict_Raised [of tn c x] by (auto simp: turn_tasks_def split: turn_end.splits)

lemma without_new_tick:
  "\<not> recorded k i (ticks d) \<Longrightarrow> without_tick k i (d\<lparr>ticks := ticks d @ [new_tick k i]\<rparr>) = d"
  unfolding recorded_iff
proof -
  assume "(k, i) \<notin> tick_id ` set (ticks d)"
  then have "filter (\<lambda>t. tick_id t \<noteq> (k, i)) (ticks d) = ticks d"
    unfolding filter_id_conv by (metis imageI)
  then show ?thesis by (simp add: without_tick_def)
qed

lemma after_claim_alone:
  assumes "alone tn" "\<not> recorded (schedule_key cur) i (ticks d)"
    and "after_claim tn cur i newest (d\<lparr>ticks := ticks d @ [new_tick (schedule_key cur) i]\<rparr>) = (e, d')"
  shows "enqueued d' = enqueued d @ turn_tasks (block_verdict tn e)
    \<and> ((\<forall>r. block_verdict tn e \<noteq> Dispatched r) \<longrightarrow> d' = d)"
proof -
  let ?d = "d\<lparr>ticks := ticks d @ [new_tick (schedule_key cur) i]\<rparr>"
  have "snd (anchor_boundary tn (schedule_key cur) i ?d) = ?d"
    using assms(1) by (auto simp: anchor_boundary_def alone_def Let_def split: option.split tick_read.split)
  then obtain seen where s: "(if newest = None \<and> anchors cur then anchor_boundary tn (schedule_key cur) i ?d
      else (AnchoredAt i, ?d)) = (seen, ?d)" by (metis prod.collapse)
  have w: "without_tick (schedule_key cur) i ?d = d" by (rule without_new_tick [OF assms(2)])
  have "(\<exists>x. e = BlockRaised True x \<and> d' = d) \<or> e = AnchorTickUnreadable \<and> d' = d \<or> e = NotAdmitted \<and> d' = d
      \<or> e = BlockCommitted None \<and> d' = ?d \<or> (\<exists>tid. e = BlockCommitted (Some tid) \<and> d' = save_task (schedule_key cur) i tid ?d)"
    using assms(3) s w
    by (auto simp: after_claim_def Let_def split: sighting.splits option.splits sum.splits if_splits)
  then show ?thesis
    using block_verdict_Raised [of tn True]
    by (auto simp: block_verdict_def [of tn NotAdmitted] block_verdict_def [of tn AnchorTickUnreadable]
        block_verdict_def [of tn "BlockCommitted r" for r] turn_tasks_def save_task_def split: turn_end.splits option.splits)
qed

lemma dispatch_block_alone:
  assumes "alone tn" "dispatch_block z now tn s i newest d = (e, d')"
  shows "enqueued d' = enqueued d @ turn_tasks (block_verdict tn e)
    \<and> ((\<forall>r. block_verdict tn e \<noteq> Dispatched r) \<longrightarrow> d' = d)"
proof -
  have same: "before_insert tn d = d" using assms(1) by (simp add: alone_def)
  have "d' = d \<and> turn_tasks (block_verdict tn e) = [] \<or> (\<exists>cur. \<not> recorded (schedule_key cur) i (ticks d)
      \<and> after_claim tn cur i newest (d\<lparr>ticks := ticks d @ [new_tick (schedule_key cur) i]\<rparr>) = (e, d'))"
    using assms(2) same turn_tasks_Raised
    by (auto simp: dispatch_block_def Let_def block_verdict_def [of tn NotAdmitted] turn_tasks_def [of Skipped]
        split: sum.splits option.splits if_splits)
  then show ?thesis
  proof (elim disjE exE conjE)
    fix cur
    assume n: "\<not> recorded (schedule_key cur) i (ticks d)"
      and a: "after_claim tn cur i newest (d\<lparr>ticks := ticks d @ [new_tick (schedule_key cur) i]\<rparr>) = (e, d')"
    show ?thesis by (rule after_claim_alone [OF assms(1) n a])
  qed simp
qed

lemma take_turn_alone:
  assumes "alone tn" "take_turn z now tn s i read d = (v, d')"
  shows "enqueued d' = enqueued d @ turn_tasks v \<and> ((\<forall>r. v \<noteq> Dispatched r) \<longrightarrow> d' = d)"
proof -
  have same: "before_exists tn d = d" using assms(1) by (simp add: alone_def)
  have "d' = d \<and> turn_tasks v = [] \<or> (\<exists>newest e. dispatch_block z now tn s i newest d = (e, d') \<and> v = block_verdict tn e)"
    using assms(2) same turn_tasks_Raised
    by (auto simp: take_turn_def Let_def turn_tasks_def [of Skipped] turn_tasks_def [of Dropped]
        turn_tasks_def [of "SkippedUnreadable p" for p] split: if_splits option.splits prod.splits)
  then show ?thesis using dispatch_block_alone [OF assms(1)] by blast
qed

lemma dispatched_tasks_Cons [simp]:
  "dispatched_tasks [] = []" "dispatched_tasks ((s, v) # vs) = turn_tasks v @ dispatched_tasks vs"
  by (auto simp: dispatched_tasks_def List.map_filter_def turn_tasks_def split: turn_end.splits option.splits)

lemma take_turns_alone:
  assumes "\<forall>n. alone (tn n)" "take_turns z now tn n latest due d = (Some vs, d')"
  shows "enqueued d' = enqueued d @ dispatched_tasks vs"
  using assms(2)
proof (induction due arbitrary: n d vs)
  case (Cons x due)
  obtain s i where x: "x = (s, i)" by fastforce
  let ?r = "case map_of latest (schedule_key s) of Some r \<Rightarrow> r | None \<Rightarrow> Absent"
  obtain v d1 where t: "take_turn z now (tn n) s i ?r d = (v, d1)" by fastforce
  obtain ws where r: "take_turns z now tn (n + 1) latest due d1 = (Some ws, d')" "vs = (s, v) # ws"
    using Cons.prems x t by (cases v) (auto split: prod.splits)
  from Cons.IH [OF r(1)] take_turn_alone [OF assms(1) [rule_format] t] r(2) show ?case by simp
qed simp

lemma skipped_turn_alone:
  assumes "alone (tn n)" "take_turn z now (tn n) s i read d = (v, d')"
    and "read = (case map_of latest (schedule_key s) of Some r \<Rightarrow> r | None \<Rightarrow> Absent)"
    and "v \<noteq> PassFails" "\<And>r. v \<noteq> Dispatched r"
  shows "take_turns z now tn n latest ((s, i) # due) d
    = (case take_turns z now tn (n + 1) latest due d of (vs, d'') \<Rightarrow> (map_option (\<lambda>vs. (s, v) # vs) vs, d''))"
proof -
  have "d' = d" using take_turn_alone [OF assms(1,2)] assms(5) by blast
  then show ?thesis using assms(2,4) unfolding assms(3) by (cases v) simp_all
qed

end
