(* ===== verification/Samples.thy ===== *)
theory Samples
  imports DispatchFacts
begin

text \<open>Concrete cron expressions, triggers and settings, evaluated, for the properties that have hypotheses.\<close>

definition leap_day :: cron where
  "leap_day = \<lparr>expression = ''0 0 29 2 *'', minutes = [0], hours = [0], days_of_month = [29], months = [2],
     days_of_week = [0 .. 6], dom_restricted = True, dow_restricted = False\<rparr>"

lemma leap_day_parsed: "parse_cron ''0 0 29 2 *'' = Inr leap_day"
  by code_simp

lemma leap_day_ok: "cron_ok leap_day"
  by (rule parse_cron_ok [OF leap_day_parsed])

lemma leap_day_next: "following leap_day (at_time 2025 3 1 0 0) = Some (Inr (at_time 2028 2 29 0 0))"
  by code_simp

lemma leap_day_last: "previous leap_day (at_time 2027 3 1 0 0) = Some (Inr (at_time 2024 2 29 0 0))"
  by code_simp

lemma minute_trigger:
  "trigger_previous (IntervalTrigger 60000000 0) (at_time 2026 1 1 12 30) = Some (Inr (at_time 2026 1 1 12 30))"
  "trigger_previous (IntervalTrigger 60000000 0) ((at_time 2026 1 1 12 30)\<lparr>dt_second := 59\<rparr>)
     = Some (Inr (at_time 2026 1 1 12 30))"
  by code_simp+

definition demo_framework :: framework where
  "demo_framework = \<lparr>resolve = (\<lambda>v. ATask \<lparr>td_path = ''shop.tasks.bill'', td_backend = ''default'',
       td_queue = PyStr ''default'', td_priority = PyInt 0\<rparr>),
     valid_task = (\<lambda>t. True), json_ok = (\<lambda>v. True)\<rparr>"

definition demo_options :: "(pyval \<times> pyval) list" where
  "demo_options = [(PyStr ''SCHEDULES'', PyDict [(PyStr ''nightly'',
     PyDict [(PyStr ''task'', PyStr ''shop.tasks.bill''), (PyStr ''every'', PyInt 60)])])]"

definition demo_schedule :: schedule where
  "demo_schedule = \<lparr>sched_name = ''nightly'', sched_task = \<lparr>td_path = ''shop.tasks.bill'', td_backend = ''default'',
       td_queue = PyStr ''default'', td_priority = PyInt 0\<rparr>,
     sched_trigger = IntervalTrigger 60000000 0, sched_args = [], sched_kwargs = [], start_time = None,
     end_time = None, starting_deadline = None, anchors = True, dispatch_key = []\<rparr>"

lemma demo_settings: "schedules_from_options demo_framework demo_options ''default'' = Inr [demo_schedule]"
  by code_simp

lemma demo_interval:
  "interval_ok 60000000 0" "full_dt (at_time 2026 1 1 12 30)" "\<not> dt_aware (at_time 2026 1 1 12 30)"
  "micros interval_epoch \<le> micros (at_time 2026 1 1 12 30)"
  by code_simp+

lemma max_interval_pos: "0 < max_interval" "\<not> dt_aware interval_epoch"
  by code_simp+

section \<open>A dispatch pass\<close>

definition demo_zone :: zone where
  "demo_zone = \<lparr>local_of = (\<lambda>i. case of_micros i of Inr dt \<Rightarrow> dt | Inl e \<Rightarrow> interval_epoch),
     instant_of = (\<lambda>dt. Some (micros dt))\<rparr>"

definition noon :: int where
  "noon = micros (at_time 2025 12 31 12 0)"

definition demo_error_db :: db_error where
  "demo_error_db = \<lparr>raised = \<lparr>sqlstate = None, pgcode = None, arg0 = None,
     message = ''UNIQUE constraint failed''\<rparr>, cause = None\<rparr>"

definition demo_turn :: turn where
  "demo_turn = \<lparr>before_exists = (\<lambda>d. d), exists_fault = None, refreshed = (\<lambda>s. Inr (Some s)), admitted_at = noon,
     before_insert = (\<lambda>d. d), insert_fault = None, duplicate = demo_error_db, anchor_fault = None,
     before_latch = (\<lambda>d. d), enqueue_result = Inr 7, save_fault = None, commit_fault = None, broken = False\<rparr>"

definition demo_log :: sched_db where
  "demo_log = \<lparr>ticks = [new_tick ''nightly'' (noon - 60000000)], enqueued = []\<rparr>"

definition demo_fired :: tick where
  "demo_fired = (new_tick ''nightly'' noon)\<lparr>tick_task := Some 7\<rparr>"

lemma demo_pass:
  "dispatch_schedules demo_zone noon (\<lambda>k. False) True None (\<lambda>n. demo_turn) [demo_schedule] demo_log
    = (Some ([(demo_schedule, Dispatched (Some 7))], 1),
       \<lparr>ticks = [new_tick ''nightly'' (noon - 60000000), demo_fired], enqueued = [7]\<rparr>)"
  by code_simp

text \<open>The same pass on an empty log, and one whose tick is already recorded.\<close>

lemma demo_first_pass:
  "take_turn demo_zone noon demo_turn demo_schedule noon Absent \<lparr>ticks = [], enqueued = []\<rparr>
    = (Dispatched None, \<lparr>ticks = [new_tick ''nightly'' noon], enqueued = []\<rparr>)"
  by code_simp

lemma demo_recorded_turn:
  "take_turn demo_zone noon demo_turn demo_schedule noon (ReadAt noon) \<lparr>ticks = [demo_fired], enqueued = [7]\<rparr>
    = (Skipped, \<lparr>ticks = [demo_fired], enqueued = [7]\<rparr>)"
  by code_simp

definition refused_turn :: turn where
  "refused_turn = demo_turn\<lparr>enqueue_result := Inl (PythonFailure ''ValueError'')\<rparr>"

lemma demo_refused_turn:
  "take_turn demo_zone noon refused_turn demo_schedule noon Absent demo_log = (ScheduleFails, demo_log)"
  by code_simp

lemma demo_turn_ok: "turn_ok demo_turn" "alone demo_turn" "alone refused_turn" "turn_keeps demo_turn s i"
  by (simp_all add: turn_ok_def alone_def turn_keeps_def demo_turn_def refused_turn_def)

lemma demo_log_ok: "sched_ok demo_log"
  by (simp add: sched_ok_def wf_log_def demo_log_def)

lemma demo_failing:
  "failing_run [0, 10, 70000000, 80000000] None
    = (Some \<lparr>failures = 4, unreported = 1, reported_at = 70000000\<rparr>, [(0, 1, 0), (70000000, 3, 2)])"
  by code_simp

end
