(* ===== verification/LimitOptions.thy ===== *)
theory LimitOptions
  imports PyVal "HOL-Library.Char_ord" "HOL-Library.List_Lexorder"
begin

text \<open>
  What an oxpull backend's options say of limits: the parsers of \<open>RATE_LIMITS\<close> and
  \<open>RATE_REFRESH_INTERVAL\<close> (\<open>src/oxpull/rate_limits.py\<close>), of \<open>CONCURRENCY_LIMITS\<close>
  (\<open>src/oxpull/concurrency.py\<close>) and of \<open>UNIQUE_TASKS\<close> (\<open>src/oxpull/unique.py\<close>), with every
  refusal as an error value.  Text is ASCII, so \<open>casefold\<close> is \<open>lower\<close>; a float is the number it
  stands for.
\<close>

section \<open>Refusals\<close>

datatype limit_error =
    NotKeyedByName
  | LimitNotDict string
  | LimitUnknownKeys string "pyval list"
  | LimitNameEmpty
  | LimitNameTooLong string
  | LimitNeedsBoth string
  | LimitNotWhole string
  | PeriodNotWhole string
  | LimitNotStrings string string
  | LimitForeignQueues string
  | LimitCoversNothing string
  | LimitNamesFold string string
  | BadRefreshInterval
  | UniqueNotPaths

section \<open>Pieces both parsers use\<close>

text \<open>\<open>config.get(k, default)\<close>\<close>

definition dict_or :: "(pyval \<times> pyval) list \<Rightarrow> string \<Rightarrow> pyval \<Rightarrow> pyval" where
  "dict_or d k other = (case dict_get d k of None \<Rightarrow> other | Some v \<Rightarrow> v)"

text \<open>\<open>isinstance(v, str)\<close>, and the texts of a list or tuple that holds only texts.\<close>

fun texts :: "pyval list \<Rightarrow> string list option" where
  "texts [] = Some []"
| "texts (PyStr s # vs) = map_option ((#) s) (texts vs)"
| "texts (_ # vs) = None"

definition sequence_texts :: "pyval \<Rightarrow> string list option" where
  "sequence_texts v = (case v of PyList vs \<Rightarrow> texts vs | PyTuple vs \<Rightarrow> texts vs | _ \<Rightarrow> None)"

text \<open>\<open>_string_list\<close>\<close>

definition string_list :: "string \<Rightarrow> (pyval \<times> pyval) list \<Rightarrow> string \<Rightarrow> limit_error + string list" where
  "string_list name config k =
     (case sequence_texts (dict_or config k (PyList [])) of
        None \<Rightarrow> Inl (LimitNotStrings name k)
      | Some xs \<Rightarrow> Inr xs)"

text \<open>The option's items by name, as \<open>for name in sorted(raw)\<close> visits them.\<close>

definition named_items :: "pyval \<Rightarrow> limit_error + (string \<times> pyval) list" where
  "named_items raw =
     (case raw of
        PyDict d \<Rightarrow>
          (case texts (map fst d) of
             None \<Rightarrow> Inl NotKeyedByName
           | Some names \<Rightarrow> Inr (sort_key fst (zip names (map snd d))))
      | _ \<Rightarrow> Inl NotKeyedByName)"

definition known_keys_only :: "string list \<Rightarrow> string \<Rightarrow> pyval \<Rightarrow> limit_error + (pyval \<times> pyval) list" where
  "known_keys_only ks name v =
     (case v of
        PyDict d \<Rightarrow>
          (let unknown = filter (\<lambda>k. k \<notin> set (map PyStr ks)) (map fst d) in
           if unknown \<noteq> [] then Inl (LimitUnknownKeys name unknown) else Inr d)
      | _ \<Rightarrow> Inl (LimitNotDict name))"

text \<open>The two coverage lists: the queues must be the backend's, when it names any.\<close>

definition coverage :: "string list \<Rightarrow> string \<Rightarrow> (pyval \<times> pyval) list \<Rightarrow> limit_error + string list \<times> string list" where
  "coverage accepted name config =
     rbind (string_list name config ''tasks'') (\<lambda>paths.
     rbind (string_list name config ''queues'') (\<lambda>queues.
       if accepted \<noteq> [] \<and> \<not> set queues \<subseteq> set accepted then Inl (LimitForeignQueues name)
       else if paths = [] \<and> queues = [] then Inl (LimitCoversNothing name)
       else Inr (paths, queues)))"

section \<open>Rate limits\<close>

record rate_limit =
  rl_name :: string
  rl_limit :: int
  rl_per :: int
  rl_paths :: "string set"
  rl_queues :: "string set"

definition rl_covers :: "rate_limit \<Rightarrow> string \<Rightarrow> string \<Rightarrow> bool" where
  "rl_covers l path queue = (path \<in> rl_paths l \<or> queue \<in> rl_queues l)"

definition rate_config_keys :: "string list" where
  "rate_config_keys = [''limit'', ''per'', ''tasks'', ''queues'']"

definition max_limit_name_length :: nat where
  "max_limit_name_length = 128"

definition check_name :: "string \<Rightarrow> limit_error + unit" where
  "check_name name =
     (if name = [] then Inl LimitNameEmpty
      else if max_limit_name_length < length name then Inl (LimitNameTooLong name)
      else Inr ())"

text \<open>A \<open>timedelta\<close> rounds to whole seconds, half to even; \<open>bool\<close> is refused though it is an \<open>int\<close>.\<close>

definition period_seconds :: "pyval \<Rightarrow> int option" where
  "period_seconds per =
     (case per of PyDelta us \<Rightarrow> Some (half_even (of_int us / 1000000)) | PyInt n \<Rightarrow> Some n | _ \<Rightarrow> None)"

definition whole_count :: "pyval \<Rightarrow> int option" where
  "whole_count v = (case v of PyInt n \<Rightarrow> if n < 0 then None else Some n | _ \<Rightarrow> None)"

text \<open>\<open>_capacity\<close>\<close>

definition capacity :: "string \<Rightarrow> pyval \<Rightarrow> pyval \<Rightarrow> limit_error + int \<times> int" where
  "capacity name limit per =
     (if limit = PyNone \<or> per = PyNone then Inl (LimitNeedsBoth name)
      else case whole_count limit of
        None \<Rightarrow> Inl (LimitNotWhole name)
      | Some n \<Rightarrow>
          (case period_seconds per of
             None \<Rightarrow> Inl (PeriodNotWhole name)
           | Some s \<Rightarrow> if s < 1 then Inl (PeriodNotWhole name) else Inr (n, s)))"

text \<open>One turn of the loop of \<open>rate_limits_from_options\<close>.\<close>

definition rate_entry :: "string list \<Rightarrow> string \<times> pyval \<Rightarrow> limit_error + rate_limit" where
  "rate_entry accepted item =
     rbind (known_keys_only rate_config_keys (fst item) (snd item)) (\<lambda>config.
     rbind (check_name (fst item)) (\<lambda>_.
     rbind (capacity (fst item) (dict_or config ''limit'' PyNone) (dict_or config ''per'' PyNone))
       (\<lambda>(limit, per).
     rbind (coverage accepted (fst item) config) (\<lambda>(paths, queues).
       Inr \<lparr>rl_name = fst item, rl_limit = limit, rl_per = per, rl_paths = set paths,
            rl_queues = set queues\<rparr>))))"

text \<open>\<open>_refuse_names_a_collation_would_fold\<close>: the first pair that the loop meets.\<close>

fun folding_clash :: "(string \<times> string) list \<Rightarrow> string list \<Rightarrow> (string \<times> string) option" where
  "folding_clash folded [] = None"
| "folding_clash folded (name # names) =
     (case map_of folded (lower name) of
        Some other \<Rightarrow> Some (other, name)
      | None \<Rightarrow> folding_clash ((lower name, name) # folded) names)"

definition rate_limits_from_options ::
  "(pyval \<times> pyval) list \<Rightarrow> string list \<Rightarrow> limit_error + rate_limit list" where
  "rate_limits_from_options options accepted =
     rbind (named_items (dict_or options ''RATE_LIMITS'' (PyDict []))) (\<lambda>items.
     rbind (rmap (rate_entry accepted) items) (\<lambda>limits.
       case folding_clash [] (map rl_name limits) of
         Some (a, b) \<Rightarrow> Inl (LimitNamesFold a b)
       | None \<Rightarrow> Inr limits))"

text \<open>\<open>float(n)\<close> raises from here on.\<close>

definition float_overflow :: int where
  "float_overflow = 2 ^ 1024 - 2 ^ 970"

definition refresh_interval_from_options :: "(pyval \<times> pyval) list \<Rightarrow> limit_error + rat" where
  "refresh_interval_from_options options =
     (case (dict_or options ''RATE_REFRESH_INTERVAL'' (PyFloat (1 / 4))) of
        PyInt n \<Rightarrow> if n < 0 \<or> float_overflow \<le> n then Inl BadRefreshInterval else Inr (of_int n)
      | PyFloat q \<Rightarrow> if q < 0 then Inl BadRefreshInterval else Inr q
      | _ \<Rightarrow> Inl BadRefreshInterval)"

section \<open>Concurrency limits\<close>

record concurrency_limit =
  cl_name :: string
  cl_max :: int
  cl_paths :: "string set"
  cl_queues :: "string set"

definition cl_covers :: "concurrency_limit \<Rightarrow> string \<Rightarrow> string \<Rightarrow> bool" where
  "cl_covers l path queue = (path \<in> cl_paths l \<or> queue \<in> cl_queues l)"

definition concurrency_config_keys :: "string list" where
  "concurrency_config_keys = [''max'', ''tasks'', ''queues'']"

definition concurrency_entry :: "string list \<Rightarrow> string \<times> pyval \<Rightarrow> limit_error + concurrency_limit" where
  "concurrency_entry accepted item =
     rbind (known_keys_only concurrency_config_keys (fst item) (snd item)) (\<lambda>config.
       if fst item = [] then Inl LimitNameEmpty
       else case whole_count (dict_or config ''max'' PyNone) of
         None \<Rightarrow> Inl (LimitNotWhole (fst item))
       | Some most \<Rightarrow>
           rbind (coverage accepted (fst item) config) (\<lambda>(paths, queues).
             Inr \<lparr>cl_name = fst item, cl_max = most, cl_paths = set paths, cl_queues = set queues\<rparr>))"

definition concurrency_limits_from_options ::
  "(pyval \<times> pyval) list \<Rightarrow> string list \<Rightarrow> limit_error + concurrency_limit list" where
  "concurrency_limits_from_options options accepted =
     rbind (named_items (dict_or options ''CONCURRENCY_LIMITS'' (PyDict [])))
       (rmap (concurrency_entry accepted))"

section \<open>Unique tasks\<close>

definition unique_tasks_from_options :: "(pyval \<times> pyval) list \<Rightarrow> limit_error + string set" where
  "unique_tasks_from_options options =
     (case sequence_texts (dict_or options ''UNIQUE_TASKS'' (PyList [])) of
        None \<Rightarrow> Inl UniqueNotPaths
      | Some paths \<Rightarrow> Inr (set paths))"

section \<open>What parsing guarantees\<close>

definition coverage_ok :: "string list \<Rightarrow> string set \<Rightarrow> string set \<Rightarrow> bool" where
  "coverage_ok accepted paths queues =
     ((paths \<noteq> {} \<or> queues \<noteq> {}) \<and> (accepted = [] \<or> queues \<subseteq> set accepted))"

definition rate_limit_ok :: "string list \<Rightarrow> rate_limit \<Rightarrow> bool" where
  "rate_limit_ok accepted l =
     (rl_name l \<noteq> [] \<and> length (rl_name l) \<le> max_limit_name_length \<and> 0 \<le> rl_limit l \<and> 1 \<le> rl_per l
      \<and> coverage_ok accepted (rl_paths l) (rl_queues l))"

lemma coverage_Inr: "coverage accepted name config = Inr (paths, queues)
    \<Longrightarrow> coverage_ok accepted (set paths) (set queues)"
  by (auto simp: coverage_def coverage_ok_def rbind_Inr_iff split: if_splits)

lemma check_name_Inr: "check_name name = Inr u \<Longrightarrow> name \<noteq> [] \<and> length name \<le> max_limit_name_length"
  by (auto simp: check_name_def split: if_splits)

lemma capacity_Inr: "capacity name limit per = Inr (n, s) \<Longrightarrow> 0 \<le> n \<and> 1 \<le> s"
  by (auto simp: capacity_def whole_count_def split: if_splits option.splits pyval.splits)

lemma rate_entry_Inr:
  assumes "rate_entry accepted item = Inr l"
  shows "rate_limit_ok accepted l \<and> rl_name l = fst item"
  using assms unfolding rate_entry_def
  by (auto simp: rbind_Inr_iff rate_limit_ok_def dest: coverage_Inr check_name_Inr capacity_Inr)

lemma folding_clash_None:
  assumes "folding_clash folded names = None"
  shows "distinct (map lower names) \<and> (\<forall>n \<in> set names. map_of folded (lower n) = None)"
  using assms
proof (induction names arbitrary: folded)
  case (Cons name names)
  from Cons.prems have fresh: "map_of folded (lower name) = None"
    and rest: "folding_clash ((lower name, name) # folded) names = None"
    by (simp_all split: option.splits)
  from Cons.IH [OF rest] fresh show ?case by (auto split: if_splits)
qed simp

lemma rmap_Inr_map:
  assumes "rmap f xs = Inr ys" "\<And>x y. f x = Inr y \<Longrightarrow> g y = h x"
  shows "map g ys = map h xs"
  using assms by (induction xs arbitrary: ys) (auto simp: rbind_Inr_iff)

lemma named_items_sorted: "named_items raw = Inr items \<Longrightarrow> sorted (map fst items)"
  by (auto simp: named_items_def split: pyval.splits option.splits)

theorem rate_limits_from_options_ok:
  assumes "rate_limits_from_options options accepted = Inr limits"
  shows "sorted (map rl_name limits)" "distinct (map (\<lambda>l. lower (rl_name l)) limits)"
    "l \<in> set limits \<Longrightarrow> rate_limit_ok accepted l"
proof -
  from assms obtain items where it: "named_items (dict_or options ''RATE_LIMITS'' (PyDict [])) = Inr items"
    and rm: "rmap (rate_entry accepted) items = Inr limits"
    and cl: "folding_clash [] (map rl_name limits) = None"
    by (auto simp: rate_limits_from_options_def rbind_Inr_iff not_Some_eq [symmetric] simp del: not_Some_eq not_None_eq split: option.splits)
  have "map rl_name limits = map fst items" by (rule rmap_Inr_map [OF rm]) (simp add: rate_entry_Inr)
  with named_items_sorted [OF it] show "sorted (map rl_name limits)" by simp
  from folding_clash_None [OF cl] show "distinct (map (\<lambda>l. lower (rl_name l)) limits)"
    by (simp add: comp_def)
  show "rate_limit_ok accepted l" if "l \<in> set limits"
    using rmap_Inr_set [OF rm that] rate_entry_Inr by blast
qed

definition concurrency_limit_ok :: "string list \<Rightarrow> concurrency_limit \<Rightarrow> bool" where
  "concurrency_limit_ok accepted l =
     (cl_name l \<noteq> [] \<and> 0 \<le> cl_max l \<and> coverage_ok accepted (cl_paths l) (cl_queues l))"

lemma concurrency_limits_from_options_ok:
  assumes "concurrency_limits_from_options options accepted = Inr limits" "l \<in> set limits"
  shows "concurrency_limit_ok accepted l"
proof -
  from assms obtain items where "rmap (concurrency_entry accepted) items = Inr limits"
    by (auto simp: concurrency_limits_from_options_def rbind_Inr_iff)
  from rmap_Inr_set [OF this assms(2)] obtain item where "concurrency_entry accepted item = Inr l" by blast
  then show ?thesis unfolding concurrency_entry_def
    by (auto simp: rbind_Inr_iff concurrency_limit_ok_def whole_count_def dest: coverage_Inr
        split: if_splits option.splits pyval.splits)
qed

end
