(* ===== verification/RateWindow.thy ===== *)
theory RateWindow
  imports LimitOptions Claim
begin

text \<open>
  The part of \<open>OxpullWorker\<close> (\<open>src/oxpull/worker.py\<close>) that applies limits: the window table and
  its statements, the worker's view of the windows, the count of an admission, the view of running tasks,
  and the claim between them.  Every statement on the window table is one call of \<open>ask\<close>: what other
  sessions committed before it (\<open>turn\<close>), and whether it answers, fails, or is applied and its answer
  lost, are the environment's.  Seconds are microseconds.  \<open>coll\<close> gives the key by which the column's
  collation compares a name.
\<close>

section \<open>The window table\<close>

record window =
  limit_name :: string
  window_id :: int
  window_started_at :: int
  used :: int

type_synonym windows = "window list"

datatype answer = Answered | Failed | Silent

text \<open>The database, of which this part touches the window table; what else it holds is others'.\<close>

record database =
  wins :: windows

record 's environment =
  turn :: "nat \<Rightarrow> 's \<Rightarrow> 's"
  answer :: "nat \<Rightarrow> answer"
  db_clock :: "nat \<Rightarrow> int"
  monotonic :: "nat \<Rightarrow> int"

datatype rate_error = DatabaseDown | WindowRefused string | SharedWindow string string | NoWindow string

type_synonym 'z rate_env = "'z database_scheme environment"
type_synonym 'z session = "nat \<times> 'z database_scheme"

definition ask :: "'z rate_env \<Rightarrow> (int \<Rightarrow> windows \<Rightarrow> 'a \<times> windows)
    \<Rightarrow> 'z session \<Rightarrow> (rate_error + 'a) \<times> 'z session" where
  "ask env q d =
     (let n = fst d; s = turn env n (snd d); r = q (db_clock env n) (wins s) in
      case answer env n of
        Answered \<Rightarrow> (Inr (fst r), (n + 1, s\<lparr>wins := snd r\<rparr>))
      | Failed \<Rightarrow> (Inl DatabaseDown, (n + 1, s))
      | Silent \<Rightarrow> (Inl DatabaseDown, (n + 1, s\<lparr>wins := snd r\<rparr>)))"

definition same_name :: "(string \<Rightarrow> string) \<Rightarrow> string \<Rightarrow> window \<Rightarrow> bool" where
  "same_name coll name w = (coll (limit_name w) = coll name)"

definition update_windows :: "(window \<Rightarrow> bool) \<Rightarrow> (window \<Rightarrow> window) \<Rightarrow> windows \<Rightarrow> nat \<times> windows" where
  "update_windows p f t = (length (filter p t), map (\<lambda>w. if p w then f w else w) t)"

text \<open>The statements of \<open>_seed\<close>, \<open>_roll\<close>, \<open>_count\<close> and of the probe of a closed limit.\<close>

definition seed_window :: "(string \<Rightarrow> string) \<Rightarrow> string \<Rightarrow> int \<Rightarrow> windows \<Rightarrow> unit \<times> windows" where
  "seed_window coll name now t =
     ((), if \<exists>w \<in> set t. same_name coll name w then t
          else t @ [\<lparr>limit_name = name, window_id = 0, window_started_at = now, used = 0\<rparr>])"

definition roll_window :: "(string \<Rightarrow> string) \<Rightarrow> string \<Rightarrow> int \<Rightarrow> int \<Rightarrow> int \<Rightarrow> windows \<Rightarrow> nat \<times> windows" where
  "roll_window coll name wid period now t =
     update_windows (\<lambda>w. same_name coll name w \<and> window_id w = wid \<and> window_started_at w \<le> now - period)
       (\<lambda>w. w\<lparr>window_id := wid + 1, used := 0, window_started_at := now\<rparr>) t"

definition count_window :: "(string \<Rightarrow> string) \<Rightarrow> string \<Rightarrow> int \<Rightarrow> int \<Rightarrow> windows \<Rightarrow> nat \<times> windows" where
  "count_window coll name wid now t =
     update_windows (\<lambda>w. same_name coll name w \<and> window_id w = wid) (\<lambda>w. w\<lparr>used := used w + 1\<rparr>) t"

definition probe_window :: "(string \<Rightarrow> string) \<Rightarrow> string \<Rightarrow> int \<Rightarrow> windows \<Rightarrow> nat \<times> windows" where
  "probe_window coll name now t = update_windows (same_name coll name) (\<lambda>w. w\<lparr>used := used w\<rparr>) t"

section \<open>The worker's view\<close>

record seen_window =
  sw_window :: int
  sw_used :: int
  sw_ends_at :: int

record limiter =
  rate_limits :: "rate_limit list"
  refresh_interval :: int
  seen_windows :: "string \<Rightarrow> seen_window option"
  blocked_paths :: "string set"
  blocked_queues :: "string set"
  closed_limits :: "string set"
  count_failures :: "string \<Rightarrow> nat"
  folded_names :: "string \<Rightarrow> string option"
  view_stale :: bool
  refresh_after :: int
  conc_limits :: "concurrency_limit list"
  conc_blocked_paths :: "string set"
  conc_blocked_queues :: "string set"
  conc_stale :: bool
  conc_refresh_after :: int

definition new_limiter :: "rate_limit list \<Rightarrow> concurrency_limit list \<Rightarrow> int \<Rightarrow> limiter" where
  "new_limiter rates concs every =
     \<lparr>rate_limits = rates, refresh_interval = every, seen_windows = Map.empty, blocked_paths = {},
      blocked_queues = {}, closed_limits = {}, count_failures = (\<lambda>n. 0), folded_names = Map.empty,
      view_stale = True, refresh_after = 0, conc_limits = concs, conc_blocked_paths = {},
      conc_blocked_queues = {}, conc_stale = True, conc_refresh_after = 0\<rparr>"

text \<open>\<open>_select\<close>: each row under the limit it is, with the clock of the statement; the last of two
  rows under one name stands.\<close>

definition window_key :: "limiter \<Rightarrow> window \<Rightarrow> string" where
  "window_key l w = (case folded_names l (limit_name w) of Some n \<Rightarrow> n | None \<Rightarrow> limit_name w)"

definition select_windows :: "(string \<Rightarrow> string) \<Rightarrow> limiter \<Rightarrow> int \<Rightarrow> windows
    \<Rightarrow> (string \<Rightarrow> (window \<times> int) option) \<times> windows" where
  "select_windows coll l now t =
     (let rows = filter (\<lambda>w. \<exists>r \<in> set (rate_limits l). same_name coll (rl_name r) w) t in
      (map_of (rev (map (\<lambda>w. (window_key l w, (w, now))) rows)), t))"

text \<open>\<open>_adopt\<close>\<close>

definition adopt_window :: "limiter \<Rightarrow> string \<Rightarrow> (window \<times> int) option \<Rightarrow> rate_error + limiter \<times> (window \<times> int)" where
  "adopt_window l name found =
     (case found of
        None \<Rightarrow> Inl (WindowRefused name)
      | Some (w, now) \<Rightarrow>
          (let other = (case folded_names l (limit_name w) of
                          Some n \<Rightarrow> Some n
                        | None \<Rightarrow> if limit_name w \<in> rl_name ` set (rate_limits l) then Some (limit_name w) else None)
           in if other \<noteq> None \<and> other \<noteq> Some name then Inl (SharedWindow (the other) name)
              else Inr (l\<lparr>folded_names := (folded_names l)(limit_name w \<mapsto> name)\<rparr>, (w, now))))"

definition find_window :: "(string \<Rightarrow> string) \<Rightarrow> string \<Rightarrow> int \<Rightarrow> windows \<Rightarrow> (window \<times> int) option \<times> windows" where
  "find_window coll name now t = (map_option (\<lambda>w. (w, now)) (find (same_name coll name) t), t)"

fun seed_windows :: "'z rate_env \<Rightarrow> (string \<Rightarrow> string) \<Rightarrow> string list \<Rightarrow> 'z session \<Rightarrow> (rate_error + unit) \<times> 'z session" where
  "seed_windows env coll [] d = (Inr (), d)"
| "seed_windows env coll (name # names) d =
     (case ask env (seed_window coll name) d of
        (Inl e, d') \<Rightarrow> (Inl e, d')
      | (Inr _, d') \<Rightarrow> seed_windows env coll names d')"

fun adopt_windows :: "'z rate_env \<Rightarrow> (string \<Rightarrow> string) \<Rightarrow> string list \<Rightarrow> (string \<Rightarrow> (window \<times> int) option) \<Rightarrow> limiter
    \<Rightarrow> 'z session \<Rightarrow> (rate_error + (string \<Rightarrow> (window \<times> int) option)) \<times> limiter \<times> 'z session" where
  "adopt_windows env coll [] rows l d = (Inr rows, l, d)"
| "adopt_windows env coll (name # names) rows l d =
     (if rows name \<noteq> None then adopt_windows env coll names rows l d
      else case ask env (find_window coll name) d of
        (Inl e, d') \<Rightarrow> (Inl e, l, d')
      | (Inr found, d') \<Rightarrow>
          (case adopt_window l name found of
             Inl e \<Rightarrow> (Inl e, l, d')
           | Inr (l', row) \<Rightarrow> adopt_windows env coll names (rows(name \<mapsto> row)) l' d'))"

text \<open>\<open>_reopen_what_counts_again\<close>\<close>

fun reopen :: "'z rate_env \<Rightarrow> (string \<Rightarrow> string) \<Rightarrow> string list \<Rightarrow> limiter \<Rightarrow> 'z session \<Rightarrow> limiter \<times> 'z session" where
  "reopen env coll [] l d = (l, d)"
| "reopen env coll (name # names) l d =
     (case ask env (probe_window coll name) d of
        (Inl e, d') \<Rightarrow> reopen env coll names l d'
      | (Inr _, d') \<Rightarrow>
          reopen env coll names
            (l\<lparr>closed_limits := closed_limits l - {name}, count_failures := (count_failures l)(name := 0)\<rparr>) d')"

text \<open>The loop of \<open>_read_windows\<close> over the limits: what this worker has now seen of each, and
  whether the limit blocks.\<close>

fun visit_windows :: "'z rate_env \<Rightarrow> (string \<Rightarrow> string) \<Rightarrow> int \<Rightarrow> string set \<Rightarrow> (string \<Rightarrow> (window \<times> int) option)
    \<Rightarrow> rate_limit list \<Rightarrow> 'z session \<Rightarrow> (rate_error + (rate_limit \<times> seen_window \<times> bool) list) \<times> 'z session" where
  "visit_windows env coll started shut rows [] d = (Inr [], d)"
| "visit_windows env coll started shut rows (c # cs) d =
     (case rows (rl_name c) of
        None \<Rightarrow> (Inl (NoWindow (rl_name c)), d)
      | Some (w, now) \<Rightarrow>
          (let ends = window_started_at w + rl_per c * 1000000;
               (rolled, d') = (if ends \<le> now
                 then ask env (roll_window coll (rl_name c) (window_id w) (rl_per c * 1000000)) d
                 else (Inr 0, d))
           in case rolled of
                Inl e \<Rightarrow> (Inl e, d')
              | Inr n \<Rightarrow>
                  (let (wid, u, e) = (if n \<noteq> 0 then (window_id w + 1, 0, now + rl_per c * 1000000)
                                      else (window_id w, used w, ends));
                       seen = \<lparr>sw_window = wid, sw_used = u, sw_ends_at = started + max 0 (e - now)\<rparr>;
                       blocked = (rl_limit c \<le> u \<or> rl_name c \<in> shut)
                   in case visit_windows env coll started shut rows cs d' of
                        (Inl er, d'') \<Rightarrow> (Inl er, d'')
                      | (Inr vs, d'') \<Rightarrow> (Inr ((c, seen, blocked) # vs), d''))))"

definition install_view :: "int \<Rightarrow> (rate_limit \<times> seen_window \<times> bool) list \<Rightarrow> limiter \<Rightarrow> limiter" where
  "install_view started vs l =
     (let blocked = filter (\<lambda>(c, s, b). b) vs;
          next = started + refresh_interval l
      in l\<lparr>seen_windows := map_of (map (\<lambda>(c, s, b). (rl_name c, s)) vs),
           blocked_paths := (\<Union>(c, s, b) \<in> set blocked. rl_paths c),
           blocked_queues := (\<Union>(c, s, b) \<in> set blocked. rl_queues c),
           view_stale := False,
           refresh_after :=
             (if blocked \<noteq> [] \<and> length blocked = length (rate_limits l) \<and> closed_limits l = {}
              then max next (Min ((\<lambda>(c, s, b). sw_ends_at s) ` set blocked)) else next)\<rparr>)"

text \<open>The limits no row was read for: seed them, read again, and adopt what is still missing.\<close>

definition fill_missing :: "'z rate_env \<Rightarrow> (string \<Rightarrow> string) \<Rightarrow> (string \<Rightarrow> (window \<times> int) option) \<Rightarrow> limiter
    \<Rightarrow> 'z session \<Rightarrow> (rate_error + (string \<Rightarrow> (window \<times> int) option)) \<times> limiter \<times> 'z session" where
  "fill_missing env coll rows l d =
     (let missing = filter (\<lambda>n. rows n = None) (map rl_name (rate_limits l)) in
      if missing = [] then (Inr rows, l, d)
      else case seed_windows env coll missing d of
        (Inl e, d') \<Rightarrow> (Inl e, l, d')
      | (Inr _, d') \<Rightarrow>
          (case ask env (select_windows coll l) d' of
             (Inl e, d'') \<Rightarrow> (Inl e, l, d'')
           | (Inr rows', d'') \<Rightarrow> adopt_windows env coll missing rows' l d''))"

text \<open>\<open>_read_windows\<close>\<close>

definition read_windows :: "'z rate_env \<Rightarrow> (string \<Rightarrow> string) \<Rightarrow> limiter \<Rightarrow> 'z session
    \<Rightarrow> (rate_error + unit) \<times> limiter \<times> 'z session" where
  "read_windows env coll l0 d0 =
     (case reopen env coll (sorted_list_of_set (closed_limits l0)) l0 d0 of (l, d) \<Rightarrow>
      case ask env (select_windows coll l) d of
        (Inl e, d1) \<Rightarrow> (Inl e, l, d1)
      | (Inr rows, d1) \<Rightarrow>
          (case fill_missing env coll rows l d1 of
             (Inl e, l2, d2) \<Rightarrow> (Inl e, l2, d2)
           | (Inr rows2, l2, d2) \<Rightarrow>
               (case visit_windows env coll (monotonic env (fst d0)) (closed_limits l2) rows2 (rate_limits l2) d2 of
                  (Inl e, d3) \<Rightarrow> (Inl e, l2, d3)
                | (Inr vs, d3) \<Rightarrow> (Inr (), install_view (monotonic env (fst d0)) vs l2, d3))))"

section \<open>Counting an admission\<close>

definition max_rate_attempts :: nat where
  "max_rate_attempts = 5"

definition max_count_failures :: nat where
  "max_count_failures = 3"

text \<open>\<open>_unrecorded\<close>; \<open>_count_failed\<close> is this with a log line.\<close>

definition unrecorded :: "string \<Rightarrow> limiter \<Rightarrow> limiter" where
  "unrecorded name l =
     (let failures = count_failures l name + 1;
          l' = l\<lparr>count_failures := (count_failures l)(name := failures)\<rparr>
      in if failures < max_count_failures \<or> name \<in> closed_limits l then l'
         else l'\<lparr>closed_limits := insert name (closed_limits l')\<rparr>)"

text \<open>\<open>_count\<close>: the loop, with the attempts left.\<close>

fun count_admission :: "nat \<Rightarrow> 'z rate_env \<Rightarrow> (string \<Rightarrow> string) \<Rightarrow> string \<Rightarrow> limiter \<Rightarrow> 'z session
    \<Rightarrow> (rate_error + unit) \<times> limiter \<times> 'z session" where
  "count_admission 0 env coll name l d = (Inr (), unrecorded name l, d)"
| "count_admission (Suc k) env coll name l d =
     (case seen_windows l name of
        None \<Rightarrow> (Inr (), l, d)
      | Some s \<Rightarrow>
          (case ask env (count_window coll name (sw_window s)) d of
             (Inl e, d') \<Rightarrow> (Inr (), unrecorded name l, d')
           | (Inr n, d') \<Rightarrow>
               if n \<noteq> 0 then (Inr (), l\<lparr>count_failures := (count_failures l)(name := 0)\<rparr>, d')
               else (case read_windows env coll l d' of
                       (Inr _, l', d'') \<Rightarrow> count_admission k env coll name l' d''
                     | (Inl (NoWindow m), l', d'') \<Rightarrow> (Inl (NoWindow m), l', d'')
                     | (Inl e, l', d'') \<Rightarrow> (Inr (), unrecorded name l', d''))))"

fun count_each :: "'z rate_env \<Rightarrow> (string \<Rightarrow> string) \<Rightarrow> string list \<Rightarrow> limiter \<Rightarrow> 'z session
    \<Rightarrow> (rate_error + unit) \<times> limiter \<times> 'z session" where
  "count_each env coll [] l d = (Inr (), l, d)"
| "count_each env coll (name # names) l d =
     (case count_admission max_rate_attempts env coll name l d of
        (Inl e, l', d') \<Rightarrow> (Inl e, l', d')
      | (Inr _, l', d') \<Rightarrow> count_each env coll names l' d')"

definition conc_covers :: "limiter \<Rightarrow> ox_task \<Rightarrow> bool" where
  "conc_covers l r = (\<exists>c \<in> set (conc_limits l). cl_covers c (task_path r) (queue_name r))"

definition covering :: "limiter \<Rightarrow> ox_task \<Rightarrow> string list" where
  "covering l r = map rl_name (filter (\<lambda>c. rl_covers c (task_path r) (queue_name r)) (rate_limits l))"

text \<open>\<open>_record\<close>\<close>

definition record_admission :: "'z rate_env \<Rightarrow> (string \<Rightarrow> string) \<Rightarrow> ox_task \<Rightarrow> limiter \<Rightarrow> 'z session
    \<Rightarrow> (rate_error + unit) \<times> limiter \<times> 'z session" where
  "record_admission env coll r l0 d0 =
     (let l = (if conc_covers l0 r then l0\<lparr>conc_stale := True\<rparr> else l0) in
      case count_each env coll (covering l r) l d0 of
        (Inl e, l', d) \<Rightarrow> (Inl e, l', d)
      | (Inr _, l', d) \<Rightarrow> (Inr (), if covering l r = [] then l' else l'\<lparr>view_stale := True\<rparr>, d))"

section \<open>The view of running tasks\<close>

text \<open>\<open>ConcurrencyLimit.covered_q\<close> over the RUNNING rows.\<close>

definition running_under :: "concurrency_limit \<Rightarrow> table \<Rightarrow> nat" where
  "running_under c t =
     length (filter (\<lambda>r. status r = RUNNING \<and> cl_covers c (task_path r) (queue_name r)) t)"

definition conc_blocks :: "table \<Rightarrow> concurrency_limit \<Rightarrow> bool" where
  "conc_blocks t c = (cl_max c \<le> (if 0 < cl_max c then int (running_under c t) else 0))"

text \<open>\<open>_read_running\<close>, on the tasks its SELECT reads; \<open>fails\<close> when that raises, and it is not
  issued when every limit is 0.\<close>

definition read_running :: "int \<Rightarrow> bool \<Rightarrow> table \<Rightarrow> limiter \<Rightarrow> (rate_error + unit) \<times> limiter" where
  "read_running started fails t l =
     (if fails \<and> (\<exists>c \<in> set (conc_limits l). 0 < cl_max c) then (Inl DatabaseDown, l\<lparr>conc_stale := True\<rparr>)
      else
        (let blocked = filter (conc_blocks t) (conc_limits l) in
         (Inr (), l\<lparr>conc_stale := False, conc_blocked_paths := (\<Union>c \<in> set blocked. cl_paths c),
           conc_blocked_queues := (\<Union>c \<in> set blocked. cl_queues c),
           conc_refresh_after := started + refresh_interval l\<rparr>)))"

section \<open>The claim\<close>

text \<open>\<open>_refresh_view\<close>\<close>

definition refresh_view :: "'z rate_env \<Rightarrow> (string \<Rightarrow> string) \<Rightarrow> bool \<Rightarrow> table \<Rightarrow> limiter \<Rightarrow> 'z session
    \<Rightarrow> (rate_error + unit) \<times> limiter \<times> 'z session" where
  "refresh_view env coll fails t l0 d0 =
     (let now = monotonic env (fst d0);
          (r, l, d) = (if rate_limits l0 \<noteq> [] \<and> (view_stale l0 \<or> refresh_after l0 \<le> now)
                       then read_windows env coll l0 d0 else (Inr (), l0, d0))
      in case r of
           Inl e \<Rightarrow> (Inl e, l, d)
         | Inr _ \<Rightarrow>
             if conc_limits l \<noteq> [] \<and> (conc_stale l \<or> conc_refresh_after l \<le> now)
             then (case read_running (monotonic env (fst d)) fails t l of (r', l') \<Rightarrow> (r', l', d))
             else (Inr (), l, d))"

text \<open>\<open>_excluded\<close>, and the condition it puts on a claim.\<close>

definition excluded :: "limiter \<Rightarrow> string set \<times> string set" where
  "excluded l = (blocked_paths l \<union> conc_blocked_paths l, blocked_queues l \<union> conc_blocked_queues l)"

definition admits :: "limiter \<Rightarrow> ox_task \<Rightarrow> bool" where
  "admits l r = (task_path r \<notin> fst (excluded l) \<and> queue_name r \<notin> snd (excluded l))"

text \<open>\<open>_oxpull_condition_q\<close> and \<open>_oxpull_condition_sql\<close> are one condition, \<open>None\<close> where neither
  a limit nor the workflow gate applies; \<open>gate\<close> is the workflow condition where the backend has one.\<close>

definition oxpull_condition :: "(ox_task \<Rightarrow> bool) option \<Rightarrow> limiter \<Rightarrow> (ox_task \<Rightarrow> bool) option" where
  "oxpull_condition gate l =
     (if gate = None \<and> fst (excluded l) = {} \<and> snd (excluded l) = {} then None
      else Some (\<lambda>r. passes gate r \<and> admits l r))"

text \<open>\<open>_q_with_oxpull_conditions\<close> and \<open>_sql_with_oxpull_conditions\<close>; an empty fragment is \<open>None\<close>.\<close>

definition both_pass :: "(ox_task \<Rightarrow> bool) option \<Rightarrow> (ox_task \<Rightarrow> bool) option \<Rightarrow> (ox_task \<Rightarrow> bool) option" where
  "both_pass p q = (if p = None then q else if q = None then p else Some (\<lambda>r. the p r \<and> the q r))"

definition with_oxpull_conditions :: "claim_filter \<Rightarrow> (ox_task \<Rightarrow> bool) option \<Rightarrow> limiter \<Rightarrow> claim_filter" where
  "with_oxpull_conditions f gate l =
     \<lparr>filter_q = both_pass (filter_q f) (oxpull_condition gate l),
      filter_sql =
        (if filter_sql f = None \<and> filter_q f \<noteq> None then None
         else both_pass (filter_sql f) (oxpull_condition gate l))\<rparr>"

text \<open>\<open>OxpullWorker.claim_one\<close>: \<open>fails\<close> and \<open>tr\<close> are the fate and the tasks of the count of running
  rows, \<open>take_task\<close> django-ox's claim under a filter.\<close>

definition claim_limited :: "'z rate_env \<Rightarrow> (string \<Rightarrow> string) \<Rightarrow> claim_filter \<Rightarrow> (ox_task \<Rightarrow> bool) option
    \<Rightarrow> bool \<Rightarrow> table \<Rightarrow> (claim_filter \<Rightarrow> ox_task option) \<Rightarrow> limiter \<Rightarrow> 'z session
    \<Rightarrow> (rate_error + ox_task option) \<times> limiter \<times> 'z session" where
  "claim_limited env coll f gate fails tr take_task l0 d0 =
     (if rate_limits l0 = [] \<and> conc_limits l0 = []
      then (Inr (take_task (with_oxpull_conditions f gate l0)), l0, d0)
      else case refresh_view env coll fails tr l0 d0 of
        (Inl e, l, d) \<Rightarrow> (Inl e, l, d)
      | (Inr _, l, d) \<Rightarrow>
          (case take_task (with_oxpull_conditions f gate l) of
             None \<Rightarrow> (Inr None, l, d)
           | Some r \<Rightarrow>
               (case record_admission env coll r l d of
                  (Inl e, l', d') \<Rightarrow> (Inl e, l', d')
                | (Inr _, l', d') \<Rightarrow> (Inr (Some r), l', d'))))"

end
