(* ===== verification/RateBudget.thy ===== *)
theory RateBudget
  imports Prelude
begin

text \<open>
  What a rate limit promises, for one limit of capacity \<open>cap\<close> and workers numbered below \<open>W\<close>:
  a worker admits one task after each look that found the window below capacity, and then counts it, or
  loses the count.  \<open>started\<close> and \<open>uncounted\<close> are those of the window that is open, so a roll
  clears them.  The bound is the one the head of \<open>src/oxpull/worker.py\<close> states.
\<close>

datatype budget_phase = Resting | Armed | Pending

record budget =
  tokens :: int
  started :: int
  uncounted :: int
  phase_of :: "nat \<Rightarrow> budget_phase"

datatype budget_act = Look nat | Admit nat | Count nat | Lose nat | Roll

fun budget_step :: "int \<Rightarrow> nat \<Rightarrow> budget_act \<Rightarrow> budget \<Rightarrow> budget option" where
  "budget_step cap W (Look w) b =
     (if w < W \<and> phase_of b w \<noteq> Pending \<and> tokens b < cap
      then Some (b\<lparr>phase_of := (phase_of b)(w := Armed)\<rparr>) else None)"
| "budget_step cap W (Admit w) b =
     (if w < W \<and> phase_of b w = Armed
      then Some (b\<lparr>started := started b + 1, phase_of := (phase_of b)(w := Pending)\<rparr>) else None)"
| "budget_step cap W (Count w) b =
     (if w < W \<and> phase_of b w = Pending
      then Some (b\<lparr>tokens := tokens b + 1, phase_of := (phase_of b)(w := Resting)\<rparr>) else None)"
| "budget_step cap W (Lose w) b =
     (if w < W \<and> phase_of b w = Pending
      then Some (b\<lparr>uncounted := uncounted b + 1, phase_of := (phase_of b)(w := Resting)\<rparr>) else None)"
| "budget_step cap W Roll b = Some (b\<lparr>tokens := 0, started := 0, uncounted := 0\<rparr>)"

fun budget_run :: "int \<Rightarrow> nat \<Rightarrow> budget_act list \<Rightarrow> budget \<Rightarrow> budget option" where
  "budget_run cap W [] b = Some b"
| "budget_run cap W (a # as) b =
     (case budget_step cap W a b of None \<Rightarrow> None | Some b' \<Rightarrow> budget_run cap W as b')"

definition fresh_budget :: budget where
  "fresh_budget = \<lparr>tokens = 0, started = 0, uncounted = 0, phase_of = (\<lambda>w. Resting)\<rparr>"

lemma budget_run_append:
  "budget_run cap W (as @ bs) b = (case budget_run cap W as b of None \<Rightarrow> None | Some b' \<Rightarrow> budget_run cap W bs b')"
  by (induction as arbitrary: b) (simp_all split: option.splits)

section \<open>The bound\<close>

definition tally :: "nat \<Rightarrow> budget_phase \<Rightarrow> (nat \<Rightarrow> budget_phase) \<Rightarrow> int" where
  "tally W p ph = int (length (filter (\<lambda>w. ph w = p) [0..<W]))"

lemma tally_update:
  "tally W p (ph(w := q)) =
    tally W p ph + (if w < W then (if p = q then 1 else 0) - (if ph w = p then 1 else 0) else 0)"
proof (induction W)
  case (Suc W)
  then show ?case by (cases "w = W") (auto simp: tally_def less_Suc_eq)
qed (simp add: tally_def)

lemma tally_nonneg: "0 \<le> tally W p ph"
  by (simp add: tally_def)

lemma tally_disjoint: "tally W Armed ph + tally W Pending ph \<le> int W"
  by (induction W) (auto simp: tally_def)

definition budget_inv :: "int \<Rightarrow> nat \<Rightarrow> budget \<Rightarrow> bool" where
  "budget_inv cap W b =
     (0 \<le> tokens b \<and> 0 \<le> uncounted b
      \<and> started b \<le> tokens b + uncounted b + tally W Pending (phase_of b)
      \<and> (cap \<le> tokens b \<longrightarrow> started b + tally W Armed (phase_of b) \<le> cap + uncounted b + int W - 1)
      \<and> (cap = 0 \<longrightarrow> started b = 0 \<and> tally W Armed (phase_of b) = 0))"

lemma tally_pos: "w < W \<Longrightarrow> ph w = p \<Longrightarrow> 0 < tally W p ph"
  by (auto simp: tally_def filter_empty_conv)

lemma budget_step_inv:
  assumes "budget_inv cap W b" "budget_step cap W a b = Some b'" "0 < W" "0 \<le> cap"
  shows "budget_inv cap W b'"
proof (cases a)
  case (Look w)
  with assms show ?thesis by (auto simp: budget_inv_def tally_update split: if_splits)
next
  case (Admit w)
  with assms tally_pos [of w W "phase_of b" Armed] show ?thesis
    by (auto simp: budget_inv_def tally_update split: if_splits)
next
  case (Count w)
  with assms tally_disjoint [of W "phase_of b"] show ?thesis
    by (auto simp: budget_inv_def tally_update split: if_splits)
next
  case (Lose w)
  with assms show ?thesis by (auto simp: budget_inv_def tally_update split: if_splits)
next
  case Roll
  with assms tally_nonneg [of W Pending "phase_of b"] show ?thesis by (auto simp: budget_inv_def)
qed

lemma fresh_budget_inv: "0 < W \<Longrightarrow> 0 \<le> cap \<Longrightarrow> budget_inv cap W fresh_budget"
  by (auto simp: budget_inv_def fresh_budget_def tally_def)

lemma budget_run_inv:
  assumes "budget_inv cap W b" "budget_run cap W as b = Some b'" "0 < W" "0 \<le> cap"
  shows "budget_inv cap W b'"
  using assms
proof (induction as arbitrary: b)
  case (Cons a as)
  then show ?case by (auto split: option.splits dest: budget_step_inv)
qed simp

lemma budget_inv_bound:
  assumes "budget_inv cap W b"
  shows "started b \<le> cap + int W - 1 + uncounted b"
  using assms tally_nonneg [of W Armed "phase_of b"] tally_nonneg [of W Pending "phase_of b"]
    tally_disjoint [of W "phase_of b"]
  by (cases "cap \<le> tokens b") (auto simp: budget_inv_def)

lemma single_worker_exact:
  assumes "budget_run cap 1 as fresh_budget = Some b" "0 \<le> cap"
  shows "started b \<le> cap + uncounted b"
  using budget_inv_bound [OF budget_run_inv [OF fresh_budget_inv assms(1)]] assms(2) by simp

end
