(* ===== verification/RateRefine.thy ===== *)
theory RateRefine
  imports RateWindow RateBudget
begin

text \<open>
  The window table implements the budget.  \<open>tracks\<close> reads the budget of one limit \<open>c\<close> off the table,
  for the worker \<open>me\<close>; the other workers' phases are part of the state that others change.  What
  others do before a statement is any run of the budget in which \<open>me\<close> takes no part (\<open>fair\<close>).
  Every operation of the worker is then a run of the budget, with one admission exactly where it claims a
  task the limit covers.
\<close>

section \<open>Reading the budget off the table\<close>

record rivals = database +
  rival_phase :: "nat \<Rightarrow> budget_phase"

definition wins_ok :: "(string \<Rightarrow> string) \<Rightarrow> windows \<Rightarrow> bool" where
  "wins_ok coll t = distinct (map (\<lambda>w. coll (limit_name w)) t)"

definition used_at :: "(string \<Rightarrow> string) \<Rightarrow> string \<Rightarrow> windows \<Rightarrow> int" where
  "used_at coll name t = (case find (same_name coll name) t of None \<Rightarrow> 0 | Some w \<Rightarrow> used w)"

definition tracks :: "(string \<Rightarrow> string) \<Rightarrow> rate_limit \<Rightarrow> nat \<Rightarrow> rivals \<Rightarrow> budget \<Rightarrow> bool" where
  "tracks coll c me s b =
     (wins_ok coll (wins s) \<and> tokens b = used_at coll (rl_name c) (wins s)
      \<and> (\<forall>v. v \<noteq> me \<longrightarrow> phase_of b v = rival_phase s v))"

fun foreign :: "nat \<Rightarrow> budget_act \<Rightarrow> bool" where
  "foreign me (Look w) = (w \<noteq> me)"
| "foreign me (Admit w) = (w \<noteq> me)"
| "foreign me (Count w) = (w \<noteq> me)"
| "foreign me (Lose w) = (w \<noteq> me)"
| "foreign me Roll = True"

definition admissions :: "nat \<Rightarrow> budget_act list \<Rightarrow> nat" where
  "admissions me as = length (filter (\<lambda>a. a = Admit me) as)"

definition fair :: "(string \<Rightarrow> string) \<Rightarrow> rate_limit \<Rightarrow> nat \<Rightarrow> nat \<Rightarrow> (rivals \<Rightarrow> rivals) \<Rightarrow> bool" where
  "fair coll c W me f =
     (\<forall>s b. tracks coll c me s b \<longrightarrow>
        (\<exists>as b'. list_all (foreign me) as \<and> budget_run (rl_limit c) W as b = Some b' \<and> tracks coll c me (f s) b'))"

text \<open>A run of the budget with \<open>k\<close> admissions of \<open>me\<close>, and one that leaves \<open>me\<close> where it was or arms it.\<close>

definition runs :: "rate_limit \<Rightarrow> nat \<Rightarrow> nat \<Rightarrow> nat \<Rightarrow> budget \<Rightarrow> budget \<Rightarrow> bool" where
  "runs c W me k b b' = (\<exists>as. budget_run (rl_limit c) W as b = Some b' \<and> admissions me as = k)"

definition eased :: "nat \<Rightarrow> budget \<Rightarrow> budget \<Rightarrow> bool" where
  "eased me b b' = (phase_of b' me = phase_of b me \<or> phase_of b me = Resting \<and> phase_of b' me = Armed)"

definition drifts :: "rate_limit \<Rightarrow> nat \<Rightarrow> nat \<Rightarrow> budget \<Rightarrow> budget \<Rightarrow> bool" where
  "drifts c W me b b' = (runs c W me 0 b b' \<and> eased me b b')"

lemma runs_trans: "runs c W me j b b' \<Longrightarrow> runs c W me k b' b'' \<Longrightarrow> runs c W me (j + k) b b''"
proof -
  assume "runs c W me j b b'" "runs c W me k b' b''"
  then obtain as bs where "budget_run (rl_limit c) W as b = Some b'" "admissions me as = j"
    "budget_run (rl_limit c) W bs b' = Some b''" "admissions me bs = k" by (auto simp: runs_def)
  then show ?thesis
    by (intro runs_def [THEN iffD2] exI [of _ "as @ bs"]) (simp add: budget_run_append admissions_def)
qed

lemma runs_act:
  "budget_step (rl_limit c) W a b = Some b' \<Longrightarrow> runs c W me (if a = Admit me then 1 else 0) b b'"
  unfolding runs_def by (intro exI [of _ "[a]"]) (simp add: admissions_def)

lemma drifts_refl [simp]: "drifts c W me b b"
  unfolding drifts_def runs_def eased_def by (auto intro: exI [of _ "[]"] simp: admissions_def)

lemma drifts_trans: "drifts c W me b b' \<Longrightarrow> drifts c W me b' b'' \<Longrightarrow> drifts c W me b b''"
  unfolding drifts_def using runs_trans [of c W me 0 b b' 0 b''] by (auto simp: eased_def)

lemma foreign_step_phase:
  "budget_step cap W a b = Some b' \<Longrightarrow> foreign me a \<Longrightarrow> phase_of b' me = phase_of b me"
  by (cases a) (auto split: if_splits)

lemma foreign_run_phase:
  "budget_run cap W as b = Some b' \<Longrightarrow> list_all (foreign me) as \<Longrightarrow> phase_of b' me = phase_of b me"
  by (induction as arbitrary: b) (auto split: option.splits dest: foreign_step_phase)

lemma foreign_no_admissions: "list_all (foreign me) as \<Longrightarrow> admissions me as = 0"
  by (auto simp: admissions_def filter_empty_conv list_all_iff)

lemma turn_drifts:
  assumes "fair coll c W me f" "tracks coll c me s b"
  obtains b' where "drifts c W me b b'" "tracks coll c me (f s) b'"
proof -
  from assms obtain as b' where a: "list_all (foreign me) as" "budget_run (rl_limit c) W as b = Some b'"
    "tracks coll c me (f s) b'" unfolding fair_def by blast
  with foreign_run_phase foreign_no_admissions have "drifts c W me b b'"
    unfolding drifts_def runs_def eased_def by blast
  with a(3) that show thesis by blast
qed

section \<open>The statements\<close>

lemma window_of_name:
  assumes "wins_ok coll t" "w \<in> set t" "same_name coll name w"
  shows "find (same_name coll name) t = Some w"
  using assms by (induction t) (auto simp: wins_ok_def same_name_def image_iff)

lemma find_other_name:
  assumes "coll name \<noteq> coll nm" "\<And>w. p w \<Longrightarrow> same_name coll name w" "\<And>w. limit_name (f w) = limit_name w"
  shows "find (same_name coll nm) (map (\<lambda>w. if p w then f w else w) t) = find (same_name coll nm) t"
  using assms by (induction t) (auto simp: same_name_def)

lemma find_this_name:
  assumes "\<And>w. limit_name (f w) = limit_name w"
  shows "find (same_name coll nm) (map (\<lambda>w. if p w then f w else w) t)
    = map_option (\<lambda>w. if p w then f w else w) (find (same_name coll nm) t)"
  using assms by (induction t) (auto simp: same_name_def)

lemma update_wins_ok:
  assumes "wins_ok coll t" "\<And>w. limit_name (f w) = limit_name w"
  shows "wins_ok coll (map (\<lambda>w. if p w then f w else w) t)"
proof -
  have "map (\<lambda>w. coll (limit_name w)) (map (\<lambda>w. if p w then f w else w) t) = map (\<lambda>w. coll (limit_name w)) t"
    using assms(2) by (induction t) auto
  with assms(1) show ?thesis unfolding wins_ok_def by (simp only:)
qed

lemma update_effect:
  assumes u: "update_windows p f t = (k, t')" and ok: "wins_ok coll t"
    and name: "\<And>w. p w \<Longrightarrow> same_name coll name w" and keep: "\<And>w. limit_name (f w) = limit_name w"
  shows "wins_ok coll t'"
    and "k = 0 \<or> coll name \<noteq> coll nm \<Longrightarrow> used_at coll nm t' = used_at coll nm t"
    and "k \<noteq> 0 \<Longrightarrow> coll name = coll nm \<Longrightarrow>
      \<exists>w. find (same_name coll nm) t = Some w \<and> find (same_name coll nm) t' = Some (f w)"
proof -
  have t': "t' = map (\<lambda>w. if p w then f w else w) t" and k: "k = length (filter p t)"
    using u by (auto simp: update_windows_def)
  show "wins_ok coll t'" unfolding t' by (rule update_wins_ok [OF ok keep])
  show "used_at coll nm t' = used_at coll nm t" if "k = 0 \<or> coll name \<noteq> coll nm"
  proof (cases "k = 0")
    case True
    then have "\<forall>w \<in> set t. \<not> p w" by (auto simp: k filter_empty_conv)
    then have "t' = t" unfolding t' by (simp add: map_idI)
    then show ?thesis by simp
  next
    case False
    with that find_other_name [OF _ name keep, of nm] show ?thesis by (simp add: used_at_def t')
  qed
  assume "k \<noteq> 0" and same: "coll name = coll nm"
  then obtain w where w: "w \<in> set t" "p w" by (auto simp: k filter_empty_conv)
  with window_of_name [OF ok, of w nm] name [of w] same have "find (same_name coll nm) t = Some w"
    by (simp add: same_name_def)
  with w show "\<exists>w. find (same_name coll nm) t = Some w \<and> find (same_name coll nm) t' = Some (f w)"
    unfolding t' by (auto simp: find_this_name [OF keep])
qed

lemma roll_effect:
  assumes "roll_window coll name wid period now (wins s) = (k, t)" "tracks coll c me s b"
  shows "\<exists>b'. drifts c W me b b' \<and> tracks coll c me (s\<lparr>wins := t\<rparr>) b'
    \<and> (k \<noteq> 0 \<and> coll name = coll (rl_name c) \<longrightarrow> tokens b' = 0)"
proof -
  note u = assms(1) [unfolded roll_window_def]
  have ok: "wins_ok coll (wins s)" using assms(2) by (simp add: tracks_def)
  note eff = update_effect [OF u ok, of name]
  show ?thesis
  proof (cases "k \<noteq> 0 \<and> coll name = coll (rl_name c)")
    case True
    then obtain w where "find (same_name coll (rl_name c)) t = Some (w\<lparr>window_id := wid + 1, used := 0, window_started_at := now\<rparr>)"
      using eff(3) [of "rl_name c"] by auto
    then have z: "used_at coll (rl_name c) t = 0" by (simp add: used_at_def)
    let ?b = "b\<lparr>tokens := 0, started := 0, uncounted := 0\<rparr>"
    have "runs c W me 0 b ?b" using runs_act [of c W Roll b ?b me] by simp
    then have "drifts c W me b ?b" by (simp add: drifts_def eased_def)
    moreover have "tracks coll c me (s\<lparr>wins := t\<rparr>) ?b" using assms(2) eff(1) z by (auto simp: tracks_def)
    ultimately show ?thesis by (intro exI [of _ ?b]) simp
  next
    case False
    then have "tracks coll c me (s\<lparr>wins := t\<rparr>) b"
      using assms(2) eff(1) eff(2) [of "rl_name c"] by (auto simp: tracks_def)
    with False drifts_refl show ?thesis by blast
  qed
qed

lemma count_effect:
  assumes "count_window coll name wid now (wins s) = (k, t)" "tracks coll c me s b"
  shows "wins_ok coll t" "k = 0 \<or> coll name \<noteq> coll (rl_name c) \<Longrightarrow> tracks coll c me (s\<lparr>wins := t\<rparr>) b"
    "k \<noteq> 0 \<Longrightarrow> coll name = coll (rl_name c) \<Longrightarrow>
      tracks coll c me (s\<lparr>wins := t\<rparr>) (b\<lparr>tokens := tokens b + 1, phase_of := (phase_of b)(me := p)\<rparr>)"
proof -
  note u = assms(1) [unfolded count_window_def]
  have ok: "wins_ok coll (wins s)" using assms(2) by (simp add: tracks_def)
  note eff = update_effect [OF u ok, of name]
  show "wins_ok coll t" by (rule eff(1)) simp_all
  then show "k = 0 \<or> coll name \<noteq> coll (rl_name c) \<Longrightarrow> tracks coll c me (s\<lparr>wins := t\<rparr>) b"
    using assms(2) eff(2) [of "rl_name c"] by (auto simp: tracks_def)
  assume "k \<noteq> 0" "coll name = coll (rl_name c)"
  with eff(3) [of "rl_name c"] have "used_at coll (rl_name c) t = used_at coll (rl_name c) (wins s) + 1"
    by (auto simp: used_at_def)
  with assms(2) \<open>wins_ok coll t\<close> show
    "tracks coll c me (s\<lparr>wins := t\<rparr>) (b\<lparr>tokens := tokens b + 1, phase_of := (phase_of b)(me := p)\<rparr>)"
    by (auto simp: tracks_def)
qed

lemma probe_effect:
  assumes "tracks coll c me s b"
  shows "tracks coll c me (s\<lparr>wins := snd (probe_window coll name now (wins s))\<rparr>) b"
proof -
  have "snd (probe_window coll name now t) = t" for t
    by (simp add: probe_window_def update_windows_def)
  with assms show ?thesis by simp
qed

lemma seed_effect:
  assumes "tracks coll c me s b"
  shows "tracks coll c me (s\<lparr>wins := snd (seed_window coll name now (wins s))\<rparr>) b"
proof (cases "\<exists>w \<in> set (wins s). same_name coll name w")
  case False
  then have "coll name \<notin> (\<lambda>w. coll (limit_name w)) ` set (wins s)" by (auto simp: same_name_def)
  moreover have "find p (t @ [w]) = (case find p t of None \<Rightarrow> if p w then Some w else None | Some v \<Rightarrow> Some v)"
    for p :: "window \<Rightarrow> bool" and t w by (induction t) auto
  ultimately show ?thesis using assms False
    by (auto simp: tracks_def seed_window_def wins_ok_def used_at_def split: option.splits)
qed (use assms in \<open>simp add: seed_window_def\<close>)

text \<open>One statement: others' turn, and then the statement's own effect where it was applied.\<close>

lemma ask_cases:
  assumes "ask env q (n, s) = (r, d')"
  obtains (applied) a t where "q (db_clock env n) (wins (turn env n s)) = (a, t)"
      "d' = (n + 1, (turn env n s)\<lparr>wins := t\<rparr>)" "r = Inr a \<or> r = Inl DatabaseDown"
  | (refused) "d' = (n + 1, turn env n s)" "r = Inl DatabaseDown"
  using assms
  by (cases "q (db_clock env n) (wins (turn env n s))")
    (auto simp: ask_def Let_def split: answer.splits)

lemma ask_drifts:
  assumes f: "\<forall>n. fair coll c W me (turn env n)" and tr: "tracks coll c me s b"
    and a: "ask env q (n, s) = (r, (n', s'))"
    and eff: "\<And>now s b. tracks coll c me s b \<Longrightarrow> tracks coll c me (s\<lparr>wins := snd (q now (wins s))\<rparr>) b"
  shows "\<exists>b'. drifts c W me b b' \<and> tracks coll c me s' b'"
proof -
  obtain b1 where b1: "drifts c W me b b1" "tracks coll c me (turn env n s) b1"
    by (rule turn_drifts [OF f [rule_format] tr])
  from a show ?thesis
  proof (cases rule: ask_cases)
    case (applied x t)
    with eff [OF b1(2), of "db_clock env n"] b1 show ?thesis by auto
  next
    case refused
    with b1 show ?thesis by auto
  qed
qed

section \<open>Reading the windows\<close>

definition reading :: "rate_limit \<Rightarrow> nat \<Rightarrow> budget \<Rightarrow> bool" where
  "reading c me b = (phase_of b me \<noteq> Resting)"

lemma drifts_reading: "drifts c W me b b' \<Longrightarrow> reading c me b \<Longrightarrow> reading c me b'"
  by (auto simp: drifts_def eased_def reading_def)

text \<open>A look at a window with room arms the worker.\<close>

lemma look_drifts:
  assumes "tracks coll c me s b" "me < W"
  shows "\<exists>b'. drifts c W me b b' \<and> tracks coll c me s b'
    \<and> (used_at coll (rl_name c) (wins s) < rl_limit c \<longrightarrow> reading c me b')"
proof (cases "phase_of b me = Resting \<and> used_at coll (rl_name c) (wins s) < rl_limit c")
  case True
  let ?b = "b\<lparr>phase_of := (phase_of b)(me := Armed)\<rparr>"
  have "runs c W me 0 b ?b" using runs_act [of c W "Look me" b ?b me] True assms by (simp add: tracks_def)
  then have "drifts c W me b ?b" using True by (simp add: drifts_def eased_def)
  moreover have "tracks coll c me s ?b" using assms by (simp add: tracks_def)
  ultimately show ?thesis by (intro exI [of _ ?b]) (simp add: reading_def)
next
  case False
  with assms drifts_refl [of c W me b] show ?thesis
    by (intro exI [of _ b]) (auto simp: reading_def tracks_def)
qed

definition folds_ok :: "(string \<Rightarrow> string) \<Rightarrow> limiter \<Rightarrow> bool" where
  "folds_ok coll l = (\<forall>x n. folded_names l x = Some n \<longrightarrow> coll x = coll n)"

definition row_seen :: "rate_limit \<Rightarrow> nat \<Rightarrow> (string \<Rightarrow> (window \<times> int) option) \<Rightarrow> budget \<Rightarrow> bool" where
  "row_seen c me rows b =
     (\<forall>w now. rows (rl_name c) = Some (w, now) \<longrightarrow> used w < rl_limit c \<longrightarrow> reading c me b)"

lemma row_seen_drifts: "row_seen c me rows b \<Longrightarrow> drifts c W me b b' \<Longrightarrow> row_seen c me rows b'"
  by (auto simp: row_seen_def dest: drifts_reading)

lemma selected_row:
  assumes "folds_ok coll l" "wins_ok coll t" "fst (select_windows coll l now t) name = Some (w, m)"
  shows "used w = used_at coll name t"
proof -
  from assms(3) have "w \<in> set t" and k: "window_key l w = name"
    by (auto simp: select_windows_def Let_def dest!: map_of_SomeD)
  moreover have "same_name coll name w"
    using assms(1) k by (auto simp: window_key_def folds_ok_def same_name_def split: option.splits)
  ultimately show ?thesis using window_of_name [OF assms(2)] by (simp add: used_at_def)
qed

lemma select_drifts:
  assumes f: "\<forall>n. fair coll c W me (turn env n)" and tr: "tracks coll c me s b" and me: "me < W"
    and fo: "folds_ok coll l" and a: "ask env (select_windows coll l) (n, s) = (r, (n', s'))"
  shows "\<exists>b'. drifts c W me b b' \<and> tracks coll c me s' b' \<and> (case r of Inl e \<Rightarrow> True | Inr rows \<Rightarrow> row_seen c me rows b')"
proof -
  obtain b1 where b1: "drifts c W me b b1" "tracks coll c me (turn env n s) b1"
    by (rule turn_drifts [OF f [rule_format] tr])
  have s': "s' = turn env n s" using a
    by (cases rule: ask_cases) (auto simp: select_windows_def Let_def)
  obtain b2 where b2: "drifts c W me b1 b2" "tracks coll c me s' b2"
    "used_at coll (rl_name c) (wins s') < rl_limit c \<longrightarrow> reading c me b2"
    using look_drifts [OF b1(2) me] s' by auto
  have "row_seen c me rows b2" if "r = Inr rows" for rows
  proof -
    have rows: "rows = fst (select_windows coll l (db_clock env n) (wins s'))"
      using a that s' by (cases rule: ask_cases) (auto simp: prod_eq_iff)
    have "wins_ok coll (wins s')" using b2(2) by (simp add: tracks_def)
    from selected_row [OF fo this] b2(3) show ?thesis unfolding row_seen_def rows by metis
  qed
  then show ?thesis using drifts_trans [OF b1(1) b2(1)] b2(2) by (cases r) auto
qed

lemma roll_drifts:
  assumes f: "\<forall>n. fair coll c W me (turn env n)" and tr: "tracks coll c me s b" and me: "me < W"
    and a: "ask env (roll_window coll name wid p) (n, s) = (r, (n', s'))"
  shows "\<exists>b'. drifts c W me b b' \<and> tracks coll c me s' b'
    \<and> (\<forall>k. r = Inr k \<and> k \<noteq> 0 \<and> coll name = coll (rl_name c) \<and> 0 < rl_limit c \<longrightarrow> reading c me b')"
proof -
  obtain b1 where b1: "drifts c W me b b1" "tracks coll c me (turn env n s) b1"
    by (rule turn_drifts [OF f [rule_format] tr])
  from a show ?thesis
  proof (cases rule: ask_cases)
    case (applied k t)
    from roll_effect [OF applied(1) b1(2)] obtain b2 where b2: "drifts c W me b1 b2" "tracks coll c me s' b2"
      "k \<noteq> 0 \<and> coll name = coll (rl_name c) \<longrightarrow> tokens b2 = 0" using applied(2) by auto
    obtain b3 where b3: "drifts c W me b2 b3" "tracks coll c me s' b3"
      "used_at coll (rl_name c) (wins s') < rl_limit c \<longrightarrow> reading c me b3"
      using look_drifts [OF b2(2) me] by blast
    have "k \<noteq> 0 \<and> coll name = coll (rl_name c) \<and> 0 < rl_limit c \<longrightarrow> reading c me b3"
      using b2 b3 by (auto simp: tracks_def)
    moreover have "drifts c W me b b3" by (rule drifts_trans [OF b1(1) drifts_trans [OF b2(1) b3(1)]])
    ultimately show ?thesis using applied(3) b3(2) by auto
  next
    case refused
    with b1 show ?thesis by auto
  qed
qed

lemma seeds_drift:
  assumes f: "\<forall>n. fair coll c W me (turn env n)" and tr: "tracks coll c me s b"
    and a: "seed_windows env coll names (n, s) = (r, (n', s'))"
  shows "\<exists>b'. drifts c W me b b' \<and> tracks coll c me s' b'"
  using tr a
proof (induction names arbitrary: n s b)
  case Nil
  then show ?case by (intro exI [of _ b]) simp
next
  case (Cons name names)
  obtain r1 n1 s1 where q: "ask env (seed_window coll name) (n, s) = (r1, (n1, s1))" by (metis prod_cases3)
  from ask_drifts [OF f Cons.prems(1) q seed_effect]
  obtain b1 where b1: "drifts c W me b b1" "tracks coll c me s1 b1" by blast
  from Cons.prems(2) q show ?case
  proof (cases r1)
    case (Inl e)
    with Cons.prems(2) q b1 show ?thesis by auto
  next
    case (Inr u)
    with Cons.prems(2) q Cons.IH [OF b1(2), of n1] drifts_trans [OF b1(1)] show ?thesis by auto
  qed
qed

definition view_kept :: "limiter \<Rightarrow> limiter \<Rightarrow> bool" where
  "view_kept l l' =
     (rate_limits l' = rate_limits l \<and> seen_windows l' = seen_windows l \<and> blocked_paths l' = blocked_paths l
      \<and> blocked_queues l' = blocked_queues l \<and> view_stale l' = view_stale l)"

lemma view_kept_trans: "view_kept l l' \<Longrightarrow> view_kept l' l'' \<Longrightarrow> view_kept l l''"
  by (simp add: view_kept_def)

lemma adopt_window_Inr:
  assumes "adopt_window l name found = Inr (l', row)" "folds_ok coll l"
    and "\<And>w now. found = Some (w, now) \<Longrightarrow> same_name coll name w"
  shows "found = Some row \<and> folds_ok coll l' \<and> view_kept l l'"
  using assms
  by (auto simp: adopt_window_def Let_def folds_ok_def view_kept_def same_name_def split: option.splits if_splits)

lemma adopts_drift:
  assumes f: "\<forall>n. fair coll c W me (turn env n)" and me: "me < W"
    and a: "adopt_windows env coll names rows l (n, s) = (r, l', (n', s'))"
    and tr: "tracks coll c me s b" and fo: "folds_ok coll l" and seen: "row_seen c me rows b"
  shows "\<exists>b'. drifts c W me b b' \<and> tracks coll c me s' b' \<and> folds_ok coll l' \<and> view_kept l l'
    \<and> (case r of Inl e \<Rightarrow> True | Inr rows' \<Rightarrow> row_seen c me rows' b')"
  using a tr fo seen
proof (induction names arbitrary: rows l n s b)
  case Nil
  then show ?case by (intro exI [of _ b]) (auto simp: view_kept_def)
next
  case (Cons name names)
  show ?case
  proof (cases "rows name = None")
    case False
    with Cons.IH [OF _ Cons.prems(2-4)] Cons.prems(1) show ?thesis by auto
  next
    case True
    obtain r1 n1 s1 where q: "ask env (find_window coll name) (n, s) = (r1, (n1, s1))" by (metis prod_cases3)
    obtain b1 where b1: "drifts c W me b b1" "tracks coll c me (turn env n s) b1"
      by (rule turn_drifts [OF f [rule_format] Cons.prems(2)])
    have s1: "s1 = turn env n s"
      and found: "\<And>x. r1 = Inr x \<Longrightarrow> x = map_option (\<lambda>w. (w, db_clock env n)) (find (same_name coll name) (wins s1))"
      using q by (cases rule: ask_cases; auto simp: find_window_def)+
    obtain b2 where b2: "drifts c W me b b2" "tracks coll c me s1 b2"
      "used_at coll (rl_name c) (wins s1) < rl_limit c \<longrightarrow> reading c me b2"
      using look_drifts [OF b1(2) me] s1 drifts_trans [OF b1(1)] by blast
    note seen2 = row_seen_drifts [OF Cons.prems(4) b2(1)]
    show ?thesis
    proof (cases r1)
      case (Inl e)
      with Cons.prems(1,3) True q b2 show ?thesis by (auto simp: view_kept_def)
    next
      case (Inr x)
      show ?thesis
      proof (cases "adopt_window l name x")
        case (Inl e)
        with Inr Cons.prems(1,3) True q b2 show ?thesis by (auto simp: view_kept_def)
      next
        fix y assume y: "adopt_window l name x = Inr y"
        obtain l1 row where ad: "adopt_window l name x = Inr (l1, row)" using y by (metis surj_pair)
        have "same_name coll name w" if "x = Some (w, now)" for w now
          using found [OF Inr] that
          by (cases "find (same_name coll name) (wins s1)") (auto simp: find_Some_iff)
        from adopt_window_Inr [OF ad Cons.prems(3) this] have ad': "x = Some row" "folds_ok coll l1" "view_kept l l1"
          by auto
        have "row_seen c me (rows(name \<mapsto> row)) b2"
          using seen2 found [OF Inr] ad'(1) b2(3) by (auto simp: row_seen_def used_at_def split: option.splits)
        note seen3 = this
        have "adopt_windows env coll names (rows(name \<mapsto> row)) l1 (n1, s1) = (r, l', n', s')"
          using Cons.prems(1) True q Inr ad by simp
        from Cons.IH [OF this b2(2) ad'(2) seen3]
        obtain b3 where "drifts c W me b2 b3" "tracks coll c me s' b3" "folds_ok coll l'" "view_kept l1 l'"
          "case r of Inl e \<Rightarrow> True | Inr rows' \<Rightarrow> row_seen c me rows' b3" by blast
        with drifts_trans [OF b2(1)] view_kept_trans [OF ad'(3)] show ?thesis by blast
      qed
    qed
  qed
qed

lemma reopen_drift:
  assumes f: "\<forall>n. fair coll c W me (turn env n)" and tr: "tracks coll c me s b"
    and a: "reopen env coll names l (n, s) = (l', (n', s'))"
  shows "\<exists>b'. drifts c W me b b' \<and> tracks coll c me s' b' \<and> view_kept l l' \<and> folded_names l' = folded_names l"
  using tr a
proof (induction names arbitrary: n s b l)
  case Nil
  then show ?case by (intro exI [of _ b]) (auto simp: view_kept_def)
next
  case (Cons name names)
  obtain r1 n1 s1 where q: "ask env (probe_window coll name) (n, s) = (r1, (n1, s1))" by (metis prod_cases3)
  from ask_drifts [OF f Cons.prems(1) q probe_effect]
  obtain b1 where b1: "drifts c W me b b1" "tracks coll c me s1 b1" by blast
  let ?l = "case r1 of Inl e \<Rightarrow> l | Inr u \<Rightarrow>
    l\<lparr>closed_limits := closed_limits l - {name}, count_failures := (count_failures l)(name := 0)\<rparr>"
  have k: "view_kept l ?l" "folded_names ?l = folded_names l" by (auto simp: view_kept_def split: sum.splits)
  have "reopen env coll names ?l (n1, s1) = (l', (n', s'))"
    using Cons.prems(2) q by (cases r1) auto
  from Cons.IH [OF b1(2) this] obtain b2 where b2: "drifts c W me b1 b2" "tracks coll c me s' b2"
    "view_kept ?l l'" "folded_names l' = folded_names ?l" by blast
  with drifts_trans [OF b1(1) b2(1)] view_kept_trans [OF k(1) b2(3)] k(2) show ?case by auto
qed

definition apart :: "(string \<Rightarrow> string) \<Rightarrow> rate_limit \<Rightarrow> rate_limit list \<Rightarrow> bool" where
  "apart coll c cs = (\<forall>c' \<in> set cs. coll (rl_name c') = coll (rl_name c) \<longrightarrow> c' = c)"

lemma visit_drift:
  assumes f: "\<forall>n. fair coll c W me (turn env n)" and me: "me < W"
    and a: "visit_windows env coll t0 shut rows cs (n, s) = (r, (n', s'))"
    and tr: "tracks coll c me s b" and seen: "row_seen c me rows b" and ap: "apart coll c cs"
  shows "\<exists>b'. drifts c W me b b' \<and> tracks coll c me s' b'
    \<and> (\<forall>vs. r = Inr vs \<longrightarrow> map fst vs = cs \<and> (\<forall>sn. (c, sn, False) \<in> set vs \<longrightarrow> reading c me b'))"
  using a tr seen ap
proof (induction cs arbitrary: r n s b)
  case Nil
  then show ?case by (intro exI [of _ b]) auto
next
  case (Cons c1 cs)
  show ?case
  proof (cases "rows (rl_name c1)")
    case None
    with Cons.prems show ?thesis by (intro exI [of _ b]) auto
  next
    case (Some wn)
    obtain w now where wn: "wn = (w, now)" by fastforce
    define ends where "ends = window_started_at w + rl_per c1 * 1000000"
    obtain r1 n1 s1 where q: "(if ends \<le> now then ask env (roll_window coll (rl_name c1) (window_id w) (rl_per c1 * 1000000)) (n, s)
        else (Inr 0, (n, s))) = (r1, (n1, s1))" by (metis prod_cases3)
    obtain b1 where b1: "drifts c W me b b1" "tracks coll c me s1 b1"
      "\<forall>k. r1 = Inr k \<and> k \<noteq> 0 \<and> coll (rl_name c1) = coll (rl_name c) \<and> 0 < rl_limit c \<longrightarrow> reading c me b1"
    proof (cases "ends \<le> now")
      case True
      with q have "ask env (roll_window coll (rl_name c1) (window_id w) (rl_per c1 * 1000000)) (n, s) = (r1, (n1, s1))"
        by simp
      from roll_drifts [OF f Cons.prems(2) me this] that show thesis by blast
    next
      case False
      with q Cons.prems(2) that [of b] show thesis by auto
    qed
    show ?thesis
    proof (cases r1)
      case (Inl e)
      with Cons.prems(1) Some wn q b1 show ?thesis
        by (intro exI [of _ b1]) (auto simp: ends_def [symmetric] Let_def)
    next
      case (Inr k)
      obtain r2 d2 where v: "visit_windows env coll t0 shut rows cs (n1, s1) = (r2, d2)" by (metis surj_pair)
      have out: "d2 = (n', s')" "\<And>vs. r = Inr vs \<Longrightarrow> \<exists>sn ws. r2 = Inr ws
          \<and> vs = (c1, sn, rl_limit c1 \<le> (if k \<noteq> 0 then 0 else used w) \<or> rl_name c1 \<in> shut) # ws"
        using Cons.prems(1) Some wn q Inr v
        by (auto simp: ends_def [symmetric] Let_def split: sum.splits if_splits)
      have ap: "apart coll c cs" using Cons.prems(4) by (simp add: apart_def)
      from Cons.IH [OF v [unfolded out(1)] b1(2) row_seen_drifts [OF Cons.prems(3) b1(1)] ap]
      obtain b2 where b2: "drifts c W me b1 b2" "tracks coll c me s' b2"
        "\<forall>vs. r2 = Inr vs \<longrightarrow> map fst vs = cs \<and> (\<forall>sn. (c, sn, False) \<in> set vs \<longrightarrow> reading c me b2)" by blast
      have "reading c me b1" if "c1 = c" "\<not> rl_limit c1 \<le> (if k \<noteq> 0 then 0 else used w)"
        using that b1(3) Inr row_seen_drifts [OF Cons.prems(3) b1(1)] Some wn
        by (auto simp: row_seen_def split: if_splits)
      with drifts_reading [OF b2(1)] out(2) b2(3)
      have "\<forall>vs. r = Inr vs \<longrightarrow> map fst vs = c1 # cs \<and> (\<forall>sn. (c, sn, False) \<in> set vs \<longrightarrow> reading c me b2)"
        by fastforce
      with drifts_trans [OF b1(1) b2(1)] b2(2) show ?thesis by blast
    qed
  qed
qed

text \<open>Whether the installed view lets the worker claim some task the limit covers.\<close>

definition opens :: "limiter \<Rightarrow> rate_limit \<Rightarrow> bool" where
  "opens l c = (\<exists>p q. rl_covers c p q \<and> p \<notin> blocked_paths l \<and> q \<notin> blocked_queues l)"

lemma install_view_facts:
  assumes "c \<in> set (map fst vs)"
  shows "view_stale (install_view t0 vs l) = False"
    and "rate_limits (install_view t0 vs l) = rate_limits l"
    and "folded_names (install_view t0 vs l) = folded_names l"
    and "seen_windows (install_view t0 vs l) (rl_name c) \<noteq> None"
    and "opens (install_view t0 vs l) c \<Longrightarrow> \<exists>sn. (c, sn, False) \<in> set vs"
proof -
  show "view_stale (install_view t0 vs l) = False" "rate_limits (install_view t0 vs l) = rate_limits l"
    "folded_names (install_view t0 vs l) = folded_names l"
    by (simp_all add: install_view_def Let_def)
  from assms obtain sn bl where v: "(c, sn, bl) \<in> set vs" by auto
  then have "rl_name c \<in> fst ` set (map (\<lambda>(c, s, b). (rl_name c, s)) vs)" by force
  then show "seen_windows (install_view t0 vs l) (rl_name c) \<noteq> None"
    by (simp add: install_view_def Let_def map_of_eq_None_iff del: set_map)
  assume "opens (install_view t0 vs l) c"
  then have "\<not> bl" using v by (auto simp: opens_def install_view_def Let_def rl_covers_def) blast+
  with v show "\<exists>sn. (c, sn, False) \<in> set vs" by auto
qed

lemma fill_drift:
  assumes f: "\<forall>n. fair coll c W me (turn env n)" and me: "me < W"
    and a: "fill_missing env coll rows l (n, s) = (r, l', (n', s'))"
    and tr: "tracks coll c me s b" and fo: "folds_ok coll l" and seen: "row_seen c me rows b"
  shows "\<exists>b'. drifts c W me b b' \<and> tracks coll c me s' b' \<and> folds_ok coll l' \<and> view_kept l l'
    \<and> (case r of Inl e \<Rightarrow> True | Inr rows' \<Rightarrow> row_seen c me rows' b')"
proof -
  define missing where "missing = filter (\<lambda>n. rows n = None) (map rl_name (rate_limits l))"
  show ?thesis
  proof (cases "missing = []")
    case True
    with a tr fo seen show ?thesis
      by (intro exI [of _ b]) (auto simp: fill_missing_def missing_def [symmetric] view_kept_def)
  next
    case False
    obtain rs na sa where sd: "seed_windows env coll missing (n, s) = (rs, (na, sa))" by (metis prod_cases3)
    from seeds_drift [OF f tr sd] obtain ba where ba: "drifts c W me b ba" "tracks coll c me sa ba" by blast
    obtain rb nb sb where sl: "ask env (select_windows coll l) (na, sa) = (rb, (nb, sb))" by (metis prod_cases3)
    from select_drifts [OF f ba(2) me fo sl] obtain bb where bb: "drifts c W me ba bb" "tracks coll c me sb bb"
      "case rb of Inl e \<Rightarrow> True | Inr rows \<Rightarrow> row_seen c me rows bb" by blast
    note dbb = drifts_trans [OF ba(1) bb(1)]
    have a: "(case rs of Inl e \<Rightarrow> (Inl e, l, (na, sa)) | Inr _ \<Rightarrow>
        (case rb of Inl e \<Rightarrow> (Inl e, l, (nb, sb)) | Inr rows' \<Rightarrow> adopt_windows env coll missing rows' l (nb, sb)))
        = (r, l', (n', s'))"
      using a False sd sl unfolding fill_missing_def Let_def missing_def [symmetric] by (auto split: sum.splits)
    consider e where "rs = Inl e" | u e where "rs = Inr u" "rb = Inl e" | u rows' where "rs = Inr u" "rb = Inr rows'"
      by (cases rs; cases rb) auto
    then show ?thesis
    proof cases
      case 1
      with a ba fo show ?thesis by (intro exI [of _ ba]) (auto simp: view_kept_def)
    next
      case 2
      with a dbb bb(2) fo show ?thesis by (intro exI [of _ bb]) (auto simp: view_kept_def)
    next
      case 3
      with a have "adopt_windows env coll missing rows' l (nb, sb) = (r, l', (n', s'))" by simp
      moreover have "row_seen c me rows' bb" using bb(3) 3 by simp
      ultimately obtain b3 where "drifts c W me bb b3" "tracks coll c me s' b3 \<and> folds_ok coll l' \<and> view_kept l l'
          \<and> (case r of Inl e \<Rightarrow> True | Inr rows' \<Rightarrow> row_seen c me rows' b3)"
        using adopts_drift [OF f me _ bb(2) fo] by blast
      with drifts_trans [OF dbb] show ?thesis by blast
    qed
  qed
qed

lemma read_drift:
  assumes f: "\<forall>n. fair coll c W me (turn env n)" and me: "me < W"
    and a: "read_windows env coll l (n, s) = (r, l', (n', s'))"
    and tr: "tracks coll c me s b" and fo: "folds_ok coll l"
    and c: "c \<in> set (rate_limits l)" and ap: "apart coll c (rate_limits l)"
  shows "\<exists>b'. drifts c W me b b' \<and> tracks coll c me s' b' \<and> folds_ok coll l' \<and> rate_limits l' = rate_limits l
    \<and> (case r of Inl e \<Rightarrow> view_kept l l'
       | Inr u \<Rightarrow> \<not> view_stale l' \<and> seen_windows l' (rl_name c) \<noteq> None \<and> (opens l' c \<longrightarrow> reading c me b'))"
proof -
  obtain l1 n1 s1 where o: "reopen env coll (sorted_list_of_set (closed_limits l)) l (n, s) = (l1, (n1, s1))"
    by (metis prod_cases3)
  from reopen_drift [OF f tr o] obtain b1 where b1: "drifts c W me b b1" "tracks coll c me s1 b1"
    and k1: "view_kept l l1" "folded_names l1 = folded_names l" by blast
  have fo1: "folds_ok coll l1" using fo k1(2) by (simp add: folds_ok_def)
  obtain r2 n2 s2 where q: "ask env (select_windows coll l1) (n1, s1) = (r2, (n2, s2))" by (metis prod_cases3)
  from select_drifts [OF f b1(2) me fo1 q] obtain b2 where b2: "drifts c W me b1 b2" "tracks coll c me s2 b2"
    "case r2 of Inl e \<Rightarrow> True | Inr rows \<Rightarrow> row_seen c me rows b2" by blast
  note d2 = drifts_trans [OF b1(1) b2(1)]
  show ?thesis
  proof (cases r2)
    case (Inl e)
    with a o q d2 b2(2) fo1 k1 show ?thesis
      by (intro exI [of _ b2]) (auto simp: read_windows_def view_kept_def)
  next
    case (Inr rows)
    obtain r3 l3 n3 s3 where p: "fill_missing env coll rows l1 (n2, s2) = (r3, l3, (n3, s3))" by (metis prod_cases4)
    have "row_seen c me rows b2" using b2(3) Inr by simp
    from fill_drift [OF f me p b2(2) fo1 this] obtain b3 where
      b3: "drifts c W me b2 b3" "tracks coll c me s3 b3" "folds_ok coll l3" "view_kept l1 l3"
        "case r3 of Inl e \<Rightarrow> True | Inr rows' \<Rightarrow> row_seen c me rows' b3" by blast
    note d3 = drifts_trans [OF d2 b3(1)]
    have kk: "view_kept l l3" by (rule view_kept_trans [OF k1(1) b3(4)])
    then have lims: "rate_limits l3 = rate_limits l" by (simp add: view_kept_def)
    show ?thesis
    proof (cases r3)
      case e: (Inl e)
      with a o q Inr p d3 b3 kk lims show ?thesis by (intro exI [of _ b3]) (auto simp: read_windows_def)
    next
      case rows2: (Inr rows2)
      obtain rv nv sv where v: "visit_windows env coll (monotonic env n) (closed_limits l3) rows2 (rate_limits l3)
        (n3, s3) = (rv, (nv, sv))" by (metis prod_cases3)
      have seen: "row_seen c me rows2 b3" using b3(5) rows2 by simp
      from visit_drift [OF f me v b3(2) seen] ap lims obtain b4 where
        b4: "drifts c W me b3 b4" "tracks coll c me sv b4"
          "\<forall>vs. rv = Inr vs \<longrightarrow> map fst vs = rate_limits l3 \<and> (\<forall>sn. (c, sn, False) \<in> set vs \<longrightarrow> reading c me b4)"
        by auto
      note d4 = drifts_trans [OF d3 b4(1)]
      show ?thesis
      proof (cases rv)
        case (Inl e)
        with a o q Inr p rows2 v d4 b4(2) b3(3) kk lims show ?thesis
          by (intro exI [of _ b4]) (auto simp: read_windows_def)
      next
        case vs: (Inr vs)
        with a o q Inr p rows2 v have out: "r = Inr ()" "l' = install_view (monotonic env n) vs l3" "s' = sv"
          by (auto simp: read_windows_def)
        have "c \<in> set (map fst vs)" using b4(3) vs c lims by simp
        note inst = install_view_facts [OF this, of "monotonic env n" l3]
        from b3(3) have "folds_ok coll l'" unfolding out folds_ok_def inst(3) .
        with out d4 b4 vs inst lims show ?thesis by (intro exI [of _ b4]) auto
      qed
    qed
  qed
qed

section \<open>Counting\<close>

definition same_limits :: "(string \<Rightarrow> string) \<Rightarrow> rate_limit \<Rightarrow> limiter \<Rightarrow> limiter \<Rightarrow> bool" where
  "same_limits coll c l l' =
     (folds_ok coll l' \<and> rate_limits l' = rate_limits l
      \<and> (seen_windows l (rl_name c) \<noteq> None \<longrightarrow> seen_windows l' (rl_name c) \<noteq> None))"

lemma unrecorded_keeps [simp]:
  "rate_limits (unrecorded name l) = rate_limits l" "folded_names (unrecorded name l) = folded_names l"
  "seen_windows (unrecorded name l) = seen_windows l" "view_stale (unrecorded name l) = view_stale l"
  by (simp_all add: unrecorded_def Let_def)

lemma folds_ok_unrecorded [simp]: "folds_ok coll (unrecorded name l) = folds_ok coll l"
  by (simp add: folds_ok_def)

lemma count_ask_other:
  assumes f: "\<forall>n. fair coll c W me (turn env n)" and tr: "tracks coll c me s b"
    and a: "ask env (count_window coll name wid) (n, s) = (r, (n', s'))" and ne: "coll name \<noteq> coll (rl_name c)"
  shows "\<exists>b'. drifts c W me b b' \<and> tracks coll c me s' b'"
proof (rule ask_drifts [OF f tr a])
  fix now s b assume "tracks coll c me s b"
  with ne show "tracks coll c me (s\<lparr>wins := snd (count_window coll name wid now (wins s))\<rparr>) b"
    by (metis count_effect(2) prod.collapse)
qed

lemma count_other:
  assumes f: "\<forall>n. fair coll c W me (turn env n)" and me: "me < W" and ne: "coll name \<noteq> coll (rl_name c)"
    and c: "c \<in> set (rate_limits l)" and ap: "apart coll c (rate_limits l)"
    and a: "count_admission k env coll name l (n, s) = (r, l', (n', s'))"
    and tr: "tracks coll c me s b" and fo: "folds_ok coll l"
  shows "\<exists>b'. drifts c W me b b' \<and> tracks coll c me s' b' \<and> same_limits coll c l l'"
  using a tr fo c ap
proof (induction k arbitrary: l n s b)
  case 0
  then show ?case by (intro exI [of _ b]) (auto simp: same_limits_def)
next
  case (Suc k)
  show ?case
  proof (cases "seen_windows l name")
    case None
    with Suc.prems show ?thesis by (intro exI [of _ b]) (auto simp: same_limits_def)
  next
    case (Some sw)
    obtain r1 n1 s1 where q: "ask env (count_window coll name (sw_window sw)) (n, s) = (r1, (n1, s1))"
      by (metis prod_cases3)
    from count_ask_other [OF f Suc.prems(2) q ne] obtain b1 where
      b1: "drifts c W me b b1" "tracks coll c me s1 b1" by blast
    obtain r2 l2 n2 s2 where rd: "read_windows env coll l (n1, s1) = (r2, l2, (n2, s2))" by (metis prod_cases4)
    from read_drift [OF f me rd b1(2) Suc.prems(3-5)] obtain b2 where
      b2: "drifts c W me b1 b2" "tracks coll c me s2 b2" "same_limits coll c l l2"
      unfolding same_limits_def by (cases r2) (auto simp: view_kept_def)
    note d2 = drifts_trans [OF b1(1) b2(1)]
    have done1: ?thesis if "r1 = Inl e \<or> (\<exists>m. r1 = Inr m \<and> m \<noteq> 0)" for e
      using that Suc.prems q Some b1
      by (intro exI [of _ b1]) (auto simp: same_limits_def folds_ok_def)
    show ?thesis
    proof (cases r1)
      case (Inl e)
      with done1 show ?thesis by blast
    next
      case (Inr m)
      show ?thesis
      proof (cases "m = 0")
        case False
        with done1 Inr show ?thesis by blast
      next
        case True
        show ?thesis
        proof (cases r2)
          case (Inl e)
          with Inr True Suc.prems(1) Some q rd d2 b2 show ?thesis
            by (intro exI [of _ b2]) (cases e; auto simp: same_limits_def folds_ok_def)
        next
          case r2: (Inr u)
          with Inr True Suc.prems(1) Some q rd
          have "count_admission k env coll name l2 (n2, s2) = (r, l', (n', s'))" by simp
          from Suc.IH [OF this b2(2)] b2(3) Suc.prems(4,5) drifts_trans [OF d2] show ?thesis
            by (auto simp: same_limits_def)
        qed
      qed
    qed
  qed
qed

text \<open>The limit's own count: the admission is counted or lost, unless the window's row itself is gone.\<close>

definition settles :: "rate_limit \<Rightarrow> nat \<Rightarrow> nat \<Rightarrow> rate_error + unit \<Rightarrow> budget \<Rightarrow> budget \<Rightarrow> bool" where
  "settles c W me r b b' = (runs c W me 0 b b' \<and> (case r of Inr u \<Rightarrow> phase_of b' me = Resting | Inl e \<Rightarrow> phase_of b' me = Pending))"

lemma drifts_settles: "drifts c W me b b' \<Longrightarrow> settles c W me r b' b'' \<Longrightarrow> settles c W me r b b''"
  using runs_trans [of c W me 0 b b' 0 b''] by (auto simp: drifts_def settles_def)

lemma drifts_pending: "drifts c W me b b' \<Longrightarrow> phase_of b me = Pending \<Longrightarrow> phase_of b' me = Pending"
  by (simp add: drifts_def eased_def)

lemma lose_settles:
  assumes "phase_of b me = Pending" "me < W" "tracks coll c me s b"
  shows "\<exists>b'. settles c W me (Inr ()) b b' \<and> tracks coll c me s b'"
proof -
  let ?b = "b\<lparr>uncounted := uncounted b + 1, phase_of := (phase_of b)(me := Resting)\<rparr>"
  have "runs c W me 0 b ?b" using runs_act [of c W "Lose me" b ?b me] assms by simp
  moreover have "tracks coll c me s ?b" using assms(3) by (simp add: tracks_def)
  ultimately show ?thesis by (intro exI [of _ ?b]) (simp add: settles_def)
qed

lemma count_settles:
  assumes k: "count_window coll (rl_name c) wid now (wins s) = (m, t)" "m \<noteq> 0"
    and b: "phase_of b me = Pending" "me < W" "tracks coll c me s b"
  shows "\<exists>b'. settles c W me (Inr ()) b b' \<and> tracks coll c me (s\<lparr>wins := t\<rparr>) b'"
proof -
  let ?b = "b\<lparr>tokens := tokens b + 1, phase_of := (phase_of b)(me := Resting)\<rparr>"
  have "runs c W me 0 b ?b" using runs_act [of c W "Count me" b ?b me] b by simp
  moreover have "tracks coll c me (s\<lparr>wins := t\<rparr>) ?b" using count_effect(3) [OF k(1) b(3) k(2)] by simp
  ultimately show ?thesis by (intro exI [of _ ?b]) (simp add: settles_def)
qed

text \<open>The increment: it landed, or its answer was lost, or it matched nothing and the worker goes on.\<close>

lemma count_ask_self:
  assumes f: "\<forall>n. fair coll c W me (turn env n)" and me: "me < W" and tr: "tracks coll c me s b"
    and p: "phase_of b me = Pending"
    and a: "ask env (count_window coll (rl_name c) wid) (n, s) = (r, (n', s'))"
  shows "if r = Inr 0 then \<exists>b'. drifts c W me b b' \<and> tracks coll c me s' b'
    else \<exists>b'. settles c W me (Inr ()) b b' \<and> tracks coll c me s' b'"
proof -
  obtain b1 where b1: "drifts c W me b b1" "tracks coll c me (turn env n s) b1"
    by (rule turn_drifts [OF f [rule_format] tr])
  note p1 = drifts_pending [OF b1(1) p]
  from a show ?thesis
  proof (cases rule: ask_cases)
    case (applied m t)
    show ?thesis
    proof (cases "m = 0")
      case True
      with count_effect(2) [OF applied(1) b1(2)] applied(2) have "tracks coll c me s' b1" by simp
      with True applied(3) b1(1) lose_settles [OF p1 me this] drifts_settles [OF b1(1)] show ?thesis by auto
    next
      case False
      from count_settles [OF applied(1) this p1 me b1(2)] applied(2,3) False drifts_settles [OF b1(1)]
      show ?thesis by auto
    qed
  next
    case refused
    with lose_settles [OF p1 me b1(2)] drifts_settles [OF b1(1)] show ?thesis by auto
  qed
qed

lemma count_self:
  assumes f: "\<forall>n. fair coll c W me (turn env n)" and me: "me < W"
    and c: "c \<in> set (rate_limits l)" and ap: "apart coll c (rate_limits l)"
    and a: "count_admission k env coll (rl_name c) l (n, s) = (r, l', (n', s'))"
    and tr: "tracks coll c me s b" and fo: "folds_ok coll l" and p: "phase_of b me = Pending"
    and seen: "seen_windows l (rl_name c) \<noteq> None"
  shows "\<exists>b'. settles c W me r b b' \<and> tracks coll c me s' b' \<and> same_limits coll c l l'"
  using a tr fo c ap p seen
proof (induction k arbitrary: l n s b)
  case 0
  with lose_settles [OF 0(6) me 0(2)] show ?case by (auto simp: same_limits_def)
next
  case (Suc k)
  from Suc.prems(7) obtain sw where Some: "seen_windows l (rl_name c) = Some sw" by blast
  obtain r1 n1 s1 where q: "ask env (count_window coll (rl_name c) (sw_window sw)) (n, s) = (r1, (n1, s1))"
    by (metis prod_cases3)
  note asked = count_ask_self [OF f me Suc.prems(2,6) q]
  show ?case
  proof (cases "r1 = Inr 0")
    case False
    with Suc.prems(1) Some q have "r = Inr ()" "s' = s1" "same_limits coll c l l'"
      using Suc.prems(3) by (auto simp: same_limits_def folds_ok_def split: sum.splits)
    with asked False show ?thesis by auto
  next
    case True
    with asked obtain b1 where b1: "drifts c W me b b1" "tracks coll c me s1 b1" by auto
    obtain r2 l2 n2 s2 where rd: "read_windows env coll l (n1, s1) = (r2, l2, (n2, s2))" by (metis prod_cases4)
    from read_drift [OF f me rd b1(2) Suc.prems(3-5)] obtain b2 where
      b2: "drifts c W me b1 b2" "tracks coll c me s2 b2" "folds_ok coll l2" "rate_limits l2 = rate_limits l"
        "case r2 of Inl e \<Rightarrow> view_kept l l2
       | Inr u \<Rightarrow> \<not> view_stale l2 \<and> seen_windows l2 (rl_name c) \<noteq> None \<and> (opens l2 c \<longrightarrow> reading c me b2)" by blast
    note d2 = drifts_trans [OF b1(1) b2(1)]
    note p2 = drifts_pending [OF d2 Suc.prems(6)]
    have sl: "same_limits coll c l l2" using b2(3-5) by (cases r2) (auto simp: same_limits_def view_kept_def)
    show ?thesis
    proof (cases r2)
      case (Inl e)
      show ?thesis
      proof (cases "\<exists>m. e = NoWindow m")
        case True
        with Inl Suc.prems(1) Some q rd \<open>r1 = Inr 0\<close> have "r = Inl e" "s' = s2" "l' = l2" by auto
        with sl d2 p2 b2(2) show ?thesis
          by (intro exI [of _ b2]) (auto simp: settles_def drifts_def)
      next
        case False
        with Inl Suc.prems(1) Some q rd \<open>r1 = Inr 0\<close> have "r = Inr ()" "s' = s2" "l' = unrecorded (rl_name c) l2"
          by (cases e; auto)+
        with lose_settles [OF p2 me b2(2)] drifts_settles [OF d2] sl show ?thesis
          by (auto simp: same_limits_def)
      qed
    next
      case (Inr u)
      with True Suc.prems(1) Some q rd
      have "count_admission k env coll (rl_name c) l2 (n2, s2) = (r, l', (n', s'))" by simp
      from Suc.IH [OF this b2(2,3) _ _ p2] b2(4,5) Inr Suc.prems(4,5) drifts_settles [OF d2] show ?thesis
        by (auto simp: same_limits_def)
    qed
  qed
qed

lemma each_other:
  assumes f: "\<forall>n. fair coll c W me (turn env n)" and me: "me < W"
    and "count_each env coll names l (n, s) = (r, l', (n', s'))" "tracks coll c me s b" "folds_ok coll l"
    "c \<in> set (rate_limits l)" "apart coll c (rate_limits l)" "\<forall>x \<in> set names. coll x \<noteq> coll (rl_name c)"
  shows "\<exists>b'. drifts c W me b b' \<and> tracks coll c me s' b' \<and> same_limits coll c l l'"
  using assms(3-8)
proof (induction names arbitrary: l n s b)
  case Nil
  then show ?case by (intro exI [of _ b]) (auto simp: same_limits_def)
next
  case (Cons name names)
  obtain r1 l1 n1 s1 where q: "count_admission max_rate_attempts env coll name l (n, s) = (r1, l1, (n1, s1))"
    by (metis prod_cases4)
  have "coll name \<noteq> coll (rl_name c)" using Cons.prems(6) by simp
  from count_other [OF f me this Cons.prems(4,5) q Cons.prems(2,3)] obtain b1 where
    b1: "drifts c W me b b1" "tracks coll c me s1 b1" "same_limits coll c l l1" by blast
  show ?case
  proof (cases r1)
    case (Inl e)
    with Cons.prems(1) q b1 show ?thesis by (auto simp: same_limits_def)
  next
    case (Inr u)
    with Cons.prems(1) q have "count_each env coll names l1 (n1, s1) = (r, l', (n', s'))" by simp
    from Cons.IH [OF this b1(2)] b1(3) Cons.prems(4-6) drifts_trans [OF b1(1)] show ?thesis
      by (auto simp: same_limits_def)
  qed
qed

lemma count_each_append:
  "count_each env coll (xs @ ys) l d = (case count_each env coll xs l d of
     (Inl e, l', d') \<Rightarrow> (Inl e, l', d') | (Inr _, l', d') \<Rightarrow> count_each env coll ys l' d')"
  by (induction xs arbitrary: l d) (auto split: prod.splits sum.splits)

section \<open>The claim\<close>

text \<open>Between two claims the worker is not mid-count, and a view that is not stale and leaves room was
  read under an armed phase.\<close>

definition rate_sim :: "(string \<Rightarrow> string) \<Rightarrow> rate_limit \<Rightarrow> nat \<Rightarrow> limiter \<Rightarrow> rivals \<Rightarrow> budget \<Rightarrow> bool" where
  "rate_sim coll c me l s b =
     (tracks coll c me s b \<and> folds_ok coll l \<and> c \<in> set (rate_limits l) \<and> apart coll c (rate_limits l)
      \<and> distinct (rate_limits l) \<and> phase_of b me \<noteq> Pending
      \<and> (\<not> view_stale l \<longrightarrow> seen_windows l (rl_name c) \<noteq> None \<and> (opens l c \<longrightarrow> phase_of b me = Armed)))"

lemma new_limiter_sim:
  assumes "tracks coll c me s b" "c \<in> set rates" "apart coll c rates" "distinct rates" "phase_of b me \<noteq> Pending"
  shows "rate_sim coll c me (new_limiter rates concs every) s b"
  using assms by (simp add: rate_sim_def new_limiter_def folds_ok_def)

lemma opens_cong:
  "blocked_paths l' = blocked_paths l \<Longrightarrow> blocked_queues l' = blocked_queues l \<Longrightarrow> opens l' c = opens l c"
  by (simp add: opens_def)

lemma rate_sim_cong:
  assumes "rate_limits l' = rate_limits l" "folded_names l' = folded_names l" "seen_windows l' = seen_windows l"
    "blocked_paths l' = blocked_paths l" "blocked_queues l' = blocked_queues l" "view_stale l' = view_stale l"
  shows "rate_sim coll c me l' s b = rate_sim coll c me l s b"
  using assms opens_cong [OF assms(4,5)] by (simp add: rate_sim_def folds_ok_def)

lemma read_running_keeps:
  assumes "read_running t0 fails t l = (r, l')"
  shows "rate_sim coll c me l' s b = rate_sim coll c me l s b" "view_stale l' = view_stale l"
    "blocked_paths l' = blocked_paths l" "blocked_queues l' = blocked_queues l"
proof -
  show "rate_sim coll c me l' s b = rate_sim coll c me l s b"
    by (rule rate_sim_cong) (use assms in \<open>auto simp: read_running_def Let_def split: if_splits\<close>)
qed (use assms in \<open>auto simp: read_running_def Let_def split: if_splits\<close>)

lemma refresh_path:
  assumes f: "\<forall>n. fair coll c W me (turn env n)" and me: "me < W" and sim: "rate_sim coll c me l s b"
    and a: "refresh_view env coll fails t l (n, s) = (r, l', (n', s'))"
  shows "\<exists>b'. drifts c W me b b' \<and> rate_sim coll c me l' s' b' \<and> (r = Inr () \<longrightarrow> \<not> view_stale l')"
proof -
  have sim': "tracks coll c me s b" "folds_ok coll l" "c \<in> set (rate_limits l)" "apart coll c (rate_limits l)"
    "distinct (rate_limits l)" "phase_of b me \<noteq> Pending"
    "\<not> view_stale l \<longrightarrow> seen_windows l (rl_name c) \<noteq> None \<and> (opens l c \<longrightarrow> phase_of b me = Armed)"
    using sim by (simp_all add: rate_sim_def)
  define due where "due = (rate_limits l \<noteq> [] \<and> (view_stale l \<or> refresh_after l \<le> monotonic env n))"
  obtain r1 l1 n1 s1 where q: "(if due then read_windows env coll l (n, s) else (Inr (), l, (n, s))) = (r1, l1, (n1, s1))"
    by (metis prod_cases4)
  have "\<exists>b1. drifts c W me b b1 \<and> rate_sim coll c me l1 s1 b1 \<and> (r1 = Inr () \<longrightarrow> \<not> view_stale l1)"
  proof (cases due)
    case False
    with q sim sim'(3) show ?thesis by (intro exI [of _ b]) (auto simp: due_def)
  next
    case True
    with q have "read_windows env coll l (n, s) = (r1, l1, (n1, s1))" by simp
    from read_drift [OF f me this sim'(1-4)] obtain b1 where b1: "drifts c W me b b1" "tracks coll c me s1 b1"
      "folds_ok coll l1" "rate_limits l1 = rate_limits l" "case r1 of Inl e \<Rightarrow> view_kept l l1
       | Inr u \<Rightarrow> \<not> view_stale l1 \<and> seen_windows l1 (rl_name c) \<noteq> None \<and> (opens l1 c \<longrightarrow> reading c me b1)" by blast
    have np: "phase_of b1 me \<noteq> Pending" using b1(1) sim'(6) by (auto simp: drifts_def eased_def)
    have arm: "phase_of b me = Armed \<Longrightarrow> phase_of b1 me = Armed" using b1(1) by (auto simp: drifts_def eased_def)
    have rd: "reading c me b1 \<Longrightarrow> phase_of b1 me = Armed" using np by (cases "phase_of b1 me") (auto simp: reading_def)
    have "rate_sim coll c me l1 s1 b1"
    proof (cases r1)
      case (Inl e)
      with b1(5) have "view_kept l l1" by simp
      then show ?thesis using b1 sim' np arm by (auto simp: rate_sim_def view_kept_def opens_def)
    next
      case (Inr u)
      with b1 sim' np rd show ?thesis by (auto simp: rate_sim_def)
    qed
    with b1(1,5) show ?thesis by auto
  qed
  then obtain b1 where b1: "drifts c W me b b1" "rate_sim coll c me l1 s1 b1" "r1 = Inr () \<longrightarrow> \<not> view_stale l1" by blast
  show ?thesis
  proof (cases r1)
    case (Inl e)
    with a q b1 show ?thesis
      by (intro exI [of _ b1]) (auto simp: refresh_view_def due_def [symmetric] Let_def)
  next
    case (Inr u)
    define more where "more = (conc_limits l1 \<noteq> [] \<and> (conc_stale l1 \<or> conc_refresh_after l1 \<le> monotonic env n))"
    obtain r2 l2 where rr: "read_running (monotonic env n1) fails t l1 = (r2, l2)" by fastforce
    have "(r, l', s') = (if more then (r2, l2, s1) else (Inr (), l1, s1))"
      using a q Inr rr by (auto simp: refresh_view_def due_def [symmetric] more_def [symmetric] Let_def)
    with b1 Inr read_running_keeps [OF rr] show ?thesis
      by (intro exI [of _ b1]) (auto split: if_splits)
  qed
qed

lemma record_path:
  assumes f: "\<forall>n. fair coll c W me (turn env n)" and me: "me < W"
    and a: "record_admission env coll x l (n, s) = (r, l', (n', s'))"
    and base: "tracks coll c me s b" "folds_ok coll l" "c \<in> set (rate_limits l)" "apart coll c (rate_limits l)"
      "distinct (rate_limits l)" and seen: "seen_windows l (rl_name c) \<noteq> None"
    and cov: "if rl_covers c (task_path x) (queue_name x) then phase_of b me = Pending
      else rate_sim coll c me l s b"
  shows "\<exists>b'. runs c W me 0 b b' \<and> tracks coll c me s' b' \<and> (r = Inr () \<longrightarrow> rate_sim coll c me l' s' b')"
proof -
  let ?l = "if conc_covers l x then l\<lparr>conc_stale := True\<rparr> else l"
  have kept: "rate_limits ?l = rate_limits l" "folds_ok coll ?l" "seen_windows ?l = seen_windows l"
    using base(2) by (auto simp: folds_ok_def)
  obtain r1 l1 n1 s1 where e: "count_each env coll (covering ?l x) ?l (n, s) = (r1, l1, (n1, s1))" by (metis prod_cases4)
  have out: "s' = s1" "r = r1" "r = Inr () \<Longrightarrow> l' = (if covering ?l x = [] then l1 else l1\<lparr>view_stale := True\<rparr>)"
    using a e by (auto simp: record_admission_def Let_def split: sum.splits)
  have stale: "rate_sim coll c me (l1\<lparr>view_stale := True\<rparr>) s1 b1"
    if "tracks coll c me s1 b1" "same_limits coll c ?l l1" "phase_of b1 me \<noteq> Pending" for b1
    using that base kept by (auto simp: rate_sim_def same_limits_def folds_ok_def)
  define cv where "cv = (\<lambda>c'. rl_covers c' (task_path x) (queue_name x))"
  have names: "covering ?l x = map rl_name (filter cv (rate_limits l))" by (simp add: covering_def cv_def)
  show ?thesis
  proof (cases "cv c")
    case False
    have "\<forall>y \<in> set (covering ?l x). coll y \<noteq> coll (rl_name c)"
      using False base(4) by (auto simp: names apart_def)
    from each_other [OF f me e base(1) kept(2) _ _ this] kept(1) base(3,4) obtain b1 where
      b1: "drifts c W me b b1" "tracks coll c me s1 b1" "same_limits coll c ?l l1" by auto
    have sim: "rate_sim coll c me l s b" using cov False by (simp add: cv_def)
    then have np: "phase_of b1 me \<noteq> Pending" using b1(1) by (auto simp: rate_sim_def drifts_def eased_def)
    have "rate_sim coll c me l' s' b1" if "r = Inr ()"
    proof (cases "covering ?l x = []")
      case True
      with e have "l1 = ?l" "s1 = s" by auto
      then have "rate_sim coll c me l1 s1 b1" using sim b1(1,2) np
        by (auto simp: rate_sim_def drifts_def eased_def opens_def folds_ok_def)
      with out that True show ?thesis by simp
    next
      case False
      with out that stale [OF b1(2,3) np] show ?thesis by simp
    qed
    with b1 out show ?thesis unfolding drifts_def by blast
  next
    case True
    then have p: "phase_of b me = Pending" using cov by (simp add: cv_def)
    obtain xs ys where sp: "rate_limits l = xs @ c # ys" using base(3) by (metis split_list)
    define pre where "pre = map rl_name (filter cv xs)"
    define post where "post = map rl_name (filter cv ys)"
    have cn: "covering ?l x = pre @ rl_name c # post" unfolding names sp pre_def post_def using True by simp
    have ne: "\<forall>y \<in> set pre. coll y \<noteq> coll (rl_name c)" "\<forall>y \<in> set post. coll y \<noteq> coll (rl_name c)"
      using base(4,5) unfolding sp pre_def post_def by (auto simp: apart_def)
    obtain r2 l2 n2 s2 where e2: "count_each env coll pre ?l (n, s) = (r2, l2, (n2, s2))" by (metis prod_cases4)
    from each_other [OF f me e2 base(1) kept(2) _ _ ne(1)] kept(1) base(3,4) obtain b2 where
      b2: "drifts c W me b b2" "tracks coll c me s2 b2" "same_limits coll c ?l l2" by auto
    note p2 = drifts_pending [OF b2(1) p]
    show ?thesis
    proof (cases r2)
      case (Inl er)
      with e e2 cn out have "r \<noteq> Inr ()" "s' = s2" by (auto simp: count_each_append)
      with b2 show ?thesis unfolding drifts_def by blast
    next
      case (Inr u)
      with e e2 cn have e3: "count_each env coll (rl_name c # post) l2 (n2, s2) = (r1, l1, (n1, s1))"
        by (simp add: count_each_append)
      obtain r3 l3 n3 s3 where e4: "count_admission max_rate_attempts env coll (rl_name c) l2 (n2, s2)
        = (r3, l3, (n3, s3))" by (metis prod_cases4)
      have l2: "c \<in> set (rate_limits l2)" "apart coll c (rate_limits l2)" "folds_ok coll l2"
        "seen_windows l2 (rl_name c) \<noteq> None"
        using b2(3) kept base(3,4) seen by (auto simp: same_limits_def)
      from count_self [OF f me l2(1,2) e4 b2(2) l2(3) p2 l2(4)] obtain b3 where
        b3: "settles c W me r3 b2 b3" "tracks coll c me s3 b3" "same_limits coll c l2 l3" by blast
      note s3 = drifts_settles [OF b2(1) b3(1)]
      show ?thesis
      proof (cases r3)
        case (Inl er)
        with e3 e4 out have "r \<noteq> Inr ()" "s' = s3" by auto
        with s3 b3(2) show ?thesis unfolding settles_def by blast
      next
        case r3: (Inr u)
        with e3 e4 have e5: "count_each env coll post l3 (n3, s3) = (r1, l1, (n1, s1))" by simp
        have l3: "c \<in> set (rate_limits l3)" "apart coll c (rate_limits l3)" "folds_ok coll l3"
          using b3(3) l2 by (auto simp: same_limits_def)
        from each_other [OF f me e5 b3(2) l3(3,1,2) ne(2)] obtain b4 where
          b4: "drifts c W me b3 b4" "tracks coll c me s1 b4" "same_limits coll c l3 l1" by blast
        have idle: "phase_of b3 me = Resting" using s3 r3 by (simp add: settles_def)
        then have np: "phase_of b4 me \<noteq> Pending" using b4(1) by (auto simp: drifts_def eased_def)
        have "same_limits coll c ?l l1" using b2(3) b3(3) b4(3) by (auto simp: same_limits_def)
        from stale [OF b4(2) this np] out cn have "r = Inr () \<longrightarrow> rate_sim coll c me l' s' b4" by auto
        moreover have "runs c W me 0 b b4"
          using runs_trans [of c W me 0 b b3 0 b4] s3 b4(1) by (simp add: settles_def drifts_def)
        ultimately show ?thesis using b4(2) out by auto
      qed
    qed
  qed
qed

text \<open>What the worker relies on of django-ox's claim: a task it returns has the path and the queue of a
  row that passed the filter the claim used.\<close>

definition obeys_filter :: "(claim_filter \<Rightarrow> ox_task option) \<Rightarrow> bool" where
  "obeys_filter take_task =
     (\<forall>f r. take_task f = Some r \<longrightarrow>
        (\<exists>x. task_path x = task_path r \<and> queue_name x = queue_name r
           \<and> (passes (filter_q f) x \<or> fst (honours_filter f False) \<and> passes (filter_sql f) x)))"

lemma both_pass_passes: "passes (both_pass p q) x \<longleftrightarrow> passes p x \<and> passes q x"
  by (auto simp: both_pass_def passes_def split: option.splits)

lemma condition_admits: "passes (oxpull_condition gate l) x \<longleftrightarrow> passes gate x \<and> admits l x"
  by (auto simp: oxpull_condition_def passes_def admits_def excluded_def split: option.splits)

lemma filtered_admits:
  assumes "obeys_filter take_task" "take_task (with_oxpull_conditions f gate l) = Some r"
  shows "admits l r"
proof -
  from assms obtain x where x: "task_path x = task_path r" "queue_name x = queue_name r"
    "passes (filter_q (with_oxpull_conditions f gate l)) x
      \<or> fst (honours_filter (with_oxpull_conditions f gate l) False)
        \<and> passes (filter_sql (with_oxpull_conditions f gate l)) x"
    unfolding obeys_filter_def by blast
  have "passes (oxpull_condition gate l) x"
    using x(3) by (auto simp: with_oxpull_conditions_def both_pass_passes honours_filter_def both_pass_def
      passes_def split: if_splits option.splits)
  then have "admits l x" by (simp add: condition_admits)
  with x(1,2) show ?thesis by (simp add: admits_def)
qed

theorem claim_path:
  assumes f: "\<forall>n. fair coll c W me (turn env n)" and me: "me < W" and sim: "rate_sim coll c me l s b"
    and ob: "obeys_filter take_task"
    and a: "claim_limited env coll flt gate fails t take_task l (n, s) = (r, l', (n', s'))"
  shows "\<exists>b' k. runs c W me k b b' \<and> tracks coll c me s' b' \<and> k \<le> 1
    \<and> (\<forall>got. r = Inr got \<longrightarrow> rate_sim coll c me l' s' b'
        \<and> (k = 1 \<longleftrightarrow> (\<exists>x. got = Some x \<and> rl_covers c (task_path x) (queue_name x))))"
proof -
  have cin: "c \<in> set (rate_limits l)" using sim by (simp add: rate_sim_def)
  obtain r1 l1 n1 s1 where rf: "refresh_view env coll fails t l (n, s) = (r1, l1, (n1, s1))" by (metis prod_cases4)
  from refresh_path [OF f me sim rf] obtain b1 where
    b1: "drifts c W me b b1" "rate_sim coll c me l1 s1 b1" "r1 = Inr () \<longrightarrow> \<not> view_stale l1" by blast
  have run1: "runs c W me 0 b b1" and tr1: "tracks coll c me s1 b1"
    using b1 by (auto simp: drifts_def rate_sim_def)
  have lims: "rate_limits l \<noteq> []" using cin by auto
  show ?thesis
  proof (cases r1)
    case (Inl e)
    with a rf lims have "r = Inl e" "s' = s1" by (auto simp: claim_limited_def)
    with run1 tr1 show ?thesis by (intro exI [of _ b1] exI [of _ 0]) auto
  next
    case (Inr u)
    let ?f = "with_oxpull_conditions flt gate l1"
    show ?thesis
    proof (cases "take_task ?f")
      case None
      with a rf lims Inr have "r = Inr None" "s' = s1" "l' = l1" by (auto simp: claim_limited_def)
      with run1 tr1 b1(2) show ?thesis by (intro exI [of _ b1] exI [of _ 0]) auto
    next
      case (Some x)
      obtain r2 l2 n2 s2 where rc: "record_admission env coll x l1 (n1, s1) = (r2, l2, (n2, s2))" by (metis prod_cases4)
      have out: "s' = s2" "r = (case r2 of Inl e \<Rightarrow> Inl e | Inr _ \<Rightarrow> Inr (Some x))" "r2 = Inr () \<Longrightarrow> l' = l2"
        using a rf lims Inr Some rc by (auto simp: claim_limited_def split: sum.splits)
      have base: "folds_ok coll l1" "c \<in> set (rate_limits l1)" "apart coll c (rate_limits l1)"
        "distinct (rate_limits l1)" and seen: "seen_windows l1 (rl_name c) \<noteq> None"
        using b1(2,3) Inr by (auto simp: rate_sim_def)
      show ?thesis
      proof (cases "rl_covers c (task_path x) (queue_name x)")
        case False
        from record_path [OF f me rc tr1 base seen] b1(2) False obtain b2 where
          b2: "runs c W me 0 b1 b2" "tracks coll c me s2 b2" "r2 = Inr () \<longrightarrow> rate_sim coll c me l2 s2 b2" by auto
        from runs_trans [OF run1 b2(1)] have "runs c W me 0 b b2" by simp
        with b2 out False show ?thesis
          by (intro exI [of _ b2] exI [of _ 0]) (auto split: sum.splits)
      next
        case True
        have "admits l1 x" by (rule filtered_admits [OF ob Some])
        with True have "opens l1 c" by (auto simp: opens_def admits_def excluded_def)
        then have armed: "phase_of b1 me = Armed" using b1(2,3) Inr by (simp add: rate_sim_def)
        let ?b = "b1\<lparr>started := started b1 + 1, phase_of := (phase_of b1)(me := Pending)\<rparr>"
        have ad: "runs c W me 1 b1 ?b" using runs_act [of c W "Admit me" b1 ?b me] armed me by simp
        have "tracks coll c me s1 ?b" using tr1 by (simp add: tracks_def)
        from record_path [OF f me rc this base seen] True obtain b2 where
          b2: "runs c W me 0 ?b b2" "tracks coll c me s2 b2" "r2 = Inr () \<longrightarrow> rate_sim coll c me l2 s2 b2" by auto
        from runs_trans [OF runs_trans [OF run1 ad] b2(1)] have "runs c W me 1 b b2" by simp
        with b2 out True show ?thesis
          by (intro exI [of _ b2] exI [of _ 1]) (auto split: sum.splits)
      qed
    qed
  qed
qed

text \<open>So whatever a claim does, the window's admissions stay within the documented bound.\<close>

lemma claim_within_bound:
  assumes "\<forall>n. fair coll c W me (turn env n)" "me < W" "rate_sim coll c me l s b" "obeys_filter take_task"
    and "claim_limited env coll flt gate fails t take_task l (n, s) = (r, l', (n', s'))"
    and past: "budget_run (rl_limit c) W as fresh_budget = Some b" and cap: "0 \<le> rl_limit c"
  shows "\<exists>bs b'. budget_run (rl_limit c) W (as @ bs) fresh_budget = Some b' \<and> tracks coll c me s' b'
    \<and> started b' \<le> rl_limit c + int W - 1 + uncounted b'
    \<and> (\<forall>got. r = Inr got \<longrightarrow> rate_sim coll c me l' s' b'
        \<and> admissions me bs = (if \<exists>x. got = Some x \<and> rl_covers c (task_path x) (queue_name x) then 1 else 0))"
proof -
  from claim_path [OF assms(1-5)] obtain b' k where p: "runs c W me k b b'" "tracks coll c me s' b'" "k \<le> 1"
    "\<forall>got. r = Inr got \<longrightarrow> rate_sim coll c me l' s' b'
        \<and> (k = 1 \<longleftrightarrow> (\<exists>x. got = Some x \<and> rl_covers c (task_path x) (queue_name x)))" by blast
  then obtain bs where bs: "budget_run (rl_limit c) W bs b = Some b'" "admissions me bs = k" by (auto simp: runs_def)
  have run: "budget_run (rl_limit c) W (as @ bs) fresh_budget = Some b'" using past bs by (simp add: budget_run_append)
  have "0 < W" using assms(2) by simp
  from budget_inv_bound [OF budget_run_inv [OF fresh_budget_inv [OF this cap] run this cap]] run p bs(2)
  show ?thesis by (intro exI [of _ bs] exI [of _ b']) auto
qed

end
