(* ===== verification/ClaimFilter.thy ===== *)
theory ClaimFilter
  imports RateRefine
begin

text \<open>
  django-ox's claim keeps what oxpull relies on of it: each of its three paths returns a task whose path
  and queue are those of a row that passed the claim filter.
\<close>

text \<open>Others leave every row its path and its queue.\<close>

definition steady :: "(table \<Rightarrow> table) \<Rightarrow> bool" where
  "steady g = (\<forall>t. wf_table t \<longrightarrow> wf_table (g t)
     \<and> (\<forall>k x. fetch k (g t) = Some x \<longrightarrow>
          (\<exists>y. fetch k t = Some y \<and> task_path y = task_path x \<and> queue_name y = queue_name x)))"

definition named_in :: "table \<Rightarrow> table \<Rightarrow> bool" where
  "named_in t0 t = (wf_table t \<and> (\<forall>k x. fetch k t = Some x \<longrightarrow>
     (\<exists>y. fetch k t0 = Some y \<and> task_path y = task_path x \<and> queue_name y = queue_name x)))"

lemma named_in_step: "named_in t0 t \<Longrightarrow> steady g \<Longrightarrow> named_in t0 (g t)"
  unfolding named_in_def steady_def by metis

lemma named_in_refl: "wf_table t \<Longrightarrow> named_in t t"
  by (auto simp: named_in_def)

lemma claim_fields_names [simp]:
  "task_path (claim_fields cfg clock c r) = task_path r" "queue_name (claim_fields cfg clock c r) = queue_name r"
  "task_path (claimed_row cfg clock r) = task_path r" "queue_name (claimed_row cfg clock r) = queue_name r"
  by (simp_all add: claim_fields_def claimed_row_def)

lemma steady_update:
  assumes "\<And>r. pk (f r) = pk r" "\<And>r. task_path (f r) = task_path r" "\<And>r. queue_name (f r) = queue_name r"
  shows "steady (\<lambda>t. fst (update_where P f t))"
  using assms tasks.upd_wf [of _ f P] tasks.lookup_upd [of _ f _ P]
  by (auto simp: steady_def split: if_splits)

lemma update_named:
  assumes "named_in t0 t" "update_where P f t = (t', n)" "\<And>r. pk (f r) = pk r" "\<And>r. task_path (f r) = task_path r"
    "\<And>r. queue_name (f r) = queue_name r"
  shows "named_in t0 t'"
  using named_in_step [OF assms(1) steady_update [of f P, OF assms(3-5)]] assms(2) by simp

definition taken_from :: "table \<Rightarrow> ox_task set \<Rightarrow> ox_task option \<Rightarrow> bool" where
  "taken_from t cs got = (\<forall>r. got = Some r \<longrightarrow> (\<exists>x \<in> cs. task_path x = task_path r \<and> queue_name x = queue_name r))"

lemma named_fetch:
  assumes "named_in t t'" "wf_table t" "c \<in> set t" "fetch (pk c) t' = Some r"
  shows "task_path c = task_path r \<and> queue_name c = queue_name r"
proof -
  have "fetch (pk c) t = Some c" by (simp add: fetch_Some [OF assms(2)] assms(3))
  moreover obtain y where "fetch (pk c) t = Some y" "task_path y = task_path r \<and> queue_name y = queue_name r"
    using assms(1,4) unfolding named_in_def by blast
  ultimately show ?thesis by simp
qed

lemma candidates_taken:
  assumes "\<forall>n. steady (others n)" "wf_table t" "set cs \<subseteq> set t" "named_in t s"
  shows "taken_from t (set cs) (fst (claim_candidates cfg others clock n cs s))"
  using assms(3,4)
proof (induction cs arbitrary: n s)
  case Nil
  then show ?case by (simp add: taken_from_def)
next
  case (Cons c cs)
  obtain s1 m where u: "update_where (cas_pin c) (claim_fields cfg (clock n) c) (others n s) = (s1, m)" by fastforce
  have n0: "named_in t (others n s)" using named_in_step [OF Cons.prems(2)] assms(1) by blast
  have n1: "named_in t s1" by (rule update_named [OF n0 u]) simp_all
  have n2: "named_in t (others (n + 1) s1)" using named_in_step [OF n1] assms(1) by blast
  note IH = Cons.IH [OF _ n1, of "n + 1"] Cons.IH [OF _ n2, of "n + 2"]
  have sub: "set cs \<subseteq> set t" "c \<in> set t" using Cons.prems(1) by auto
  show ?case
  proof (cases "m = 0")
    case True
    with u IH(1) [OF sub(1)] show ?thesis by (auto simp: taken_from_def)
  next
    case False
    show ?thesis
    proof (cases "reload_claimed (pk c) (lease_epoch c + 1) (others (n + 1) s1)")
      case None
      with u False IH(2) [OF sub(1)] show ?thesis by (auto simp: taken_from_def)
    next
      case (Some held)
      then have "fetch (pk c) (others (n + 1) s1) = Some held"
        by (auto simp: reload_claimed_def split: option.splits if_splits)
      from named_fetch [OF n2 assms(2) sub(2) this] Some u False show ?thesis
        by (auto simp: taken_from_def)
    qed
  qed
qed

lemma locked_taken:
  assumes "wf_table t" "c \<in> set t" "\<And>r. pk (f r) = pk r" "\<And>r. task_path (f r) = task_path r"
    "\<And>r. queue_name (f r) = queue_name r"
  shows "taken_from t {c} (fetch (pk c) (fst (update_where P f t)))"
proof -
  have "named_in t (fst (update_where P f t))"
    by (rule named_in_step [OF named_in_refl [OF assms(1)] steady_update [of f P, OF assms(3-5)]])
  from named_fetch [OF this assms(1,2)] show ?thesis by (auto simp: taken_from_def)
qed

text \<open>django-ox's claim obeys the filter it is given, whatever others commit meanwhile, as long as they
  leave a row its path and its queue.\<close>

lemma claim_one_obeys:
  assumes wf: "wf_table t" and st: "\<forall>n. steady (others n)"
  shows "obeys_filter (\<lambda>f. fst (fst (claim_one db cfg f noticed busy others now clock t)))"
proof -
  have q: "passes (filter_q f) c \<and> c \<in> set t" if "c \<in> set (ready_queryset cfg (filter_q f) now t)" for f c
    using that by (simp add: ready_queryset_set runnable_def)
  have s: "passes (filter_sql f) c \<and> c \<in> set t" if "c \<in> set (ready_queryset cfg (filter_sql f) now t)" for f c
    using that by (simp add: ready_queryset_set runnable_def)
  have pg: "taken_from t {c. fst (honours_filter f False) \<and> passes (filter_sql f) c}
      (fst (claim_one_postgresql cfg f busy now (clock 0) t))" if "fst (honours_filter f noticed)" for f
  proof (cases "filter (\<lambda>r. \<not> busy (pk r)) (ready_queryset cfg (filter_sql f) now t)")
    case (Cons c cs)
    from ready_queryset_first(1,2) [OF Cons] that have "c \<in> set t" "fst (honours_filter f False)" "passes (filter_sql f) c"
      by (auto simp: runnable_def honours_filter_def split: if_splits)
    moreover have "taken_from t {c} (fetch (pk c) (fst (update_where (\<lambda>r. pk r = pk c) (claimed_row cfg (clock 0)) t)))"
      by (rule locked_taken [OF wf \<open>c \<in> set t\<close>]) (simp_all add: row_simps)
    ultimately show ?thesis using Cons
      by (auto simp: claim_one_postgresql_def taken_from_def Let_def)
  qed (simp add: claim_one_postgresql_def taken_from_def)
  have lk: "taken_from t {c. passes (filter_q f) c} (fst (claim_one_locking cfg f busy now (clock 0) t))" for f
  proof (cases "filter (\<lambda>r. \<not> busy (pk r)) (ready_queryset cfg (filter_q f) now t)")
    case (Cons c cs)
    from ready_queryset_first(1,2) [OF Cons] have "c \<in> set t" "passes (filter_q f) c" by (auto simp: runnable_def)
    moreover have "taken_from t {c} (fetch (pk c) (fst (update_where (\<lambda>r. pk r = pk c) (claim_fields cfg (clock 0) c) t)))"
      by (rule locked_taken [OF wf \<open>c \<in> set t\<close>]) simp_all
    ultimately show ?thesis using Cons
      by (auto simp: claim_one_locking_def taken_from_def Let_def)
  qed (simp add: claim_one_locking_def taken_from_def)
  have cas: "taken_from t {c. passes (filter_q f) c} (fst (fst (claim_one_cas cfg f others now clock t)))" for f
  proof -
    let ?b = "take claim_batch_size (ready_queryset cfg (filter_q f) now t)"
    have b: "set ?b \<subseteq> set t" "set ?b \<subseteq> {c. passes (filter_q f) c}" using q set_take_subset by fastforce+
    from candidates_taken [OF st wf b(1) named_in_refl [OF wf], of cfg clock 0] b(2)
    show ?thesis by (auto simp: claim_one_cas_def Let_def taken_from_def split: prod.splits option.splits) blast
  qed
  show ?thesis unfolding obeys_filter_def
  proof (intro allI impI)
    fix f r assume "fst (fst (claim_one db cfg f noticed busy others now clock t)) = Some r"
    then consider "fst (honours_filter f noticed)" "fst (claim_one_postgresql cfg f busy now (clock 0) t) = Some r"
      | "fst (claim_one_locking cfg f busy now (clock 0) t) = Some r"
      | "fst (fst (claim_one_cas cfg f others now clock t)) = Some r"
      by (auto simp: claim_one_def split: if_splits prod.splits)
    then show "\<exists>x. task_path x = task_path r \<and> queue_name x = queue_name r
        \<and> (passes (filter_q f) x \<or> fst (honours_filter f False) \<and> passes (filter_sql f) x)"
      using pg [of f] lk [of f] cas [of f] by cases (auto simp: taken_from_def)
  qed
qed

end
