(* ===== verification/ConcBound.thy ===== *)
theory ConcBound
  imports System RateWindow
begin

text \<open>
  What a concurrency limit promises: with \<open>W\<close> workers that count the covered RUNNING rows before each
  covered claim, no more than \<open>max + W - 1\<close> rows it covers are RUNNING at any instant, whatever the rest
  of the package does to the table meanwhile.
\<close>

section \<open>Only a claim makes a row run\<close>

lemma running_under_nil [simp]: "running_under c [] = 0"
  by (simp add: running_under_def)

lemma running_under_cons [simp]:
  "running_under c (r # t) =
    (if status r = RUNNING \<and> cl_covers c (task_path r) (queue_name r) then 1 else 0) + running_under c t"
  by (simp add: running_under_def)

lemma row_names [simp]:
  "task_path (claimed_row cfg clock r) = task_path r" "queue_name (claimed_row cfg clock r) = queue_name r"
  "task_path (claim_fields cfg clock c r) = task_path r" "queue_name (claim_fields cfg clock c r) = queue_name r"
  "task_path (renewed_row cfg clock r) = task_path r" "queue_name (renewed_row cfg clock r) = queue_name r"
  "task_path (reclaimed_row r) = task_path r" "queue_name (reclaimed_row r) = queue_name r"
  "task_path (lost_row now d r) = task_path r" "queue_name (lost_row now d r) = queue_name r"
  "task_path (refunded_row d r) = task_path r" "queue_name (refunded_row d r) = queue_name r"
  "task_path (requeued e m r) = task_path r" "queue_name (requeued e m r) = queue_name r"
  "task_path (retried r) = task_path r" "queue_name (retried r) = queue_name r"
  "task_path (discarded_at now r) = task_path r" "queue_name (discarded_at now r) = queue_name r"
  "task_path (expired_at p r) = task_path r" "queue_name (expired_at p r) = queue_name r"
  "task_path (released now r) = task_path r" "queue_name (released now r) = queue_name r"
  "task_path (revived r) = task_path r" "queue_name (revived r) = queue_name r"
  "task_path (outcome_fields out r) = task_path r" "queue_name (outcome_fields out r) = queue_name r"
  by (simp_all add: claimed_row_def claim_fields_def renewed_row_def reclaimed_row_def lost_row_def refunded_row_def
      requeued_def retried_def discarded_at_def expired_at_def released_def revived_def clear_lock_def Let_def
      outcome_fields_shape hand_over_def split: outcome.split option.split)

lemma map_running:
  assumes "\<And>r. task_path (f r) = task_path r" "\<And>r. queue_name (f r) = queue_name r"
    and "\<And>r. P r \<Longrightarrow> status (f r) = RUNNING \<Longrightarrow> status r = RUNNING"
  shows "running_under c (map (\<lambda>r. if P r then f r else r) t) \<le> running_under c t"
  using assms by (induction t) auto

lemma map_running_one:
  assumes names: "\<And>r. task_path (f r) = task_path r" "\<And>r. queue_name (f r) = queue_name r"
    and wf: "wf_table t" and pin: "\<And>r. P r \<Longrightarrow> pk r = k"
  shows "running_under c (map (\<lambda>r. if P r then f r else r) t) \<le> running_under c t + (if list_ex P t then 1 else 0)"
proof -
  have "running_under c (map (\<lambda>r. if P r then f r else r) t) \<le> running_under c t + length (filter P t)"
    using names by (induction t) auto
  moreover have "length (filter P t) \<le> (if list_ex P t then 1 else 0)"
  proof (cases "list_ex P t")
    case True
    then show ?thesis using pinned_length [OF wf, of P k] pin by (auto split: option.splits)
  next
    case False
    then have "filter P t = []" by (simp add: list_ex_iff filter_empty_conv)
    then show ?thesis by simp
  qed
  ultimately show ?thesis by linarith
qed

lemma insert_running:
  "status r \<noteq> RUNNING \<Longrightarrow> running_under c (insert_row r t) = running_under c t"
  by (simp add: running_under_def insert_row_def)

lemma delete_running: "running_under c (filter p t) \<le> running_under c t"
  by (induction t) auto

lemma outcome_not_running: "status (outcome_fields out r) \<noteq> RUNNING"
  by (cases out) (simp_all add: row_simps)

definition granted_in :: "system \<Rightarrow> system \<Rightarrow> nat" where
  "granted_in s s' = (if grants s' = grants s then 0 else 1)"

lemma granted_in_grant: "granted_in s (grant m l w (statement P f s)) = (if m then 1 else 0)"
  by (simp add: granted_in_def grant_def)

lemma tbl_marks [simp]: "tbl (grant m l w s) = tbl s" "tbl (land m l s) = tbl s" "grants (land m l s) = grants s"
  by (simp_all add: grant_def land_def)

lemma step_running:
  assumes "reachable s" "sys_step s s'"
  shows "running_under c (tbl s') \<le> running_under c (tbl s) + granted_in s s'"
proof -
  have wf: "wf_table (tbl s)" using reachable_wf [OF assms(1)] .
  note still = le_trans [OF map_running le_add1]
  from assms(2) show ?thesis
  proof (cases rule: sys_step.cases)
    case (enqueue r)
    then show ?thesis by (auto simp: insert_running fresh_row_def)
  next
    case (claim r cfg clock)
    have "list_ex (\<lambda>q. pk q = pk r) (tbl s)" using claim(2) by (auto simp: list_ex_iff)
    with map_running_one [of "claimed_row cfg clock" "tbl s" "\<lambda>q. pk q = pk r" "pk r" c] wf show ?thesis
      unfolding claim(1) granted_in_grant by simp
  next
    case (claim_cas d cfg clock)
    from map_running_one [of "claim_fields cfg clock d" "tbl s" "cas_pin d" "pk d" c] wf show ?thesis
      unfolding claim_cas(1) granted_in_grant matched_def by (simp add: cas_pin_def)
  next
    case (outcome d out)
    have "running_under c (map (\<lambda>r. if outcome_pin d r then outcome_fields out r else r) (tbl s)) \<le> running_under c (tbl s)"
      by (rule map_running) (simp_all add: outcome_not_running)
    then show ?thesis unfolding outcome(1) by simp
  next
    case (delete ks)
    then show ?thesis using delete_running [of c] by (auto simp: trans_le_add1)
  qed (auto intro!: still simp: row_simps renew_pin_def expire_pin_def)
qed

section \<open>Looking before claiming\<close>

text \<open>A count that lets a covered task through found room.\<close>

lemma read_running_room:
  assumes "read_running t0 fails t l = (Inr u, l')" "c \<in> set (conc_limits l)"
    and "cl_covers c (task_path x) (queue_name x)" "admits l' x"
  shows "int (running_under c t) < cl_max c"
proof (rule ccontr)
  assume "\<not> int (running_under c t) < cl_max c"
  then have "conc_blocks t c" by (auto simp: conc_blocks_def)
  with assms show False
    by (auto simp: read_running_def Let_def admits_def excluded_def cl_covers_def split: if_splits)
qed

text \<open>
  The store with the workers that have counted and not claimed since.  A worker counts (\<open>_read_running\<close>)
  and finds a covered task admissible; a claim of a covered row uses up its worker's count, because
  \<open>_record\<close> marks the view stale; every other statement is anybody's.
\<close>

inductive conc_reach :: "nat \<Rightarrow> concurrency_limit \<Rightarrow> system \<Rightarrow> nat set \<Rightarrow> bool" for W c where
  start: "reachable s \<Longrightarrow> running_under c (tbl s) = 0 \<Longrightarrow> conc_reach W c s {}"
| counted: "conc_reach W c s ws \<Longrightarrow> w < W \<Longrightarrow> read_running t0 fails (tbl s) l = (Inr (), l') \<Longrightarrow>
    c \<in> set (conc_limits l) \<Longrightarrow> cl_covers c (task_path x) (queue_name x) \<Longrightarrow> admits l' x \<Longrightarrow>
    conc_reach W c s (insert w ws)"
| claimed: "conc_reach W c s ws \<Longrightarrow> w \<in> ws \<Longrightarrow> sys_step s s' \<Longrightarrow> grants s' \<noteq> grants s \<Longrightarrow>
    conc_reach W c s' (ws - {w})"
| uncovered: "conc_reach W c s ws \<Longrightarrow> sys_step s s' \<Longrightarrow> grants s' \<noteq> grants s \<Longrightarrow>
    running_under c (tbl s') = running_under c (tbl s) \<Longrightarrow> conc_reach W c s' ws"
| other: "conc_reach W c s ws \<Longrightarrow> sys_step s s' \<Longrightarrow> grants s' = grants s \<Longrightarrow> conc_reach W c s' ws"

lemma conc_reach_inv:
  assumes "conc_reach W c s ws" "0 \<le> cl_max c" "0 < W"
  shows "reachable s \<and> ws \<subseteq> {..<W} \<and> int (running_under c (tbl s)) + int (card ws) \<le> cl_max c + int W - 1"
  using assms(1)
proof (induction rule: conc_reach.induct)
  case (start s)
  with assms(2,3) show ?case by simp
next
  case (counted s ws w t0 fails l l' x)
  have "int (running_under c (tbl s)) < cl_max c" by (rule read_running_room [OF counted(3-6)])
  moreover have "card (insert w ws) \<le> W"
    using counted card_mono [of "{..<W}" "insert w ws"] by auto
  ultimately show ?case using counted by auto
next
  case (claimed s ws w s')
  then have "running_under c (tbl s') \<le> running_under c (tbl s) + 1"
    using step_running [of s s' c] by (simp add: granted_in_def)
  moreover have "finite ws" using claimed(5) finite_subset by blast
  then have "card ws = Suc (card (ws - {w}))" using claimed(2) by (metis card.remove)
  ultimately show ?case using claimed reachable.step by auto
next
  case (uncovered s ws s')
  then show ?case using reachable.step by auto
next
  case (other s ws s')
  then have "running_under c (tbl s') \<le> running_under c (tbl s)"
    using step_running [of s s' c] by (simp add: granted_in_def)
  with other show ?case using reachable.step by auto
qed

end
