(* ===== verification/LimitRuns.thy ===== *)
theory LimitRuns
  imports ClaimFilter ConcBound Runs
begin

text \<open>
  Concrete limits: two workers that take the last token of one window together, and two that take the last
  slot of a concurrency limit together.  Both reach their bound.
\<close>

section \<open>A rate limit\<close>

definition demo_limit :: rate_limit where
  "demo_limit = \<lparr>rl_name = ''stripe'', rl_limit = 1, rl_per = 60, rl_paths = {''shop.tasks.bill''}, rl_queues = {}\<rparr>"

definition demo_limiter :: limiter where
  "demo_limiter = new_limiter [demo_limit] [] 250000"

text \<open>The rival claimed before; it counts as soon as it gets a turn.\<close>

definition rival_counts :: "rivals \<Rightarrow> rivals" where
  "rival_counts s =
     (let (k, t) = count_window id ''stripe'' 0 0 (wins s) in
      if rival_phase s 1 = Pending \<and> k \<noteq> 0
      then s\<lparr>wins := t, rival_phase := (rival_phase s)(1 := Resting)\<rparr> else s)"

definition demo_rate_env :: "rivals environment" where
  "demo_rate_env = \<lparr>turn = (\<lambda>n. if n = 1 then rival_counts else (\<lambda>s. s)), answer = (\<lambda>n. Answered),
     db_clock = (\<lambda>n. 10), monotonic = (\<lambda>n. 5)\<rparr>"

definition demo_rivals :: rivals where
  "demo_rivals = \<lparr>wins = [\<lparr>limit_name = ''stripe'', window_id = 0, window_started_at = 0, used = 0\<rparr>],
     rival_phase = (\<lambda>v. if v = 1 then Pending else Resting)\<rparr>"

definition demo_rivals_after :: rivals where
  "demo_rivals_after = \<lparr>wins = [\<lparr>limit_name = ''stripe'', window_id = 0, window_started_at = 0, used = 2\<rparr>],
     rival_phase = (\<lambda>v. Resting)\<rparr>"

definition demo_take :: "claim_filter \<Rightarrow> ox_task option" where
  "demo_take f = fst (fst (claim_one \<lparr>vendor = Sqlite, skip_locked = False\<rparr> demo_cfg f False
     (\<lambda>k. False) (\<lambda>n t. t) 1000 (\<lambda>n. 1000) [demo_row]))"

definition demo_budget :: budget where
  "demo_budget = \<lparr>tokens = 0, started = 1, uncounted = 0, phase_of = (\<lambda>v. if v = 1 then Pending else Resting)\<rparr>"

lemma demo_budget_run: "budget_run (rl_limit demo_limit) 2 [Look 1, Admit 1] fresh_budget = Some demo_budget"
  by (simp add: demo_limit_def fresh_budget_def demo_budget_def fun_eq_iff)

lemma fair_idle: "fair coll c W me (\<lambda>s. s)"
  unfolding fair_def by (intro allI impI exI [of _ "[]"]) auto

lemma rival_counts_fair: "fair id demo_limit 2 0 rival_counts"
  unfolding fair_def
proof (intro allI impI)
  fix s b assume tr: "tracks id demo_limit 0 s b"
  obtain k t where kt: "count_window id ''stripe'' 0 0 (wins s) = (k, t)" by fastforce
  show "\<exists>as b'. list_all (foreign 0) as \<and> budget_run (rl_limit demo_limit) 2 as b = Some b'
      \<and> tracks id demo_limit 0 (rival_counts s) b'"
  proof (cases "rival_phase s 1 = Pending \<and> k \<noteq> 0")
    case True
    let ?b = "b\<lparr>tokens := tokens b + 1, phase_of := (phase_of b)(1 := Resting)\<rparr>"
    have "tracks id demo_limit 0 (s\<lparr>wins := t\<rparr>) (b\<lparr>tokens := tokens b + 1, phase_of := (phase_of b)(0 := Resting)\<rparr>)"
      by (rule count_effect(3) [OF kt tr]) (use True in \<open>simp_all add: demo_limit_def\<close>)
    then have "tracks id demo_limit 0 (rival_counts s) ?b"
      using True kt tr by (auto simp: tracks_def rival_counts_def)
    moreover have "budget_run (rl_limit demo_limit) 2 [Count 1] b = Some ?b"
      using True tr by (simp add: tracks_def)
    ultimately show ?thesis by (intro exI [of _ "[Count 1]"] exI [of _ ?b]) simp
  next
    case False
    then have "rival_counts s = s" using kt by (auto simp: rival_counts_def)
    with tr show ?thesis by (intro exI [of _ "[]"]) auto
  qed
qed

lemma demo_env_fair: "\<forall>n. fair id demo_limit 2 0 (turn demo_rate_env n)"
  by (simp add: demo_rate_env_def fair_idle rival_counts_fair)

lemma demo_rate_sim: "rate_sim id demo_limit 0 demo_limiter demo_rivals demo_budget"
  unfolding demo_limiter_def
  by (rule new_limiter_sim)
    (auto simp: tracks_def demo_rivals_def demo_budget_def wins_ok_def used_at_def same_name_def apart_def demo_limit_def)

lemma demo_take_obeys: "obeys_filter demo_take"
  unfolding demo_take_def by (rule claim_one_obeys) (auto simp: wf_table_def steady_def)

lemma demo_take_claims: "demo_take \<lparr>filter_q = None, filter_sql = None\<rparr> = Some demo_claimed"
  by (simp add: demo_take_def demo_claim)

definition demo_view :: limiter where
  "demo_view = demo_limiter\<lparr>seen_windows := [''stripe'' \<mapsto> \<lparr>sw_window = 0, sw_used = 0, sw_ends_at = 59999995\<rparr>],
     view_stale := False, refresh_after := 250005\<rparr>"

lemma demo_read: "read_windows demo_rate_env id demo_limiter (0, demo_rivals) = (Inr (), demo_view, (1, demo_rivals))"
  by (simp add: read_windows_def demo_limiter_def new_limiter_def ask_def Let_def demo_rate_env_def demo_rivals_def
      select_windows_def same_name_def demo_limit_def window_key_def fill_missing_def install_view_def demo_view_def)

lemma demo_count:
  "count_admission max_rate_attempts demo_rate_env id ''stripe'' demo_view (1, demo_rivals)
    = (Inr (), demo_view\<lparr>count_failures := (count_failures demo_view)(''stripe'' := 0)\<rparr>, (2, demo_rivals_after))"
  by (simp add: max_rate_attempts_def eval_nat_numeral demo_view_def ask_def Let_def demo_rate_env_def demo_rivals_def
      rival_counts_def count_window_def update_windows_def same_name_def demo_rivals_after_def fun_eq_iff)

lemma demo_limited_claim:
  "claim_limited demo_rate_env id \<lparr>filter_q = None, filter_sql = None\<rparr> None False [demo_row] demo_take
     demo_limiter (0, demo_rivals)
    = (Inr (Some demo_claimed), demo_view\<lparr>count_failures := (count_failures demo_view)(''stripe'' := 0),
        view_stale := True\<rparr>, (2, demo_rivals_after))"
proof -
  have f: "refresh_view demo_rate_env id False [demo_row] demo_limiter (0, demo_rivals) = (Inr (), demo_view, (1, demo_rivals))"
    using demo_read by (simp add: refresh_view_def demo_limiter_def new_limiter_def demo_view_def Let_def)
  have c: "with_oxpull_conditions \<lparr>filter_q = None, filter_sql = None\<rparr> None demo_view = \<lparr>filter_q = None, filter_sql = None\<rparr>"
    by (simp add: with_oxpull_conditions_def both_pass_def oxpull_condition_def excluded_def demo_view_def
        demo_limiter_def new_limiter_def)
  have "covering demo_view demo_claimed = [''stripe'']" "\<not> conc_covers demo_view demo_claimed"
    by (simp_all add: covering_def rl_covers_def demo_view_def demo_limiter_def new_limiter_def demo_limit_def
        conc_covers_def demo_claimed_def demo_row_def)
  with f c demo_take_claims demo_count show ?thesis
    by (simp add: claim_limited_def record_admission_def demo_limiter_def new_limiter_def)
qed

section \<open>A concurrency limit\<close>

definition demo_conc :: concurrency_limit where
  "demo_conc = \<lparr>cl_name = ''reports'', cl_max = 1, cl_paths = {''shop.tasks.bill''}, cl_queues = {}\<rparr>"

definition demo_conc_limiter :: limiter where
  "demo_conc_limiter = new_limiter [] [demo_conc] 250000"

definition demo_two :: system where
  "demo_two = demo_enqueued\<lparr>tbl := insert_row (demo_row\<lparr>pk := 2\<rparr>) (tbl demo_enqueued),
     seen := insert (demo_row\<lparr>pk := 2\<rparr>) (seen demo_enqueued)\<rparr>"

definition demo_one_running :: system where
  "demo_one_running = grant True (1, 1) ''host-7'' (statement (\<lambda>q. pk q = 1) (claimed_row demo_cfg 1000) demo_two)"

definition demo_both_running :: system where
  "demo_both_running = grant True (2, 1) ''host-7'' (statement (\<lambda>q. pk q = 2) (claimed_row demo_cfg 1000) demo_one_running)"

lemma demo_two_tbl: "tbl demo_two = [demo_row, demo_row\<lparr>pk := 2\<rparr>]"
  by (simp add: demo_two_def insert_row_def)

lemma demo_one_tbl: "tbl demo_one_running = [demo_claimed, demo_row\<lparr>pk := 2\<rparr>]"
  by (simp add: demo_one_running_def demo_two_tbl demo_claimed_def)

lemma demo_conc_reach: "conc_reach 2 demo_conc demo_both_running {}"
proof -
  have e: "sys_step demo_enqueued demo_two" unfolding demo_two_def
    by (rule sys_step.enqueue) (simp_all add: fresh_row_def demo_row_def demo_enqueued_def)
  have r0: "running_under demo_conc (tbl demo_two) = 0" by (simp add: demo_two_tbl)
  have start: "conc_reach 2 demo_conc demo_two {}"
    by (rule conc_reach.start [OF reachable.step [OF reachable_enqueued e] r0])
  obtain l' where rd: "read_running 5 False (tbl demo_two) demo_conc_limiter = (Inr (), l')"
    and ad: "admits l' demo_row"
    using r0 by (auto simp: read_running_def Let_def conc_blocks_def demo_conc_limiter_def new_limiter_def demo_conc_def
        admits_def excluded_def)
  have cov: "demo_conc \<in> set (conc_limits demo_conc_limiter)" "cl_covers demo_conc (task_path demo_row) (queue_name demo_row)"
    by (simp_all add: demo_conc_limiter_def new_limiter_def cl_covers_def demo_conc_def demo_row_def)
  have "conc_reach 2 demo_conc demo_two {0}"
    using conc_reach.counted [OF start, of 0, OF _ rd cov ad] by simp
  from conc_reach.counted [OF this, of 1, OF _ rd cov ad] have two: "conc_reach 2 demo_conc demo_two {0, 1}"
    by (simp add: insert_commute)
  have s1: "sys_step demo_two demo_one_running"
    using sys_step.claim [of demo_row demo_two demo_cfg 1000] by (simp add: demo_one_running_def demo_two_tbl)
  have s2: "sys_step demo_one_running demo_both_running"
    using sys_step.claim [of "demo_row\<lparr>pk := 2\<rparr>" demo_one_running demo_cfg 1000]
    by (simp add: demo_both_running_def demo_one_tbl)
  have g: "grants demo_one_running \<noteq> grants demo_two" "grants demo_both_running \<noteq> grants demo_one_running"
    by (simp_all add: demo_one_running_def demo_both_running_def)
  from conc_reach.claimed [OF two _ s1 g(1), of 0] have "conc_reach 2 demo_conc demo_one_running {1}" by simp
  from conc_reach.claimed [OF this _ s2 g(2), of 1] show ?thesis by simp
qed

section \<open>Options\<close>

definition demo_rate_options :: "(pyval \<times> pyval) list" where
  "demo_rate_options = [(PyStr ''RATE_LIMITS'', PyDict
     [(PyStr ''stripe'', PyDict [(PyStr ''limit'', PyInt 100), (PyStr ''per'', PyDelta 60000000),
        (PyStr ''tasks'', PyList [PyStr ''shop.tasks.bill''])]),
      (PyStr ''sms'', PyDict [(PyStr ''limit'', PyInt 500), (PyStr ''per'', PyInt 60),
        (PyStr ''queues'', PyTuple [PyStr ''default''])])])]"

lemma demo_rate_limits:
  "rate_limits_from_options demo_rate_options [''default''] =
    Inr [\<lparr>rl_name = ''sms'', rl_limit = 500, rl_per = 60, rl_paths = {}, rl_queues = {''default''}\<rparr>,
      \<lparr>rl_name = ''stripe'', rl_limit = 100, rl_per = 60, rl_paths = {''shop.tasks.bill''}, rl_queues = {}\<rparr>]"
  by code_simp

end
