(* ===== verification/Reissue.thy ===== *)
theory Reissue
  imports Contention Claim
begin

text \<open>
  Running a transaction again after it lost a conflict (\<open>_lost_conflict\<close>, \<open>_reissue\<close> of
  \<open>src/oxpull/batches.py\<close>, with the two predicates of \<open>src/oxpull/backend.py\<close> they ask).  The locale is
  what every such loop of the repository promises; it is interpreted on this one and on
  \<open>run_from\<close> of \<open>Contention\<close>.  \<open>DatabaseError\<close> is Django's \<open>OperationalError\<close> here, the class that carries
  both conflicts.
\<close>

section \<open>Conflicts\<close>

datatype conflict = Deadlock | SerializationFailure

definition is_innodb_deadlock :: "vendor \<Rightarrow> db_error \<Rightarrow> bool" where
  "is_innodb_deadlock v e = (v = Mysql \<and> arg0 (raised e) = Some 1213)"

definition cause_state :: "db_error \<Rightarrow> string option" where
  "cause_state e = (case cause e of None \<Rightarrow> None | Some c \<Rightarrow> sqlstate c)"

definition is_deadlock :: "vendor \<Rightarrow> db_error \<Rightarrow> bool" where
  "is_deadlock v e = (is_innodb_deadlock v e \<or> v = Postgresql \<and> cause_state e = Some ''40P01'')"

definition is_serialization_failure :: "vendor \<Rightarrow> db_error \<Rightarrow> bool" where
  "is_serialization_failure v e = (v = Postgresql \<and> cause_state e = Some ''40001'')"

definition lost_conflict :: "vendor \<Rightarrow> bool \<Rightarrow> db_error \<Rightarrow> conflict option" where
  "lost_conflict v deadlocks e =
     (if deadlocks \<and> is_deadlock v e then Some Deadlock
      else if is_serialization_failure v e then Some SerializationFailure else None)"

definition max_add_attempts :: nat where
  "max_add_attempts = 5"

definition max_serialization_attempts :: nat where
  "max_serialization_attempts = 10"

definition attempts_after :: "conflict \<Rightarrow> nat" where
  "attempts_after c = (case c of SerializationFailure \<Rightarrow> max_serialization_attempts | Deadlock \<Rightarrow> max_add_attempts)"

text \<open>The longest pause before attempt \<open>n + 2\<close>, in milliseconds.\<close>

definition reissue_pause :: "conflict \<Rightarrow> nat \<Rightarrow> nat" where
  "reissue_pause c n = (case c of SerializationFailure \<Rightarrow> 50 * 2 ^ min n 4 | Deadlock \<Rightarrow> 50)"

section \<open>The loop\<close>

text \<open>Whether attempt \<open>n\<close>, the first being 0, is followed by another after this failure.\<close>

definition reissues :: "bool \<Rightarrow> vendor \<Rightarrow> bool \<Rightarrow> nat \<Rightarrow> failure \<Rightarrow> bool" where
  "reissues owns v deadlocks n f =
     (case f of
        OtherError x \<Rightarrow> False
      | DatabaseError e \<Rightarrow>
          (case (if owns then lost_conflict v deadlocks e else None) of
             None \<Rightarrow> False
           | Some c \<Rightarrow> n + 1 < attempts_after c))"

lemma reissues_bounded: "reissues owns v deadlocks n f \<Longrightarrow> n < max_serialization_attempts"
  by (auto simp: reissues_def attempts_after_def max_add_attempts_def max_serialization_attempts_def
      split: failure.splits option.splits conflict.splits)

function reissue_from :: "bool \<Rightarrow> vendor \<Rightarrow> bool \<Rightarrow> (nat \<Rightarrow> 's \<Rightarrow> failure + 'a \<times> 's) \<Rightarrow> (nat \<Rightarrow> 's \<Rightarrow> 's)
    \<Rightarrow> nat \<Rightarrow> 's \<Rightarrow> (failure + 'a) \<times> 's" where
  "reissue_from owns v deadlocks once others n s =
     (case once n s of
        Inr (a, s') \<Rightarrow> (Inr a, s')
      | Inl f \<Rightarrow>
          if reissues owns v deadlocks n f then reissue_from owns v deadlocks once others (n + 1) (others n s)
          else (Inl f, s))"
  by pat_completeness auto
termination
  by (relation "measure (\<lambda>(owns, v, deadlocks, once, others, n, s). max_serialization_attempts - n)")
     (auto dest: reissues_bounded)

declare reissue_from.simps [simp del]

definition reissue :: "bool \<Rightarrow> vendor \<Rightarrow> bool \<Rightarrow> (nat \<Rightarrow> 's \<Rightarrow> failure + 'a \<times> 's) \<Rightarrow> (nat \<Rightarrow> 's \<Rightarrow> 's)
    \<Rightarrow> 's \<Rightarrow> (failure + 'a) \<times> 's" where
  "reissue owns v deadlocks once others s = reissue_from owns v deadlocks once others 0 s"

section \<open>What every such loop promises\<close>

text \<open>The committed state that attempt \<open>m\<close> starts from, when the loop began with attempt \<open>n\<close> in \<open>s\<close>.\<close>

fun later_state :: "(nat \<Rightarrow> 's \<Rightarrow> 's) \<Rightarrow> nat \<Rightarrow> 's \<Rightarrow> nat \<Rightarrow> 's" where
  "later_state others n s 0 = s"
| "later_state others n s (Suc k) = later_state others (n + 1) (others n s) k"

locale retry_loop =
  fixes again :: "nat \<Rightarrow> failure \<Rightarrow> bool"
    and loop :: "(nat \<Rightarrow> 's \<Rightarrow> failure + 'a \<times> 's) \<Rightarrow> (nat \<Rightarrow> 's \<Rightarrow> 's) \<Rightarrow> nat \<Rightarrow> 's \<Rightarrow> (failure + 'a) \<times> 's"
    and top :: nat
  assumes bounded: "again n f \<Longrightarrow> n < top"
    and unfold: "loop body others n s = (case body n s of Inr (a, s') \<Rightarrow> (Inr a, s')
      | Inl f \<Rightarrow> if again n f then loop body others (n + 1) (others n s) else (Inl f, s))"
begin

text \<open>The outcome is that of one attempt; the attempts before it lost a conflict and changed nothing.\<close>

lemma one_attempt:
  "\<exists>k. n + k \<le> max n top
    \<and> (case fst (loop body others n s) of
         Inr a \<Rightarrow> body (n + k) (later_state others n s k) = Inr (a, snd (loop body others n s))
       | Inl f \<Rightarrow> body (n + k) (later_state others n s k) = Inl f \<and> \<not> again (n + k) f
           \<and> snd (loop body others n s) = later_state others n s k)"
proof (induction "top - n" arbitrary: n s rule: less_induct)
  case less
  show ?case
  proof (cases "\<exists>f. body n s = Inl f \<and> again n f")
    case True
    then obtain f where f: "body n s = Inl f" "again n f" by blast
    then have "top - (n + 1) < top - n" using bounded [of n f] by simp
    from less.hyps [OF this, of "others n s"] obtain k where
      k: "n + 1 + k \<le> max (n + 1) top"
        "case fst (loop body others (n + 1) (others n s)) of
           Inr a \<Rightarrow> body (n + 1 + k) (later_state others (n + 1) (others n s) k)
             = Inr (a, snd (loop body others (n + 1) (others n s)))
         | Inl f \<Rightarrow> body (n + 1 + k) (later_state others (n + 1) (others n s) k) = Inl f \<and> \<not> again (n + 1 + k) f
             \<and> snd (loop body others (n + 1) (others n s)) = later_state others (n + 1) (others n s) k" by blast
    have "loop body others n s = loop body others (n + 1) (others n s)" using f by (simp add: unfold [of body others n s])
    with k bounded [OF f(2)] show ?thesis
      by (intro exI [of _ "Suc k"]) (auto split: sum.splits)
  next
    case False
    then show ?thesis
      by (intro exI [of _ 0]) (auto simp: unfold [of body others n s] split: sum.splits)
  qed
qed

end

interpretation reissued: retry_loop "reissues owns v deadlocks" "reissue_from owns v deadlocks" max_serialization_attempts
proof (unfold_locales, goal_cases)
  case (1 n f)
  then show ?case by (rule reissues_bounded)
next
  case (2 body others n s)
  show ?case by (subst reissue_from.simps) (rule refl)
qed

interpretation recontended: retry_loop
  "\<lambda>n f. n < tries \<and> (case f of DatabaseError e \<Rightarrow> is_contention e | OtherError x \<Rightarrow> False)" "run_from tries" tries
proof (unfold_locales, goal_cases)
  case (2 body others n s)
  show ?case by (subst run_from.simps) (auto split: sum.split failure.split)
qed simp

lemma reissue_attempt:
  obtains k where "k \<le> max_serialization_attempts"
    "case fst (reissue owns v deadlocks once others s) of
       Inr a \<Rightarrow> once k (later_state others 0 s k) = Inr (a, snd (reissue owns v deadlocks once others s))
     | Inl f \<Rightarrow> once k (later_state others 0 s k) = Inl f \<and> \<not> reissues owns v deadlocks k f
         \<and> snd (reissue owns v deadlocks once others s) = later_state others 0 s k"
proof -
  have "\<exists>k. 0 + k \<le> max 0 max_serialization_attempts
    \<and> (case fst (reissue owns v deadlocks once others s) of
         Inr a \<Rightarrow> once (0 + k) (later_state others 0 s k) = Inr (a, snd (reissue owns v deadlocks once others s))
       | Inl f \<Rightarrow> once (0 + k) (later_state others 0 s k) = Inl f \<and> \<not> reissues owns v deadlocks (0 + k) f
           \<and> snd (reissue owns v deadlocks once others s) = later_state others 0 s k)"
    unfolding reissue_def by (rule reissued.one_attempt)
  then show thesis using that by (simp only: add_0 max_0L) blast
qed

end
