(* ===== verification/Batches.thy ===== *)
theory Batches
  imports Reissue
begin

text \<open>
  Batches (\<open>src/oxpull/batches.py\<close>): a group of tasks and the callbacks enqueued once when every member's
  row is settled or gone.  The store is the three tables the code joins.  A transaction that takes the
  batch row's lock is one step; what other sessions commit to the task rows between its statements is the
  argument \<open>others\<close>.  Enqueueing is the backend's and a parameter: it fails, or appends one row.
\<close>

section \<open>Rows\<close>

datatype batch_status = OPEN | SEALED | COMPLETE

record callback =
  cb_path :: string
  cb_args :: json
  cb_kwargs :: json

record batch =
  b_key :: uuid
  b_name :: string
  b_status :: batch_status
  b_total :: "nat option"
  b_on_complete :: callback
  b_on_success :: callback
  b_failed :: "nat option"
  b_callback :: "uuid option"
  b_success :: "uuid option"
  b_created_at :: int
  b_sealed_at :: "int option"
  b_completed_at :: "int option"

record member =
  m_batch :: uuid
  m_task :: uuid
  m_created_at :: int

record batch_store =
  batches :: "batch list"
  members :: "member list"
  tasks :: table

type_synonym enqueue = "callback \<Rightarrow> table \<Rightarrow> failure + uuid \<times> table"

section \<open>Counting members\<close>

definition all_statuses :: "status list" where
  "all_statuses = [READY, RUNNING, FAILED, SUCCESSFUL, LOST, DISCARDED, WAITING]"

definition settled_statuses :: "status set" where
  "settled_statuses = {SUCCESSFUL, FAILED, LOST, DISCARDED}"

definition unattributed_statuses :: "status list" where
  "unattributed_statuses = [LOST, DISCARDED]"

definition member_tasks :: "uuid \<Rightarrow> member list \<Rightarrow> uuid list" where
  "member_tasks k ms = map m_task (filter (\<lambda>m. m_batch m = k) ms)"

text \<open>\<open>_member_task_counts\<close>: absent statuses count 0.\<close>

definition member_task_counts :: "uuid list \<Rightarrow> table \<Rightarrow> status \<Rightarrow> nat" where
  "member_task_counts ks t st = length (filter (\<lambda>r. pk r \<in> set ks \<and> status r = st) t)"

definition pending_count :: "(status \<Rightarrow> nat) \<Rightarrow> nat" where
  "pending_count counts = sum_list (map counts (filter (\<lambda>st. st \<notin> settled_statuses) all_statuses))"

definition rows_counted :: "(status \<Rightarrow> nat) \<Rightarrow> nat" where
  "rows_counted counts = sum_list (map counts all_statuses)"

record batch_progress =
  bp_total :: nat
  bp_pending :: nat
  bp_succeeded :: nat
  bp_failed :: nat

text \<open>\<open>BatchProgress.unattributed\<close> and \<open>finished\<close>; natural subtraction is \<open>max(..., 0)\<close>.\<close>

definition unattributed :: "batch_progress \<Rightarrow> nat" where
  "unattributed p = bp_total p - (bp_pending p + bp_succeeded p + bp_failed p)"

definition finished :: "batch_progress \<Rightarrow> int" where
  "finished p = int (bp_total p) - int (bp_pending p)"

definition find_batch :: "uuid \<Rightarrow> batch_store \<Rightarrow> batch option" where
  "find_batch k s = find (\<lambda>b. b_key b = k) (batches s)"

definition set_batch :: "uuid \<Rightarrow> (batch \<Rightarrow> batch) \<Rightarrow> batch_store \<Rightarrow> batch_store" where
  "set_batch k f s = s\<lparr>batches := map (\<lambda>b. if b_key b = k then f b else b) (batches s)\<rparr>"

text \<open>\<open>Batch.progress\<close>; \<open>later\<close> is what commits between the count of an open batch's members and the
  count of their rows.\<close>

definition progress :: "(batch_store \<Rightarrow> batch_store) \<Rightarrow> uuid \<Rightarrow> batch_store \<Rightarrow> batch_progress option" where
  "progress later k s =
     (case find_batch k s of
        None \<Rightarrow> None
      | Some b \<Rightarrow>
          (let s' = (if b_total b = None then later s else s);
               counts = member_task_counts (member_tasks k (members s')) (tasks s');
               total = (case b_total b of
                          Some n \<Rightarrow> n
                        | None \<Rightarrow> max (length (member_tasks k (members s))) (rows_counted counts))
           in Some \<lparr>bp_total = total, bp_pending = pending_count counts, bp_succeeded = counts SUCCESSFUL,
                bp_failed = counts FAILED\<rparr>))"

section \<open>Building a batch\<close>

datatype batch_error =
    EnqueueRefused failure
  | BatchSealed batch_status
  | NoBatch
  | BatchMemberExists
  | NoReconciler
  | BatchNameTooLong

definition batch_name_max_length :: nat where
  "batch_name_max_length = 128"

text \<open>\<open>create\<close>, its callbacks resolved; \<open>scheduled\<close> says whether a backend schedules the reconciler.\<close>

definition create_batch :: "bool \<Rightarrow> uuid \<Rightarrow> string \<Rightarrow> callback \<Rightarrow> callback \<Rightarrow> int \<Rightarrow> batch_store
    \<Rightarrow> (batch_error + unit) \<times> batch_store" where
  "create_batch scheduled k name on_complete on_success now s =
     (if \<not> scheduled then (Inl NoReconciler, s)
      else if batch_name_max_length < length name then (Inl BatchNameTooLong, s)
      else (Inr (), s\<lparr>batches := batches s @
        [\<lparr>b_key = k, b_name = name, b_status = OPEN, b_total = None, b_on_complete = on_complete,
          b_on_success = on_success, b_failed = None, b_callback = None, b_success = None,
          b_created_at = now, b_sealed_at = None, b_completed_at = None\<rparr>]\<rparr>))"

text \<open>\<open>_claim_open\<close>: the status it sees.  \<open>found_rows\<close> is whether the connection counts matched rows; a
  MySQL connection that counts changed ones answers 0 to the no-op UPDATE, and the locking read decides.\<close>

definition claim_open :: "bool \<Rightarrow> uuid \<Rightarrow> batch_store \<Rightarrow> batch_status option" where
  "claim_open found_rows k s =
     (if found_rows \<and> map_option b_status (find_batch k s) = Some OPEN then Some OPEN
      else map_option b_status (find_batch k s))"

definition not_open_error :: "batch_status option \<Rightarrow> batch_error" where
  "not_open_error st = (case st of None \<Rightarrow> NoBatch | Some x \<Rightarrow> BatchSealed x)"

text \<open>\<open>_add_once\<close>: any error rolls the enqueue back too.\<close>

definition add_once :: "(table \<Rightarrow> failure + uuid \<times> table) \<Rightarrow> bool \<Rightarrow> int \<Rightarrow> uuid \<Rightarrow> batch_store
    \<Rightarrow> (batch_error + uuid) \<times> batch_store" where
  "add_once enq found_rows now k s =
     (case enq (tasks s) of
        Inl e \<Rightarrow> (Inl (EnqueueRefused e), s)
      | Inr (task, t) \<Rightarrow>
          if claim_open found_rows k s \<noteq> Some OPEN then (Inl (not_open_error (claim_open found_rows k s)), s)
          else if task \<in> set (member_tasks k (members s)) then (Inl BatchMemberExists, s)
          else (Inr task, s\<lparr>tasks := t,
            members := members s @ [\<lparr>m_batch = k, m_task = task, m_created_at = now\<rparr>]\<rparr>))"

text \<open>\<open>Batch.seal\<close>\<close>

definition seal :: "bool \<Rightarrow> int \<Rightarrow> uuid \<Rightarrow> batch_store \<Rightarrow> (batch_error + unit) \<times> batch_store" where
  "seal scheduled now k s =
     (if map_option b_status (find_batch k s) \<noteq> Some OPEN
      then (Inl (not_open_error (map_option b_status (find_batch k s))), s)
      else if \<not> scheduled then (Inl NoReconciler, s)
      else (Inr (), set_batch k (\<lambda>b. b\<lparr>b_status := SEALED, b_sealed_at := Some now,
        b_total := Some (length (member_tasks k (members s)))\<rparr>) s))"

section \<open>Completing a batch\<close>

definition enqueue_callback :: "enqueue \<Rightarrow> bool \<Rightarrow> callback \<Rightarrow> table \<Rightarrow> failure + uuid option \<times> table" where
  "enqueue_callback enq wanted cb t =
     (if \<not> wanted \<or> cb_path cb = [] then Inr (None, t)
      else case enq cb t of Inl e \<Rightarrow> Inl e | Inr (k, t') \<Rightarrow> Inr (Some k, t'))"

text \<open>\<open>_complete_once\<close>: \<open>others 0\<close> commits between the compare-and-set and the counts, \<open>others 1\<close> between
  the counts and the callbacks.  An error, or a member pending again, rolls back all that this transaction
  wrote.\<close>

definition complete_once :: "enqueue \<Rightarrow> (nat \<Rightarrow> table \<Rightarrow> table) \<Rightarrow> int \<Rightarrow> uuid \<Rightarrow> batch_store
    \<Rightarrow> (failure + (nat \<times> nat) option) \<times> batch_store" where
  "complete_once enq others now k s =
     (case find_batch k s of
        None \<Rightarrow> (Inr None, s)
      | Some b \<Rightarrow>
          if b_status b \<noteq> SEALED then (Inr None, s)
          else
            (let t1 = others 0 (tasks s);
                 counts = member_task_counts (member_tasks k (members s)) t1
             in if pending_count counts \<noteq> 0 then (Inr None, s\<lparr>tasks := t1\<rparr>)
                else
                  (let t2 = others 1 t1;
                       failed = counts FAILED;
                       counted = rows_counted counts - sum_list (map counts unattributed_statuses);
                       total = (case b_total b of Some n \<Rightarrow> n | None \<Rightarrow> length (member_tasks k (members s)));
                       missing = total - counted
                   in case enqueue_callback enq True (b_on_complete b) t2 of
                        Inl e \<Rightarrow> (Inl e, s\<lparr>tasks := t2\<rparr>)
                      | Inr (cb, t3) \<Rightarrow>
                          (case enqueue_callback enq (failed = 0 \<and> missing = 0) (b_on_success b) t3 of
                             Inl e \<Rightarrow> (Inl e, s\<lparr>tasks := t2\<rparr>)
                           | Inr (sc, t4) \<Rightarrow>
                               (Inr (Some (failed, missing)),
                                set_batch k (\<lambda>b. b\<lparr>b_status := COMPLETE, b_completed_at := Some now,
                                    b_failed := Some failed, b_total := Some total,
                                    b_callback := (if cb = None then b_callback b else cb),
                                    b_success := (if sc = None then b_success b else sc)\<rparr>) (s\<lparr>tasks := t4\<rparr>))))))"

text \<open>\<open>_complete_if_finished\<close>: the first count is a filter; \<open>fault n\<close> is an error the database raises
  instead of attempt \<open>n\<close>, and \<open>between\<close> what commits after one that lost a conflict.\<close>

record completion_env =
  ce_enqueue :: enqueue
  ce_others :: "nat \<Rightarrow> nat \<Rightarrow> table \<Rightarrow> table"
  ce_fault :: "nat \<Rightarrow> failure option"
  ce_between :: "nat \<Rightarrow> batch_store \<Rightarrow> batch_store"
  ce_owns :: bool
  ce_vendor :: vendor
  ce_now :: int

definition completion_body :: "completion_env \<Rightarrow> uuid \<Rightarrow> nat \<Rightarrow> batch_store
    \<Rightarrow> failure + (nat \<times> nat) option \<times> batch_store" where
  "completion_body env k n s =
     (case ce_fault env n of
        Some e \<Rightarrow> Inl e
      | None \<Rightarrow>
          (case complete_once (ce_enqueue env) (ce_others env n) (ce_now env) k s of
             (Inl e, s') \<Rightarrow> Inl e
           | (Inr out, s') \<Rightarrow> Inr (out, s')))"

definition complete_if_finished :: "completion_env \<Rightarrow> uuid \<Rightarrow> batch_store \<Rightarrow> (failure + bool) \<times> batch_store" where
  "complete_if_finished env k s =
     (if pending_count (member_task_counts (member_tasks k (members s)) (tasks s)) \<noteq> 0 then (Inr False, s)
      else case reissue (ce_owns env) (ce_vendor env) False (completion_body env k) (ce_between env) s of
        (Inl e, s') \<Rightarrow> (Inl e, s')
      | (Inr out, s') \<Rightarrow> (Inr (out \<noteq> None), s'))"

section \<open>One tick of the reconciler\<close>

definition sweep_stop_factor :: int where
  "sweep_stop_factor = 2"

text \<open>\<open>_sweep\<close>: which of the sealed rows, in this tick's order, are visited.  \<open>left i\<close> is what remains of
  the task's time before visit \<open>i\<close>, \<open>took i\<close> how long that visit takes.\<close>

fun sweep :: "(nat \<Rightarrow> int option) \<Rightarrow> (nat \<Rightarrow> int) \<Rightarrow> nat \<Rightarrow> int \<Rightarrow> 'k list \<Rightarrow> 'k list" where
  "sweep left took i slowest [] = []"
| "sweep left took i slowest (k # ks) =
     (if (case left i of None \<Rightarrow> False | Some l \<Rightarrow> l < sweep_stop_factor * slowest) then []
      else k # sweep left took (i + 1) (max slowest (took i)) ks)"

text \<open>\<open>_reconcile\<close>: a batch that raises is logged and passed over, unless the tick itself ran out of time.\<close>

fun reconcile_each :: "('k \<Rightarrow> 's \<Rightarrow> (failure + bool) \<times> 's) \<Rightarrow> (failure \<Rightarrow> bool) \<Rightarrow> 'k list \<Rightarrow> nat \<Rightarrow> 's
    \<Rightarrow> (failure + nat) \<times> 's" where
  "reconcile_each visit timed_out [] completed s = (Inr completed, s)"
| "reconcile_each visit timed_out (k # ks) completed s =
     (case visit k s of
        (Inr c, s') \<Rightarrow> reconcile_each visit timed_out ks (if c then completed + 1 else completed) s'
      | (Inl e, s') \<Rightarrow> if timed_out e then (Inl e, s') else reconcile_each visit timed_out ks completed s')"

definition sealed_keys :: "batch_store \<Rightarrow> uuid list" where
  "sealed_keys s = map b_key (filter (\<lambda>b. b_status b = SEALED) (batches s))"

definition reconcile :: "(uuid \<Rightarrow> completion_env) \<Rightarrow> (failure \<Rightarrow> bool) \<Rightarrow> (uuid list \<Rightarrow> uuid list)
    \<Rightarrow> (nat \<Rightarrow> int option) \<Rightarrow> (nat \<Rightarrow> int) \<Rightarrow> batch_store \<Rightarrow> (failure + nat) \<times> batch_store" where
  "reconcile env timed_out shuffle left took s =
     reconcile_each (\<lambda>k. complete_if_finished (env k) k) timed_out
       (sweep left took 0 0 (shuffle (sealed_keys s))) 0 s"

end
