(* ===== verification/BatchFacts.thy ===== *)
theory BatchFacts
  imports Batches
begin

text \<open>
  What batches promise: the counts, the one completion of each batch, what the two callbacks mean, and
  that a tick of the reconciler passes no finished batch over because of another.
\<close>

section \<open>Counts\<close>

lemma sum_counts:
  "distinct sts \<Longrightarrow> sum_list (map (member_task_counts ks t) sts) = length (filter (\<lambda>r. pk r \<in> set ks \<and> status r \<in> set sts) t)"
proof (induction sts)
  case (Cons st sts)
  have "length (filter (\<lambda>r. pk r \<in> set ks \<and> status r \<in> set (st # sts)) t)
      = length (filter (\<lambda>r. pk r \<in> set ks \<and> status r = st) t) + length (filter (\<lambda>r. pk r \<in> set ks \<and> status r \<in> set sts) t)"
    using Cons.prems by (induction t) auto
  with Cons show ?case by (simp add: member_task_counts_def)
qed simp

lemma all_statuses_all [simp]: "st \<in> set all_statuses"
  by (cases st) (simp_all add: all_statuses_def)

lemma rows_counted_rows: "rows_counted (member_task_counts ks t) = length (filter (\<lambda>r. pk r \<in> set ks) t)"
proof -
  have "distinct all_statuses" by (simp add: all_statuses_def)
  from sum_counts [OF this, of ks t] show ?thesis by (simp add: rows_counted_def)
qed

lemma pending_count_rows:
  "pending_count (member_task_counts ks t) = length (filter (\<lambda>r. pk r \<in> set ks \<and> status r \<notin> settled_statuses) t)"
proof -
  have d: "distinct (filter (\<lambda>st. st \<notin> settled_statuses) all_statuses)" by (simp add: all_statuses_def)
  show ?thesis unfolding pending_count_def sum_counts [OF d] by simp
qed

lemma none_pending:
  "pending_count (member_task_counts ks t) = 0 \<longleftrightarrow> (\<forall>r \<in> set t. pk r \<in> set ks \<longrightarrow> status r \<in> settled_statuses)"
  by (auto simp: pending_count_rows filter_empty_conv)

lemma settled_split:
  assumes "pending_count (member_task_counts ks t) = 0"
  shows "rows_counted (member_task_counts ks t) = member_task_counts ks t SUCCESSFUL + member_task_counts ks t FAILED
    + sum_list (map (member_task_counts ks t) unattributed_statuses)"
proof -
  have "member_task_counts ks t st = 0" if "st \<notin> settled_statuses" for st
    using assms that by (auto simp: none_pending member_task_counts_def filter_empty_conv)
  then have "member_task_counts ks t READY = 0" "member_task_counts ks t RUNNING = 0" "member_task_counts ks t WAITING = 0"
    by (simp_all add: settled_statuses_def)
  then show ?thesis by (simp add: rows_counted_def all_statuses_def unattributed_statuses_def)
qed

lemma card_of_rows: "distinct (map pk t) \<Longrightarrow> card (pk ` set t) = length t"
  using distinct_card [of "map pk t"] by simp

text \<open>In a table with distinct keys, as many successful rows as members means every member succeeded.\<close>

lemma all_successful:
  assumes "wf_table t" "distinct ks" "length ks \<le> member_task_counts ks t SUCCESSFUL"
  shows "\<forall>k \<in> set ks. \<exists>r \<in> set t. pk r = k \<and> status r = SUCCESSFUL"
proof -
  let ?rs = "filter (\<lambda>r. pk r \<in> set ks \<and> status r = SUCCESSFUL) t"
  have "distinct (map pk ?rs)" using assms(1) by (simp add: wf_table_def distinct_map_filter)
  then have "card (pk ` set ?rs) = length ?rs" by (rule card_of_rows)
  moreover have "card (set ks) = length ks" by (rule distinct_card [OF assms(2)])
  moreover have "pk ` set ?rs \<subseteq> set ks" by auto
  moreover have "length ks \<le> length ?rs" using assms(3) by (simp add: member_task_counts_def)
  ultimately have "pk ` set ?rs = set ks" by (intro card_seteq) simp_all
  then show ?thesis by force
qed

lemma successful_count:
  assumes "wf_table t" "distinct ks" "\<forall>k \<in> set ks. \<exists>r \<in> set t. pk r = k \<and> status r = SUCCESSFUL"
  shows "member_task_counts ks t SUCCESSFUL = length ks" "member_task_counts ks t FAILED = 0"
    "pending_count (member_task_counts ks t) = 0" "sum_list (map (member_task_counts ks t) unattributed_statuses) = 0"
proof -
  have one: "status r = SUCCESSFUL" if "r \<in> set t" "pk r \<in> set ks" for r
  proof -
    from assms(3) that(2) obtain q where "q \<in> set t" "pk q = pk r" "status q = SUCCESSFUL" by blast
    moreover from this have "q = r" using assms(1) that(1) unfolding wf_table_def by (simp add: distinct_map inj_on_def)
    ultimately show ?thesis by simp
  qed
  let ?rs = "filter (\<lambda>r. pk r \<in> set ks \<and> status r = SUCCESSFUL) t"
  have "distinct (map pk ?rs)" using assms(1) by (simp add: wf_table_def distinct_map_filter)
  then have "card (pk ` set ?rs) = length ?rs" by (rule card_of_rows)
  moreover have "pk ` set ?rs = set ks" using assms(3) by force
  ultimately show "member_task_counts ks t SUCCESSFUL = length ks"
    using distinct_card [OF assms(2)] by (simp add: member_task_counts_def)
  show "member_task_counts ks t FAILED = 0" "pending_count (member_task_counts ks t) = 0"
    "sum_list (map (member_task_counts ks t) unattributed_statuses) = 0"
    using one by (auto simp: member_task_counts_def filter_empty_conv none_pending settled_statuses_def
        unattributed_statuses_def)
qed

text \<open>A reading of a sealed batch whose total is its member count adds up.\<close>

lemma progress_adds_up:
  assumes "progress later k s = Some p" "find_batch k s = Some b" "b_total b = Some (length (member_tasks k (members s)))"
    and "wf_table (tasks s)" "distinct (member_tasks k (members s))"
  shows "bp_total p = bp_pending p + bp_succeeded p + bp_failed p + unattributed p" "0 \<le> finished p"
    "bp_pending p = length (filter (\<lambda>r. pk r \<in> set (member_tasks k (members s)) \<and> status r \<notin> settled_statuses) (tasks s))"
proof -
  let ?ks = "member_tasks k (members s)"
  let ?c = "member_task_counts ?ks (tasks s)"
  have p: "p = \<lparr>bp_total = length ?ks, bp_pending = pending_count ?c, bp_succeeded = ?c SUCCESSFUL, bp_failed = ?c FAILED\<rparr>"
    using assms(1-3) by (simp add: progress_def Let_def)
  have le: "rows_counted ?c \<le> length ?ks"
  proof -
    let ?rs = "filter (\<lambda>r. pk r \<in> set ?ks) (tasks s)"
    have "distinct (map pk ?rs)" using assms(4) by (simp add: wf_table_def distinct_map_filter)
    then have "length ?rs = card (pk ` set ?rs)" by (simp only: card_of_rows)
    also have "\<dots> \<le> card (set ?ks)" by (rule card_mono) auto
    finally show ?thesis using card_length [of ?ks] by (simp add: rows_counted_rows)
  qed
  have "pending_count ?c + ?c SUCCESSFUL + ?c FAILED \<le> rows_counted ?c"
    by (simp add: pending_count_def rows_counted_def all_statuses_def settled_statuses_def)
  with le p show "bp_total p = bp_pending p + bp_succeeded p + bp_failed p + unattributed p" "0 \<le> finished p"
    by (simp_all add: unattributed_def finished_def)
  show "bp_pending p = length (filter (\<lambda>r. pk r \<in> set ?ks \<and> status r \<notin> settled_statuses) (tasks s))"
    by (simp add: p pending_count_rows)
qed

section \<open>Batches by key\<close>

definition batches_wf :: "batch_store \<Rightarrow> bool" where
  "batches_wf s = distinct (map b_key (batches s))"

lemma find_batch_key: "find_batch k s = Some b \<Longrightarrow> b_key b = k \<and> b \<in> set (batches s)"
  by (auto simp: find_batch_def find_Some_iff)

lemma find_set_batch:
  "(\<And>b. b_key (f b) = b_key b) \<Longrightarrow>
    find_batch j (set_batch k f s) = map_option (\<lambda>b. if b_key b = k then f b else b) (find_batch j s)"
proof -
  assume key: "\<And>b. b_key (f b) = b_key b"
  have "find (\<lambda>b. b_key b = j) (map (\<lambda>b. if b_key b = k then f b else b) bs)
      = map_option (\<lambda>b. if b_key b = k then f b else b) (find (\<lambda>b. b_key b = j) bs)" for bs
    using key by (induction bs) auto
  then show ?thesis by (simp add: find_batch_def set_batch_def)
qed

lemma find_batch_tasks [simp]: "find_batch k (s\<lparr>tasks := t\<rparr>) = find_batch k s"
  by (simp add: find_batch_def)

lemma set_batch_simps [simp]:
  "members (set_batch k f s) = members s" "tasks (set_batch k f s) = tasks s"
  by (simp_all add: set_batch_def)

section \<open>What a completion says\<close>

definition fires :: "callback \<Rightarrow> bool" where
  "fires cb = (cb_path cb \<noteq> [])"

text \<open>Every member's row is there and SUCCESSFUL.\<close>

definition clean_run :: "uuid list \<Rightarrow> table \<Rightarrow> bool" where
  "clean_run ks t = (\<forall>k \<in> set ks. \<exists>r \<in> set t. pk r = k \<and> status r = SUCCESSFUL)"

definition sealed_ok :: "uuid \<Rightarrow> batch_store \<Rightarrow> batch \<Rightarrow> bool" where
  "sealed_ok k s b =
     (b_total b = Some (length (member_tasks k (members s))) \<and> distinct (member_tasks k (members s))
      \<and> b_callback b = None \<and> b_success b = None)"

lemma enqueue_callback_Inr:
  assumes "enqueue_callback enq wanted cb t = Inr (k, t')"
  shows "k \<noteq> None \<longleftrightarrow> wanted \<and> fires cb" "k = None \<Longrightarrow> t' = t"
    "k = Some i \<Longrightarrow> enq cb t = Inr (i, t')"
  using assms by (auto simp: enqueue_callback_def fires_def split: if_splits sum.splits prod.splits)

lemma enqueue_callback_Inl: "enqueue_callback enq wanted cb t = Inl e \<Longrightarrow> \<exists>cb t. enq cb t = Inl e"
  by (auto simp: enqueue_callback_def split: if_splits sum.splits prod.splits)

lemma complete_once_cases:
  assumes "complete_once enq others now k s = (r, s')"
  obtains (same) t where "r = Inr None \<or> (\<exists>e. r = Inl e)" "s' = s\<lparr>tasks := t\<rparr>"
      "t = tasks s \<or> t = others 0 (tasks s) \<or> t = others 1 (others 0 (tasks s))"
      "map_option b_status (find_batch k s) \<noteq> Some SEALED
        \<or> pending_count (member_task_counts (member_tasks k (members s)) (others 0 (tasks s))) \<noteq> 0
        \<or> (\<exists>cb t e. enq cb t = Inl e)"
  | (completed) b cb sc t3 t4 where
      "find_batch k s = Some b" "b_status b = SEALED"
      "pending_count (member_task_counts (member_tasks k (members s)) (others 0 (tasks s))) = 0"
      "r = Inr (Some (member_task_counts (member_tasks k (members s)) (others 0 (tasks s)) FAILED,
        (case b_total b of Some n \<Rightarrow> n | None \<Rightarrow> length (member_tasks k (members s)))
          - (rows_counted (member_task_counts (member_tasks k (members s)) (others 0 (tasks s)))
             - sum_list (map (member_task_counts (member_tasks k (members s)) (others 0 (tasks s))) unattributed_statuses))))"
      "enqueue_callback enq True (b_on_complete b) (others 1 (others 0 (tasks s))) = Inr (cb, t3)"
      "enqueue_callback enq (fst (the (projr r)) = 0 \<and> snd (the (projr r)) = 0) (b_on_success b) t3 = Inr (sc, t4)"
      "s' = set_batch k (\<lambda>b. b\<lparr>b_status := COMPLETE, b_completed_at := Some now,
          b_failed := Some (fst (the (projr r))),
          b_total := Some (case b_total (the (find_batch k s)) of Some n \<Rightarrow> n | None \<Rightarrow> length (member_tasks k (members s))),
          b_callback := (if cb = None then b_callback b else cb),
          b_success := (if sc = None then b_success b else sc)\<rparr>) (s\<lparr>tasks := t4\<rparr>)"
proof -
  have t: "s = s\<lparr>tasks := tasks s\<rparr>" by simp
  show thesis
  proof (cases "find_batch k s")
    case None
    with assms show thesis by (intro same [of "tasks s"]) (auto simp: complete_once_def)
  next
    case (Some b)
    show thesis
    proof (cases "b_status b = SEALED")
      case False
      with assms Some show thesis by (intro same [of "tasks s"]) (auto simp: complete_once_def)
    next
      case True
      let ?c = "member_task_counts (member_tasks k (members s)) (others 0 (tasks s))"
      let ?t = "case b_total b of Some n \<Rightarrow> n | None \<Rightarrow> length (member_tasks k (members s))"
      let ?m = "?t - (rows_counted ?c - sum_list (map ?c unattributed_statuses))"
      show thesis
      proof (cases "pending_count ?c = 0")
        case False
        with assms Some True show thesis
          by (intro same [of "others 0 (tasks s)"]) (auto simp: complete_once_def Let_def dest: enqueue_callback_Inl)
      next
        case zero: True
        let ?t2 = "others 1 (others 0 (tasks s))"
        show thesis
        proof (cases "enqueue_callback enq True (b_on_complete b) ?t2")
          case (Inl e)
          from enqueue_callback_Inl [OF this] have bad: "\<exists>cb t e. enq cb t = Inl e" by blast
          from assms Some True zero Inl show thesis
            by (intro same [of ?t2]) (use bad in \<open>auto simp: complete_once_def Let_def\<close>)
        next
          case (Inr x)
          obtain cb t3 where x: "x = (cb, t3)" by fastforce
          show thesis
          proof (cases "enqueue_callback enq (?c FAILED = 0 \<and> ?m = 0) (b_on_success b) t3")
            case (Inl e)
            from enqueue_callback_Inl [OF this] have bad: "\<exists>cb t e. enq cb t = Inl e" by blast
            from assms Some True zero Inr x Inl show thesis
              by (intro same [of ?t2]) (use bad in \<open>auto simp: complete_once_def Let_def\<close>)
          next
            case y: (Inr y)
            obtain sc t4 where yy: "y = (sc, t4)" by fastforce
            have out: "r = Inr (Some (?c FAILED, ?m))"
              "s' = set_batch k (\<lambda>b. b\<lparr>b_status := COMPLETE, b_completed_at := Some now,
                  b_failed := Some (?c FAILED), b_total := Some ?t,
                  b_callback := (if cb = None then b_callback b else cb),
                  b_success := (if sc = None then b_success b else sc)\<rparr>) (s\<lparr>tasks := t4\<rparr>)"
              using assms Some True zero Inr x y yy by (auto simp: complete_once_def Let_def dest: enqueue_callback_Inl)
            show thesis
              by (rule completed [OF Some True zero out(1)]) (use Inr x y yy out Some in simp_all)
          qed
        qed
      qed
    qed
  qed
qed

lemma complete_once_truth:
  assumes c: "complete_once enq others now k s = (Inr (Some (failed, missing)), s')"
    and ok: "\<And>b. find_batch k s = Some b \<Longrightarrow> sealed_ok k s b" and wf: "wf_table (others 0 (tasks s))"
  obtains b b' where "find_batch k s = Some b" "b_status b = SEALED" "find_batch k s' = Some b'"
    "b_status b' = COMPLETE"
    "\<forall>r \<in> set (others 0 (tasks s)). pk r \<in> set (member_tasks k (members s)) \<longrightarrow> status r \<in> settled_statuses"
    "b_failed b' = Some (member_task_counts (member_tasks k (members s)) (others 0 (tasks s)) FAILED)"
    "b_callback b' \<noteq> None \<longleftrightarrow> fires (b_on_complete b)"
    "b_success b' \<noteq> None \<longleftrightarrow> fires (b_on_success b) \<and> clean_run (member_tasks k (members s)) (others 0 (tasks s))"
  using c
proof (cases rule: complete_once_cases)
  case (completed b cb sc t3 t4)
  let ?ks = "member_tasks k (members s)"
  let ?t1 = "others 0 (tasks s)"
  let ?c = "member_task_counts ?ks ?t1"
  have so: "sealed_ok k s b" by (rule ok [OF completed(1)])
  then have tot: "b_total b = Some (length ?ks)" and dis: "distinct ?ks" by (simp_all add: sealed_ok_def)
  have sp: "rows_counted ?c - sum_list (map ?c unattributed_statuses) = ?c SUCCESSFUL + ?c FAILED"
    using settled_split [OF completed(3)] by simp
  have fm: "failed = ?c FAILED" "missing = length ?ks - (?c SUCCESSFUL + ?c FAILED)"
    using completed(4) tot sp by simp_all
  have clean: "failed = 0 \<and> missing = 0 \<longleftrightarrow> clean_run ?ks ?t1"
  proof
    assume "failed = 0 \<and> missing = 0"
    then have "length ?ks \<le> ?c SUCCESSFUL" using fm by simp
    from all_successful [OF wf dis this] show "clean_run ?ks ?t1" by (simp add: clean_run_def)
  next
    assume "clean_run ?ks ?t1"
    from successful_count [OF wf dis this [unfolded clean_run_def]] fm show "failed = 0 \<and> missing = 0" by simp
  qed
  have cbs: "cb \<noteq> None \<longleftrightarrow> fires (b_on_complete b)" "sc \<noteq> None \<longleftrightarrow> (failed = 0 \<and> missing = 0) \<and> fires (b_on_success b)"
    using enqueue_callback_Inr(1) [OF completed(5)] enqueue_callback_Inr(1) [OF completed(6)] by simp_all
  have key: "b_key b = k" using find_batch_key [OF completed(1)] by simp
  show thesis
  proof (rule that [OF completed(1,2)])
    show "find_batch k s' = Some (b\<lparr>b_status := COMPLETE, b_completed_at := Some now, b_failed := Some failed,
        b_total := Some (length ?ks), b_callback := (if cb = None then b_callback b else cb),
        b_success := (if sc = None then b_success b else sc)\<rparr>)" (is "_ = Some ?b'")
      unfolding completed(7) by (subst find_set_batch) (simp_all add: completed(1) tot key)
    show "\<forall>r \<in> set ?t1. pk r \<in> set ?ks \<longrightarrow> status r \<in> settled_statuses" using completed(3) none_pending by blast
    show "b_failed ?b' = Some (?c FAILED)" using fm by simp
    show "b_callback ?b' \<noteq> None \<longleftrightarrow> fires (b_on_complete b)" using cbs so by (auto simp: sealed_ok_def)
    show "b_success ?b' \<noteq> None \<longleftrightarrow> fires (b_on_success b) \<and> clean_run ?ks ?t1"
      using cbs clean so by (auto simp: sealed_ok_def)
  qed simp
qed auto

section \<open>The life of a batch\<close>

text \<open>
  Every operation on the three tables in any order, the task rows changing freely in between; \<open>log\<close> is
  the list of batches in the order they were completed.
\<close>

inductive batch_reach :: "batch_store \<Rightarrow> uuid list \<Rightarrow> bool" where
  start: "batch_reach \<lparr>batches = [], members = [], tasks = []\<rparr> []"
| create: "batch_reach s cs \<Longrightarrow> find_batch k s = None \<Longrightarrow> k \<notin> m_batch ` set (members s) \<Longrightarrow>
    create_batch sch k name c1 c2 now s = (r, s') \<Longrightarrow> batch_reach s' cs"
| add: "batch_reach s cs \<Longrightarrow> add_once enq fr now k s = (r, s') \<Longrightarrow> batch_reach s' cs"
| seal: "batch_reach s cs \<Longrightarrow> seal sch now k s = (r, s') \<Longrightarrow> batch_reach s' cs"
| complete: "batch_reach s cs \<Longrightarrow> complete_once enq others now k s = (r, s') \<Longrightarrow>
    batch_reach s' (cs @ (case r of Inr (Some x) \<Rightarrow> [k] | _ \<Rightarrow> []))"
| rows: "batch_reach s cs \<Longrightarrow> batch_reach (s\<lparr>tasks := t\<rparr>) cs"

definition batch_ok :: "batch_store \<Rightarrow> uuid list \<Rightarrow> batch \<Rightarrow> bool" where
  "batch_ok s cs b =
     (case b_status b of
        OPEN \<Rightarrow> b_key b \<notin> set cs \<and> b_total b = None \<and> b_failed b = None \<and> b_callback b = None \<and> b_success b = None
      | SEALED \<Rightarrow> b_key b \<notin> set cs \<and> b_total b = Some (length (member_tasks (b_key b) (members s)))
          \<and> b_failed b = None \<and> b_callback b = None \<and> b_success b = None
      | COMPLETE \<Rightarrow> b_key b \<in> set cs \<and> b_total b = Some (length (member_tasks (b_key b) (members s)))
          \<and> b_failed b \<noteq> None \<and> (b_callback b \<noteq> None) = fires (b_on_complete b)
          \<and> (b_success b \<noteq> None \<longrightarrow> fires (b_on_success b) \<and> b_failed b = Some 0))"

lemma batch_ok_cong:
  assumes "batch_ok s cs b" "b_key b \<in> set cs' \<longleftrightarrow> b_key b \<in> set cs"
    and "b_status b \<noteq> OPEN \<Longrightarrow> member_tasks (b_key b) (members s') = member_tasks (b_key b) (members s)"
  shows "batch_ok s' cs' b"
  using assms by (cases "b_status b") (simp_all add: batch_ok_def)

definition store_ok :: "batch_store \<Rightarrow> uuid list \<Rightarrow> bool" where
  "store_ok s cs =
     (distinct cs \<and> (\<forall>k \<in> set cs. find_batch k s \<noteq> None)
      \<and> (\<forall>k b. find_batch k s = Some b \<longrightarrow> batch_ok s cs b)
      \<and> (\<forall>m \<in> set (members s). find_batch (m_batch m) s \<noteq> None)
      \<and> (\<forall>k. distinct (member_tasks k (members s))))"

lemma member_tasks_append:
  "member_tasks k (ms @ [m]) = member_tasks k ms @ (if m_batch m = k then [m_task m] else [])"
  by (simp add: member_tasks_def)

lemma batch_ok_rows [simp]: "batch_ok (s\<lparr>tasks := t\<rparr>) cs b = batch_ok s cs b"
  by (cases "b_status b") (simp_all add: batch_ok_def)

lemma store_ok_rows [simp]: "store_ok (s\<lparr>tasks := t\<rparr>) cs = store_ok s cs"
  by (simp add: store_ok_def)

lemma create_store_ok:
  assumes ok: "store_ok s cs" and fresh: "find_batch k s = None" "k \<notin> m_batch ` set (members s)"
    and c: "create_batch sch k name c1 c2 now s = (r, s')"
  shows "store_ok s' cs"
proof (cases "s' = s")
  case False
  with c obtain b where s': "s' = s\<lparr>batches := batches s @ [b]\<rparr>" and b: "b_key b = k" "b_status b = OPEN"
    "b_total b = None" "b_failed b = None" "b_callback b = None" "b_success b = None"
    by (auto simp: create_batch_def split: if_splits)
  have find: "find_batch j s' = (case find_batch j s of Some x \<Rightarrow> Some x | None \<Rightarrow> if j = k then Some b else None)" for j
  proof -
    have "find p (bs @ [b]) = (case find p bs of Some x \<Rightarrow> Some x | None \<Rightarrow> if p b then Some b else None)" for p bs
      by (induction bs) auto
    then show ?thesis using b(1) by (simp add: find_batch_def s' eq_commute)
  qed
  have nk: "k \<notin> set cs" using ok fresh(1) by (auto simp: store_ok_def)
  have old: "batch_ok s' cs x" if "find_batch j s = Some x" for j x
  proof (rule batch_ok_cong)
    show "batch_ok s cs x" using ok that by (simp add: store_ok_def)
  qed (simp_all add: s')
  have new: "batch_ok s' cs b" using b nk by (simp add: batch_ok_def)
  have kept: "find_batch j s' \<noteq> None" if "find_batch j s \<noteq> None" for j using that by (auto simp: find)
  have mem: "members s' = members s" by (simp add: s')
  show ?thesis unfolding store_ok_def
  proof (intro conjI allI ballI impI)
    fix j x assume "find_batch j s' = Some x"
    then show "batch_ok s' cs x" using old new by (auto simp: find split: option.splits if_splits)
  qed (use ok kept mem in \<open>auto simp: store_ok_def\<close>)
qed (use ok in simp)

lemma claim_open_open: "claim_open fr k s = Some OPEN \<Longrightarrow> \<exists>b. find_batch k s = Some b \<and> b_status b = OPEN"
  by (auto simp: claim_open_def split: if_splits)

lemma add_store_ok:
  assumes ok: "store_ok s cs" and a: "add_once enq fr now k s = (r, s')"
  shows "store_ok s' cs"
proof (cases "s' = s")
  case False
  with a obtain task t where o: "claim_open fr k s = Some OPEN" "task \<notin> set (member_tasks k (members s))"
    and s': "s' = s\<lparr>tasks := t, members := members s @ [\<lparr>m_batch = k, m_task = task, m_created_at = now\<rparr>]\<rparr>"
    by (auto simp: add_once_def split: sum.splits prod.splits if_splits)
  from claim_open_open [OF o(1)] obtain b where b: "find_batch k s = Some b" "b_status b = OPEN" by blast
  have find: "find_batch j s' = find_batch j s" for j by (simp add: find_batch_def s')
  have same: "batch_ok s' cs x" if "find_batch j s = Some x" for j x
  proof -
    have x: "batch_ok s cs x" "b_key x = j" using ok that find_batch_key [OF that] by (auto simp: store_ok_def)
    show ?thesis
    proof (rule batch_ok_cong [OF x(1) refl])
      assume "b_status x \<noteq> OPEN"
      with that b have "j \<noteq> k" by auto
      with x show "member_tasks (b_key x) (members s') = member_tasks (b_key x) (members s)"
        by (simp add: s' member_tasks_append)
    qed
  qed
  show ?thesis unfolding store_ok_def find
    using ok same o(2) b(1) by (auto simp: store_ok_def s' member_tasks_append)
qed (use ok in simp)

lemma set_batch_store_ok:
  assumes ok: "store_ok s cs" and key: "\<And>b. b_key (f b) = b_key b" and dist: "distinct cs'"
    and known: "\<forall>j \<in> set cs'. find_batch j s \<noteq> None"
    and one: "\<And>b. find_batch k s = Some b \<Longrightarrow> batch_ok s cs' (f b)"
    and others: "\<And>j b. find_batch j s = Some b \<Longrightarrow> j \<noteq> k \<Longrightarrow> batch_ok s cs' b"
  shows "store_ok (set_batch k f s) cs'"
proof -
  have "batch_ok (set_batch k f s) cs' x = batch_ok s cs' x" for x
    by (cases "b_status x") (simp_all add: batch_ok_def)
  moreover have "batch_ok s cs' x" if "find_batch j (set_batch k f s) = Some x" for j x
  proof -
    from that obtain b where b: "find_batch j s = Some b" "x = (if b_key b = k then f b else b)"
      by (auto simp: find_set_batch [OF key])
    with find_batch_key [OF b(1)] one others [OF b(1)] show ?thesis by auto
  qed
  ultimately show ?thesis
    using ok dist known by (auto simp: store_ok_def find_set_batch [OF key])
qed

lemma seal_store_ok:
  assumes ok: "store_ok s cs" and a: "seal sch now k s = (r, s')"
  shows "store_ok s' cs"
proof (cases "s' = s")
  case False
  let ?f = "\<lambda>b. b\<lparr>b_status := SEALED, b_sealed_at := Some now,
    b_total := Some (length (member_tasks k (members s)))\<rparr>"
  from False a obtain b where b: "find_batch k s = Some b" "b_status b = OPEN" and s': "s' = set_batch k ?f s"
    by (auto simp: seal_def split: if_splits)
  show ?thesis unfolding s'
  proof (rule set_batch_store_ok [OF ok])
    fix x assume x: "find_batch k s = Some x"
    with b have "x = b" by simp
    moreover have "batch_ok s cs b" using ok b(1) by (simp add: store_ok_def)
    ultimately show "batch_ok s cs (?f x)" using b find_batch_key [OF b(1)] by (simp add: batch_ok_def)
  qed (use ok in \<open>auto simp: store_ok_def\<close>)
qed (use ok in simp)

lemma complete_store_ok:
  assumes ok: "store_ok s cs" and a: "complete_once enq others now k s = (r, s')"
  shows "store_ok s' (cs @ (case r of Inr (Some x) \<Rightarrow> [k] | _ \<Rightarrow> []))"
  using a
proof (cases rule: complete_once_cases)
  case (same t)
  then have "(case r of Inr (Some x) \<Rightarrow> [k] | _ \<Rightarrow> []) = []" by auto
  with same ok show ?thesis by simp
next
  case (completed b cb sc t3 t4)
  have b: "batch_ok s cs b" "b_key b = k" using ok find_batch_key [OF completed(1)] completed(1) by (auto simp: store_ok_def)
  have nk: "k \<notin> set cs" using b completed(2) by (auto simp: batch_ok_def)
  have cs': "cs @ (case r of Inr (Some x) \<Rightarrow> [k] | _ \<Rightarrow> []) = cs @ [k]" using completed(4) by simp
  have cbs: "cb \<noteq> None \<longleftrightarrow> fires (b_on_complete b)" using enqueue_callback_Inr(1) [OF completed(5)] by simp
  have scs: "sc \<noteq> None \<longrightarrow> fires (b_on_success b) \<and> fst (the (projr r)) = 0"
    using enqueue_callback_Inr(1) [OF completed(6)] by simp
  have okt: "store_ok (s\<lparr>tasks := t4\<rparr>) cs" using ok by simp
  show ?thesis unfolding cs' completed(7)
  proof (rule set_batch_store_ok [OF okt])
    show "distinct (cs @ [k])" using ok nk by (simp add: store_ok_def)
    show "\<forall>j \<in> set (cs @ [k]). find_batch j (s\<lparr>tasks := t4\<rparr>) \<noteq> None"
      using ok completed(1) by (auto simp: store_ok_def)
    fix j x assume x: "find_batch j (s\<lparr>tasks := t4\<rparr>) = Some x" "j \<noteq> k"
    then have "b_key x = j" "batch_ok s cs x" using find_batch_key [of j s x] ok by (simp_all add: store_ok_def)
    with x show "batch_ok (s\<lparr>tasks := t4\<rparr>) (cs @ [k]) x" by (auto intro: batch_ok_cong)
  next
    fix x assume "find_batch k (s\<lparr>tasks := t4\<rparr>) = Some x"
    then have x: "x = b" using completed(1) by simp
    have "b_total b = Some (length (member_tasks k (members s)))" "b_callback b = None" "b_success b = None"
      using b completed(2) by (simp_all add: batch_ok_def)
    then show "batch_ok (s\<lparr>tasks := t4\<rparr>) (cs @ [k]) (x\<lparr>b_status := COMPLETE, b_completed_at := Some now,
          b_failed := Some (fst (the (projr r))),
          b_total := Some (case b_total (the (find_batch k s)) of Some n \<Rightarrow> n | None \<Rightarrow> length (member_tasks k (members s))),
          b_callback := (if cb = None then b_callback x else cb),
          b_success := (if sc = None then b_success x else sc)\<rparr>)"
      using b completed(1) cbs scs unfolding x by (auto simp: batch_ok_def)
  qed simp
qed

lemma batch_reach_ok: "batch_reach s cs \<Longrightarrow> store_ok s cs"
proof (induction rule: batch_reach.induct)
  case start
  then show ?case by (simp add: store_ok_def find_batch_def member_tasks_def)
qed (auto intro: create_store_ok add_store_ok seal_store_ok complete_store_ok)

lemma reach_sealed_ok:
  assumes "batch_reach s cs" "find_batch k s = Some b" "b_status b = SEALED"
  shows "sealed_ok k s b"
proof -
  from batch_reach_ok [OF assms(1)] assms(2) have "batch_ok s cs b" "distinct (member_tasks k (members s))"
    by (auto simp: store_ok_def)
  with assms(3) find_batch_key [OF assms(2)] show ?thesis by (auto simp: sealed_ok_def batch_ok_def)
qed

section \<open>Every finished batch is completed\<close>

text \<open>
  A batch whose members \<open>ks\<close> are all settled, sealed or already complete; \<open>calm\<close> says that what other
  sessions commit, and what enqueueing a callback writes, leaves it so.
\<close>

definition settled_in :: "uuid list \<Rightarrow> table \<Rightarrow> bool" where
  "settled_in ks t = (\<forall>r \<in> set t. pk r \<in> set ks \<longrightarrow> status r \<in> settled_statuses)"

definition batch_due :: "uuid \<Rightarrow> uuid list \<Rightarrow> batch_store \<Rightarrow> bool" where
  "batch_due k ks s =
     (member_tasks k (members s) = ks \<and> settled_in ks (tasks s)
      \<and> (\<exists>b. find_batch k s = Some b \<and> b_status b \<noteq> OPEN))"

definition batch_completed :: "uuid \<Rightarrow> batch_store \<Rightarrow> bool" where
  "batch_completed k s = (map_option b_status (find_batch k s) = Some COMPLETE)"

definition calm :: "uuid \<Rightarrow> uuid list \<Rightarrow> completion_env \<Rightarrow> bool" where
  "calm k ks env =
     ((\<forall>n i t. settled_in ks t \<longrightarrow> settled_in ks (ce_others env n i t))
      \<and> (\<forall>cb t u t'. ce_enqueue env cb t = Inr (u, t') \<longrightarrow> settled_in ks t \<longrightarrow> settled_in ks t')
      \<and> (\<forall>n s. batch_due k ks s \<longrightarrow> batch_due k ks (ce_between env n s)
            \<and> (batch_completed k s \<longrightarrow> batch_completed k (ce_between env n s))))"

text \<open>The two kept facts in one: a due batch stays due, and one completed stays completed.\<close>

definition keeps :: "uuid \<Rightarrow> uuid list \<Rightarrow> batch_store \<Rightarrow> batch_store \<Rightarrow> bool" where
  "keeps k ks s s' = (batch_due k ks s \<longrightarrow> batch_due k ks s' \<and> (batch_completed k s \<longrightarrow> batch_completed k s'))"

lemma keeps_refl [simp]: "keeps k ks s s"
  by (simp add: keeps_def)

lemma keeps_trans [trans]: "keeps k ks s s' \<Longrightarrow> keeps k ks s' s'' \<Longrightarrow> keeps k ks s s''"
  by (simp add: keeps_def)

lemma keeps_tasks: "(settled_in ks (tasks s) \<Longrightarrow> settled_in ks t) \<Longrightarrow> keeps k ks s (s\<lparr>tasks := t\<rparr>)"
  by (auto simp: keeps_def batch_due_def batch_completed_def)

lemma keeps_set_batch:
  "(\<And>b. b_key (f b) = b_key b) \<Longrightarrow> (\<And>b. b_status (f b) = COMPLETE) \<Longrightarrow> keeps k ks s (set_batch j f s)"
proof -
  assume key: "\<And>b. b_key (f b) = b_key b" and st: "\<And>b. b_status (f b) = COMPLETE"
  have "find_batch k (set_batch j f s) = Some (if b_key b = j then f b else b)" if "find_batch k s = Some b" for b
    using that by (simp add: find_set_batch [OF key])
  with st show ?thesis by (fastforce simp: keeps_def batch_due_def batch_completed_def)
qed

lemma enqueue_callback_settled:
  assumes "calm k ks env" "enqueue_callback (ce_enqueue env) w cb t = Inr (u, t')" "settled_in ks t"
  shows "settled_in ks t'"
  using assms(1,3) enqueue_callback_Inr(2,3) [OF assms(2)] unfolding calm_def by (cases u) (simp, blast)

lemma complete_once_keeps:
  assumes calm: "calm k ks env" and c: "complete_once (ce_enqueue env) (ce_others env n) now j s = (r, s')"
  shows "keeps k ks s s'"
proof -
  have o: "settled_in ks t \<Longrightarrow> settled_in ks (ce_others env n i t)" for i t using calm by (simp add: calm_def)
  note e = enqueue_callback_settled [OF calm]
  show ?thesis using c
  proof (cases rule: complete_once_cases)
    case (same t)
    with same o show ?thesis by (auto intro: keeps_tasks)
  next
    case (completed b cb sc t3 t4)
    have "keeps k ks s (s\<lparr>tasks := t4\<rparr>)"
      by (rule keeps_tasks) (use o e [OF completed(5)] e [OF completed(6)] in blast)
    also have "keeps k ks (s\<lparr>tasks := t4\<rparr>) s'" unfolding completed(7) by (rule keeps_set_batch) simp_all
    finally show ?thesis .
  qed
qed

lemma settled_in_pending: "settled_in ks t \<longleftrightarrow> pending_count (member_task_counts ks t) = 0"
  by (simp add: settled_in_def none_pending)

lemma complete_once_due:
  assumes calm: "calm k ks env" and works: "\<And>cb t e. ce_enqueue env cb t \<noteq> Inl e" and due: "batch_due k ks s"
    and c: "complete_once (ce_enqueue env) (ce_others env n) now k s = (r, s')"
  shows "batch_completed k s'" "\<exists>x. r = Inr x"
proof -
  from due obtain b where b: "find_batch k s = Some b" "b_status b \<noteq> OPEN" by (auto simp: batch_due_def)
  have set0: "pending_count (member_task_counts (member_tasks k (members s)) (ce_others env n 0 (tasks s))) = 0"
    using due calm by (simp add: batch_due_def calm_def flip: settled_in_pending)
  have "batch_completed k s' \<and> (\<exists>x. r = Inr x)"
  proof (cases "b_status b")
    case COMPLETE
    with b have "r = Inr None" "s' = s" using c by (simp_all add: complete_once_def)
    with b COMPLETE show ?thesis by (simp add: batch_completed_def)
  next
    case SEALED
    show ?thesis using c
    proof (cases rule: complete_once_cases)
      case (same t)
      with set0 works b SEALED show ?thesis by auto
    next
      case (completed b' cb sc t3 t4)
      then have "batch_completed k s'"
        by (auto simp: batch_completed_def find_set_batch dest: find_batch_key)
      with completed(4) show ?thesis by simp
    qed
  qed (use b in simp)
  then show "batch_completed k s'" "\<exists>x. r = Inr x" by blast+
qed

text \<open>One attempt of the transaction, and the attempts together.\<close>

lemma completion_body_keeps:
  "calm k ks env \<Longrightarrow> completion_body env j n s = Inr (out, s') \<Longrightarrow> keeps k ks s s'"
  by (auto simp: completion_body_def split: option.splits prod.splits sum.splits intro: complete_once_keeps)

lemma later_state_keeps:
  "calm k ks env \<Longrightarrow> keeps k ks s (later_state (ce_between env) n s m)"
proof (induction m arbitrary: n s)
  case (Suc m)
  have "keeps k ks s (ce_between env n s)" using Suc.prems by (simp add: calm_def keeps_def)
  also have "keeps k ks (ce_between env n s) (later_state (ce_between env) n s (Suc m))"
    using Suc by simp
  finally show ?case .
qed simp

lemma complete_if_finished_keeps:
  assumes calm: "calm k ks env" and c: "complete_if_finished env j s = (r, s')"
  shows "keeps k ks s s'"
proof (cases "pending_count (member_task_counts (member_tasks j (members s)) (tasks s)) = 0")
  case True
  let ?r = "reissue (ce_owns env) (ce_vendor env) False (completion_body env j) (ce_between env) s"
  have s': "s' = snd ?r"
    using True c by (auto simp: complete_if_finished_def split: prod.splits sum.splits)
  obtain m where m: "case fst ?r of
      Inr a \<Rightarrow> completion_body env j m (later_state (ce_between env) 0 s m) = Inr (a, snd ?r)
    | Inl f \<Rightarrow> completion_body env j m (later_state (ce_between env) 0 s m) = Inl f
        \<and> \<not> reissues (ce_owns env) (ce_vendor env) False m f \<and> snd ?r = later_state (ce_between env) 0 s m"
    by (rule reissue_attempt)
  have k: "keeps k ks s (later_state (ce_between env) 0 s m)" by (rule later_state_keeps [OF calm])
  show ?thesis unfolding s'
  proof (cases "fst ?r")
    case (Inr a)
    with m have "keeps k ks (later_state (ce_between env) 0 s m) (snd ?r)"
      by (auto intro: completion_body_keeps [OF calm])
    with k show "keeps k ks s (snd ?r)" by (rule keeps_trans)
  qed (use m k in auto)
qed (use c in \<open>auto simp: complete_if_finished_def\<close>)

text \<open>\<open>ready_env\<close>: enqueueing works, and an attempt the database fails is one that is issued again.\<close>

definition ready_env :: "completion_env \<Rightarrow> bool" where
  "ready_env env =
     ((\<forall>cb t e. ce_enqueue env cb t \<noteq> Inl e)
      \<and> (\<forall>n e. ce_fault env n = Some e \<longrightarrow> reissues (ce_owns env) (ce_vendor env) False n e))"

lemma complete_if_finished_due:
  assumes calm: "calm k ks env" and ready: "ready_env env" and due: "batch_due k ks s"
    and c: "complete_if_finished env k s = (r, s')"
  shows "batch_completed k s'"
proof -
  let ?r = "reissue (ce_owns env) (ce_vendor env) False (completion_body env k) (ce_between env) s"
  have s': "s' = snd ?r"
    using c due by (auto simp: complete_if_finished_def batch_due_def settled_in_pending split: prod.splits sum.splits)
  obtain m where m: "case fst ?r of
      Inr a \<Rightarrow> completion_body env k m (later_state (ce_between env) 0 s m) = Inr (a, snd ?r)
    | Inl f \<Rightarrow> completion_body env k m (later_state (ce_between env) 0 s m) = Inl f
        \<and> \<not> reissues (ce_owns env) (ce_vendor env) False m f \<and> snd ?r = later_state (ce_between env) 0 s m"
    by (rule reissue_attempt)
  let ?s = "later_state (ce_between env) 0 s m"
  have d: "batch_due k ks ?s" using later_state_keeps [OF calm, of s 0 m] due by (simp add: keeps_def)
  obtain r1 s1 where c1: "complete_once (ce_enqueue env) (ce_others env m) (ce_now env) k ?s = (r1, s1)" by fastforce
  have w: "\<And>cb t e. ce_enqueue env cb t \<noteq> Inl e" using ready by (simp add: ready_env_def)
  note done1 = complete_once_due [OF calm w d c1]
  show ?thesis
  proof (cases "fst ?r")
    case (Inr a)
    with m c1 done1 have "s1 = snd ?r" by (auto simp: completion_body_def split: option.splits sum.splits)
    with done1 show ?thesis by (simp add: s')
  next
    case (Inl f)
    with m c1 done1 ready show ?thesis
      by (auto simp: completion_body_def ready_env_def split: option.splits sum.splits)
  qed
qed

lemma reconcile_each_keeps:
  assumes "\<And>j s r s'. visit j s = (r, s') \<Longrightarrow> keeps k ks s s'"
  shows "keeps k ks s (snd (reconcile_each visit timed_out js n s))"
proof (induction js arbitrary: n s)
  case (Cons j js)
  obtain r s' where v: "visit j s = (r, s')" by fastforce
  have k: "keeps k ks s s'" by (rule assms [OF v])
  have "keeps k ks s (snd (reconcile_each visit timed_out js m s'))" for m
    using k Cons.IH by (rule keeps_trans)
  with v k show ?case by (auto split: sum.splits)
qed simp

lemma reconcile_each_due:
  assumes keep: "\<And>j s r s'. visit j s = (r, s') \<Longrightarrow> keeps k ks s s'"
    and hit: "\<And>s r s'. visit k s = (r, s') \<Longrightarrow> batch_due k ks s \<Longrightarrow> batch_completed k s'"
    and "\<And>e. \<not> timed_out e" "k \<in> set js" "batch_due k ks s"
  shows "batch_completed k (snd (reconcile_each visit timed_out js n s))"
  using assms(4,5)
proof (induction js arbitrary: n s)
  case (Cons j js)
  obtain r s' where v: "visit j s = (r, s')" by fastforce
  have d: "batch_due k ks s'" using keep [OF v] Cons.prems by (simp add: keeps_def)
  have later: "batch_completed k (snd (reconcile_each visit timed_out js m s'))" for m
  proof (cases "j = k")
    case True
    with hit v Cons.prems have "batch_completed k s'" by simp
    with reconcile_each_keeps [where visit = visit and s = s' and timed_out = timed_out and js = js and n = m, OF keep] d show ?thesis
      by (simp add: keeps_def)
  next
    case False
    with Cons d show ?thesis by simp
  qed
  show ?case
  proof (cases r)
    case (Inl e)
    with v later assms(3) [of e] show ?thesis by simp
  next
    case (Inr b)
    with v later show ?thesis by simp
  qed
qed simp

lemma sweep_unlimited: "(\<And>i. left i = None) \<Longrightarrow> sweep left took i m ks = ks"
  by (induction ks arbitrary: i m) simp_all

lemma reconcile_completes:
  assumes "\<And>i. left i = None" "\<And>e. \<not> timed_out e" "set (shuffle (sealed_keys s)) = set (sealed_keys s)"
    and calm: "\<And>j. calm k ks (env j)" and "ready_env (env k)" and k: "k \<in> set (sealed_keys s)" "batch_due k ks s"
  shows "batch_completed k (snd (reconcile env timed_out shuffle left took s))"
  unfolding reconcile_def sweep_unlimited [OF assms(1)]
proof (rule reconcile_each_due)
  show "\<And>j s r s'. complete_if_finished (env j) j s = (r, s') \<Longrightarrow> keeps k ks s s'"
    by (rule complete_if_finished_keeps [OF calm])
  show "\<And>s r s'. complete_if_finished (env k) k s = (r, s') \<Longrightarrow> batch_due k ks s \<Longrightarrow> batch_completed k s'"
    by (rule complete_if_finished_due [OF calm assms(5)])
qed (use assms k in simp_all)

end
