(* ===== verification/BatchRuns.thy ===== *)
theory BatchRuns
  imports BatchFacts Runs
begin

text \<open>
  Two concrete batches: one whose task succeeded, completed with both its callbacks, and one whose
  callback cannot be enqueued, visited before it by the same tick.
\<close>

section \<open>A batch from creation to completion\<close>

definition demo_callback :: "string \<Rightarrow> callback" where
  "demo_callback path = \<lparr>cb_path = path, cb_args = JList [], cb_kwargs = JObj []\<rparr>"

definition demo_put :: "uuid \<Rightarrow> string \<Rightarrow> table \<Rightarrow> failure + uuid \<times> table" where
  "demo_put k path t = Inr (k, t @ [demo_row\<lparr>pk := k, task_path := path\<rparr>])"

definition demo_enqueue :: enqueue where
  "demo_enqueue cb t = demo_put (if cb_path cb = ''shop.done'' then 101 else 102) (cb_path cb) t"

definition demo_created :: batch_store where
  "demo_created = snd (create_batch True 1 ''nightly'' (demo_callback ''shop.done'') (demo_callback ''shop.clean'') 10
     \<lparr>batches = [], members = [], tasks = []\<rparr>)"

definition demo_added :: batch_store where
  "demo_added = snd (add_once (demo_put 11 ''shop.bill'') True 20 1 demo_created)"

definition demo_sealed :: batch_store where
  "demo_sealed = snd (seal True 30 1 demo_added)"

definition demo_ready :: batch_store where
  "demo_ready = demo_sealed\<lparr>tasks := map (\<lambda>r. r\<lparr>status := SUCCESSFUL\<rparr>) (tasks demo_sealed)\<rparr>"

definition demo_complete :: batch_store where
  "demo_complete = snd (complete_once demo_enqueue (\<lambda>i t. t) 40 1 demo_ready)"

definition demo_batch :: batch where
  "demo_batch = \<lparr>b_key = 1, b_name = ''nightly'', b_status = SEALED, b_total = Some 1,
     b_on_complete = demo_callback ''shop.done'', b_on_success = demo_callback ''shop.clean'', b_failed = None,
     b_callback = None, b_success = None, b_created_at = 10, b_sealed_at = Some 30, b_completed_at = None\<rparr>"

definition demo_batch_done :: batch where
  "demo_batch_done = demo_batch\<lparr>b_status := COMPLETE, b_completed_at := Some 40, b_failed := Some 0,
     b_callback := Some 101, b_success := Some 102\<rparr>"

lemma demo_created_eq: "demo_created = \<lparr>batches = [demo_batch\<lparr>b_status := OPEN, b_total := None, b_sealed_at := None\<rparr>],
    members = [], tasks = []\<rparr>"
  by (simp add: demo_created_def create_batch_def demo_batch_def batch_name_max_length_def)

lemma demo_added_eq: "demo_added = demo_created\<lparr>
    members := [\<lparr>m_batch = 1, m_task = 11, m_created_at = 20\<rparr>],
    tasks := [demo_row\<lparr>pk := 11, task_path := ''shop.bill''\<rparr>]\<rparr>"
  by (simp add: demo_added_def add_once_def demo_put_def claim_open_def demo_created_eq find_batch_def demo_batch_def
      member_tasks_def)

lemma demo_sealed_eq: "demo_sealed = demo_added\<lparr>batches := [demo_batch]\<rparr>"
  by (simp add: demo_sealed_def seal_def demo_added_eq demo_created_eq find_batch_def demo_batch_def set_batch_def
      member_tasks_def)

lemma demo_ready_eq: "demo_ready = \<lparr>batches = [demo_batch], members = [\<lparr>m_batch = 1, m_task = 11, m_created_at = 20\<rparr>],
    tasks = [demo_row\<lparr>pk := 11, task_path := ''shop.bill'', status := SUCCESSFUL\<rparr>]\<rparr>"
  by (simp add: demo_ready_def demo_sealed_eq demo_added_eq demo_created_eq)

lemma demo_completion:
  "complete_once demo_enqueue (\<lambda>i t. t) 40 1 demo_ready = (Inr (Some (0, 0)), demo_complete)"
  "find_batch 1 demo_complete = Some demo_batch_done" "find_batch 1 demo_ready = Some demo_batch"
  by (simp_all add: demo_complete_def complete_once_def demo_ready_eq find_batch_def demo_batch_def member_tasks_def
      member_task_counts_def pending_count_def all_statuses_def settled_statuses_def rows_counted_def
      unattributed_statuses_def enqueue_callback_def demo_callback_def demo_enqueue_def demo_put_def set_batch_def
      demo_batch_done_def)

lemma demo_batch_reach: "batch_reach demo_ready []" "batch_reach demo_complete [1]"
proof -
  have "batch_reach demo_created []"
    by (rule batch_reach.create [OF batch_reach.start, of 1]) (simp_all add: find_batch_def demo_created_def prod_eq_iff)
  then have "batch_reach demo_added []"
    by (rule batch_reach.add) (simp add: demo_added_def prod_eq_iff)
  then have "batch_reach demo_sealed []"
    by (rule batch_reach.seal) (simp add: demo_sealed_def prod_eq_iff)
  then show r: "batch_reach demo_ready []" unfolding demo_ready_def by (rule batch_reach.rows)
  from batch_reach.complete [OF r demo_completion(1)] show "batch_reach demo_complete [1]" by simp
qed

section \<open>A tick with a failing batch\<close>

definition demo_env_of :: "enqueue \<Rightarrow> completion_env" where
  "demo_env_of enq = \<lparr>ce_enqueue = enq, ce_others = (\<lambda>n i t. t), ce_fault = (\<lambda>n. None), ce_between = (\<lambda>n s. s),
     ce_owns = True, ce_vendor = Sqlite, ce_now = 50\<rparr>"

text \<open>Batch 2's callback names a task nobody can enqueue.\<close>

definition demo_envs :: "uuid \<Rightarrow> completion_env" where
  "demo_envs k = demo_env_of (if k = 2 then (\<lambda>cb t. Inl (OtherError ''InvalidTask'')) else demo_enqueue)"

definition demo_two :: batch_store where
  "demo_two = demo_ready\<lparr>batches := batches demo_ready @ [demo_batch\<lparr>b_key := 2, b_total := Some 0\<rparr>]\<rparr>"

lemma demo_calm: "calm 1 [11] (demo_envs k)"
  by (auto simp: calm_def demo_envs_def demo_env_of_def demo_enqueue_def demo_put_def settled_in_def)

lemma demo_env_ready: "ready_env (demo_envs 1)"
  by (simp add: ready_env_def demo_envs_def demo_env_of_def demo_enqueue_def demo_put_def)

lemma demo_due: "batch_due 1 [11] demo_two" "sealed_keys demo_two = [1, 2]"
  by (simp_all add: batch_due_def demo_two_def demo_ready_eq member_tasks_def settled_in_def settled_statuses_def
      find_batch_def demo_batch_def sealed_keys_def)

end
