(* ===== verification/Flow.thy ===== *)
theory Flow
  imports Batches Waiting "HOL-Library.State_Monad"
begin

text \<open>
  Workflows (\<open>src/oxpull/workflows.py\<close>): the rows, the gate of the claim, the records of how nodes
  finished, and how completion reads a node.  A workflow is a DAG of tasks; a node waits until every edge
  into it is marked satisfied.
\<close>

section \<open>Rows\<close>

record completion =
  k_total :: nat
  k_succeeded :: nat
  k_failed :: nat
  k_cancelled :: nat
  k_unattributed :: nat
  k_callback :: "uuid option"
  k_success :: "uuid option"
  k_completed_at :: int

record workflow =
  w_key :: uuid
  w_name :: string
  w_status :: batch_status
  w_total :: "nat option"
  w_on_complete :: callback
  w_on_success :: callback
  w_failed :: "nat option"
  w_cancelled :: "nat option"
  w_callback :: "uuid option"
  w_success :: "uuid option"
  w_created_at :: int
  w_sealed_at :: "int option"
  w_completed_at :: "int option"
  w_generation :: nat
  w_retired_at :: "int option"
  w_completions :: "(nat \<times> completion) list"
  w_node_count :: nat

record flow_node =
  n_pk :: nat
  n_workflow :: uuid
  n_name :: string
  n_name_key :: string
  n_task :: uuid
  n_created_at :: int
  n_outcome :: "status option"
  n_epoch :: "int option"
  n_succeeded :: bool

record flow_edge =
  e_pk :: nat
  e_workflow :: uuid
  e_up :: uuid
  e_down :: uuid
  e_satisfied :: bool
  e_created_at :: int

datatype scan_phase = Edges | Nodes | Release

record flow_scan =
  s_workflow :: uuid
  s_phase :: scan_phase
  s_position :: nat
  s_edge_hwm :: "nat option"
  s_node_hwm :: "nat option"
  s_skipped :: "uuid list"
  s_version :: int

record flow_round =
  r_workflow :: uuid
  r_version :: int

record flow =
  flow_workflows :: "workflow list"
  flow_nodes :: "flow_node list"
  flow_edges :: "flow_edge list"
  flow_rows :: table
  flow_scans :: "flow_scan list"
  flow_round_row :: "flow_round option"

definition dead_statuses :: "status list" where
  "dead_statuses = [FAILED, LOST, DISCARDED]"

definition cancellable_statuses :: "status list" where
  "cancellable_statuses = [READY, WAITING]"

definition recorded_statuses :: "status list" where
  "recorded_statuses = SUCCESSFUL # dead_statuses"

definition status_at :: "uuid \<Rightarrow> flow \<Rightarrow> status option" where
  "status_at k s = map_option status (fetch k (flow_rows s))"

definition find_workflow :: "uuid \<Rightarrow> flow \<Rightarrow> workflow option" where
  "find_workflow w s = find (\<lambda>x. w_key x = w) (flow_workflows s)"

definition node_of :: "uuid \<Rightarrow> flow \<Rightarrow> flow_node option" where
  "node_of k s = find (\<lambda>n. n_task n = k) (flow_nodes s)"

definition nodes_of :: "uuid \<Rightarrow> flow \<Rightarrow> flow_node list" where
  "nodes_of w s = filter (\<lambda>n. n_workflow n = w) (flow_nodes s)"

section \<open>The gate\<close>

text \<open>\<open>_blocking_edges\<close>: not marked, and the upstream row absent or not SUCCESSFUL.\<close>

definition blocking :: "flow \<Rightarrow> flow_edge \<Rightarrow> bool" where
  "blocking s e = (\<not> e_satisfied e \<and> status_at (e_up e) s \<noteq> Some SUCCESSFUL)"

definition blocking_edges :: "uuid \<Rightarrow> flow \<Rightarrow> flow_edge list" where
  "blocking_edges k s = filter (\<lambda>e. e_down e = k \<and> blocking s e) (flow_edges s)"

definition runnable_filter_q :: "flow \<Rightarrow> ox_task \<Rightarrow> bool" where
  "runnable_filter_q s r = (blocking_edges (pk r) s = [])"

text \<open>The same as SQL text, where an absent upstream's status coalesces to the empty string.\<close>

definition status_text :: "status \<Rightarrow> string" where
  "status_text st = (case st of READY \<Rightarrow> ''READY'' | RUNNING \<Rightarrow> ''RUNNING'' | FAILED \<Rightarrow> ''FAILED''
     | SUCCESSFUL \<Rightarrow> ''SUCCESSFUL'' | LOST \<Rightarrow> ''LOST'' | DISCARDED \<Rightarrow> ''DISCARDED'' | WAITING \<Rightarrow> ''WAITING'')"

definition runnable_filter_sql :: "flow \<Rightarrow> ox_task \<Rightarrow> bool" where
  "runnable_filter_sql s r =
     (\<not> list_ex (\<lambda>e. e_down e = pk r \<and> e_satisfied e = False
          \<and> (case status_at (e_up e) s of None \<Rightarrow> [] | Some st \<Rightarrow> status_text st) \<noteq> ''SUCCESSFUL'')
        (flow_edges s))"

lemma gates_agree: "runnable_filter_sql s r = runnable_filter_q s r"
proof -
  have "((case status_at (e_up e) s of None \<Rightarrow> [] | Some st \<Rightarrow> status_text st) \<noteq> ''SUCCESSFUL'')
      = (status_at (e_up e) s \<noteq> Some SUCCESSFUL)" for e
    by (cases "status_at (e_up e) s") (auto simp: status_text_def split: status.splits)
  then show ?thesis
    by (auto simp: runnable_filter_sql_def runnable_filter_q_def blocking_edges_def blocking_def list_ex_iff
        filter_empty_conv)
qed

text \<open>\<open>_cancellable_edges\<close>: an unmarked edge into a row that has not run, from an upstream whose row is dead,
  or whose row is gone and whose record is.\<close>

definition record_at :: "uuid \<Rightarrow> flow \<Rightarrow> status option" where
  "record_at k s = (case node_of k s of None \<Rightarrow> None | Some n \<Rightarrow> n_outcome n)"

definition dead_at :: "uuid \<Rightarrow> flow \<Rightarrow> bool" where
  "dead_at k s =
     (case status_at k s of
        Some st \<Rightarrow> st \<in> set dead_statuses
      | None \<Rightarrow> (case record_at k s of Some st \<Rightarrow> st \<in> set dead_statuses | None \<Rightarrow> False))"

definition cancellable_edges :: "uuid \<Rightarrow> flow \<Rightarrow> flow_edge list" where
  "cancellable_edges w s =
     filter (\<lambda>e. e_workflow e = w \<and> \<not> e_satisfied e \<and> dead_at (e_up e) s
       \<and> (case status_at (e_down e) s of Some st \<Rightarrow> st \<in> set cancellable_statuses | None \<Rightarrow> False)) (flow_edges s)"

section \<open>Records\<close>

text \<open>\<open>outcome_accepts_q\<close>, the guard of every UPDATE of a record, and \<open>record_takes\<close>, the same for a record
  in memory.\<close>

definition outcome_accepts :: "status \<Rightarrow> int \<Rightarrow> flow_node \<Rightarrow> bool" where
  "outcome_accepts st ep n =
     (case n_epoch n of
        None \<Rightarrow> True
      | Some x \<Rightarrow> x < ep \<or> (x = ep \<and> (n_outcome n = None \<or> st \<noteq> LOST \<and> n_outcome n = Some LOST)))"

fun record_takes :: "status option \<Rightarrow> int option \<Rightarrow> status \<Rightarrow> int \<Rightarrow> bool" where
  "record_takes out None st ep = True"
| "record_takes out (Some x) st ep =
     (if x < ep then True else if ep < x then False else out = None \<or> out = Some LOST \<and> st \<noteq> LOST)"

lemma record_takes_accepts: "record_takes (n_outcome n) (n_epoch n) st ep = outcome_accepts st ep n"
  by (cases "n_epoch n") (auto simp: outcome_accepts_def)

definition node_recorded :: "status \<Rightarrow> int \<Rightarrow> flow_node \<Rightarrow> flow_node" where
  "node_recorded st ep n = n\<lparr>n_outcome := Some st, n_epoch := Some ep, n_succeeded := (st = SUCCESSFUL)\<rparr>"

text \<open>One guarded UPDATE over nodes by key, and how many rows it changed.\<close>

definition record_nodes :: "nat list \<Rightarrow> status \<Rightarrow> int \<Rightarrow> flow \<Rightarrow> nat \<times> flow" where
  "record_nodes pks st ep s =
     (length (filter (\<lambda>n. n_pk n \<in> set pks \<and> outcome_accepts st ep n) (flow_nodes s)),
      s\<lparr>flow_nodes := map (\<lambda>n. if n_pk n \<in> set pks \<and> outcome_accepts st ep n then node_recorded st ep n else n)
        (flow_nodes s)\<rparr>)"

text \<open>Two reports of one node, in either order.\<close>

definition record_one :: "status \<Rightarrow> int \<Rightarrow> flow_node \<Rightarrow> flow_node" where
  "record_one st ep n = (if outcome_accepts st ep n then node_recorded st ep n else n)"

lemma accepts_recorded:
  "outcome_accepts st ep (node_recorded st' ep' n) \<longleftrightarrow> ep' < ep \<or> ep' = ep \<and> st \<noteq> LOST \<and> st' = LOST"
  by (auto simp: outcome_accepts_def node_recorded_def)

lemma recorded_twice: "node_recorded st ep (node_recorded st' ep' n) = node_recorded st ep n"
  by (simp add: node_recorded_def)

lemma record_commutes:
  assumes "e1 \<noteq> e2 \<or> st1 = LOST \<or> st2 = LOST \<or> st1 = st2"
  shows "record_one st2 e2 (record_one st1 e1 n) = record_one st1 e1 (record_one st2 e2 n)"
proof (cases "n_epoch n")
  case None
  then have "outcome_accepts st ep n" for st ep by (simp add: outcome_accepts_def)
  with assms show ?thesis by (auto simp: record_one_def accepts_recorded recorded_twice)
next
  case (Some x)
  then have a: "outcome_accepts st ep n \<longleftrightarrow> x < ep \<or> x = ep \<and> (n_outcome n = None \<or> st \<noteq> LOST \<and> n_outcome n = Some LOST)" for st ep
    by (simp add: outcome_accepts_def)
  consider "e1 < e2" | "e2 < e1" | "e1 = e2" by linarith
  then show ?thesis
    by cases (use assms in \<open>auto simp: record_one_def accepts_recorded recorded_twice a\<close>)
qed

lemma record_one_pk [simp]: "n_pk (record_one st ep n) = n_pk n"
  by (simp add: record_one_def node_recorded_def)

lemma record_nodes_one:
  "snd (record_nodes pks st ep s)
    = s\<lparr>flow_nodes := map (\<lambda>n. if n_pk n \<in> set pks then record_one st ep n else n) (flow_nodes s)\<rparr>"
  unfolding record_nodes_def record_one_def by (auto intro!: arg_cong [of _ _ "\<lambda>ns. s\<lparr>flow_nodes := ns\<rparr>"])

text \<open>One UPDATE of edges by key.\<close>

definition mark_edges :: "nat list \<Rightarrow> flow \<Rightarrow> nat \<times> flow" where
  "mark_edges pks s =
     (length (filter (\<lambda>e. e_pk e \<in> set pks \<and> \<not> e_satisfied e) (flow_edges s)),
      s\<lparr>flow_edges := map (\<lambda>e. if e_pk e \<in> set pks \<and> \<not> e_satisfied e then e\<lparr>e_satisfied := True\<rparr> else e)
        (flow_edges s)\<rparr>)"

section \<open>How completion reads a node\<close>

datatype node_kind = PendingNode | RepairNode | RecordedNode | UnknownNode

definition kind_of_node :: "flow \<Rightarrow> flow_node \<Rightarrow> node_kind" where
  "kind_of_node s n =
     (case fetch (n_task n) (flow_rows s) of
        None \<Rightarrow> if n_outcome n = None then UnknownNode else RecordedNode
      | Some r \<Rightarrow>
          if status r \<notin> settled_statuses then PendingNode
          else if outcome_accepts (status r) (lease_epoch r) n then RepairNode
          else RecordedNode)"

definition settled_as :: "flow \<Rightarrow> flow_node \<Rightarrow> status option" where
  "settled_as s n =
     (if kind_of_node s n = RepairNode then status_at (n_task n) s
      else if status_at (n_task n) s = None then n_outcome n
      else if n_outcome n = None then status_at (n_task n) s
      else n_outcome n)"

record flow_classes =
  c_nodes :: nat
  c_pending :: nat
  c_repair :: nat
  c_succeeded :: nat
  c_failed :: nat
  c_discarded :: nat
  c_dead :: nat

definition how_many :: "('a \<Rightarrow> bool) \<Rightarrow> 'a list \<Rightarrow> nat" where
  "how_many P xs = length (filter P xs)"

definition classify :: "uuid \<Rightarrow> flow \<Rightarrow> flow_classes" where
  "classify w s =
     (let ns = nodes_of w s in
      \<lparr>c_nodes = length ns,
       c_pending = how_many (\<lambda>n. kind_of_node s n = PendingNode) ns,
       c_repair = how_many (\<lambda>n. kind_of_node s n = RepairNode) ns,
       c_succeeded = how_many (\<lambda>n. kind_of_node s n \<noteq> PendingNode \<and> settled_as s n = Some SUCCESSFUL) ns,
       c_failed = how_many (\<lambda>n. kind_of_node s n \<noteq> PendingNode \<and> settled_as s n = Some FAILED) ns,
       c_discarded = how_many (\<lambda>n. status_at (n_task n) s = Some DISCARDED) ns,
       c_dead = how_many (\<lambda>n. status_at (n_task n) s \<in> {Some FAILED, Some LOST}) ns\<rparr>)"

record flow_progress =
  fp_total :: nat
  fp_pending :: nat
  fp_blocked :: nat
  fp_succeeded :: nat
  fp_failed :: nat

definition fp_unattributed :: "flow_progress \<Rightarrow> nat" where
  "fp_unattributed p = fp_total p - (fp_pending p + fp_succeeded p + fp_failed p)"

definition fp_finished :: "flow_progress \<Rightarrow> int" where
  "fp_finished p = int (fp_total p) - int (fp_pending p)"

text \<open>\<open>Workflow.progress\<close>; \<open>later i\<close> is what commits between its statements.\<close>

definition workflow_progress :: "(nat \<Rightarrow> flow \<Rightarrow> flow) \<Rightarrow> uuid \<Rightarrow> flow \<Rightarrow> flow_progress option" where
  "workflow_progress later w s =
     (case find_workflow w s of
        None \<Rightarrow> None
      | Some x \<Rightarrow>
          (let s1 = later 0 s; counted = length (nodes_of w s1); s2 = (if w_total x = None then later 1 s1 else s1);
               classes = classify w s2;
               total = (case w_total x of Some n \<Rightarrow> n | None \<Rightarrow> max counted (c_nodes classes));
               s3 = later 2 s2;
               blocked = how_many (\<lambda>r. pk r \<in> n_task ` set (nodes_of w s3)
                 \<and> (status r = WAITING \<or> status r = READY \<and> blocking_edges (pk r) s3 \<noteq> [])) (flow_rows s3)
           in Some \<lparr>fp_total = total, fp_pending = c_pending classes, fp_blocked = blocked,
                fp_succeeded = c_succeeded classes, fp_failed = c_failed classes\<rparr>))"

end
