(* ===== verification/FlowRelease.thy ===== *)
theory FlowRelease
  imports Flow
begin

text \<open>
  The statements of a workflow operation, and the release of waiting nodes: reading which upstreams
  succeeded, marking edges, the chunks of \<open>release_downstream\<close>, the skip queue of what it could not lock.

  An operation is a state transformer over the number of the next statement and the committed rows.  What
  other sessions commit before statement \<open>n\<close> is \<open>fe_others n\<close>; \<open>fe_fault n\<close> is the error that the
  transaction beginning at statement \<open>n\<close> loses everything to, \<open>fe_held n p\<close> whether row \<open>p\<close> is locked by
  another session.
\<close>

section \<open>Statements\<close>

record flow_env =
  fe_others :: "nat \<Rightarrow> flow \<Rightarrow> flow"
  fe_fault :: "nat \<Rightarrow> failure option"
  fe_held :: "nat \<Rightarrow> nat \<Rightarrow> bool"
  fe_vendor :: vendor
  fe_max_params :: "nat option"
  fe_row_locks :: bool
  fe_skip_locked :: bool
  fe_sqlite_code :: "db_error \<Rightarrow> int option"
  fe_owns :: bool
  fe_mariadb :: bool
  fe_now :: "nat \<Rightarrow> int"

type_synonym 'a stm = "(nat \<times> flow, 'a) state"

definition reading_at :: "flow_env \<Rightarrow> (nat \<Rightarrow> flow \<Rightarrow> 'a) \<Rightarrow> 'a stm" where
  "reading_at env f = State (\<lambda>(n, s). (f n (fe_others env n s), (n + 1, fe_others env n s)))"

definition read_stm :: "flow_env \<Rightarrow> (flow \<Rightarrow> 'a) \<Rightarrow> 'a stm" where
  "read_stm env f = reading_at env (\<lambda>n. f)"

definition writing_at :: "flow_env \<Rightarrow> (nat \<Rightarrow> flow \<Rightarrow> 'a \<times> flow) \<Rightarrow> 'a stm" where
  "writing_at env f = State (\<lambda>(n, s). case f n (fe_others env n s) of (a, s') \<Rightarrow> (a, (n + 1, s')))"

definition writing :: "flow_env \<Rightarrow> (flow \<Rightarrow> 'a \<times> flow) \<Rightarrow> 'a stm" where
  "writing env f = writing_at env (\<lambda>n. f)"

text \<open>A transaction: an error loses what it wrote, and not what others committed.\<close>

definition transact :: "flow_env \<Rightarrow> (failure + 'a) stm \<Rightarrow> (failure + 'a) stm" where
  "transact env body = State (\<lambda>(n, s).
     case fe_fault env n of
       Some e \<Rightarrow> (Inl e, (n + 1, fe_others env n s))
     | None \<Rightarrow> run_state body (n + 1, s))"

definition raising :: "(failure + 'a) stm \<Rightarrow> ('a \<Rightarrow> (failure + 'b) stm) \<Rightarrow> (failure + 'b) stm" where
  "raising m k = do { r \<leftarrow> m; case r of Inl e \<Rightarrow> State_Monad.return (Inl e) | Inr a \<Rightarrow> k a }"

text \<open>\<open>_reissue\<close>: the next attempt starts from what the lost one left.\<close>

definition reissued_stm :: "flow_env \<Rightarrow> bool \<Rightarrow> (failure + 'a) stm \<Rightarrow> (failure + 'a) stm" where
  "reissued_stm env deadlocks once = State (reissue (fe_owns env) (fe_vendor env) deadlocks
     (\<lambda>i c. case run_state once c of (Inl e, c') \<Rightarrow> Inl e | (Inr a, c') \<Rightarrow> Inr (a, c'))
     (\<lambda>i c. snd (run_state once c)))"

section \<open>Chunks of ids\<close>

definition id_chunk_limit :: nat where
  "id_chunk_limit = 1000"

definition parameters_beside_ids :: nat where
  "parameters_beside_ids = 8"

definition sqlite_parameters_per_id :: nat where
  "sqlite_parameters_per_id = 2"

definition id_chunk_size :: "flow_env \<Rightarrow> nat" where
  "id_chunk_size env =
     (case fe_max_params env of
        None \<Rightarrow> id_chunk_limit
      | Some l \<Rightarrow>
          if l = 0 then id_chunk_limit
          else max 1 (min id_chunk_limit ((l - parameters_beside_ids)
                 div (if fe_vendor env = Sqlite then sqlite_parameters_per_id else 1))))"

definition id_chunks :: "flow_env \<Rightarrow> 'k::linorder list \<Rightarrow> 'k list list" where
  "id_chunks env ids = chunks (id_chunk_size env) (sort ids)"

text \<open>One statement per chunk.\<close>

fun reads_at :: "flow_env \<Rightarrow> (nat \<Rightarrow> 'k list \<Rightarrow> flow \<Rightarrow> 'a list) \<Rightarrow> 'k list list \<Rightarrow> 'a list stm" where
  "reads_at env f [] = State_Monad.return []"
| "reads_at env f (c # cs) = do {
     xs \<leftarrow> reading_at env (\<lambda>n. f n c);
     ys \<leftarrow> reads_at env f cs;
     State_Monad.return (xs @ ys)
   }"

definition reads :: "flow_env \<Rightarrow> ('k list \<Rightarrow> flow \<Rightarrow> 'a list) \<Rightarrow> 'k list list \<Rightarrow> 'a list stm" where
  "reads env f cs = reads_at env (\<lambda>n. f) cs"

fun writes :: "flow_env \<Rightarrow> ('k list \<Rightarrow> flow \<Rightarrow> nat \<times> flow) \<Rightarrow> 'k list list \<Rightarrow> nat stm" where
  "writes env f [] = State_Monad.return 0"
| "writes env f (c # cs) = do { k \<leftarrow> writing env (f c); j \<leftarrow> writes env f cs; State_Monad.return (k + j) }"

section \<open>Which upstreams succeeded\<close>

definition succeeded_among :: "flow_env \<Rightarrow> uuid list \<Rightarrow> uuid list stm" where
  "succeeded_among env ids =
     reads env (\<lambda>c s. filter (\<lambda>k. status_at k s = Some SUCCESSFUL) c) (id_chunks env ids)"

definition mark_satisfied :: "flow_env \<Rightarrow> nat list \<Rightarrow> nat stm" where
  "mark_satisfied env pks = writes env mark_edges (id_chunks env pks)"

definition succeeded_or_recorded :: "flow_env \<Rightarrow> uuid list \<Rightarrow> uuid list stm" where
  "succeeded_or_recorded env ids = do {
     found \<leftarrow> reads env (\<lambda>c s. map (\<lambda>k. (k, status_at k s)) c) (id_chunks env (remdups ids));
     records \<leftarrow> reads env (\<lambda>c s. filter (\<lambda>k. record_at k s = Some SUCCESSFUL) c)
       (id_chunks env (map fst (filter (\<lambda>p. snd p = None) found)));
     State_Monad.return (map fst (filter (\<lambda>p. snd p = Some SUCCESSFUL) found) @ records)
   }"

definition open_edges_into :: "uuid list \<Rightarrow> flow \<Rightarrow> flow_edge list" where
  "open_edges_into c s = filter (\<lambda>e. e_down e \<in> set c \<and> \<not> e_satisfied e) (flow_edges s)"

text \<open>\<open>_satisfiable_edges_into\<close>, as (edge, node it points at).\<close>

definition satisfiable_edges_into :: "flow_env \<Rightarrow> uuid list \<Rightarrow> (nat \<times> uuid) list stm" where
  "satisfiable_edges_into env ids = do {
     open_edges \<leftarrow> reads env open_edges_into (id_chunks env (remdups ids));
     proven \<leftarrow> succeeded_or_recorded env (map e_up open_edges);
     State_Monad.return (map (\<lambda>e. (e_pk e, e_down e)) (filter (\<lambda>e. e_up e \<in> set proven) open_edges))
   }"

section \<open>Locks\<close>

definition busy_sqlite :: int where
  "busy_sqlite = 5"

definition is_lock_wait_timeout :: "flow_env \<Rightarrow> db_error \<Rightarrow> bool" where
  "is_lock_wait_timeout env e =
     (case fe_vendor env of
        Sqlite \<Rightarrow> (case fe_sqlite_code env e of Some c \<Rightarrow> c mod 256 = busy_sqlite | None \<Rightarrow> False)
      | Mysql \<Rightarrow> arg0 (raised e) = Some 1205
      | Postgresql \<Rightarrow> (case cause e of Some c \<Rightarrow> error_state c = Some ''55P03'' | None \<Rightarrow> False)
      | OtherVendor \<Rightarrow> False)"

definition lost_lock_conflict :: "flow_env \<Rightarrow> failure \<Rightarrow> bool" where
  "lost_lock_conflict env f =
     (case f of
        OtherError x \<Rightarrow> False
      | DatabaseError e \<Rightarrow>
          fe_vendor env = Postgresql \<and> cause_state e = Some ''57014''
          \<or> fe_vendor env = Mysql \<and> arg0 (raised e) \<in> {Some 3024, Some 1969}
          \<or> is_deadlock (fe_vendor env) e \<or> is_serialization_failure (fe_vendor env) e
          \<or> is_lock_wait_timeout env e)"

text \<open>\<open>_lock_in_key_order\<close> over the rows whose keys \<open>present\<close> gives: the keys it locked.  Without row locks it
  returns every key.\<close>

definition lock_in_key_order :: "flow_env \<Rightarrow> bool \<Rightarrow> (flow \<Rightarrow> nat list) \<Rightarrow> nat list \<Rightarrow> nat list stm" where
  "lock_in_key_order env skip present pks =
     (let wanted = sort (remdups pks) in
      if \<not> fe_row_locks env then State_Monad.return wanted
      else reads_at env (\<lambda>n c s. filter (\<lambda>p. p \<in> set (present s) \<and> \<not> (skip \<and> fe_skip_locked env \<and> fe_held env n p)) c)
        (id_chunks env wanted))"

definition edge_pks :: "flow \<Rightarrow> nat list" where
  "edge_pks s = map e_pk (flow_edges s)"

definition node_pks :: "flow \<Rightarrow> nat list" where
  "node_pks s = map n_pk (flow_nodes s)"

text \<open>\<open>_write_locked\<close>: the keys written and the keys skipped.\<close>

definition write_locked :: "flow_env \<Rightarrow> bool \<Rightarrow> (flow \<Rightarrow> nat list) \<Rightarrow> nat list \<Rightarrow> (nat list \<Rightarrow> nat stm)
    \<Rightarrow> (failure + nat list \<times> nat list) stm" where
  "write_locked env skip present pks write =
     (let wanted = sort (remdups pks) in
      do {
        r \<leftarrow> transact env (do {
          locked \<leftarrow> lock_in_key_order env skip present wanted;
          k \<leftarrow> (if locked = [] then State_Monad.return 0 else write locked);
          State_Monad.return (Inr locked)
        });
        State_Monad.return (case r of
          Inl e \<Rightarrow> if fe_owns env \<and> lost_lock_conflict env e then Inr ([], wanted) else Inl e
        | Inr locked \<Rightarrow> Inr (sort (remdups locked), filter (\<lambda>p. p \<notin> set locked) wanted))
      })"

section \<open>The skip queue\<close>

definition skip_queue_limit :: nat where
  "skip_queue_limit = 100"

definition skip_queue_attempts :: nat where
  "skip_queue_attempts = 5"

definition find_scan :: "uuid \<Rightarrow> flow \<Rightarrow> flow_scan option" where
  "find_scan w s = find (\<lambda>x. s_workflow x = w) (flow_scans s)"

definition set_scan :: "(flow_scan \<Rightarrow> bool) \<Rightarrow> (flow_scan \<Rightarrow> flow_scan) \<Rightarrow> flow \<Rightarrow> nat \<times> flow" where
  "set_scan P f s = (length (filter P (flow_scans s)),
     s\<lparr>flow_scans := map (\<lambda>x. if P x then f x else x) (flow_scans s)\<rparr>)"

text \<open>INSERT of a scan row: False on the key's constraint.\<close>

definition insert_scan :: "flow_scan \<Rightarrow> flow \<Rightarrow> bool \<times> flow" where
  "insert_scan x s =
     (if find_scan (s_workflow x) s = None then (True, s\<lparr>flow_scans := flow_scans s @ [x]\<rparr>) else (False, s))"

definition merge_skipped :: "uuid list \<Rightarrow> uuid list \<Rightarrow> uuid list" where
  "merge_skipped queued ids = take skip_queue_limit (rev (remdups (rev (queued @ ids))))"

text \<open>\<open>_add_to_skip_queue\<close>, \<open>tries\<close> of its compare-and-set left.\<close>

fun add_to_skip_queue :: "flow_env \<Rightarrow> uuid \<Rightarrow> uuid list \<Rightarrow> nat \<Rightarrow> unit stm" where
  "add_to_skip_queue env w ids 0 = State_Monad.return ()"
| "add_to_skip_queue env w ids (Suc tries) = do {
     row \<leftarrow> read_stm env (find_scan w);
     done \<leftarrow> (case row of
       None \<Rightarrow> writing env (insert_scan \<lparr>s_workflow = w, s_phase = Edges, s_position = 0, s_edge_hwm = None,
         s_node_hwm = None, s_skipped = merge_skipped [] ids, s_version = 0\<rparr>)
     | Some x \<Rightarrow> do {
         k \<leftarrow> writing env (set_scan (\<lambda>y. s_workflow y = w \<and> s_version y = s_version x)
           (\<lambda>y. y\<lparr>s_skipped := merge_skipped (s_skipped x) ids, s_version := s_version x + 1\<rparr>));
         State_Monad.return (k \<noteq> 0) });
     if done then State_Monad.return () else add_to_skip_queue env w ids tries
   }"

text \<open>The workflows in id order; a database error is logged and ends the loop.\<close>

fun queue_each :: "flow_env \<Rightarrow> (uuid \<times> uuid) list \<Rightarrow> uuid list \<Rightarrow> unit stm" where
  "queue_each env pairs [] = State_Monad.return ()"
| "queue_each env pairs (w # ws) = do {
     r \<leftarrow> transact env (do {
       add_to_skip_queue env w (sort (map snd (filter (\<lambda>p. fst p = w) pairs))) skip_queue_attempts;
       State_Monad.return (Inr ()) });
     (case r of Inl e \<Rightarrow> State_Monad.return () | Inr u \<Rightarrow> queue_each env pairs ws)
   }"

definition queue_skipped :: "flow_env \<Rightarrow> uuid list \<Rightarrow> unit stm" where
  "queue_skipped env ids = do {
     pairs \<leftarrow> reads env (\<lambda>c s. map (\<lambda>n. (n_workflow n, n_task n)) (filter (\<lambda>n. n_task n \<in> set c) (flow_nodes s)))
       (id_chunks env (remdups ids));
     queue_each env pairs (sort (remdups (map fst pairs)))
   }"

text \<open>\<open>_satisfy_edges_into\<close>, without the count its caller does not use.\<close>

definition satisfy_edges_into :: "flow_env \<Rightarrow> uuid list \<Rightarrow> (failure + unit) stm" where
  "satisfy_edges_into env ids = do {
     wanted \<leftarrow> satisfiable_edges_into env ids;
     if wanted = [] then State_Monad.return (Inr ())
     else raising (write_locked env False edge_pks (map fst wanted) (mark_satisfied env)) (\<lambda>(written, skipped). do {
       queue_skipped env (map snd (filter (\<lambda>p. fst p \<in> set skipped) wanted));
       State_Monad.return (Inr ())
     })
   }"

section \<open>Release\<close>

text \<open>\<open>_release_chunk\<close>: \<open>release_many\<close> runs inside this transaction, so it tries once.\<close>

definition release_pairs :: "flow_env \<Rightarrow> nat \<Rightarrow> (uuid \<times> int) list \<Rightarrow> flow \<Rightarrow> (failure + nat) \<times> flow" where
  "release_pairs env n pairs s =
     (case release_many (fe_mariadb env) (fe_row_locks env) 1 (\<lambda>i a k. None) (\<lambda>i a t. t) (fe_now env n)
             (map (\<lambda>(k, ep). (Uuid k, ep)) pairs) (flow_rows s) of
        (Inl e, t) \<Rightarrow> (Inl e, s\<lparr>flow_rows := t\<rparr>)
      | (Inr (changed, skipped), t) \<Rightarrow> (Inr (nat changed), s\<lparr>flow_rows := t\<rparr>))"

definition release_nodes :: "flow_env \<Rightarrow> uuid list \<Rightarrow> (failure + nat) stm" where
  "release_nodes env chunk = do {
     held \<leftarrow> read_stm env (\<lambda>s. map e_down (open_edges_into chunk s));
     let free = filter (\<lambda>k. k \<notin> set held) chunk;
     if free = [] then State_Monad.return (Inr 0)
     else do {
       pairs \<leftarrow> read_stm env (\<lambda>s. map (\<lambda>r. (pk r, lease_epoch r))
         (filter (\<lambda>r. pk r \<in> set free \<and> status r = WAITING) (flow_rows s)));
       if pairs = [] then State_Monad.return (Inr 0) else writing_at env (\<lambda>n. release_pairs env n pairs)
     }
   }"

definition release_chunk_attempts :: nat where
  "release_chunk_attempts = 2"

text \<open>One chunk in a transaction of its own: released, or deferred after its last lost conflict (None).\<close>

fun release_try :: "flow_env \<Rightarrow> uuid list \<Rightarrow> nat \<Rightarrow> (failure + nat option) stm" where
  "release_try env chunk 0 = State_Monad.return (Inr None)"
| "release_try env chunk (Suc left) = do {
     r \<leftarrow> transact env (release_nodes env chunk);
     (case r of
        Inr k \<Rightarrow> State_Monad.return (Inr (Some k))
      | Inl e \<Rightarrow> if lost_lock_conflict env e then release_try env chunk left else State_Monad.return (Inl e))
   }"

fun release_each :: "flow_env \<Rightarrow> uuid list list \<Rightarrow> (failure + nat \<times> uuid list) stm" where
  "release_each env [] = State_Monad.return (Inr (0, []))"
| "release_each env (c # cs) =
     raising (release_try env c release_chunk_attempts) (\<lambda>moved.
     raising (release_each env cs) (\<lambda>(released, deferred).
       State_Monad.return (Inr (case moved of
         Some k \<Rightarrow> (k + released, deferred)
       | None \<Rightarrow> (released, c @ deferred)))))"

text \<open>Inside a caller's transaction nothing is decided again and every error propagates.\<close>

fun release_in_caller :: "flow_env \<Rightarrow> uuid list list \<Rightarrow> (failure + nat) stm" where
  "release_in_caller env [] = State_Monad.return (Inr 0)"
| "release_in_caller env (c # cs) =
     raising (transact env (release_nodes env c)) (\<lambda>k.
     raising (release_in_caller env cs) (\<lambda>j. State_Monad.return (Inr (k + j))))"

definition release_downstream :: "flow_env \<Rightarrow> uuid list \<Rightarrow> (failure + nat) stm" where
  "release_downstream env ids =
     (if ids = [] then State_Monad.return (Inr 0)
      else if \<not> fe_owns env then release_in_caller env (id_chunks env (remdups ids))
      else raising (release_each env (id_chunks env (remdups ids))) (\<lambda>(released, deferred). do {
        (if deferred = [] then State_Monad.return () else queue_skipped env deferred);
        State_Monad.return (Inr released)
      }))"

text \<open>\<open>_recheck_added_node\<close>: after \<open>add\<close> committed; a database error is logged.\<close>

definition recheck_added_node :: "flow_env \<Rightarrow> uuid \<Rightarrow> unit stm" where
  "recheck_added_node env k = do {
     r \<leftarrow> raising (satisfy_edges_into env [k]) (\<lambda>_. release_downstream env [k]);
     State_Monad.return ()
   }"

end
