(* ===== verification/FlowOps.thy ===== *)
theory FlowOps
  imports FlowRelease PyVal "HOL-Library.List_Lexorder" "HOL-Library.Char_ord" "HOL-Library.Product_Lexorder"
begin

text \<open>
  The operations on workflows (\<open>src/oxpull/workflows.py\<close>): building one, recording how nodes finished,
  cancelling what can no longer run, completing.  The hash of a node's name (\<open>key\<close>), the enqueue and the
  keys the database gives new rows are parameters.
\<close>

section \<open>Building a workflow\<close>

datatype flow_error =
    FlowNotOpen "batch_status option"
  | FlowUnscheduled
  | FlowNameTooLong
  | UnknownWorkflowNodes "string list"
  | WorkflowNodeExists

definition set_workflow :: "uuid \<Rightarrow> (workflow \<Rightarrow> workflow) \<Rightarrow> flow \<Rightarrow> flow" where
  "set_workflow w f s = s\<lparr>flow_workflows := map (\<lambda>x. if w_key x = w then f x else x) (flow_workflows s)\<rparr>"

definition create_workflow :: "bool \<Rightarrow> uuid \<Rightarrow> string \<Rightarrow> callback \<Rightarrow> callback \<Rightarrow> int \<Rightarrow> flow \<Rightarrow> (flow_error + unit) \<times> flow" where
  "create_workflow scheduled w name on_complete on_success now s =
     (if \<not> scheduled then (Inl FlowUnscheduled, s)
      else if batch_name_max_length < length name then (Inl FlowNameTooLong, s)
      else (Inr (), s\<lparr>flow_workflows := flow_workflows s @
        [\<lparr>w_key = w, w_name = name, w_status = OPEN, w_total = None, w_on_complete = on_complete,
          w_on_success = on_success, w_failed = None, w_cancelled = None, w_callback = None, w_success = None,
          w_created_at = now, w_sealed_at = None, w_completed_at = None, w_generation = 0, w_retired_at = None,
          w_completions = [], w_node_count = 0\<rparr>]\<rparr>))"

definition flow_status :: "uuid \<Rightarrow> flow \<Rightarrow> batch_status option" where
  "flow_status w s = map_option w_status (find_workflow w s)"

text \<open>\<open>_dependency_names\<close>: a name, several, or none; the first of equal ones is kept.\<close>

fun py_text :: "pyval \<Rightarrow> string option" where
  "py_text (PyStr x) = Some x"
| "py_text v = None"

definition dependency_names :: "pyval \<Rightarrow> string list option" where
  "dependency_names v =
     (case v of
        PyNone \<Rightarrow> Some []
      | PyStr x \<Rightarrow> Some [x]
      | PyList xs \<Rightarrow> map_option (\<lambda>ns. rev (remdups (rev ns))) (those (map py_text xs))
      | PyTuple xs \<Rightarrow> map_option (\<lambda>ns. rev (remdups (rev ns))) (those (map py_text xs))
      | PyDict d \<Rightarrow> map_option (\<lambda>ns. rev (remdups (rev ns))) (those (map (py_text \<circ> fst) d))
      | _ \<Rightarrow> None)"

definition workflows_enabled_from_options :: "(pyval \<times> pyval) list \<Rightarrow> bool option" where
  "workflows_enabled_from_options options =
     (case dict_get options ''WORKFLOWS'' of None \<Rightarrow> Some False | Some (PyBool b) \<Rightarrow> Some b | Some v \<Rightarrow> None)"

text \<open>\<open>_resolve_dependencies\<close>: the tasks of the named nodes, or the names this workflow does not have.\<close>

definition resolve_dependencies :: "flow_env \<Rightarrow> (string \<Rightarrow> string) \<Rightarrow> uuid \<Rightarrow> string list
    \<Rightarrow> (string list + uuid list) stm" where
  "resolve_dependencies env key w wanted = do {
     known \<leftarrow> reads env (\<lambda>c s. map (\<lambda>n. (n_name_key n, n_task n))
         (filter (\<lambda>n. n_workflow n = w \<and> n_name_key n \<in> set c) (flow_nodes s)))
       (id_chunks env (remdups (map key wanted)));
     let missing = filter (\<lambda>x. key x \<notin> fst ` set known) wanted;
     State_Monad.return (if missing \<noteq> [] then Inl (sort missing)
       else Inr (map (\<lambda>x. the (map_of (rev known) (key x))) wanted))
   }"

text \<open>\<open>_release_added_node\<close>\<close>

definition release_added_node :: "int \<Rightarrow> uuid \<Rightarrow> table \<Rightarrow> table" where
  "release_added_node now k t =
     (case fetch k t of
        Some r \<Rightarrow> if status r = WAITING then fst (release now (Uuid k) (lease_epoch r) t) else t
      | None \<Rightarrow> t)"

text \<open>The rows of one \<open>add\<close>, written together: the task, the node, its edges, and the count.\<close>

definition new_edges :: "uuid \<Rightarrow> uuid list \<Rightarrow> uuid list \<Rightarrow> uuid \<Rightarrow> nat \<Rightarrow> int \<Rightarrow> flow_edge list" where
  "new_edges w ups succeeded k epk now =
     map (\<lambda>(i, u). \<lparr>e_pk = epk + i, e_workflow = w, e_up = u, e_down = k, e_satisfied = (u \<in> set succeeded),
       e_created_at = now\<rparr>) (enumerate 0 ups)"

definition insert_node :: "int \<Rightarrow> uuid \<Rightarrow> string \<Rightarrow> string \<Rightarrow> uuid list \<Rightarrow> uuid list \<Rightarrow> ox_task \<Rightarrow> nat \<Rightarrow> nat \<Rightarrow> flow
    \<Rightarrow> (flow_error + uuid) \<times> flow" where
  "insert_node now w name name_key ups succeeded row npk epk s =
     (if list_ex (\<lambda>n. n_workflow n = w \<and> n_name_key n = name_key \<or> n_task n = pk row) (flow_nodes s)
      then (Inl WorkflowNodeExists, s)
      else (Inr (pk row), set_workflow w (\<lambda>x. x\<lparr>w_node_count := w_node_count x + 1\<rparr>) (s\<lparr>
        flow_rows := (if ups \<noteq> [] \<and> set ups \<subseteq> set succeeded then release_added_node now (pk row) (insert_row row (flow_rows s))
          else insert_row row (flow_rows s)),
        flow_nodes := flow_nodes s @ [\<lparr>n_pk = npk, n_workflow = w, n_name = name, n_name_key = name_key,
          n_task = pk row, n_created_at = now, n_outcome = None, n_epoch = None, n_succeeded = False\<rparr>],
        flow_edges := flow_edges s @ new_edges w ups succeeded (pk row) epk now\<rparr>)))"

definition add_node_once :: "flow_env \<Rightarrow> (string \<Rightarrow> string) \<Rightarrow> (bool \<Rightarrow> flow \<Rightarrow> failure + ox_task) \<Rightarrow> nat \<Rightarrow> nat \<Rightarrow> uuid \<Rightarrow> string
    \<Rightarrow> string list \<Rightarrow> (failure + (flow_error + uuid \<times> bool)) stm" where
  "add_node_once env key enq npk epk w name wanted = do {
     opened \<leftarrow> read_stm env (flow_status w);
     if opened \<noteq> Some OPEN then State_Monad.return (Inr (Inl (FlowNotOpen opened)))
     else raising (read_stm env (enq (wanted \<noteq> []))) (\<lambda>row. do {
       deps \<leftarrow> resolve_dependencies env key w wanted;
       (case deps of
          Inl missing \<Rightarrow> State_Monad.return (Inr (Inl (UnknownWorkflowNodes missing)))
        | Inr ups \<Rightarrow> do {
            succeeded \<leftarrow> succeeded_among env ups;
            r \<leftarrow> writing_at env (\<lambda>n. insert_node (fe_now env n) w name (key name) ups succeeded row npk epk);
            State_Monad.return (Inr (case r of Inl e \<Rightarrow> Inl e | Inr k \<Rightarrow> Inr (k, \<not> set ups \<subseteq> set succeeded)))
          })
     })
   }"

definition add_node :: "flow_env \<Rightarrow> (string \<Rightarrow> string) \<Rightarrow> (bool \<Rightarrow> flow \<Rightarrow> failure + ox_task) \<Rightarrow> nat \<Rightarrow> nat \<Rightarrow> uuid \<Rightarrow> string
    \<Rightarrow> string list \<Rightarrow> (failure + (flow_error + uuid)) stm" where
  "add_node env key enq npk epk w name wanted =
     (if batch_name_max_length < length name then State_Monad.return (Inr (Inl FlowNameTooLong))
      else do {
        r \<leftarrow> reissued_stm env True (transact env (add_node_once env key enq npk epk w name wanted));
        (case r of
           Inl e \<Rightarrow> State_Monad.return (Inl e)
         | Inr (Inl e) \<Rightarrow> State_Monad.return (Inr (Inl e))
         | Inr (Inr (k, recheck)) \<Rightarrow> do {
             (if recheck then recheck_added_node env k else State_Monad.return ());
             State_Monad.return (Inr (Inr k))
           })
      })"

definition sealed_row :: "int \<Rightarrow> workflow \<Rightarrow> workflow" where
  "sealed_row now x = x\<lparr>w_status := SEALED, w_sealed_at := Some now, w_total := Some (w_node_count x)\<rparr>"

definition seal_once :: "flow_env \<Rightarrow> bool \<Rightarrow> uuid \<Rightarrow> (failure + (flow_error + unit)) stm" where
  "seal_once env scheduled w = writing_at env (\<lambda>n s.
     if flow_status w s \<noteq> Some OPEN then (Inr (Inl (FlowNotOpen (flow_status w s))), s)
     else if \<not> scheduled then (Inr (Inl FlowUnscheduled), s)
     else (Inr (Inr ()), set_workflow w (sealed_row (fe_now env n)) s))"

definition seal_workflow :: "flow_env \<Rightarrow> bool \<Rightarrow> uuid \<Rightarrow> (failure + (flow_error + unit)) stm" where
  "seal_workflow env scheduled w = reissued_stm env False (transact env (seal_once env scheduled w))"

section \<open>Recording outcomes\<close>

type_synonym records = "(nat \<times> status \<times> int) list"

text \<open>\<open>_record_many\<close>: one guarded UPDATE per chunk of nodes that share a status and an epoch.\<close>

definition record_groups :: "records \<Rightarrow> (status \<times> int) list" where
  "record_groups records = sort_key (\<lambda>(st, ep). (status_text st, ep)) (remdups (map snd records))"

fun record_each :: "flow_env \<Rightarrow> records \<Rightarrow> (status \<times> int) list \<Rightarrow> nat stm" where
  "record_each env records [] = State_Monad.return 0"
| "record_each env records ((st, ep) # gs) = do {
     k \<leftarrow> writes env (\<lambda>c. record_nodes c st ep)
       (id_chunks env (map fst (filter (\<lambda>r. snd r = (st, ep)) records)));
     j \<leftarrow> record_each env records gs;
     State_Monad.return (k + j)
   }"

definition record_many :: "flow_env \<Rightarrow> records \<Rightarrow> nat stm" where
  "record_many env records = record_each env records (record_groups records)"

definition record_outcome :: "flow_env \<Rightarrow> nat \<Rightarrow> status \<Rightarrow> int \<Rightarrow> bool stm" where
  "record_outcome env p st ep = do { k \<leftarrow> writing env (record_nodes [p] st ep); State_Monad.return (k \<noteq> 0) }"

text \<open>\<open>record_node_outcome\<close>: None when the task is no node, or the nodes behind the edges it marked.\<close>

definition record_node_outcome :: "flow_env \<Rightarrow> uuid \<Rightarrow> status \<Rightarrow> int \<Rightarrow> uuid list option stm" where
  "record_node_outcome env k st ep = do {
     found \<leftarrow> read_stm env (\<lambda>s. map n_pk (filter (\<lambda>n. n_task n = k) (flow_nodes s)));
     (case found of
        [] \<Rightarrow> State_Monad.return None
      | p # _ \<Rightarrow> do {
          record_outcome env p st ep;
          if st \<noteq> SUCCESSFUL then State_Monad.return (Some [])
          else do {
            pairs \<leftarrow> read_stm env (\<lambda>s. map (\<lambda>e. (e_pk e, e_down e))
              (sort_key e_pk (filter (\<lambda>e. e_up e = k \<and> \<not> e_satisfied e) (flow_edges s))));
            mark_satisfied env (map fst pairs);
            State_Monad.return (Some (sort (remdups (map snd pairs))))
          }
        })
   }"

text \<open>\<open>_repair_records_once\<close>: the first read is outside its transaction.\<close>

definition behind_nodes :: "uuid \<Rightarrow> flow \<Rightarrow> (nat \<times> uuid \<times> status \<times> int) list" where
  "behind_nodes w s = List.map_filter (\<lambda>n. case fetch (n_task n) (flow_rows s) of
     Some r \<Rightarrow> if kind_of_node s n = RepairNode then Some (n_pk n, n_task n, status r, lease_epoch r) else None
   | None \<Rightarrow> None) (nodes_of w s)"

definition repair_records_once :: "flow_env \<Rightarrow> uuid \<Rightarrow> (failure + uuid list) stm" where
  "repair_records_once env w = do {
     behind \<leftarrow> read_stm env (behind_nodes w);
     if behind = [] then State_Monad.return (Inr [])
     else transact env (do {
       let records = map (\<lambda>(p, k, st, ep). (p, st, ep)) behind;
       lock_in_key_order env False node_pks (map fst records);
       record_many env records;
       edges \<leftarrow> reads env (\<lambda>c s. map (\<lambda>e. (e_pk e, e_down e)) (filter (\<lambda>e. e_up e \<in> set c \<and> \<not> e_satisfied e) (flow_edges s)))
         (id_chunks env (map (\<lambda>(p, k, st, ep). k) (filter (\<lambda>(p, k, st, ep). st = SUCCESSFUL) behind)));
       if edges = [] then State_Monad.return (Inr [])
       else do {
         lock_in_key_order env False edge_pks (map fst edges);
         mark_satisfied env (map fst edges);
         State_Monad.return (Inr (map snd edges))
       }
     })
   }"

definition repair_records :: "flow_env \<Rightarrow> uuid \<Rightarrow> (failure + unit) stm" where
  "repair_records env w = raising (reissued_stm env True (repair_records_once env w)) (\<lambda>downstream.
     if downstream = [] then State_Monad.return (Inr ())
     else raising (release_downstream env downstream) (\<lambda>_. State_Monad.return (Inr ())))"

section \<open>Cancelling what can no longer run\<close>

text \<open>\<open>_record_cancelled\<close>\<close>

definition cancelled_records :: "flow_env \<Rightarrow> uuid list list \<Rightarrow> records stm" where
  "cancelled_records env cs = reads env (\<lambda>c s. List.map_filter (\<lambda>n. case fetch (n_task n) (flow_rows s) of
       Some r \<Rightarrow> if n_task n \<in> set c \<and> status r = DISCARDED then Some (n_pk n, DISCARDED, lease_epoch r) else None
     | None \<Rightarrow> None) (flow_nodes s)) cs"

definition record_cancelled :: "flow_env \<Rightarrow> uuid list \<Rightarrow> unit stm" where
  "record_cancelled env ids = do {
     records \<leftarrow> cancelled_records env (id_chunks env ids);
     lock_in_key_order env False node_pks (map fst records);
     record_many env records;
     State_Monad.return ()
   }"

definition cancel_pairs :: "flow_env \<Rightarrow> nat \<Rightarrow> (uuid \<times> int) list \<Rightarrow> flow \<Rightarrow> (failure + nat) \<times> flow" where
  "cancel_pairs env n pairs s =
     (case cancel_many (fe_mariadb env) (fe_row_locks env) 1 (\<lambda>a k. None) (\<lambda>a t. t) (fe_now env n)
             (map (\<lambda>(k, ep). (Uuid k, ep)) pairs) (flow_rows s) of
        (r, t) \<Rightarrow> (r, s\<lparr>flow_rows := t\<rparr>))"

text \<open>\<open>_cancel_one_level\<close>; step 3's locking read is where a retry of an upstream has either committed or waits.\<close>

definition doomed_upstreams :: "flow_env \<Rightarrow> uuid \<Rightarrow> uuid list stm" where
  "doomed_upstreams env w = do {
     candidates \<leftarrow> read_stm env (\<lambda>s. map (\<lambda>e. (e_up e, status_at (e_up e) s \<noteq> None)) (cancellable_edges w s));
     found \<leftarrow> reads env (\<lambda>c s. filter (\<lambda>k. case status_at k s of Some st \<Rightarrow> st \<in> set dead_statuses | None \<Rightarrow> False) c)
       (id_chunks env (remdups (map fst (filter snd candidates))));
     gone \<leftarrow> reads env (\<lambda>c s. filter (\<lambda>k. case record_at k s of Some st \<Rightarrow> st \<in> set dead_statuses | None \<Rightarrow> False) c)
       (id_chunks env (remdups (map fst (filter (Not \<circ> snd) candidates))));
     State_Monad.return (found @ gone)
   }"

definition cancel_one_level :: "flow_env \<Rightarrow> uuid \<Rightarrow> (failure + nat) stm" where
  "cancel_one_level env w = do {
     sealed \<leftarrow> read_stm env (\<lambda>s. flow_status w s = Some SEALED);
     if \<not> sealed then State_Monad.return (Inr 0)
     else do {
       doomed \<leftarrow> doomed_upstreams env w;
       cone \<leftarrow> reads env (\<lambda>c s. map e_down (filter (\<lambda>e. e_workflow e = w \<and> \<not> e_satisfied e \<and> e_up e \<in> set c) (flow_edges s)))
         (id_chunks env (remdups doomed));
       pairs \<leftarrow> reads env (\<lambda>c s. map (\<lambda>r. (pk r, lease_epoch r))
           (filter (\<lambda>r. pk r \<in> set c \<and> status r \<in> set cancellable_statuses) (flow_rows s)))
         (id_chunks env (remdups cone));
       if pairs = [] then State_Monad.return (Inr 0)
       else raising (writing_at env (\<lambda>n. cancel_pairs env n pairs)) (\<lambda>moved. do {
         (if moved = 0 then State_Monad.return () else record_cancelled env (map fst pairs));
         State_Monad.return (Inr moved)
       })
     }
   }"

definition max_cancel_passes :: nat where
  "max_cancel_passes = 64"

fun cancel_levels :: "flow_env \<Rightarrow> uuid \<Rightarrow> nat \<Rightarrow> (failure + nat) stm" where
  "cancel_levels env w 0 = State_Monad.return (Inr 0)"
| "cancel_levels env w (Suc left) =
     raising (reissued_stm env True (transact env (cancel_one_level env w))) (\<lambda>moved.
       if moved = 0 then State_Monad.return (Inr 0)
       else raising (cancel_levels env w left) (\<lambda>more. State_Monad.return (Inr (moved + more))))"

definition cancel_unreachable :: "flow_env \<Rightarrow> uuid \<Rightarrow> (failure + nat) stm" where
  "cancel_unreachable env w = do {
     any \<leftarrow> read_stm env (\<lambda>s. cancellable_edges w s \<noteq> []);
     if any then cancel_levels env w max_cancel_passes else State_Monad.return (Inr 0)
   }"

section \<open>Completing a workflow\<close>

definition drop_scan :: "uuid \<Rightarrow> flow \<Rightarrow> flow" where
  "drop_scan w s = s\<lparr>flow_scans := filter (\<lambda>x. s_workflow x \<noteq> w) (flow_scans s)\<rparr>"

text \<open>The last statements of the completing transaction: the callbacks, the workflow row, its scan row.\<close>

definition complete_row :: "enqueue \<Rightarrow> int \<Rightarrow> uuid \<Rightarrow> flow_classes \<Rightarrow> flow
    \<Rightarrow> (failure + (nat \<times> nat \<times> nat) option) \<times> flow" where
  "complete_row enq now w classes s =
     (case find_workflow w s of
        None \<Rightarrow> (Inr None, s)
      | Some x \<Rightarrow>
          (let failed = c_failed classes;
               total = (case w_total x of Some n \<Rightarrow> n | None \<Rightarrow> length (nodes_of w s));
               missing = total - (c_succeeded classes + failed)
           in case enqueue_callback enq True (w_on_complete x) (flow_rows s) of
                Inl e \<Rightarrow> (Inl e, s)
              | Inr (cb, t1) \<Rightarrow>
                  (case enqueue_callback enq (failed = 0 \<and> missing = 0) (w_on_success x) t1 of
                     Inl e \<Rightarrow> (Inl e, s)
                   | Inr (sc, t2) \<Rightarrow>
                       (Inr (Some (failed, c_discarded classes, missing)),
                        drop_scan w (set_workflow w (\<lambda>x. x\<lparr>w_status := COMPLETE, w_completed_at := Some now,
                            w_failed := Some failed, w_cancelled := Some (c_discarded classes), w_total := Some total,
                            w_callback := (if cb = None then w_callback x else cb),
                            w_success := (if sc = None then w_success x else sc),
                            w_completions := (if map_of (w_completions x) (w_generation x) \<noteq> None then w_completions x
                              else w_completions x @ [(w_generation x, \<lparr>k_total = total,
                                k_succeeded = c_succeeded classes, k_failed = failed,
                                k_cancelled = c_discarded classes, k_unattributed = missing, k_callback = cb,
                                k_success = sc, k_completed_at = now\<rparr>)])\<rparr>)
                          (s\<lparr>flow_rows := t2\<rparr>))))))"

definition dead_rows :: "uuid \<Rightarrow> flow \<Rightarrow> (uuid \<times> status \<times> int) list" where
  "dead_rows w s = map (\<lambda>r. (pk r, status r, lease_epoch r))
     (filter (\<lambda>r. pk r \<in> n_task ` set (nodes_of w s) \<and> status r \<in> retryable_statuses) (flow_rows s))"

text \<open>The rows among these that are there under the lock, and not as they were read.\<close>

definition changed_rows :: "(uuid \<times> status \<times> int) list \<Rightarrow> uuid list \<Rightarrow> flow \<Rightarrow> uuid list" where
  "changed_rows dead c s = filter (\<lambda>k. case fetch k (flow_rows s) of
     Some r \<Rightarrow> map_of dead k \<noteq> Some (status r, lease_epoch r) | None \<Rightarrow> False) c"

definition complete_flow_once :: "flow_env \<Rightarrow> enqueue \<Rightarrow> uuid \<Rightarrow> (failure + (nat \<times> nat \<times> nat) option) stm" where
  "complete_flow_once env enq w = do {
     sealed \<leftarrow> read_stm env (\<lambda>s. flow_status w s = Some SEALED);
     if \<not> sealed then State_Monad.return (Inr None)
     else do {
       dead \<leftarrow> read_stm env (dead_rows w);
       changed \<leftarrow> (if fe_row_locks env then reads env (changed_rows dead) (id_chunks env (map fst dead))
         else State_Monad.return []);
       if changed \<noteq> [] then State_Monad.return (Inr None)
       else do {
         classes \<leftarrow> read_stm env (classify w);
         if c_pending classes \<noteq> 0 \<or> c_repair classes \<noteq> 0 \<or> c_dead classes \<noteq> length dead then State_Monad.return (Inr None)
         else writing_at env (\<lambda>n. complete_row enq (fe_now env n) w classes)
       }
     }
   }"

definition complete_flow_if_finished :: "flow_env \<Rightarrow> enqueue \<Rightarrow> uuid \<Rightarrow> (failure + bool) stm" where
  "complete_flow_if_finished env enq w = do {
     classes \<leftarrow> read_stm env (classify w);
     if c_repair classes \<noteq> 0 then raising (repair_records env w) (\<lambda>_. State_Monad.return (Inr False))
     else if c_pending classes \<noteq> 0 then State_Monad.return (Inr False)
     else raising (reissued_stm env False (transact env (complete_flow_once env enq w)))
       (\<lambda>out. State_Monad.return (Inr (out \<noteq> None)))
   }"

end
