(* ===== verification/FlowSys.thy ===== *)
theory FlowSys
  imports FlowOps
begin

text \<open>
  The specification of a workflow: the statements that may change its rows, in any interleaving, with what
  each relies on, and the facts every reachable state keeps.  \<open>fs_won\<close> is the tasks that ever succeeded,
  \<open>fs_ran\<close> those a worker ever started, \<open>fs_deps\<close> every edge ever added, \<open>fs_ids\<close> and the two key sets what
  the database handed out.  \<open>foreign\<close> allows writers outside the package to move a waiting row to READY.
\<close>

section \<open>Steps\<close>

record flow_sys =
  fs_store :: flow
  fs_won :: "uuid set"
  fs_ran :: "uuid set"
  fs_deps :: "(uuid \<times> uuid) set"
  fs_ids :: "uuid set"
  fs_node_pks :: "nat set"
  fs_edge_pks :: "nat set"
  fs_complete :: "uuid list"

definition ups_won :: "flow_sys \<Rightarrow> uuid \<Rightarrow> bool" where
  "ups_won y k = (\<forall>e \<in> set (flow_edges (fs_store y)). e_down e = k \<longrightarrow> e_up e \<in> fs_won y)"

definition deps_kept :: "flow_sys \<Rightarrow> uuid \<Rightarrow> bool" where
  "deps_kept y k = (\<forall>u. (u, k) \<in> fs_deps y \<longrightarrow> u \<in> fs_won y
     \<or> (\<exists>e \<in> set (flow_edges (fs_store y)). e_up e = u \<and> e_down e = k))"

definition asleep :: "status set" where
  "asleep = {WAITING, DISCARDED}"

text \<open>
  What a statement may do to a task row: SUCCESSFUL is final and only a running task succeeds; a task is
  started from READY when its upstreams succeeded; a waiting row is released when they did; a discarded one
  comes back only while its edges are there.
\<close>

definition allowed :: "bool \<Rightarrow> flow_sys \<Rightarrow> ox_task \<Rightarrow> ox_task \<Rightarrow> bool" where
  "allowed foreign y r r' =
     (pk r' = pk r
      \<and> (status r = SUCCESSFUL \<longrightarrow> status r' = SUCCESSFUL)
      \<and> (status r' = SUCCESSFUL \<longrightarrow> status r \<in> {RUNNING, SUCCESSFUL})
      \<and> (status r' = RUNNING \<longrightarrow> status r = RUNNING \<or> status r = READY \<and> ups_won y (pk r))
      \<and> (status r \<in> asleep \<longrightarrow> status r' \<notin> asleep \<longrightarrow> foreign \<or> ups_won y (pk r))
      \<and> (status r = DISCARDED \<longrightarrow> status r' \<noteq> DISCARDED \<longrightarrow> deps_kept y (pk r)))"

definition rows_moved :: "(ox_task \<Rightarrow> bool) \<Rightarrow> (ox_task \<Rightarrow> ox_task) \<Rightarrow> flow_sys \<Rightarrow> flow_sys" where
  "rows_moved P f y =
     (let t = flow_rows (fs_store y) in
      y\<lparr>fs_store := (fs_store y)\<lparr>flow_rows := map (\<lambda>r. if P r then f r else r) t\<rparr>,
        fs_won := fs_won y \<union> pk ` {r \<in> set t. P r \<and> status (f r) = SUCCESSFUL},
        fs_ran := fs_ran y \<union> pk ` {r \<in> set t. P r \<and> status (f r) = RUNNING}\<rparr>)"

definition workflow_move :: "workflow \<Rightarrow> workflow \<Rightarrow> bool" where
  "workflow_move x x' =
     (w_key x' = w_key x \<and> w_node_count x' = w_node_count x
      \<and> (w_status x' = w_status x \<and> w_total x' = w_total x
         \<or> w_status x = OPEN \<and> w_status x' = SEALED \<and> w_total x' = Some (w_node_count x))
      \<and> (w_retired_at x' = w_retired_at x \<or> w_status x = COMPLETE \<and> w_retired_at x' \<noteq> None))"

inductive flow_step :: "bool \<Rightarrow> flow_sys \<Rightarrow> flow_sys \<Rightarrow> bool" for foreign where
  rows: "(\<And>r. r \<in> set (flow_rows (fs_store y)) \<Longrightarrow> P r \<Longrightarrow> allowed foreign y r (f r)) \<Longrightarrow>
    flow_step foreign y (rows_moved P f y)"
| enqueue: "pk row \<notin> fs_ids y \<Longrightarrow> status row \<in> {READY, WAITING} \<Longrightarrow>
    flow_step foreign y (y\<lparr>fs_store := (fs_store y)\<lparr>flow_rows := flow_rows (fs_store y) @ [row]\<rparr>,
      fs_ids := insert (pk row) (fs_ids y)\<rparr>)"
| prune: "flow_step foreign y (y\<lparr>fs_store := (fs_store y)\<lparr>flow_rows := filter keep (flow_rows (fs_store y))\<rparr>\<rparr>)"
| create: "find_workflow (w_key x) (fs_store y) = None \<Longrightarrow> nodes_of (w_key x) (fs_store y) = [] \<Longrightarrow> w_status x = OPEN \<Longrightarrow>
    w_total x = None \<Longrightarrow> w_node_count x = 0 \<Longrightarrow> w_retired_at x = None \<Longrightarrow> w_key x \<notin> set (fs_complete y) \<Longrightarrow>
    flow_step foreign y (y\<lparr>fs_store := (fs_store y)\<lparr>flow_workflows := flow_workflows (fs_store y) @ [x]\<rparr>\<rparr>)"
| add: "flow_status w (fs_store y) = Some OPEN \<Longrightarrow> pk row \<notin> fs_ids y \<Longrightarrow> status row \<in> {READY, WAITING} \<Longrightarrow>
    (status row = READY \<Longrightarrow> foreign \<or> set ups \<subseteq> fs_won y) \<Longrightarrow> distinct ups \<Longrightarrow>
    set ups \<subseteq> n_task ` set (nodes_of w (fs_store y)) \<Longrightarrow> set ups \<inter> set succeeded \<subseteq> fs_won y \<Longrightarrow>
    n_workflow node = w \<Longrightarrow> n_task node = pk row \<Longrightarrow> n_outcome node = None \<Longrightarrow> n_pk node \<notin> fs_node_pks y \<Longrightarrow>
    {epk..<epk + length ups} \<inter> fs_edge_pks y = {} \<Longrightarrow>
    flow_step foreign y (y\<lparr>fs_store := set_workflow w (\<lambda>x. x\<lparr>w_node_count := w_node_count x + 1\<rparr>) ((fs_store y)\<lparr>
        flow_rows := flow_rows (fs_store y) @ [row], flow_nodes := flow_nodes (fs_store y) @ [node],
        flow_edges := flow_edges (fs_store y) @ new_edges w ups succeeded (pk row) epk now\<rparr>),
      fs_ids := insert (pk row) (fs_ids y), fs_node_pks := insert (n_pk node) (fs_node_pks y),
      fs_edge_pks := fs_edge_pks y \<union> {epk..<epk + length ups},
      fs_deps := fs_deps y \<union> set ups \<times> {pk row}\<rparr>)"
| mark: "(\<And>e. e \<in> set (flow_edges (fs_store y)) \<Longrightarrow> e_pk e \<in> set pks \<Longrightarrow> e_up e \<in> fs_won y) \<Longrightarrow>
    flow_step foreign y (y\<lparr>fs_store := snd (mark_edges pks (fs_store y))\<rparr>)"
| outcome: "(\<And>n. n \<in> set (flow_nodes (fs_store y)) \<Longrightarrow> n_pk n \<in> set pks \<Longrightarrow> sts = SUCCESSFUL \<Longrightarrow> n_task n \<in> fs_won y) \<Longrightarrow>
    flow_step foreign y (y\<lparr>fs_store := snd (record_nodes pks sts ep (fs_store y))\<rparr>)"
| workflow: "(\<And>x. x \<in> set (flow_workflows (fs_store y)) \<Longrightarrow> w_key x = w \<Longrightarrow> workflow_move x (f x)) \<Longrightarrow>
    flow_step foreign y (y\<lparr>fs_store := set_workflow w f (fs_store y)\<rparr>)"
| complete: "flow_status w (fs_store y) = Some SEALED \<Longrightarrow>
    (\<And>x. find_workflow w (fs_store y) = Some x \<Longrightarrow> w_key (f x) = w_key x \<and> w_node_count (f x) = w_node_count x
      \<and> w_status (f x) = COMPLETE \<and> w_total (f x) = w_total x \<and> w_retired_at (f x) = w_retired_at x) \<Longrightarrow>
    flow_step foreign y (y\<lparr>fs_store := set_workflow w f (fs_store y), fs_complete := fs_complete y @ [w]\<rparr>)"
| scans: "(\<And>x. x \<in> set xs \<Longrightarrow> set (s_skipped x) \<subseteq> fs_ids y) \<Longrightarrow>
    flow_step foreign y (y\<lparr>fs_store := (fs_store y)\<lparr>flow_scans := xs, flow_round_row := rr\<rparr>\<rparr>)"
| retire: "(\<And>e. e \<in> set (flow_edges (fs_store y)) \<Longrightarrow> \<not> keep_e e \<Longrightarrow>
      status_at (e_down e) (fs_store y) \<in> {None, Some SUCCESSFUL, Some DISCARDED}) \<Longrightarrow>
    (\<And>n x. n \<in> set (flow_nodes (fs_store y)) \<Longrightarrow> \<not> keep_n n \<Longrightarrow>
      find_workflow (n_workflow n) (fs_store y) = Some x \<Longrightarrow> w_retired_at x \<noteq> None) \<Longrightarrow>
    flow_step foreign y (y\<lparr>fs_store := (fs_store y)\<lparr>flow_edges := filter keep_e (flow_edges (fs_store y)),
      flow_nodes := filter keep_n (flow_nodes (fs_store y))\<rparr>\<rparr>)"

section \<open>The order of a workflow\<close>

definition order_inv :: "bool \<Rightarrow> flow_sys \<Rightarrow> bool" where
  "order_inv foreign y =
     (wf_table (flow_rows (fs_store y)) \<and> pk ` set (flow_rows (fs_store y)) \<subseteq> fs_ids y
      \<and> n_task ` set (flow_nodes (fs_store y)) \<subseteq> fs_ids y
      \<and> fs_deps y \<subseteq> fs_ids y \<times> fs_ids y \<and> acyclic (fs_deps y) \<and> fs_won y \<subseteq> fs_ran y \<and> fs_ran y \<subseteq> fs_ids y
      \<and> (\<forall>r \<in> set (flow_rows (fs_store y)). status r = SUCCESSFUL \<longrightarrow> pk r \<in> fs_won y)
      \<and> (\<forall>r \<in> set (flow_rows (fs_store y)). status r = RUNNING \<longrightarrow> pk r \<in> fs_ran y)
      \<and> (\<forall>n \<in> set (flow_nodes (fs_store y)). n_outcome n = Some SUCCESSFUL \<longrightarrow> n_task n \<in> fs_won y)
      \<and> (\<forall>e \<in> set (flow_edges (fs_store y)). (e_up e, e_down e) \<in> fs_deps y \<and> (e_satisfied e \<longrightarrow> e_up e \<in> fs_won y))
      \<and> (\<forall>r \<in> set (flow_rows (fs_store y)). status r \<notin> {SUCCESSFUL, DISCARDED} \<longrightarrow> deps_kept y (pk r))
      \<and> (\<forall>u d. (u, d) \<in> fs_deps y \<longrightarrow> d \<in> fs_ran y \<longrightarrow> u \<in> fs_won y)
      \<and> (foreign \<or> (\<forall>r \<in> set (flow_rows (fs_store y)). status r \<notin> asleep \<longrightarrow> (\<forall>u. (u, pk r) \<in> fs_deps y \<longrightarrow> u \<in> fs_won y))))"

lemma order_invI:
  assumes "wf_table (flow_rows (fs_store y))" "pk ` set (flow_rows (fs_store y)) \<subseteq> fs_ids y"
    "n_task ` set (flow_nodes (fs_store y)) \<subseteq> fs_ids y" "fs_deps y \<subseteq> fs_ids y \<times> fs_ids y" "acyclic (fs_deps y)"
    "fs_won y \<subseteq> fs_ran y" "fs_ran y \<subseteq> fs_ids y"
    "\<And>r. r \<in> set (flow_rows (fs_store y)) \<Longrightarrow> status r = SUCCESSFUL \<Longrightarrow> pk r \<in> fs_won y"
    "\<And>r. r \<in> set (flow_rows (fs_store y)) \<Longrightarrow> status r = RUNNING \<Longrightarrow> pk r \<in> fs_ran y"
    "\<And>n. n \<in> set (flow_nodes (fs_store y)) \<Longrightarrow> n_outcome n = Some SUCCESSFUL \<Longrightarrow> n_task n \<in> fs_won y"
    "\<And>e. e \<in> set (flow_edges (fs_store y)) \<Longrightarrow> (e_up e, e_down e) \<in> fs_deps y"
    "\<And>e. e \<in> set (flow_edges (fs_store y)) \<Longrightarrow> e_satisfied e \<Longrightarrow> e_up e \<in> fs_won y"
    "\<And>r. r \<in> set (flow_rows (fs_store y)) \<Longrightarrow> status r \<notin> {SUCCESSFUL, DISCARDED} \<Longrightarrow> deps_kept y (pk r)"
    "\<And>u d. (u, d) \<in> fs_deps y \<Longrightarrow> d \<in> fs_ran y \<Longrightarrow> u \<in> fs_won y"
    "\<And>r u. \<not> foreign \<Longrightarrow> r \<in> set (flow_rows (fs_store y)) \<Longrightarrow> status r \<notin> asleep \<Longrightarrow> (u, pk r) \<in> fs_deps y \<Longrightarrow> u \<in> fs_won y"
  shows "order_inv foreign y"
  unfolding order_inv_def
proof (intro conjI ballI allI impI)
  show "foreign \<or> (\<forall>r \<in> set (flow_rows (fs_store y)). status r \<notin> asleep \<longrightarrow> (\<forall>u. (u, pk r) \<in> fs_deps y \<longrightarrow> u \<in> fs_won y))"
    using assms(15) by blast
qed (use assms(1-14) in simp_all)

lemma order_invD:
  assumes "order_inv foreign y"
  shows "wf_table (flow_rows (fs_store y))" "pk ` set (flow_rows (fs_store y)) \<subseteq> fs_ids y"
    "n_task ` set (flow_nodes (fs_store y)) \<subseteq> fs_ids y" "fs_deps y \<subseteq> fs_ids y \<times> fs_ids y" "acyclic (fs_deps y)"
    "fs_won y \<subseteq> fs_ran y" "fs_ran y \<subseteq> fs_ids y"
    "\<And>r. r \<in> set (flow_rows (fs_store y)) \<Longrightarrow> status r = SUCCESSFUL \<Longrightarrow> pk r \<in> fs_won y"
    "\<And>r. r \<in> set (flow_rows (fs_store y)) \<Longrightarrow> status r = RUNNING \<Longrightarrow> pk r \<in> fs_ran y"
    "\<And>n. n \<in> set (flow_nodes (fs_store y)) \<Longrightarrow> n_outcome n = Some SUCCESSFUL \<Longrightarrow> n_task n \<in> fs_won y"
    "\<And>e. e \<in> set (flow_edges (fs_store y)) \<Longrightarrow> (e_up e, e_down e) \<in> fs_deps y"
    "\<And>e. e \<in> set (flow_edges (fs_store y)) \<Longrightarrow> e_satisfied e \<Longrightarrow> e_up e \<in> fs_won y"
    "\<And>r. r \<in> set (flow_rows (fs_store y)) \<Longrightarrow> status r \<notin> {SUCCESSFUL, DISCARDED} \<Longrightarrow> deps_kept y (pk r)"
    "\<And>u d. (u, d) \<in> fs_deps y \<Longrightarrow> d \<in> fs_ran y \<Longrightarrow> u \<in> fs_won y"
    "\<And>r u. \<not> foreign \<Longrightarrow> r \<in> set (flow_rows (fs_store y)) \<Longrightarrow> status r \<notin> asleep \<Longrightarrow> (u, pk r) \<in> fs_deps y \<Longrightarrow> u \<in> fs_won y"
  using assms unfolding order_inv_def by (elim conjE; (assumption | fast))+

lemma status_at_row: "wf_table (flow_rows s) \<Longrightarrow> r \<in> set (flow_rows s) \<Longrightarrow> status_at (pk r) s = Some (status r)"
  by (auto simp: status_at_def fetch_Some intro: exI [of _ r])

lemma deps_won: "deps_kept y k \<Longrightarrow> ups_won y k \<Longrightarrow> (u, k) \<in> fs_deps y \<Longrightarrow> u \<in> fs_won y"
  by (auto simp: deps_kept_def ups_won_def)

lemma deps_kept_mono:
  "deps_kept y k \<Longrightarrow> fs_won y \<subseteq> fs_won y' \<Longrightarrow> fs_deps y' = fs_deps y \<Longrightarrow>
    flow_edges (fs_store y') = flow_edges (fs_store y) \<Longrightarrow> deps_kept y' k"
  by (auto simp: deps_kept_def)

lemma allowed_started:
  assumes inv: "order_inv foreign y" and r: "r \<in> set (flow_rows (fs_store y))" and a: "allowed foreign y r (f r)"
    and run: "status (f r) = RUNNING" and u: "(u, pk r) \<in> fs_deps y"
  shows "u \<in> fs_won y"
proof (cases "status r = RUNNING")
  case True
  with order_invD(9) [OF inv r] order_invD(14) [OF inv u] show ?thesis by blast
next
  case False
  with a run have "status r = READY" "ups_won y (pk r)" by (auto simp: allowed_def)
  with order_invD(13) [OF inv r] u show ?thesis by (auto intro: deps_won)
qed

lemma rows_moved_order:
  assumes inv: "order_inv foreign y"
    and a: "\<And>r. r \<in> set (flow_rows (fs_store y)) \<Longrightarrow> P r \<Longrightarrow> allowed foreign y r (f r)"
  shows "order_inv foreign (rows_moved P f y)"
proof -
  note D = order_invD [OF inv]
  let ?t = "flow_rows (fs_store y)" and ?y = "rows_moved P f y"
  let ?g = "\<lambda>r. if P r then f r else r"
  have rows: "flow_rows (fs_store ?y) = map ?g ?t" and same: "flow_nodes (fs_store ?y) = flow_nodes (fs_store y)"
    "flow_edges (fs_store ?y) = flow_edges (fs_store y)" "fs_deps ?y = fs_deps y" "fs_ids ?y = fs_ids y"
    and won: "fs_won ?y = fs_won y \<union> pk ` {r \<in> set ?t. P r \<and> status (f r) = SUCCESSFUL}"
    and ran: "fs_ran ?y = fs_ran y \<union> pk ` {r \<in> set ?t. P r \<and> status (f r) = RUNNING}"
    by (simp_all add: rows_moved_def Let_def)
  have key: "P r \<Longrightarrow> pk (f r) = pk r" if "r \<in> set ?t" for r using a [OF that] by (simp add: allowed_def)
  have kept: "deps_kept ?y (pk r)" if r: "r \<in> set ?t" and st: "status (?g r) \<notin> {SUCCESSFUL, DISCARDED}" for r
  proof -
    have "deps_kept y (pk r)"
    proof (cases "status r \<in> {SUCCESSFUL, DISCARDED}")
      case True
      with st a [OF r] show ?thesis by (auto simp: allowed_def split: if_splits)
    qed (rule D(13) [OF r])
    then show ?thesis by (rule deps_kept_mono) (simp_all add: won same)
  qed
  show ?thesis
  proof (rule order_invI, goal_cases)
    case 1
    have "map pk (map ?g ?t) = map pk ?t" using key by simp
    with D(1) show ?case unfolding rows wf_table_def by (simp only:)
  next
    case 2 show ?case using D(2) key by (auto simp: rows same)
  next
    case 6
    have "pk r \<in> fs_ran y" if "r \<in> set ?t" "P r" "status (f r) = SUCCESSFUL" for r
      using a [OF that(1,2)] that(3) D(6) D(8) [OF that(1)] D(9) [OF that(1)] by (auto simp: allowed_def)
    then show ?case using D(6) by (auto simp: won ran)
  next
    case 7 show ?case using D(2,7) by (auto simp: ran same)
  next
    case (8 r) then show ?case using D(8) key by (auto simp: rows won)
  next
    case (9 r) then show ?case using D(9) key by (auto simp: rows ran)
  next
    case (13 r) then show ?case using kept key by (auto simp: rows)
  next
    case (14 u d)
    then show ?case using D(14) allowed_started [where f = f, OF inv _ a] by (auto simp: ran won same)
  next
    case (15 r u)
    then obtain q where q: "q \<in> set ?t" "r = ?g q" by (auto simp: rows)
    have dep: "(u, pk q) \<in> fs_deps y" using 15(4) q key by (cases "P q") (simp_all add: same)
    have "u \<in> fs_won y"
    proof (cases "status q \<in> asleep")
      case True
      with q 15(3) have P: "P q" "r = f q" by (auto split: if_splits)
      have al: "allowed foreign y q (f q)" by (rule a [OF q(1) P(1)])
      with True P 15(1,3) have "ups_won y (pk q)" by (simp add: allowed_def)
      moreover have "deps_kept y (pk q)"
        using True al P 15(3) D(13) [OF q(1)] by (auto simp: asleep_def allowed_def)
      ultimately show ?thesis using dep by (auto intro: deps_won)
    qed (use D(15) [OF 15(1) q(1)] dep in blast)
    then show ?case by (simp add: won)
  qed (use D in \<open>auto simp: same won\<close>)
qed

text \<open>Statements that leave task rows, nodes and edges alone.\<close>

lemma order_inv_same:
  assumes "order_inv foreign y" "flow_rows s = flow_rows (fs_store y)" "flow_nodes s = flow_nodes (fs_store y)"
    "flow_edges s = flow_edges (fs_store y)"
  shows "order_inv foreign (y\<lparr>fs_store := s, fs_complete := cs\<rparr>)"
  using assms by (auto simp: order_inv_def deps_kept_def)

lemma enqueue_order:
  assumes inv: "order_inv foreign y" and "pk row \<notin> fs_ids y" "status row \<in> {READY, WAITING}"
  shows "order_inv foreign (y\<lparr>fs_store := (fs_store y)\<lparr>flow_rows := flow_rows (fs_store y) @ [row]\<rparr>,
    fs_ids := insert (pk row) (fs_ids y)\<rparr>)" (is "order_inv foreign ?y")
proof -
  note D = order_invD [OF inv]
  have nodep: "(u, pk row) \<notin> fs_deps y" for u using D(4) assms(2) by auto
  have kept: "deps_kept y k \<Longrightarrow> deps_kept ?y k" for k by (erule deps_kept_mono) simp_all
  have new: "deps_kept ?y (pk row)" using nodep by (simp add: deps_kept_def)
  show ?thesis
  proof (rule order_invI, goal_cases)
    case 1 show ?case using D(1,2) assms(2) by (auto simp: wf_table_def)
  next
    case (13 r) then show ?case using D(13) kept new by auto
  next
    case (15 r u) then show ?case using D(15) nodep by auto
  qed (use D assms(3) in auto)
qed

lemma prune_order:
  assumes inv: "order_inv foreign y"
  shows "order_inv foreign (y\<lparr>fs_store := (fs_store y)\<lparr>flow_rows := filter keep (flow_rows (fs_store y))\<rparr>\<rparr>)"
proof -
  note D = order_invD [OF inv]
  show ?thesis
  proof (rule order_invI, goal_cases)
    case 1 show ?case using D(1) by (simp add: wf_table_def distinct_map_filter)
  next
    case (13 r) then show ?case using D(13) [of r] by (simp add: deps_kept_def)
  next
    case (15 r u) then show ?case using D(15) [of r u] by simp
  qed (use D in auto)
qed

lemma acyclic_fresh:
  assumes "acyclic R" "k \<notin> Field R" "k \<notin> A"
  shows "acyclic (R \<union> A \<times> {k})"
proof -
  have step: "(a, b) \<in> (R \<union> A \<times> {k})\<^sup>+ \<Longrightarrow> a \<noteq> k \<and> (b = k \<or> (a, b) \<in> R\<^sup>+)" for a b
  proof (induction rule: trancl_induct)
    case (base b)
    then show ?case using assms(2,3) by (auto simp: Field_def)
  next
    case (step b c)
    then have "b \<noteq> k" using assms(2,3) by (auto simp: Field_def)
    with step have "(a, b) \<in> R\<^sup>+" by blast
    with step show ?case by (auto intro: trancl_into_trancl)
  qed
  show ?thesis using assms(1) step by (force simp: acyclic_def)
qed

lemma set_workflow_simps [simp]:
  "flow_rows (set_workflow w f s) = flow_rows s" "flow_nodes (set_workflow w f s) = flow_nodes s"
  "flow_edges (set_workflow w f s) = flow_edges s" "flow_scans (set_workflow w f s) = flow_scans s"
  "flow_round_row (set_workflow w f s) = flow_round_row s"
  by (simp_all add: set_workflow_def)

lemma new_edges_ends:
  "e \<in> set (new_edges w ups succeeded k epk now) \<Longrightarrow> e_up e \<in> set ups \<and> e_down e = k \<and> e_workflow e = w
    \<and> (e_satisfied e \<longrightarrow> e_up e \<in> set succeeded)"
  by (auto simp: new_edges_def in_set_enumerate_eq)

lemma new_edges_all:
  assumes "u \<in> set ups"
  shows "\<exists>e \<in> set (new_edges w ups succeeded k epk now). e_up e = u \<and> e_down e = k"
proof -
  from assms obtain i where "i < length ups" "ups ! i = u" by (auto simp: in_set_conv_nth)
  then have "(i, u) \<in> set (enumerate 0 ups)" by (auto simp: in_set_enumerate_eq)
  then show ?thesis unfolding new_edges_def set_map by force
qed

lemma add_order:
  assumes inv: "order_inv foreign y" and fresh: "pk row \<notin> fs_ids y" and st: "status row \<in> {READY, WAITING}"
    and early: "status row = READY \<Longrightarrow> foreign \<or> set ups \<subseteq> fs_won y"
    and ups: "set ups \<subseteq> fs_ids y" "set ups \<inter> set succeeded \<subseteq> fs_won y"
    and node: "n_task node = pk row" "n_outcome node = None"
  shows "order_inv foreign (y\<lparr>fs_store := set_workflow w f ((fs_store y)\<lparr>
        flow_rows := flow_rows (fs_store y) @ [row], flow_nodes := flow_nodes (fs_store y) @ [node],
        flow_edges := flow_edges (fs_store y) @ new_edges w ups succeeded (pk row) epk now\<rparr>),
      fs_ids := insert (pk row) (fs_ids y), fs_node_pks := ns, fs_edge_pks := es,
      fs_deps := fs_deps y \<union> set ups \<times> {pk row}\<rparr>)" (is "order_inv foreign ?y")
proof -
  note D = order_invD [OF inv]
  have nodep: "(u, pk row) \<notin> fs_deps y" "pk row \<notin> fs_ran y" for u using D(4,7) fresh by auto
  have kept: "deps_kept ?y k" if "deps_kept y k" "k \<in> fs_ids y" for k
    using that fresh by (auto simp: deps_kept_def)
  have new: "deps_kept ?y (pk row)"
    using new_edges_all [of _ ups w succeeded "pk row" epk now] nodep by (fastforce simp: deps_kept_def)
  show ?thesis
  proof (rule order_invI, goal_cases)
    case 1 show ?case using D(1,2) fresh by (auto simp: wf_table_def)
  next
    case 5
    have "Field (fs_deps y) \<subseteq> fs_ids y" using D(4) by (auto simp: Field_def)
    then show ?case using acyclic_fresh [OF D(5), of "pk row" "set ups"] fresh ups(1) by auto
  next
    case (11 e) then show ?case using D(11) new_edges_ends [of e] by auto
  next
    case (12 e) then show ?case using D(12) new_edges_ends [of e] ups(2) by auto
  next
    case (13 r) then show ?case using D(13) D(2) kept new by auto
  next
    case (14 u d) then show ?case using D(14) nodep by auto
  next
    case (15 r u) then show ?case using D(15) D(2) nodep early fresh st by (auto simp: asleep_def)
  qed (use D st node ups fresh in auto)
qed

lemma mark_order:
  assumes inv: "order_inv foreign y"
    and m: "\<And>e. e \<in> set (flow_edges (fs_store y)) \<Longrightarrow> e_pk e \<in> set pks \<Longrightarrow> e_up e \<in> fs_won y"
  shows "order_inv foreign (y\<lparr>fs_store := snd (mark_edges pks (fs_store y))\<rparr>)" (is "order_inv foreign ?y")
proof -
  note D = order_invD [OF inv]
  let ?g = "\<lambda>e. if e_pk e \<in> set pks \<and> \<not> e_satisfied e then e\<lparr>e_satisfied := True\<rparr> else e"
  have g: "flow_edges (fs_store ?y) = map ?g (flow_edges (fs_store y))" by (simp add: mark_edges_def)
  have ends: "e_up (?g e) = e_up e" "e_down (?g e) = e_down e" for e by simp_all
  have there: "\<exists>e \<in> set (flow_edges (fs_store ?y)). e_up e = u \<and> e_down e = k"
    if "e \<in> set (flow_edges (fs_store y))" "e_up e = u" "e_down e = k" for e u k
    unfolding g set_map using that ends [of e] by blast
  have kept: "deps_kept y k \<Longrightarrow> deps_kept ?y k" for k
    unfolding deps_kept_def using there by fastforce
  show ?thesis
  proof (rule order_invI, goal_cases)
    case (11 e) then show ?case using D(11) by (auto simp: mark_edges_def split: if_splits)
  next
    case (12 e) then show ?case using D(12) m by (auto simp: mark_edges_def split: if_splits)
  next
    case (13 r) then show ?case using D(13) kept by (auto simp: mark_edges_def)
  qed (use D in \<open>auto simp: mark_edges_def\<close>)
qed

lemma outcome_order:
  assumes inv: "order_inv foreign y"
    and m: "\<And>n. n \<in> set (flow_nodes (fs_store y)) \<Longrightarrow> n_pk n \<in> set pks \<Longrightarrow> sts = SUCCESSFUL \<Longrightarrow> n_task n \<in> fs_won y"
  shows "order_inv foreign (y\<lparr>fs_store := snd (record_nodes pks sts ep (fs_store y))\<rparr>)"
proof -
  note D = order_invD [OF inv]
  show ?thesis
  proof (rule order_invI, goal_cases)
    case 3 show ?case using D(3) by (auto simp: record_nodes_def node_recorded_def)
  next
    case (10 n) then show ?case using D(10) m by (auto simp: record_nodes_def node_recorded_def split: if_splits)
  next
    case (13 r) then show ?case using D(13) [of r] by (auto simp: record_nodes_def deps_kept_def)
  qed (use D in \<open>auto simp: record_nodes_def\<close>)
qed

lemma retire_order:
  assumes inv: "order_inv foreign y"
    and gone: "\<And>e. e \<in> set (flow_edges (fs_store y)) \<Longrightarrow> \<not> keep_e e \<Longrightarrow>
      status_at (e_down e) (fs_store y) \<in> {None, Some SUCCESSFUL, Some DISCARDED}"
  shows "order_inv foreign (y\<lparr>fs_store := (fs_store y)\<lparr>flow_edges := filter keep_e (flow_edges (fs_store y)),
      flow_nodes := filter keep_n (flow_nodes (fs_store y))\<rparr>\<rparr>)" (is "order_inv foreign ?y")
proof -
  note D = order_invD [OF inv]
  have kept: "deps_kept ?y (pk r)"
    if r: "r \<in> set (flow_rows (fs_store y))" "status r \<notin> {SUCCESSFUL, DISCARDED}" for r
  proof -
    have "status_at (pk r) (fs_store y) = Some (status r)" by (rule status_at_row [OF D(1) r(1)])
    with r(2) have "keep_e e" if "e \<in> set (flow_edges (fs_store y))" "e_down e = pk r" for e
      using gone [OF that(1)] that(2) by auto
    with D(13) [OF r] show ?thesis by (auto simp: deps_kept_def)
  qed
  show ?thesis
  proof (rule order_invI, goal_cases)
    case (13 r) then show ?case using kept by simp
  qed (use D in auto)
qed

lemma step_order: "flow_step foreign y y' \<Longrightarrow> order_inv foreign y \<Longrightarrow> order_inv foreign y'"
proof (induction rule: flow_step.induct)
  case (rows y P f)
  then show ?case by (intro rows_moved_order)
next
  case (enqueue row y)
  then show ?case by (intro enqueue_order)
next
  case (prune y keep)
  then show ?case by (rule prune_order)
next
  case (add w y row ups succeeded node epk now)
  have "set ups \<subseteq> fs_ids y"
    using add.hyps(6) order_invD(3) [OF add.prems] by (auto simp: nodes_of_def)
  with add show ?case by (intro add_order) auto
next
  case (mark y pks)
  then show ?case by (intro mark_order)
next
  case (outcome y pks sts ep)
  then show ?case by (intro outcome_order)
next
  case (retire y keep_e keep_n)
  then show ?case by (intro retire_order)
next
  case (create x y)
  then show ?case using order_inv_same [of foreign y "(fs_store y)\<lparr>flow_workflows := flow_workflows (fs_store y) @ [x]\<rparr>" "fs_complete y"] by simp
next
  case (workflow y w f)
  then show ?case using order_inv_same [of foreign y "set_workflow w f (fs_store y)" "fs_complete y"] by simp
next
  case (complete w y f)
  then show ?case using order_inv_same [of foreign y "set_workflow w f (fs_store y)" "fs_complete y @ [w]"] by simp
next
  case (scans xs y rr)
  then show ?case using order_inv_same [of foreign y "(fs_store y)\<lparr>flow_scans := xs, flow_round_row := rr\<rparr>" "fs_complete y"] by simp
qed

section \<open>Counts and completions\<close>

definition workflow_ok :: "flow_sys \<Rightarrow> workflow \<Rightarrow> bool" where
  "workflow_ok y x =
     ((w_retired_at x = None \<longrightarrow> length (nodes_of (w_key x) (fs_store y)) = w_node_count x)
      \<and> w_total x = (if w_status x = OPEN then None else Some (w_node_count x))
      \<and> (w_retired_at x \<noteq> None \<longrightarrow> w_status x = COMPLETE)
      \<and> (w_status x = COMPLETE) = (w_key x \<in> set (fs_complete y)))"

definition count_inv :: "flow_sys \<Rightarrow> bool" where
  "count_inv y =
     (distinct (map w_key (flow_workflows (fs_store y))) \<and> distinct (fs_complete y)
      \<and> distinct (map n_pk (flow_nodes (fs_store y))) \<and> n_pk ` set (flow_nodes (fs_store y)) \<subseteq> fs_node_pks y
      \<and> distinct (map n_task (flow_nodes (fs_store y))) \<and> n_task ` set (flow_nodes (fs_store y)) \<subseteq> fs_ids y
      \<and> distinct (map e_pk (flow_edges (fs_store y))) \<and> e_pk ` set (flow_edges (fs_store y)) \<subseteq> fs_edge_pks y
      \<and> (\<forall>x \<in> set (flow_workflows (fs_store y)). workflow_ok y x)
      \<and> set (fs_complete y) \<union> n_workflow ` set (flow_nodes (fs_store y)) \<subseteq> w_key ` set (flow_workflows (fs_store y)))"

lemma count_invD:
  assumes "count_inv y"
  shows "distinct (map w_key (flow_workflows (fs_store y)))" "distinct (fs_complete y)"
    "distinct (map n_pk (flow_nodes (fs_store y)))" "n_pk ` set (flow_nodes (fs_store y)) \<subseteq> fs_node_pks y"
    "distinct (map n_task (flow_nodes (fs_store y)))" "n_task ` set (flow_nodes (fs_store y)) \<subseteq> fs_ids y"
    "distinct (map e_pk (flow_edges (fs_store y)))" "e_pk ` set (flow_edges (fs_store y)) \<subseteq> fs_edge_pks y"
    "\<And>x. x \<in> set (flow_workflows (fs_store y)) \<Longrightarrow> workflow_ok y x"
    "set (fs_complete y) \<union> n_workflow ` set (flow_nodes (fs_store y)) \<subseteq> w_key ` set (flow_workflows (fs_store y))"
  using assms unfolding count_inv_def by (elim conjE; (assumption | fast))+

lemma count_invI:
  assumes "distinct (map w_key (flow_workflows (fs_store y)))" "distinct (fs_complete y)"
    "distinct (map n_pk (flow_nodes (fs_store y)))" "n_pk ` set (flow_nodes (fs_store y)) \<subseteq> fs_node_pks y"
    "distinct (map n_task (flow_nodes (fs_store y)))" "n_task ` set (flow_nodes (fs_store y)) \<subseteq> fs_ids y"
    "distinct (map e_pk (flow_edges (fs_store y)))" "e_pk ` set (flow_edges (fs_store y)) \<subseteq> fs_edge_pks y"
    "\<And>x. x \<in> set (flow_workflows (fs_store y)) \<Longrightarrow> workflow_ok y x"
    "set (fs_complete y) \<union> n_workflow ` set (flow_nodes (fs_store y)) \<subseteq> w_key ` set (flow_workflows (fs_store y))"
  shows "count_inv y"
  using assms unfolding count_inv_def by (intro conjI ballI) simp_all

lemma find_workflow_Some:
  "distinct (map w_key (flow_workflows s)) \<Longrightarrow> find_workflow w s = Some x \<longleftrightarrow> x \<in> set (flow_workflows s) \<and> w_key x = w"
proof -
  have "distinct (map w_key xs) \<Longrightarrow> find (\<lambda>x. w_key x = w) xs = Some x \<longleftrightarrow> x \<in> set xs \<and> w_key x = w" for xs
    by (induction xs) auto
  then show "distinct (map w_key (flow_workflows s)) \<Longrightarrow> ?thesis" by (simp add: find_workflow_def)
qed

lemma find_workflow_None: "find_workflow w s = None \<longleftrightarrow> w \<notin> w_key ` set (flow_workflows s)"
  by (auto simp: find_workflow_def find_None_iff)

lemma nodes_of_set_workflow [simp]: "nodes_of v (set_workflow w f s) = nodes_of v s"
  by (simp add: nodes_of_def)

lemma set_workflow_rows:
  "flow_workflows (set_workflow w f s) = map (\<lambda>x. if w_key x = w then f x else x) (flow_workflows s)"
  by (simp add: set_workflow_def)

lemma keys_map: "(\<And>x. x \<in> set xs \<Longrightarrow> k (g x) = k x) \<Longrightarrow> k ` set (map g xs) = k ` set xs"
  by (simp add: image_image cong: image_cong)

text \<open>Moving one workflow row.\<close>

lemma set_workflow_count:
  assumes inv: "count_inv y"
    and move: "\<And>x. x \<in> set (flow_workflows (fs_store y)) \<Longrightarrow> w_key x = w \<Longrightarrow> w_key (f x) = w"
    and one: "\<And>x. x \<in> set (flow_workflows (fs_store y)) \<Longrightarrow> w_key x = w \<Longrightarrow> workflow_ok (y\<lparr>fs_complete := cs\<rparr>) (f x)"
    and cs: "distinct cs" "set cs \<subseteq> insert w (set (fs_complete y))" "set (fs_complete y) \<subseteq> set cs"
    and w: "w \<in> set cs \<Longrightarrow> w \<in> w_key ` set (flow_workflows (fs_store y))"
  shows "count_inv (y\<lparr>fs_store := set_workflow w f (fs_store y), fs_complete := cs\<rparr>)" (is "count_inv ?y")
proof -
  note D = count_invD [OF inv]
  let ?g = "\<lambda>x. if w_key x = w then f x else x" and ?ws = "flow_workflows (fs_store y)"
  have key: "map w_key (map ?g ?ws) = map w_key ?ws" using move by simp
  have ok: "workflow_ok ?y (?g x)" if "x \<in> set ?ws" for x
  proof (cases "w_key x = w")
    case True
    with one [OF that] show ?thesis by (simp add: workflow_ok_def)
  next
    case False
    have "(w_key x \<in> set cs) = (w_key x \<in> set (fs_complete y))" using cs False by auto
    moreover have "workflow_ok y x" using inv that by (simp add: count_inv_def)
    ultimately show ?thesis using False by (simp add: workflow_ok_def)
  qed
  have keys: "w_key ` set (map ?g ?ws) = w_key ` set ?ws" by (rule keys_map) (simp add: move)
  have rows: "flow_workflows (fs_store ?y) = map ?g ?ws" by (simp add: set_workflow_rows)
  show ?thesis
  proof (rule count_invI, goal_cases)
    case 1 show ?case using D(1) unfolding rows key .
  next
    case (9 x)
    then obtain q where "q \<in> set ?ws" "x = ?g q" by (auto simp only: rows set_map)
    then show ?case using ok by (simp only:)
  next
    case 10
    have "set cs \<subseteq> w_key ` set ?ws"
    proof
      fix v assume v: "v \<in> set cs"
      show "v \<in> w_key ` set ?ws"
      proof (cases "v = w")
        case False
        with cs(2) v have "v \<in> set (fs_complete y)" by blast
        then show ?thesis using D(10) by blast
      qed (use w v in simp)
    qed
    then show ?case unfolding rows keys using D(10) by auto
  qed (use D cs(1) in simp_all)
qed

text \<open>Statements that leave workflows, completions, nodes and edges alone, up to the ids handed out.\<close>

lemma count_inv_same:
  assumes "count_inv y" "flow_workflows (fs_store y') = flow_workflows (fs_store y)"
    "flow_nodes (fs_store y') = flow_nodes (fs_store y)" "flow_edges (fs_store y') = flow_edges (fs_store y)"
    "fs_complete y' = fs_complete y" "fs_ids y \<subseteq> fs_ids y'" "fs_node_pks y' = fs_node_pks y" "fs_edge_pks y' = fs_edge_pks y"
  shows "count_inv y'"
proof -
  have "workflow_ok y' x = workflow_ok y x" for x using assms by (simp add: workflow_ok_def nodes_of_def)
  moreover note count_invD [OF assms(1)]
  ultimately show ?thesis unfolding count_inv_def assms(2-5,7,8)
    by (intro conjI ballI) (assumption | use assms(6) in blast | simp)+
qed

text \<open>Statements that rewrite nodes and edges without touching their keys.\<close>

lemma count_inv_map:
  assumes "count_inv y" "flow_workflows s = flow_workflows (fs_store y)"
    "flow_nodes s = map g (flow_nodes (fs_store y))" "flow_edges s = map h (flow_edges (fs_store y))"
    and g: "\<And>n. n_pk (g n) = n_pk n \<and> n_task (g n) = n_task n \<and> n_workflow (g n) = n_workflow n"
    and h: "\<And>e. e_pk (h e) = e_pk e"
  shows "count_inv (y\<lparr>fs_store := s\<rparr>)"
proof -
  have "length (filter (\<lambda>n. n_workflow n = w) (map g ns)) = length (filter (\<lambda>n. n_workflow n = w) ns)" for w ns
    using g by (induction ns) auto
  then have "workflow_ok (y\<lparr>fs_store := s\<rparr>) x = workflow_ok y x" for x
    using assms(3) by (simp add: workflow_ok_def nodes_of_def)
  moreover have "map n_pk (map g ns) = map n_pk ns" "map n_task (map g ns) = map n_task ns"
    "n_workflow ` g ` A = n_workflow ` A" "n_pk ` g ` A = n_pk ` A" "n_task ` g ` A = n_task ` A" for ns A
    using g by (simp_all add: image_image)
  moreover have "map e_pk (map h es) = map e_pk es" "e_pk ` h ` B = e_pk ` B" for es B
    using h by (simp_all add: image_image)
  ultimately show ?thesis using assms(1-4) unfolding count_inv_def by (simp del: map_map)
qed

lemma add_count:
  assumes inv: "count_inv y" and opened: "flow_status w (fs_store y) = Some OPEN" and fresh: "pk row \<notin> fs_ids y"
    and node: "n_workflow node = w" "n_task node = pk row" "n_pk node \<notin> fs_node_pks y"
    and epk: "{epk..<epk + length ups} \<inter> fs_edge_pks y = {}"
  shows "count_inv (y\<lparr>fs_store := set_workflow w (\<lambda>x. x\<lparr>w_node_count := w_node_count x + 1\<rparr>) ((fs_store y)\<lparr>
        flow_rows := flow_rows (fs_store y) @ [row], flow_nodes := flow_nodes (fs_store y) @ [node],
        flow_edges := flow_edges (fs_store y) @ new_edges w ups succeeded (pk row) epk now\<rparr>),
      fs_ids := insert (pk row) (fs_ids y), fs_node_pks := insert (n_pk node) (fs_node_pks y),
      fs_edge_pks := fs_edge_pks y \<union> {epk..<epk + length ups}, fs_deps := ds\<rparr>)" (is "count_inv ?y")
proof -
  note D = count_invD [OF inv]
  let ?ws = "flow_workflows (fs_store y)"
  let ?g = "\<lambda>x. if w_key x = w then x\<lparr>w_node_count := w_node_count x + 1\<rparr> else x"
  have pks: "map e_pk (new_edges w ups succeeded (pk row) epk now) = [epk..<epk + length ups]"
    by (rule nth_equalityI) (simp_all add: new_edges_def split_beta nth_enumerate_eq)
  have epks: "e_pk ` set (new_edges w ups succeeded (pk row) epk now) = {epk..<epk + length ups}"
    using arg_cong [OF pks, of set] by simp
  have keys: "map w_key (map ?g ?ws) = map w_key ?ws" "w_key ` set (map ?g ?ws) = w_key ` set ?ws"
    by simp (rule keys_map, simp)
  have wk: "w \<in> w_key ` set ?ws" using opened by (auto simp: flow_status_def find_workflow_Some [OF D(1)])
  have ok: "workflow_ok ?y (?g x)" if "x \<in> set ?ws" for x
  proof -
    have "w_key x = w \<Longrightarrow> w_status x = OPEN"
      using opened that find_workflow_Some [OF D(1), of w x] by (simp add: flow_status_def)
    with D(9) [OF that] node(1) show ?thesis by (auto simp: workflow_ok_def nodes_of_def)
  qed
  have rows: "flow_workflows (fs_store ?y) = map ?g ?ws" by (simp add: set_workflow_rows)
  show ?thesis
  proof (rule count_invI, goal_cases)
    case 1 show ?case using D(1) unfolding rows keys .
  next
    case 7 show ?case using D(7,8) epk by (auto simp: pks epks)
  next
    case 8 show ?case using D(8) by (auto simp: epks image_Un)
  next
    case (9 x)
    then obtain q where "q \<in> set ?ws" "x = ?g q" by (auto simp only: rows set_map)
    then show ?case using ok by (simp only:)
  next
    case 10 show ?case unfolding rows keys using D(10) node wk by auto
  qed (use D fresh node in auto)
qed

lemma filter_filter_kept: "(\<And>x. x \<in> set xs \<Longrightarrow> P x \<Longrightarrow> Q x) \<Longrightarrow> filter P (filter Q xs) = filter P xs"
  by (induction xs) auto

lemma step_count: "flow_step foreign y y' \<Longrightarrow> count_inv y \<Longrightarrow> count_inv y'"
proof (induction rule: flow_step.induct)
  case (rows y P f)
  then show ?case by (elim count_inv_same) (simp_all add: rows_moved_def Let_def)
next
  case (enqueue row y)
  from enqueue(3) show ?case by (rule count_inv_same) auto
next
  case (prune y keep)
  then show ?case by (elim count_inv_same) simp_all
next
  case (scans xs y rr)
  then show ?case by (elim count_inv_same) simp_all
next
  case (add w y row ups succeeded node epk now)
  then show ?case by (intro add_count) auto
next
  case (mark y pks)
  show ?case by (rule count_inv_map [OF mark(2), where g = "\<lambda>n. n" and
      h = "\<lambda>e. if e_pk e \<in> set pks \<and> \<not> e_satisfied e then e\<lparr>e_satisfied := True\<rparr> else e"]) (simp_all add: mark_edges_def)
next
  case (outcome y pks sts ep)
  show ?case by (rule count_inv_map [OF outcome(2), where h = "\<lambda>e. e" and
      g = "\<lambda>n. if n_pk n \<in> set pks \<and> outcome_accepts sts ep n then node_recorded sts ep n else n"])
    (simp_all add: record_nodes_def node_recorded_def)
next
  case (workflow y w f)
  have "count_inv (y\<lparr>fs_store := set_workflow w f (fs_store y), fs_complete := fs_complete y\<rparr>)"
  proof (rule set_workflow_count [OF workflow(2)])
    fix x assume x: "x \<in> set (flow_workflows (fs_store y))" "w_key x = w"
    note m = workflow(1) [OF x]
    show "w_key (f x) = w" using m x by (simp add: workflow_move_def)
    show "workflow_ok (y\<lparr>fs_complete := fs_complete y\<rparr>) (f x)"
      using count_invD(9) [OF workflow(2) x(1)] m by (auto simp: workflow_ok_def workflow_move_def)
  qed (use count_invD(2,10) [OF workflow(2)] in auto)
  then show ?case by simp
next
  case (complete w y f)
  note D = count_invD [OF complete(3)]
  from complete(1) obtain x0 where x0: "find_workflow w (fs_store y) = Some x0" "w_status x0 = SEALED"
    by (auto simp: flow_status_def)
  then have x0': "x0 \<in> set (flow_workflows (fs_store y))" "w_key x0 = w" using find_workflow_Some [OF D(1)] by auto
  have nw: "w \<notin> set (fs_complete y)" using D(9) [OF x0'(1)] x0 x0' by (simp add: workflow_ok_def)
  show ?case
  proof (rule set_workflow_count [OF complete(3)])
    fix x assume x: "x \<in> set (flow_workflows (fs_store y))" "w_key x = w"
    then have f: "find_workflow w (fs_store y) = Some x" using find_workflow_Some [OF D(1)] by simp
    with x0 have "x = x0" by simp
    note m = complete(2) [OF f]
    show "w_key (f x) = w" using m x by simp
    show "workflow_ok (y\<lparr>fs_complete := fs_complete y @ [w]\<rparr>) (f x)"
      using D(9) [OF x(1)] m x0 x \<open>x = x0\<close> by (auto simp: workflow_ok_def nodes_of_def)
  qed (use D(2) nw x0' in auto)
next
  case (create x y)
  note D = count_invD [OF create(8)]
  have nk: "w_key x \<notin> w_key ` set (flow_workflows (fs_store y))" using create(1) by (simp add: find_workflow_None)
  let ?y = "y\<lparr>fs_store := (fs_store y)\<lparr>flow_workflows := flow_workflows (fs_store y) @ [x]\<rparr>\<rparr>"
  have ok: "workflow_ok ?y v = workflow_ok y v" for v by (simp add: workflow_ok_def nodes_of_def)
  have new: "workflow_ok y x" using create by (simp add: workflow_ok_def)
  show ?case
  proof (rule count_invI, goal_cases)
    case (9 v) then show ?case using D(9) new by (auto simp: ok)
  qed (use D nk in auto)
next
  case (retire y keep_e keep_n)
  note D = count_invD [OF retire(3)]
  let ?y = "y\<lparr>fs_store := (fs_store y)\<lparr>flow_edges := filter keep_e (flow_edges (fs_store y)),
      flow_nodes := filter keep_n (flow_nodes (fs_store y))\<rparr>\<rparr>"
  have ok: "workflow_ok ?y v" if v: "v \<in> set (flow_workflows (fs_store y))" for v
  proof (cases "w_retired_at v = None")
    case True
    have "keep_n n" if "n \<in> set (flow_nodes (fs_store y))" "n_workflow n = w_key v" for n
      using retire(2) [OF that(1), of v] that(2) v True find_workflow_Some [OF D(1), of "w_key v" v] by auto
    then have "filter (\<lambda>n. n_workflow n = w_key v) (filter keep_n (flow_nodes (fs_store y)))
        = filter (\<lambda>n. n_workflow n = w_key v) (flow_nodes (fs_store y))"
      by (intro filter_filter_kept) auto
    with D(9) [OF v] show ?thesis by (simp add: workflow_ok_def nodes_of_def)
  next
    case False
    with D(9) [OF v] show ?thesis by (auto simp: workflow_ok_def)
  qed
  show ?case
  proof (rule count_invI, goal_cases)
    case (9 v) then show ?case using ok by simp
  qed (use D in \<open>auto simp: distinct_map_filter\<close>)
qed

text \<open>The skip queues hold ids of tasks only.\<close>

definition scan_inv :: "flow_sys \<Rightarrow> bool" where
  "scan_inv y = (\<forall>x \<in> set (flow_scans (fs_store y)). set (s_skipped x) \<subseteq> fs_ids y)"

lemma mark_edges_scans [simp]: "flow_scans (snd (mark_edges ps s)) = flow_scans s"
  by (simp add: mark_edges_def)

lemma record_nodes_scans [simp]: "flow_scans (snd (record_nodes ps st ep s)) = flow_scans s"
  by (simp add: record_nodes_def)

lemma step_scan: "flow_step foreign y y' \<Longrightarrow> scan_inv y \<Longrightarrow> scan_inv y'"
  by (induction rule: flow_step.induct) (auto simp: scan_inv_def rows_moved_def Let_def)

section \<open>Reachable states\<close>

definition empty_flow :: flow where
  "empty_flow = \<lparr>flow_workflows = [], flow_nodes = [], flow_edges = [], flow_rows = [], flow_scans = [],
     flow_round_row = None\<rparr>"

definition start_flow :: flow_sys where
  "start_flow = \<lparr>fs_store = empty_flow, fs_won = {}, fs_ran = {}, fs_deps = {}, fs_ids = {}, fs_node_pks = {},
     fs_edge_pks = {}, fs_complete = []\<rparr>"

definition flow_reach :: "bool \<Rightarrow> flow_sys \<Rightarrow> bool" where
  "flow_reach foreign y = (flow_step foreign)\<^sup>*\<^sup>* start_flow y"

lemma steps_order: "(flow_step foreign)\<^sup>*\<^sup>* y y' \<Longrightarrow> order_inv foreign y \<Longrightarrow> order_inv foreign y'"
  by (induction rule: rtranclp_induct) (auto intro: step_order)

lemma steps_count: "(flow_step foreign)\<^sup>*\<^sup>* y y' \<Longrightarrow> count_inv y \<Longrightarrow> count_inv y'"
  by (induction rule: rtranclp_induct) (auto intro: step_count)

lemma steps_scan: "(flow_step foreign)\<^sup>*\<^sup>* y y' \<Longrightarrow> scan_inv y \<Longrightarrow> scan_inv y'"
  by (induction rule: rtranclp_induct) (auto intro: step_scan)

definition flow_inv :: "bool \<Rightarrow> flow_sys \<Rightarrow> bool" where
  "flow_inv foreign y = (order_inv foreign y \<and> count_inv y \<and> scan_inv y)"

lemma steps_inv: "(flow_step foreign)\<^sup>*\<^sup>* y y' \<Longrightarrow> flow_inv foreign y \<Longrightarrow> flow_inv foreign y'"
  by (auto simp: flow_inv_def intro: steps_order steps_count steps_scan)

lemma reach_order: "flow_reach foreign y \<Longrightarrow> order_inv foreign y"
  unfolding flow_reach_def by (erule steps_order) (simp add: order_inv_def start_flow_def empty_flow_def wf_table_def acyclic_def)

lemma reach_count: "flow_reach foreign y \<Longrightarrow> count_inv y"
  unfolding flow_reach_def by (erule steps_count) (simp add: count_inv_def start_flow_def empty_flow_def)

lemma reach_inv: "flow_reach foreign y \<Longrightarrow> flow_inv foreign y"
  unfolding flow_reach_def
  by (erule steps_inv) (simp add: flow_inv_def order_inv_def count_inv_def scan_inv_def start_flow_def empty_flow_def
      wf_table_def acyclic_def)

text \<open>A task runs only after everything it depends on, directly or not, has succeeded.\<close>

lemma ancestors_won:
  assumes "order_inv foreign y" "(u, d) \<in> (fs_deps y)\<^sup>+" "d \<in> fs_ran y"
  shows "u \<in> fs_won y"
  using assms(2,3)
proof (induction rule: converse_trancl_induct)
  case (base u)
  then show ?case using order_invD(14) [OF assms(1)] by blast
next
  case (step u v)
  then have "v \<in> fs_ran y" using order_invD(6) [OF assms(1)] by blast
  with step(1) show ?case using order_invD(14) [OF assms(1)] by blast
qed

lemma successful_won:
  assumes inv: "order_inv foreign y" and k: "status_at k (fs_store y) = Some SUCCESSFUL"
  shows "k \<in> fs_won y"
proof -
  from k obtain r where "fetch k (flow_rows (fs_store y)) = Some r" "status r = SUCCESSFUL" by (auto simp: status_at_def)
  with order_invD(8) [OF inv, of r] show ?thesis by (simp add: fetch_Some [OF order_invD(1) [OF inv]])
qed

lemma recorded_won:
  assumes inv: "order_inv foreign y" and k: "record_at k (fs_store y) = Some SUCCESSFUL"
  shows "k \<in> fs_won y"
proof -
  from k obtain n where "find (\<lambda>n. n_task n = k) (flow_nodes (fs_store y)) = Some n" "n_outcome n = Some SUCCESSFUL"
    by (auto simp: record_at_def node_of_def split: option.splits)
  with order_invD(10) [OF inv, of n] show ?thesis by (auto simp: find_Some_iff)
qed

text \<open>The gate lets a row through only when its upstreams succeeded.\<close>

lemma gate_won:
  assumes "order_inv foreign y" "runnable_filter_q (fs_store y) r"
  shows "ups_won y (pk r)"
  unfolding ups_won_def
proof (intro ballI impI)
  fix e assume e: "e \<in> set (flow_edges (fs_store y))" "e_down e = pk r"
  with assms(2) have "\<not> blocking (fs_store y) e"
    by (auto simp: runnable_filter_q_def blocking_edges_def filter_empty_conv)
  then consider "e_satisfied e" | "status_at (e_up e) (fs_store y) = Some SUCCESSFUL" by (auto simp: blocking_def)
  then show "e_up e \<in> fs_won y"
  proof cases
    case 1 then show ?thesis by (rule order_invD(12) [OF assms(1) e(1)])
  qed (rule successful_won [OF assms(1)])
qed

end
