(* ===== verification/FlowPaths.thy ===== *)
theory FlowPaths
  imports FlowSys
begin

text \<open>
  Every operation on workflows is a path of the specification, whatever other sessions commit between its
  statements as long as they keep to it themselves.  \<open>goes\<close> says so for one operation, with a precondition
  and a result, and has one rule per form of statement.
\<close>

section \<open>Operations as paths\<close>

definition flow_env_ok :: "bool \<Rightarrow> flow_env \<Rightarrow> bool" where
  "flow_env_ok foreign env =
     (\<forall>n y. flow_inv foreign y \<longrightarrow> (\<exists>y'. (flow_step foreign)\<^sup>*\<^sup>* y y' \<and> fs_store y' = fe_others env n (fs_store y)))"

text \<open>\<open>lasting\<close>: kept by every step.  \<open>kept\<close>: kept by what others do here, locks included.\<close>

definition lasting :: "bool \<Rightarrow> (flow_sys \<Rightarrow> bool) \<Rightarrow> bool" where
  "lasting foreign P = (\<forall>y y'. flow_inv foreign y \<longrightarrow> flow_step foreign y y' \<longrightarrow> P y \<longrightarrow> P y')"

definition kept :: "bool \<Rightarrow> flow_env \<Rightarrow> (flow_sys \<Rightarrow> bool) \<Rightarrow> bool" where
  "kept foreign env P =
     (\<forall>n y. flow_inv foreign y \<longrightarrow> P y \<longrightarrow> (\<exists>y'. (flow_step foreign)\<^sup>*\<^sup>* y y' \<and> fs_store y' = fe_others env n (fs_store y) \<and> P y'))"

definition goes :: "bool \<Rightarrow> (flow_sys \<Rightarrow> bool) \<Rightarrow> 'a stm \<Rightarrow> ('a \<Rightarrow> flow_sys \<Rightarrow> bool) \<Rightarrow> bool" where
  "goes foreign P m Q =
     (\<forall>y n. flow_inv foreign y \<longrightarrow> P y \<longrightarrow> (\<exists>y'. (flow_step foreign)\<^sup>*\<^sup>* y y'
        \<and> fs_store y' = snd (snd (run_state m (n, fs_store y))) \<and> Q (fst (run_state m (n, fs_store y))) y'))"

lemma goesI:
  assumes "\<And>y n a n' s'. flow_inv foreign y \<Longrightarrow> P y \<Longrightarrow> run_state m (n, fs_store y) = (a, (n', s')) \<Longrightarrow>
    \<exists>y'. (flow_step foreign)\<^sup>*\<^sup>* y y' \<and> fs_store y' = s' \<and> Q a y'"
  shows "goes foreign P m Q"
  unfolding goes_def by (metis assms prod.exhaust_sel)

lemma goesD:
  assumes "goes foreign P m Q" "flow_inv foreign y" "P y" "run_state m (n, fs_store y) = (a, (n', s'))"
  obtains y' where "(flow_step foreign)\<^sup>*\<^sup>* y y'" "fs_store y' = s'" "Q a y'"
proof -
  from assms(1) [unfolded goes_def, rule_format, OF assms(2,3), of n] assms(4) that show thesis by auto
qed

lemma lasting_steps:
  assumes "lasting foreign P" "(flow_step foreign)\<^sup>*\<^sup>* y y'" "flow_inv foreign y" "P y"
  shows "P y'"
  using assms(2-4)
proof (induction rule: rtranclp_induct)
  case (step y1 y2)
  with steps_inv [OF step(1)] assms(1) show ?case by (auto simp: lasting_def)
qed

lemma lasting_True [simp, intro]: "lasting foreign (\<lambda>y. True)"
  by (simp add: lasting_def)

lemma lasting_conj [intro]: "lasting foreign P \<Longrightarrow> lasting foreign Q \<Longrightarrow> lasting foreign (\<lambda>y. P y \<and> Q y)"
  by (auto simp: lasting_def)

lemma kept_lasting: "flow_env_ok foreign env \<Longrightarrow> lasting foreign P \<Longrightarrow> kept foreign env P"
  unfolding kept_def flow_env_ok_def using lasting_steps by blast

lemma kept_True: "flow_env_ok foreign env \<Longrightarrow> kept foreign env (\<lambda>y. True)"
  by (rule kept_lasting) simp_all

lemma kept_conj: "kept foreign env P \<Longrightarrow> lasting foreign R \<Longrightarrow> kept foreign env (\<lambda>y. P y \<and> R y)"
  unfolding kept_def using lasting_steps by blast

lemma goes_weaken:
  "goes foreign P m Q \<Longrightarrow> (\<And>y. P' y \<Longrightarrow> P y) \<Longrightarrow> (\<And>a y. Q a y \<Longrightarrow> Q' a y) \<Longrightarrow> goes foreign P' m Q'"
  unfolding goes_def by fast

lemma goes_return: "(\<And>y. P y \<Longrightarrow> Q a y) \<Longrightarrow> goes foreign P (State_Monad.return a) Q"
  by (auto simp: goes_def State_Monad.return_def)

lemma goes_bind:
  assumes m: "goes foreign P m R" and k: "\<And>a. goes foreign (R a) (k a) Q"
  shows "goes foreign P (State_Monad.bind m k) Q"
proof (rule goesI)
  fix y n a n' s' assume y: "flow_inv foreign y" "P y" and run: "run_state (State_Monad.bind m k) (n, fs_store y) = (a, (n', s'))"
  obtain b n1 s1 where m1: "run_state m (n, fs_store y) = (b, (n1, s1))" by (metis prod_cases3)
  from goesD [OF m y m1] obtain y1 where y1: "(flow_step foreign)\<^sup>*\<^sup>* y y1" "fs_store y1 = s1" "R b y1" .
  with run m1 have "run_state (k b) (n1, fs_store y1) = (a, (n', s'))" by (simp add: State_Monad.bind_def)
  from goesD [OF k steps_inv [OF y1(1) y(1)] y1(3) this] obtain y2 where
    "(flow_step foreign)\<^sup>*\<^sup>* y1 y2" "fs_store y2 = s'" "Q a y2" .
  with y1(1) show "\<exists>y'. (flow_step foreign)\<^sup>*\<^sup>* y y' \<and> fs_store y' = s' \<and> Q a y'"
    by (intro exI [of _ y2]) auto
qed

lemma goes_raising:
  assumes "goes foreign P m R" "\<And>a. goes foreign (R (Inr a)) (k a) Q" "\<And>e y. R (Inl e) y \<Longrightarrow> Q (Inl e) y"
  shows "goes foreign P (raising m k) Q"
  unfolding raising_def
proof (rule goes_bind [OF assms(1)])
  fix r show "goes foreign (R r) (case r of Inl e \<Rightarrow> State_Monad.return (Inl e) | Inr a \<Rightarrow> k a) Q"
    using assms(2,3) by (cases r) (auto intro: goes_return)
qed

lemma goes_if: "(b \<Longrightarrow> goes foreign P m Q) \<Longrightarrow> (\<not> b \<Longrightarrow> goes foreign P k Q) \<Longrightarrow> goes foreign P (if b then m else k) Q"
  by simp

lemma others_go:
  assumes "kept foreign env P" "flow_inv foreign y" "P y"
  obtains y' where "(flow_step foreign)\<^sup>*\<^sup>* y y'" "fs_store y' = fe_others env n (fs_store y)" "flow_inv foreign y'" "P y'"
proof -
  from assms obtain y' where y': "(flow_step foreign)\<^sup>*\<^sup>* y y'" "fs_store y' = fe_others env n (fs_store y)" "P y'"
    unfolding kept_def by blast
  from that [OF y'(1,2) steps_inv [OF y'(1) assms(2)] y'(3)] show thesis .
qed

lemma goes_reading_at:
  assumes env: "kept foreign env P"
    and f: "\<And>y n. flow_inv foreign y \<Longrightarrow> P y \<Longrightarrow> Q (f n (fs_store y)) y"
  shows "goes foreign P (reading_at env f) Q"
proof (rule goesI)
  fix y n a n' s' assume y: "flow_inv foreign y" "P y" and run: "run_state (reading_at env f) (n, fs_store y) = (a, (n', s'))"
  from others_go [OF env y, of n] obtain y1 where "(flow_step foreign)\<^sup>*\<^sup>* y y1"
    "fs_store y1 = fe_others env n (fs_store y)" "flow_inv foreign y1" "P y1" .
  moreover from this f [of y1 n] run have "fs_store y1 = s'" "Q a y1" by (auto simp: reading_at_def)
  ultimately show "\<exists>y'. (flow_step foreign)\<^sup>*\<^sup>* y y' \<and> fs_store y' = s' \<and> Q a y'" by blast
qed

lemma goes_reading:
  assumes "kept foreign env P" "\<And>y. flow_inv foreign y \<Longrightarrow> P y \<Longrightarrow> Q (f (fs_store y)) y"
  shows "goes foreign P (read_stm env f) Q"
  unfolding read_stm_def by (rule goes_reading_at [OF assms(1)]) (rule assms(2))

lemma goes_writing_at:
  assumes env: "kept foreign env P"
    and f: "\<And>y n. flow_inv foreign y \<Longrightarrow> P y \<Longrightarrow>
      \<exists>y'. (flow_step foreign)\<^sup>*\<^sup>* y y' \<and> fs_store y' = snd (f n (fs_store y)) \<and> Q (fst (f n (fs_store y))) y'"
  shows "goes foreign P (writing_at env f) Q"
proof (rule goesI)
  fix y n a n' s' assume y: "flow_inv foreign y" "P y" and run: "run_state (writing_at env f) (n, fs_store y) = (a, (n', s'))"
  from others_go [OF env y, of n] obtain y1 where y1: "(flow_step foreign)\<^sup>*\<^sup>* y y1"
    "fs_store y1 = fe_others env n (fs_store y)" "flow_inv foreign y1" "P y1" .
  from f [OF y1(3,4), of n] obtain y2 where "(flow_step foreign)\<^sup>*\<^sup>* y1 y2" "fs_store y2 = snd (f n (fs_store y1))"
    "Q (fst (f n (fs_store y1))) y2" by blast
  moreover from run y1(2) have "a = fst (f n (fs_store y1))" "s' = snd (f n (fs_store y1))"
    by (auto simp: writing_at_def split: prod.splits)
  ultimately show "\<exists>y'. (flow_step foreign)\<^sup>*\<^sup>* y y' \<and> fs_store y' = s' \<and> Q a y'"
    using y1(1) by (metis rtranclp_trans)
qed

lemma goes_writing:
  assumes "kept foreign env P"
    and "\<And>y. flow_inv foreign y \<Longrightarrow> P y \<Longrightarrow>
      \<exists>y'. (flow_step foreign)\<^sup>*\<^sup>* y y' \<and> fs_store y' = snd (f (fs_store y)) \<and> Q (fst (f (fs_store y))) y'"
  shows "goes foreign P (writing env f) Q"
  unfolding writing_def by (rule goes_writing_at [OF assms(1)]) (rule assms(2))

lemma goes_transact:
  assumes env: "kept foreign env P" and body: "goes foreign P body Q"
    and lost: "\<And>e y. P y \<Longrightarrow> Q (Inl e) y"
  shows "goes foreign P (transact env body) Q"
proof (rule goesI)
  fix y n a n' s' assume y: "flow_inv foreign y" "P y" and run: "run_state (transact env body) (n, fs_store y) = (a, (n', s'))"
  show "\<exists>y'. (flow_step foreign)\<^sup>*\<^sup>* y y' \<and> fs_store y' = s' \<and> Q a y'"
  proof (cases "fe_fault env n")
    case None
    with run have "run_state body (n + 1, fs_store y) = (a, (n', s'))" by (simp add: transact_def)
    from goesD [OF body y this] show ?thesis by metis
  next
    case (Some e)
    from others_go [OF env y, of n] obtain y1 where "(flow_step foreign)\<^sup>*\<^sup>* y y1"
      "fs_store y1 = fe_others env n (fs_store y)" "P y1" by metis
    with run Some lost [of y1 e] show ?thesis by (intro exI [of _ y1]) (auto simp: transact_def)
  qed
qed

lemma goes_reissued:
  assumes once: "goes foreign P once Q" and again: "\<And>e y. Q (Inl e) y \<Longrightarrow> P y" and lost: "\<And>e y. P y \<Longrightarrow> Q (Inl e) y"
  shows "goes foreign P (reissued_stm env deadlocks once) Q"
proof (rule goesI)
  fix y n a n' s' assume y: "flow_inv foreign y" "P y"
    and run: "run_state (reissued_stm env deadlocks once) (n, fs_store y) = (a, (n', s'))"
  let ?body = "\<lambda>i c. case run_state once c of (Inl e, c') \<Rightarrow> Inl e | (Inr a, c') \<Rightarrow> Inr (a, c')"
  let ?loop = "reissue_from (fe_owns env) (fe_vendor env) deadlocks ?body (\<lambda>i c. snd (run_state once c))"
  have "\<exists>y'. (flow_step foreign)\<^sup>*\<^sup>* y y' \<and> fs_store y' = snd (snd (?loop m (n, fs_store y)))
      \<and> Q (fst (?loop m (n, fs_store y))) y'" for m
    using y
  proof (induction "max_serialization_attempts - m" arbitrary: m n y rule: less_induct)
    case less
    obtain b n1 s1 where o: "run_state once (n, fs_store y) = (b, (n1, s1))" by (metis prod_cases3)
    from goesD [OF once less.prems o] obtain y1 where
      y1: "(flow_step foreign)\<^sup>*\<^sup>* y y1" "fs_store y1 = s1" "Q b y1" .
    show ?case
    proof (cases b)
      case (Inr v)
      with o have "?loop m (n, fs_store y) = (Inr v, (n1, s1))" by (subst reissue_from.simps) simp
      with y1 Inr show ?thesis by (intro exI [of _ y1]) simp
    next
      case (Inl e)
      show ?thesis
      proof (cases "reissues (fe_owns env) (fe_vendor env) deadlocks m e")
        case True
        with o Inl have l: "?loop m (n, fs_store y) = ?loop (m + 1) (n1, fs_store y1)"
          using y1(2) by (subst reissue_from.simps) simp
        have "max_serialization_attempts - (m + 1) < max_serialization_attempts - m"
          using reissues_bounded [OF True] by simp
        from less.hyps [OF this steps_inv [OF y1(1) less.prems(1)] again [OF y1(3) [unfolded Inl]], of n1] y1(1)
        show ?thesis unfolding l by (meson rtranclp_trans)
      next
        case False
        with o Inl have "?loop m (n, fs_store y) = (Inl e, (n, fs_store y))" by (subst reissue_from.simps) simp
        with lost less.prems show ?thesis by (intro exI [of _ y]) simp
      qed
    qed
  qed
  from this [of 0] run show "\<exists>y'. (flow_step foreign)\<^sup>*\<^sup>* y y' \<and> fs_store y' = s' \<and> Q a y'"
    by (simp add: reissued_stm_def reissue_def)
qed

section \<open>Reads by chunk\<close>

lemma goes_reads_at:
  assumes env: "kept foreign env P" and R: "\<And>x. lasting foreign (R x)"
    and f: "\<And>y n c x. flow_inv foreign y \<Longrightarrow> P y \<Longrightarrow> c \<in> set cs \<Longrightarrow> x \<in> set (f n c (fs_store y)) \<Longrightarrow> R x y"
  shows "goes foreign P (reads_at env f cs) (\<lambda>xs y. P y \<and> (\<forall>x \<in> set xs. R x y))"
proof -
  have R': "kept foreign env (\<lambda>y. P y \<and> (\<forall>x \<in> set xs. R x y))" for xs
    by (rule kept_conj [OF env]) (use R in \<open>auto simp: lasting_def\<close>)
  have "goes foreign (\<lambda>y. P y \<and> (\<forall>x \<in> set zs. R x y)) (reads_at env f cs)
      (\<lambda>xs y. P y \<and> (\<forall>x \<in> set zs. R x y) \<and> (\<forall>x \<in> set xs. R x y))" for zs
    using f
  proof (induction cs arbitrary: zs)
    case Nil
    show ?case by (auto intro: goes_return)
  next
    case (Cons c cs)
    show ?case unfolding reads_at.simps
    proof (rule goes_bind)
      show "goes foreign (\<lambda>y. P y \<and> (\<forall>x \<in> set zs. R x y)) (reading_at env (\<lambda>n. f n c))
          (\<lambda>xs y. P y \<and> (\<forall>x \<in> set (zs @ xs). R x y))"
        by (rule goes_reading_at [OF R']) (use Cons.prems in auto)
      fix xs
      show "goes foreign (\<lambda>y. P y \<and> (\<forall>x \<in> set (zs @ xs). R x y))
          (reads_at env f cs \<bind> (\<lambda>ys. State_Monad.return (xs @ ys)))
          (\<lambda>xs y. P y \<and> (\<forall>x \<in> set zs. R x y) \<and> (\<forall>x \<in> set xs. R x y))"
      proof (rule goes_bind [OF Cons.IH [of "zs @ xs"]])
        show "flow_inv foreign y \<Longrightarrow> P y \<Longrightarrow> d \<in> set cs \<Longrightarrow> x \<in> set (f n d (fs_store y)) \<Longrightarrow> R x y" for y n d x
          using Cons.prems [of y d] by simp
      qed (rule goes_return, auto)
    qed
  qed
  from this [of "[]"] show ?thesis by simp
qed

lemma goes_reads:
  assumes "kept foreign env P" "\<And>x. lasting foreign (R x)"
    and "\<And>y c x. flow_inv foreign y \<Longrightarrow> P y \<Longrightarrow> c \<in> set cs \<Longrightarrow> x \<in> set (f c (fs_store y)) \<Longrightarrow> R x y"
  shows "goes foreign P (reads env f cs) (\<lambda>xs y. P y \<and> (\<forall>x \<in> set xs. R x y))"
  unfolding reads_def by (rule goes_reads_at [OF assms(1,2)]) (rule assms(3))

lemma goes_reads_plain: "kept foreign env P \<Longrightarrow> goes foreign P (reads env f cs) (\<lambda>xs. P)"
  using goes_reads [where R = "\<lambda>x y. True", of foreign env P cs f] by (auto intro: goes_weaken)

lemma goes_writes:
  assumes P: "kept foreign env P"
    and f: "\<And>y c. flow_inv foreign y \<Longrightarrow> P y \<Longrightarrow> c \<in> set cs \<Longrightarrow>
      \<exists>y'. (flow_step foreign)\<^sup>*\<^sup>* y y' \<and> fs_store y' = snd (f c (fs_store y)) \<and> P y'"
  shows "goes foreign P (writes env f cs) (\<lambda>k. P)"
  using f
proof (induction cs)
  case (Cons c cs)
  show ?case unfolding writes.simps
  proof (rule goes_bind)
    show "goes foreign P (writing env (f c)) (\<lambda>k. P)"
      by (rule goes_writing [OF P]) (use Cons.prems in simp)
    show "goes foreign P (writes env f cs \<bind> (\<lambda>j. State_Monad.return (k + j))) (\<lambda>k. P)" for k
      by (rule goes_bind [OF Cons.IH]) (use Cons.prems in \<open>auto intro: goes_return\<close>)
  qed
qed (auto intro: goes_return)

end
