(* ===== verification/FlowRefine.thy ===== *)
theory FlowRefine
  imports FlowPaths
begin

text \<open>
  The workflow operations are paths: what each reads stays true until it writes, because upstreams that
  succeeded stay so, keys are not handed out twice and a node gains no edge after it was added.
\<close>

section \<open>What lasts\<close>

lemma step_grows:
  "flow_step foreign y y' \<Longrightarrow> fs_won y \<subseteq> fs_won y' \<and> fs_ids y \<subseteq> fs_ids y' \<and> fs_node_pks y \<subseteq> fs_node_pks y'
    \<and> fs_edge_pks y \<subseteq> fs_edge_pks y'"
  by (induction rule: flow_step.induct) (auto simp: rows_moved_def Let_def)

lemma step_edges:
  "flow_step foreign y y' \<Longrightarrow> e' \<in> set (flow_edges (fs_store y')) \<Longrightarrow>
    (\<exists>e \<in> set (flow_edges (fs_store y)). e_pk e = e_pk e' \<and> e_up e = e_up e' \<and> e_down e = e_down e')
    \<or> e_pk e' \<notin> fs_edge_pks y \<and> e_down e' \<notin> fs_ids y"
proof (induction rule: flow_step.induct)
  case (add w y row ups succeeded node epk now)
  then show ?case
  proof (cases "e' \<in> set (flow_edges (fs_store y))")
    case False
    with add.prems have new: "e' \<in> set (new_edges w ups succeeded (pk row) epk now)" by auto
    then have "e_pk e' \<in> {epk..<epk + length ups}" by (auto simp: new_edges_def in_set_enumerate_eq)
    with add.hyps(12) have "e_pk e' \<notin> fs_edge_pks y" by blast
    with new_edges_ends [OF new] add.hyps(2) show ?thesis by simp
  qed auto
next
  case (mark y pks)
  then show ?case by (auto simp: mark_edges_def split: if_splits)
qed (auto simp: rows_moved_def Let_def record_nodes_def)

lemma step_nodes:
  "flow_step foreign y y' \<Longrightarrow> n' \<in> set (flow_nodes (fs_store y')) \<Longrightarrow>
    (\<exists>n \<in> set (flow_nodes (fs_store y)). n_pk n = n_pk n' \<and> n_task n = n_task n') \<or> n_pk n' \<notin> fs_node_pks y"
proof (induction rule: flow_step.induct)
  case (outcome y pks sts ep)
  then show ?case by (auto simp: record_nodes_def node_recorded_def split: if_splits)
qed (auto simp: rows_moved_def Let_def mark_edges_def)

definition edge_won :: "nat \<Rightarrow> flow_sys \<Rightarrow> bool" where
  "edge_won p y = (p \<in> fs_edge_pks y \<and> (\<forall>e \<in> set (flow_edges (fs_store y)). e_pk e = p \<longrightarrow> e_up e \<in> fs_won y))"

definition node_won :: "nat \<Rightarrow> flow_sys \<Rightarrow> bool" where
  "node_won p y = (p \<in> fs_node_pks y \<and> (\<forall>n \<in> set (flow_nodes (fs_store y)). n_pk n = p \<longrightarrow> n_task n \<in> fs_won y))"

definition freed :: "uuid \<Rightarrow> flow_sys \<Rightarrow> bool" where
  "freed k y = (k \<in> fs_ids y \<and> ups_won y k)"

lemma lasting_won [intro]: "lasting foreign (\<lambda>y. k \<in> fs_won y)"
  unfolding lasting_def using step_grows by blast

lemma lasting_ids [intro]: "lasting foreign (\<lambda>y. k \<in> fs_ids y)"
  unfolding lasting_def using step_grows by blast

lemma lasting_all [intro]: "(\<And>x. x \<in> A \<Longrightarrow> lasting foreign (R x)) \<Longrightarrow> lasting foreign (\<lambda>y. \<forall>x \<in> A. R x y)"
  unfolding lasting_def by blast

lemma lasting_impl [intro]: "lasting foreign R \<Longrightarrow> lasting foreign (\<lambda>y. b \<longrightarrow> R y)"
  unfolding lasting_def by blast

lemma lasting_subset [intro]: "lasting foreign (\<lambda>y. A \<subseteq> fs_won y)" "lasting foreign (\<lambda>y. A \<subseteq> fs_ids y)"
  unfolding lasting_def using step_grows by blast+

lemma lasting_edge_won [intro]: "lasting foreign (edge_won p)"
  unfolding lasting_def edge_won_def
proof (intro allI impI, elim conjE, intro conjI ballI impI)
  fix y y' e' assume st: "flow_step foreign y y'" and p: "p \<in> fs_edge_pks y"
    and won: "\<forall>e \<in> set (flow_edges (fs_store y)). e_pk e = p \<longrightarrow> e_up e \<in> fs_won y"
    and e': "e' \<in> set (flow_edges (fs_store y'))" "e_pk e' = p"
  from step_edges [OF st e'(1)] p e'(2) won step_grows [OF st] show "e_up e' \<in> fs_won y'" by auto
qed (use step_grows in blast)

lemma lasting_node_won [intro]: "lasting foreign (node_won p)"
  unfolding lasting_def node_won_def
proof (intro allI impI, elim conjE, intro conjI ballI impI)
  fix y y' n' assume st: "flow_step foreign y y'" and p: "p \<in> fs_node_pks y"
    and won: "\<forall>n \<in> set (flow_nodes (fs_store y)). n_pk n = p \<longrightarrow> n_task n \<in> fs_won y"
    and n': "n' \<in> set (flow_nodes (fs_store y'))" "n_pk n' = p"
  from step_nodes [OF st n'(1)] p n'(2) won step_grows [OF st] show "n_task n' \<in> fs_won y'" by auto
qed (use step_grows in blast)

lemma lasting_freed [intro]: "lasting foreign (freed k)"
  unfolding lasting_def freed_def ups_won_def
proof (intro allI impI, elim conjE, intro conjI ballI impI)
  fix y y' e' assume st: "flow_step foreign y y'" and k: "k \<in> fs_ids y"
    and won: "\<forall>e \<in> set (flow_edges (fs_store y)). e_down e = k \<longrightarrow> e_up e \<in> fs_won y"
    and e': "e' \<in> set (flow_edges (fs_store y'))" "e_down e' = k"
  from step_edges [OF st e'(1)] k e'(2) won step_grows [OF st] show "e_up e' \<in> fs_won y'" by auto
qed (use step_grows in blast)

lemma inv_facts:
  assumes "flow_inv foreign y"
  shows "order_inv foreign y" "count_inv y" "scan_inv y"
  using assms by (simp_all add: flow_inv_def)

lemma edge_won_iff:
  assumes "flow_inv foreign y" "e \<in> set (flow_edges (fs_store y))"
  shows "edge_won (e_pk e) y \<longleftrightarrow> e_up e \<in> fs_won y"
proof -
  note D = count_invD [OF inv_facts(2) [OF assms(1)]]
  have "e' = e" if "e' \<in> set (flow_edges (fs_store y))" "e_pk e' = e_pk e" for e'
    using D(7) assms(2) that by (simp add: distinct_map inj_on_def)
  with D(8) assms(2) show ?thesis by (auto simp: edge_won_def)
qed

lemma node_won_iff:
  assumes "flow_inv foreign y" "n \<in> set (flow_nodes (fs_store y))"
  shows "node_won (n_pk n) y \<longleftrightarrow> n_task n \<in> fs_won y"
proof -
  note D = count_invD [OF inv_facts(2) [OF assms(1)]]
  have "n' = n" if "n' \<in> set (flow_nodes (fs_store y))" "n_pk n' = n_pk n" for n'
    using D(3) assms(2) that by (simp add: distinct_map inj_on_def)
  with D(4) assms(2) show ?thesis by (auto simp: node_won_def)
qed

section \<open>Which upstreams succeeded\<close>

lemma kept_all: "kept foreign env P \<Longrightarrow> (\<And>x. x \<in> A \<Longrightarrow> lasting foreign (R x)) \<Longrightarrow> kept foreign env (\<lambda>y. P y \<and> (\<forall>x \<in> A. R x y))"
  by (rule kept_conj) auto

lemma id_chunks_concat: "concat (id_chunks env ids) = sort ids"
proof -
  have "0 < id_chunk_size env" by (simp add: id_chunk_size_def id_chunk_limit_def less_max_iff_disj split: option.split)
  then show ?thesis unfolding id_chunks_def by (rule concat_chunks)
qed

lemma id_chunks_subset: "c \<in> set (id_chunks env ids) \<Longrightarrow> set c \<subseteq> set ids"
  using arg_cong [OF id_chunks_concat [of env ids], of set] by auto

lemma goes_succeeded_among:
  assumes P: "kept foreign env P"
  shows "goes foreign P (succeeded_among env ids) (\<lambda>xs y. P y \<and> (\<forall>k \<in> set xs. k \<in> fs_won y))"
  unfolding succeeded_among_def
  by (rule goes_reads [OF P]) (auto intro: successful_won inv_facts)

lemma goes_succeeded_or_recorded:
  assumes P: "kept foreign env P"
  shows "goes foreign P (succeeded_or_recorded env ids) (\<lambda>xs y. P y \<and> (\<forall>k \<in> set xs. k \<in> fs_won y))"
  unfolding succeeded_or_recorded_def
proof (rule goes_bind)
  let ?R = "\<lambda>p y. snd p = Some SUCCESSFUL \<longrightarrow> fst p \<in> fs_won y"
  show "goes foreign P (reads env (\<lambda>c s. map (\<lambda>k. (k, status_at k s)) c) (id_chunks env (remdups ids)))
      (\<lambda>found y. P y \<and> (\<forall>p \<in> set found. ?R p y))"
    by (rule goes_reads [OF P]) (auto intro: successful_won inv_facts)
  fix found
  show "goes foreign (\<lambda>y. P y \<and> (\<forall>p \<in> set found. ?R p y))
      (reads env (\<lambda>c s. filter (\<lambda>k. record_at k s = Some SUCCESSFUL) c) (id_chunks env (map fst (filter (\<lambda>p. snd p = None) found)))
        \<bind> (\<lambda>records. State_Monad.return (map fst (filter (\<lambda>p. snd p = Some SUCCESSFUL) found) @ records)))
      (\<lambda>xs y. P y \<and> (\<forall>k \<in> set xs. k \<in> fs_won y))"
    by (rule goes_bind [OF goes_reads [where R = "\<lambda>k y. k \<in> fs_won y"]])
       (auto intro!: kept_all P goes_return intro: recorded_won inv_facts)
qed

lemma goes_satisfiable:
  assumes P: "kept foreign env P"
  shows "goes foreign P (satisfiable_edges_into env ids) (\<lambda>ps y. P y \<and> (\<forall>p \<in> set ps. edge_won (fst p) y))"
  unfolding satisfiable_edges_into_def
proof (rule goes_bind)
  let ?R = "\<lambda>e y. e_up e \<in> fs_won y \<longrightarrow> edge_won (e_pk e) y"
  let ?S = "\<lambda>e y. e_pk e \<in> fs_edge_pks y \<and> (\<forall>e' \<in> set (flow_edges (fs_store y)). e_pk e' = e_pk e \<longrightarrow> e_up e' = e_up e)"
  have S: "lasting foreign (?S e)" for e
    unfolding lasting_def
  proof (intro allI impI, elim conjE, intro conjI ballI impI)
    fix y y' e' assume st: "flow_step foreign y y'" and p: "e_pk e \<in> fs_edge_pks y"
      and same: "\<forall>e' \<in> set (flow_edges (fs_store y)). e_pk e' = e_pk e \<longrightarrow> e_up e' = e_up e"
      and e': "e' \<in> set (flow_edges (fs_store y'))" "e_pk e' = e_pk e"
    from step_edges [OF st e'(1)] p e'(2) same show "e_up e' = e_up e" by auto
  qed (use step_grows in blast)
  show "goes foreign P (reads env open_edges_into (id_chunks env (remdups ids))) (\<lambda>es y. P y \<and> (\<forall>e \<in> set es. ?S e y))"
  proof (rule goes_reads [OF P S])
    fix y c e assume inv: "flow_inv foreign y" and "e \<in> set (open_edges_into c (fs_store y))"
    then have e: "e \<in> set (flow_edges (fs_store y))" by (simp add: open_edges_into_def)
    note D = count_invD [OF inv_facts(2) [OF inv]]
    have "e' = e" if "e' \<in> set (flow_edges (fs_store y))" "e_pk e' = e_pk e" for e'
      using D(7) e that by (simp add: distinct_map inj_on_def)
    with D(8) e show "?S e y" by auto
  qed
  fix es
  show "goes foreign (\<lambda>y. P y \<and> (\<forall>e \<in> set es. ?S e y))
      (succeeded_or_recorded env (map e_up es) \<bind> (\<lambda>proven. State_Monad.return
        (map (\<lambda>e. (e_pk e, e_down e)) (filter (\<lambda>e. e_up e \<in> set proven) es))))
      (\<lambda>ps y. P y \<and> (\<forall>p \<in> set ps. edge_won (fst p) y))"
  proof (rule goes_bind [OF goes_succeeded_or_recorded])
    show "kept foreign env (\<lambda>y. P y \<and> (\<forall>e \<in> set es. ?S e y))" by (rule kept_all [OF P S])
  qed (auto intro!: goes_return simp: edge_won_def)
qed

section \<open>Marks, locks and the skip queue\<close>

lemma goes_mark_satisfied:
  assumes env: "kept foreign env P" and P: "lasting foreign P" and won: "\<And>y p. P y \<Longrightarrow> p \<in> set pks \<Longrightarrow> edge_won p y"
  shows "goes foreign P (mark_satisfied env pks) (\<lambda>k. P)"
  unfolding mark_satisfied_def
proof (rule goes_writes [OF env])
  fix y c assume y: "flow_inv foreign y" "P y" "c \<in> set (id_chunks env pks)"
  let ?y = "y\<lparr>fs_store := snd (mark_edges c (fs_store y))\<rparr>"
  have st: "flow_step foreign y ?y"
  proof (rule flow_step.mark)
    fix e assume "e \<in> set (flow_edges (fs_store y))" "e_pk e \<in> set c"
    then show "e_up e \<in> fs_won y" using won [OF y(2)] id_chunks_subset [OF y(3)] by (auto simp: edge_won_def)
  qed
  moreover from st y P have "P ?y" by (auto simp: lasting_def)
  ultimately show "\<exists>y'. (flow_step foreign)\<^sup>*\<^sup>* y y' \<and> fs_store y' = snd (mark_edges c (fs_store y)) \<and> P y'"
    by (intro exI [of _ ?y]) auto
qed

lemma goes_lock:
  assumes "kept foreign env P"
  shows "goes foreign P (lock_in_key_order env skip present pks) (\<lambda>xs y. P y \<and> set xs \<subseteq> set pks)"
proof -
  have "goes foreign P (reads_at env (\<lambda>n c s. filter (\<lambda>p. p \<in> set (present s) \<and> \<not> (skip \<and> fe_skip_locked env \<and> fe_held env n p)) c)
      (id_chunks env (sort (remdups pks)))) (\<lambda>xs y. P y \<and> (\<forall>x \<in> set xs. x \<in> set pks))"
    by (rule goes_reads_at [OF assms]) (use id_chunks_subset [of _ env "sort (remdups pks)"] in \<open>auto simp: lasting_def\<close>)
  then show ?thesis unfolding lock_in_key_order_def Let_def
    by (auto intro: goes_return elim: goes_weaken)
qed

lemma goes_write_locked:
  assumes P: "kept foreign env P" and w: "\<And>locked. set locked \<subseteq> set pks \<Longrightarrow> goes foreign P (write locked) (\<lambda>k. P)"
  shows "goes foreign P (write_locked env skip present pks write) (\<lambda>r. P)"
  unfolding write_locked_def Let_def
proof (rule goes_bind)
  show "goes foreign P (transact env (lock_in_key_order env skip present (sort (remdups pks)) \<bind> (\<lambda>locked.
      (if locked = [] then State_Monad.return 0 else write locked) \<bind> (\<lambda>k. State_Monad.return (Inr locked))))) (\<lambda>r. P)"
  proof (rule goes_transact [OF P])
    show "goes foreign P (lock_in_key_order env skip present (sort (remdups pks)) \<bind> (\<lambda>locked.
        (if locked = [] then State_Monad.return 0 else write locked) \<bind> (\<lambda>k. State_Monad.return (Inr locked)))) (\<lambda>r. P)"
    proof (rule goes_bind [OF goes_lock [OF P]])
      fix locked
      show "goes foreign (\<lambda>y. P y \<and> set locked \<subseteq> set (sort (remdups pks)))
          ((if locked = [] then State_Monad.return 0 else write locked) \<bind> (\<lambda>k. State_Monad.return (Inr locked))) (\<lambda>r. P)"
      proof (cases "set locked \<subseteq> set pks")
        case True
        show ?thesis
          by (rule goes_bind [where R = "\<lambda>k. P"])
             (use w [OF True] in \<open>auto intro: goes_return elim: goes_weaken\<close>)
      qed (simp add: goes_def)
    qed
  qed
qed (auto intro: goes_return)

text \<open>A change of the scan rows that queues task ids only.\<close>

lemma scans_step:
  assumes "\<And>x. x \<in> set xs \<Longrightarrow> set (s_skipped x) \<subseteq> fs_ids y"
  shows "flow_step foreign y (y\<lparr>fs_store := (fs_store y)\<lparr>flow_scans := xs\<rparr>\<rparr>)"
  using flow_step.scans [of xs y foreign "flow_round_row (fs_store y)"] assms by simp

lemma lasting_step: "lasting foreign P \<Longrightarrow> flow_inv foreign y \<Longrightarrow> flow_step foreign y y' \<Longrightarrow> P y \<Longrightarrow> P y'"
  by (auto simp: lasting_def)

lemma one_step:
  assumes "lasting foreign P" "flow_inv foreign y" "P y" "flow_step foreign y y'" "fs_store y' = s"
  shows "\<exists>y'. (flow_step foreign)\<^sup>*\<^sup>* y y' \<and> fs_store y' = s \<and> P y'"
  using assms lasting_step [OF assms(1,2,4,3)] by (intro exI [of _ y']) auto

lemma merge_skipped_subset: "set (merge_skipped queued ids) \<subseteq> set queued \<union> set ids"
  using set_take_subset [of skip_queue_limit "rev (remdups (rev (queued @ ids)))"] by (auto simp: merge_skipped_def)

lemma goes_add_to_skip_queue:
  assumes env: "flow_env_ok foreign env" and P: "lasting foreign P" and ids: "\<And>y. P y \<Longrightarrow> set ids \<subseteq> fs_ids y"
  shows "goes foreign P (add_to_skip_queue env w ids tries) (\<lambda>u. P)"
proof (induction tries)
  case 0
  show ?case by (auto intro: goes_return)
next
  case (Suc tries)
  let ?R = "\<lambda>row y. P y \<and> (\<forall>x. row = Some x \<longrightarrow> set (s_skipped x) \<subseteq> fs_ids y)"
  have R: "lasting foreign (?R row)" for row
    using P step_grows unfolding lasting_def by blast
  note kP = kept_lasting [OF env P] and kR = kept_lasting [OF env R]
  show ?case unfolding add_to_skip_queue.simps
  proof (rule goes_bind)
    show "goes foreign P (read_stm env (find_scan w)) ?R"
    proof (rule goes_reading [OF kP], intro conjI allI impI)
      fix y x assume inv: "flow_inv foreign y" and x: "find_scan w (fs_store y) = Some x"
      then have "x \<in> set (flow_scans (fs_store y))" by (auto simp: find_scan_def find_Some_iff)
      then show "set (s_skipped x) \<subseteq> fs_ids y" using inv_facts(3) [OF inv] by (simp add: scan_inv_def)
    qed
    fix row
    show "goes foreign (?R row) ((case row of
        None \<Rightarrow> writing env (insert_scan \<lparr>s_workflow = w, s_phase = Edges, s_position = 0, s_edge_hwm = None,
          s_node_hwm = None, s_skipped = merge_skipped [] ids, s_version = 0\<rparr>)
      | Some x \<Rightarrow> writing env (set_scan (\<lambda>y. s_workflow y = w \<and> s_version y = s_version x)
            (\<lambda>y. y\<lparr>s_skipped := merge_skipped (s_skipped x) ids, s_version := s_version x + 1\<rparr>))
          \<bind> (\<lambda>k. State_Monad.return (k \<noteq> 0)))
      \<bind> (\<lambda>done. if done then State_Monad.return () else add_to_skip_queue env w ids tries)) (\<lambda>u. P)"
    proof (rule goes_bind [where R = "\<lambda>b. P"])
      show "goes foreign P (if b then State_Monad.return () else add_to_skip_queue env w ids tries) (\<lambda>u. P)" for b
        using Suc by (auto intro: goes_return)
      show "goes foreign (?R row) (case row of
        None \<Rightarrow> writing env (insert_scan \<lparr>s_workflow = w, s_phase = Edges, s_position = 0, s_edge_hwm = None,
          s_node_hwm = None, s_skipped = merge_skipped [] ids, s_version = 0\<rparr>)
      | Some x \<Rightarrow> writing env (set_scan (\<lambda>y. s_workflow y = w \<and> s_version y = s_version x)
            (\<lambda>y. y\<lparr>s_skipped := merge_skipped (s_skipped x) ids, s_version := s_version x + 1\<rparr>))
          \<bind> (\<lambda>k. State_Monad.return (k \<noteq> 0))) (\<lambda>b. P)"
      proof (cases row)
        case None
        let ?x = "\<lparr>s_workflow = w, s_phase = Edges, s_position = 0, s_edge_hwm = None,
          s_node_hwm = None, s_skipped = merge_skipped [] ids, s_version = 0\<rparr>"
        have "goes foreign (?R row) (writing env (insert_scan ?x)) (\<lambda>b. P)"
        proof (rule goes_writing [OF kR])
          fix y assume y: "flow_inv foreign y" "?R row y"
          then have "flow_step foreign y (y\<lparr>fs_store := (fs_store y)\<lparr>flow_scans := flow_scans (fs_store y) @ [?x]\<rparr>\<rparr>)"
            by (intro scans_step) (use ids [of y] merge_skipped_subset [of "[]" ids] inv_facts(3) [OF y(1)] in \<open>auto simp: scan_inv_def\<close>)
          then show "\<exists>y'. (flow_step foreign)\<^sup>*\<^sup>* y y' \<and> fs_store y' = snd (insert_scan ?x (fs_store y)) \<and> P y'"
            using y one_step [OF P y(1)] by (cases "find_scan w (fs_store y) = None") (auto simp: insert_scan_def)
        qed
        with None show ?thesis by simp
      next
        case (Some x)
        let ?f = "\<lambda>y. y\<lparr>s_skipped := merge_skipped (s_skipped x) ids, s_version := s_version x + 1\<rparr>"
        let ?P = "\<lambda>y. s_workflow y = w \<and> s_version y = s_version x"
        have "goes foreign (?R row) (writing env (set_scan ?P ?f)) (\<lambda>b. P)"
        proof (rule goes_writing [OF kR])
          fix y assume y: "flow_inv foreign y" "?R row y"
          let ?xs = "map (\<lambda>z. if ?P z then ?f z else z) (flow_scans (fs_store y))"
          have "set (s_skipped (?f z)) \<subseteq> fs_ids y" for z
            using merge_skipped_subset [of "s_skipped x" ids] y(2) Some ids [of y] by auto
          moreover have "set (s_skipped z) \<subseteq> fs_ids y" if "z \<in> set (flow_scans (fs_store y))" for z
            using inv_facts(3) [OF y(1)] that by (simp add: scan_inv_def)
          ultimately have "flow_step foreign y (y\<lparr>fs_store := (fs_store y)\<lparr>flow_scans := ?xs\<rparr>\<rparr>)"
            by (intro scans_step) (auto split: if_splits)
          then show "\<exists>y'. (flow_step foreign)\<^sup>*\<^sup>* y y' \<and> fs_store y' = snd (set_scan ?P ?f (fs_store y)) \<and> P y'"
            using y one_step [OF P y(1)] by (simp add: set_scan_def)
        qed
        then have "goes foreign (?R row) (writing env (set_scan ?P ?f) \<bind> (\<lambda>k. State_Monad.return (k \<noteq> 0))) (\<lambda>b. P)"
          by (rule goes_bind) (auto intro: goes_return)
        with Some show ?thesis by simp
      qed
    qed
  qed
qed

lemma goes_queue_each:
  assumes env: "flow_env_ok foreign env" and P: "lasting foreign P" and ids: "\<And>y. P y \<Longrightarrow> snd ` set pairs \<subseteq> fs_ids y"
  shows "goes foreign P (queue_each env pairs ws) (\<lambda>u. P)"
proof (induction ws)
  case Nil
  show ?case by (auto intro: goes_return)
next
  case (Cons w ws)
  note kP = kept_lasting [OF env P]
  show ?case unfolding queue_each.simps
  proof (rule goes_bind [where R = "\<lambda>r. P"])
    show "goes foreign P (transact env (add_to_skip_queue env w (sort (map snd (filter (\<lambda>p. fst p = w) pairs))) skip_queue_attempts
        \<bind> (\<lambda>_. State_Monad.return (Inr ())))) (\<lambda>r. P)"
      by (rule goes_transact [OF kP goes_bind [OF goes_add_to_skip_queue [OF env P]]])
         (use ids in \<open>auto intro: goes_return\<close>)
    show "goes foreign P (case r of Inl e \<Rightarrow> State_Monad.return () | Inr u \<Rightarrow> queue_each env pairs ws) (\<lambda>u. P)" for r :: "failure + unit"
      using Cons by (cases r) (auto intro: goes_return)
  qed
qed

lemma goes_queue_skipped:
  assumes env: "flow_env_ok foreign env" and P: "lasting foreign P"
  shows "goes foreign P (queue_skipped env ids) (\<lambda>u. P)"
  unfolding queue_skipped_def
proof (rule goes_bind)
  show "goes foreign P (reads env (\<lambda>c s. map (\<lambda>n. (n_workflow n, n_task n)) (filter (\<lambda>n. n_task n \<in> set c) (flow_nodes s)))
      (id_chunks env (remdups ids))) (\<lambda>ps y. P y \<and> (\<forall>p \<in> set ps. snd p \<in> fs_ids y))"
  proof (rule goes_reads [OF kept_lasting [OF env P]])
    fix y c p assume y: "flow_inv foreign y"
      "p \<in> set (map (\<lambda>n. (n_workflow n, n_task n)) (filter (\<lambda>n. n_task n \<in> set c) (flow_nodes (fs_store y))))"
    then show "snd p \<in> fs_ids y" using order_invD(3) [OF inv_facts(1) [OF y(1)]] by auto
  qed auto
  fix ps
  show "goes foreign (\<lambda>y. P y \<and> (\<forall>p \<in> set ps. snd p \<in> fs_ids y))
      (queue_each env ps (sort (remdups (map fst ps)))) (\<lambda>u. P)"
    by (rule goes_weaken [OF goes_queue_each [OF env, of "\<lambda>y. P y \<and> (\<forall>p \<in> set ps. snd p \<in> fs_ids y)"]])
       (rule lasting_conj [OF P], rule lasting_all, rule lasting_ids, auto)
qed

lemma goes_satisfy_edges_into:
  assumes env: "flow_env_ok foreign env" and P: "lasting foreign P"
  shows "goes foreign P (satisfy_edges_into env ids) (\<lambda>r. P)"
  unfolding satisfy_edges_into_def
proof (rule goes_bind [OF goes_satisfiable [OF kept_lasting [OF env P]]])
  fix wanted :: "(nat \<times> uuid) list"
  let ?P = "\<lambda>y. P y \<and> (\<forall>p \<in> set wanted. edge_won (fst p) y)"
  have L: "lasting foreign ?P" by (rule lasting_conj [OF P]) (rule lasting_all, rule lasting_edge_won)
  have m: "goes foreign ?P (mark_satisfied env locked) (\<lambda>k. ?P)" if "set locked \<subseteq> set (map fst wanted)" for locked
    by (rule goes_mark_satisfied [OF kept_lasting [OF env L] L]) (use that in auto)
  have q: "goes foreign ?P (queue_skipped env ks \<bind> (\<lambda>_. State_Monad.return (Inr ()))) (\<lambda>r. P)" for ks
    by (rule goes_bind [OF goes_queue_skipped [OF env L]]) (auto intro: goes_return)
  show "goes foreign ?P (if wanted = [] then State_Monad.return (Inr ())
      else raising (write_locked env False edge_pks (map fst wanted) (mark_satisfied env)) (\<lambda>(written, skipped).
        queue_skipped env (map snd (filter (\<lambda>p. fst p \<in> set skipped) wanted)) \<bind> (\<lambda>_. State_Monad.return (Inr ()))))
      (\<lambda>r. P)"
  proof (rule goes_if)
    show "goes foreign ?P (raising (write_locked env False edge_pks (map fst wanted) (mark_satisfied env)) (\<lambda>(written, skipped).
        queue_skipped env (map snd (filter (\<lambda>p. fst p \<in> set skipped) wanted)) \<bind> (\<lambda>_. State_Monad.return (Inr ())))) (\<lambda>r. P)"
      by (rule goes_raising [OF goes_write_locked [OF kept_lasting [OF env L] m]]) (auto split: prod.splits intro: q)
  qed (auto intro: goes_return)
qed

end
