(* ===== verification/FlowGoes.thy ===== *)
theory FlowGoes
  imports FlowRefine
begin

text \<open>
  The release, the records, the cancellation and the completion of a workflow as paths of the specification.
\<close>

section \<open>Statements on task rows\<close>

text \<open>\<open>rows_go\<close>: the state \<open>y\<close> reaches one whose task rows are \<open>t\<close> and nothing else has changed.\<close>

definition rows_go :: "bool \<Rightarrow> flow_sys \<Rightarrow> table \<Rightarrow> bool" where
  "rows_go foreign y t = (\<exists>y'. (flow_step foreign)\<^sup>*\<^sup>* y y' \<and> fs_store y' = (fs_store y)\<lparr>flow_rows := t\<rparr>)"

lemma rows_go_refl: "rows_go foreign y (flow_rows (fs_store y))"
  unfolding rows_go_def by (intro exI [of _ y]) simp

lemma rows_go_update:
  assumes "update_where P f (flow_rows (fs_store y)) = (t, k)"
    and "\<And>r. r \<in> set (flow_rows (fs_store y)) \<Longrightarrow> P r \<Longrightarrow> allowed foreign y r (f r)"
  obtains y' where "flow_step foreign y y'" "fs_store y' = (fs_store y)\<lparr>flow_rows := t\<rparr>"
  using that [of "rows_moved P f y"] flow_step.rows [of y P foreign f] assms
  by (auto simp: update_where_def rows_moved_def Let_def)

lemma rows_go_trans:
  assumes "flow_step foreign y y1" "fs_store y1 = (fs_store y)\<lparr>flow_rows := t\<rparr>" "rows_go foreign y1 t'"
  shows "rows_go foreign y t'"
proof -
  from assms(3) obtain y' where "(flow_step foreign)\<^sup>*\<^sup>* y1 y'" "fs_store y' = (fs_store y1)\<lparr>flow_rows := t'\<rparr>"
    by (auto simp: rows_go_def)
  with assms(1,2) show ?thesis unfolding rows_go_def
    by (intro exI [of _ y']) (auto intro: converse_rtranclp_into_rtranclp)
qed

lemma rows_go_lasting:
  assumes "rows_go foreign y t" "lasting foreign P" "flow_inv foreign y" "P y"
  shows "\<exists>y'. (flow_step foreign)\<^sup>*\<^sup>* y y' \<and> fs_store y' = (fs_store y)\<lparr>flow_rows := t\<rparr> \<and> P y'"
  using assms lasting_steps [OF assms(2)] by (auto simp: rows_go_def)

lemma quiet_attempt:
  assumes "run_contended 1 (\<lambda>a. body) others s = (res, s')"
  shows "case res of Inr a \<Rightarrow> body s = Inr (a, s') | Inl e \<Rightarrow> s' = s"
  using assms unfolding run_contended_def
  by (subst (asm) run_from.simps) (auto split: sum.splits failure.splits)

text \<open>A waiting row goes to READY.\<close>

lemma released_allowed:
  assumes "freed (pk r) y" "status r = WAITING"
  shows "allowed foreign y r (released now r)"
  using assms by (auto simp: allowed_def freed_def row_simps asleep_def)

lemma release_chunks_go:
  assumes "release_chunks locking 1 (\<lambda>i a k. None) (\<lambda>i a t. t) now i cs (flow_rows (fs_store y)) = (r, t)"
    and "flow_inv foreign y" "\<forall>k \<in> fst ` set (concat cs). freed k y"
  shows "rows_go foreign y t"
  using assms
proof (induction cs arbitrary: i y r)
  case Nil
  then show ?case using rows_go_refl by auto
next
  case (Cons c cs)
  obtain res t1 where one: "run_contended 1 (\<lambda>a. release_chunk locking now c (\<lambda>k. None)) (\<lambda>a t. t) (flow_rows (fs_store y)) = (res, t1)"
    by fastforce
  show ?case
  proof (cases res)
    case (Inl e)
    with quiet_attempt [OF one] one Cons.prems(1) show ?thesis by (auto simp: rows_go_refl)
  next
    case (Inr k)
    with quiet_attempt [OF one] have "release_chunk locking now c (\<lambda>k. None) (flow_rows (fs_store y)) = Inr (k, t1)" by simp
    then obtain m where "locked_update locking (\<lambda>k. None) 0 (pinned_rows c [WAITING]) (released now) (flow_rows (fs_store y)) = Inr (m, k, t1)"
      by (auto simp: release_chunk_def rbind_Inr_iff)
    note u = locked_update_Inr [OF this]
    obtain y1 where y1: "flow_step foreign y y1" "fs_store y1 = (fs_store y)\<lparr>flow_rows := t1\<rparr>"
    proof (rule rows_go_update [OF u])
      show "allowed foreign y r (released now r)" if "pinned_rows c [WAITING] r" for r
        using that Cons.prems(3) by (intro released_allowed) (force simp: pinned_rows_def)+
    qed
    obtain r' where rest: "release_chunks locking 1 (\<lambda>i a k. None) (\<lambda>i a t. t) now (i + 1) cs t1 = (r', t)"
      using Cons.prems(1) one Inr by (auto split: prod.splits sum.splits)
    have "\<forall>k \<in> fst ` set (concat cs). freed k y1"
      using Cons.prems(3) lasting_freed y1(1) Cons.prems(2) unfolding lasting_def by fastforce
    from Cons.IH [OF _ _ this] rest y1 steps_inv [OF r_into_rtranclp [of "flow_step foreign", OF y1(1)] Cons.prems(2)]
    have "rows_go foreign y1 t" by simp
    with y1 show ?thesis by (rule rows_go_trans)
  qed
qed

lemma pinned_fst: "fst ` set (fst (pinned m (map (\<lambda>(k, ep). (Uuid k, ep)) ps))) \<subseteq> fst ` set ps"
proof
  fix k assume "k \<in> fst ` set (fst (pinned m (map (\<lambda>(k, ep). (Uuid k, ep)) ps)))"
  then obtain e where "(k, e) \<in> set (fst (pinned m (map (\<lambda>(k, ep). (Uuid k, ep)) ps)))" by auto
  from pinned_member [OF this] show "k \<in> fst ` set ps" by (auto simp: pk_of_def intro: rev_image_eqI)
qed

lemma release_pairs_go:
  assumes "flow_inv foreign y" "\<forall>p \<in> set pairs. freed (fst p) y" "release_pairs env n pairs (fs_store y) = (r, s)"
  shows "\<exists>t. s = (fs_store y)\<lparr>flow_rows := t\<rparr> \<and> rows_go foreign y t"
proof -
  let ?ps = "fst (pinned (fe_mariadb env) (map (\<lambda>(k, ep). (Uuid k, ep)) pairs))"
  obtain r' t where go: "release_chunks (fe_row_locks env) 1 (\<lambda>i a k. None) (\<lambda>i a t. t) (fe_now env n) 0
      (chunks update_chunk_size ?ps) (flow_rows (fs_store y)) = (r', t)" by fastforce
  have "\<forall>k \<in> fst ` set (concat (chunks update_chunk_size ?ps)). freed k y"
    using assms(2) pinned_fst by (fastforce simp: concat_chunks update_chunk_size_def)
  from release_chunks_go [OF go assms(1) this] assms(3) go show ?thesis
    by (auto simp: release_pairs_def release_many_def counted_def Let_def split: prod.splits sum.splits)
qed

section \<open>Release\<close>

lemma goes_release_nodes:
  assumes env: "flow_env_ok foreign env" and P: "lasting foreign P" and ids: "\<And>y. P y \<Longrightarrow> set chunk \<subseteq> fs_ids y"
  shows "goes foreign P (release_nodes env chunk) (\<lambda>r. P)"
  unfolding release_nodes_def Let_def
proof (rule goes_bind)
  let ?R = "\<lambda>held y. P y \<and> (\<forall>k \<in> set chunk - set held. freed k y)"
  show "goes foreign P (read_stm env (\<lambda>s. map e_down (open_edges_into chunk s))) ?R"
  proof (rule goes_reading [OF kept_lasting [OF env P]], intro conjI ballI)
    fix y k assume y: "flow_inv foreign y" "P y" and k: "k \<in> set chunk - set (map e_down (open_edges_into chunk (fs_store y)))"
    have "e_up e \<in> fs_won y" if "e \<in> set (flow_edges (fs_store y))" "e_down e = k" for e
      using order_invD(12) [OF inv_facts(1) [OF y(1)] that(1)] that k by (auto simp: open_edges_into_def)
    with ids [OF y(2)] k show "freed k y" by (auto simp: freed_def ups_won_def)
  qed
  fix held
  let ?free = "filter (\<lambda>k. k \<notin> set held) chunk"
  let ?P = "\<lambda>y. P y \<and> (\<forall>k \<in> set ?free. freed k y)"
  let ?S = "\<lambda>pairs y. ?P y \<and> fst ` set pairs \<subseteq> set ?free"
  have L: "lasting foreign ?P" by (rule lasting_conj [OF P]) (rule lasting_all, rule lasting_freed)
  have S: "lasting foreign (?S pairs)" for pairs :: "(uuid \<times> int) list"
    by (rule lasting_conj [OF L]) (simp add: lasting_def)
  have w: "goes foreign (?S pairs) (writing_at env (\<lambda>n. release_pairs env n pairs)) (\<lambda>r. P)" for pairs
  proof (rule goes_writing_at [OF kept_lasting [OF env S]])
    fix y n assume y: "flow_inv foreign y" "?S pairs y"
    obtain r s where run: "release_pairs env n pairs (fs_store y) = (r, s)" by fastforce
    have "\<forall>p \<in> set pairs. freed (fst p) y" using y(2) by auto
    from release_pairs_go [OF y(1) this run] obtain t where "s = (fs_store y)\<lparr>flow_rows := t\<rparr>" "rows_go foreign y t" by blast
    with rows_go_lasting [OF _ P y(1)] y(2) run
    show "\<exists>y'. (flow_step foreign)\<^sup>*\<^sup>* y y' \<and> fs_store y' = snd (release_pairs env n pairs (fs_store y)) \<and> P y'" by auto
  qed
  have "goes foreign ?P (if ?free = [] then State_Monad.return (Inr 0)
      else read_stm env (\<lambda>s. map (\<lambda>r. (pk r, lease_epoch r)) (filter (\<lambda>r. pk r \<in> set ?free \<and> status r = WAITING) (flow_rows s)))
        \<bind> (\<lambda>pairs. if pairs = [] then State_Monad.return (Inr 0) else writing_at env (\<lambda>n. release_pairs env n pairs))) (\<lambda>r. P)"
  proof (rule goes_if)
    show "goes foreign ?P (read_stm env (\<lambda>s. map (\<lambda>r. (pk r, lease_epoch r)) (filter (\<lambda>r. pk r \<in> set ?free \<and> status r = WAITING) (flow_rows s)))
        \<bind> (\<lambda>pairs. if pairs = [] then State_Monad.return (Inr 0) else writing_at env (\<lambda>n. release_pairs env n pairs))) (\<lambda>r. P)"
    proof (rule goes_bind [where R = ?S])
      show "goes foreign ?P (read_stm env (\<lambda>s. map (\<lambda>r. (pk r, lease_epoch r))
          (filter (\<lambda>r. pk r \<in> set ?free \<and> status r = WAITING) (flow_rows s)))) ?S"
        by (rule goes_reading [OF kept_lasting [OF env L]]) auto
      show "goes foreign (?S pairs) (if pairs = [] then State_Monad.return (Inr 0)
          else writing_at env (\<lambda>n. release_pairs env n pairs)) (\<lambda>r. P)" for pairs
        by (rule goes_if [OF _ w]) (auto intro: goes_return)
    qed
  qed (auto intro: goes_return)
  then show "goes foreign (?R held) (if ?free = [] then State_Monad.return (Inr 0)
      else read_stm env (\<lambda>s. map (\<lambda>r. (pk r, lease_epoch r)) (filter (\<lambda>r. pk r \<in> set ?free \<and> status r = WAITING) (flow_rows s)))
        \<bind> (\<lambda>pairs. if pairs = [] then State_Monad.return (Inr 0) else writing_at env (\<lambda>n. release_pairs env n pairs))) (\<lambda>r. P)"
    by (rule goes_weaken) auto
qed

lemma goes_release_try:
  assumes env: "flow_env_ok foreign env" and P: "lasting foreign P" and ids: "\<And>y. P y \<Longrightarrow> set chunk \<subseteq> fs_ids y"
  shows "goes foreign P (release_try env chunk left) (\<lambda>r. P)"
proof (induction left)
  case (Suc left)
  show ?case unfolding release_try.simps
  proof (rule goes_bind)
    show "goes foreign P (transact env (release_nodes env chunk)) (\<lambda>r. P)"
      by (rule goes_transact [OF kept_lasting [OF env P] goes_release_nodes [OF env P ids]])
    show "goes foreign P (case r of Inr k \<Rightarrow> State_Monad.return (Inr (Some k))
        | Inl e \<Rightarrow> if lost_lock_conflict env e then release_try env chunk left else State_Monad.return (Inl e)) (\<lambda>r. P)"
      for r :: "failure + nat"
      using Suc by (cases r) (auto intro: goes_return)
  qed
qed (auto intro: goes_return)

lemma goes_release_each:
  assumes env: "flow_env_ok foreign env" and P: "lasting foreign P" and ids: "\<And>y. P y \<Longrightarrow> set (concat cs) \<subseteq> fs_ids y"
  shows "goes foreign P (release_each env cs) (\<lambda>r y. P y \<and> (\<forall>k d. r = Inr (k, d) \<longrightarrow> set d \<subseteq> set (concat cs)))"
  using ids
proof (induction cs)
  case (Cons c cs)
  show ?case unfolding release_each.simps
  proof (rule goes_raising [OF goes_release_try [OF env P]])
    fix moved :: "nat option"
    show "goes foreign P (raising (release_each env cs) (\<lambda>(j, deferred). State_Monad.return (Inr (case moved of
        Some k \<Rightarrow> (k + j, deferred) | None \<Rightarrow> (j, c @ deferred)))))
      (\<lambda>r y. P y \<and> (\<forall>k d. r = Inr (k, d) \<longrightarrow> set d \<subseteq> set (concat (c # cs))))"
    proof (rule goes_raising [OF Cons.IH])
      fix a :: "nat \<times> uuid list"
      show "goes foreign (\<lambda>y. P y \<and> (\<forall>k d. Inr a = Inr (k, d) \<longrightarrow> set d \<subseteq> set (concat cs)))
          (case a of (j, deferred) \<Rightarrow> State_Monad.return (Inr (case moved of
            Some k \<Rightarrow> (k + j, deferred) | None \<Rightarrow> (j, c @ deferred))))
          (\<lambda>r y. P y \<and> (\<forall>k d. r = Inr (k, d) \<longrightarrow> set d \<subseteq> set (concat (c # cs))))"
        by (cases a; cases moved; simp, rule goes_return, auto 0 3)
    qed (use Cons.prems in auto)
  qed (use Cons.prems in auto)
qed (auto intro: goes_return)

lemma goes_release_in_caller:
  assumes env: "flow_env_ok foreign env" and P: "lasting foreign P" and ids: "\<And>y. P y \<Longrightarrow> set (concat cs) \<subseteq> fs_ids y"
  shows "goes foreign P (release_in_caller env cs) (\<lambda>r. P)"
  using ids
proof (induction cs)
  case (Cons c cs)
  have k: "goes foreign P (raising (release_in_caller env cs) (\<lambda>j. State_Monad.return (Inr (k + j)))) (\<lambda>r. P)" for k
    by (rule goes_raising [OF Cons.IH]) (use Cons.prems in \<open>auto intro: goes_return\<close>)
  show ?case unfolding release_in_caller.simps
    by (rule goes_raising [OF goes_transact [OF kept_lasting [OF env P] goes_release_nodes [OF env P]] k])
       (use Cons.prems in auto)
qed (auto intro: goes_return)

lemma goes_release_downstream:
  assumes env: "flow_env_ok foreign env" and P: "lasting foreign P" and ids: "\<And>y. P y \<Longrightarrow> set ids \<subseteq> fs_ids y"
  shows "goes foreign P (release_downstream env ids) (\<lambda>r. P)"
proof -
  have c: "set (concat (id_chunks env (remdups ids))) = set ids" by (simp add: id_chunks_concat)
  have q: "goes foreign P ((if d = [] then State_Monad.return () else queue_skipped env d)
      \<bind> (\<lambda>_. State_Monad.return (Inr k))) (\<lambda>r. P)" for d and k :: nat
    by (rule goes_bind [where R = "\<lambda>u. P"]) (auto intro: goes_return goes_queue_skipped [OF env P])
  have "goes foreign P (raising (release_each env (id_chunks env (remdups ids))) (\<lambda>(k, d).
      (if d = [] then State_Monad.return () else queue_skipped env d) \<bind> (\<lambda>_. State_Monad.return (Inr k)))) (\<lambda>r. P)"
  proof (rule goes_raising)
    show "goes foreign P (release_each env (id_chunks env (remdups ids))) (\<lambda>r. P)"
      by (rule goes_weaken [OF goes_release_each [OF env P]]) (use c ids in auto)
    show "goes foreign P (case a of (k, d) \<Rightarrow> (if d = [] then State_Monad.return () else queue_skipped env d)
        \<bind> (\<lambda>_. State_Monad.return (Inr k))) (\<lambda>r. P)" for a :: "nat \<times> uuid list"
      using q by (cases a) (simp only: prod.case)
  qed
  moreover have "goes foreign P (release_in_caller env (id_chunks env (remdups ids))) (\<lambda>r. P)"
    by (rule goes_release_in_caller [OF env P]) (use c ids in auto)
  ultimately show ?thesis unfolding release_downstream_def by (auto intro: goes_return)
qed

lemma goes_recheck:
  assumes env: "flow_env_ok foreign env" and P: "lasting foreign P" and k: "\<And>y. P y \<Longrightarrow> k \<in> fs_ids y"
  shows "goes foreign P (recheck_added_node env k) (\<lambda>u. P)"
  unfolding recheck_added_node_def
  by (rule goes_bind [OF goes_raising [OF goes_satisfy_edges_into [OF env P] goes_release_downstream [OF env P]]])
     (use k in \<open>auto intro: goes_return\<close>)

section \<open>Records\<close>

text \<open>A record may be written once what it records of a success is true.\<close>

definition true_records :: "records \<Rightarrow> flow_sys \<Rightarrow> bool" where
  "true_records records y = (\<forall>(p, st, ep) \<in> set records. st = SUCCESSFUL \<longrightarrow> node_won p y)"

lemma lasting_true_records: "lasting foreign (true_records records)"
  unfolding true_records_def lasting_def using lasting_node_won unfolding lasting_def by fast

lemma outcome_go:
  assumes P: "lasting foreign P" and y: "flow_inv foreign y" "P y" and won: "\<And>p. p \<in> set pks \<Longrightarrow> sts = SUCCESSFUL \<Longrightarrow> node_won p y"
  shows "\<exists>y'. (flow_step foreign)\<^sup>*\<^sup>* y y' \<and> fs_store y' = snd (record_nodes pks sts ep (fs_store y)) \<and> P y'"
proof (rule one_step [OF P y])
  show "flow_step foreign y (y\<lparr>fs_store := snd (record_nodes pks sts ep (fs_store y))\<rparr>)"
    by (rule flow_step.outcome) (use won in \<open>auto simp: node_won_def\<close>)
qed simp

lemma goes_record_each:
  assumes env: "flow_env_ok foreign env" and P: "lasting foreign P" and won: "\<And>y. P y \<Longrightarrow> true_records records y"
  shows "goes foreign P (record_each env records gs) (\<lambda>k. P)"
proof (induction gs)
  case (Cons g gs)
  obtain st ep where g: "g = (st, ep)" by fastforce
  show ?case unfolding g record_each.simps
  proof (rule goes_bind)
    show "goes foreign P (writes env (\<lambda>c. record_nodes c st ep)
        (id_chunks env (map fst (filter (\<lambda>r. snd r = (st, ep)) records)))) (\<lambda>k. P)"
    proof (rule goes_writes [OF kept_lasting [OF env P]])
      fix y c assume y: "flow_inv foreign y" "P y" and c: "c \<in> set (id_chunks env (map fst (filter (\<lambda>r. snd r = (st, ep)) records)))"
      show "\<exists>y'. (flow_step foreign)\<^sup>*\<^sup>* y y' \<and> fs_store y' = snd (record_nodes c st ep (fs_store y)) \<and> P y'"
        by (rule outcome_go [OF P y]) (use won [OF y(2)] id_chunks_subset [OF c] in \<open>fastforce simp: true_records_def\<close>)
    qed
    show "goes foreign P (record_each env records gs \<bind> (\<lambda>j. State_Monad.return (k + j))) (\<lambda>k. P)" for k
      by (rule goes_bind [OF Cons.IH]) (auto intro: goes_return)
  qed
qed (auto intro: goes_return)

lemma goes_record_many:
  assumes "flow_env_ok foreign env" "lasting foreign P" "\<And>y. P y \<Longrightarrow> true_records records y"
  shows "goes foreign P (record_many env records) (\<lambda>k. P)"
  unfolding record_many_def by (rule goes_record_each [OF assms])

lemma goes_record_node_outcome:
  assumes env: "flow_env_ok foreign env" and P: "lasting foreign P" and won: "\<And>y. P y \<Longrightarrow> st = SUCCESSFUL \<Longrightarrow> k \<in> fs_won y"
  shows "goes foreign P (record_node_outcome env k st ep)
    (\<lambda>r y. P y \<and> (\<forall>ds. r = Some ds \<longrightarrow> set ds \<subseteq> fs_ids y))"
  unfolding record_node_outcome_def
proof (rule goes_bind)
  let ?F = "\<lambda>ps y. P y \<and> (\<forall>p \<in> set ps. st = SUCCESSFUL \<longrightarrow> node_won p y)"
  show "goes foreign P (read_stm env (\<lambda>s. map n_pk (filter (\<lambda>n. n_task n = k) (flow_nodes s)))) ?F"
  proof (rule goes_reading [OF kept_lasting [OF env P]], intro conjI ballI impI)
    fix y p assume y: "flow_inv foreign y" "P y" and p: "p \<in> set (map n_pk (filter (\<lambda>n. n_task n = k) (flow_nodes (fs_store y))))"
      and "st = SUCCESSFUL"
    with won [OF y(2)] node_won_iff [OF y(1)] show "node_won p y" by auto
  qed
  fix found :: "nat list"
  show "goes foreign (?F found) (case found of [] \<Rightarrow> State_Monad.return None
      | p # _ \<Rightarrow> record_outcome env p st ep \<bind> (\<lambda>_.
          if st \<noteq> SUCCESSFUL then State_Monad.return (Some [])
          else read_stm env (\<lambda>s. map (\<lambda>e. (e_pk e, e_down e)) (sort_key e_pk (filter (\<lambda>e. e_up e = k \<and> \<not> e_satisfied e) (flow_edges s))))
            \<bind> (\<lambda>pairs. mark_satisfied env (map fst pairs) \<bind> (\<lambda>_.
              State_Monad.return (Some (sort (remdups (map snd pairs))))))))
      (\<lambda>r y. P y \<and> (\<forall>ds. r = Some ds \<longrightarrow> set ds \<subseteq> fs_ids y))"
  proof (cases found)
    case Nil
    then show ?thesis by (auto intro: goes_return)
  next
    case (Cons p rest)
    let ?G = "\<lambda>ps y. P y \<and> (\<forall>q \<in> set ps. edge_won (fst q) y) \<and> (\<forall>q \<in> set ps. snd q \<in> fs_ids y)"
    have G: "lasting foreign (?G ps)" for ps :: "(nat \<times> uuid) list"
      by (intro lasting_conj P) (rule lasting_all, rule lasting_edge_won, rule lasting_all, rule lasting_ids)
    have F: "lasting foreign (?F [p])" by (rule lasting_conj [OF P]) (rule lasting_all, rule lasting_impl, rule lasting_node_won)
    have rec: "goes foreign (?F [p]) (record_outcome env p st ep) (\<lambda>b. P)"
      unfolding record_outcome_def
    proof (rule goes_bind [where R = "\<lambda>k. ?F [p]"])
      show "goes foreign (?F [p]) (writing env (record_nodes [p] st ep)) (\<lambda>k. ?F [p])"
        by (rule goes_writing [OF kept_lasting [OF env F]], rule outcome_go [OF F]) auto
    qed (auto intro: goes_return)
    have mark: "goes foreign (?G ps) (mark_satisfied env (map fst ps) \<bind> (\<lambda>_.
        State_Monad.return (Some (sort (remdups (map snd ps))))))
        (\<lambda>r y. P y \<and> (\<forall>ds. r = Some ds \<longrightarrow> set ds \<subseteq> fs_ids y))" for ps
      by (rule goes_bind [OF goes_mark_satisfied [OF kept_lasting [OF env G] G]]) (auto intro!: goes_return)
    have edges: "goes foreign P (read_stm env (\<lambda>s. map (\<lambda>e. (e_pk e, e_down e))
        (sort_key e_pk (filter (\<lambda>e. e_up e = k \<and> \<not> e_satisfied e) (flow_edges s))))) ?G" if "st = SUCCESSFUL"
    proof (rule goes_reading [OF kept_lasting [OF env P]], intro conjI ballI)
      fix y q assume y: "flow_inv foreign y" "P y" and q: "q \<in> set (map (\<lambda>e. (e_pk e, e_down e))
          (sort_key e_pk (filter (\<lambda>e. e_up e = k \<and> \<not> e_satisfied e) (flow_edges (fs_store y)))))"
      then obtain e where e: "e \<in> set (flow_edges (fs_store y))" "e_up e = k" "q = (e_pk e, e_down e)" by auto
      show "edge_won (fst q) y" using edge_won_iff [OF y(1) e(1)] won [OF y(2) that] e by simp
      show "snd q \<in> fs_ids y" using order_invD(11) [OF inv_facts(1) [OF y(1)] e(1)] order_invD(4) [OF inv_facts(1) [OF y(1)]] e by auto
    qed auto
    have "goes foreign (?F [p]) (record_outcome env p st ep \<bind> (\<lambda>_.
          if st \<noteq> SUCCESSFUL then State_Monad.return (Some [])
          else read_stm env (\<lambda>s. map (\<lambda>e. (e_pk e, e_down e)) (sort_key e_pk (filter (\<lambda>e. e_up e = k \<and> \<not> e_satisfied e) (flow_edges s))))
            \<bind> (\<lambda>pairs. mark_satisfied env (map fst pairs) \<bind> (\<lambda>_.
              State_Monad.return (Some (sort (remdups (map snd pairs))))))))
      (\<lambda>r y. P y \<and> (\<forall>ds. r = Some ds \<longrightarrow> set ds \<subseteq> fs_ids y))"
    proof (rule goes_bind [OF rec], rule goes_if)
      assume "\<not> st \<noteq> SUCCESSFUL"
      then show "goes foreign P (read_stm env (\<lambda>s. map (\<lambda>e. (e_pk e, e_down e))
          (sort_key e_pk (filter (\<lambda>e. e_up e = k \<and> \<not> e_satisfied e) (flow_edges s)))) \<bind> (\<lambda>pairs.
            mark_satisfied env (map fst pairs) \<bind> (\<lambda>_. State_Monad.return (Some (sort (remdups (map snd pairs)))))))
        (\<lambda>r y. P y \<and> (\<forall>ds. r = Some ds \<longrightarrow> set ds \<subseteq> fs_ids y))"
        using goes_bind [OF edges mark] by simp
    qed (auto intro: goes_return)
    then show ?thesis unfolding Cons list.case by (rule goes_weaken) auto
  qed
qed

section \<open>Cancelling\<close>

lemma discarded_allowed:
  assumes "status r \<in> {READY, WAITING}"
  shows "allowed foreign y r (discarded_at now r)"
  using assms by (auto simp: allowed_def row_simps asleep_def)

lemma cancel_chunks_go:
  assumes "cancel_chunks locking now (\<lambda>k. None) n cs (flow_rows (fs_store y)) = Inr (k, t)"
  shows "rows_go foreign y t"
  using assms
proof (induction cs arbitrary: n y k)
  case Nil
  then show ?case using rows_go_refl by auto
next
  case (Cons c cs)
  then obtain m j t1 i where
    l: "locked_update locking (\<lambda>k. None) n (pinned_rows c cancellable) (discarded_at now) (flow_rows (fs_store y)) = Inr (m, j, t1)"
    and r: "cancel_chunks locking now (\<lambda>k. None) m cs t1 = Inr (i, t)"
    by (auto simp: rbind_Inr_iff)
  obtain y1 where y1: "flow_step foreign y y1" "fs_store y1 = (fs_store y)\<lparr>flow_rows := t1\<rparr>"
  proof (rule rows_go_update [OF locked_update_Inr [OF l]])
    show "allowed foreign y r (discarded_at now r)" if "pinned_rows c cancellable r" for r
      using that by (intro discarded_allowed) (auto simp: pinned_rows_def cancellable_def)
  qed
  from y1 Cons.IH [of m y1 i] r have "rows_go foreign y1 t" by simp
  with y1 show ?case by (rule rows_go_trans)
qed

lemma cancel_pairs_go: "\<exists>t. snd (cancel_pairs env n pairs (fs_store y)) = (fs_store y)\<lparr>flow_rows := t\<rparr> \<and> rows_go foreign y t"
proof -
  let ?cs = "chunks update_chunk_size (fst (pinned (fe_mariadb env) (map (\<lambda>(k, ep). (Uuid k, ep)) pairs)))"
  obtain r t where run: "run_contended 1 (\<lambda>a. cancel_chunks (fe_row_locks env) (fe_now env n) (\<lambda>k. None) 0 ?cs) (\<lambda>a t. t)
      (flow_rows (fs_store y)) = (r, t)" by fastforce
  have "rows_go foreign y t"
  proof (cases r)
    case (Inr k)
    with quiet_attempt [OF run] show ?thesis by (auto intro: cancel_chunks_go)
  qed (use quiet_attempt [OF run] rows_go_refl in auto)
  with run show ?thesis by (auto simp: cancel_pairs_def cancel_many_def)
qed

lemma goes_doomed:
  assumes "kept foreign env P"
  shows "goes foreign P (doomed_upstreams env w) (\<lambda>r. P)"
  unfolding doomed_upstreams_def
  by (intro goes_bind [OF goes_reading [OF assms, where Q = "\<lambda>a. P"]] goes_bind [OF goes_reads_plain [OF assms]])
     (auto intro: goes_return)

lemma lock_goes:
  assumes "kept foreign env P"
  shows "goes foreign P (lock_in_key_order env skip present pks) (\<lambda>r. P)"
  by (rule goes_weaken [OF goes_lock [OF assms]]) auto

lemma goes_record_cancelled:
  assumes env: "flow_env_ok foreign env" and P: "lasting foreign P"
  shows "goes foreign P (record_cancelled env ids) (\<lambda>u. P)"
  unfolding record_cancelled_def
proof (rule goes_bind)
  let ?R = "\<lambda>r y. fst (snd r) \<noteq> SUCCESSFUL" and ?Q = "\<lambda>records y. P y \<and> (\<forall>r \<in> set records. fst (snd r) \<noteq> SUCCESSFUL)"
  show "goes foreign P (cancelled_records env (id_chunks env ids)) ?Q"
    unfolding cancelled_records_def
    by (rule goes_reads [OF kept_lasting [OF env P], where R = ?R])
       (auto simp: lasting_def List.map_filter_def split: option.splits if_splits)
  fix records :: records
  have Q: "lasting foreign (?Q records)" by (rule lasting_conj [OF P]) (simp add: lasting_def)
  show "goes foreign (?Q records) (lock_in_key_order env False node_pks (map fst records) \<bind> (\<lambda>_.
      record_many env records \<bind> (\<lambda>_. State_Monad.return ()))) (\<lambda>u. P)"
    by (rule goes_bind [OF lock_goes [OF kept_lasting [OF env Q]] goes_bind [OF goes_record_many [OF env Q]]])
       (auto intro: goes_return simp: true_records_def)
qed

lemma goes_cancel_one_level:
  assumes env: "flow_env_ok foreign env" and P: "lasting foreign P"
  shows "goes foreign P (cancel_one_level env w) (\<lambda>r. P)"
  unfolding cancel_one_level_def
proof -
  note kP = kept_lasting [OF env P]
  have rec: "goes foreign P ((if moved = 0 then State_Monad.return () else record_cancelled env ids) \<bind> (\<lambda>_.
      State_Monad.return (Inr moved))) (\<lambda>r. P)" for moved :: nat and ids
    by (rule goes_bind [where R = "\<lambda>u. P"], rule goes_if) (auto intro: goes_return goes_record_cancelled [OF env P])
  have w: "goes foreign P (writing_at env (\<lambda>n. cancel_pairs env n pairs)) (\<lambda>r. P)" for pairs
  proof (rule goes_writing_at [OF kP])
    fix y n assume y: "flow_inv foreign y" "P y"
    from cancel_pairs_go [of env n pairs y foreign] rows_go_lasting [OF _ P y]
    show "\<exists>y'. (flow_step foreign)\<^sup>*\<^sup>* y y' \<and> fs_store y' = snd (cancel_pairs env n pairs (fs_store y)) \<and> P y'" by auto
  qed
  have moves: "goes foreign P (if pairs = [] then State_Monad.return (Inr 0)
      else raising (writing_at env (\<lambda>n. cancel_pairs env n pairs)) (\<lambda>moved.
        (if moved = 0 then State_Monad.return () else record_cancelled env (map fst pairs)) \<bind> (\<lambda>_.
          State_Monad.return (Inr moved)))) (\<lambda>r. P)" for pairs
    by (rule goes_if [OF _ goes_raising [OF w rec]]) (auto intro: goes_return)
  show "goes foreign P (read_stm env (\<lambda>s. flow_status w s = Some SEALED) \<bind> (\<lambda>sealed.
      if \<not> sealed then State_Monad.return (Inr 0)
      else doomed_upstreams env w \<bind> (\<lambda>doomed.
        reads env (\<lambda>c s. map e_down (filter (\<lambda>e. e_workflow e = w \<and> \<not> e_satisfied e \<and> e_up e \<in> set c) (flow_edges s)))
          (id_chunks env (remdups doomed)) \<bind> (\<lambda>cone.
        reads env (\<lambda>c s. map (\<lambda>r. (pk r, lease_epoch r))
            (filter (\<lambda>r. pk r \<in> set c \<and> status r \<in> set cancellable_statuses) (flow_rows s)))
          (id_chunks env (remdups cone)) \<bind> (\<lambda>pairs.
        if pairs = [] then State_Monad.return (Inr 0)
        else raising (writing_at env (\<lambda>n. cancel_pairs env n pairs)) (\<lambda>moved.
          (if moved = 0 then State_Monad.return () else record_cancelled env (map fst pairs)) \<bind> (\<lambda>_.
            State_Monad.return (Inr moved)))))))) (\<lambda>r. P)"
    by (rule goes_bind [OF goes_reading [OF kP, where Q = "\<lambda>b. P"] goes_if [OF _
        goes_bind [OF goes_doomed [OF kP] goes_bind [OF goes_reads_plain [OF kP] goes_bind [OF goes_reads_plain [OF kP] moves]]]]])
       (auto intro: goes_return)
qed

lemma goes_cancel_levels:
  assumes env: "flow_env_ok foreign env" and P: "lasting foreign P"
  shows "goes foreign P (cancel_levels env w left) (\<lambda>r. P)"
proof (induction left)
  case (Suc left)
  have once: "goes foreign P (reissued_stm env True (transact env (cancel_one_level env w))) (\<lambda>r. P)"
    by (rule goes_reissued [OF goes_transact [OF kept_lasting [OF env P] goes_cancel_one_level [OF env P]]])
  have more: "goes foreign P (if moved = 0 then State_Monad.return (Inr 0)
      else raising (cancel_levels env w left) (\<lambda>more. State_Monad.return (Inr (moved + more)))) (\<lambda>r. P)" for moved :: nat
    by (rule goes_if [OF _ goes_raising [OF Suc]]) (auto intro: goes_return)
  show ?case unfolding cancel_levels.simps by (rule goes_raising [OF once more])
qed (auto intro: goes_return)

lemma goes_cancel_unreachable:
  assumes env: "flow_env_ok foreign env" and P: "lasting foreign P"
  shows "goes foreign P (cancel_unreachable env w) (\<lambda>r. P)"
  unfolding cancel_unreachable_def
  by (rule goes_bind [OF goes_reading [OF kept_lasting [OF env P], where Q = "\<lambda>b. P"] goes_if [OF goes_cancel_levels [OF env P]]])
     (auto intro: goes_return)

section \<open>Repair\<close>

lemma goes_repair_once:
  assumes env: "flow_env_ok foreign env" and P: "lasting foreign P"
  shows "goes foreign P (repair_records_once env w) (\<lambda>r y. P y \<and> (\<forall>ds. r = Inr ds \<longrightarrow> set ds \<subseteq> fs_ids y))"
  unfolding repair_records_once_def Let_def
proof (rule goes_bind)
  let ?R = "\<lambda>b y. fst (snd (snd b)) = SUCCESSFUL \<longrightarrow> node_won (fst b) y \<and> fst (snd b) \<in> fs_won y"
  let ?P = "\<lambda>bs y. P y \<and> (\<forall>b \<in> set bs. ?R b y)"
  have R: "lasting foreign (?R b)" for b by (rule lasting_impl, rule lasting_conj) auto
  show "goes foreign P (read_stm env (behind_nodes w)) ?P"
  proof (rule goes_reading [OF kept_lasting [OF env P]], intro conjI ballI)
    fix y b assume y: "flow_inv foreign y" "P y" and "b \<in> set (behind_nodes w (fs_store y))"
    then obtain n r where n: "n \<in> set (flow_nodes (fs_store y))" "fetch (n_task n) (flow_rows (fs_store y)) = Some r"
      "b = (n_pk n, n_task n, status r, lease_epoch r)"
      by (auto simp: behind_nodes_def nodes_of_def List.map_filter_def split: option.splits if_splits)
    then show "?R b y" using successful_won [OF inv_facts(1) [OF y(1)], of "n_task n"] node_won_iff [OF y(1) n(1)]
      by (auto simp: status_at_def)
  qed
  fix behind :: "(nat \<times> uuid \<times> status \<times> int) list"
  let ?records = "map (\<lambda>(p, k, st, ep). (p, st, ep)) behind"
  let ?ups = "map (\<lambda>(p, k, st, ep). k) (filter (\<lambda>(p, k, st, ep). st = SUCCESSFUL) behind)"
  have L: "lasting foreign (?P behind)" by (rule lasting_conj [OF P]) (rule lasting_all, rule R)
  note kL = kept_lasting [OF env L]
  let ?G = "\<lambda>ps y. ?P behind y \<and> (\<forall>q \<in> set ps. edge_won (fst q) y \<and> snd q \<in> fs_ids y)"
  have G: "lasting foreign (?G ps)" for ps :: "(nat \<times> uuid) list"
    by (rule lasting_conj [OF L]) (rule lasting_all, rule lasting_conj, rule lasting_edge_won, rule lasting_ids)
  have rec: "goes foreign (?P behind) (record_many env ?records) (\<lambda>k. ?P behind)"
    by (rule goes_record_many [OF env L]) (auto simp: true_records_def)
  have edges: "goes foreign (?P behind) (reads env (\<lambda>c s. map (\<lambda>e. (e_pk e, e_down e))
      (filter (\<lambda>e. e_up e \<in> set c \<and> \<not> e_satisfied e) (flow_edges s))) (id_chunks env ?ups)) ?G"
  proof (rule goes_reads [OF kL])
    fix y c q assume y: "flow_inv foreign y" "?P behind y" "c \<in> set (id_chunks env ?ups)"
      and "q \<in> set (map (\<lambda>e. (e_pk e, e_down e)) (filter (\<lambda>e. e_up e \<in> set c \<and> \<not> e_satisfied e) (flow_edges (fs_store y))))"
    then obtain e where e: "e \<in> set (flow_edges (fs_store y))" "e_up e \<in> set c" "q = (e_pk e, e_down e)" by auto
    from e(2) id_chunks_subset [OF y(3)] have "e_up e \<in> set ?ups" by blast
    then obtain b where "b \<in> set behind" "fst (snd (snd b)) = SUCCESSFUL" "fst (snd b) = e_up e" by auto
    with y(2) have "e_up e \<in> fs_won y" by metis
    then show "edge_won (fst q) y \<and> snd q \<in> fs_ids y"
      using edge_won_iff [OF y(1) e(1)] e order_invD(11) [OF inv_facts(1) [OF y(1)] e(1)] order_invD(4) [OF inv_facts(1) [OF y(1)]] by auto
  qed (rule lasting_conj, rule lasting_edge_won, rule lasting_ids)
  let ?Q = "\<lambda>r y. P y \<and> (\<forall>ds. r = Inr ds \<longrightarrow> set ds \<subseteq> fs_ids y)"
  have mark: "goes foreign (?G ps) (if ps = [] then State_Monad.return (Inr [])
      else lock_in_key_order env False edge_pks (map fst ps) \<bind> (\<lambda>_. mark_satisfied env (map fst ps) \<bind> (\<lambda>_.
        State_Monad.return (Inr (map snd ps))))) ?Q" for ps
    by (rule goes_if [OF _ goes_bind [OF lock_goes [OF kept_lasting [OF env G]]
          goes_bind [OF goes_mark_satisfied [OF kept_lasting [OF env G] G]]]]) (auto intro!: goes_return)
  have body: "goes foreign (?P behind) (lock_in_key_order env False node_pks (map fst ?records) \<bind> (\<lambda>_.
      record_many env ?records \<bind> (\<lambda>_. reads env (\<lambda>c s. map (\<lambda>e. (e_pk e, e_down e))
        (filter (\<lambda>e. e_up e \<in> set c \<and> \<not> e_satisfied e) (flow_edges s))) (id_chunks env ?ups) \<bind> (\<lambda>ps.
      if ps = [] then State_Monad.return (Inr [])
      else lock_in_key_order env False edge_pks (map fst ps) \<bind> (\<lambda>_. mark_satisfied env (map fst ps) \<bind> (\<lambda>_.
        State_Monad.return (Inr (map snd ps)))))))) ?Q"
    by (rule goes_bind [OF lock_goes [OF kL] goes_bind [OF rec goes_bind [OF edges mark]]])
  show "goes foreign (?P behind) (if behind = [] then State_Monad.return (Inr [])
      else transact env (lock_in_key_order env False node_pks (map fst ?records) \<bind> (\<lambda>_.
      record_many env ?records \<bind> (\<lambda>_. reads env (\<lambda>c s. map (\<lambda>e. (e_pk e, e_down e))
        (filter (\<lambda>e. e_up e \<in> set c \<and> \<not> e_satisfied e) (flow_edges s))) (id_chunks env ?ups) \<bind> (\<lambda>ps.
      if ps = [] then State_Monad.return (Inr [])
      else lock_in_key_order env False edge_pks (map fst ps) \<bind> (\<lambda>_. mark_satisfied env (map fst ps) \<bind> (\<lambda>_.
        State_Monad.return (Inr (map snd ps))))))))) ?Q"
    by (rule goes_if [OF _ goes_transact [OF kL body]]) (auto intro: goes_return)
qed

lemma goes_repair_records:
  assumes env: "flow_env_ok foreign env" and P: "lasting foreign P"
  shows "goes foreign P (repair_records env w) (\<lambda>r. P)"
  unfolding repair_records_def
proof (rule goes_raising)
  let ?Q = "\<lambda>r y. P y \<and> (\<forall>ds. r = Inr ds \<longrightarrow> set ds \<subseteq> fs_ids y)"
  show "goes foreign P (reissued_stm env True (repair_records_once env w)) ?Q"
    by (rule goes_reissued [OF goes_repair_once [OF env P]]) auto
  fix ds
  have Q: "lasting foreign (?Q (Inr ds))" by (rule lasting_conj [OF P]) (auto simp: lasting_def dest!: step_grows)
  have "goes foreign (?Q (Inr ds)) (raising (release_downstream env ds) (\<lambda>_. State_Monad.return (Inr ()))) (\<lambda>r. P)"
    by (rule goes_raising [OF goes_release_downstream [OF env Q]]) (auto intro: goes_return)
  then show "goes foreign (?Q (Inr ds)) (if ds = [] then State_Monad.return (Inr ())
      else raising (release_downstream env ds) (\<lambda>_. State_Monad.return (Inr ()))) (\<lambda>r. P)"
    by (auto intro: goes_return)
qed auto

end
