(* ===== verification/FlowFacts.thy ===== *)
theory FlowFacts
  imports FlowGoes
begin

text \<open>
  What the workflow operations do when nothing else commits: the release moves every waiting node whose edges
  are all marked and no other row, and one cancelling pass discards every node behind a dead upstream and no
  other row.
\<close>

section \<open>Statements nobody interrupts\<close>

definition quiet :: "flow_env \<Rightarrow> bool" where
  "quiet env = ((\<forall>n s. fe_others env n s = s) \<and> (\<forall>n. fe_fault env n = None))"

named_theorems quiet_runs

lemma run_bind [quiet_runs]:
  "run_state (m \<bind> k) c = (case run_state m c of (a, c') \<Rightarrow> run_state (k a) c')"
  by (simp add: State_Monad.bind_def)

lemma run_return [quiet_runs]: "run_state (State_Monad.return a) c = (a, c)"
  by (simp add: State_Monad.return_def)

lemma run_raising [quiet_runs]:
  "run_state (raising m k) c = (case run_state m c of (Inl e, c') \<Rightarrow> (Inl e, c') | (Inr a, c') \<Rightarrow> run_state (k a) c')"
  by (auto simp: raising_def quiet_runs split: prod.splits sum.splits)

lemma run_reading_at: "quiet env \<Longrightarrow> run_state (reading_at env f) (n, s) = (f n s, (n + 1, s))"
  by (simp add: reading_at_def quiet_def)

lemma run_reading [quiet_runs]: "quiet env \<Longrightarrow> run_state (read_stm env f) (n, s) = (f s, (n + 1, s))"
  by (simp add: read_stm_def run_reading_at)

lemma run_writing_at [quiet_runs]: "quiet env \<Longrightarrow> run_state (writing_at env f) (n, s) = (fst (f n s), (n + 1, snd (f n s)))"
  by (simp add: writing_at_def quiet_def split: prod.splits)

lemma run_writing [quiet_runs]: "quiet env \<Longrightarrow> run_state (writing env f) (n, s) = (fst (f s), (n + 1, snd (f s)))"
  by (simp add: writing_def run_writing_at)

lemma run_transact [quiet_runs]: "quiet env \<Longrightarrow> run_state (transact env body) (n, s) = run_state body (n + 1, s)"
  by (simp add: transact_def quiet_def)

lemma run_reads_at [quiet_runs]:
  "quiet env \<Longrightarrow> \<exists>m. run_state (reads_at env f cs) (n, s) = (concat (map (\<lambda>(i, c). f (n + i) c s) (enumerate 0 cs)), (m, s))"
proof (induction cs arbitrary: n)
  case Nil
  show ?case by (simp add: quiet_runs)
next
  case (Cons c cs)
  from Cons.IH [OF Cons.prems, of "n + 1"] obtain m where
    m: "run_state (reads_at env f cs) (n + 1, s) = (concat (map (\<lambda>(i, c). f (n + 1 + i) c s) (enumerate 0 cs)), (m, s))" by blast
  have "map (\<lambda>(i, c). f (n + i) c s) (enumerate (Suc 0) cs) = map (\<lambda>(i, c). f (n + 1 + i) c s) (enumerate 0 cs)"
    by (simp add: enumerate_Suc_eq split_beta)
  with m show ?case by (simp add: quiet_runs run_reading_at [OF Cons.prems])
qed

lemma run_reads:
  assumes "quiet env"
  obtains m where "run_state (reads env f cs) (n, s) = (concat (map (\<lambda>c. f c s) cs), (m, s))"
proof -
  from run_reads_at [OF assms, of "\<lambda>n. f" cs n s] obtain m where
    "run_state (reads_at env (\<lambda>n. f) cs) (n, s) = (concat (map (\<lambda>(i, c). f c s) (enumerate 0 cs)), (m, s))" by blast
  moreover have "map (\<lambda>(i, c). f c s) (enumerate j cs) = map (\<lambda>c. f c s) cs" for j
    by (induction cs arbitrary: j) auto
  ultimately show thesis using that by (simp add: reads_def)
qed

lemma run_lock:
  assumes "quiet env"
  obtains m xs where "run_state (lock_in_key_order env skip present pks) (n, s) = (xs, (m, s))"
proof (cases "fe_row_locks env")
  case True
  obtain xs m where "run_state (reads_at env (\<lambda>n c s. filter (\<lambda>p. p \<in> set (present s) \<and> \<not> (skip \<and> fe_skip_locked env
      \<and> fe_held env n p)) c) (id_chunks env (sort (remdups pks)))) (n, s) = (xs, (m, s))"
    using run_reads_at [OF assms] by blast
  with True show thesis by (intro that) (simp add: lock_in_key_order_def Let_def)
qed (use that in \<open>simp add: lock_in_key_order_def Let_def run_return\<close>)

section \<open>Release\<close>

text \<open>\<open>rows_changed P f t t'\<close>: the rows of \<open>P\<close>, and no other, changed, each to a value of \<open>f\<close>.\<close>

definition rows_changed :: "(ox_task \<Rightarrow> bool) \<Rightarrow> (nat \<Rightarrow> ox_task \<Rightarrow> ox_task) \<Rightarrow> table \<Rightarrow> table \<Rightarrow> bool" where
  "rows_changed P f t t' = list_all2 (\<lambda>r r'. if P r then \<exists>m. r' = f m r else r' = r) t t'"

lemma changed_none: "(\<And>r. r \<in> set t \<Longrightarrow> \<not> P r) \<Longrightarrow> rows_changed P f t t"
  by (auto simp: rows_changed_def intro!: list.rel_refl_strong)

lemma changed_once: "(\<And>r. r \<in> set t \<Longrightarrow> Q r = P r) \<Longrightarrow> rows_changed P f t (fst (update_where Q (f m) t))"
  by (auto simp: rows_changed_def update_where_def list_all2_map2 intro!: list.rel_refl_strong)

lemma changed_trans:
  assumes "rows_changed P f t t1" "rows_changed Q f t1 t2" and off: "\<And>r m. P r \<Longrightarrow> \<not> Q (f m r)" and R: "\<And>r. R r = (P r \<or> Q r)"
  shows "rows_changed R f t t2"
  using assms(1,2) unfolding rows_changed_def
  by (rule list_all2_trans [rotated -2]) (use off R in \<open>auto split: if_splits\<close>)

lemma locked_quiet: "locked_update locking (\<lambda>k. None) n P f t = Inr (if locking then n + 2 else n + 1, snd (update_where P f t), fst (update_where P f t))"
  by (simp add: locked_update_def Let_def split: prod.splits)

lemma quiet_runs_once:
  "body 1 s = Inr (a, s') \<Longrightarrow> run_contended 1 body others s = (Inr a, s')"
  by (simp add: run_contended_def run_from.simps)

lemma release_chunks_quiet:
  assumes "distinct (map fst (concat cs))"
  shows "\<exists>k. release_chunks locking 1 (\<lambda>i a k. None) (\<lambda>i a t. t) now i cs t
    = (Inr k, fst (update_where (pins (set (concat cs)) {WAITING}) (released now) t))"
  using assms
proof (induction cs arbitrary: i t)
  case Nil then show ?case by (simp add: pins_empty)
next
  case (Cons c cs)
  note d0 = chunk_keys [OF Cons.prems [unfolded concat.simps]]
  then have d: "distinct (map fst c)" "distinct (map fst (concat cs))" "fst ` set c \<inter> fst ` set (concat cs) = {}" by blast+
  have pin: "pinned_rows c [WAITING] = pins (set c) {WAITING}" by (rule ext) (simp add: pinned_rows_pins [OF d(1)])
  obtain t1 j where u: "update_where (pins (set c) {WAITING}) (released now) t = (t1, j)" by fastforce
  have one: "run_contended 1 (\<lambda>a s. release_chunk locking now c (\<lambda>k. None) s) (\<lambda>a t. t) t = (Inr j, t1)"
    by (rule quiet_runs_once) (simp add: release_chunk_def locked_quiet pin u rbind_def)
  from Cons.IH [OF d(2), of "i + 1" t1] obtain k where
    rest: "release_chunks locking 1 (\<lambda>i a k. None) (\<lambda>i a t. t) now (i + 1) cs t1
      = (Inr k, fst (update_where (pins (set (concat cs)) {WAITING}) (released now) t1))" by blast
  obtain t2 j2 where u2: "update_where (pins (set (concat cs)) {WAITING}) (released now) t1 = (t2, j2)" by fastforce
  from pins_Un [OF _ d(3) u u2] have "update_where (pins (set c \<union> set (concat cs)) {WAITING}) (released now) t = (t2, j + j2)"
    by (simp add: row_simps)
  with one rest u2 show ?case by simp
qed

lemma pinned_rows_of:
  assumes wf: "wf_table t" and r: "r \<in> set t"
    and pairs: "set pairs = (\<lambda>r. (pk r, lease_epoch r)) ` {r \<in> set t. P r}"
  shows "(pk r, lease_epoch r) \<in> set (fst (pinned m (map (\<lambda>(k, ep). (Uuid k, ep)) pairs))) \<longleftrightarrow> P r"
proof
  have same: "q = r" if "q \<in> set t" "pk q = pk r" for q
    using wf r that by (auto simp: wf_table_def distinct_map inj_on_def)
  let ?given = "map (\<lambda>(k, ep). (Uuid k, ep)) pairs"
  have member: "(k, e) \<in> set (fst (pinned m ?given)) \<Longrightarrow> (k, e) \<in> set pairs" for k e
    using pinned_member [of k e m ?given] by (auto simp: pk_of_def)
  show "P r" if "(pk r, lease_epoch r) \<in> set (fst (pinned m ?given))"
    using member [OF that] same unfolding pairs by auto
  assume "P r"
  with r have "(pk r, lease_epoch r) \<in> set pairs" unfolding pairs by auto
  then have "pk r \<in> fst ` set (List.map_filter usable ?given)"
    by (force simp: List.map_filter_def usable_def pk_of_def)
  then have "pk r \<in> fst ` set (fst (pinned m ?given))" by (simp add: pinned_def)
  then obtain e where e: "(pk r, e) \<in> set (fst (pinned m ?given))" by force
  from member [OF this] same have "e = lease_epoch r" unfolding pairs by auto
  with e show "(pk r, lease_epoch r) \<in> set (fst (pinned m ?given))" by simp
qed

definition unblocked :: "flow \<Rightarrow> uuid \<Rightarrow> bool" where
  "unblocked s k = (\<forall>e \<in> set (flow_edges s). e_down e = k \<longrightarrow> e_satisfied e)"

definition ripe :: "flow \<Rightarrow> uuid list \<Rightarrow> ox_task \<Rightarrow> bool" where
  "ripe s ids r = (pk r \<in> set ids \<and> status r = WAITING \<and> unblocked s (pk r))"

text \<open>\<open>frees env m ids Q\<close>: \<open>m\<close> succeeds with a value of \<open>Q\<close>, and moves the ripe rows of \<open>ids\<close> and nothing else.\<close>

definition frees :: "flow_env \<Rightarrow> (failure + 'a) stm \<Rightarrow> uuid list \<Rightarrow> ('a \<Rightarrow> bool) \<Rightarrow> bool" where
  "frees env m ids Q = (\<forall>n s. wf_table (flow_rows s) \<longrightarrow> (\<exists>a k t. run_state m (n, s) = (Inr a, (k, s\<lparr>flow_rows := t\<rparr>))
     \<and> Q a \<and> rows_changed (ripe s ids) (\<lambda>k. released (fe_now env k)) (flow_rows s) t))"

lemma freesE:
  assumes "frees env m ids Q" "wf_table (flow_rows s)"
  obtains a k t where "run_state m (n, s) = (Inr a, (k, s\<lparr>flow_rows := t\<rparr>))" "Q a"
    "rows_changed (ripe s ids) (\<lambda>k. released (fe_now env k)) (flow_rows s) t"
  using assms unfolding frees_def by blast

lemma freesI:
  assumes "\<And>n s. wf_table (flow_rows s) \<Longrightarrow> \<exists>a k t. run_state m (n, s) = (Inr a, (k, s\<lparr>flow_rows := t\<rparr>))
     \<and> Q a \<and> rows_changed (ripe s ids) (\<lambda>k. released (fe_now env k)) (flow_rows s) t"
  shows "frees env m ids Q"
  using assms unfolding frees_def by blast

lemma changed_pks:
  assumes "rows_changed P (\<lambda>k. released (g k)) t t'"
  shows "map pk t' = map pk t"
  using assms unfolding rows_changed_def
  by (induction rule: list_all2_induct) (auto simp: row_simps split: if_splits)

lemma release_pairs_quiet:
  assumes "wf_table (flow_rows s)" "set pairs = (\<lambda>r. (pk r, lease_epoch r)) ` {r \<in> set (flow_rows s). ripe s ids r}"
  shows "\<exists>a t. release_pairs env n pairs s = (Inr a, s\<lparr>flow_rows := t\<rparr>)
    \<and> rows_changed (ripe s ids) (\<lambda>k. released (fe_now env k)) (flow_rows s) t"
proof -
  let ?ps = "fst (pinned (fe_mariadb env) (map (\<lambda>(k, ep). (Uuid k, ep)) pairs))"
  let ?t = "fst (update_where (pins (set ?ps) {WAITING}) (released (fe_now env n)) (flow_rows s))"
  have cs: "concat (chunks update_chunk_size ?ps) = ?ps" by (simp add: concat_chunks update_chunk_size_def)
  obtain k where "release_chunks (fe_row_locks env) 1 (\<lambda>i a k. None) (\<lambda>i a t. t) (fe_now env n) 0
      (chunks update_chunk_size ?ps) (flow_rows s) = (Inr k, ?t)"
    using release_chunks_quiet [of "chunks update_chunk_size ?ps" "fe_row_locks env" "fe_now env n" 0 "flow_rows s"]
    unfolding cs by auto
  then have "\<exists>a. release_pairs env n pairs s = (Inr a, s\<lparr>flow_rows := ?t\<rparr>)"
    by (auto simp: release_pairs_def release_many_def counted_def Let_def split: prod.splits)
  moreover have "rows_changed (ripe s ids) (\<lambda>k. released (fe_now env k)) (flow_rows s) ?t"
  proof (rule changed_once)
    fix r assume r: "r \<in> set (flow_rows s)"
    from pinned_rows_of [OF assms(1) r assms(2)] show "pins (set ?ps) {WAITING} r = ripe s ids r"
      by (auto simp: pins_def ripe_def)
  qed
  ultimately show ?thesis by blast
qed

lemma frees_nodes:
  assumes q: "quiet env"
  shows "frees env (release_nodes env chunk) chunk (\<lambda>a. True)"
proof (rule freesI)
  fix n and s :: flow assume wf: "wf_table (flow_rows s)"
  let ?free = "filter (\<lambda>k. k \<notin> set (map e_down (open_edges_into chunk s))) chunk"
  let ?pairs = "map (\<lambda>r. (pk r, lease_epoch r)) (filter (\<lambda>r. pk r \<in> set ?free \<and> status r = WAITING) (flow_rows s))"
  have ripe: "pk r \<in> set ?free \<and> status r = WAITING \<longleftrightarrow> ripe s chunk r" for r
    unfolding ripe_def unblocked_def open_edges_into_def by (auto simp: image_iff; metis)
  show "\<exists>a k t. run_state (release_nodes env chunk) (n, s) = (Inr a, (k, s\<lparr>flow_rows := t\<rparr>))
      \<and> True \<and> rows_changed (ripe s chunk) (\<lambda>k. released (fe_now env k)) (flow_rows s) t"
  proof (cases "?pairs = []")
    case True
    have m: "rows_changed (ripe s chunk) (\<lambda>k. released (fe_now env k)) (flow_rows s) (flow_rows s)"
      by (rule changed_none) (use True ripe in \<open>auto simp: filter_empty_conv\<close>)
    have "\<exists>a k. run_state (release_nodes env chunk) (n, s) = (Inr a, (k, s))"
      using True by (simp add: release_nodes_def Let_def quiet_runs q)
    then obtain a k where "run_state (release_nodes env chunk) (n, s) = (Inr a, (k, s))" by blast
    with m show ?thesis by (intro exI [of _ a] exI [of _ k] exI [of _ "flow_rows s"]) simp
  next
    case False
    then have free: "?free \<noteq> []" by (auto simp: filter_empty_conv)
    have "set ?pairs = (\<lambda>r. (pk r, lease_epoch r)) ` {r \<in> set (flow_rows s). ripe s chunk r}" using ripe by auto
    from release_pairs_quiet [OF wf this, of env "n + 2"] obtain a t where
      "release_pairs env (n + 2) ?pairs s = (Inr a, s\<lparr>flow_rows := t\<rparr>)"
      "rows_changed (ripe s chunk) (\<lambda>k. released (fe_now env k)) (flow_rows s) t" by blast
    moreover have "run_state (release_nodes env chunk) (n, s)
        = (fst (release_pairs env (n + 2) ?pairs s), (n + 3, snd (release_pairs env (n + 2) ?pairs s)))"
      using free False by (simp add: release_nodes_def Let_def quiet_runs q)
    ultimately show ?thesis by auto
  qed
qed

lemma frees_transact:
  assumes "quiet env" "frees env m ids Q"
  shows "frees env (transact env m) ids Q"
  using assms unfolding frees_def by (simp add: quiet_runs)

lemma frees_try:
  assumes q: "quiet env"
  shows "frees env (release_try env chunk (Suc left)) chunk (\<lambda>a. a \<noteq> None)"
proof (rule freesI)
  fix n and s :: flow assume "wf_table (flow_rows s)"
  from freesE [OF frees_transact [OF q frees_nodes [OF q]] this, of chunk n] obtain a k t where
    "run_state (transact env (release_nodes env chunk)) (n, s) = (Inr a, (k, s\<lparr>flow_rows := t\<rparr>))"
    "rows_changed (ripe s chunk) (\<lambda>k. released (fe_now env k)) (flow_rows s) t" by blast
  then show "\<exists>a k t. run_state (release_try env chunk (Suc left)) (n, s) = (Inr a, (k, s\<lparr>flow_rows := t\<rparr>))
      \<and> a \<noteq> None \<and> rows_changed (ripe s chunk) (\<lambda>k. released (fe_now env k)) (flow_rows s) t"
    unfolding release_try.simps by (intro exI [of _ "Some a"] exI [of _ k] exI [of _ t]) (simp add: run_bind run_return)
qed

text \<open>Two releases in a row, over the chunks of the first and of the second.\<close>

lemma frees_then:
  assumes m: "frees env m c Q" and k: "\<And>a. Q a \<Longrightarrow> frees env (k a) ids R"
  shows "frees env (raising m k) (c @ ids) R"
proof (rule freesI)
  fix n and s :: flow assume wf: "wf_table (flow_rows s)"
  from freesE [OF m wf, of n] obtain a n1 t1 where
    one: "run_state m (n, s) = (Inr a, (n1, s\<lparr>flow_rows := t1\<rparr>))" "Q a"
      "rows_changed (ripe s c) (\<lambda>k. released (fe_now env k)) (flow_rows s) t1" .
  have "wf_table (flow_rows (s\<lparr>flow_rows := t1\<rparr>))" using changed_pks [OF one(3)] wf by (simp add: wf_table_def)
  from freesE [OF k [OF one(2)] this, of n1] obtain b n2 t2 where
    two: "run_state (k a) (n1, s\<lparr>flow_rows := t1\<rparr>) = (Inr b, (n2, s\<lparr>flow_rows := t1, flow_rows := t2\<rparr>))" "R b"
      "rows_changed (ripe (s\<lparr>flow_rows := t1\<rparr>) ids) (\<lambda>k. released (fe_now env k)) t1 t2" by auto
  have same: "ripe (s\<lparr>flow_rows := t1\<rparr>) ids = ripe s ids" by (rule ext) (simp add: ripe_def unblocked_def)
  have "rows_changed (ripe s (c @ ids)) (\<lambda>k. released (fe_now env k)) (flow_rows s) t2"
    by (rule changed_trans [OF one(3) two(3) [unfolded same]]) (auto simp: ripe_def row_simps)
  with one(1) two(1,2) show "\<exists>a k' t. run_state (raising m k) (n, s) = (Inr a, (k', s\<lparr>flow_rows := t\<rparr>))
      \<and> R a \<and> rows_changed (ripe s (c @ ids)) (\<lambda>k. released (fe_now env k)) (flow_rows s) t"
    by (auto simp: run_raising)
qed

lemma frees_return: "Q a \<Longrightarrow> frees env (State_Monad.return (Inr a)) [] Q"
proof (rule freesI)
  fix n and s :: flow assume "Q a"
  moreover have "rows_changed (ripe s []) (\<lambda>k. released (fe_now env k)) (flow_rows s) (flow_rows s)" by (rule changed_none) (simp add: ripe_def)
  ultimately show "\<exists>b k t. run_state (State_Monad.return (Inr a)) (n, s) = (Inr b, (k, s\<lparr>flow_rows := t\<rparr>))
      \<and> Q b \<and> rows_changed (ripe s []) (\<lambda>k. released (fe_now env k)) (flow_rows s) t"
    by (intro exI [of _ a] exI [of _ n] exI [of _ "flow_rows s"]) (simp add: run_return)
qed

lemma frees_set: "frees env m xs Q \<Longrightarrow> set xs = set ys \<Longrightarrow> frees env m ys Q"
  unfolding frees_def ripe_def by simp

lemma frees_each:
  assumes q: "quiet env"
  shows "frees env (release_each env cs) (concat cs) (\<lambda>a. snd a = [])"
proof (induction cs)
  case Nil
  show ?case unfolding release_each.simps concat.simps by (rule frees_return) simp
next
  case (Cons c cs)
  show ?case unfolding release_each.simps concat.simps
  proof (rule frees_then)
    show "frees env (release_try env c release_chunk_attempts) c (\<lambda>a. a \<noteq> None)"
      using frees_try [OF q, of c 1] by (simp add: release_chunk_attempts_def numeral_2_eq_2 del: release_try.simps)
  next
    fix moved :: "nat option" assume "moved \<noteq> None"
    then obtain k where k: "moved = Some k" by blast
    have "frees env (raising (release_each env cs) (\<lambda>(released, deferred).
        State_Monad.return (Inr (k + released, deferred)))) (concat cs @ []) (\<lambda>a. snd a = [])"
      by (rule frees_then [OF Cons.IH]) (auto intro: frees_return)
    then show "frees env (raising (release_each env cs) (\<lambda>(released, deferred). State_Monad.return (Inr (case moved of
        Some k \<Rightarrow> (k + released, deferred) | None \<Rightarrow> (released, c @ deferred))))) (concat cs) (\<lambda>a. snd a = [])"
      by (simp add: k)
  qed
qed

lemma frees_in_caller:
  assumes q: "quiet env"
  shows "frees env (release_in_caller env cs) (concat cs) (\<lambda>a. True)"
proof (induction cs)
  case Nil
  show ?case unfolding release_in_caller.simps concat.simps by (rule frees_return) simp
next
  case (Cons c cs)
  have "frees env (raising (release_in_caller env cs) (\<lambda>j. State_Monad.return (Inr (k + j)))) (concat cs @ []) (\<lambda>a. True)" for k
    by (rule frees_then [OF Cons.IH]) (auto intro: frees_return)
  then show ?case unfolding release_in_caller.simps concat.simps
    by (intro frees_then [OF frees_transact [OF q frees_nodes [OF q]]]) simp
qed

lemma frees_downstream:
  assumes q: "quiet env"
  shows "frees env (release_downstream env ids) ids (\<lambda>a. True)"
proof -
  have c: "set (concat (id_chunks env (remdups ids))) = set ids" by (simp add: id_chunks_concat)
  have "frees env (raising (release_each env (id_chunks env (remdups ids))) (\<lambda>(k, d).
      (if d = [] then State_Monad.return () else queue_skipped env d) \<bind> (\<lambda>_. State_Monad.return (Inr k))))
      (concat (id_chunks env (remdups ids)) @ []) (\<lambda>a. True)"
  proof (rule frees_then [OF frees_each [OF q]])
    fix a :: "nat \<times> uuid list" assume "snd a = []"
    then show "frees env (case a of (k, d) \<Rightarrow> (if d = [] then State_Monad.return () else queue_skipped env d)
        \<bind> (\<lambda>_. State_Monad.return (Inr k))) [] (\<lambda>a. True)"
      using frees_return [of "\<lambda>a. True" "fst a" env] by (cases a) (simp add: frees_def run_bind run_return)
  qed
  then have own: "frees env (raising (release_each env (id_chunks env (remdups ids))) (\<lambda>(k, d).
      (if d = [] then State_Monad.return () else queue_skipped env d) \<bind> (\<lambda>_. State_Monad.return (Inr k)))) ids (\<lambda>a. True)"
    by (rule frees_set) (use c in simp)
  have caller: "frees env (release_in_caller env (id_chunks env (remdups ids))) ids (\<lambda>a. True)"
    by (rule frees_set [OF frees_in_caller [OF q]]) (rule c)
  show ?thesis unfolding release_downstream_def
    using own caller frees_return [of "\<lambda>a. True" 0 env] by (auto simp: frees_def)
qed

section \<open>One cancelling pass\<close>

lemma cancel_chunks_quiet: "\<exists>j t'. cancel_chunks locking now (\<lambda>k. None) n cs t = Inr (j, t')"
proof (induction cs arbitrary: n t)
  case (Cons c cs)
  from Cons.IH [of "if locking then n + 2 else n + 1" "fst (update_where (pinned_rows c cancellable) (discarded_at now) t)"]
  show ?case by (auto simp: locked_quiet rbind_def)
qed simp

lemma cancel_pairs_quiet:
  assumes "wf_table (flow_rows s)" "set pairs = (\<lambda>r. (pk r, lease_epoch r)) ` {r \<in> set (flow_rows s). P r}"
    and P: "\<And>r. P r \<Longrightarrow> status r \<in> {READY, WAITING}"
  shows "\<exists>t. cancel_pairs env n pairs s = (Inr (length (filter P (flow_rows s))), s\<lparr>flow_rows := t\<rparr>)
    \<and> rows_changed P (\<lambda>k. discarded_at (fe_now env k)) (flow_rows s) t"
proof -
  let ?ps = "fst (pinned (fe_mariadb env) (map (\<lambda>(k, ep). (Uuid k, ep)) pairs))"
  let ?cs = "chunks update_chunk_size ?ps"
  have cs: "concat ?cs = ?ps" by (simp add: concat_chunks update_chunk_size_def)
  have pins: "pins (set ?ps) {READY, WAITING} r = P r" if "r \<in> set (flow_rows s)" for r
    using pinned_rows_of [OF assms(1) that assms(2)] P by (auto simp: pins_def)
  obtain j t where c: "cancel_chunks (fe_row_locks env) (fe_now env n) (\<lambda>k. None) 0 ?cs (flow_rows s) = Inr (j, t)"
    using cancel_chunks_quiet by metis
  from cancel_chunks_Inr [OF c] cs have u: "update_where (pins (set ?ps) {READY, WAITING}) (discarded_at (fe_now env n)) (flow_rows s) = (t, j)"
    by simp
  have "j = length (filter P (flow_rows s))" using u pins by (auto simp: update_where_def cong: filter_cong)
  moreover have "rows_changed P (\<lambda>k. discarded_at (fe_now env k)) (flow_rows s) t"
  proof -
    have "rows_changed P (\<lambda>k. discarded_at (fe_now env k)) (flow_rows s)
        (fst (update_where (pins (set ?ps) {READY, WAITING}) ((\<lambda>k. discarded_at (fe_now env k)) n) (flow_rows s)))"
      by (rule changed_once) (rule pins)
    then show ?thesis by (simp add: u)
  qed
  moreover have "cancel_pairs env n pairs s = (Inr j, s\<lparr>flow_rows := t\<rparr>)"
    using c quiet_runs_once [of "\<lambda>a. cancel_chunks (fe_row_locks env) (fe_now env n) (\<lambda>k. None) 0 ?cs" "flow_rows s"]
    by (simp add: cancel_pairs_def cancel_many_def)
  ultimately show ?thesis by blast
qed

text \<open>Operations that leave the task rows and the edges alone.\<close>

definition rows_kept :: "'a stm \<Rightarrow> bool" where
  "rows_kept m = (\<forall>n s. flow_rows (snd (snd (run_state m (n, s)))) = flow_rows s
     \<and> flow_edges (snd (snd (run_state m (n, s)))) = flow_edges s)"

lemma rows_kept_bind: "rows_kept m \<Longrightarrow> (\<And>a. rows_kept (k a)) \<Longrightarrow> rows_kept (State_Monad.bind m k)"
  unfolding rows_kept_def by (auto simp: run_bind split: prod.splits) (metis fst_conv snd_conv)+

lemma rows_kept_return: "rows_kept (State_Monad.return a)"
  by (simp add: rows_kept_def run_return)

lemma rows_kept_reads_at: "quiet env \<Longrightarrow> rows_kept (reads_at env f cs)"
  unfolding rows_kept_def by (metis run_reads_at snd_conv)

lemma rows_kept_lock: "quiet env \<Longrightarrow> rows_kept (lock_in_key_order env skip present pks)"
  unfolding lock_in_key_order_def Let_def by (simp add: rows_kept_reads_at rows_kept_return)

lemma rows_kept_record_writes: "quiet env \<Longrightarrow> rows_kept (writes env (\<lambda>c. record_nodes c st ep) cs)"
proof (induction cs)
  case (Cons c cs)
  have "rows_kept (writing env (record_nodes c st ep))"
    unfolding rows_kept_def by (simp add: run_writing [OF Cons.prems] record_nodes_def)
  with Cons show ?case by (auto intro!: rows_kept_bind rows_kept_return)
qed (simp add: rows_kept_return)

lemma rows_kept_record_each: "quiet env \<Longrightarrow> rows_kept (record_each env records gs)"
proof (induction gs)
  case (Cons g gs)
  then show ?case by (cases g) (auto intro!: rows_kept_bind rows_kept_return rows_kept_record_writes)
qed (simp add: rows_kept_return)

lemma rows_kept_record_cancelled: "quiet env \<Longrightarrow> rows_kept (record_cancelled env ids)"
  unfolding record_cancelled_def cancelled_records_def reads_def record_many_def
  by (intro rows_kept_bind rows_kept_return rows_kept_reads_at rows_kept_lock rows_kept_record_each)

lemma rows_by_chunk:
  "set (concat (map (\<lambda>c. map h (filter (\<lambda>r. f r \<in> set c \<and> Q r) xs)) cs)) = h ` {r \<in> set xs. f r \<in> \<Union> (set ` set cs) \<and> Q r}"
  by (induction cs) auto

definition doomed_row :: "uuid \<Rightarrow> flow \<Rightarrow> ox_task \<Rightarrow> bool" where
  "doomed_row w s r = (\<exists>e \<in> set (cancellable_edges w s). e_down e = pk r)"

lemma cancellable_edge:
  "e \<in> set (cancellable_edges w s) \<longleftrightarrow> e \<in> set (flow_edges s) \<and> e_workflow e = w \<and> \<not> e_satisfied e \<and> dead_at (e_up e) s
    \<and> (\<exists>st \<in> set cancellable_statuses. status_at (e_down e) s = Some st)"
  by (cases "status_at (e_down e) s") (auto simp: cancellable_edges_def)

lemma cancellable_dead: "e \<in> set (cancellable_edges w s) \<Longrightarrow> dead_at (e_up e) s"
  by (simp add: cancellable_edge)

lemma doomed_upstreams_quiet:
  assumes q: "quiet env"
  obtains m ks where "run_state (doomed_upstreams env w) (n, s) = (ks, (m, s))"
    "set ks = e_up ` set (cancellable_edges w s)"
proof -
  let ?cand = "map (\<lambda>e. (e_up e, status_at (e_up e) s \<noteq> None)) (cancellable_edges w s)"
  let ?f = "\<lambda>c s. filter (\<lambda>k. case status_at k s of Some st \<Rightarrow> st \<in> set dead_statuses | None \<Rightarrow> False) c"
  let ?g = "\<lambda>c s. filter (\<lambda>k. case record_at k s of Some st \<Rightarrow> st \<in> set dead_statuses | None \<Rightarrow> False) c"
  let ?fs = "id_chunks env (remdups (map fst (filter snd ?cand)))"
  let ?gs = "id_chunks env (remdups (map fst (filter (Not \<circ> snd) ?cand)))"
  obtain m1 where f: "run_state (reads env ?f ?fs) (n + 1, s) = (concat (map (\<lambda>c. ?f c s) ?fs), (m1, s))"
    using run_reads [OF q] by blast
  obtain m2 where g: "run_state (reads env ?g ?gs) (m1, s) = (concat (map (\<lambda>c. ?g c s) ?gs), (m2, s))"
    using run_reads [OF q] by blast
  have cc: "\<Union> (set ` set (id_chunks env xs)) = set xs" for xs :: "uuid list"
    using arg_cong [OF id_chunks_concat [of env xs], of set] by simp
  have F: "set (concat (map (\<lambda>c. filter Q c) (id_chunks env xs))) = {k \<in> set xs. Q k}" for Q and xs :: "uuid list"
    using cc [of xs] by auto
  have "e_up e \<in> set (concat (map (\<lambda>c. ?f c s) ?fs)) \<union> set (concat (map (\<lambda>c. ?g c s) ?gs))"
    if e: "e \<in> set (cancellable_edges w s)" for e
  proof (cases "status_at (e_up e) s")
    case None
    from e have "e_up e \<in> set (map fst (filter (Not \<circ> snd) ?cand))" using None by force
    with None cancellable_dead [OF e] show ?thesis unfolding F by (auto simp: dead_at_def)
  next
    case (Some st)
    from e have "e_up e \<in> set (map fst (filter snd ?cand))" using Some by force
    with Some cancellable_dead [OF e] show ?thesis unfolding F by (auto simp: dead_at_def)
  qed
  moreover have "set (concat (map (\<lambda>c. ?f c s) ?fs)) \<union> set (concat (map (\<lambda>c. ?g c s) ?gs)) \<subseteq> e_up ` set (cancellable_edges w s)"
    unfolding F by auto
  ultimately have "set (concat (map (\<lambda>c. ?f c s) ?fs) @ concat (map (\<lambda>c. ?g c s) ?gs)) = e_up ` set (cancellable_edges w s)"
    unfolding set_append by blast
  moreover have "run_state (doomed_upstreams env w) (n, s) = (concat (map (\<lambda>c. ?f c s) ?fs) @ concat (map (\<lambda>c. ?g c s) ?gs), (m2, s))"
    unfolding doomed_upstreams_def run_bind run_reading [OF q] prod.case f g run_return ..
  ultimately show thesis using that by blast
qed

lemma cancel_level_quiet:
  assumes q: "quiet env" and wf: "wf_table (flow_rows s)" and sealed: "flow_status w s = Some SEALED"
  shows "\<exists>m s'. run_state (cancel_one_level env w) (n, s) = (Inr (length (filter (doomed_row w s) (flow_rows s))), (m, s'))
    \<and> rows_changed (doomed_row w s) (\<lambda>k. discarded_at (fe_now env k)) (flow_rows s) (flow_rows s') \<and> flow_edges s' = flow_edges s"
proof -
  obtain m1 ks where d: "run_state (doomed_upstreams env w) (n + 1, s) = (ks, (m1, s))"
    "set ks = e_up ` set (cancellable_edges w s)" by (rule doomed_upstreams_quiet [OF q])
  let ?f = "\<lambda>c s. map e_down (filter (\<lambda>e. e_workflow e = w \<and> \<not> e_satisfied e \<and> e_up e \<in> set c) (flow_edges s))"
  let ?cone = "concat (map (\<lambda>c. ?f c s) (id_chunks env (remdups ks)))"
  obtain m2 where f: "run_state (reads env ?f (id_chunks env (remdups ks))) (m1, s) = (?cone, (m2, s))"
    using run_reads [OF q] by blast
  let ?g = "\<lambda>c s. map (\<lambda>r. (pk r, lease_epoch r)) (filter (\<lambda>r. pk r \<in> set c \<and> status r \<in> set cancellable_statuses) (flow_rows s))"
  let ?pairs = "concat (map (\<lambda>c. ?g c s) (id_chunks env (remdups ?cone)))"
  obtain m3 where g: "run_state (reads env ?g (id_chunks env (remdups ?cone))) (m2, s) = (?pairs, (m3, s))"
    using run_reads [OF q] by blast
  have cc: "\<Union> (set ` set (id_chunks env xs)) = set xs" for xs :: "uuid list"
    using arg_cong [OF id_chunks_concat [of env xs], of set] by simp
  have in_chunk: "(\<exists>c \<in> set (id_chunks env xs). k \<in> set c) \<longleftrightarrow> k \<in> set xs" for k and xs :: "uuid list"
    using cc [of xs] by blast
  have cone: "k \<in> set ?cone \<longleftrightarrow> (\<exists>e \<in> set (flow_edges s). e_workflow e = w \<and> \<not> e_satisfied e \<and> e_up e \<in> set ks \<and> e_down e = k)" for k
    using in_chunk [of "remdups ks"] by auto
  have doomed: "r \<in> set (flow_rows s) \<Longrightarrow> doomed_row w s r \<longleftrightarrow> pk r \<in> set ?cone \<and> status r \<in> set cancellable_statuses" for r
  proof
    assume r: "r \<in> set (flow_rows s)"
    note at = status_at_row [OF wf r]
    show "pk r \<in> set ?cone \<and> status r \<in> set cancellable_statuses" if "doomed_row w s r"
      using that at unfolding cone doomed_row_def d(2) by (auto simp: cancellable_edge)
    assume c: "pk r \<in> set ?cone \<and> status r \<in> set cancellable_statuses"
    then obtain e x where e: "e \<in> set (flow_edges s)" "e_workflow e = w" "\<not> e_satisfied e" "e_down e = pk r"
      and x: "x \<in> set (cancellable_edges w s)" "e_up e = e_up x" unfolding cone d(2) by auto
    with c at cancellable_dead [OF x(1)] have "e \<in> set (cancellable_edges w s)" by (simp add: cancellable_edge)
    with e(4) show "doomed_row w s r" by (auto simp: doomed_row_def)
  qed
  have pairs: "set ?pairs = (\<lambda>r. (pk r, lease_epoch r)) ` {r \<in> set (flow_rows s). r \<in> set (flow_rows s) \<and> doomed_row w s r}"
  proof -
    have "set ?pairs = (\<lambda>r. (pk r, lease_epoch r)) ` {r \<in> set (flow_rows s). pk r \<in> set ?cone \<and> status r \<in> set cancellable_statuses}"
      unfolding rows_by_chunk cc set_remdups ..
    then show ?thesis using doomed by (simp cong: conj_cong)
  qed
  have "\<exists>t. cancel_pairs env m3 ?pairs s = (Inr (length (filter (\<lambda>r. r \<in> set (flow_rows s) \<and> doomed_row w s r) (flow_rows s))), s\<lparr>flow_rows := t\<rparr>)
    \<and> rows_changed (\<lambda>r. r \<in> set (flow_rows s) \<and> doomed_row w s r) (\<lambda>k. discarded_at (fe_now env k)) (flow_rows s) t"
    by (rule cancel_pairs_quiet [OF wf pairs]) (use doomed in \<open>auto simp: cancellable_statuses_def\<close>)
  then obtain t where t: "cancel_pairs env m3 ?pairs s = (Inr (length (filter (doomed_row w s) (flow_rows s))), s\<lparr>flow_rows := t\<rparr>)"
    "rows_changed (\<lambda>r. r \<in> set (flow_rows s) \<and> doomed_row w s r) (\<lambda>k. discarded_at (fe_now env k)) (flow_rows s) t"
    by (auto cong: filter_cong)
  have same: "rows_changed (doomed_row w s) (\<lambda>k. discarded_at (fe_now env k)) (flow_rows s) t"
    using t(2) unfolding rows_changed_def by (rule list.rel_mono_strong) auto
  show ?thesis
  proof (cases "?pairs = []")
    case True
    with pairs have none: "\<not> doomed_row w s r" if "r \<in> set (flow_rows s)" for r using that by auto
    have "run_state (cancel_one_level env w) (n, s) = (Inr 0, (m3, s))"
      by (simp only: cancel_one_level_def run_bind run_reading [OF q] prod.case sealed simp_thms if_False d(1) f g True if_True run_return)
    moreover have "filter (doomed_row w s) (flow_rows s) = []" using none by (simp add: filter_empty_conv)
    ultimately show ?thesis using changed_none none by (metis length_0_conv)
  next
    case False
    let ?k = "length (filter (doomed_row w s) (flow_rows s))" and ?s = "s\<lparr>flow_rows := t\<rparr>"
    let ?rec = "if ?k = 0 then State_Monad.return () else record_cancelled env (map fst ?pairs)"
    have kept: "rows_kept ?rec" by (simp add: rows_kept_return rows_kept_record_cancelled [OF q])
    obtain u m4 s' where r: "run_state ?rec (m3 + 1, ?s) = (u, (m4, s'))"
      by (rule prod_cases3 [of "run_state ?rec (m3 + 1, ?s)"])
    have "run_state (cancel_one_level env w) (n, s) = (Inr ?k, (m4, s'))"
    proof -
      let ?rest = "\<lambda>k. (if k = 0 then State_Monad.return () else record_cancelled env (map fst ?pairs)) \<bind> (\<lambda>_. State_Monad.return (Inr k))"
      have "run_state (cancel_one_level env w) (n, s) = run_state (raising (writing_at env (\<lambda>n. cancel_pairs env n ?pairs)) ?rest) (m3, s)"
        by (simp only: cancel_one_level_def run_bind run_reading [OF q] prod.case sealed simp_thms if_False d(1) f g False)
      also have "\<dots> = run_state (?rest ?k) (m3 + 1, ?s)"
        unfolding run_raising run_writing_at [OF q] t(1) by simp
      also have "\<dots> = (Inr ?k, (m4, s'))" unfolding run_bind r by (simp add: run_return)
      finally show ?thesis .
    qed
    moreover have "flow_rows (snd (snd (run_state ?rec (m3 + 1, ?s)))) = flow_rows ?s
        \<and> flow_edges (snd (snd (run_state ?rec (m3 + 1, ?s)))) = flow_edges ?s"
      using kept unfolding rows_kept_def by blast
    then have "flow_rows s' = t" "flow_edges s' = flow_edges s" unfolding r by simp_all
    ultimately show ?thesis using same by blast
  qed
qed

end
