(* ===== verification/FlowEnds.thy ===== *)
theory FlowEnds
  imports FlowFacts
begin

text \<open>
  The writes a workflow lock protects, as steps of the specification: sealing, the rows of one \<open>add\<close>, and
  completion, whose numbers are the ones its last classification read.
\<close>

section \<open>Sealing\<close>

lemma sealed_move: "w_status x = OPEN \<Longrightarrow> workflow_move x (sealed_row now x)"
  by (simp add: workflow_move_def sealed_row_def)

lemma status_of_workflow:
  assumes "count_inv y" "x \<in> set (flow_workflows (fs_store y))"
  shows "flow_status (w_key x) (fs_store y) = Some (w_status x)"
  using find_workflow_Some [OF count_invD(1) [OF assms(1)], of "w_key x" x] assms(2) by (simp add: flow_status_def)

lemma goes_seal:
  assumes env: "flow_env_ok foreign env" and P: "lasting foreign P"
  shows "goes foreign P (seal_workflow env scheduled w) (\<lambda>r. P)"
  unfolding seal_workflow_def seal_once_def
proof (rule goes_reissued [OF goes_transact [OF kept_lasting [OF env P] goes_writing_at [OF kept_lasting [OF env P]]]])
  fix y n assume y: "flow_inv foreign y" "P y"
  let ?f = "\<lambda>s. if flow_status w s \<noteq> Some OPEN then (Inr (Inl (FlowNotOpen (flow_status w s))), s)
     else if \<not> scheduled then (Inr (Inl FlowUnscheduled), s)
     else (Inr (Inr ()), set_workflow w (sealed_row (fe_now env n)) s) :: (failure + (flow_error + unit)) \<times> flow"
  show "\<exists>y'. (flow_step foreign)\<^sup>*\<^sup>* y y' \<and> fs_store y' = snd (?f (fs_store y)) \<and> P y'"
  proof (cases "flow_status w (fs_store y) = Some OPEN \<and> scheduled")
    case True
    have "flow_step foreign y (y\<lparr>fs_store := set_workflow w (sealed_row (fe_now env n)) (fs_store y)\<rparr>)"
    proof (rule flow_step.workflow)
      fix x assume "x \<in> set (flow_workflows (fs_store y))" "w_key x = w"
      with status_of_workflow [OF inv_facts(2) [OF y(1)], of x] True show "workflow_move x (sealed_row (fe_now env n) x)"
        by (intro sealed_move) simp
    qed
    with one_step [OF P y this] True show ?thesis by simp
  qed (use y in auto)
qed auto

section \<open>Adding a node\<close>

lemma insert_node_fresh:
  assumes inv: "order_inv foreign y" and fresh: "k \<notin> fs_ids y"
  shows "\<not> (\<exists>r \<in> set (flow_rows (fs_store y)). pk r = k)" "\<not> (\<exists>n \<in> set (flow_nodes (fs_store y)). n_task n = k)"
  using order_invD(2,3) [OF inv] fresh by auto

lemma release_added_fresh:
  assumes t: "\<not> (\<exists>r \<in> set t. pk r = pk row)"
  shows "release_added_node now (pk row) (t @ [row])
    = t @ [if status row = WAITING then released now row else row]"
proof -
  have f: "fetch (pk row) (t @ [row]) = Some row" using t by (induction t) (auto simp: fetch_def)
  have "update_where (release_pin (pk row) (lease_epoch row)) (released now) (t @ [row])
      = (t @ [released now row], 1)" if "status row = WAITING"
    using t that by (induction t) (auto simp: update_where_def release_pin_def)
  then show ?thesis using f by (auto simp: release_added_node_def release_def pk_of_def)
qed

lemma insert_node_go:
  assumes inv: "flow_inv foreign y" and opened: "flow_status w (fs_store y) = Some OPEN"
    and fresh: "pk row \<notin> fs_ids y" "npk \<notin> fs_node_pks y" "{epk..<epk + length ups} \<inter> fs_edge_pks y = {}"
    and row: "status row = (if ups = [] then READY else WAITING)"
    and ups: "distinct ups" "set ups \<subseteq> n_task ` set (nodes_of w (fs_store y))" "set ups \<inter> set succeeded \<subseteq> fs_won y"
  shows "\<exists>y'. (flow_step foreign)\<^sup>*\<^sup>* y y'
    \<and> fs_store y' = snd (insert_node now w name name_key ups succeeded row npk epk (fs_store y))"
proof (cases "list_ex (\<lambda>n. n_workflow n = w \<and> n_name_key n = name_key \<or> n_task n = pk row) (flow_nodes (fs_store y))")
  case True
  then show ?thesis by (intro exI [of _ y]) (simp add: insert_node_def)
next
  case False
  let ?row = "if ups \<noteq> [] \<and> set ups \<subseteq> set succeeded then released now row else row"
  let ?node = "\<lparr>n_pk = npk, n_workflow = w, n_name = name, n_name_key = name_key, n_task = pk row, n_created_at = now,
    n_outcome = None, n_epoch = None, n_succeeded = False\<rparr>"
  let ?rows = "if ups \<noteq> [] \<and> set ups \<subseteq> set succeeded
      then release_added_node now (pk row) (insert_row row (flow_rows (fs_store y))) else insert_row row (flow_rows (fs_store y))"
  have rows: "?rows = flow_rows (fs_store y) @ [?row]"
    using release_added_fresh [OF insert_node_fresh(1) [OF inv_facts(1) [OF inv] fresh(1)], of now] row
    by (auto simp: insert_row_def)
  have pk: "pk ?row = pk row" by (simp add: row_simps)
  have "flow_step foreign y (y\<lparr>fs_store := set_workflow w (\<lambda>x. x\<lparr>w_node_count := w_node_count x + 1\<rparr>) ((fs_store y)\<lparr>
        flow_rows := flow_rows (fs_store y) @ [?row], flow_nodes := flow_nodes (fs_store y) @ [?node],
        flow_edges := flow_edges (fs_store y) @ new_edges w ups succeeded (pk ?row) epk now\<rparr>),
      fs_ids := insert (pk ?row) (fs_ids y), fs_node_pks := insert (n_pk ?node) (fs_node_pks y),
      fs_edge_pks := fs_edge_pks y \<union> {epk..<epk + length ups},
      fs_deps := fs_deps y \<union> set ups \<times> {pk ?row}\<rparr>)"
  proof (rule flow_step.add)
    show "status ?row = READY \<Longrightarrow> foreign \<or> set ups \<subseteq> fs_won y" using row ups(3) by (auto split: if_splits)
  qed (use opened fresh row ups pk in \<open>auto simp: row_simps split: if_splits\<close>)
  moreover have "snd (insert_node now w name name_key ups succeeded row npk epk (fs_store y))
      = set_workflow w (\<lambda>x. x\<lparr>w_node_count := w_node_count x + 1\<rparr>) ((fs_store y)\<lparr>
        flow_rows := flow_rows (fs_store y) @ [?row], flow_nodes := flow_nodes (fs_store y) @ [?node],
        flow_edges := flow_edges (fs_store y) @ new_edges w ups succeeded (pk ?row) epk now\<rparr>)"
    by (simp only: insert_node_def False if_False snd_conv rows pk)
  ultimately show ?thesis by (intro exI conjI) (erule r_into_rtranclp, simp)
qed

section \<open>Completing\<close>

text \<open>The callbacks take their ids from \<open>K\<close>, which nobody else hands out.\<close>

definition enqueues_from :: "uuid set \<Rightarrow> enqueue \<Rightarrow> bool" where
  "enqueues_from K enq = (\<forall>cb t k t'. enq cb t = Inr (k, t') \<longrightarrow>
     (\<exists>row. t' = t @ [row] \<and> pk row = k \<and> k \<in> K \<and> k \<notin> pk ` set t \<and> status row = READY))"

lemma callback_go:
  assumes K: "enqueues_from K enq" and inv: "flow_inv foreign y" and fresh: "K \<inter> fs_ids y \<subseteq> pk ` set (flow_rows (fs_store y))"
    and cb: "enqueue_callback enq wanted c (flow_rows (fs_store y)) = Inr (k, t)"
  shows "\<exists>y'. (flow_step foreign)\<^sup>*\<^sup>* y y' \<and> fs_store y' = (fs_store y)\<lparr>flow_rows := t\<rparr>
    \<and> K \<inter> fs_ids y' \<subseteq> pk ` set (flow_rows (fs_store y'))"
proof (cases "\<not> wanted \<or> cb_path c = []")
  case True
  with cb fresh show ?thesis by (intro exI [of _ y]) (simp add: enqueue_callback_def)
next
  case False
  with cb obtain j where "enq c (flow_rows (fs_store y)) = Inr (j, t)"
    by (auto simp: enqueue_callback_def split: sum.splits)
  with K obtain row where row: "t = flow_rows (fs_store y) @ [row]" "pk row \<in> K" "pk row \<notin> pk ` set (flow_rows (fs_store y))" "status row = READY"
    unfolding enqueues_from_def by blast
  with fresh have "pk row \<notin> fs_ids y" by blast
  from flow_step.enqueue [OF this, of foreign] row have
    "flow_step foreign y (y\<lparr>fs_store := (fs_store y)\<lparr>flow_rows := t\<rparr>, fs_ids := insert (pk row) (fs_ids y)\<rparr>)" by simp
  with row fresh show ?thesis
    by (intro exI [of _ "y\<lparr>fs_store := (fs_store y)\<lparr>flow_rows := t\<rparr>, fs_ids := insert (pk row) (fs_ids y)\<rparr>"]) auto
qed

lemma complete_row_go:
  assumes K: "enqueues_from K enq" "K \<inter> fs_ids y = {}" and inv: "flow_inv foreign y"
    and sealed: "flow_status w (fs_store y) = Some SEALED" and ran: "complete_row enq now w classes (fs_store y) = (Inr out, s')"
    and total: "\<And>x. find_workflow w (fs_store y) = Some x \<Longrightarrow> w_total x \<noteq> None"
  shows "\<exists>y'. (flow_step foreign)\<^sup>*\<^sup>* y y' \<and> fs_store y' = s'"
proof -
  from sealed obtain x where x: "find_workflow w (fs_store y) = Some x" "w_status x = SEALED" by (auto simp: flow_status_def)
  from total [OF x(1)] obtain n where n: "w_total x = Some n" by blast
  let ?missing = "n - (c_succeeded classes + c_failed classes)"
  from ran x n obtain cb t1 where one: "enqueue_callback enq True (w_on_complete x) (flow_rows (fs_store y)) = Inr (cb, t1)"
    by (auto simp: complete_row_def Let_def split: sum.splits)
  from ran x n one obtain sc t2 where
    two: "enqueue_callback enq (c_failed classes = 0 \<and> ?missing = 0) (w_on_success x) t1 = Inr (sc, t2)"
    by (auto simp: complete_row_def Let_def split: sum.splits)
  from callback_go [OF K(1) inv _ one] K(2) obtain y1 where
    y1: "(flow_step foreign)\<^sup>*\<^sup>* y y1" "fs_store y1 = (fs_store y)\<lparr>flow_rows := t1\<rparr>"
      "K \<inter> fs_ids y1 \<subseteq> pk ` set (flow_rows (fs_store y1))" by auto
  from y1(2) two have "enqueue_callback enq (c_failed classes = 0 \<and> ?missing = 0) (w_on_success x) (flow_rows (fs_store y1)) = Inr (sc, t2)"
    by simp
  from callback_go [OF K(1) steps_inv [OF y1(1) inv] y1(3) this] obtain y2 where
    y2: "(flow_step foreign)\<^sup>*\<^sup>* y1 y2" "fs_store y2 = (fs_store y)\<lparr>flow_rows := t2\<rparr>" using y1(2) by auto
  have find2: "find_workflow w (fs_store y2) = Some x" using x(1) y2(2) by (simp add: find_workflow_def)
  obtain f where f: "s' = drop_scan w (set_workflow w f (fs_store y2))" "w_key (f x) = w_key x" "w_node_count (f x) = w_node_count x"
      "w_status (f x) = COMPLETE" "w_total (f x) = w_total x" "w_retired_at (f x) = w_retired_at x"
    using ran x n one two y2(2) that by (auto simp: complete_row_def Let_def)
  let ?y3 = "y2\<lparr>fs_store := set_workflow w f (fs_store y2), fs_complete := fs_complete y2 @ [w]\<rparr>"
  have st: "flow_step foreign y2 ?y3"
  proof (rule flow_step.complete)
    show "flow_status w (fs_store y2) = Some SEALED" using find2 x(2) by (simp add: flow_status_def)
  qed (use f find2 in auto)
  have y3: "(flow_step foreign)\<^sup>*\<^sup>* y ?y3" using y1(1) y2(1) st by (meson rtranclp.rtrancl_into_rtrancl rtranclp_trans)
  let ?xs = "filter (\<lambda>x. s_workflow x \<noteq> w) (flow_scans (fs_store ?y3))"
  have "flow_step foreign ?y3 (?y3\<lparr>fs_store := (fs_store ?y3)\<lparr>flow_scans := ?xs\<rparr>\<rparr>)"
    by (rule scans_step) (use inv_facts(3) [OF steps_inv [OF y3 inv]] in \<open>auto simp: scan_inv_def\<close>)
  with y3 f(1) show ?thesis
    by (intro exI [of _ "?y3\<lparr>fs_store := (fs_store ?y3)\<lparr>flow_scans := ?xs\<rparr>\<rparr>"]) (auto simp: drop_scan_def)
qed

text \<open>The numbers of a completion are those of the state its last classification read.\<close>

lemma completes:
  assumes "run_state (complete_flow_once env enq w) (n, s) = (Inr (Some (failed, cancelled, missing)), (n', s'))"
  obtains u k x where "c_pending (classify w u) = 0" "c_repair (classify w u) = 0"
    "failed = c_failed (classify w u)" "cancelled = c_discarded (classify w u)"
    "complete_row enq (fe_now env k) w (classify w u) (fe_others env k u) = (Inr (Some (failed, cancelled, missing)), s')"
proof -
  have rd: "run_state (read_stm env f) (m, v) = (f (fe_others env m v), (m + 1, fe_others env m v))" for m v and f :: "flow \<Rightarrow> 'x"
    by (simp add: read_stm_def reading_at_def)
  have rc: "run_state (read_stm env (classify w)) (m, v) = (classify w (fe_others env m v), (m + 1, fe_others env m v))" for m v
    by (simp add: read_stm_def reading_at_def)
  have rdd: "run_state (read_stm env (dead_rows w)) (m, v) = (dead_rows w (fe_others env m v), (m + 1, fe_others env m v))" for m v
    by (simp add: read_stm_def reading_at_def)
  have rs: "run_state (read_stm env (\<lambda>s. flow_status w s = Some SEALED)) (m, v)
      = (flow_status w (fe_others env m v) = Some SEALED, (m + 1, fe_others env m v))" for m v
    by (simp add: read_stm_def reading_at_def)
  let ?s1 = "fe_others env n s"
  let ?s2 = "fe_others env (n + 1) ?s1"
  let ?ch = "if fe_row_locks env then reads env (changed_rows (dead_rows w ?s2)) (id_chunks env (map fst (dead_rows w ?s2)))
         else State_Monad.return []"
  obtain ch m v where ch: "run_state ?ch (n + 1 + 1, ?s2) = (ch, (m, v))" by (rule prod_cases3 [of "run_state ?ch (n + 1 + 1, ?s2)"])
  let ?u = "fe_others env m v"
  note run = assms [unfolded complete_flow_once_def run_bind rs prod.case]
  have s: "flow_status w ?s1 = Some SEALED" using run by (auto simp: run_return split: if_splits)
  note run1 = run [unfolded s simp_thms if_False run_bind rdd prod.case ch]
  have e: "ch = []" using run1 by (auto simp: run_return split: if_splits)
  note run2 = run1 [unfolded e simp_thms if_False run_bind rc prod.case]
  have c: "\<not> (c_pending (classify w ?u) \<noteq> 0 \<or> c_repair (classify w ?u) \<noteq> 0 \<or> c_dead (classify w ?u) \<noteq> length (dead_rows w ?s2))"
    using run2 by (auto simp: run_return split: if_splits)
  have w: "complete_row enq (fe_now env (m + 1)) w (classify w ?u) (fe_others env (m + 1) ?u)
      = (Inr (Some (failed, cancelled, missing)), s')"
    using run2 c by (auto simp: writing_at_def split: if_splits prod.splits)
  then have "failed = c_failed (classify w ?u)" "cancelled = c_discarded (classify w ?u)"
    by (auto simp: complete_row_def Let_def split: option.splits sum.splits)
  with c w show thesis by (intro that [of ?u "m + 1"]) auto
qed

lemma completed_row:
  assumes "complete_row enq now w classes s = (Inr (Some (failed, cancelled, missing)), s')" "find_workflow w s = Some x"
  shows "\<exists>x'. find_workflow w s' = Some x' \<and> w_status x' = COMPLETE \<and> w_failed x' = Some failed \<and> w_cancelled x' = Some cancelled
    \<and> w_total x' = Some (case w_total x of Some n \<Rightarrow> n | None \<Rightarrow> length (nodes_of w s))
    \<and> missing = (case w_total x of Some n \<Rightarrow> n | None \<Rightarrow> length (nodes_of w s)) - (c_succeeded classes + failed)
    \<and> (w_success x' \<noteq> w_success x \<longrightarrow> failed = 0 \<and> missing = 0) \<and> find_scan w s' = None"
proof -
  have fw: "find (\<lambda>x. w_key x = w) (map (\<lambda>x. if w_key x = w then f x else x) xs) = map_option f (find (\<lambda>x. w_key x = w) xs)"
    if "\<And>x. w_key (f x) = w_key x" for f and xs :: "workflow list"
    using that by (induction xs) auto
  have fs: "find (\<lambda>x. s_workflow x = w) (filter (\<lambda>x. s_workflow x \<noteq> w) xs) = None" for xs :: "flow_scan list"
    by (induction xs) auto
  have sc: "enqueue_callback enq wanted cb t = Inr (Some k, t') \<Longrightarrow> wanted" for wanted cb t k t'
    by (auto simp: enqueue_callback_def split: if_splits)
  from assms show ?thesis
    by (auto dest!: sc simp: complete_row_def Let_def find_workflow_def find_scan_def drop_scan_def set_workflow_def fw fs split: sum.splits option.splits)
qed

section \<open>Operations on reachable states\<close>

definition steps_of :: "bool \<Rightarrow> flow_sys \<Rightarrow> 'a stm \<Rightarrow> bool" where
  "steps_of foreign y m = (\<forall>n. \<exists>y'. flow_reach foreign y' \<and> (flow_step foreign)\<^sup>*\<^sup>* y y'
     \<and> fs_store y' = snd (snd (run_state m (n, fs_store y))))"

lemma goes_steps:
  assumes "flow_reach foreign y" "goes foreign P m Q" "P y"
  shows "steps_of foreign y m"
  using assms reach_inv [OF assms(1)] unfolding steps_of_def goes_def flow_reach_def by (meson rtranclp_trans)

end
