(* ===== verification/FlowRuns.thy ===== *)
theory FlowRuns
  imports FlowEnds BatchRuns
begin

text \<open>
  A concrete workflow of two nodes, built, sealed and run, in an environment where nobody else acts: the
  states the properties of workflows are applied to.
\<close>

section \<open>A workflow of two nodes\<close>

definition calm_env :: flow_env where
  "calm_env = \<lparr>fe_others = (\<lambda>n s. s), fe_fault = (\<lambda>n. None), fe_held = (\<lambda>n p. False), fe_vendor = Postgresql,
     fe_max_params = None, fe_row_locks = True, fe_skip_locked = True, fe_sqlite_code = (\<lambda>e. None), fe_owns = True,
     fe_mariadb = False, fe_now = (\<lambda>n. 100 + int n)\<rparr>"

lemma calm_quiet: "quiet calm_env"
  by (simp add: quiet_def calm_env_def)

lemma calm_ok: "flow_env_ok foreign calm_env"
  unfolding flow_env_ok_def by (intro allI impI exI conjI) (rule rtranclp.rtrancl_refl, simp add: calm_env_def)

definition demo_workflow :: "batch_status \<Rightarrow> nat \<Rightarrow> workflow" where
  "demo_workflow st n = \<lparr>w_key = 1, w_name = ''order'', w_status = st, w_total = (if st = OPEN then None else Some n),
     w_on_complete = demo_callback ''shop.done'', w_on_success = demo_callback ''shop.clean'', w_failed = None,
     w_cancelled = None, w_callback = None, w_success = None, w_created_at = 10, w_sealed_at = None,
     w_completed_at = None, w_generation = 0, w_retired_at = None, w_completions = [], w_node_count = n\<rparr>"

definition demo_node :: "nat \<Rightarrow> uuid \<Rightarrow> string \<Rightarrow> flow_node" where
  "demo_node p k name = \<lparr>n_pk = p, n_workflow = 1, n_name = name, n_name_key = name, n_task = k, n_created_at = 20,
     n_outcome = None, n_epoch = None, n_succeeded = False\<rparr>"

definition demo_edge :: "bool \<Rightarrow> flow_edge" where
  "demo_edge marked = \<lparr>e_pk = 1, e_workflow = 1, e_up = 10, e_down = 11, e_satisfied = marked, e_created_at = 20\<rparr>"

definition demo_task :: "uuid \<Rightarrow> status \<Rightarrow> ox_task" where
  "demo_task k st = demo_row\<lparr>pk := k, status := st\<rparr>"

definition demo_store :: "batch_status \<Rightarrow> bool \<Rightarrow> status \<Rightarrow> status \<Rightarrow> flow" where
  "demo_store st marked a b = \<lparr>flow_workflows = [demo_workflow st 2],
     flow_nodes = [demo_node 1 10 ''bill'', demo_node 2 11 ''ship''], flow_edges = [demo_edge marked],
     flow_rows = [demo_task 10 a, demo_task 11 b], flow_scans = [], flow_round_row = None\<rparr>"

definition demo_flow :: "batch_status \<Rightarrow> bool \<Rightarrow> status \<Rightarrow> status \<Rightarrow> uuid set \<Rightarrow> uuid set \<Rightarrow> flow_sys" where
  "demo_flow st marked a b won begun = \<lparr>fs_store = demo_store st marked a b, fs_won = won, fs_ran = begun,
     fs_deps = {(10, 11)}, fs_ids = {10, 11}, fs_node_pks = {1, 2}, fs_edge_pks = {1}, fs_complete = []\<rparr>"

named_theorems demo_flow_simps

lemmas demo_flow_defs [demo_flow_simps] = demo_flow_def demo_store_def demo_task_def demo_edge_def demo_node_def demo_workflow_def

definition demo_started :: flow_sys where
  "demo_started = start_flow\<lparr>fs_store := empty_flow\<lparr>flow_workflows := [demo_workflow OPEN 0]\<rparr>\<rparr>"

definition demo_first :: flow_sys where
  "demo_first = \<lparr>fs_store = \<lparr>flow_workflows = [demo_workflow OPEN 1], flow_nodes = [demo_node 1 10 ''bill''],
     flow_edges = [], flow_rows = [demo_task 10 READY], flow_scans = [], flow_round_row = None\<rparr>, fs_won = {}, fs_ran = {},
     fs_deps = {}, fs_ids = {10}, fs_node_pks = {1}, fs_edge_pks = {}, fs_complete = []\<rparr>"

lemma demo_started_reach: "flow_reach foreign demo_started"
proof -
  have "flow_step foreign start_flow (start_flow\<lparr>fs_store := (fs_store start_flow)\<lparr>flow_workflows :=
      flow_workflows (fs_store start_flow) @ [demo_workflow OPEN 0]\<rparr>\<rparr>)"
    by (rule flow_step.create) (simp_all add: start_flow_def empty_flow_def find_workflow_def nodes_of_def demo_workflow_def)
  then show ?thesis unfolding flow_reach_def demo_started_def by (simp add: start_flow_def empty_flow_def r_into_rtranclp)
qed

lemma demo_first_step: "flow_step foreign demo_started demo_first"
proof -
  have "flow_step foreign demo_started (demo_started\<lparr>fs_store := set_workflow 1 (\<lambda>x. x\<lparr>w_node_count := w_node_count x + 1\<rparr>)
      ((fs_store demo_started)\<lparr>flow_rows := flow_rows (fs_store demo_started) @ [demo_task 10 READY],
        flow_nodes := flow_nodes (fs_store demo_started) @ [demo_node 1 10 ''bill''],
        flow_edges := flow_edges (fs_store demo_started) @ new_edges 1 [] [] (pk (demo_task 10 READY)) 1 20\<rparr>),
      fs_ids := insert (pk (demo_task 10 READY)) (fs_ids demo_started),
      fs_node_pks := insert (n_pk (demo_node 1 10 ''bill'')) (fs_node_pks demo_started),
      fs_edge_pks := fs_edge_pks demo_started \<union> {1..<1 + length ([] :: uuid list)},
      fs_deps := fs_deps demo_started \<union> set [] \<times> {pk (demo_task 10 READY)}\<rparr>)"
    by (rule flow_step.add)
       (simp_all add: demo_started_def start_flow_def empty_flow_def flow_status_def find_workflow_def demo_flow_simps)
  moreover have "demo_started\<lparr>fs_store := set_workflow 1 (\<lambda>x. x\<lparr>w_node_count := w_node_count x + 1\<rparr>)
      ((fs_store demo_started)\<lparr>flow_rows := flow_rows (fs_store demo_started) @ [demo_task 10 READY],
        flow_nodes := flow_nodes (fs_store demo_started) @ [demo_node 1 10 ''bill''],
        flow_edges := flow_edges (fs_store demo_started) @ new_edges 1 [] [] (pk (demo_task 10 READY)) 1 20\<rparr>),
      fs_ids := insert (pk (demo_task 10 READY)) (fs_ids demo_started),
      fs_node_pks := insert (n_pk (demo_node 1 10 ''bill'')) (fs_node_pks demo_started),
      fs_edge_pks := fs_edge_pks demo_started \<union> {1..<1 + length ([] :: uuid list)},
      fs_deps := fs_deps demo_started \<union> set [] \<times> {pk (demo_task 10 READY)}\<rparr> = demo_first"
    by (simp add: demo_started_def demo_first_def start_flow_def empty_flow_def set_workflow_def new_edges_def demo_flow_simps)
  ultimately show ?thesis by simp
qed

lemma demo_second_step: "flow_step foreign demo_first (demo_flow OPEN False READY WAITING {} {})"
proof -
  let ?row = "demo_task 11 WAITING" and ?node = "demo_node 2 11 ''ship''"
  let ?y = "demo_first\<lparr>fs_store := set_workflow 1 (\<lambda>x. x\<lparr>w_node_count := w_node_count x + 1\<rparr>)
      ((fs_store demo_first)\<lparr>flow_rows := flow_rows (fs_store demo_first) @ [?row],
        flow_nodes := flow_nodes (fs_store demo_first) @ [?node],
        flow_edges := flow_edges (fs_store demo_first) @ new_edges 1 [10] [] (pk ?row) 1 20\<rparr>),
      fs_ids := insert (pk ?row) (fs_ids demo_first), fs_node_pks := insert (n_pk ?node) (fs_node_pks demo_first),
      fs_edge_pks := fs_edge_pks demo_first \<union> {1..<1 + length [10 :: uuid]},
      fs_deps := fs_deps demo_first \<union> set [10] \<times> {pk ?row}\<rparr>"
  have "flow_step foreign demo_first ?y"
    by (rule flow_step.add)
       (simp_all add: demo_first_def flow_status_def find_workflow_def nodes_of_def demo_flow_simps)
  moreover have "?y = demo_flow OPEN False READY WAITING {} {}"
    by (simp add: demo_first_def set_workflow_def new_edges_def demo_flow_simps insert_commute atLeastLessThanSuc)
  ultimately show ?thesis by simp
qed

lemma demo_sealed_step: "flow_step foreign (demo_flow OPEN marked a b won begun) (demo_flow SEALED marked a b won begun)"
proof -
  let ?y = "demo_flow OPEN marked a b won begun" and ?f = "\<lambda>x. x\<lparr>w_status := SEALED, w_total := Some (w_node_count x)\<rparr>"
  have "flow_step foreign ?y (?y\<lparr>fs_store := set_workflow 1 ?f (fs_store ?y)\<rparr>)"
    by (rule flow_step.workflow) (simp add: demo_flow_simps workflow_move_def)
  moreover have "?y\<lparr>fs_store := set_workflow 1 ?f (fs_store ?y)\<rparr> = demo_flow SEALED marked a b won begun"
    by (simp add: demo_flow_simps set_workflow_def)
  ultimately show ?thesis by simp
qed

text \<open>A move of one of the two rows.\<close>

lemma demo_move_first:
  assumes "allowed foreign (demo_flow st marked a b won begun) (demo_task 10 a) (demo_task 10 a')"
  shows "flow_step foreign (demo_flow st marked a b won begun)
    (demo_flow st marked a' b (if a' = SUCCESSFUL then insert 10 won else won) (if a' = RUNNING then insert 10 begun else begun))"
proof -
  let ?y = "demo_flow st marked a b won begun" and ?P = "\<lambda>r. pk r = 10" and ?f = "\<lambda>r. demo_task 10 a'"
  have "flow_step foreign ?y (rows_moved ?P ?f ?y)"
    by (rule flow_step.rows) (use assms in \<open>auto simp: demo_flow_simps\<close>)
  moreover have "rows_moved ?P ?f ?y = demo_flow st marked a' b
      (if a' = SUCCESSFUL then insert 10 won else won) (if a' = RUNNING then insert 10 begun else begun)"
    by (auto simp: rows_moved_def Let_def demo_flow_simps)
  ultimately show ?thesis by simp
qed

lemma demo_move_second:
  assumes "allowed foreign (demo_flow st marked a b won begun) (demo_task 11 b) (demo_task 11 b')"
  shows "flow_step foreign (demo_flow st marked a b won begun)
    (demo_flow st marked a b' (if b' = SUCCESSFUL then insert 11 won else won) (if b' = RUNNING then insert 11 begun else begun))"
proof -
  let ?y = "demo_flow st marked a b won begun" and ?P = "\<lambda>r. pk r = 11" and ?f = "\<lambda>r. demo_task 11 b'"
  have "flow_step foreign ?y (rows_moved ?P ?f ?y)"
    by (rule flow_step.rows) (use assms in \<open>auto simp: demo_flow_simps\<close>)
  moreover have "rows_moved ?P ?f ?y = demo_flow st marked a b'
      (if b' = SUCCESSFUL then insert 11 won else won) (if b' = RUNNING then insert 11 begun else begun)"
    by (auto simp: rows_moved_def Let_def demo_flow_simps)
  ultimately show ?thesis by simp
qed

lemma demo_mark_step:
  assumes "10 \<in> won"
  shows "flow_step foreign (demo_flow st False a b won begun) (demo_flow st True a b won begun)"
proof -
  let ?y = "demo_flow st False a b won begun"
  have "flow_step foreign ?y (?y\<lparr>fs_store := snd (mark_edges [1] (fs_store ?y))\<rparr>)"
    by (rule flow_step.mark) (use assms in \<open>auto simp: demo_flow_simps\<close>)
  moreover have "?y\<lparr>fs_store := snd (mark_edges [1] (fs_store ?y))\<rparr> = demo_flow st True a b won begun"
    by (simp add: demo_flow_simps mark_edges_def)
  ultimately show ?thesis by simp
qed

lemma reach_step: "flow_reach foreign y \<Longrightarrow> flow_step foreign y y' \<Longrightarrow> flow_reach foreign y'"
  unfolding flow_reach_def by (rule rtranclp.rtrancl_into_rtrancl)

lemma demo_built: "flow_reach foreign (demo_flow SEALED False READY WAITING {} {})"
  by (rule reach_step [OF reach_step [OF reach_step [OF demo_started_reach demo_first_step] demo_second_step] demo_sealed_step])

lemma demo_billing: "flow_reach foreign (demo_flow SEALED False RUNNING WAITING {} {10})"
  using reach_step [OF demo_built demo_move_first [of foreign SEALED False READY WAITING "{}" "{}" RUNNING]]
  by (simp add: allowed_def ups_won_def asleep_def demo_flow_simps)

lemma demo_billed: "flow_reach foreign (demo_flow SEALED False SUCCESSFUL WAITING {10} {10})"
  using reach_step [OF demo_billing demo_move_first [of foreign SEALED False RUNNING WAITING "{}" "{10}" SUCCESSFUL]]
  by (simp add: allowed_def ups_won_def asleep_def demo_flow_simps)

lemma demo_refused: "flow_reach foreign (demo_flow SEALED False FAILED WAITING {} {10})"
  using reach_step [OF demo_billing demo_move_first [of foreign SEALED False RUNNING WAITING "{}" "{10}" FAILED]]
  by (simp add: allowed_def ups_won_def asleep_def demo_flow_simps)

lemma demo_marked: "flow_reach foreign (demo_flow SEALED True SUCCESSFUL WAITING {10} {10})"
  by (rule reach_step [OF demo_billed demo_mark_step]) simp

lemma demo_shipping: "flow_reach foreign (demo_flow SEALED True SUCCESSFUL RUNNING {10} {10, 11})"
proof -
  have "flow_reach foreign (demo_flow SEALED True SUCCESSFUL READY {10} {10})"
    using reach_step [OF demo_marked demo_move_second [of foreign SEALED True SUCCESSFUL WAITING "{10}" "{10}" READY]]
    by (simp add: allowed_def ups_won_def asleep_def demo_flow_simps)
  from reach_step [OF this demo_move_second [of foreign SEALED True SUCCESSFUL READY "{10}" "{10}" RUNNING]]
  show ?thesis by (simp add: allowed_def ups_won_def asleep_def demo_flow_simps insert_commute)
qed

section \<open>A finished workflow\<close>

definition demo_finished :: flow where
  "demo_finished = (demo_store SEALED True SUCCESSFUL SUCCESSFUL)\<lparr>flow_nodes :=
     map (node_recorded SUCCESSFUL 0) (flow_nodes (demo_store SEALED True SUCCESSFUL SUCCESSFUL))\<rparr>"

lemma demo_finished_run:
  "fst (run_state (complete_flow_once calm_env demo_enqueue 1) (0, demo_finished)) = Inr (Some (0, 0, 0))"
  by code_simp

end
