(* ===== verification/FlowBackstop.thy ===== *)
theory FlowBackstop
  imports FlowOps
begin

text \<open>
  The reconciler's backstop and tick (\<open>_release_backstop\<close>, \<open>_reconcile\<close>): the skip queues, then a round over
  the open workflows, each visited by pages in key order from the place its scan row stores.  \<open>late n\<close> says
  whether the tick's deadline has passed when statement \<open>n\<close> is next.
\<close>

section \<open>The skip queues\<close>

definition bisect_right :: "'k::linorder list \<Rightarrow> 'k \<Rightarrow> nat" where
  "bisect_right ks k = length (takeWhile (\<lambda>x. x \<le> k) ks)"

text \<open>A list in key order, started after the key stored, wrapping.\<close>

definition rotated :: "('a \<Rightarrow> 'k::linorder) \<Rightarrow> 'k option \<Rightarrow> 'a list \<Rightarrow> 'a list" where
  "rotated key after xs =
     (let start = (case after of None \<Rightarrow> 0 | Some k \<Rightarrow> bisect_right (map key xs) k) in drop start xs @ take start xs)"

definition round_workflow :: "flow \<Rightarrow> uuid option" where
  "round_workflow s = map_option r_workflow (flow_round_row s)"

text \<open>At most one chunk of ids, \<open>n\<close> of them taken already; a queue that moved keeps its ids.\<close>

fun take_each :: "flow_env \<Rightarrow> (uuid \<times> uuid list \<times> int) list \<Rightarrow> nat \<Rightarrow> uuid list stm" where
  "take_each env [] n = State_Monad.return []"
| "take_each env ((w, queued, version) # qs) n =
     (if id_chunk_limit \<le> n then State_Monad.return []
      else if queued = [] then take_each env qs n
      else do {
        k \<leftarrow> writing env (set_scan (\<lambda>x. s_workflow x = w \<and> s_version x = version)
          (\<lambda>x. x\<lparr>s_skipped := drop (id_chunk_limit - n) queued, s_version := version + 1\<rparr>));
        if k = 0 then take_each env qs n
        else do {
          more \<leftarrow> take_each env qs (n + length (take (id_chunk_limit - n) queued));
          State_Monad.return (take (id_chunk_limit - n) queued @ more)
        }
      })"

definition take_skipped :: "flow_env \<Rightarrow> uuid list stm" where
  "take_skipped env = do {
     queues \<leftarrow> read_stm env (\<lambda>s. map (\<lambda>x. (s_workflow x, s_skipped x, s_version x)) (sort_key s_workflow (flow_scans s)));
     after \<leftarrow> read_stm env round_workflow;
     take_each env (rotated fst after queues) 0
   }"

section \<open>Records of a page\<close>

type_synonym open_node = "nat \<times> uuid \<times> status option \<times> int option"

definition open_node :: "flow_node \<Rightarrow> open_node" where
  "open_node n = (n_pk n, n_task n, n_outcome n, n_epoch n)"

text \<open>What \<open>_repair_node_records\<close> writes: (node, status, epoch, task).\<close>

definition record_wanted :: "(uuid \<times> status \<times> int) list \<Rightarrow> open_node \<Rightarrow> (nat \<times> status \<times> int \<times> uuid) option" where
  "record_wanted rows n =
     (case n of (p, k, out, ep) \<Rightarrow>
        (case map_of rows k of
           None \<Rightarrow> None
         | Some (st, e) \<Rightarrow> if st \<in> set recorded_statuses \<and> record_takes out ep st e then Some (p, st, e, k) else None))"

definition repair_node_records :: "flow_env \<Rightarrow> bool \<Rightarrow> open_node list \<Rightarrow> (failure + unit) stm" where
  "repair_node_records env skip nodes = do {
     rows \<leftarrow> reads env (\<lambda>c s. map (\<lambda>r. (pk r, status r, lease_epoch r)) (filter (\<lambda>r. pk r \<in> set c) (flow_rows s)))
       (id_chunks env (map (\<lambda>n. fst (snd n)) nodes));
     let wanted = List.map_filter (record_wanted rows) nodes;
     if wanted = [] then State_Monad.return (Inr ())
     else raising (write_locked env skip node_pks (map fst wanted)
         (\<lambda>pks. record_many env (map (\<lambda>(p, st, e, k). (p, st, e)) (filter (\<lambda>x. fst x \<in> set pks) wanted))))
       (\<lambda>(written, skipped). do {
         queue_skipped env (map (\<lambda>(p, st, e, k). k) (filter (\<lambda>x. fst x \<in> set skipped) wanted));
         State_Monad.return (Inr ())
       })
   }"

definition revisit :: "flow_env \<Rightarrow> uuid list \<Rightarrow> (failure + nat) stm" where
  "revisit env ids =
     raising (satisfy_edges_into env ids) (\<lambda>_. do {
       nodes \<leftarrow> reads env (\<lambda>c s. map open_node (filter (\<lambda>n. n_task n \<in> set c) (flow_nodes s))) (id_chunks env (remdups ids));
       raising (repair_node_records env False nodes) (\<lambda>_. release_downstream env ids)
     })"

definition revisit_skipped :: "flow_env \<Rightarrow> (failure + nat) stm" where
  "revisit_skipped env = do {
     taken \<leftarrow> take_skipped env;
     if taken = [] then State_Monad.return (Inr 0) else revisit env taken
   }"

section \<open>Pages\<close>

definition backstop_page :: nat where
  "backstop_page = 1000"

definition visit_pages :: nat where
  "visit_pages = 8"

text \<open>The rows of one page: after \<open>pos\<close>, up to the high-water mark, in key order.\<close>

definition page_of :: "('a \<Rightarrow> nat) \<Rightarrow> nat \<Rightarrow> nat \<Rightarrow> 'a list \<Rightarrow> 'a list" where
  "page_of key pos hwm xs = take backstop_page (sort_key key (filter (\<lambda>x. pos < key x \<and> key x \<le> hwm) xs))"

text \<open>What a page tells the visit: whether it was full, the last key read, the number released.\<close>

type_synonym page_result = "bool \<times> nat \<times> nat"

definition page_end :: "('a \<Rightarrow> nat) \<Rightarrow> 'a list \<Rightarrow> nat \<Rightarrow> page_result" where
  "page_end key rows freed = (length rows = backstop_page, key (last rows), freed)"

definition edge_page :: "flow_env \<Rightarrow> uuid \<Rightarrow> nat \<Rightarrow> nat \<Rightarrow> (failure + page_result) stm" where
  "edge_page env w pos hwm = do {
     rows \<leftarrow> read_stm env (\<lambda>s. page_of e_pk pos hwm (filter (\<lambda>e. e_workflow e = w \<and> \<not> e_satisfied e) (flow_edges s)));
     if rows = [] then State_Monad.return (Inr (False, pos, 0))
     else do {
       proven \<leftarrow> succeeded_or_recorded env (map e_up rows);
       let wanted = map (\<lambda>e. (e_pk e, e_down e)) (filter (\<lambda>e. e_up e \<in> set proven) rows);
       if wanted = [] then State_Monad.return (Inr (page_end e_pk rows 0))
       else raising (write_locked env True edge_pks (map fst wanted) (mark_satisfied env)) (\<lambda>(marked, skipped). do {
         queue_skipped env (map snd (filter (\<lambda>p. fst p \<in> set skipped) wanted));
         let downstream = map snd (filter (\<lambda>p. fst p \<in> set marked) wanted);
         if downstream = [] then State_Monad.return (Inr (page_end e_pk rows 0))
         else raising (release_downstream env downstream) (\<lambda>k. State_Monad.return (Inr (page_end e_pk rows k)))
       })
     }
   }"

definition open_node_page :: "flow_env \<Rightarrow> uuid \<Rightarrow> nat \<Rightarrow> nat \<Rightarrow> open_node list stm" where
  "open_node_page env w pos hwm =
     read_stm env (\<lambda>s. map open_node (page_of n_pk pos hwm (filter (\<lambda>n. n_workflow n = w \<and> \<not> n_succeeded n) (flow_nodes s))))"

definition node_page :: "flow_env \<Rightarrow> uuid \<Rightarrow> nat \<Rightarrow> nat \<Rightarrow> (failure + page_result) stm" where
  "node_page env w pos hwm = do {
     rows \<leftarrow> open_node_page env w pos hwm;
     if rows = [] then State_Monad.return (Inr (False, pos, 0))
     else raising (repair_node_records env True rows) (\<lambda>_. State_Monad.return (Inr (page_end fst rows 0)))
   }"

definition release_page :: "flow_env \<Rightarrow> uuid \<Rightarrow> nat \<Rightarrow> nat \<Rightarrow> (failure + page_result) stm" where
  "release_page env w pos hwm = do {
     rows \<leftarrow> open_node_page env w pos hwm;
     if rows = [] then State_Monad.return (Inr (False, pos, 0))
     else do {
       waiting \<leftarrow> reads env (\<lambda>c s. map pk (filter (\<lambda>r. pk r \<in> set c \<and> status r = WAITING) (flow_rows s)))
         (id_chunks env (map (\<lambda>n. fst (snd n)) rows));
       if waiting = [] then State_Monad.return (Inr (page_end fst rows 0))
       else raising (release_downstream env waiting) (\<lambda>k. State_Monad.return (Inr (page_end fst rows k)))
     }
   }"

section \<open>A visit\<close>

type_synonym place = "scan_phase \<times> nat \<times> nat option \<times> nat option"

definition at_rest :: place where
  "at_rest = (Edges, 0, None, None)"

definition place_of :: "flow_scan \<Rightarrow> place" where
  "place_of x = (s_phase x, s_position x, s_edge_hwm x, s_node_hwm x)"

definition placed :: "place \<Rightarrow> flow_scan \<Rightarrow> flow_scan" where
  "placed p x = (case p of (ph, pos, eh, nh) \<Rightarrow>
     x\<lparr>s_phase := ph, s_position := pos, s_edge_hwm := eh, s_node_hwm := nh\<rparr>)"

definition new_scan :: "uuid \<Rightarrow> flow_scan" where
  "new_scan w = \<lparr>s_workflow = w, s_phase = Edges, s_position = 0, s_edge_hwm = None, s_node_hwm = None,
     s_skipped = [], s_version = 0\<rparr>"

text \<open>\<open>_store_scan\<close>: a compare-and-set on the place this visit last saw.\<close>

definition store_scan :: "flow_env \<Rightarrow> uuid \<Rightarrow> place \<Rightarrow> place \<Rightarrow> bool stm" where
  "store_scan env w stored p =
     (if p = stored then State_Monad.return True
      else do {
        k \<leftarrow> writing env (set_scan (\<lambda>x. s_workflow x = w \<and> place_of x = stored)
          (\<lambda>x. (placed p x)\<lparr>s_version := s_version x + 1\<rparr>));
        if k \<noteq> 0 then State_Monad.return True
        else if stored \<noteq> at_rest then State_Monad.return False
        else writing env (insert_scan (placed p (new_scan w)))
      })"

fun following_phase :: "scan_phase \<Rightarrow> scan_phase option" where
  "following_phase Edges = Some Nodes"
| "following_phase Nodes = Some Release"
| "following_phase Release = None"

fun run_page :: "flow_env \<Rightarrow> uuid \<Rightarrow> scan_phase \<Rightarrow> nat \<Rightarrow> nat \<Rightarrow> nat \<Rightarrow> (failure + page_result) stm" where
  "run_page env w Edges pos eh nh = edge_page env w pos eh"
| "run_page env w Nodes pos eh nh = node_page env w pos nh"
| "run_page env w Release pos eh nh = release_page env w pos nh"

definition overdue :: "(nat \<Rightarrow> bool) \<Rightarrow> bool stm" where
  "overdue late = State (\<lambda>(n, s). (late n, (n, s)))"

text \<open>The loop of \<open>_visit\<close>, \<open>left\<close> pages of it left; \<open>paged\<close> once a page has run.  The marks stay as the
  pass recorded them.\<close>

fun visit_from :: "flow_env \<Rightarrow> (nat \<Rightarrow> bool) \<Rightarrow> uuid \<Rightarrow> nat \<Rightarrow> nat \<Rightarrow> nat \<Rightarrow> bool \<Rightarrow> scan_phase \<Rightarrow> nat \<Rightarrow> place
    \<Rightarrow> (failure + nat) stm" where
  "visit_from env late w eh nh 0 paged ph pos stored = do {
     ok \<leftarrow> store_scan env w stored (ph, pos, Some eh, Some nh);
     State_Monad.return (Inr 0)
   }"
| "visit_from env late w eh nh (Suc left) paged ph pos stored = do {
     stop \<leftarrow> (if paged then overdue late else State_Monad.return False);
     if stop then do {
       ok \<leftarrow> store_scan env w stored (ph, pos, Some eh, Some nh);
       State_Monad.return (Inr 0)
     }
     else raising (run_page env w ph pos eh nh) (\<lambda>(full, last_key, freed).
       if full then do {
         ok \<leftarrow> store_scan env w stored (ph, last_key, Some eh, Some nh);
         if ok then raising (visit_from env late w eh nh left True ph last_key (ph, last_key, Some eh, Some nh))
           (\<lambda>more. State_Monad.return (Inr (freed + more)))
         else State_Monad.return (Inr freed)
       }
       else (case following_phase ph of
           Some ph' \<Rightarrow> raising (visit_from env late w eh nh left True ph' 0 stored)
             (\<lambda>more. State_Monad.return (Inr (freed + more)))
         | None \<Rightarrow> do {
             ok \<leftarrow> (if stored \<noteq> at_rest then store_scan env w stored at_rest else State_Monad.return True);
             State_Monad.return (Inr freed)
           }))
   }"

definition visit :: "flow_env \<Rightarrow> (nat \<Rightarrow> bool) \<Rightarrow> nat \<times> nat \<Rightarrow> uuid \<Rightarrow> (failure + nat) stm" where
  "visit env late marks w = do {
     row \<leftarrow> read_stm env (find_scan w);
     let stored = (case row of None \<Rightarrow> at_rest | Some x \<Rightarrow> place_of x);
     (case stored of
        (ph, pos, Some eh, Some nh) \<Rightarrow> visit_from env late w eh nh visit_pages False ph pos stored
      | _ \<Rightarrow> visit_from env late w (fst marks) (snd marks) visit_pages False Edges 0 stored)
   }"

section \<open>A round and a tick\<close>

definition highest :: "nat list \<Rightarrow> nat" where
  "highest ks = foldr max ks 0"

text \<open>The visits of one tick, \<open>prev\<close> the workflow visited last; the result names where the round stopped
  part-way.\<close>

fun visit_each :: "flow_env \<Rightarrow> (nat \<Rightarrow> bool) \<Rightarrow> nat \<times> nat \<Rightarrow> uuid option \<Rightarrow> uuid list \<Rightarrow> (failure + nat \<times> uuid option) stm" where
  "visit_each env late marks prev [] = State_Monad.return (Inr (0, None))"
| "visit_each env late marks prev (w # ws) = do {
     stop \<leftarrow> (if prev = None then State_Monad.return False else overdue late);
     if stop then State_Monad.return (Inr (0, prev))
     else raising (visit env late marks w) (\<lambda>k.
       raising (visit_each env late marks (Some w) ws) (\<lambda>(j, stopped). State_Monad.return (Inr (k + j, stopped))))
   }"

definition move_round :: "uuid \<Rightarrow> int option \<Rightarrow> flow \<Rightarrow> unit \<times> flow" where
  "move_round w version s =
     (case version of
        None \<Rightarrow> ((), if flow_round_row s = None then s\<lparr>flow_round_row := Some \<lparr>r_workflow = w, r_version = 1\<rparr>\<rparr> else s)
      | Some v \<Rightarrow>
          (case flow_round_row s of
             Some r \<Rightarrow> ((), if r_version r = v then s\<lparr>flow_round_row := Some \<lparr>r_workflow = w, r_version = v + 1\<rparr>\<rparr> else s)
           | None \<Rightarrow> ((), s)))"

definition live_workflows :: "flow \<Rightarrow> uuid list" where
  "live_workflows s = sort (map w_key (filter (\<lambda>x. w_status x \<in> {OPEN, SEALED}) (flow_workflows s)))"

definition backstop_round :: "flow_env \<Rightarrow> (nat \<Rightarrow> bool) \<Rightarrow> (failure + nat) stm" where
  "backstop_round env late = do {
     live \<leftarrow> read_stm env live_workflows;
     if live = [] then State_Monad.return (Inr 0)
     else do {
       stored \<leftarrow> read_stm env flow_round_row;
       edge_mark \<leftarrow> read_stm env (\<lambda>s. highest (edge_pks s));
       node_mark \<leftarrow> read_stm env (\<lambda>s. highest (node_pks s));
       raising (visit_each env late (edge_mark, node_mark) None (rotated id (map_option r_workflow stored) live))
         (\<lambda>(freed, stopped). do {
           (case stopped of None \<Rightarrow> State_Monad.return () | Some w \<Rightarrow> writing env (move_round w (map_option r_version stored)));
           State_Monad.return (Inr freed)
         })
     }
   }"

definition release_backstop :: "flow_env \<Rightarrow> (nat \<Rightarrow> bool) \<Rightarrow> (failure + nat) stm" where
  "release_backstop env late =
     raising (revisit_skipped env) (\<lambda>k. raising (backstop_round env late) (\<lambda>j. State_Monad.return (Inr (k + j))))"

text \<open>\<open>_reconcile\<close>: a backstop that fails is logged, unless the tick ran out of time; so is a workflow.\<close>

definition reconcile_workflow :: "flow_env \<Rightarrow> enqueue \<Rightarrow> uuid \<Rightarrow> (failure + bool) stm" where
  "reconcile_workflow env enq w = raising (cancel_unreachable env w) (\<lambda>_. complete_flow_if_finished env enq w)"

definition reconcile_flow :: "flow_env \<Rightarrow> enqueue \<Rightarrow> (failure \<Rightarrow> bool) \<Rightarrow> (nat \<Rightarrow> bool) \<Rightarrow> (uuid list \<Rightarrow> uuid list)
    \<Rightarrow> (nat \<Rightarrow> int option) \<Rightarrow> (nat \<Rightarrow> int) \<Rightarrow> (failure + nat) stm" where
  "reconcile_flow env enq timed_out late shuffle left took = do {
     r \<leftarrow> release_backstop env late;
     (case r of
        Inl e \<Rightarrow> if timed_out e then State_Monad.return (Inl e) else State_Monad.return (Inr 0)
      | Inr k \<Rightarrow> State_Monad.return (Inr k)) \<bind> (\<lambda>b. case b of
          Inl e \<Rightarrow> State_Monad.return (Inl e)
        | Inr k \<Rightarrow> do {
            sealed \<leftarrow> read_stm env (\<lambda>s. map w_key (filter (\<lambda>x. w_status x = SEALED) (flow_workflows s)));
            State (reconcile_each (\<lambda>w. run_state (reconcile_workflow env enq w)) timed_out
              (sweep left took 0 0 (shuffle sealed)) 0)
          })
   }"

section \<open>Retirement\<close>

definition retirable_statuses :: "status set" where
  "retirable_statuses = {SUCCESSFUL, DISCARDED}"

record retired_rows =
  rt_nodes :: nat
  rt_edges :: nat
  rt_pending :: bool

definition retired_workflow :: "uuid \<Rightarrow> flow \<Rightarrow> bool" where
  "retired_workflow w s = (case find_workflow w s of None \<Rightarrow> False | Some x \<Rightarrow> w_retired_at x \<noteq> None)"

text \<open>\<open>_stamp_retired_once\<close>, one statement under the row's lock.\<close>

definition stamp_once :: "flow_env \<Rightarrow> uuid \<Rightarrow> (failure + bool) stm" where
  "stamp_once env w = writing_at env (\<lambda>n s.
     if flow_status w s = Some COMPLETE \<and> \<not> retired_workflow w s
     then (Inr True, set_workflow w (\<lambda>x. x\<lparr>w_retired_at := Some (fe_now env n)\<rparr>) s)
     else (Inr (flow_status w s = Some COMPLETE \<and> retired_workflow w s), s))"

definition stamp_retired :: "flow_env \<Rightarrow> uuid \<Rightarrow> (failure + bool) stm" where
  "stamp_retired env w = reissued_stm env True (transact env (stamp_once env w))"

type_synonym going = "(nat \<times> uuid) list"

text \<open>The nodes of a chunk whose row, read under its lock, no retry can move.\<close>

definition going_nodes :: "(uuid \<times> status) list \<Rightarrow> (nat \<times> uuid \<times> status option) list \<Rightarrow> going" where
  "going_nodes statuses chunk =
     map (\<lambda>(p, k, out). (p, k)) (filter (\<lambda>(p, k, out). case map_of statuses k of None \<Rightarrow> True | Some st \<Rightarrow> st \<in> retirable_statuses) chunk)"

definition gone_successful :: "(uuid \<times> status) list \<Rightarrow> (nat \<times> uuid \<times> status option) list \<Rightarrow> uuid list" where
  "gone_successful statuses chunk =
     map (\<lambda>(p, k, out). k) (filter (\<lambda>(p, k, out). case map_of statuses k of
       None \<Rightarrow> out = Some SUCCESSFUL | Some st \<Rightarrow> st = SUCCESSFUL) chunk)"

definition delete_nodes :: "nat list \<Rightarrow> flow \<Rightarrow> nat \<times> flow" where
  "delete_nodes pks s =
     (length (filter (\<lambda>n. n_pk n \<in> set pks \<and> n_outcome n \<noteq> None) (flow_nodes s)),
      s\<lparr>flow_nodes := filter (\<lambda>n. \<not> (n_pk n \<in> set pks \<and> n_outcome n \<noteq> None)) (flow_nodes s)\<rparr>)"

definition delete_edges :: "nat list \<Rightarrow> flow \<Rightarrow> nat \<times> flow" where
  "delete_edges pks s =
     (length (filter (\<lambda>e. e_pk e \<in> set pks) (flow_edges s)),
      s\<lparr>flow_edges := filter (\<lambda>e. e_pk e \<notin> set pks) (flow_edges s)\<rparr>)"

definition retire_chunk :: "flow_env \<Rightarrow> uuid \<Rightarrow> nat \<Rightarrow> (nat \<times> uuid \<times> status option) list
    \<Rightarrow> (failure + nat \<times> nat \<times> uuid list) stm" where
  "retire_chunk env w step chunk = do {
     stamped \<leftarrow> read_stm env (retired_workflow w);
     if \<not> stamped then State_Monad.return (Inr (0, 0, []))
     else do {
       let ids = map (\<lambda>(p, k, out). k) chunk;
       present \<leftarrow> read_stm env (\<lambda>s. filter (\<lambda>k. status_at k s \<noteq> None) ids);
       statuses \<leftarrow> read_stm env (\<lambda>s. List.map_filter (\<lambda>k. map_option (Pair k) (status_at k s)) present);
       let going = going_nodes statuses chunk;
       if going = [] then State_Monad.return (Inr (0, 0, []))
       else do {
         lock_in_key_order env False node_pks (map fst going);
         noted \<leftarrow> read_stm env (\<lambda>s. map n_pk (filter (\<lambda>n. n_pk n \<in> fst ` set going \<and> n_outcome n \<noteq> None) (flow_nodes s)));
         let gone = filter (\<lambda>x. fst x \<in> set noted) going;
         if gone = [] then State_Monad.return (Inr (0, 0, []))
         else do {
           let succeeded = filter (\<lambda>k. k \<in> snd ` set gone) (gone_successful statuses chunk);
           into \<leftarrow> read_stm env (\<lambda>s. map e_pk (filter (\<lambda>e. e_workflow e = w \<and> e_down e \<in> snd ` set gone) (flow_edges s)));
           out \<leftarrow> reads env (\<lambda>c s. map (\<lambda>e. (e_pk e, e_down e)) (filter (\<lambda>e. e_workflow e = w \<and> \<not> e_satisfied e
               \<and> e_up e \<in> set c \<and> e_pk e \<notin> set into) (flow_edges s)))
             (id_chunks env (remdups succeeded));
           lock_in_key_order env False edge_pks (into @ map fst out);
           dn \<leftarrow> writing env (delete_nodes (map fst gone));
           de \<leftarrow> writes env delete_edges (chunks (min step (id_chunk_size env)) (sort into));
           (if out = [] then State_Monad.return 0 else mark_satisfied env (map fst out));
           State_Monad.return (Inr (dn, de, map snd out))
         }
       }
     }
   }"

definition retire_page :: "uuid \<Rightarrow> nat \<Rightarrow> nat \<Rightarrow> flow \<Rightarrow> (nat \<times> uuid \<times> status option) list" where
  "retire_page w after step s = take step (map (\<lambda>n. (n_pk n, n_task n, n_outcome n))
     (sort_key n_pk (filter (\<lambda>n. n_workflow n = w \<and> n_outcome n \<noteq> None \<and> after < n_pk n) (flow_nodes s))))"

text \<open>The loop of \<open>retire_workflow\<close>; None when \<open>fuel\<close> chunks were not enough.\<close>

fun retire_from :: "flow_env \<Rightarrow> uuid \<Rightarrow> nat \<Rightarrow> nat \<Rightarrow> nat \<Rightarrow> (failure + (nat \<times> nat) option) stm" where
  "retire_from env w step 0 after = State_Monad.return (Inr None)"
| "retire_from env w step (Suc fuel) after = do {
     chunk \<leftarrow> read_stm env (retire_page w after step);
     if chunk = [] then State_Monad.return (Inr (Some (0, 0)))
     else raising (reissued_stm env True (transact env (retire_chunk env w step chunk))) (\<lambda>(dn, de, marked).
       raising (if marked = [] then State_Monad.return (Inr 0) else release_downstream env marked) (\<lambda>_.
       raising (retire_from env w step fuel (fst (last chunk))) (\<lambda>rest.
         State_Monad.return (Inr (map_option (\<lambda>(n, e). (dn + n, de + e)) rest)))))
   }"

definition retire_workflow :: "flow_env \<Rightarrow> nat \<Rightarrow> nat \<Rightarrow> uuid \<Rightarrow> (failure + retired_rows option) stm" where
  "retire_workflow env fuel chunk_size w = raising (stamp_retired env w) (\<lambda>stamped.
     if \<not> stamped then State_Monad.return (Inr (Some \<lparr>rt_nodes = 0, rt_edges = 0, rt_pending = False\<rparr>))
     else do {
       classes \<leftarrow> read_stm env (classify w);
       if c_pending classes \<noteq> 0
       then State_Monad.return (Inr (Some \<lparr>rt_nodes = 0, rt_edges = 0, rt_pending = True\<rparr>))
       else raising (repair_records env w) (\<lambda>_.
         raising (retire_from env w (max 1 (min chunk_size (id_chunk_size env))) fuel 0) (\<lambda>rest.
           State_Monad.return (Inr (map_option (\<lambda>(n, e). \<lparr>rt_nodes = n, rt_edges = e, rt_pending = False\<rparr>) rest))))
     })"

text \<open>\<open>retirable_workflows\<close>\<close>

definition prune_can_act :: "flow \<Rightarrow> flow_node \<Rightarrow> bool" where
  "prune_can_act s n =
     (case fetch (n_task n) (flow_rows s) of
        None \<Rightarrow> n_outcome n \<noteq> None
      | Some r \<Rightarrow> status r \<notin> retryable_statuses \<or> outcome_accepts (status r) (lease_epoch r) n)"

definition past_cutoff :: "int \<Rightarrow> workflow \<Rightarrow> bool" where
  "past_cutoff cutoff x = (w_status x = COMPLETE \<and> (case w_completed_at x of None \<Rightarrow> False | Some t \<Rightarrow> t < cutoff))"

definition retirable_workflows :: "flow_env \<Rightarrow> int \<Rightarrow> uuid list stm" where
  "retirable_workflows env cutoff = do {
     unstamped \<leftarrow> read_stm env (\<lambda>s. map w_key (filter (\<lambda>x. past_cutoff cutoff x \<and> w_retired_at x = None) (flow_workflows s)));
     stamped \<leftarrow> read_stm env (\<lambda>s. map w_key (filter (\<lambda>x. past_cutoff cutoff x \<and> w_retired_at x \<noteq> None
       \<and> nodes_of (w_key x) s \<noteq> []) (flow_workflows s)));
     acting \<leftarrow> reads env (\<lambda>c s. map n_workflow (filter (\<lambda>n. n_workflow n \<in> set c \<and> prune_can_act s n) (flow_nodes s)))
       (id_chunks env stamped);
     State_Monad.return (sort (remdups (unstamped @ acting)))
   }"

text \<open>\<open>clean_scan_rows\<close>\<close>

definition clean_scan_chunk :: "flow_env \<Rightarrow> uuid list \<Rightarrow> (failure + nat) stm" where
  "clean_scan_chunk env ids = do {
     live \<leftarrow> read_stm env (\<lambda>s. filter (\<lambda>w. flow_status w s \<in> {Some OPEN, Some SEALED}) ids);
     let gone = filter (\<lambda>w. w \<notin> set live) ids;
     if gone = [] then State_Monad.return (Inr 0)
     else writing env (\<lambda>s. (Inr (length (filter (\<lambda>x. s_workflow x \<in> set gone) (flow_scans s))),
       s\<lparr>flow_scans := filter (\<lambda>x. s_workflow x \<notin> set gone) (flow_scans s)\<rparr>))
   }"

fun clean_each :: "flow_env \<Rightarrow> uuid list list \<Rightarrow> (failure + nat) stm" where
  "clean_each env [] = State_Monad.return (Inr 0)"
| "clean_each env (c # cs) = raising (reissued_stm env True (clean_scan_chunk env c)) (\<lambda>k.
     raising (clean_each env cs) (\<lambda>j. State_Monad.return (Inr (k + j))))"

definition clean_scan_rows :: "flow_env \<Rightarrow> nat \<Rightarrow> (failure + nat) stm" where
  "clean_scan_rows env chunk_size = do {
     ws \<leftarrow> read_stm env (\<lambda>s. map s_workflow (flow_scans s));
     clean_each env (chunks (max 1 (min chunk_size (id_chunk_size env))) (sort ws))
   }"

end
