(* ===== verification/FlowVisits.thy ===== *)
theory FlowVisits
  imports FlowBackstop FlowEnds
begin

text \<open>
  The backstop as paths of the specification: the skip queues, the pages, a visit, a round, and a tick up to the
  sealed workflows it reconciles.
\<close>

section \<open>Scan rows\<close>

lemma set_scan_go:
  assumes P: "lasting foreign P" and y: "flow_inv foreign y" "P y"
    and f: "\<And>x. x \<in> set (flow_scans (fs_store y)) \<Longrightarrow> R x \<Longrightarrow> set (s_skipped (f x)) \<subseteq> fs_ids y"
  shows "\<exists>y'. (flow_step foreign)\<^sup>*\<^sup>* y y' \<and> fs_store y' = snd (set_scan R f (fs_store y)) \<and> P y'"
proof (rule one_step [OF P y])
  let ?xs = "map (\<lambda>x. if R x then f x else x) (flow_scans (fs_store y))"
  show "flow_step foreign y (y\<lparr>fs_store := (fs_store y)\<lparr>flow_scans := ?xs\<rparr>\<rparr>)"
    by (rule scans_step) (use f inv_facts(3) [OF y(1)] in \<open>auto simp: scan_inv_def\<close>)
qed (simp add: set_scan_def)

lemma insert_scan_go:
  assumes P: "lasting foreign P" and y: "flow_inv foreign y" "P y" and x: "set (s_skipped x) \<subseteq> fs_ids y"
  shows "\<exists>y'. (flow_step foreign)\<^sup>*\<^sup>* y y' \<and> fs_store y' = snd (insert_scan x (fs_store y)) \<and> P y'"
proof (cases "find_scan (s_workflow x) (fs_store y) = None")
  case True
  show ?thesis
  proof (rule one_step [OF P y])
    show "flow_step foreign y (y\<lparr>fs_store := (fs_store y)\<lparr>flow_scans := flow_scans (fs_store y) @ [x]\<rparr>\<rparr>)"
      by (rule scans_step) (use x inv_facts(3) [OF y(1)] in \<open>auto simp: scan_inv_def\<close>)
  qed (simp add: insert_scan_def True)
qed (use y in \<open>auto simp: insert_scan_def\<close>)

lemma move_round_go:
  assumes P: "lasting foreign P" and y: "flow_inv foreign y" "P y"
  shows "\<exists>y'. (flow_step foreign)\<^sup>*\<^sup>* y y' \<and> fs_store y' = snd (move_round w v (fs_store y)) \<and> P y'"
proof -
  let ?rr = "flow_round_row (snd (move_round w v (fs_store y)))"
  have rr: "snd (move_round w v (fs_store y)) = (fs_store y)\<lparr>flow_scans := flow_scans (fs_store y), flow_round_row := ?rr\<rparr>"
    by (cases v; cases "flow_round_row (fs_store y)") (simp_all add: move_round_def)
  show ?thesis
  proof (rule one_step [OF P y])
    show "flow_step foreign y (y\<lparr>fs_store := (fs_store y)\<lparr>flow_scans := flow_scans (fs_store y), flow_round_row := ?rr\<rparr>\<rparr>)"
      by (rule flow_step.scans) (use inv_facts(3) [OF y(1)] in \<open>auto simp: scan_inv_def\<close>)
  qed (subst rr, simp)
qed

section \<open>The skip queues\<close>

lemma rotated_set: "set (rotated key after xs) = set xs"
  unfolding rotated_def Let_def by (simp only: set_append Un_commute [of "set (drop _ _)"]) (simp flip: set_append)

lemma goes_take_each:
  assumes env: "flow_env_ok foreign env" and P: "lasting foreign P"
    and ids: "\<And>y w q v. P y \<Longrightarrow> (w, q, v) \<in> set qs \<Longrightarrow> set q \<subseteq> fs_ids y"
  shows "goes foreign P (take_each env qs n) (\<lambda>taken y. P y \<and> set taken \<subseteq> fs_ids y)"
  using ids
proof (induction qs arbitrary: n)
  case (Cons q qs)
  let ?Q = "\<lambda>taken y. P y \<and> set taken \<subseteq> fs_ids y"
  obtain w queued version where q: "q = (w, queued, version)" by (rule prod_cases3)
  have ids: "P y \<Longrightarrow> set queued \<subseteq> fs_ids y" for y using Cons.prems [of y w queued version] q by simp
  have rest: "goes foreign P (take_each env qs m) ?Q" for m
    by (rule Cons.IH) (use Cons.prems in \<open>meson list.set_intros(2)\<close>)
  have w: "goes foreign P (writing env (set_scan (\<lambda>x. s_workflow x = w \<and> s_version x = version)
      (\<lambda>x. x\<lparr>s_skipped := drop (id_chunk_limit - n) queued, s_version := version + 1\<rparr>))) (\<lambda>k. P)"
  proof (rule goes_writing [OF kept_lasting [OF env P]])
    fix y assume y: "flow_inv foreign y" "P y"
    show "\<exists>y'. (flow_step foreign)\<^sup>*\<^sup>* y y' \<and> fs_store y' = snd (set_scan (\<lambda>x. s_workflow x = w \<and> s_version x = version)
      (\<lambda>x. x\<lparr>s_skipped := drop (id_chunk_limit - n) queued, s_version := version + 1\<rparr>) (fs_store y)) \<and> P y'"
      by (rule set_scan_go [OF P y]) (use ids [OF y(2)] set_drop_subset [of "id_chunk_limit - n" queued] in auto)
  qed
  have more: "goes foreign P (take_each env qs m \<bind> (\<lambda>more. State_Monad.return (take j queued @ more))) ?Q" for m j
    by (rule goes_bind [OF rest]) (rule goes_return, use ids set_take_subset [of j queued] in fastforce)
  show ?case unfolding q take_each.simps
    by (intro goes_if goes_bind [OF w] more rest goes_return) simp
qed (auto intro: goes_return)

lemma goes_take_skipped:
  assumes env: "flow_env_ok foreign env" and P: "lasting foreign P"
  shows "goes foreign P (take_skipped env) (\<lambda>taken y. P y \<and> set taken \<subseteq> fs_ids y)"
  unfolding take_skipped_def
proof (rule goes_bind)
  let ?R = "\<lambda>qs y. P y \<and> (\<forall>x \<in> set qs. set (fst (snd x)) \<subseteq> fs_ids y)"
  show "goes foreign P (read_stm env (\<lambda>s. map (\<lambda>x. (s_workflow x, s_skipped x, s_version x)) (sort_key s_workflow (flow_scans s)))) ?R"
    by (rule goes_reading [OF kept_lasting [OF env P]]) (use inv_facts(3) in \<open>fastforce simp: scan_inv_def\<close>)
  fix qs :: "(uuid \<times> uuid list \<times> int) list"
  have R: "lasting foreign (?R qs)" by (rule lasting_conj [OF P], rule lasting_all, rule lasting_subset(2))
  have q: "goes foreign (?R qs) (take_each env (rotated fst after qs) 0) (\<lambda>taken y. P y \<and> set taken \<subseteq> fs_ids y)" for after
    by (rule goes_weaken [OF goes_take_each [OF env R]]) (fastforce simp: rotated_set)+
  show "goes foreign (?R qs) (read_stm env round_workflow \<bind> (\<lambda>after. take_each env (rotated fst after qs) 0))
      (\<lambda>taken y. P y \<and> set taken \<subseteq> fs_ids y)"
    by (rule goes_bind [OF goes_reading [OF kept_lasting [OF env R], where Q = "\<lambda>a. ?R qs"] q])
qed

section \<open>Records of a page\<close>

lemma lasting_open: "lasting foreign (\<lambda>y. n \<in> fs_node_pks y \<and> (\<forall>x \<in> set (flow_nodes (fs_store y)). n_pk x = n \<longrightarrow> n_task x = k))"
  unfolding lasting_def
proof (intro allI impI, elim conjE, intro conjI ballI impI)
  fix y y' x assume st: "flow_step foreign y y'" and p: "n \<in> fs_node_pks y"
    and same: "\<forall>x \<in> set (flow_nodes (fs_store y)). n_pk x = n \<longrightarrow> n_task x = k"
    and x: "x \<in> set (flow_nodes (fs_store y'))" "n_pk x = n"
  from step_nodes [OF st x(1)] p x(2) same show "n_task x = k" by auto
qed (use step_grows in blast)

text \<open>What a page read of its nodes stays true: the node of this key has this task.\<close>

definition node_task :: "open_node \<Rightarrow> flow_sys \<Rightarrow> bool" where
  "node_task n y = (fst n \<in> fs_node_pks y \<and> (\<forall>x \<in> set (flow_nodes (fs_store y)). n_pk x = fst n \<longrightarrow> n_task x = fst (snd n)))"

lemma lasting_node_task [intro]: "lasting foreign (node_task n)"
  unfolding node_task_def by (rule lasting_open)

lemma open_node_task:
  assumes inv: "flow_inv foreign y" and x: "x \<in> set (flow_nodes (fs_store y))"
  shows "node_task (open_node x) y"
proof -
  note D = count_invD [OF inv_facts(2) [OF inv]]
  have "z = x" if "z \<in> set (flow_nodes (fs_store y))" "n_pk z = n_pk x" for z
    using D(3) x that by (simp add: distinct_map inj_on_def)
  with D(4) x show ?thesis by (auto simp: node_task_def open_node_def)
qed

lemma goes_repair_nodes:
  assumes env: "flow_env_ok foreign env" and P: "lasting foreign P" and nodes: "\<And>y n. P y \<Longrightarrow> n \<in> set nodes \<Longrightarrow> node_task n y"
  shows "goes foreign P (repair_node_records env skip nodes) (\<lambda>r. P)"
  unfolding repair_node_records_def Let_def
proof (rule goes_bind)
  let ?R = "\<lambda>rows y. P y \<and> (\<forall>x \<in> set rows. fst (snd x) = SUCCESSFUL \<longrightarrow> fst x \<in> fs_won y)"
  show "goes foreign P (reads env (\<lambda>c s. map (\<lambda>r. (pk r, status r, lease_epoch r)) (filter (\<lambda>r. pk r \<in> set c) (flow_rows s)))
      (id_chunks env (map (\<lambda>n. fst (snd n)) nodes))) ?R"
  proof (rule goes_reads [OF kept_lasting [OF env P]])
    fix y c x assume y: "flow_inv foreign y"
      "x \<in> set (map (\<lambda>r. (pk r, status r, lease_epoch r)) (filter (\<lambda>r. pk r \<in> set c) (flow_rows (fs_store y))))"
    then show "fst (snd x) = SUCCESSFUL \<longrightarrow> fst x \<in> fs_won y" using order_invD(8) [OF inv_facts(1) [OF y(1)]] by auto
  qed (rule lasting_impl, rule lasting_won)
  fix rows :: "(uuid \<times> status \<times> int) list"
  let ?wanted = "List.map_filter (record_wanted rows) nodes"
  have R: "lasting foreign (?R rows)" by (rule lasting_conj [OF P], rule lasting_all, rule lasting_impl, rule lasting_won)
  have true: "true_records (map (\<lambda>(p, st, ep, k). (p, st, ep)) (filter (\<lambda>x. fst x \<in> set pks) ?wanted)) y" if y: "?R rows y" for pks y
    unfolding true_records_def
  proof (rule ballI)
    fix r assume "r \<in> set (map (\<lambda>(p, st, ep, k). (p, st, ep)) (filter (\<lambda>x. fst x \<in> set pks) ?wanted))"
    then obtain n p st ep k where n: "n \<in> set nodes" "record_wanted rows n = Some (p, st, ep, k)" "r = (p, st, ep)"
      by (auto simp: List.map_filter_def)
    then have "fst n = p" "(fst (snd n), st, ep) \<in> set rows"
      by (auto simp: record_wanted_def split: prod.splits option.splits if_splits dest!: map_of_SomeD)
    with y nodes [OF _ n(1), of y] n(3) show "case r of (p, st, ep) \<Rightarrow> st = SUCCESSFUL \<longrightarrow> node_won p y"
      by (fastforce simp: node_task_def node_won_def)
  qed
  have rec: "goes foreign (?R rows) (record_many env (map (\<lambda>(p, st, e, k). (p, st, e)) (filter (\<lambda>x. fst x \<in> set pks) ?wanted)))
      (\<lambda>k. ?R rows)" for pks
    by (rule goes_record_many [OF env R true])
  have q: "goes foreign (?R rows) (queue_skipped env ks \<bind> (\<lambda>_. State_Monad.return (Inr ()))) (\<lambda>r. P)" for ks
    by (rule goes_bind [OF goes_queue_skipped [OF env R]]) (auto intro: goes_return)
  have w: "goes foreign (?R rows) (raising (write_locked env skip node_pks (map fst ?wanted)
         (\<lambda>pks. record_many env (map (\<lambda>(p, st, e, k). (p, st, e)) (filter (\<lambda>x. fst x \<in> set pks) ?wanted))))
       (\<lambda>(written, skipped). queue_skipped env (map (\<lambda>(p, st, e, k). k) (filter (\<lambda>x. fst x \<in> set skipped) ?wanted))
         \<bind> (\<lambda>_. State_Monad.return (Inr ())))) (\<lambda>r. P)"
    by (rule goes_raising [OF goes_write_locked [OF kept_lasting [OF env R] rec]]) (auto split: prod.splits intro: q)
  show "goes foreign (?R rows) (if ?wanted = [] then State_Monad.return (Inr ())
     else raising (write_locked env skip node_pks (map fst ?wanted)
         (\<lambda>pks. record_many env (map (\<lambda>(p, st, e, k). (p, st, e)) (filter (\<lambda>x. fst x \<in> set pks) ?wanted))))
       (\<lambda>(written, skipped). queue_skipped env (map (\<lambda>(p, st, e, k). k) (filter (\<lambda>x. fst x \<in> set skipped) ?wanted))
         \<bind> (\<lambda>_. State_Monad.return (Inr ())))) (\<lambda>r. P)"
    by (rule goes_if [OF goes_return w]) auto
qed

lemma goes_revisit:
  assumes env: "flow_env_ok foreign env" and P: "lasting foreign P" and ids: "\<And>y. P y \<Longrightarrow> set ids \<subseteq> fs_ids y"
  shows "goes foreign P (revisit env ids) (\<lambda>r. P)"
  unfolding revisit_def
proof (rule goes_raising [OF goes_satisfy_edges_into [OF env P]])
  let ?R = "\<lambda>ns y. P y \<and> (\<forall>n \<in> set ns. node_task n y)"
  have R: "lasting foreign (?R ns)" for ns by (rule lasting_conj [OF P], rule lasting_all, rule lasting_node_task)
  have r: "goes foreign (?R ns) (raising (repair_node_records env False ns) (\<lambda>_. release_downstream env ids)) (\<lambda>r. P)" for ns
    by (rule goes_raising [OF goes_repair_nodes [OF env R] goes_weaken [OF goes_release_downstream [OF env P ids]]]) auto
  have "goes foreign P (reads env (\<lambda>c s. map open_node (filter (\<lambda>n. n_task n \<in> set c) (flow_nodes s)))
      (id_chunks env (remdups ids))) ?R"
    by (rule goes_reads [OF kept_lasting [OF env P] lasting_node_task]) (auto intro: open_node_task)
  from goes_bind [OF this r] show "goes foreign P (reads env (\<lambda>c s. map open_node (filter (\<lambda>n. n_task n \<in> set c) (flow_nodes s)))
      (id_chunks env (remdups ids)) \<bind> (\<lambda>nodes. raising (repair_node_records env False nodes) (\<lambda>_. release_downstream env ids)))
      (\<lambda>r. P)" for a :: unit .
qed auto

lemma goes_revisit_skipped:
  assumes env: "flow_env_ok foreign env" and P: "lasting foreign P"
  shows "goes foreign P (revisit_skipped env) (\<lambda>r. P)"
  unfolding revisit_skipped_def
proof (rule goes_bind [OF goes_take_skipped [OF env P]])
  fix taken
  have L: "lasting foreign (\<lambda>y. P y \<and> set taken \<subseteq> fs_ids y)" by (rule lasting_conj [OF P lasting_subset(2)])
  show "goes foreign (\<lambda>y. P y \<and> set taken \<subseteq> fs_ids y) (if taken = [] then State_Monad.return (Inr 0) else revisit env taken) (\<lambda>r. P)"
    by (rule goes_if [OF goes_return goes_weaken [OF goes_revisit [OF env L]]]) auto
qed

section \<open>Pages\<close>

lemma page_of_set: "x \<in> set (page_of key pos hwm xs) \<Longrightarrow> x \<in> set xs"
  unfolding page_of_def by (drule in_set_takeD) simp

definition edge_ends :: "flow_edge \<Rightarrow> flow_sys \<Rightarrow> bool" where
  "edge_ends e y = (e_pk e \<in> fs_edge_pks y \<and> (\<forall>x \<in> set (flow_edges (fs_store y)). e_pk x = e_pk e \<longrightarrow>
     e_up x = e_up e \<and> e_down x = e_down e) \<and> e_down e \<in> fs_ids y)"

lemma lasting_edge_ends [intro]: "lasting foreign (edge_ends e)"
  unfolding lasting_def edge_ends_def
proof (intro allI impI, elim conjE, intro conjI ballI impI)
  fix y y' x assume st: "flow_step foreign y y'" and p: "e_pk e \<in> fs_edge_pks y"
    and same: "\<forall>x \<in> set (flow_edges (fs_store y)). e_pk x = e_pk e \<longrightarrow> e_up x = e_up e \<and> e_down x = e_down e"
    and x: "x \<in> set (flow_edges (fs_store y'))" "e_pk x = e_pk e"
  from step_edges [OF st x(1)] p x(2) same show "e_up x = e_up e" "e_down x = e_down e" by auto
qed (use step_grows in blast)+

lemma edge_ends_here:
  assumes inv: "flow_inv foreign y" and e: "e \<in> set (flow_edges (fs_store y))"
  shows "edge_ends e y"
proof -
  note D = count_invD [OF inv_facts(2) [OF inv]]
  have "x = e" if "x \<in> set (flow_edges (fs_store y))" "e_pk x = e_pk e" for x
    using D(7) e that by (simp add: distinct_map inj_on_def)
  with D(8) e order_invD(11) [OF inv_facts(1) [OF inv] e] order_invD(4) [OF inv_facts(1) [OF inv]]
  show ?thesis by (auto simp: edge_ends_def)
qed

lemma edge_ends_won: "edge_ends e y \<Longrightarrow> e_up e \<in> fs_won y \<Longrightarrow> edge_won (e_pk e) y"
  by (auto simp: edge_ends_def edge_won_def)

lemma goes_edge_page:
  assumes env: "flow_env_ok foreign env" and P: "lasting foreign P"
  shows "goes foreign P (edge_page env w pos hwm) (\<lambda>r. P)"
  unfolding edge_page_def Let_def
proof (rule goes_bind)
  let ?R = "\<lambda>es y. P y \<and> (\<forall>e \<in> set es. edge_ends e y)"
  show "goes foreign P (read_stm env (\<lambda>s. page_of e_pk pos hwm (filter (\<lambda>e. e_workflow e = w \<and> \<not> e_satisfied e) (flow_edges s)))) ?R"
    by (rule goes_reading [OF kept_lasting [OF env P]]) (auto dest!: page_of_set intro: edge_ends_here)
  fix rows :: "flow_edge list"
  let ?w = "\<lambda>proven. map (\<lambda>e. (e_pk e, e_down e)) (filter (\<lambda>e. e_up e \<in> set proven) rows)"
  let ?W = "\<lambda>proven y. P y \<and> (\<forall>p \<in> set (?w proven). edge_won (fst p) y \<and> snd p \<in> fs_ids y)"
  have R: "lasting foreign (?R rows)" by (rule lasting_conj [OF P], rule lasting_all, rule lasting_edge_ends)
  have W: "lasting foreign (?W proven)" for proven
    by (rule lasting_conj [OF P], rule lasting_all, rule lasting_conj, rule lasting_edge_won, rule lasting_ids)
  have free: "goes foreign (?W proven) (raising (release_downstream env (map snd (filter (\<lambda>p. fst p \<in> set marked) (?w proven))))
      (\<lambda>k. State_Monad.return (Inr (page_end e_pk rows k)))) (\<lambda>r. P)" for proven marked
    by (rule goes_raising [OF goes_release_downstream [OF env W]]) (auto intro: goes_return)
  have rest: "goes foreign (?W proven) (queue_skipped env ks \<bind> (\<lambda>_.
      if map snd (filter (\<lambda>p. fst p \<in> set marked) (?w proven)) = [] then State_Monad.return (Inr (page_end e_pk rows 0))
      else raising (release_downstream env (map snd (filter (\<lambda>p. fst p \<in> set marked) (?w proven))))
        (\<lambda>k. State_Monad.return (Inr (page_end e_pk rows k))))) (\<lambda>r. P)" for proven marked ks
    by (rule goes_bind [OF goes_queue_skipped [OF env W] goes_if [OF goes_return free]]) auto
  have mark: "goes foreign (?W proven) (mark_satisfied env locked) (\<lambda>k. ?W proven)" if "set locked \<subseteq> set (map fst (?w proven))" for proven locked
    by (rule goes_mark_satisfied [OF kept_lasting [OF env W] W]) (use that in auto)
  have all: "goes foreign (?W proven) (if ?w proven = [] then State_Monad.return (Inr (page_end e_pk rows 0))
      else raising (write_locked env True edge_pks (map fst (?w proven)) (mark_satisfied env)) (\<lambda>(marked, skipped).
        queue_skipped env (map snd (filter (\<lambda>p. fst p \<in> set skipped) (?w proven))) \<bind> (\<lambda>_.
        if map snd (filter (\<lambda>p. fst p \<in> set marked) (?w proven)) = [] then State_Monad.return (Inr (page_end e_pk rows 0))
        else raising (release_downstream env (map snd (filter (\<lambda>p. fst p \<in> set marked) (?w proven))))
          (\<lambda>k. State_Monad.return (Inr (page_end e_pk rows k)))))) (\<lambda>r. P)" for proven
    by (rule goes_if [OF goes_return goes_raising [OF goes_write_locked [OF kept_lasting [OF env W] mark]]])
       (auto simp only: split: prod.splits intro: rest)
  show "goes foreign (?R rows) (if rows = [] then State_Monad.return (Inr (False, pos, 0))
      else succeeded_or_recorded env (map e_up rows) \<bind> (\<lambda>proven.
        if ?w proven = [] then State_Monad.return (Inr (page_end e_pk rows 0))
        else raising (write_locked env True edge_pks (map fst (?w proven)) (mark_satisfied env)) (\<lambda>(marked, skipped).
        queue_skipped env (map snd (filter (\<lambda>p. fst p \<in> set skipped) (?w proven))) \<bind> (\<lambda>_.
        if map snd (filter (\<lambda>p. fst p \<in> set marked) (?w proven)) = [] then State_Monad.return (Inr (page_end e_pk rows 0))
        else raising (release_downstream env (map snd (filter (\<lambda>p. fst p \<in> set marked) (?w proven))))
          (\<lambda>k. State_Monad.return (Inr (page_end e_pk rows k))))))) (\<lambda>r. P)"
    by (rule goes_if [OF goes_return goes_bind [OF goes_succeeded_or_recorded [OF kept_lasting [OF env R]] goes_weaken [OF all]]])
       (auto simp: edge_ends_won edge_ends_def)
qed

lemma goes_open_nodes:
  assumes env: "flow_env_ok foreign env" and P: "lasting foreign P"
  shows "goes foreign P (open_node_page env w pos hwm) (\<lambda>ns y. P y \<and> (\<forall>n \<in> set ns. node_task n y))"
  unfolding open_node_page_def
  by (rule goes_reading [OF kept_lasting [OF env P]]) (auto dest!: page_of_set intro: open_node_task)

lemma goes_node_page:
  assumes env: "flow_env_ok foreign env" and P: "lasting foreign P"
  shows "goes foreign P (node_page env w pos hwm) (\<lambda>r. P)"
  unfolding node_page_def
proof (rule goes_bind [OF goes_open_nodes [OF env P]])
  fix rows
  let ?R = "\<lambda>y. P y \<and> (\<forall>n \<in> set rows. node_task n y)"
  have R: "lasting foreign ?R" by (rule lasting_conj [OF P], rule lasting_all, rule lasting_node_task)
  show "goes foreign ?R (if rows = [] then State_Monad.return (Inr (False, pos, 0))
      else raising (repair_node_records env True rows) (\<lambda>_. State_Monad.return (Inr (page_end fst rows 0)))) (\<lambda>r. P)"
    by (rule goes_if [OF goes_return goes_raising [OF goes_repair_nodes [OF env R]]]) (auto intro: goes_return)
qed

lemma goes_release_page:
  assumes env: "flow_env_ok foreign env" and P: "lasting foreign P"
  shows "goes foreign P (release_page env w pos hwm) (\<lambda>r. P)"
  unfolding release_page_def
proof (rule goes_bind)
  show "goes foreign P (open_node_page env w pos hwm) (\<lambda>rows. P)"
    by (rule goes_weaken [OF goes_open_nodes [OF env P]]) auto
  fix rows :: "open_node list"
  let ?R = "\<lambda>ks y. P y \<and> (\<forall>k \<in> set ks. k \<in> fs_ids y)"
  have R: "lasting foreign (?R ks)" for ks by (rule lasting_conj [OF P], rule lasting_all, rule lasting_ids)
  have free: "goes foreign (?R ks) (if ks = [] then State_Monad.return (Inr (page_end fst rows 0))
      else raising (release_downstream env ks) (\<lambda>k. State_Monad.return (Inr (page_end fst rows k)))) (\<lambda>r. P)" for ks
    by (rule goes_if [OF goes_return goes_raising [OF goes_release_downstream [OF env R]]]) (auto intro: goes_return)
  have read: "goes foreign P (reads env (\<lambda>c s. map pk (filter (\<lambda>r. pk r \<in> set c \<and> status r = WAITING) (flow_rows s)))
      (id_chunks env (map (\<lambda>n. fst (snd n)) rows))) ?R"
    by (rule goes_reads [OF kept_lasting [OF env P] lasting_ids]) (auto dest!: inv_facts(1) order_invD(2))
  show "goes foreign P (if rows = [] then State_Monad.return (Inr (False, pos, 0))
      else reads env (\<lambda>c s. map pk (filter (\<lambda>r. pk r \<in> set c \<and> status r = WAITING) (flow_rows s)))
        (id_chunks env (map (\<lambda>n. fst (snd n)) rows)) \<bind> (\<lambda>waiting.
        if waiting = [] then State_Monad.return (Inr (page_end fst rows 0))
        else raising (release_downstream env waiting) (\<lambda>k. State_Monad.return (Inr (page_end fst rows k))))) (\<lambda>r. P)"
    by (rule goes_if [OF goes_return goes_bind [OF read free]])
qed

lemma goes_run_page:
  assumes "flow_env_ok foreign env" "lasting foreign P"
  shows "goes foreign P (run_page env w ph pos eh nh) (\<lambda>r. P)"
  by (cases ph) (simp_all add: goes_edge_page goes_node_page goes_release_page assms)

section \<open>A visit\<close>

lemma goes_store_scan:
  assumes env: "flow_env_ok foreign env" and P: "lasting foreign P"
  shows "goes foreign P (store_scan env w stored p) (\<lambda>b. P)"
  unfolding store_scan_def
proof (rule goes_if [OF goes_return goes_bind])
  have sk: "s_skipped (placed p x) = s_skipped x" for x by (simp add: placed_def split: prod.split)
  show "goes foreign P (writing env (set_scan (\<lambda>x. s_workflow x = w \<and> place_of x = stored)
      (\<lambda>x. (placed p x)\<lparr>s_version := s_version x + 1\<rparr>))) (\<lambda>k. P)"
  proof (rule goes_writing [OF kept_lasting [OF env P]])
    fix y assume y: "flow_inv foreign y" "P y"
    show "\<exists>y'. (flow_step foreign)\<^sup>*\<^sup>* y y' \<and> fs_store y' = snd (set_scan (\<lambda>x. s_workflow x = w \<and> place_of x = stored)
        (\<lambda>x. (placed p x)\<lparr>s_version := s_version x + 1\<rparr>) (fs_store y)) \<and> P y'"
      by (rule set_scan_go [OF P y]) (use inv_facts(3) [OF y(1)] in \<open>simp add: sk scan_inv_def\<close>)
  qed
  have ins: "goes foreign P (writing env (insert_scan (placed p (new_scan w)))) (\<lambda>b. P)"
    by (rule goes_writing [OF kept_lasting [OF env P]], rule insert_scan_go [OF P]) (simp_all add: sk new_scan_def)
  show "goes foreign P (if k \<noteq> 0 then State_Monad.return True else if stored \<noteq> at_rest then State_Monad.return False
      else writing env (insert_scan (placed p (new_scan w)))) (\<lambda>b. P)" for k :: nat
    by (intro goes_if ins) (auto intro: goes_return)
qed

lemma goes_overdue: "goes foreign P (overdue late) (\<lambda>b. P)"
  by (rule goesI) (auto simp: overdue_def)

lemma goes_visit_from:
  assumes env: "flow_env_ok foreign env" and P: "lasting foreign P"
  shows "goes foreign P (visit_from env late w eh nh left paged ph pos stored) (\<lambda>r. P)"
proof (induction left arbitrary: paged ph pos stored)
  case 0
  show ?case unfolding visit_from.simps by (rule goes_bind [OF goes_store_scan [OF env P]]) (rule goes_return)
next
  case (Suc left)
  have stop: "goes foreign P (store_scan env w stored p \<bind> (\<lambda>ok. State_Monad.return (Inr k))) (\<lambda>r. P)" for p stored and k :: nat
    by (rule goes_bind [OF goes_store_scan [OF env P]]) (rule goes_return)
  have more: "goes foreign P (raising (visit_from env late w eh nh left True ph pos stored) (\<lambda>m. State_Monad.return (Inr (k + m)))) (\<lambda>r. P)"
    for ph pos stored and k :: nat by (rule goes_raising [OF Suc]) (auto intro: goes_return)
  have full: "goes foreign P (store_scan env w stored p \<bind> (\<lambda>ok. if ok then raising (visit_from env late w eh nh left True ph pos p)
      (\<lambda>m. State_Monad.return (Inr (k + m))) else State_Monad.return (Inr k))) (\<lambda>r. P)" for p ph pos and k :: nat
    by (rule goes_bind [OF goes_store_scan [OF env P] goes_if [OF more goes_return]])
  have over: "goes foreign P ((if stored \<noteq> at_rest then store_scan env w stored at_rest else State_Monad.return True)
      \<bind> (\<lambda>ok. State_Monad.return (Inr k))) (\<lambda>r. P)" for k :: nat
    by (rule goes_bind [OF goes_if [OF goes_store_scan [OF env P] goes_return]]) (auto intro: goes_return)
  have page: "goes foreign P (raising (run_page env w ph pos eh nh) (\<lambda>(full, last_key, freed).
       if full then store_scan env w stored (ph, last_key, Some eh, Some nh) \<bind> (\<lambda>ok.
         if ok then raising (visit_from env late w eh nh left True ph last_key (ph, last_key, Some eh, Some nh))
           (\<lambda>more. State_Monad.return (Inr (freed + more)))
         else State_Monad.return (Inr freed))
       else (case following_phase ph of
           Some ph' \<Rightarrow> raising (visit_from env late w eh nh left True ph' 0 stored)
             (\<lambda>more. State_Monad.return (Inr (freed + more)))
         | None \<Rightarrow> (if stored \<noteq> at_rest then store_scan env w stored at_rest else State_Monad.return True) \<bind> (\<lambda>ok.
             State_Monad.return (Inr freed))))) (\<lambda>r. P)"
    by (rule goes_raising [OF goes_run_page [OF env P]])
       (auto simp only: split: prod.splits option.splits intro!: goes_if full more over)
  show ?case unfolding visit_from.simps
    by (rule goes_bind [OF goes_if [OF goes_overdue goes_return] goes_if [OF stop page]])
qed

lemma goes_visit:
  assumes "flow_env_ok foreign env" "lasting foreign P"
  shows "goes foreign P (visit env late marks w) (\<lambda>r. P)"
  unfolding visit_def Let_def
  by (rule goes_bind [OF goes_reading [OF kept_lasting [OF assms], where Q = "\<lambda>r. P"]])
     (auto split: prod.split option.split intro!: goes_visit_from [OF assms])

section \<open>A tick\<close>

lemma goes_visit_each:
  assumes env: "flow_env_ok foreign env" and P: "lasting foreign P"
  shows "goes foreign P (visit_each env late marks prev ws) (\<lambda>r. P)"
proof (induction ws arbitrary: prev)
  case (Cons w ws)
  have one: "goes foreign P (raising (visit_each env late marks (Some w) ws)
      (\<lambda>(j, stopped). State_Monad.return (Inr (k + j, stopped)))) (\<lambda>r. P)" for k
    by (rule goes_raising [OF Cons.IH]) (auto split: prod.split intro: goes_return)
  show ?case unfolding visit_each.simps
    by (rule goes_bind [OF goes_if [OF goes_return goes_overdue] goes_if [OF goes_return goes_raising [OF goes_visit [OF env P] one]]])
qed (auto intro: goes_return)

lemma goes_backstop_round:
  assumes env: "flow_env_ok foreign env" and P: "lasting foreign P"
  shows "goes foreign P (backstop_round env late) (\<lambda>r. P)"
proof -
  note kP = kept_lasting [OF env P]
  have rd: "goes foreign P (read_stm env f) (\<lambda>a. P)" for f :: "flow \<Rightarrow> 'x" by (rule goes_reading [OF kP])
  have rw: "goes foreign P (read_stm env live_workflows) (\<lambda>a. P)" by (rule goes_reading [OF kP])
  have rr: "goes foreign P (read_stm env flow_round_row) (\<lambda>a. P)" by (rule goes_reading [OF kP])
  have rn: "goes foreign P (read_stm env (g :: flow \<Rightarrow> nat)) (\<lambda>a. P)" for g by (rule goes_reading [OF kP])
  have mv: "goes foreign P (writing env (move_round w v)) (\<lambda>u. P)" for w v
    by (rule goes_writing [OF kP], rule move_round_go [OF P])
  have stop: "goes foreign P ((case stopped of None \<Rightarrow> State_Monad.return () | Some w \<Rightarrow> writing env (move_round w v))
      \<bind> (\<lambda>_. State_Monad.return (Inr k))) (\<lambda>r. P)" for stopped v and k :: nat
    by (rule goes_bind [where R = "\<lambda>u. P"]) (auto split: option.split intro: goes_return mv)
  show ?thesis unfolding backstop_round_def
    by (rule goes_bind [OF rw goes_if [OF goes_return goes_bind [OF rr goes_bind [OF rn goes_bind [OF rn
        goes_raising [OF goes_visit_each [OF env P]]]]]]]) (auto split: prod.split intro: stop)
qed

lemma goes_release_backstop:
  assumes env: "flow_env_ok foreign env" and P: "lasting foreign P"
  shows "goes foreign P (release_backstop env late) (\<lambda>r. P)"
proof -
  have r: "goes foreign P (raising (backstop_round env late) (\<lambda>j. State_Monad.return (Inr (k + j)))) (\<lambda>r. P)" for k :: nat
    by (rule goes_raising [OF goes_backstop_round [OF env P]]) (auto intro: goes_return)
  show ?thesis unfolding release_backstop_def by (rule goes_raising [OF goes_revisit_skipped [OF env P] r])
qed

end
