(* ===== verification/FlowRetire.thy ===== *)
theory FlowRetire
  imports FlowVisits
begin

text \<open>
  Retirement as a path of the specification: the stamp, the deletes of one chunk under its locks, the loop over
  the chunks, and the cleanup of scan rows.
\<close>

section \<open>What lasts\<close>

lemma set_workflow_member:
  "x \<in> set (flow_workflows s) \<Longrightarrow> (if w_key x = w then f x else x) \<in> set (flow_workflows (set_workflow w f s))"
  by (auto simp: set_workflow_def)

lemma step_workflows:
  assumes "flow_step foreign y y'" "x \<in> set (flow_workflows (fs_store y))" "w_retired_at x \<noteq> None" "count_inv y"
  shows "\<exists>x' \<in> set (flow_workflows (fs_store y')). w_key x' = w_key x \<and> w_retired_at x' \<noteq> None"
  using assms
proof (induction rule: flow_step.induct)
  case (workflow y w f)
  from workflow.prems(1) show ?case
    by (intro bexI [of _ "if w_key x = w then f x else x"]) (use workflow.prems workflow.hyps [of x] in \<open>auto simp: workflow_move_def set_workflow_member\<close>)
next
  case (complete w y f)
  have m: "(if w_key x = w then f x else x) \<in> set (flow_workflows (set_workflow w f (fs_store y)))"
    by (rule set_workflow_member [OF complete.prems(1)])
  show ?case
  proof (cases "w_key x = w")
    case True
    with complete.prems(1) have "find_workflow w (fs_store y) = Some x"
      using find_workflow_Some [OF count_invD(1) [OF complete.prems(3)]] by blast
    note k = complete.hyps(2) [OF this]
    show ?thesis by (rule bexI [of _ "f x"]) (use k m True complete.prems(2) in simp_all)
  next
    case False
    show ?thesis by (rule bexI [of _ x]) (use m False complete.prems(2) in simp_all)
  qed
next
  case (add w y row ups succeeded node epk now)
  let ?g = "\<lambda>x. x\<lparr>w_node_count := w_node_count x + 1\<rparr>"
  let ?s = "(fs_store y)\<lparr>flow_rows := flow_rows (fs_store y) @ [row], flow_nodes := flow_nodes (fs_store y) @ [node],
        flow_edges := flow_edges (fs_store y) @ new_edges w ups succeeded (pk row) epk now\<rparr>"
  have "x \<in> set (flow_workflows ?s)" using add.prems(1) by simp
  note m = set_workflow_member [OF this, of w ?g]
  show ?case
  proof (rule bexI)
    show "w_key (if w_key x = w then ?g x else x) = w_key x \<and> w_retired_at (if w_key x = w then ?g x else x) \<noteq> None"
      using add.prems(2) by simp
  qed (use m in simp)
qed (rule bexI [of _ x]; simp add: rows_moved_def Let_def mark_edges_def record_nodes_def)+

lemma retired_iff:
  assumes "count_inv y"
  shows "retired_workflow w (fs_store y) \<longleftrightarrow> (\<exists>x \<in> set (flow_workflows (fs_store y)). w_key x = w \<and> w_retired_at x \<noteq> None)"
proof (cases "find_workflow w (fs_store y)")
  case None
  then show ?thesis using find_workflow_None [of w "fs_store y"] by (auto simp: retired_workflow_def)
next
  case (Some x)
  have "z = x" if "z \<in> set (flow_workflows (fs_store y))" "w_key z = w" for z
    using find_workflow_Some [OF count_invD(1) [OF assms], of w z] that Some by simp
  with Some find_workflow_Some [OF count_invD(1) [OF assms], of w x] show ?thesis by (auto simp: retired_workflow_def)
qed

lemma lasting_retired: "lasting foreign (\<lambda>y. retired_workflow w (fs_store y))"
  unfolding lasting_def
proof (intro allI impI)
  fix y y' assume inv: "flow_inv foreign y" and st: "flow_step foreign y y'" and r: "retired_workflow w (fs_store y)"
  note c = inv_facts(2) [OF inv]
  from r step_workflows [OF st _ _ c] show "retired_workflow w (fs_store y')"
    unfolding retired_iff [OF c] retired_iff [OF step_count [OF st c]] by blast
qed

lemma step_node_workflows:
  "flow_step foreign y y' \<Longrightarrow> n' \<in> set (flow_nodes (fs_store y')) \<Longrightarrow>
    (\<exists>n \<in> set (flow_nodes (fs_store y)). n_pk n = n_pk n' \<and> n_task n = n_task n' \<and> n_workflow n = n_workflow n')
    \<or> n_pk n' \<notin> fs_node_pks y"
proof (induction rule: flow_step.induct)
  case (outcome y pks sts ep)
  then show ?case by (auto simp: record_nodes_def node_recorded_def split: if_splits)
qed (auto simp: rows_moved_def Let_def mark_edges_def)

text \<open>What a page read of a recorded node of \<open>w\<close>.\<close>

definition noted_node :: "uuid \<Rightarrow> nat \<times> uuid \<times> status option \<Rightarrow> flow_sys \<Rightarrow> bool" where
  "noted_node w x y = (fst x \<in> fs_node_pks y \<and> fst (snd x) \<in> fs_ids y
     \<and> (\<forall>n \<in> set (flow_nodes (fs_store y)). n_pk n = fst x \<longrightarrow> n_workflow n = w \<and> n_task n = fst (snd x))
     \<and> (snd (snd x) = Some SUCCESSFUL \<longrightarrow> fst (snd x) \<in> fs_won y))"

lemma lasting_noted [intro]: "lasting foreign (noted_node w x)"
  unfolding lasting_def
proof (intro allI impI)
  fix y y' assume st: "flow_step foreign y y'" and x: "noted_node w x y"
  note g = step_grows [OF st]
  show "noted_node w x y'" unfolding noted_node_def
  proof (intro conjI ballI impI)
    fix n assume n: "n \<in> set (flow_nodes (fs_store y'))" "n_pk n = fst x"
    from step_node_workflows [OF st n(1)] n(2) x show "n_workflow n = w" "n_task n = fst (snd x)"
      unfolding noted_node_def by auto
  qed (use g x in \<open>auto simp: noted_node_def\<close>)
qed

lemma page_noted:
  assumes inv: "flow_inv foreign y" and x: "x \<in> set (retire_page w after step (fs_store y))"
  shows "noted_node w x y"
proof -
  from x obtain n where n: "n \<in> set (flow_nodes (fs_store y))" "n_workflow n = w" "x = (n_pk n, n_task n, n_outcome n)"
    by (auto simp: retire_page_def dest!: in_set_takeD)
  note D = count_invD [OF inv_facts(2) [OF inv]] and O = order_invD [OF inv_facts(1) [OF inv]]
  have "z = n" if "z \<in> set (flow_nodes (fs_store y))" "n_pk z = n_pk n" for z
    using D(3) n(1) that by (simp add: distinct_map inj_on_def)
  with n D(4) O(3,10) show ?thesis by (auto simp: noted_node_def)
qed

text \<open>A row no retry can move: pruned, successful or discarded.\<close>

definition gone_row :: "uuid \<Rightarrow> flow_sys \<Rightarrow> bool" where
  "gone_row k y = (k \<in> fs_ids y \<and> status_at k (fs_store y) \<in> {None, Some SUCCESSFUL, Some DISCARDED})"

lemma step_absent:
  assumes "flow_step foreign y y'" "k \<in> fs_ids y" "status_at k (fs_store y) = None" "order_inv foreign y"
  shows "status_at k (fs_store y') = None"
proof -
  have n: "status_at k s = None \<longleftrightarrow> k \<notin> pk ` set (flow_rows s)" for s
    by (auto simp: status_at_def fetch_def find_None_iff)
  show ?thesis using assms unfolding n
  proof (induction rule: flow_step.induct)
    case (rows y P f)
    then show ?case by (auto simp: rows_moved_def Let_def allowed_def)
  qed (auto simp: mark_edges_def record_nodes_def)
qed

lemma lasting_absent: "lasting foreign (\<lambda>y. k \<in> fs_ids y \<and> status_at k (fs_store y) = None)"
  unfolding lasting_def using step_absent step_grows inv_facts(1) by blast

text \<open>The row locks of a transaction: no other session moves a discarded row back while it runs.\<close>

definition no_revival :: "bool \<Rightarrow> flow_env \<Rightarrow> bool" where
  "no_revival foreign env = (\<forall>K. kept foreign env (\<lambda>y. \<forall>k \<in> K. gone_row k y))"

lemma kept_gone:
  assumes "no_revival foreign env" "lasting foreign P"
  shows "kept foreign env (\<lambda>y. (\<forall>k \<in> K. gone_row k y) \<and> P y)"
  by (rule kept_conj [OF _ assms(2)]) (use assms(1) in \<open>simp add: no_revival_def\<close>)

section \<open>The stamp\<close>

lemma goes_stamp:
  assumes env: "flow_env_ok foreign env" and P: "lasting foreign P"
  shows "goes foreign P (stamp_retired env w) (\<lambda>r. P)"
  unfolding stamp_retired_def stamp_once_def
proof (rule goes_reissued [OF goes_transact [OF kept_lasting [OF env P] goes_writing_at [OF kept_lasting [OF env P]]]])
  fix y n assume y: "flow_inv foreign y" "P y"
  let ?f = "\<lambda>s. if flow_status w s = Some COMPLETE \<and> \<not> retired_workflow w s
     then (Inr True, set_workflow w (\<lambda>x. x\<lparr>w_retired_at := Some (fe_now env n)\<rparr>) s)
     else (Inr (flow_status w s = Some COMPLETE \<and> retired_workflow w s), s) :: (failure + bool) \<times> flow"
  show "\<exists>y'. (flow_step foreign)\<^sup>*\<^sup>* y y' \<and> fs_store y' = snd (?f (fs_store y)) \<and> P y'"
  proof (cases "flow_status w (fs_store y) = Some COMPLETE \<and> \<not> retired_workflow w (fs_store y)")
    case True
    have "flow_step foreign y (y\<lparr>fs_store := set_workflow w (\<lambda>x. x\<lparr>w_retired_at := Some (fe_now env n)\<rparr>) (fs_store y)\<rparr>)"
    proof (rule flow_step.workflow)
      fix x assume "x \<in> set (flow_workflows (fs_store y))" "w_key x = w"
      with status_of_workflow [OF inv_facts(2) [OF y(1)], of x] True
      show "workflow_move x (x\<lparr>w_retired_at := Some (fe_now env n)\<rparr>)" by (simp add: workflow_move_def)
    qed
    with one_step [OF P y this] True show ?thesis by simp
  qed (use y in auto)
qed auto

section \<open>One chunk\<close>

lemma statuses_of:
  "map_of (List.map_filter (\<lambda>k. map_option (Pair k) (status_at k s)) ks) k = (if k \<in> set ks then status_at k s else None)"
  by (induction ks) (auto simp: List.map_filter_def split: option.split)

text \<open>What the locking read of the task rows settles: the nodes going, and those of them that succeeded.\<close>

lemma going_rows:
  assumes absent: "\<And>k. k \<in> set ids \<Longrightarrow> k \<notin> set present \<Longrightarrow> k \<in> fs_ids y \<and> status_at k (fs_store y) = None"
    and inv: "flow_inv foreign y" and chunk: "\<And>x. x \<in> set chunk \<Longrightarrow> noted_node w x y" "ids = map (\<lambda>(p, k, out). k) chunk"
    and st: "statuses = List.map_filter (\<lambda>k. map_option (Pair k) (status_at k (fs_store y))) present"
  shows "\<forall>k \<in> snd ` set (going_nodes statuses chunk). gone_row k y"
    "\<forall>k \<in> set (gone_successful statuses chunk). k \<in> fs_won y"
proof -
  have m: "map_of statuses k = (if k \<in> set present then status_at k (fs_store y) else None)" for k
    unfolding st by (rule statuses_of)
  have ids: "k \<in> set ids" "k \<in> fs_ids y" "out = Some SUCCESSFUL \<Longrightarrow> k \<in> fs_won y" if "(p, k, out) \<in> set chunk" for p k out
    using chunk(1) [OF that] that chunk(2) by (force simp: noted_node_def)+
  show "\<forall>k \<in> snd ` set (going_nodes statuses chunk). gone_row k y"
  proof (clarsimp simp: going_nodes_def)
    fix p k out assume c: "(p, k, out) \<in> set chunk"
      and g: "case map_of statuses k of None \<Rightarrow> True | Some st \<Rightarrow> st \<in> retirable_statuses"
    with ids(1,2) [OF c] absent [of k] show "gone_row k y"
      unfolding m by (auto simp: gone_row_def retirable_statuses_def split: if_splits option.splits)
  qed
  show "\<forall>k \<in> set (gone_successful statuses chunk). k \<in> fs_won y"
  proof (clarsimp simp: gone_successful_def)
    fix p k out assume c: "(p, k, out) \<in> set chunk"
      and g: "case map_of statuses k of None \<Rightarrow> out = Some SUCCESSFUL | Some st \<Rightarrow> st = SUCCESSFUL"
    with ids(3) [OF c] successful_won [OF inv_facts(1) [OF inv], of k] show "k \<in> fs_won y"
      unfolding m by (auto split: if_splits option.splits)
  qed
qed

lemma going_of_chunk: "x \<in> set (going_nodes statuses chunk) \<Longrightarrow> \<exists>out. (fst x, snd x, out) \<in> set chunk"
  by (force simp: going_nodes_def)

text \<open>The deletes.\<close>

lemma delete_nodes_go:
  assumes P: "lasting foreign P" and y: "flow_inv foreign y" "P y" and retired: "retired_workflow w (fs_store y)"
    and own: "\<And>n. n \<in> set (flow_nodes (fs_store y)) \<Longrightarrow> n_pk n \<in> set pks \<Longrightarrow> n_workflow n = w"
    and rows: "\<forall>k \<in> K. gone_row k y"
  shows "\<exists>y'. (flow_step foreign)\<^sup>*\<^sup>* y y' \<and> fs_store y' = snd (delete_nodes pks (fs_store y)) \<and> (\<forall>k \<in> K. gone_row k y') \<and> P y'"
proof -
  let ?keep = "\<lambda>n. \<not> (n_pk n \<in> set pks \<and> n_outcome n \<noteq> None)"
  let ?y = "y\<lparr>fs_store := (fs_store y)\<lparr>flow_edges := filter (\<lambda>e. True) (flow_edges (fs_store y)),
      flow_nodes := filter ?keep (flow_nodes (fs_store y))\<rparr>\<rparr>"
  have st: "flow_step foreign y ?y"
  proof (rule flow_step.retire)
    fix n x assume n: "n \<in> set (flow_nodes (fs_store y))" "\<not> ?keep n" "find_workflow (n_workflow n) (fs_store y) = Some x"
    with own [OF n(1)] retired show "w_retired_at x \<noteq> None" by (simp add: retired_workflow_def)
  qed simp
  moreover from rows have "\<forall>k \<in> K. gone_row k ?y" by (simp add: gone_row_def status_at_def)
  ultimately show ?thesis using lasting_step [OF P y(1) st y(2)]
    by (intro exI [of _ ?y]) (auto simp: delete_nodes_def)
qed

lemma delete_edges_go:
  assumes P: "lasting foreign P" and y: "flow_inv foreign y" "P y" and rows: "\<forall>k \<in> K. gone_row k y"
    and into: "\<And>e. e \<in> set (flow_edges (fs_store y)) \<Longrightarrow> e_pk e \<in> set pks \<Longrightarrow> e_down e \<in> K"
  shows "\<exists>y'. (flow_step foreign)\<^sup>*\<^sup>* y y' \<and> fs_store y' = snd (delete_edges pks (fs_store y)) \<and> (\<forall>k \<in> K. gone_row k y') \<and> P y'"
proof -
  let ?y = "y\<lparr>fs_store := (fs_store y)\<lparr>flow_edges := filter (\<lambda>e. e_pk e \<notin> set pks) (flow_edges (fs_store y)),
      flow_nodes := filter (\<lambda>n. True) (flow_nodes (fs_store y))\<rparr>\<rparr>"
  have st: "flow_step foreign y ?y"
  proof (rule flow_step.retire)
    fix e assume e: "e \<in> set (flow_edges (fs_store y))" "\<not> e_pk e \<notin> set pks"
    with into [OF e(1)] rows show "status_at (e_down e) (fs_store y) \<in> {None, Some SUCCESSFUL, Some DISCARDED}"
      by (auto simp: gone_row_def)
  qed simp
  moreover from rows have "\<forall>k \<in> K. gone_row k ?y" by (simp add: gone_row_def status_at_def)
  ultimately show ?thesis using lasting_step [OF P y(1) st y(2)]
    by (intro exI [of _ ?y]) (auto simp: delete_edges_def)
qed

definition edge_into :: "uuid set \<Rightarrow> nat \<Rightarrow> flow_sys \<Rightarrow> bool" where
  "edge_into K p y = (p \<in> fs_edge_pks y \<and> (\<forall>e \<in> set (flow_edges (fs_store y)). e_pk e = p \<longrightarrow> e_down e \<in> K))"

lemma lasting_edge_into [intro]: "lasting foreign (edge_into K p)"
  unfolding lasting_def edge_into_def
proof (intro allI impI, elim conjE, intro conjI ballI impI)
  fix y y' x assume st: "flow_step foreign y y'" and p: "p \<in> fs_edge_pks y"
    and same: "\<forall>x \<in> set (flow_edges (fs_store y)). e_pk x = p \<longrightarrow> e_down x \<in> K"
    and x: "x \<in> set (flow_edges (fs_store y'))" "e_pk x = p"
  from step_edges [OF st x(1)] p x(2) same show "e_down x \<in> K" by auto
qed (use step_grows in blast)

lemma edge_into_here:
  assumes inv: "flow_inv foreign y" and e: "e \<in> set (flow_edges (fs_store y))" "e_down e \<in> K"
  shows "edge_into K (e_pk e) y"
  using edge_ends_here [OF inv e(1)] e(2) by (auto simp: edge_into_def edge_ends_def)

text \<open>Under the locks of the chunk: what is deleted, what is marked, and whom the marks point at.\<close>

definition chunk_kept :: "(flow_sys \<Rightarrow> bool) \<Rightarrow> uuid \<Rightarrow> going \<Rightarrow> uuid list \<Rightarrow> flow_sys \<Rightarrow> bool" where
  "chunk_kept P w going succeeded y =
     (P y \<and> retired_workflow w (fs_store y) \<and> (\<forall>x \<in> set going. \<exists>out. noted_node w (fst x, snd x, out) y)
      \<and> (\<forall>k \<in> set succeeded. k \<in> fs_won y))"

lemma lasting_chunk_kept:
  assumes "lasting foreign P"
  shows "lasting foreign (chunk_kept P w going succeeded)"
proof -
  have "lasting foreign (\<lambda>y. \<exists>out. noted_node w (fst x, snd x, out) y)" for x
    using lasting_noted unfolding lasting_def by blast
  then have "lasting foreign (\<lambda>y. P y \<and> retired_workflow w (fs_store y)
      \<and> (\<forall>x \<in> set going. \<exists>out. noted_node w (fst x, snd x, out) y) \<and> (\<forall>k \<in> set succeeded. k \<in> fs_won y))"
    by (intro lasting_conj assms lasting_retired lasting_all lasting_won)
  then show ?thesis unfolding lasting_def chunk_kept_def .
qed

lemma goes_retire_deletes:
  fixes w :: uuid
  assumes env: "flow_env_ok foreign env" "no_revival foreign env" and P: "lasting foreign P" and st: "0 < step"
    and gone: "set gone \<subseteq> set going" and succ: "set succeeded \<subseteq> set won"
  defines "K \<equiv> snd ` set going" and "L \<equiv> chunk_kept P w going won"
  shows "goes foreign (\<lambda>y. (\<forall>k \<in> K. gone_row k y) \<and> L y)
    (do {
       into \<leftarrow> read_stm env (\<lambda>s. map e_pk (filter (\<lambda>e. e_workflow e = w \<and> e_down e \<in> snd ` set gone) (flow_edges s)));
       out \<leftarrow> reads env (\<lambda>c s. map (\<lambda>e. (e_pk e, e_down e)) (filter (\<lambda>e. e_workflow e = w \<and> \<not> e_satisfied e
           \<and> e_up e \<in> set c \<and> e_pk e \<notin> set into) (flow_edges s)))
         (id_chunks env (remdups succeeded));
       lock_in_key_order env False edge_pks (into @ map fst out);
       dn \<leftarrow> writing env (delete_nodes (map fst gone));
       de \<leftarrow> writes env delete_edges (chunks step (sort into));
       (if out = [] then State_Monad.return 0 else mark_satisfied env (map fst out));
       State_Monad.return (Inr (dn, de, map snd out))
     })
    (\<lambda>r y. P y \<and> (\<forall>a b ds. r = Inr (a, b, ds) \<longrightarrow> set ds \<subseteq> fs_ids y))"
    (is "goes foreign ?P ?m ?Q")
proof -
  have L: "lasting foreign L" unfolding L_def by (rule lasting_chunk_kept [OF P])
  let ?I = "\<lambda>into y. \<forall>p \<in> set into. edge_into K p y" and ?O = "\<lambda>out y. \<forall>q \<in> set out. edge_won (fst q) y \<and> snd q \<in> fs_ids y"
  let ?LI = "\<lambda>into y. L y \<and> ?I into y" and ?LO = "\<lambda>into out y. (L y \<and> ?I into y) \<and> ?O out y"
  have LI: "lasting foreign (?LI into)" for into by (intro lasting_conj L lasting_all lasting_edge_into)
  have LO: "lasting foreign (?LO into out)" for into and out :: "(nat \<times> uuid) list"
    by (intro lasting_conj LI lasting_all lasting_edge_won lasting_ids)
  note k0 = kept_gone [OF env(2) L] and k1 = kept_gone [OF env(2) LI] and k2 = kept_gone [OF env(2) LO]
  have read_into: "goes foreign ?P (read_stm env (\<lambda>s. map e_pk (filter (\<lambda>e. e_workflow e = w \<and> e_down e \<in> snd ` set gone) (flow_edges s))))
      (\<lambda>into y. (\<forall>k \<in> K. gone_row k y) \<and> ?LI into y)"
  proof (rule goes_reading [OF k0], intro conjI ballI)
    fix y p assume y: "flow_inv foreign y" "(\<forall>k \<in> K. gone_row k y) \<and> L y"
      and "p \<in> set (map e_pk (filter (\<lambda>e. e_workflow e = w \<and> e_down e \<in> snd ` set gone) (flow_edges (fs_store y))))"
    then obtain e where "e \<in> set (flow_edges (fs_store y))" "e_down e \<in> K" "p = e_pk e" using gone by (auto simp: K_def)
    with edge_into_here [OF y(1)] show "edge_into K p y" by simp
  qed auto
  have read_out: "goes foreign (\<lambda>y. (\<forall>k \<in> K. gone_row k y) \<and> ?LI into y)
      (reads env (\<lambda>c s. map (\<lambda>e. (e_pk e, e_down e)) (filter (\<lambda>e. e_workflow e = w \<and> \<not> e_satisfied e
           \<and> e_up e \<in> set c \<and> e_pk e \<notin> set into) (flow_edges s))) (id_chunks env (remdups succeeded)))
      (\<lambda>out y. (\<forall>k \<in> K. gone_row k y) \<and> ?LO into out y)" for into
  proof (rule goes_weaken [OF goes_reads [OF k1, where R = "\<lambda>q y. edge_won (fst q) y \<and> snd q \<in> fs_ids y"]])
    show "lasting foreign (\<lambda>y. edge_won (fst q) y \<and> snd q \<in> fs_ids y)" for q :: "nat \<times> uuid" by (intro lasting_conj lasting_edge_won lasting_ids)
    fix y c q assume y: "flow_inv foreign y" "(\<forall>k \<in> K. gone_row k y) \<and> ?LI into y" "c \<in> set (id_chunks env (remdups succeeded))"
      and "q \<in> set (map (\<lambda>e. (e_pk e, e_down e)) (filter (\<lambda>e. e_workflow e = w \<and> \<not> e_satisfied e
           \<and> e_up e \<in> set c \<and> e_pk e \<notin> set into) (flow_edges (fs_store y))))"
    then obtain e where e: "e \<in> set (flow_edges (fs_store y))" "e_up e \<in> set c" "q = (e_pk e, e_down e)" by auto
    with id_chunks_subset [OF y(3)] succ y(2) have "e_up e \<in> fs_won y" by (auto simp: L_def chunk_kept_def)
    with edge_ends_here [OF y(1) e(1)] e(3) show "edge_won (fst q) y \<and> snd q \<in> fs_ids y"
      using edge_ends_won by (auto simp: edge_ends_def)
  qed auto
  have nodes: "goes foreign (\<lambda>y. (\<forall>k \<in> K. gone_row k y) \<and> ?LO into out y) (writing env (delete_nodes (map fst gone)))
      (\<lambda>k y. (\<forall>k \<in> K. gone_row k y) \<and> ?LO into out y)" for into out
  proof (rule goes_writing [OF k2])
    fix y assume y: "flow_inv foreign y" "(\<forall>k \<in> K. gone_row k y) \<and> ?LO into out y"
    show "\<exists>y'. (flow_step foreign)\<^sup>*\<^sup>* y y' \<and> fs_store y' = snd (delete_nodes (map fst gone) (fs_store y))
        \<and> (\<forall>k \<in> K. gone_row k y') \<and> ?LO into out y'"
    proof (rule delete_nodes_go [OF LO y(1)])
      show "retired_workflow w (fs_store y)" using y(2) by (simp add: L_def chunk_kept_def)
      fix n assume n: "n \<in> set (flow_nodes (fs_store y))" "n_pk n \<in> set (map fst gone)"
      then obtain x where "x \<in> set going" "fst x = n_pk n" using gone by auto
      moreover from this y(2) obtain out where "noted_node w (fst x, snd x, out) y" by (auto simp: L_def chunk_kept_def)
      ultimately show "n_workflow n = w" using n(1) by (simp add: noted_node_def)
    qed (use y(2) in auto)
  qed
  have edges: "goes foreign (\<lambda>y. (\<forall>k \<in> K. gone_row k y) \<and> ?LO into out y) (writes env delete_edges (chunks step (sort into)))
      (\<lambda>k y. (\<forall>k \<in> K. gone_row k y) \<and> ?LO into out y)" for into out
  proof (rule goes_writes [OF k2])
    fix y c assume y: "flow_inv foreign y" "(\<forall>k \<in> K. gone_row k y) \<and> ?LO into out y" and c: "c \<in> set (chunks step (sort into))"
    have c': "set c \<subseteq> set into" using c arg_cong [OF concat_chunks [OF st, of "sort into"], of set] by auto
    show "\<exists>y'. (flow_step foreign)\<^sup>*\<^sup>* y y' \<and> fs_store y' = snd (delete_edges c (fs_store y))
        \<and> (\<forall>k \<in> K. gone_row k y') \<and> ?LO into out y'"
      by (rule delete_edges_go [OF LO y(1)]) (use y(2) c' in \<open>auto simp: edge_into_def\<close>)
  qed
  have mark: "goes foreign (\<lambda>y. (\<forall>k \<in> K. gone_row k y) \<and> ?LO into out y)
      ((if out = [] then State_Monad.return 0 else mark_satisfied env (map fst out)) \<bind> (\<lambda>_.
        State_Monad.return (Inr (dn, de, map snd out)))) ?Q" for into out and dn de :: nat
  proof (rule goes_bind)
    show "goes foreign (\<lambda>y. (\<forall>k \<in> K. gone_row k y) \<and> ?LO into out y)
        (if out = [] then State_Monad.return 0 else mark_satisfied env (map fst out)) (\<lambda>k. ?LO into out)"
      by (rule goes_weaken [where P = "?LO into out", OF goes_if [OF goes_return goes_mark_satisfied [OF kept_lasting [OF env(1) LO] LO]]]) auto
  qed (auto intro!: goes_return simp: L_def chunk_kept_def)
  have lock: "goes foreign (\<lambda>y. (\<forall>k \<in> K. gone_row k y) \<and> ?LO into out y) (lock_in_key_order env False edge_pks ps)
      (\<lambda>r y. (\<forall>k \<in> K. gone_row k y) \<and> ?LO into out y)" for into out ps
    by (rule lock_goes [OF k2])
  show ?thesis
    by (rule goes_bind [OF read_into goes_bind [OF read_out goes_bind [OF lock goes_bind [OF nodes goes_bind [OF edges mark]]]]])
qed

lemma goes_retire_chunk:
  assumes env: "flow_env_ok foreign env" "no_revival foreign env" and P: "lasting foreign P"
    and chunk: "\<And>y x. P y \<Longrightarrow> x \<in> set chunk \<Longrightarrow> noted_node w x y" and step: "0 < step"
  shows "goes foreign P (retire_chunk env w step chunk) (\<lambda>r y. P y \<and> (\<forall>a b ds. r = Inr (a, b, ds) \<longrightarrow> set ds \<subseteq> fs_ids y))"
    (is "goes foreign P ?m ?Q")
proof -
  let ?ids = "map (\<lambda>(p, k, out). k) chunk"
  let ?R = "\<lambda>b y. P y \<and> (b \<longrightarrow> retired_workflow w (fs_store y))"
  have R: "lasting foreign (?R b)" for b by (rule lasting_conj [OF P]) (rule lasting_impl, rule lasting_retired)
  let ?A = "\<lambda>present y. ?R True y \<and> (\<forall>k \<in> set ?ids - set present. k \<in> fs_ids y \<and> status_at k (fs_store y) = None)"
  have A: "lasting foreign (?A present)" for present by (intro lasting_conj [OF R] lasting_all lasting_absent)
  let ?G = "\<lambda>statuses y. (\<forall>k \<in> snd ` set (going_nodes statuses chunk). gone_row k y)
      \<and> chunk_kept P w (going_nodes statuses chunk) (gone_successful statuses chunk) y"
  have G: "kept foreign env (?G statuses)" for statuses by (rule kept_gone [OF env(2) lasting_chunk_kept [OF P]])
  have stamped: "goes foreign P (read_stm env (retired_workflow w)) ?R"
    by (rule goes_reading [OF kept_lasting [OF env(1) P]]) simp
  have present: "goes foreign (?R True) (read_stm env (\<lambda>s. filter (\<lambda>k. status_at k s \<noteq> None) ?ids)) ?A"
    by (rule goes_reading [OF kept_lasting [OF env(1) R]]) (use chunk in \<open>force simp: noted_node_def\<close>)
  have statuses: "goes foreign (?A present) (read_stm env (\<lambda>s. List.map_filter (\<lambda>k. map_option (Pair k) (status_at k s)) present)) ?G"
    for present
  proof (rule goes_reading [OF kept_lasting [OF env(1) A]])
    fix y assume y: "flow_inv foreign y" "?A present y"
    let ?st = "List.map_filter (\<lambda>k. map_option (Pair k) (status_at k (fs_store y))) present"
    have "\<And>k. k \<in> set ?ids \<Longrightarrow> k \<notin> set present \<Longrightarrow> k \<in> fs_ids y \<and> status_at k (fs_store y) = None" using y(2) by blast
    moreover have "\<And>x. x \<in> set chunk \<Longrightarrow> noted_node w x y" using chunk y(2) by blast
    ultimately show "?G ?st y"
      using going_rows [where ids = ?ids and present = present and y = y and chunk = chunk and w = w and statuses = ?st, OF _ y(1)] y(2)
        going_of_chunk [of _ ?st chunk] unfolding chunk_kept_def by blast
  qed
  have deletes: "goes foreign (?G statuses)
     (let gone = filter (\<lambda>x. fst x \<in> set noted) (going_nodes statuses chunk) in
         if gone = [] then State_Monad.return (Inr (0, 0, []))
         else do {
           let succeeded = filter (\<lambda>k. k \<in> snd ` set gone) (gone_successful statuses chunk);
           into \<leftarrow> read_stm env (\<lambda>s. map e_pk (filter (\<lambda>e. e_workflow e = w \<and> e_down e \<in> snd ` set gone) (flow_edges s)));
           out \<leftarrow> reads env (\<lambda>c s. map (\<lambda>e. (e_pk e, e_down e)) (filter (\<lambda>e. e_workflow e = w \<and> \<not> e_satisfied e
               \<and> e_up e \<in> set c \<and> e_pk e \<notin> set into) (flow_edges s)))
             (id_chunks env (remdups succeeded));
           lock_in_key_order env False edge_pks (into @ map fst out);
           dn \<leftarrow> writing env (delete_nodes (map fst gone));
           de \<leftarrow> writes env delete_edges (chunks (min step (id_chunk_size env)) (sort into));
           (if out = [] then State_Monad.return 0 else mark_satisfied env (map fst out));
           State_Monad.return (Inr (dn, de, map snd out))
         }) ?Q" for noted statuses
    unfolding Let_def
  proof (rule goes_if [OF goes_return goes_retire_deletes [OF env P]])
    have "0 < id_chunk_size env" by (simp add: id_chunk_size_def id_chunk_limit_def less_max_iff_disj split: option.split)
    with step show "0 < min step (id_chunk_size env)" by simp
  qed (auto simp: chunk_kept_def)
  have locks: "goes foreign (?G statuses) (lock_in_key_order env False node_pks ps) (\<lambda>r. ?G statuses)" for ps statuses by (rule lock_goes [OF G])
  have noted: "goes foreign (?G statuses) (read_stm env f) (\<lambda>r. ?G statuses)" for f :: "flow \<Rightarrow> nat list" and statuses by (rule goes_reading [OF G])
  note inner = goes_if [OF goes_return goes_bind [OF locks goes_bind [OF noted deletes [unfolded Let_def]]]]
  show ?thesis unfolding retire_chunk_def Let_def
  proof (rule goes_bind [OF stamped], rule goes_if, rule goes_return, simp, goal_cases)
    case (1 stamped)
    then have s: "stamped = True" by simp
    show ?case unfolding s by (rule goes_bind [OF present goes_bind [OF statuses inner]]) (simp add: chunk_kept_def)
  qed
qed

lemma goes_retire_from:
  assumes env: "flow_env_ok foreign env" "no_revival foreign env" and P: "lasting foreign P" and step: "0 < step"
  shows "goes foreign P (retire_from env w step fuel after) (\<lambda>r. P)"
proof (induction fuel arbitrary: after)
  case (Suc fuel)
  let ?C = "\<lambda>chunk y. P y \<and> (\<forall>x \<in> set chunk. noted_node w x y)"
  have C: "lasting foreign (?C chunk)" for chunk by (intro lasting_conj P lasting_all lasting_noted)
  let ?M = "\<lambda>ds y. P y \<and> set ds \<subseteq> fs_ids y"
  have M: "lasting foreign (?M ds)" for ds by (rule lasting_conj [OF P lasting_subset(2)])
  have page: "goes foreign P (read_stm env (retire_page w after step)) ?C"
    by (rule goes_reading [OF kept_lasting [OF env(1) P]]) (auto intro: page_noted)
  have more: "goes foreign P (raising (retire_from env w step fuel k) (\<lambda>rest.
      State_Monad.return (Inr (map_option (\<lambda>(n, e). (dn + n, de + e)) rest)))) (\<lambda>r. P)" for k and dn de :: nat
    by (rule goes_raising [OF Suc.IH]) (auto intro: goes_return)
  have free: "goes foreign (?M ds) (raising (if ds = [] then State_Monad.return (Inr 0) else release_downstream env ds) (\<lambda>_.
      raising (retire_from env w step fuel k) (\<lambda>rest.
        State_Monad.return (Inr (map_option (\<lambda>(n, e). (dn + n, de + e)) rest))))) (\<lambda>r. P)" for ds k and dn de :: nat
    by (rule goes_raising [OF goes_if [OF goes_return goes_weaken [OF goes_release_downstream [OF env(1) M]]] more]) auto
  have chunk: "goes foreign (?C chunk) (reissued_stm env True (transact env (retire_chunk env w step chunk)))
      (\<lambda>r y. ?C chunk y \<and> (\<forall>a b ds. r = Inr (a, b, ds) \<longrightarrow> set ds \<subseteq> fs_ids y))" for chunk
    by (rule goes_reissued [OF goes_transact [OF kept_lasting [OF env(1) C] goes_retire_chunk [OF env C _ step]]]) auto
  have run: "goes foreign (?C chunk) (raising (reissued_stm env True (transact env (retire_chunk env w step chunk))) (\<lambda>(dn, de, marked).
      raising (if marked = [] then State_Monad.return (Inr 0) else release_downstream env marked) (\<lambda>_.
      raising (retire_from env w step fuel k) (\<lambda>rest.
        State_Monad.return (Inr (map_option (\<lambda>(n, e). (dn + n, de + e)) rest)))))) (\<lambda>r. P)" for chunk k
  proof (rule goes_raising [OF chunk])
    fix a :: "nat \<times> nat \<times> uuid list"
    obtain dn de marked where a: "a = (dn, de, marked)" by (rule prod_cases3)
    show "goes foreign (\<lambda>y. ?C chunk y \<and> (\<forall>b c ds. Inr a = Inr (b, c, ds) \<longrightarrow> set ds \<subseteq> fs_ids y))
        (case a of (dn, de, marked) \<Rightarrow> raising (if marked = [] then State_Monad.return (Inr 0) else release_downstream env marked) (\<lambda>_.
          raising (retire_from env w step fuel k) (\<lambda>rest.
            State_Monad.return (Inr (map_option (\<lambda>(n, e). (dn + n, de + e)) rest))))) (\<lambda>r. P)"
      unfolding a prod.case by (rule goes_weaken [OF free]) auto
  qed simp
  show ?case unfolding retire_from.simps by (rule goes_bind [OF page goes_if [OF goes_return run]]) simp
qed (auto intro: goes_return)

lemma goes_retire_workflow:
  assumes env: "flow_env_ok foreign env" "no_revival foreign env" and P: "lasting foreign P"
  shows "goes foreign P (retire_workflow env fuel chunk_size w) (\<lambda>r. P)"
proof -
  have rest: "goes foreign P (raising (retire_from env w (max 1 (min chunk_size (id_chunk_size env))) fuel 0) (\<lambda>rest.
      State_Monad.return (Inr (map_option (\<lambda>(n, e). \<lparr>rt_nodes = n, rt_edges = e, rt_pending = False\<rparr>) rest)))) (\<lambda>r. P)"
    by (rule goes_raising [OF goes_retire_from [OF env P]]) (auto intro: goes_return)
  show ?thesis unfolding retire_workflow_def
    by (rule goes_raising [OF goes_stamp [OF env(1) P] goes_if [OF goes_return
          goes_bind [OF goes_reading [OF kept_lasting [OF env(1) P], where Q = "\<lambda>c. P"]
            goes_if [OF goes_return goes_raising [OF goes_repair_records [OF env(1) P] rest]]]]]) auto
qed

section \<open>Scan rows\<close>

lemma goes_clean_scan_rows:
  assumes env: "flow_env_ok foreign env" and P: "lasting foreign P"
  shows "goes foreign P (clean_scan_rows env chunk_size) (\<lambda>r. P)"
proof -
  note kP = kept_lasting [OF env P]
  have chunk: "goes foreign P (clean_scan_chunk env ids) (\<lambda>r. P)" for ids
    unfolding clean_scan_chunk_def Let_def
  proof (rule goes_bind [OF goes_reading [OF kP, where Q = "\<lambda>l. P"] goes_if [OF goes_return goes_writing [OF kP]]])
    fix live y assume y: "flow_inv foreign y" "P y"
    let ?gone = "filter (\<lambda>w. w \<notin> set live) ids"
    let ?xs = "filter (\<lambda>x. s_workflow x \<notin> set ?gone) (flow_scans (fs_store y))"
    have "flow_step foreign y (y\<lparr>fs_store := (fs_store y)\<lparr>flow_scans := ?xs\<rparr>\<rparr>)"
      by (rule scans_step) (use inv_facts(3) [OF y(1)] in \<open>auto simp: scan_inv_def\<close>)
    from one_step [OF P y this]
    show "\<exists>y'. (flow_step foreign)\<^sup>*\<^sup>* y y' \<and> fs_store y' = snd ((Inr (length (filter (\<lambda>x. s_workflow x \<in> set ?gone) (flow_scans (fs_store y)))) :: failure + nat,
       (fs_store y)\<lparr>flow_scans := ?xs\<rparr>)) \<and> P y'" by simp
  qed auto
  have each: "goes foreign P (clean_each env cs) (\<lambda>r. P)" for cs
  proof (induction cs)
    case (Cons c cs)
    have "goes foreign P (raising (clean_each env cs) (\<lambda>j. State_Monad.return (Inr (k + j)))) (\<lambda>r. P)" for k :: nat
      by (rule goes_raising [OF Cons.IH]) (auto intro: goes_return)
    from goes_raising [OF goes_reissued [OF chunk] this] show ?case unfolding clean_each.simps by simp
  qed (auto intro: goes_return)
  show ?thesis unfolding clean_scan_rows_def
    by (rule goes_bind [OF goes_reading [OF kP, where Q = "\<lambda>ws. P"] each]) simp
qed

end
