(* ===== verification/FlowSweep.thy ===== *)
theory FlowSweep
  imports FlowVisits
begin

text \<open>
  What one visit of the backstop achieves when nothing else commits and no row is held: it marks every edge whose
  upstream is known to have succeeded, repairs every record behind its task row, and releases every waiting node
  those leave unblocked.
\<close>

section \<open>Total correctness of an operation\<close>

definition runs :: "(flow \<Rightarrow> bool) \<Rightarrow> 'a stm \<Rightarrow> ('a \<Rightarrow> flow \<Rightarrow> bool) \<Rightarrow> bool" where
  "runs P m Q = (\<forall>n s. P s \<longrightarrow> Q (fst (run_state m (n, s))) (snd (snd (run_state m (n, s)))))"

lemma runs_weaken: "runs P m Q \<Longrightarrow> (\<And>s. P' s \<Longrightarrow> P s) \<Longrightarrow> (\<And>a s. Q a s \<Longrightarrow> Q' a s) \<Longrightarrow> runs P' m Q'"
  unfolding runs_def by blast

lemma runs_return: "(\<And>s. P s \<Longrightarrow> Q a s) \<Longrightarrow> runs P (State_Monad.return a) Q"
  by (simp add: runs_def run_return)

lemma runs_absurd: "(\<And>s. \<not> P s) \<Longrightarrow> runs P m Q"
  by (simp add: runs_def)

lemma runs_bind: "runs P m R \<Longrightarrow> (\<And>a. runs (R a) (k a) Q) \<Longrightarrow> runs P (State_Monad.bind m k) Q"
  unfolding runs_def by (auto simp: run_bind split: prod.split) (metis fst_conv snd_conv)

text \<open>An operation that returns no error.\<close>

definition good :: "('a \<Rightarrow> flow \<Rightarrow> bool) \<Rightarrow> failure + 'a \<Rightarrow> flow \<Rightarrow> bool" where
  "good Q r s = (case r of Inl e \<Rightarrow> False | Inr a \<Rightarrow> Q a s)"

lemma good_Inr [simp]: "good Q (Inr a) s = Q a s" and good_Inl [simp]: "\<not> good Q (Inl e) s"
  by (simp_all add: good_def)

lemma good_mono: "good Q r s \<Longrightarrow> (\<And>a. Q a s \<Longrightarrow> Q' a s) \<Longrightarrow> good Q' r s"
  by (cases r) auto

lemma runs_raising: "runs P m (good R) \<Longrightarrow> (\<And>a. runs (R a) (k a) Q) \<Longrightarrow> runs P (raising m k) Q"
  unfolding raising_def by (erule runs_bind) (auto simp: runs_def split: sum.split)

lemma runs_if: "(b \<Longrightarrow> runs P m Q) \<Longrightarrow> (\<not> b \<Longrightarrow> runs P k Q) \<Longrightarrow> runs P (if b then m else k) Q"
  by simp

lemma runs_reading: "quiet env \<Longrightarrow> runs P (read_stm env f) (\<lambda>a s. P s \<and> a = f s)"
  by (simp add: runs_def run_reading)

lemma runs_writing: "quiet env \<Longrightarrow> (\<And>s. P s \<Longrightarrow> Q (fst (f s)) (snd (f s))) \<Longrightarrow> runs P (writing env f) Q"
  by (simp add: runs_def run_writing)

lemma runs_transact: "quiet env \<Longrightarrow> runs P m Q \<Longrightarrow> runs P (transact env m) Q"
  by (simp add: runs_def run_transact)

lemma runs_reads: "quiet env \<Longrightarrow> runs P (reads env f cs) (\<lambda>xs s. P s \<and> xs = concat (map (\<lambda>c. f c s) cs))"
  unfolding runs_def by (metis run_reads fst_conv snd_conv)

lemma chunks_set: "\<Union> (set ` set (id_chunks env xs)) = set xs"
  using arg_cong [OF id_chunks_concat [of env xs], of set] by simp

lemma in_id_chunk: "(\<exists>c \<in> set (id_chunks env xs). k \<in> set c) \<longleftrightarrow> k \<in> set xs"
  using chunks_set [of env xs] by blast

lemma chunk_map: "set (concat (map (\<lambda>c. map h c) (id_chunks env xs))) = h ` set xs"
proof -
  have "set (concat (map (\<lambda>c. map h c) (id_chunks env xs))) = h ` \<Union> (set ` set (id_chunks env xs))" by auto
  then show ?thesis unfolding chunks_set .
qed

lemma chunk_filter: "set (concat (map (\<lambda>c. filter Q c) (id_chunks env xs))) = {k \<in> set xs. Q k}"
proof -
  have "set (concat (map (\<lambda>c. filter Q c) (id_chunks env xs))) = {k \<in> \<Union> (set ` set (id_chunks env xs)). Q k}" by auto
  then show ?thesis unfolding chunks_set .
qed

definition unheld :: "flow_env \<Rightarrow> bool" where
  "unheld env = (\<forall>n p. \<not> fe_held env n p)"

section \<open>Which upstreams are known to have succeeded\<close>

definition proven :: "flow \<Rightarrow> uuid \<Rightarrow> bool" where
  "proven s k = (status_at k s = Some SUCCESSFUL \<or> status_at k s = None \<and> record_at k s = Some SUCCESSFUL)"

lemma runs_proven:
  assumes q: "quiet env"
  shows "runs P (succeeded_or_recorded env ids) (\<lambda>xs s. P s \<and> set xs = {k \<in> set ids. proven s k})"
  unfolding succeeded_or_recorded_def
proof (rule runs_bind [OF runs_reads [OF q]], rule runs_bind [OF runs_reads [OF q]], rule runs_return, elim conjE, intro conjI)
  fix found records s
  assume f: "found = concat (map (\<lambda>c. map (\<lambda>k. (k, status_at k s)) c) (id_chunks env (remdups ids)))"
    and r: "records = concat (map (\<lambda>c. filter (\<lambda>k. record_at k s = Some SUCCESSFUL) c)
      (id_chunks env (map fst (filter (\<lambda>p. snd p = None) found))))"
  have found: "set found = (\<lambda>k. (k, status_at k s)) ` set ids" unfolding f chunk_map by simp
  have pairs: "fst ` {x \<in> (\<lambda>k. (k, st k)) ` A. Q (snd x)} = {k \<in> A. Q (st k)}" for st :: "uuid \<Rightarrow> status option" and A Q
    by force
  have "set records = {k \<in> set ids. status_at k s = None \<and> record_at k s = Some SUCCESSFUL}"
    unfolding r chunk_filter set_map set_filter found pairs [where Q = "\<lambda>x. x = None"] by simp
  moreover have "set (map fst (filter (\<lambda>p. snd p = Some SUCCESSFUL) found)) = {k \<in> set ids. status_at k s = Some SUCCESSFUL}"
    unfolding set_map set_filter found pairs [where Q = "\<lambda>x. x = Some SUCCESSFUL"] ..
  ultimately show "set (map fst (filter (\<lambda>p. snd p = Some SUCCESSFUL) found) @ records) = {k \<in> set ids. proven s k}"
    unfolding set_append by (auto simp: proven_def)
qed

section \<open>Locked writes\<close>

lemma runs_lock:
  assumes q: "quiet env" "unheld env" and p: "\<And>s. P s \<Longrightarrow> set pks \<subseteq> set (present s)"
  shows "runs P (lock_in_key_order env skip present pks) (\<lambda>xs s. P s \<and> set xs = set pks)"
proof -
  have "runs P (reads_at env (\<lambda>n c s. filter (\<lambda>p. p \<in> set (present s) \<and> \<not> (skip \<and> fe_skip_locked env \<and> fe_held env n p)) c)
      (id_chunks env (sort (remdups pks)))) (\<lambda>xs s. P s \<and> set xs = set pks)"
  proof -
    have "reads_at env (\<lambda>n c s. filter (\<lambda>p. p \<in> set (present s) \<and> \<not> (skip \<and> fe_skip_locked env \<and> fe_held env n p)) c)
        = reads env (\<lambda>c s. filter (\<lambda>p. p \<in> set (present s)) c)"
      using q(2) by (simp add: unheld_def reads_def fun_eq_iff)
    moreover have "runs P (reads env (\<lambda>c s. filter (\<lambda>p. p \<in> set (present s)) c) (id_chunks env (sort (remdups pks))))
        (\<lambda>xs s. P s \<and> set xs = set pks)"
      by (rule runs_weaken [OF runs_reads [OF q(1)]]) (use p chunk_filter [of _ env "sort (remdups pks)"] in auto)
    ultimately show ?thesis by simp
  qed
  then show ?thesis by (auto simp: lock_in_key_order_def Let_def intro: runs_return)
qed

lemma runs_write_locked:
  assumes q: "quiet env" "unheld env" and p: "\<And>s. P s \<Longrightarrow> set pks \<subseteq> set (present s)" and ne: "pks \<noteq> []"
    and w: "\<And>xs. set xs = set pks \<Longrightarrow> runs P (write xs) (\<lambda>k. Q)"
  shows "runs P (write_locked env skip present pks write) (good (\<lambda>r s. Q s \<and> set (fst r) = set pks \<and> snd r = []))"
  unfolding write_locked_def Let_def
proof (rule runs_bind)
  let ?m = "lock_in_key_order env skip present (sort (remdups pks)) \<bind> (\<lambda>locked.
      (if locked = [] then State_Monad.return 0 else write locked) \<bind> (\<lambda>k. State_Monad.return (Inr locked)))"
  have b: "runs (\<lambda>s. P s \<and> set locked = set pks) ((if locked = [] then State_Monad.return 0 else write locked)
      \<bind> (\<lambda>k. State_Monad.return (Inr locked))) (good (\<lambda>r s. Q s \<and> set r = set pks))" for locked
  proof (cases "set locked = set pks")
    case True
    with ne have "locked \<noteq> []" by auto
    moreover have "runs P (write locked \<bind> (\<lambda>k. State_Monad.return (Inr locked))) (good (\<lambda>r s. Q s \<and> set r = set pks))"
      by (rule runs_bind [OF w [OF True]]) (rule runs_return, simp add: True)
    ultimately show ?thesis using True by simp
  qed (simp add: runs_def)
  show "runs P (transact env ?m) (good (\<lambda>r s. Q s \<and> set r = set pks))"
    by (rule runs_transact [OF q(1) runs_bind [OF runs_lock [OF q] runs_weaken [OF b]]]) (use p in auto)
  show "runs (good (\<lambda>r s. Q s \<and> set r = set pks) r) (State_Monad.return (case r of
          Inl e \<Rightarrow> if fe_owns env \<and> lost_lock_conflict env e then Inr ([], sort (remdups pks)) else Inl e
        | Inr locked \<Rightarrow> Inr (sort (remdups locked), filter (\<lambda>p. p \<notin> set locked) (sort (remdups pks)))))
      (good (\<lambda>r s. Q s \<and> set (fst r) = set pks \<and> snd r = []))" for r
    by (rule runs_return) (cases r, auto simp: filter_empty_conv)
qed

lemma runs_queue_none: "quiet env \<Longrightarrow> runs P (queue_skipped env []) (\<lambda>u. P)"
  by (simp add: queue_skipped_def reads_def id_chunks_def chunks.simps runs_def quiet_runs)

text \<open>The marks.\<close>

definition with_marks :: "nat set \<Rightarrow> flow \<Rightarrow> flow" where
  "with_marks A s = s\<lparr>flow_edges := map (\<lambda>e. if e_pk e \<in> A then e\<lparr>e_satisfied := True\<rparr> else e) (flow_edges s)\<rparr>"

lemma mark_edges_marks: "snd (mark_edges pks s) = with_marks (set pks) s"
proof -
  have "e_satisfied e \<Longrightarrow> e\<lparr>e_satisfied := True\<rparr> = e" for e :: flow_edge by simp
  then show ?thesis by (auto simp: mark_edges_def with_marks_def intro!: arg_cong [of _ _ "\<lambda>es. s\<lparr>flow_edges := es\<rparr>"])
qed

lemma with_marks_twice: "with_marks A (with_marks B s) = with_marks (A \<union> B) s"
  by (auto simp: with_marks_def intro!: arg_cong [of _ _ "\<lambda>es. s\<lparr>flow_edges := es\<rparr>"])

lemma runs_mark_satisfied:
  assumes q: "quiet env"
  shows "runs (\<lambda>s. s = s0) (mark_satisfied env pks) (\<lambda>k s. s = with_marks (set pks) s0)"
proof -
  have "runs (\<lambda>s. s = with_marks A s0) (writes env mark_edges cs) (\<lambda>k s. s = with_marks (\<Union> (set ` set cs) \<union> A) s0)" for cs A
  proof (induction cs arbitrary: A)
    case Nil
    show ?case by (auto intro: runs_return)
  next
    case (Cons c cs)
    show ?case unfolding writes.simps
      by (rule runs_bind [OF runs_writing [OF q, where Q = "\<lambda>k s. s = with_marks (set c \<union> A) s0"] runs_bind [OF Cons.IH [of "set c \<union> A"]]])
         (auto intro!: runs_return simp: mark_edges_marks with_marks_twice Un_ac)
  qed
  from this [of "{}" "id_chunks env pks"] show ?thesis
    unfolding mark_satisfied_def chunks_set by (simp add: with_marks_def)
qed

section \<open>The pages\<close>

text \<open>What the visit relies on: keys are distinct and positive, at most the marks, and fewer open rows than a page.\<close>

definition open_edges_of :: "uuid \<Rightarrow> flow \<Rightarrow> flow_edge list" where
  "open_edges_of w s = filter (\<lambda>e. e_workflow e = w \<and> \<not> e_satisfied e) (flow_edges s)"

definition open_nodes_of :: "uuid \<Rightarrow> flow \<Rightarrow> flow_node list" where
  "open_nodes_of w s = filter (\<lambda>n. n_workflow n = w \<and> \<not> n_succeeded n) (flow_nodes s)"

definition one_page :: "uuid \<Rightarrow> nat \<Rightarrow> nat \<Rightarrow> flow \<Rightarrow> bool" where
  "one_page w eh nh s = (wf_table (flow_rows s) \<and> distinct (map n_pk (flow_nodes s))
     \<and> length (open_edges_of w s) < backstop_page \<and> length (open_nodes_of w s) < backstop_page
     \<and> (\<forall>e \<in> set (flow_edges s). 0 < e_pk e \<and> e_pk e \<le> eh) \<and> (\<forall>n \<in> set (flow_nodes s). 0 < n_pk n \<and> n_pk n \<le> nh))"

lemma page_all:
  assumes "length xs < backstop_page" "\<forall>x \<in> set xs. 0 < key x \<and> key x \<le> hwm"
  shows "set (page_of key 0 hwm xs) = set xs" "length (page_of key 0 hwm xs) \<noteq> backstop_page"
proof -
  have f: "filter (\<lambda>x. 0 < key x \<and> key x \<le> hwm) xs = xs" using assms(2) by (simp add: filter_id_conv)
  then show "set (page_of key 0 hwm xs) = set xs" "length (page_of key 0 hwm xs) \<noteq> backstop_page"
    using assms(1) by (simp_all add: page_of_def)
qed

text \<open>Task rows some of which were released.\<close>

definition only_released :: "table \<Rightarrow> table \<Rightarrow> bool" where
  "only_released = list_all2 (\<lambda>r r'. r' = r \<or> pk r' = pk r \<and> status r = WAITING \<and> status r' = READY)"

lemma released_pks: "only_released t t' \<Longrightarrow> map pk t' = map pk t"
  unfolding only_released_def by (induction rule: list_all2_induct) auto

lemma released_fetch:
  assumes "only_released t t'"
  shows "fetch k t' = fetch k t \<or> (\<exists>r r'. fetch k t = Some r \<and> fetch k t' = Some r' \<and> status r = WAITING \<and> status r' = READY)"
  using assms unfolding only_released_def fetch_def by (induction rule: list_all2_induct) auto

lemma changed_released: "rows_changed (ripe s ids) (\<lambda>k. released (g k)) t t' \<Longrightarrow> only_released t t'"
  unfolding rows_changed_def only_released_def by (erule list_all2_mono) (auto simp: ripe_def row_simps split: if_splits)

text \<open>The three things a visit leaves nothing to do of.\<close>

definition marked_up :: "uuid \<Rightarrow> flow \<Rightarrow> bool" where
  "marked_up w s = (\<forall>e \<in> set (flow_edges s). e_workflow e = w \<longrightarrow> proven s (e_up e) \<longrightarrow> e_satisfied e)"

definition recorded_up :: "uuid \<Rightarrow> flow \<Rightarrow> bool" where
  "recorded_up w s = (\<forall>n \<in> set (open_nodes_of w s). kind_of_node s n \<noteq> RepairNode)"

definition released_up :: "uuid \<Rightarrow> flow \<Rightarrow> bool" where
  "released_up w s = (\<forall>n \<in> set (open_nodes_of w s). \<forall>r \<in> set (flow_rows s). pk r = n_task n \<longrightarrow> status r = WAITING \<longrightarrow> \<not> unblocked s (pk r))"

lemma released_same:
  assumes "only_released (flow_rows s) t"
  shows "proven (s\<lparr>flow_rows := t\<rparr>) k = proven s k" "kind_of_node (s\<lparr>flow_rows := t\<rparr>) n = kind_of_node s n"
    "one_page w eh nh (s\<lparr>flow_rows := t\<rparr>) = one_page w eh nh s"
    "marked_up w (s\<lparr>flow_rows := t\<rparr>) = marked_up w s" "recorded_up w (s\<lparr>flow_rows := t\<rparr>) = recorded_up w s"
proof -
  show p: "proven (s\<lparr>flow_rows := t\<rparr>) k = proven s k" for k
    using released_fetch [OF assms, of k] by (auto simp: proven_def status_at_def record_at_def node_of_def)
  show k: "kind_of_node (s\<lparr>flow_rows := t\<rparr>) n = kind_of_node s n" for n
    using released_fetch [OF assms, of "n_task n"] by (auto simp: kind_of_node_def settled_statuses_def)
  show "one_page w eh nh (s\<lparr>flow_rows := t\<rparr>) = one_page w eh nh s"
    using released_pks [OF assms] by (simp add: one_page_def wf_table_def open_edges_of_def open_nodes_of_def)
  show "marked_up w (s\<lparr>flow_rows := t\<rparr>) = marked_up w s" by (simp add: marked_up_def p)
  show "recorded_up w (s\<lparr>flow_rows := t\<rparr>) = recorded_up w s" by (simp add: recorded_up_def k open_nodes_of_def)
qed

lemma runs_release:
  assumes q: "quiet env" and wf: "wf_table (flow_rows s0)"
  shows "runs (\<lambda>s. s = s0) (release_downstream env ids)
    (good (\<lambda>k s. \<exists>t. s = s0\<lparr>flow_rows := t\<rparr> \<and> rows_changed (ripe s0 ids) (\<lambda>k. released (fe_now env k)) (flow_rows s0) t))"
  unfolding runs_def
proof (intro allI impI)
  fix n s assume "s = s0"
  with freesE [OF frees_downstream [OF q] wf, of ids n] obtain a k t where
    "run_state (release_downstream env ids) (n, s) = (Inr a, (k, s0\<lparr>flow_rows := t\<rparr>))"
    "rows_changed (ripe s0 ids) (\<lambda>k. released (fe_now env k)) (flow_rows s0) t" by metis
  then show "good (\<lambda>k s. \<exists>t. s = s0\<lparr>flow_rows := t\<rparr> \<and> rows_changed (ripe s0 ids) (\<lambda>k. released (fe_now env k)) (flow_rows s0) t)
      (fst (run_state (release_downstream env ids) (n, s))) (snd (snd (run_state (release_downstream env ids) (n, s))))" by auto
qed

lemma runs_each: "(\<And>s0. P s0 \<Longrightarrow> runs (\<lambda>s. s = s0) m Q) \<Longrightarrow> runs P m Q"
  unfolding runs_def by blast

definition short :: "(flow \<Rightarrow> bool) \<Rightarrow> failure + page_result \<Rightarrow> flow \<Rightarrow> bool" where
  "short Q = good (\<lambda>r s. \<not> fst r \<and> Q s)"

text \<open>All a visit may change: marks, records and waiting rows.\<close>

definition caught_up :: "flow \<Rightarrow> flow \<Rightarrow> bool" where
  "caught_up s s' = (list_all2 (\<lambda>e e'. e' = e \<or> e' = e\<lparr>e_satisfied := True\<rparr>) (flow_edges s) (flow_edges s')
     \<and> list_all2 (\<lambda>n n'. n' = n \<or> (\<exists>st ep. n' = node_recorded st ep n)) (flow_nodes s) (flow_nodes s')
     \<and> only_released (flow_rows s) (flow_rows s') \<and> flow_workflows s' = flow_workflows s)"

lemma only_released_refl: "only_released t t"
  by (simp add: only_released_def list.rel_refl_strong)

lemma only_released_trans:
  assumes "only_released t u" "only_released u v"
  shows "only_released t v"
  unfolding only_released_def
  by (rule list_all2_trans [OF _ assms [unfolded only_released_def]]) auto

lemma caught_up_refl: "caught_up s s"
  by (simp add: caught_up_def only_released_refl list.rel_refl_strong)

lemma caught_up_trans:
  assumes "caught_up s u" "caught_up u v"
  shows "caught_up s v"
proof -
  let ?e = "list_all2 (\<lambda>e e'. e' = e \<or> e' = e\<lparr>e_satisfied := True\<rparr>)"
  let ?n = "list_all2 (\<lambda>n n'. n' = n \<or> (\<exists>st ep. n' = node_recorded st ep n))"
  from assms have e: "?e (flow_edges s) (flow_edges u)" "?e (flow_edges u) (flow_edges v)"
    and n: "?n (flow_nodes s) (flow_nodes u)" "?n (flow_nodes u) (flow_nodes v)"
    and r: "only_released (flow_rows s) (flow_rows v)" "flow_workflows v = flow_workflows s"
    by (auto simp: caught_up_def intro: only_released_trans)
  have "?e (flow_edges s) (flow_edges v)" by (rule list_all2_trans [OF _ e]) auto
  moreover have "?n (flow_nodes s) (flow_nodes v)" by (rule list_all2_trans [OF _ n]) (metis recorded_twice)
  ultimately show ?thesis using r by (simp add: caught_up_def)
qed

lemma caught_up_rows: "only_released (flow_rows s) t \<Longrightarrow> caught_up s (s\<lparr>flow_rows := t\<rparr>)"
  by (simp add: caught_up_def list.rel_refl_strong)

lemma runs_caught_up:
  assumes "\<And>s0. P s0 \<Longrightarrow> runs (\<lambda>s. s = s0) m (short (\<lambda>s. Q s \<and> caught_up s0 s))"
  shows "runs (\<lambda>s. P s \<and> caught_up s' s) m (short (\<lambda>s. Q s \<and> caught_up s' s))"
proof (rule runs_each, elim conjE)
  fix s0 assume p: "P s0" and c: "caught_up s' s0"
  show "runs (\<lambda>s. s = s0) m (short (\<lambda>s. Q s \<and> caught_up s' s))"
  proof (rule runs_weaken [OF assms [OF p]], simp)
    fix a s assume "short (\<lambda>s. Q s \<and> caught_up s0 s) a s"
    then show "short (\<lambda>s. Q s \<and> caught_up s' s) a s"
      unfolding short_def by (rule good_mono) (use caught_up_trans [OF c] in auto)
  qed
qed

lemma runs_read_eq: "quiet env \<Longrightarrow> runs (\<lambda>s. s = s0) (k (f s0)) Q \<Longrightarrow> runs (\<lambda>s. s = s0) (read_stm env f \<bind> k) Q"
  by (simp add: runs_def run_bind run_reading)

lemma with_marks_same:
  "proven (with_marks A s) k = proven s k" "one_page w eh nh s \<Longrightarrow> one_page w eh nh (with_marks A s)"
proof -
  show "proven (with_marks A s) k = proven s k"
    by (simp add: proven_def status_at_def record_at_def node_of_def with_marks_def)
  have "length (filter (\<lambda>e. e_workflow e = w \<and> \<not> e_satisfied e) (map (\<lambda>e. if e_pk e \<in> A then e\<lparr>e_satisfied := True\<rparr> else e) es))
      \<le> length (filter (\<lambda>e. e_workflow e = w \<and> \<not> e_satisfied e) es)" for es
    by (induction es) auto
  then show "one_page w eh nh s \<Longrightarrow> one_page w eh nh (with_marks A s)"
    by (auto simp: one_page_def open_edges_of_def open_nodes_of_def with_marks_def intro: le_less_trans)
qed

lemma caught_up_marks: "caught_up s (with_marks A s)"
  by (auto simp: caught_up_def with_marks_def list_all2_map2 only_released_refl intro!: list.rel_refl_strong)

lemma runs_edge_page:
  assumes q: "quiet env" "unheld env" and s0: "one_page w eh nh s0"
  shows "runs (\<lambda>s. s = s0) (edge_page env w 0 eh) (short (\<lambda>s. (one_page w eh nh s \<and> marked_up w s) \<and> caught_up s0 s))"
proof -
  let ?rows = "page_of e_pk 0 eh (open_edges_of w s0)"
  let ?Q = "\<lambda>s. (one_page w eh nh s \<and> marked_up w s) \<and> caught_up s0 s"
  have rows: "set ?rows = set (open_edges_of w s0)" and len: "length ?rows \<noteq> backstop_page"
    using page_all [of "open_edges_of w s0" e_pk eh] s0 by (auto simp: one_page_def open_edges_of_def)
  let ?w = "\<lambda>p. map (\<lambda>e. (e_pk e, e_down e)) (filter (\<lambda>e. e_up e \<in> set p) ?rows)"
  have none: "?Q s0" if "set p = {k \<in> set (map e_up ?rows). proven s0 k}" "?w p = []" for p
    using that s0 rows by (auto simp: marked_up_def open_edges_of_def filter_empty_conv caught_up_refl)
  have marked: "?Q (with_marks (set (map fst (?w p))) s0)" if p: "set p = {k \<in> set (map e_up ?rows). proven s0 k}" for p
  proof -
    have "e_satisfied e" if "e \<in> set (flow_edges (with_marks (set (map fst (?w p))) s0))" "e_workflow e = w" "proven s0 (e_up e)" for e
    proof -
      from that(1) obtain d where d: "d \<in> set (flow_edges s0)"
        "e = (if e_pk d \<in> set (map fst (?w p)) then d\<lparr>e_satisfied := True\<rparr> else d)" by (auto simp: with_marks_def)
      show ?thesis
      proof (cases "e_satisfied d")
        case False
        have "e_workflow d = w" "e_up d = e_up e" using d(2) that(2) by (auto split: if_splits)
        with d(1) False have "d \<in> set ?rows" unfolding rows by (simp add: open_edges_of_def)
        with p that(3) \<open>e_up d = e_up e\<close> have "e_pk d \<in> set (map fst (?w p))" by force
        with d(2) show ?thesis by simp
      qed (use d(2) in auto)
    qed
    with with_marks_same(2) [OF s0] show ?thesis by (simp add: marked_up_def with_marks_same caught_up_marks)
  qed
  have free: "runs (\<lambda>s. s = s1) (raising (release_downstream env ks) (\<lambda>k. State_Monad.return (Inr (page_end e_pk ?rows k)))) (short ?Q)"
    if "?Q s1" for s1 ks
  proof (rule runs_raising [OF runs_release [OF q(1)]])
    show "wf_table (flow_rows s1)" using that by (simp add: one_page_def)
    show "runs (\<lambda>s. \<exists>t. s = s1\<lparr>flow_rows := t\<rparr> \<and> rows_changed (ripe s1 ks) (\<lambda>k. released (fe_now env k)) (flow_rows s1) t)
        (State_Monad.return (Inr (page_end e_pk ?rows k))) (short ?Q)" for k
    proof (rule runs_return, elim exE conjE)
      fix s t assume t: "s = s1\<lparr>flow_rows := t\<rparr>" "rows_changed (ripe s1 ks) (\<lambda>k. released (fe_now env k)) (flow_rows s1) t"
      note o = changed_released [OF t(2)]
      show "short ?Q (Inr (page_end e_pk ?rows k)) s" unfolding t(1)
        using that len caught_up_trans [OF _ caught_up_rows [OF o]] by (simp add: short_def page_end_def released_same [OF o])
    qed
  qed
  have rest: "runs (\<lambda>s. s = s1) (queue_skipped env [] \<bind> (\<lambda>_.
      if ks = [] then State_Monad.return (Inr (page_end e_pk ?rows 0))
      else raising (release_downstream env ks) (\<lambda>k. State_Monad.return (Inr (page_end e_pk ?rows k))))) (short ?Q)"
    if "?Q s1" for s1 ks
    by (rule runs_bind [OF runs_queue_none [OF q(1)] runs_if [OF runs_return free [OF that]]])
       (use that len in \<open>simp add: short_def page_end_def\<close>)
  have written: "runs (\<lambda>s. s = s0) (raising (write_locked env True edge_pks (map fst (?w p)) (mark_satisfied env)) (\<lambda>(marked, skipped).
         queue_skipped env (map snd (filter (\<lambda>x. fst x \<in> set skipped) (?w p))) \<bind> (\<lambda>_.
         if map snd (filter (\<lambda>x. fst x \<in> set marked) (?w p)) = [] then State_Monad.return (Inr (page_end e_pk ?rows 0))
         else raising (release_downstream env (map snd (filter (\<lambda>x. fst x \<in> set marked) (?w p))))
           (\<lambda>k. State_Monad.return (Inr (page_end e_pk ?rows k)))))) (short ?Q)"
    if p: "set p = {k \<in> set (map e_up ?rows). proven s0 k}" "?w p \<noteq> []" for p
  proof (rule runs_raising)
    let ?s1 = "with_marks (set (map fst (?w p))) s0"
    show "runs (\<lambda>s. s = s0) (write_locked env True edge_pks (map fst (?w p)) (mark_satisfied env))
        (good (\<lambda>r s. s = ?s1 \<and> set (fst r) = set (map fst (?w p)) \<and> snd r = []))"
    proof (rule runs_write_locked [OF q])
      show "set (map fst (?w p)) \<subseteq> set (edge_pks s)" if "s = s0" for s
        using that rows by (auto simp: edge_pks_def open_edges_of_def)
      show "runs (\<lambda>s. s = s0) (mark_satisfied env xs) (\<lambda>k s. s = ?s1)" if "set xs = set (map fst (?w p))" for xs
        unfolding that [symmetric] by (rule runs_mark_satisfied [OF q(1)])
    qed (use p(2) in simp)
    fix a :: "nat list \<times> nat list"
    obtain marked skipped where a: "a = (marked, skipped)" by fastforce
    show "runs (\<lambda>s. s = ?s1 \<and> set (fst a) = set (map fst (?w p)) \<and> snd a = []) (case a of (marked, skipped) \<Rightarrow>
         queue_skipped env (map snd (filter (\<lambda>x. fst x \<in> set skipped) (?w p))) \<bind> (\<lambda>_.
         if map snd (filter (\<lambda>x. fst x \<in> set marked) (?w p)) = [] then State_Monad.return (Inr (page_end e_pk ?rows 0))
         else raising (release_downstream env (map snd (filter (\<lambda>x. fst x \<in> set marked) (?w p))))
           (\<lambda>k. State_Monad.return (Inr (page_end e_pk ?rows k))))) (short ?Q)"
    proof (cases "skipped = []")
      case True
      then have sk: "map snd (filter (\<lambda>x. fst x \<in> set skipped) (?w p)) = []" by simp
      show ?thesis unfolding a prod.case sk by (rule runs_weaken [OF rest [OF marked [OF p(1)]]]) simp_all
    qed (simp add: a runs_def)
  qed
  have all: "runs (\<lambda>s. s = s0 \<and> set p = {k \<in> set (map e_up ?rows). proven s k}) (if ?w p = [] then State_Monad.return (Inr (page_end e_pk ?rows 0))
      else raising (write_locked env True edge_pks (map fst (?w p)) (mark_satisfied env)) (\<lambda>(marked, skipped).
         queue_skipped env (map snd (filter (\<lambda>x. fst x \<in> set skipped) (?w p))) \<bind> (\<lambda>_.
         if map snd (filter (\<lambda>x. fst x \<in> set marked) (?w p)) = [] then State_Monad.return (Inr (page_end e_pk ?rows 0))
         else raising (release_downstream env (map snd (filter (\<lambda>x. fst x \<in> set marked) (?w p))))
           (\<lambda>k. State_Monad.return (Inr (page_end e_pk ?rows k)))))) (short ?Q)" for p
  proof (cases "set p = {k \<in> set (map e_up ?rows). proven s0 k}")
    case True
    have "runs (\<lambda>s. s = s0) (State_Monad.return (Inr (page_end e_pk ?rows 0))) (short ?Q)" if "?w p = []"
      by (rule runs_return) (use none [OF True that] len in \<open>simp add: short_def page_end_def\<close>)
    from runs_if [OF this written [OF True]] show ?thesis by (rule runs_weaken) simp_all
  qed (auto simp: runs_def)
  show "runs (\<lambda>s. s = s0) (edge_page env w 0 eh) (short ?Q)"
    unfolding edge_page_def Let_def
  proof (rule runs_read_eq [OF q(1)], fold open_edges_of_def, rule runs_if)
    assume "?rows = []"
    with rows s0 show "runs (\<lambda>s. s = s0) (State_Monad.return (Inr (False, 0, 0))) (short ?Q)"
      by (intro runs_return) (auto simp: short_def marked_up_def open_edges_of_def filter_empty_conv caught_up_refl)
  next
    show "runs (\<lambda>s. s = s0) (succeeded_or_recorded env (map e_up ?rows) \<bind> (\<lambda>p.
        if ?w p = [] then State_Monad.return (Inr (page_end e_pk ?rows 0))
        else raising (write_locked env True edge_pks (map fst (?w p)) (mark_satisfied env)) (\<lambda>(marked, skipped).
         queue_skipped env (map snd (filter (\<lambda>x. fst x \<in> set skipped) (?w p))) \<bind> (\<lambda>_.
         if map snd (filter (\<lambda>x. fst x \<in> set marked) (?w p)) = [] then State_Monad.return (Inr (page_end e_pk ?rows 0))
         else raising (release_downstream env (map snd (filter (\<lambda>x. fst x \<in> set marked) (?w p))))
           (\<lambda>k. State_Monad.return (Inr (page_end e_pk ?rows k))))))) (short ?Q)"
      by (rule runs_bind [OF runs_proven [OF q(1)] all])
  qed
qed

section \<open>Repairing records\<close>

definition record_with :: "records \<Rightarrow> flow_node \<Rightarrow> flow_node" where
  "record_with recs n = (case map_of recs (n_pk n) of None \<Rightarrow> n | Some (st, ep) \<Rightarrow> record_one st ep n)"

definition with_records :: "records \<Rightarrow> flow \<Rightarrow> flow" where
  "with_records recs s = s\<lparr>flow_nodes := map (record_with recs) (flow_nodes s)\<rparr>"

lemma record_one_again: "record_one st ep (record_one st ep n) = record_one st ep n"
  by (simp add: record_one_def accepts_recorded)

lemma runs_record_chunks:
  assumes q: "quiet env"
  shows "runs (\<lambda>s. s = s0) (writes env (\<lambda>c. record_nodes c st ep) cs) (\<lambda>k s. s = s0\<lparr>flow_nodes :=
    map (\<lambda>n. if n_pk n \<in> \<Union> (set ` set cs) then record_one st ep n else n) (flow_nodes s0)\<rparr>)"
proof -
  let ?s = "\<lambda>A. s0\<lparr>flow_nodes := map (\<lambda>n. if n_pk n \<in> A then record_one st ep n else n) (flow_nodes s0)\<rparr>"
  have one: "snd (record_nodes c st ep (?s A)) = ?s (set c \<union> A)" for c A
    by (auto simp: record_nodes_one record_one_again intro!: arg_cong [of _ _ "\<lambda>ns. s0\<lparr>flow_nodes := ns\<rparr>"])
  have "runs (\<lambda>s. s = ?s A) (writes env (\<lambda>c. record_nodes c st ep) cs) (\<lambda>k s. s = ?s (\<Union> (set ` set cs) \<union> A))" for A
  proof (induction cs arbitrary: A)
    case Nil
    show ?case by (auto intro: runs_return)
  next
    case (Cons c cs)
    show ?case unfolding writes.simps
    proof (rule runs_bind [OF runs_writing [OF q, where Q = "\<lambda>k s. s = ?s (set c \<union> A)"] runs_bind [OF Cons.IH [of "set c \<union> A"]]])
      show "s = ?s A \<Longrightarrow> snd (record_nodes c st ep s) = ?s (set c \<union> A)" for s by (simp only: one)
      have e: "\<Union> (set ` set cs) \<union> (set c \<union> A) = \<Union> (set ` set (c # cs)) \<union> A" by auto
      show "runs (\<lambda>s. s = ?s (\<Union> (set ` set cs) \<union> (set c \<union> A))) (State_Monad.return (k + j))
          (\<lambda>k s. s = ?s (\<Union> (set ` set (c # cs)) \<union> A))" for k j :: nat unfolding e by (rule runs_return)
    qed
  qed
  from this [of "{}"] show ?thesis by simp
qed

lemma runs_record_many:
  assumes q: "quiet env" and d: "distinct (map fst recs)"
  shows "runs (\<lambda>s. s = s0) (record_many env recs) (\<lambda>k s. s = with_records recs s0)"
proof -
  let ?g = "\<lambda>G n. case map_of recs (n_pk n) of None \<Rightarrow> n | Some (st, ep) \<Rightarrow> if (st, ep) \<in> G then record_one st ep n else n"
  let ?s = "\<lambda>G. s0\<lparr>flow_nodes := map (?g G) (flow_nodes s0)\<rparr>"
  have pks: "p \<in> \<Union> (set ` set (id_chunks env (map fst (filter (\<lambda>r. snd r = (st, ep)) recs)))) \<longleftrightarrow> map_of recs p = Some (st, ep)" for p st ep
    unfolding chunks_set using d by (force simp: map_of_eq_Some_iff)
  have pk: "n_pk (?g G n) = n_pk n" for G n by (auto split: option.split)
  have one: "map (\<lambda>n. if map_of recs (n_pk n) = Some (st, ep) then record_one st ep n else n) (map (?g G) ns)
      = map (?g (insert (st, ep) G)) ns" for st ep G ns
    by (auto simp: pk record_one_again split: option.split)
  have "runs (\<lambda>s. s = ?s G) (record_each env recs gs) (\<lambda>k s. s = ?s (set gs \<union> G))" for gs G
  proof (induction gs arbitrary: G)
    case Nil
    show ?case unfolding record_each.simps by (rule runs_return) (simp only: list.set Un_empty_left)
  next
    case (Cons g gs)
    obtain st ep where g: "g = (st, ep)" by fastforce
    have step: "runs (\<lambda>s. s = ?s G) (writes env (\<lambda>c. record_nodes c st ep)
        (id_chunks env (map fst (filter (\<lambda>r. snd r = (st, ep)) recs)))) (\<lambda>k s. s = ?s (insert (st, ep) G))"
    proof (rule runs_weaken [OF runs_record_chunks [OF q, of "?s G"]])
      fix s assume s: "s = (?s G)\<lparr>flow_nodes := map (\<lambda>n. if n_pk n \<in> \<Union> (set ` set (id_chunks env (map fst
          (filter (\<lambda>r. snd r = (st, ep)) recs)))) then record_one st ep n else n) (flow_nodes (?s G))\<rparr>"
      have "s = s0\<lparr>flow_nodes := map (\<lambda>n. if map_of recs (n_pk n) = Some (st, ep) then record_one st ep n else n)
          (map (?g G) (flow_nodes s0))\<rparr>" unfolding s pks by simp
      then show "s = ?s (insert (st, ep) G)" unfolding one .
    qed
    have e: "set gs \<union> insert (st, ep) G = set ((st, ep) # gs) \<union> G" by auto
    show ?case unfolding g record_each.simps
      by (rule runs_bind [OF step runs_bind [OF Cons.IH]], unfold e) (rule runs_return)
  qed
  from this [of "{}" "record_groups recs"]
  have r: "runs (\<lambda>s. s = ?s {}) (record_many env recs) (\<lambda>k s. s = ?s (set (record_groups recs)))"
    unfolding record_many_def by (simp only: Un_empty_right)
  have "map (?g {}) ns = ns" for ns by (rule map_idI) (auto split: option.split)
  then have s0: "?s {} = s0" by simp
  have "?g (set (record_groups recs)) n = record_with recs n" for n
    by (auto simp: record_with_def record_groups_def dest!: map_of_SomeD split: option.split) force
  then have "?s (set (record_groups recs)) = with_records recs s0" by (simp add: with_records_def)
  with r s0 show ?thesis by simp
qed

text \<open>Records of open nodes, each as its task row says.\<close>

definition from_rows :: "uuid \<Rightarrow> flow \<Rightarrow> records \<Rightarrow> bool" where
  "from_rows w s recs = (\<forall>x \<in> set recs. \<exists>n \<in> set (open_nodes_of w s). n_pk n = fst x \<and> status_at (n_task n) s \<noteq> None)"

lemma node_by_pk: "one_page w eh nh s \<Longrightarrow> m \<in> set (flow_nodes s) \<Longrightarrow> n \<in> set (flow_nodes s) \<Longrightarrow> n_pk m = n_pk n \<Longrightarrow> m = n"
  by (auto simp: one_page_def distinct_map inj_on_def)

lemma record_with_same [simp]:
  "n_pk (record_with recs n) = n_pk n" "n_task (record_with recs n) = n_task n" "n_workflow (record_with recs n) = n_workflow n"
  by (auto simp: record_with_def record_one_def node_recorded_def split: option.split)

lemma caught_up_records: "caught_up s (with_records recs s)"
proof -
  have "record_with recs n = n \<or> (\<exists>st ep. record_with recs n = node_recorded st ep n)" for n
    by (auto simp: record_with_def record_one_def split: option.split)
  then show ?thesis
    by (auto simp: caught_up_def with_records_def list_all2_map2 only_released_refl intro!: list.rel_refl_strong)
qed

lemma filter_map_le: "(\<And>x. x \<in> set xs \<Longrightarrow> Q (g x) \<Longrightarrow> P x) \<Longrightarrow> length (filter Q (map g xs)) \<le> length (filter P xs)"
proof (induction xs)
  case (Cons x xs)
  then have "length (filter Q (map g xs)) \<le> length (filter P xs)" by simp
  with Cons.prems [of x] show ?case by auto
qed simp

lemma record_with_untouched:
  assumes "one_page w eh nh s" "from_rows w s recs" "n \<in> set (flow_nodes s)"
    "n_workflow n \<noteq> w \<or> n_succeeded n \<or> status_at (n_task n) s = None"
  shows "record_with recs n = n"
proof (cases "map_of recs (n_pk n)")
  case (Some g)
  then have "(n_pk n, g) \<in> set recs" by (rule map_of_SomeD)
  with assms(2) obtain m where m: "m \<in> set (open_nodes_of w s)" "n_pk m = n_pk n" "status_at (n_task m) s \<noteq> None"
    by (force simp: from_rows_def)
  with node_by_pk [OF assms(1) _ assms(3)] have "m = n" by (simp add: open_nodes_of_def)
  with m assms(4) show ?thesis by (simp add: open_nodes_of_def)
qed (simp add: record_with_def)

lemma with_records_page:
  assumes s: "one_page w eh nh s" and r: "from_rows w s recs"
  shows "one_page w eh nh (with_records recs s)" "proven (with_records recs s) k = proven s k"
    "marked_up w (with_records recs s) = marked_up w s"
proof -
  note untouched = record_with_untouched [OF s r]
  have nodes: "flow_nodes (with_records recs s) = map (record_with recs) (flow_nodes s)" by (simp add: with_records_def)
  show "one_page w eh nh (with_records recs s)"
  proof -
    have "length (open_nodes_of w (with_records recs s)) \<le> length (open_nodes_of w s)"
      unfolding open_nodes_of_def nodes
    proof (rule filter_map_le)
      fix n assume "n \<in> set (flow_nodes s)" "n_workflow (record_with recs n) = w \<and> \<not> n_succeeded (record_with recs n)"
      with untouched [of n] show "n_workflow n = w \<and> \<not> n_succeeded n" by auto
    qed
    with s show ?thesis by (auto simp: one_page_def with_records_def open_edges_of_def comp_def)
  qed
  have node: "node_of j (with_records recs s) = map_option (record_with recs) (node_of j s)" for j
  proof -
    have "find (\<lambda>n. n_task n = j) (map (record_with recs) ns) = map_option (record_with recs) (find (\<lambda>n. n_task n = j) ns)" for ns
      by (induction ns) auto
    then show ?thesis by (simp add: node_of_def nodes)
  qed
  show p: "proven (with_records recs s) k = proven s k" for k
  proof (cases "status_at k s")
    case None
    have "record_at k (with_records recs s) = record_at k s"
    proof (cases "node_of k s")
      case (Some n)
      then have "n \<in> set (flow_nodes s)" "n_task n = k" by (auto simp: node_of_def find_Some_iff)
      with untouched [of n] None Some node show ?thesis by (simp add: record_at_def)
    qed (simp add: record_at_def node)
    then show ?thesis by (simp add: proven_def status_at_def with_records_def)
  next
    case (Some st)
    then show ?thesis by (auto simp: proven_def status_at_def with_records_def)
  qed
  show "marked_up w (with_records recs s) = marked_up w s" by (simp add: marked_up_def p) (simp add: with_records_def)
qed

lemma in_map_filter: "y \<in> set (List.map_filter f xs) \<longleftrightarrow> (\<exists>x \<in> set xs. f x = Some y)"
  by (induction xs) (auto simp: List.map_filter_simps split: option.split)

lemma map_filter_keys:
  assumes "distinct (map fst xs)" "\<And>x y. x \<in> set xs \<Longrightarrow> f x = Some y \<Longrightarrow> fst y = fst x"
  shows "distinct (map fst (List.map_filter f xs))"
  using assms
proof (induction xs)
  case (Cons x xs)
  have "fst ` set (List.map_filter f xs) \<subseteq> fst ` set xs" using Cons.prems(2) by (force simp: List.map_filter_def)
  moreover have "distinct (map fst (List.map_filter f xs))" using Cons by simp
  ultimately show ?case using Cons.prems(1) Cons.prems(2) [of x]
    by (cases "f x") (auto simp: List.map_filter_simps)
qed (simp add: List.map_filter_simps)

lemma runs_repair_nodes:
  assumes q: "quiet env" "unheld env" and s0: "one_page w eh nh s0" and nodes: "set nodes = open_node ` set (open_nodes_of w s0)" "distinct (map fst nodes)"
  shows "runs (\<lambda>s. s = s0) (repair_node_records env True nodes)
    (good (\<lambda>u s. one_page w eh nh s \<and> marked_up w s = marked_up w s0 \<and> recorded_up w s \<and> caught_up s0 s))"
    (is "runs _ _ (good (\<lambda>u. ?Q))")
proof -
  let ?rows = "concat (map (\<lambda>c. map (\<lambda>r. (pk r, status r, lease_epoch r)) (filter (\<lambda>r. pk r \<in> set c) (flow_rows s0)))
    (id_chunks env (map (\<lambda>n. fst (snd n)) nodes)))"
  let ?wanted = "List.map_filter (record_wanted ?rows) nodes"
  let ?recs = "map (\<lambda>(p, st, e, k). (p, st, e)) ?wanted"
  have wf: "wf_table (flow_rows s0)" using s0 by (simp add: one_page_def)
  have rows: "set ?rows = (\<lambda>r. (pk r, status r, lease_epoch r)) ` {r \<in> set (flow_rows s0). pk r \<in> n_task ` set (open_nodes_of w s0)}"
    using rows_by_chunk [where f = pk and Q = "\<lambda>r. True" and h = "\<lambda>r. (pk r, status r, lease_epoch r)" and xs = "flow_rows s0"
        and cs = "id_chunks env (map (\<lambda>n. fst (snd n)) nodes)"] nodes
    unfolding chunks_set by (simp add: image_image open_node_def)
  have row: "map_of ?rows (n_task n) = map_option (\<lambda>r. (status r, lease_epoch r)) (fetch (n_task n) (flow_rows s0))"
    if n: "n \<in> set (open_nodes_of w s0)" for n
  proof (cases "fetch (n_task n) (flow_rows s0)")
    case None
    then have "n_task n \<notin> fst ` set ?rows" unfolding rows by (auto simp: fetch_def find_None_iff)
    with None show ?thesis by (simp add: map_of_eq_None_iff)
  next
    case (Some r)
    have one: "x = (status r, lease_epoch r)" if "(n_task n, x) \<in> set ?rows" for x
    proof -
      from that obtain q where q: "q \<in> set (flow_rows s0)" "pk q = n_task n" "x = (status q, lease_epoch q)"
        unfolding rows by auto
      from q(1,2) have "fetch (n_task n) (flow_rows s0) = Some q" by (simp add: fetch_Some [OF wf])
      with Some q(3) show ?thesis by simp
    qed
    have "(n_task n, status r, lease_epoch r) \<in> set ?rows" unfolding rows using Some n by (force simp: fetch_Some [OF wf])
    then obtain x where "map_of ?rows (n_task n) = Some x" by (cases "map_of ?rows (n_task n)") (auto simp: map_of_eq_None_iff image_iff)
    with one [OF map_of_SomeD [OF this]] Some show ?thesis by simp
  qed
  have wanted: "fst x = fst n" if "record_wanted ?rows n = Some x" for n x
    using that by (auto simp: record_wanted_def split: prod.splits option.splits if_splits)
  have d: "distinct (map fst ?wanted)"
    by (rule map_filter_keys [OF nodes(2) wanted])
  have wd: "record_wanted ?rows (open_node n) = (case fetch (n_task n) (flow_rows s0) of None \<Rightarrow> None
      | Some r \<Rightarrow> if status r \<in> settled_statuses \<and> outcome_accepts (status r) (lease_epoch r) n
          then Some (n_pk n, status r, lease_epoch r, n_task n) else None)" if "n \<in> set (open_nodes_of w s0)" for n
    unfolding record_wanted_def open_node_def prod.case row [OF that] record_takes_accepts
    by (auto simp: recorded_statuses_def dead_statuses_def settled_statuses_def split: option.split)
  have in_wanted: "x \<in> set ?wanted \<longleftrightarrow> (\<exists>n \<in> set (open_nodes_of w s0). record_wanted ?rows (open_node n) = Some x)" for x
    unfolding in_map_filter nodes(1) by blast
  have recs_key: "map fst ?recs = map fst ?wanted" by (simp add: split_beta comp_def)
  have rs: "from_rows w s0 ?recs"
    unfolding from_rows_def
  proof (rule ballI)
    fix x assume "x \<in> set ?recs"
    then obtain v where v: "v \<in> set ?wanted" "fst x = fst v" by (auto simp: split_beta)
    then obtain n where n: "n \<in> set (open_nodes_of w s0)" "record_wanted ?rows (open_node n) = Some v" using in_wanted by blast
    from n(2) wanted [OF n(2)] v(2) have "n_pk n = fst x" by (simp add: open_node_def)
    moreover from n(2) obtain r where "fetch (n_task n) (flow_rows s0) = Some r"
      unfolding wd [OF n(1)] by (cases "fetch (n_task n) (flow_rows s0)") auto
    then have "status_at (n_task n) s0 \<noteq> None" by (simp add: status_at_def)
    ultimately show "\<exists>n \<in> set (open_nodes_of w s0). n_pk n = fst x \<and> status_at (n_task n) s0 \<noteq> None"
      using n(1) by blast
  qed
  have Q: "?Q (with_records ?recs s0)"
  proof (intro conjI with_records_page [OF s0 rs] caught_up_records)
    show "recorded_up w (with_records ?recs s0)" unfolding recorded_up_def
    proof (intro ballI notI)
      fix m assume "m \<in> set (open_nodes_of w (with_records ?recs s0))" and k: "kind_of_node (with_records ?recs s0) m = RepairNode"
      then obtain n where n0: "n \<in> set (flow_nodes s0)" "m = record_with ?recs n" "n_workflow n = w" "\<not> n_succeeded m"
        by (auto simp: open_nodes_of_def with_records_def)
      with record_with_untouched [OF s0 rs n0(1)] have n: "n \<in> set (open_nodes_of w s0)" by (auto simp: open_nodes_of_def)
      from k n0(2) obtain r where r: "fetch (n_task n) (flow_rows s0) = Some r" "status r \<in> settled_statuses"
        "outcome_accepts (status r) (lease_epoch r) m"
        by (auto simp: kind_of_node_def with_records_def split: option.splits if_splits)
      show False
      proof (cases "outcome_accepts (status r) (lease_epoch r) n")
        case True
        with wd [OF n] r have "(n_pk n, status r, lease_epoch r, n_task n) \<in> set ?wanted" using in_wanted n by auto
        then have "(n_pk n, status r, lease_epoch r) \<in> set ?recs" by force
        with d have "map_of ?recs (n_pk n) = Some (status r, lease_epoch r)" unfolding recs_key [symmetric] by simp
        with n0(2) r(3) True show False by (simp add: record_with_def record_one_def accepts_recorded)
      next
        case False
        have "map_of ?recs (n_pk n) = None"
        proof (rule ccontr)
          assume "map_of ?recs (n_pk n) \<noteq> None"
          then have "n_pk n \<in> fst ` set ?recs" by (auto dest!: map_of_SomeD intro: rev_image_eqI)
          then have "n_pk n \<in> set (map fst ?wanted)" using arg_cong [OF recs_key, of set] by (simp only: set_map)
          then obtain v where v: "v \<in> set ?wanted" "fst v = n_pk n" by auto
          then obtain p where p: "p \<in> set (open_nodes_of w s0)" "record_wanted ?rows (open_node p) = Some v" using in_wanted by blast
          from wanted [OF p(2)] v(2) have "n_pk p = n_pk n" by (simp add: open_node_def)
          with node_by_pk [OF s0 _ n0(1)] p(1) have "p = n" by (simp add: open_nodes_of_def)
          with p(2) wd [OF n] r(1) False show False by simp
        qed
        with n0(2) r(3) False show False by (simp add: record_with_def)
      qed
    qed
  qed
  have same: "s0 = with_records ?recs s0" if "?wanted = []"
    unfolding that with_records_def by (simp add: record_with_def [abs_def])
  have empty: "runs (\<lambda>s. s = s0) (State_Monad.return (Inr ())) (good (\<lambda>u. ?Q))" if "?wanted = []"
    by (rule runs_return) (use Q same [OF that] in simp)
  have locked: "runs (\<lambda>s. s = s0) (write_locked env True node_pks (map fst ?wanted)
         (\<lambda>pks. record_many env (map (\<lambda>(p, st, e, k). (p, st, e)) (filter (\<lambda>x. fst x \<in> set pks) ?wanted))))
      (good (\<lambda>r s. s = with_records ?recs s0 \<and> set (fst r) = set (map fst ?wanted) \<and> snd r = []))" if "?wanted \<noteq> []"
  proof (rule runs_write_locked [OF q])
    show "set (map fst ?wanted) \<subseteq> set (node_pks s)" if "s = s0" for s
    proof
      fix p assume "p \<in> set (map fst ?wanted)"
      then have "p \<in> fst ` set ?recs" using arg_cong [OF recs_key, of set] by (simp only: set_map)
      with rs that show "p \<in> set (node_pks s)" by (fastforce simp: from_rows_def open_nodes_of_def node_pks_def)
    qed
    fix xs assume xs: "set xs = set (map fst ?wanted)"
    have all: "filter (\<lambda>x. fst x \<in> set xs) ?wanted = ?wanted" unfolding xs by (simp add: filter_id_conv)
    show "runs (\<lambda>s. s = s0) (record_many env (map (\<lambda>(p, st, e, k). (p, st, e)) (filter (\<lambda>x. fst x \<in> set xs) ?wanted)))
        (\<lambda>k s. s = with_records ?recs s0)"
      unfolding all by (rule runs_record_many [OF q(1)], unfold recs_key) (rule d)
  qed (use that in simp)
  have full: "runs (\<lambda>s. s = s0) (raising (write_locked env True node_pks (map fst ?wanted)
         (\<lambda>pks. record_many env (map (\<lambda>(p, st, e, k). (p, st, e)) (filter (\<lambda>x. fst x \<in> set pks) ?wanted))))
       (\<lambda>(written, skipped). queue_skipped env (map (\<lambda>(p, st, e, k). k) (filter (\<lambda>x. fst x \<in> set skipped) ?wanted))
         \<bind> (\<lambda>_. State_Monad.return (Inr ())))) (good (\<lambda>u. ?Q))" if "?wanted \<noteq> []"
  proof (rule runs_raising [OF locked [OF that]])
    fix a :: "nat list \<times> nat list"
    obtain written skipped where a: "a = (written, skipped)" by fastforce
    show "runs (\<lambda>s. s = with_records ?recs s0 \<and> set (fst a) = set (map fst ?wanted) \<and> snd a = []) (case a of (written, skipped) \<Rightarrow>
        queue_skipped env (map (\<lambda>(p, st, e, k). k) (filter (\<lambda>x. fst x \<in> set skipped) ?wanted))
         \<bind> (\<lambda>_. State_Monad.return (Inr ()))) (good (\<lambda>u. ?Q))"
    proof (cases "skipped = []")
      case True
      then have sk: "map (\<lambda>(p, st, e, k). k) (filter (\<lambda>x. fst x \<in> set skipped) ?wanted) = []" by simp
      show ?thesis unfolding a prod.case sk
        by (rule runs_bind [OF runs_queue_none [OF q(1)] runs_return]) (use Q in simp)
    qed (simp add: a runs_def)
  qed
  show ?thesis unfolding repair_node_records_def Let_def
  proof (rule runs_bind [OF runs_reads [OF q(1)]])
    fix rows
    show "runs (\<lambda>s. s = s0 \<and> rows = concat (map (\<lambda>c. map (\<lambda>r. (pk r, status r, lease_epoch r)) (filter (\<lambda>r. pk r \<in> set c) (flow_rows s)))
        (id_chunks env (map (\<lambda>n. fst (snd n)) nodes)))) (if List.map_filter (record_wanted rows) nodes = [] then State_Monad.return (Inr ())
      else raising (write_locked env True node_pks (map fst (List.map_filter (record_wanted rows) nodes))
         (\<lambda>pks. record_many env (map (\<lambda>(p, st, e, k). (p, st, e)) (filter (\<lambda>x. fst x \<in> set pks) (List.map_filter (record_wanted rows) nodes)))))
       (\<lambda>(written, skipped). queue_skipped env (map (\<lambda>(p, st, e, k). k) (filter (\<lambda>x. fst x \<in> set skipped) (List.map_filter (record_wanted rows) nodes)))
         \<bind> (\<lambda>_. State_Monad.return (Inr ())))) (good (\<lambda>u. ?Q))"
    proof (cases "rows = ?rows")
      case True
      show ?thesis unfolding True by (rule runs_weaken [OF runs_if [OF empty full]]) simp_all
    qed (auto simp: runs_def)
  qed
qed

lemma node_page_rows:
  assumes "one_page w eh nh s"
  shows "set (map open_node (page_of n_pk 0 nh (open_nodes_of w s))) = open_node ` set (open_nodes_of w s)"
    "distinct (map fst (map open_node (page_of n_pk 0 nh (open_nodes_of w s))))"
    "length (map open_node (page_of n_pk 0 nh (open_nodes_of w s))) \<noteq> backstop_page"
proof -
  have p: "set (page_of n_pk 0 nh (open_nodes_of w s)) = set (open_nodes_of w s)"
    "length (page_of n_pk 0 nh (open_nodes_of w s)) \<noteq> backstop_page"
    using page_all [of "open_nodes_of w s" n_pk nh] assms by (auto simp: one_page_def open_nodes_of_def)
  then show "set (map open_node (page_of n_pk 0 nh (open_nodes_of w s))) = open_node ` set (open_nodes_of w s)"
    "length (map open_node (page_of n_pk 0 nh (open_nodes_of w s))) \<noteq> backstop_page" by simp_all
  have "distinct (map n_pk (sort_key n_pk (filter (\<lambda>x. 0 < n_pk x \<and> n_pk x \<le> nh) (open_nodes_of w s))))"
    using assms by (simp add: one_page_def open_nodes_of_def distinct_map inj_on_def)
  then show "distinct (map fst (map open_node (page_of n_pk 0 nh (open_nodes_of w s))))"
    by (simp add: page_of_def open_node_def comp_def take_map [symmetric])
qed

lemma runs_node_page:
  assumes q: "quiet env" "unheld env" and s0: "one_page w eh nh s0" "marked_up w s0"
  shows "runs (\<lambda>s. s = s0) (node_page env w 0 nh)
    (short (\<lambda>s. (one_page w eh nh s \<and> marked_up w s \<and> recorded_up w s) \<and> caught_up s0 s))"
proof -
  let ?rows = "map open_node (page_of n_pk 0 nh (open_nodes_of w s0))"
  let ?Q = "\<lambda>s. (one_page w eh nh s \<and> marked_up w s \<and> recorded_up w s) \<and> caught_up s0 s"
  note page = node_page_rows [OF s0(1)]
  show "runs (\<lambda>s. s = s0) (node_page env w 0 nh) (short ?Q)"
    unfolding node_page_def open_node_page_def
  proof (rule runs_read_eq [OF q(1)], fold open_nodes_of_def, rule runs_if)
    assume "?rows = []"
    with page(1) s0 show "runs (\<lambda>s. s = s0) (State_Monad.return (Inr (False, 0, 0))) (short ?Q)"
      by (intro runs_return) (simp add: short_def recorded_up_def caught_up_refl)
  next
    show "runs (\<lambda>s. s = s0) (raising (repair_node_records env True ?rows) (\<lambda>_. State_Monad.return (Inr (page_end fst ?rows 0)))) (short ?Q)"
      by (rule runs_raising [OF runs_repair_nodes [OF q s0(1) page(1,2)]], rule runs_return)
         (use s0(2) page(3) in \<open>simp add: short_def page_end_def\<close>)
  qed
qed

lemma runs_release_page:
  assumes q: "quiet env" and s0: "one_page w eh nh s0" "marked_up w s0" "recorded_up w s0"
  shows "runs (\<lambda>s. s = s0) (release_page env w 0 nh)
    (short (\<lambda>s. (marked_up w s \<and> recorded_up w s \<and> released_up w s) \<and> caught_up s0 s))"
proof -
  let ?rows = "map open_node (page_of n_pk 0 nh (open_nodes_of w s0))"
  let ?Q = "\<lambda>s. (marked_up w s \<and> recorded_up w s \<and> released_up w s) \<and> caught_up s0 s"
  let ?ids = "concat (map (\<lambda>c. map pk (filter (\<lambda>r. pk r \<in> set c \<and> status r = WAITING) (flow_rows s0)))
    (id_chunks env (map (\<lambda>n. fst (snd n)) ?rows)))"
  note page = node_page_rows [OF s0(1)]
  have wf: "wf_table (flow_rows s0)" using s0(1) by (simp add: one_page_def)
  have ids: "set ?ids = pk ` {r \<in> set (flow_rows s0). pk r \<in> n_task ` set (open_nodes_of w s0) \<and> status r = WAITING}"
  proof -
    have "set (map (\<lambda>n. fst (snd n)) ?rows) = n_task ` set (open_nodes_of w s0)"
      using arg_cong [OF page(1), of "\<lambda>A. (\<lambda>n. fst (snd n)) ` A"] by (simp add: image_image open_node_def)
    then show ?thesis unfolding rows_by_chunk chunks_set by simp
  qed
  have over: "?Q (s0\<lparr>flow_rows := t\<rparr>)" if t: "rows_changed (ripe s0 ?ids) (\<lambda>k. released (fe_now env k)) (flow_rows s0) t" for t
  proof (intro conjI)
    note o = changed_released [OF t]
    show "caught_up s0 (s0\<lparr>flow_rows := t\<rparr>)" by (rule caught_up_rows [OF o])
    show "marked_up w (s0\<lparr>flow_rows := t\<rparr>)" "recorded_up w (s0\<lparr>flow_rows := t\<rparr>)" using s0 by (simp_all add: released_same [OF o])
    show "released_up w (s0\<lparr>flow_rows := t\<rparr>)" unfolding released_up_def
    proof (intro ballI impI notI)
      fix n r' assume n: "n \<in> set (open_nodes_of w (s0\<lparr>flow_rows := t\<rparr>))" and r': "r' \<in> set (flow_rows (s0\<lparr>flow_rows := t\<rparr>))"
        "pk r' = n_task n" "status r' = WAITING" "unblocked (s0\<lparr>flow_rows := t\<rparr>) (pk r')"
      from r'(1) obtain i where i: "i < length t" "t ! i = r'" by (auto simp: in_set_conv_nth)
      with t have l: "length (flow_rows s0) = length t" by (auto simp: rows_changed_def dest: list_all2_lengthD)
      with t i have at: "if ripe s0 ?ids (flow_rows s0 ! i) then \<exists>m. r' = released (fe_now env m) (flow_rows s0 ! i) else r' = flow_rows s0 ! i"
        unfolding rows_changed_def by (auto dest: list_all2_nthD2)
      have "\<not> ripe s0 ?ids (flow_rows s0 ! i)" using at r'(3) by (auto simp: row_simps)
      with at have e: "r' = flow_rows s0 ! i" by simp
      with i(1) l have "r' \<in> set (flow_rows s0)" by simp
      moreover have "pk r' \<in> n_task ` set (open_nodes_of w s0)" using n r'(2) by (simp add: open_nodes_of_def)
      ultimately have "pk r' \<in> set ?ids" unfolding ids using r'(3) by blast
      with r' have "ripe s0 ?ids r'" by (simp add: ripe_def unblocked_def)
      with \<open>\<not> ripe s0 ?ids (flow_rows s0 ! i)\<close> e show False by simp
    qed
  qed
  have all: "runs (\<lambda>s. s = s0) (if ?ids = [] then State_Monad.return (Inr (page_end fst ?rows 0))
      else raising (release_downstream env ?ids) (\<lambda>k. State_Monad.return (Inr (page_end fst ?rows k)))) (short ?Q)"
  proof (rule runs_if)
    assume "?ids = []"
    then have "rows_changed (ripe s0 ?ids) (\<lambda>k. released (fe_now env k)) (flow_rows s0) (flow_rows s0)"
      by (intro changed_none) (simp add: ripe_def)
    from over [OF this] page(3) show "runs (\<lambda>s. s = s0) (State_Monad.return (Inr (page_end fst ?rows 0))) (short ?Q)"
      by (intro runs_return) (simp add: short_def page_end_def)
  next
    show "runs (\<lambda>s. s = s0) (raising (release_downstream env ?ids) (\<lambda>k. State_Monad.return (Inr (page_end fst ?rows k)))) (short ?Q)"
      by (rule runs_raising [OF runs_release [OF q wf]], rule runs_return)
         (use over page(3) in \<open>auto simp: short_def page_end_def\<close>)
  qed
  show "runs (\<lambda>s. s = s0) (release_page env w 0 nh) (short ?Q)"
    unfolding release_page_def open_node_page_def
  proof (rule runs_read_eq [OF q], fold open_nodes_of_def, rule runs_if)
    assume "?rows = []"
    with page(1) s0 show "runs (\<lambda>s. s = s0) (State_Monad.return (Inr (False, 0, 0))) (short ?Q)"
      by (intro runs_return) (simp add: short_def released_up_def caught_up_refl)
  next
    show "runs (\<lambda>s. s = s0) (reads env (\<lambda>c s. map pk (filter (\<lambda>r. pk r \<in> set c \<and> status r = WAITING) (flow_rows s)))
        (id_chunks env (map (\<lambda>n. fst (snd n)) ?rows)) \<bind> (\<lambda>waiting.
      if waiting = [] then State_Monad.return (Inr (page_end fst ?rows 0))
      else raising (release_downstream env waiting) (\<lambda>k. State_Monad.return (Inr (page_end fst ?rows k))))) (short ?Q)"
    proof (rule runs_bind [OF runs_reads [OF q]])
      fix waiting
      show "runs (\<lambda>s. s = s0 \<and> waiting = concat (map (\<lambda>c. map pk (filter (\<lambda>r. pk r \<in> set c \<and> status r = WAITING) (flow_rows s)))
          (id_chunks env (map (\<lambda>n. fst (snd n)) ?rows)))) (if waiting = [] then State_Monad.return (Inr (page_end fst ?rows 0))
        else raising (release_downstream env waiting) (\<lambda>k. State_Monad.return (Inr (page_end fst ?rows k)))) (short ?Q)"
      proof (cases "waiting = ?ids")
        case True
        show ?thesis unfolding True by (rule runs_weaken [OF all]) simp_all
      qed (auto simp: runs_def)
    qed
  qed
qed

section \<open>A visit\<close>

lemma runs_overdue: "runs P (overdue (\<lambda>n. False)) (\<lambda>b s. P s \<and> \<not> b)"
  by (simp add: runs_def overdue_def)

lemma runs_short_page:
  assumes page: "runs P (run_page env w ph pos eh nh) (short R)"
    and rest: "\<And>ph'. following_phase ph = Some ph' \<Longrightarrow>
      runs R (visit_from env (\<lambda>n. False) w eh nh left True ph' 0 at_rest) (good (\<lambda>k. Q))"
    and over: "\<And>s. following_phase ph = None \<Longrightarrow> R s \<Longrightarrow> Q s"
  shows "runs P (visit_from env (\<lambda>n. False) w eh nh (Suc left) paged ph pos at_rest) (good (\<lambda>k. Q))"
proof -
  have go: "runs R (case following_phase ph of
        Some ph' \<Rightarrow> raising (visit_from env (\<lambda>n. False) w eh nh left True ph' 0 at_rest) (\<lambda>more. State_Monad.return (Inr (k + more)))
      | None \<Rightarrow> (if at_rest \<noteq> at_rest then store_scan env w at_rest at_rest else State_Monad.return True) \<bind> (\<lambda>ok.
          State_Monad.return (Inr k))) (good (\<lambda>k. Q))" for k :: nat
  proof (cases "following_phase ph")
    case None
    have "runs R ((if at_rest \<noteq> at_rest then store_scan env w at_rest at_rest else State_Monad.return True) \<bind> (\<lambda>ok.
        State_Monad.return (Inr k))) (good (\<lambda>k. Q))"
      by (rule runs_bind [where R = "\<lambda>b. R"]) (use over [OF None] in \<open>auto intro: runs_return\<close>)
    with None show ?thesis by simp
  next
    case (Some ph')
    have "runs R (raising (visit_from env (\<lambda>n. False) w eh nh left True ph' 0 at_rest) (\<lambda>more. State_Monad.return (Inr (k + more))))
        (good (\<lambda>k. Q))"
      by (rule runs_raising [OF rest [OF Some]]) (auto intro: runs_return)
    with Some show ?thesis by simp
  qed
  let ?page = "raising (run_page env w ph pos eh nh) (\<lambda>(full, last_key, n_freed).
       if full then store_scan env w at_rest (ph, last_key, Some eh, Some nh) \<bind> (\<lambda>ok.
         if ok then raising (visit_from env (\<lambda>n. False) w eh nh left True ph last_key (ph, last_key, Some eh, Some nh))
           (\<lambda>more. State_Monad.return (Inr (n_freed + more)))
         else State_Monad.return (Inr n_freed))
       else (case following_phase ph of
           Some ph' \<Rightarrow> raising (visit_from env (\<lambda>n. False) w eh nh left True ph' 0 at_rest)
             (\<lambda>more. State_Monad.return (Inr (n_freed + more)))
         | None \<Rightarrow> (if at_rest \<noteq> at_rest then store_scan env w at_rest at_rest else State_Monad.return True) \<bind> (\<lambda>ok.
             State_Monad.return (Inr n_freed))))"
  have p: "runs P ?page (good (\<lambda>k. Q))"
  proof (rule runs_raising [OF page [unfolded short_def]])
    fix a :: page_result
    obtain full last_key k where a: "a = (full, last_key, k)" by (rule prod_cases3)
    show "runs (\<lambda>s. \<not> fst a \<and> R s) (case a of (full, last_key, n_freed) \<Rightarrow>
       if full then store_scan env w at_rest (ph, last_key, Some eh, Some nh) \<bind> (\<lambda>ok.
         if ok then raising (visit_from env (\<lambda>n. False) w eh nh left True ph last_key (ph, last_key, Some eh, Some nh))
           (\<lambda>more. State_Monad.return (Inr (n_freed + more)))
         else State_Monad.return (Inr n_freed))
       else (case following_phase ph of
           Some ph' \<Rightarrow> raising (visit_from env (\<lambda>n. False) w eh nh left True ph' 0 at_rest)
             (\<lambda>more. State_Monad.return (Inr (n_freed + more)))
         | None \<Rightarrow> (if at_rest \<noteq> at_rest then store_scan env w at_rest at_rest else State_Monad.return True) \<bind> (\<lambda>ok.
             State_Monad.return (Inr n_freed)))) (good (\<lambda>k. Q))"
    proof (cases full)
      case False
      show ?thesis unfolding a prod.case if_not_P [OF False] by (rule runs_weaken [OF go]) simp_all
    qed (simp add: a runs_def)
  qed
  have o: "runs P (if paged then overdue (\<lambda>n. False) else State_Monad.return False) (\<lambda>b s. P s \<and> \<not> b)"
    by (rule runs_if [OF runs_overdue runs_return]) simp
  show ?thesis unfolding visit_from.simps
  proof (rule runs_bind [OF o], rule runs_if)
    fix stop :: bool
    show "runs (\<lambda>s. P s \<and> \<not> stop) ?page (good (\<lambda>k. Q))" by (rule runs_weaken [OF p]) simp_all
  qed (simp add: runs_def)
qed

lemma runs_visit:
  assumes q: "quiet env" "unheld env"
  shows "runs (\<lambda>s. s = s0 \<and> find_scan w s = None \<and> one_page w (fst marks) (snd marks) s) (visit env (\<lambda>n. False) marks w)
    (good (\<lambda>k s. (marked_up w s \<and> recorded_up w s \<and> released_up w s) \<and> caught_up s0 s))"
    (is "runs ?P _ (good (\<lambda>k. ?Q))")
proof -
  let ?v = "visit_from env (\<lambda>n. False) w (fst marks) (snd marks)"
  let ?P1 = "one_page w (fst marks) (snd marks)"
  have release: "runs (\<lambda>s. (?P1 s \<and> marked_up w s \<and> recorded_up w s) \<and> caught_up s0 s) (?v (Suc 5) True Release 0 at_rest) (good (\<lambda>k. ?Q))"
  proof (rule runs_short_page [where R = ?Q])
    show "runs (\<lambda>s. (?P1 s \<and> marked_up w s \<and> recorded_up w s) \<and> caught_up s0 s) (run_page env w Release 0 (fst marks) (snd marks)) (short ?Q)"
      unfolding run_page.simps by (rule runs_caught_up, rule runs_release_page [OF q(1)]) auto
  qed simp_all
  have nodes: "runs (\<lambda>s. (?P1 s \<and> marked_up w s) \<and> caught_up s0 s) (?v (Suc 6) True Nodes 0 at_rest) (good (\<lambda>k. ?Q))"
  proof (rule runs_short_page [where R = "\<lambda>s. (?P1 s \<and> marked_up w s \<and> recorded_up w s) \<and> caught_up s0 s"])
    show "runs (\<lambda>s. (?P1 s \<and> marked_up w s) \<and> caught_up s0 s) (run_page env w Nodes 0 (fst marks) (snd marks))
        (short (\<lambda>s. (?P1 s \<and> marked_up w s \<and> recorded_up w s) \<and> caught_up s0 s))"
      unfolding run_page.simps by (rule runs_caught_up, rule runs_node_page [OF q]) auto
  qed (use release in \<open>simp_all del: visit_from.simps\<close>)
  have edges: "runs (\<lambda>s. ?P1 s \<and> caught_up s0 s) (?v (Suc 7) False Edges 0 at_rest) (good (\<lambda>k. ?Q))"
  proof (rule runs_short_page [where R = "\<lambda>s. (?P1 s \<and> marked_up w s) \<and> caught_up s0 s"])
    show "runs (\<lambda>s. ?P1 s \<and> caught_up s0 s) (run_page env w Edges 0 (fst marks) (snd marks))
        (short (\<lambda>s. (?P1 s \<and> marked_up w s) \<and> caught_up s0 s))"
      unfolding run_page.simps by (rule runs_caught_up, rule runs_edge_page [OF q])
  qed (use nodes in \<open>simp_all del: visit_from.simps\<close>)
  have pages: "visit_pages = Suc 7" by (simp add: visit_pages_def)
  show ?thesis unfolding visit_def Let_def
  proof (rule runs_bind [OF runs_reading [OF q(1)]])
    fix row
    show "runs (\<lambda>s. ?P s \<and> row = find_scan w s) (case (case row of None \<Rightarrow> at_rest | Some x \<Rightarrow> place_of x) of
        (ph, pos, Some eh, Some nh) \<Rightarrow> visit_from env (\<lambda>n. False) w eh nh visit_pages False ph pos (case row of None \<Rightarrow> at_rest | Some x \<Rightarrow> place_of x)
      | _ \<Rightarrow> ?v visit_pages False Edges 0 (case row of None \<Rightarrow> at_rest | Some x \<Rightarrow> place_of x)) (good (\<lambda>k. ?Q))"
    proof (cases row)
      case None
      have "runs (\<lambda>s. ?P s \<and> row = find_scan w s) (?v visit_pages False Edges 0 at_rest) (good (\<lambda>k. ?Q))"
        unfolding pages by (rule runs_weaken [OF edges]) (auto simp: caught_up_refl)
      with None show ?thesis by (simp add: at_rest_def del: visit_from.simps)
    qed (rule runs_absurd, auto)
  qed
qed

end
