(* ===== verification/FlowPrune.thy ===== *)
theory FlowPrune
  imports FlowRetire FlowSweep FlowRuns
begin

text \<open>
  What the deletes of a retirement achieve when nothing else commits: enough fuel ends the loop, no node that can
  go is left, and nothing else is deleted.
\<close>

section \<open>One chunk\<close>

lemma runs_reissued:
  assumes "runs P once (good Q)"
  shows "runs P (reissued_stm env deadlocks once) (good Q)"
  unfolding runs_def
proof (intro allI impI)
  fix n s assume "P s"
  let ?body = "\<lambda>i c. case run_state once c of (Inl e, c') \<Rightarrow> Inl e | (Inr a, c') \<Rightarrow> Inr (a, c')"
  obtain b n1 s1 where o: "run_state once (n, s) = (b, (n1, s1))" by (rule prod_cases3)
  with assms \<open>P s\<close> have "good Q b s1" unfolding runs_def by (metis fst_conv snd_conv)
  then obtain v where v: "b = Inr v" "Q v s1" by (cases b) auto
  have "reissue_from (fe_owns env) (fe_vendor env) deadlocks ?body (\<lambda>i c. snd (run_state once c)) 0 (n, s) = (Inr v, (n1, s1))"
    by (subst reissue_from.simps) (simp add: o v)
  then show "good Q (fst (run_state (reissued_stm env deadlocks once) (n, s))) (snd (snd (run_state (reissued_stm env deadlocks once) (n, s))))"
    using v(2) by (simp add: reissued_stm_def reissue_def)
qed

text \<open>A node that can go: its outcome is recorded and no retry can move its row.\<close>

definition can_go :: "flow \<Rightarrow> flow_node \<Rightarrow> bool" where
  "can_go s n = (n_outcome n \<noteq> None \<and> (case status_at (n_task n) s of None \<Rightarrow> True | Some st \<Rightarrow> st \<in> retirable_statuses))"

text \<open>A store some of whose nodes of \<open>w\<close> that can go are gone; the task rows only had waiting ones released.\<close>

definition pruned :: "uuid \<Rightarrow> (flow_node \<Rightarrow> bool) \<Rightarrow> flow \<Rightarrow> flow \<Rightarrow> bool" where
  "pruned w P s s' = (flow_nodes s' = filter (\<lambda>n. \<not> (n_workflow n = w \<and> can_go s n \<and> P n)) (flow_nodes s)
     \<and> only_released (flow_rows s) (flow_rows s') \<and> flow_workflows s' = flow_workflows s)"

lemma can_go_released: "only_released (flow_rows s) (flow_rows s') \<Longrightarrow> can_go s' n = can_go s n"
  using released_fetch [of "flow_rows s" "flow_rows s'" "n_task n"]
  by (auto simp: can_go_def status_at_def retirable_statuses_def)

lemma pruned_trans:
  assumes "pruned w P s s1" "pruned w Q s1 s2"
  shows "pruned w (\<lambda>n. P n \<or> Q n) s s2"
  using assms only_released_trans can_go_released [of s s1]
  by (auto simp: pruned_def intro!: filter_cong)

lemma runs_lock_any: "quiet env \<Longrightarrow> runs P (lock_in_key_order env skip present pks) (\<lambda>r. P)"
  unfolding runs_def by (metis run_lock fst_conv snd_conv)

lemma runs_writes: "quiet env \<Longrightarrow> (\<And>c s. P s \<Longrightarrow> P (snd (f c s))) \<Longrightarrow> runs P (writes env f cs) (\<lambda>k. P)"
proof (induction cs)
  case (Cons c cs)
  show ?case unfolding writes.simps
    by (rule runs_bind [OF runs_writing [OF Cons.prems(1), where Q = "\<lambda>k. P"] runs_bind [OF Cons.IH [OF Cons.prems] runs_return]])
       (use Cons.prems(2) in auto)
qed (auto intro: runs_return)

lemma runs_reads_any: "quiet env \<Longrightarrow> runs P (reads env f cs) (\<lambda>r. P)"
  by (rule runs_weaken [OF runs_reads]) auto

definition retiring :: "uuid \<Rightarrow> flow \<Rightarrow> bool" where
  "retiring w s = (retired_workflow w s \<and> distinct (map n_pk (flow_nodes s)) \<and> wf_table (flow_rows s))"

lemma pruned_retiring: "pruned w P s s' \<Longrightarrow> retiring w s \<Longrightarrow> retiring w s'"
  by (auto simp: pruned_def retiring_def retired_workflow_def find_workflow_def distinct_map_filter wf_table_def dest: released_pks)

lemma in_retire_page:
  "x \<in> set (retire_page w after step s) \<Longrightarrow>
    \<exists>n \<in> set (flow_nodes s). n_workflow n = w \<and> n_outcome n \<noteq> None \<and> after < n_pk n \<and> x = (n_pk n, n_task n, n_outcome n)"
proof -
  assume "x \<in> set (retire_page w after step s)"
  then obtain n where "n \<in> set (flow_nodes s)" "n_workflow n = w" "n_outcome n \<noteq> None" "after < n_pk n" "x = (n_pk n, n_task n, n_outcome n)"
    unfolding retire_page_def by (auto dest!: in_set_takeD)
  then show ?thesis by blast
qed

lemma runs_retire_chunk:
  assumes q: "quiet env" and s0: "retiring w s0" and chunk: "chunk = retire_page w after step s0"
  shows "runs (\<lambda>s. s = s0) (retire_chunk env w step chunk)
    (good (\<lambda>r s. pruned w (\<lambda>n. n_pk n \<in> fst ` set chunk) s0 s \<and> retiring w s))"
    (is "runs _ _ (good (\<lambda>r. ?Q))")
proof -
  let ?ids = "map (\<lambda>(p, k, out). k) chunk"
  let ?present = "filter (\<lambda>k. status_at k s0 \<noteq> None) ?ids"
  let ?st = "List.map_filter (\<lambda>k. map_option (Pair k) (status_at k s0)) ?present"
  let ?going = "going_nodes ?st chunk"
  have same: "m = n" if "m \<in> set (flow_nodes s0)" "n \<in> set (flow_nodes s0)" "n_pk m = n_pk n" for m n
    using s0 that by (auto simp: retiring_def distinct_map inj_on_def)
  have st: "map_of ?st k = status_at k s0" if "(p, k, out) \<in> set chunk" for p k out
    using that unfolding statuses_of by force
  have going: "(p, k) \<in> set ?going \<longleftrightarrow> (\<exists>n \<in> set (flow_nodes s0). (n_pk n, n_task n, n_outcome n) \<in> set chunk \<and> can_go s0 n
      \<and> p = n_pk n \<and> k = n_task n)" for p k
  proof
    assume "(p, k) \<in> set ?going"
    then obtain out where c: "(p, k, out) \<in> set chunk" "case map_of ?st k of None \<Rightarrow> True | Some st \<Rightarrow> st \<in> retirable_statuses"
      by (auto simp: going_nodes_def)
    with in_retire_page [of "(p, k, out)" w after step s0] chunk obtain n where
      "n \<in> set (flow_nodes s0)" "n_outcome n \<noteq> None" "(p, k, out) = (n_pk n, n_task n, n_outcome n)" by auto
    with c st [OF c(1)] show "\<exists>n \<in> set (flow_nodes s0). (n_pk n, n_task n, n_outcome n) \<in> set chunk \<and> can_go s0 n
      \<and> p = n_pk n \<and> k = n_task n" by (intro bexI [of _ n]) (auto simp: can_go_def)
  next
    assume "\<exists>n \<in> set (flow_nodes s0). (n_pk n, n_task n, n_outcome n) \<in> set chunk \<and> can_go s0 n \<and> p = n_pk n \<and> k = n_task n"
    then obtain n where "(p, k, n_outcome n) \<in> set chunk" "can_go s0 n" "k = n_task n" by auto
    with st show "(p, k) \<in> set ?going" unfolding going_nodes_def by (force simp: can_go_def)
  qed
  have none: "?Q s0" if "?going = []"
  proof -
    have "\<not> (n_workflow n = w \<and> can_go s0 n \<and> n_pk n \<in> fst ` set chunk)" if n: "n \<in> set (flow_nodes s0)" for n
    proof
      assume a: "n_workflow n = w \<and> can_go s0 n \<and> n_pk n \<in> fst ` set chunk"
      then obtain x where x: "x \<in> set chunk" "fst x = n_pk n" by force
      with in_retire_page [of x w after step s0] chunk same [OF _ n] have "x = (n_pk n, n_task n, n_outcome n)" by fastforce
      with x(1) a n going [of "n_pk n" "n_task n"] \<open>?going = []\<close> show False by auto
    qed
    with s0 show ?thesis by (simp add: pruned_def only_released_refl filter_id_conv)
  qed
  let ?R = "\<lambda>s. flow_nodes s = filter (\<lambda>n. \<not> (n_pk n \<in> fst ` set ?going \<and> n_outcome n \<noteq> None)) (flow_nodes s0)
    \<and> flow_rows s = flow_rows s0 \<and> flow_workflows s = flow_workflows s0"
  have R: "?Q s" if "?R s" for s
  proof -
    have iff: "n_pk n \<in> fst ` set ?going \<and> n_outcome n \<noteq> None \<longleftrightarrow> n_workflow n = w \<and> can_go s0 n \<and> n_pk n \<in> fst ` set chunk"
      if n: "n \<in> set (flow_nodes s0)" for n
    proof
      assume "n_pk n \<in> fst ` set ?going \<and> n_outcome n \<noteq> None"
      then obtain k where "(n_pk n, k) \<in> set ?going" by force
      then have "\<exists>m \<in> set (flow_nodes s0). (n_pk m, n_task m, n_outcome m) \<in> set chunk \<and> can_go s0 m \<and> n_pk n = n_pk m \<and> k = n_task m"
        by (rule iffD1 [OF going])
      then obtain m where
        m: "m \<in> set (flow_nodes s0)" "(n_pk m, n_task m, n_outcome m) \<in> set chunk" "can_go s0 m" "n_pk n = n_pk m" by (elim bexE conjE)
      from same [OF m(1) n m(4) [symmetric]] have "m = n" .
      from in_retire_page [OF m(2) [unfolded chunk]] obtain p where p0: "p \<in> set (flow_nodes s0)" "n_workflow p = w"
        "(n_pk m, n_task m, n_outcome m) = (n_pk p, n_task p, n_outcome p)" by (elim bexE conjE)
      then have p: "p \<in> set (flow_nodes s0)" "n_workflow p = w" "n_pk m = n_pk p" by simp_all
      from same [OF p(1) m(1) p(3) [symmetric]] p(2) have "n_workflow m = w" by simp
      moreover from m(2) have "n_pk m \<in> fst ` set chunk" by (rule rev_image_eqI) simp
      ultimately show "n_workflow n = w \<and> can_go s0 n \<and> n_pk n \<in> fst ` set chunk" using m(3) \<open>m = n\<close> by simp
    next
      assume a: "n_workflow n = w \<and> can_go s0 n \<and> n_pk n \<in> fst ` set chunk"
      then obtain x where x: "x \<in> set chunk" "fst x = n_pk n" by force
      with in_retire_page [of x w after step s0] chunk same [OF _ n] have "x = (n_pk n, n_task n, n_outcome n)" by fastforce
      with x(1) a n going [of "n_pk n" "n_task n"] have "(n_pk n, n_task n) \<in> set ?going" by blast
      with a show "n_pk n \<in> fst ` set ?going \<and> n_outcome n \<noteq> None" by (force simp: can_go_def)
    qed
    have "filter (\<lambda>n. \<not> (n_pk n \<in> fst ` set ?going \<and> n_outcome n \<noteq> None)) (flow_nodes s0)
        = filter (\<lambda>n. \<not> (n_workflow n = w \<and> can_go s0 n \<and> n_pk n \<in> fst ` set chunk)) (flow_nodes s0)"
      by (rule filter_cong [OF refl]) (simp only: iff)
    with that have "pruned w (\<lambda>n. n_pk n \<in> fst ` set chunk) s0 s"
      by (simp only: pruned_def only_released_refl simp_thms)
    with pruned_retiring s0 show ?thesis by blast
  qed
  have deleted: "runs (\<lambda>s. s = s0) (writing env (delete_nodes (map fst ?going))) (\<lambda>k. ?R)"
    by (rule runs_writing [OF q]) (simp add: delete_nodes_def)
  have edges: "runs ?R (writes env delete_edges cs) (\<lambda>k. ?R)" for cs
    by (rule runs_writes [OF q]) (simp add: delete_edges_def)
  have marks: "runs ?R (if ps = [] then State_Monad.return 0 else mark_satisfied env qs) (\<lambda>k. ?R)" for ps :: "(nat \<times> uuid) list" and qs
    unfolding mark_satisfied_def by (rule runs_if [OF runs_return runs_writes [OF q]]) (simp_all add: mark_edges_def)
  have noted: "filter (\<lambda>x. fst x \<in> set (map n_pk (filter (\<lambda>n. n_pk n \<in> fst ` set ?going \<and> n_outcome n \<noteq> None) (flow_nodes s0)))) ?going = ?going"
  proof (rule filter_True, rule ballI)
    fix x assume x: "x \<in> set ?going"
    with going [of "fst x" "snd x"] obtain n where "n \<in> set (flow_nodes s0)" "can_go s0 n" "fst x = n_pk n" by auto
    with x show "fst x \<in> set (map n_pk (filter (\<lambda>n. n_pk n \<in> fst ` set ?going \<and> n_outcome n \<noteq> None) (flow_nodes s0)))"
      by (force simp: can_go_def)
  qed
  have stamped: "retired_workflow w s0" using s0 by (simp add: retiring_def)
  let ?succeeded = "filter (\<lambda>k. k \<in> snd ` set ?going) (gone_successful ?st chunk)"
  have tail: "runs (\<lambda>s. s = s0) (do {
       into \<leftarrow> read_stm env (\<lambda>s. map e_pk (filter (\<lambda>e. e_workflow e = w \<and> e_down e \<in> snd ` set ?going) (flow_edges s)));
       out \<leftarrow> reads env (\<lambda>c s. map (\<lambda>e. (e_pk e, e_down e)) (filter (\<lambda>e. e_workflow e = w \<and> \<not> e_satisfied e
           \<and> e_up e \<in> set c \<and> e_pk e \<notin> set into) (flow_edges s))) (id_chunks env (remdups ?succeeded));
       lock_in_key_order env False edge_pks (into @ map fst out);
       dn \<leftarrow> writing env (delete_nodes (map fst ?going));
       de \<leftarrow> writes env delete_edges (chunks (min step (id_chunk_size env)) (sort into));
       (if out = [] then State_Monad.return 0 else mark_satisfied env (map fst out));
       State_Monad.return (Inr (dn, de, map snd out))
     }) (good (\<lambda>r. ?Q))"
    by (rule runs_read_eq [OF q], rule runs_bind [OF runs_reads_any [OF q] runs_bind [OF runs_lock_any [OF q]
        runs_bind [OF deleted runs_bind [OF edges runs_bind [OF marks runs_return]]]]]) (simp only: good_Inr, rule R)
  show ?thesis unfolding retire_chunk_def Let_def
  proof (rule runs_read_eq [OF q], rule runs_if, goal_cases)
    case 2
    show ?case
    proof (rule runs_read_eq [OF q], rule runs_read_eq [OF q], rule runs_if [OF runs_return], simp add: none,
        rule runs_bind [OF runs_lock_any [OF q]], rule runs_read_eq [OF q], unfold noted, rule runs_if [OF runs_return])
    qed (simp, rule tail)
  qed (simp add: stamped)
qed

section \<open>The loop\<close>

definition left_to_go :: "uuid \<Rightarrow> nat \<Rightarrow> flow \<Rightarrow> flow_node list" where
  "left_to_go w after s = filter (\<lambda>n. n_workflow n = w \<and> n_outcome n \<noteq> None \<and> after < n_pk n) (flow_nodes s)"

lemma retire_page_eq:
  "map fst (retire_page w after step s) = take step (map n_pk (sort_key n_pk (left_to_go w after s)))"
  by (simp add: retire_page_def left_to_go_def take_map comp_def)

lemma sorted_take_last:
  assumes "sorted ks" "distinct ks" "take m ks \<noteq> []" "x \<in> set ks"
  shows "x \<in> set (take m ks) \<longleftrightarrow> x \<le> last (take m ks)"
proof -
  have s: "sorted (take m ks @ drop m ks)" "distinct (take m ks @ drop m ks)" using assms(1,2) by simp_all
  have l: "last (take m ks) \<in> set (take m ks)" using assms(3) by (rule last_in_set)
  show ?thesis
  proof
    assume x: "x \<in> set (take m ks)"
    from s(1) have "sorted (take m ks)" by (simp only: sorted_append)
    moreover have "\<lbrakk>sorted ys; ys \<noteq> []; x \<in> set ys\<rbrakk> \<Longrightarrow> x \<le> last ys" for ys
      by (induction ys) (auto split: if_splits)
    ultimately show "x \<le> last (take m ks)" using assms(3) x by blast
  next
    assume x: "x \<le> last (take m ks)"
    show "x \<in> set (take m ks)"
    proof (rule ccontr)
      assume n: "x \<notin> set (take m ks)"
      with assms(4) have d: "x \<in> set (drop m ks)" by (metis Un_iff append_take_drop_id set_append)
      with s(1) l have "last (take m ks) \<le> x" by (auto simp only: sorted_append)
      with x have "x = last (take m ks)" by simp
      with l n show False by simp
    qed
  qed
qed

text \<open>The nodes of the page are those up to its last key.\<close>

lemma page_keys:
  assumes s: "distinct (map n_pk (flow_nodes s))" and ne: "retire_page w after step s \<noteq> []"
    and n: "n \<in> set (left_to_go w after s)"
  shows "n_pk n \<in> fst ` set (retire_page w after step s) \<longleftrightarrow> n_pk n \<le> fst (last (retire_page w after step s))"
proof -
  let ?ks = "map n_pk (sort_key n_pk (left_to_go w after s))"
  have "distinct ?ks" using s by (simp add: left_to_go_def distinct_map inj_on_def)
  moreover have "take step ?ks \<noteq> []" using ne retire_page_eq [of w after step s] by (metis map_is_Nil_conv)
  moreover have "n_pk n \<in> set ?ks" using n by simp
  ultimately have "n_pk n \<in> set (take step ?ks) \<longleftrightarrow> n_pk n \<le> last (take step ?ks)" by (intro sorted_take_last) simp_all
  then show ?thesis using retire_page_eq [of w after step s] ne by (metis last_map set_map)
qed

lemma runs_retire_from:
  assumes q: "quiet env" and step: "0 < step"
  shows "runs (\<lambda>s. s = s0 \<and> retiring w s0 \<and> length (left_to_go w after s0) < fuel) (retire_from env w step fuel after)
    (good (\<lambda>r s. r \<noteq> None \<and> pruned w (\<lambda>n. after < n_pk n) s0 s))"
proof (induction fuel arbitrary: after s0)
  case 0
  show ?case by (rule runs_absurd) simp
next
  case (Suc fuel)
  show ?case
  proof (cases "retiring w s0 \<and> length (left_to_go w after s0) < Suc fuel")
    case True
    then have r0: "retiring w s0" and l0: "length (left_to_go w after s0) < Suc fuel" by simp_all
    let ?chunk = "retire_page w after step s0"
    let ?Q = "\<lambda>s. pruned w (\<lambda>n. after < n_pk n) s0 s"
    have none: "?Q s0" if "?chunk = []"
    proof -
      have "sort_key n_pk (left_to_go w after s0) = []" using that step retire_page_eq [of w after step s0] by simp
      then have "left_to_go w after s0 = []" by (metis set_empty set_sort)
      then show ?thesis
        by (auto simp: pruned_def only_released_refl left_to_go_def filter_empty_conv filter_id_conv can_go_def)
    qed
    have more: "runs (\<lambda>s. pruned w (\<lambda>n. n_pk n \<in> fst ` set ?chunk) s0 s \<and> retiring w s) (retire_from env w step fuel (fst (last ?chunk)))
        (good (\<lambda>r s. r \<noteq> None \<and> ?Q s))" if ne: "?chunk \<noteq> []"
    proof (rule runs_each, elim conjE)
      fix s1 assume p: "pruned w (\<lambda>n. n_pk n \<in> fst ` set ?chunk) s0 s1" and r1: "retiring w s1"
      let ?k = "fst (last ?chunk)"
      have d: "distinct (map n_pk (flow_nodes s0))" using r0 by (simp add: retiring_def)
      have k: "after < ?k" using in_retire_page [OF last_in_set [OF ne]] by auto
      have keys: "n_pk n \<in> fst ` set ?chunk \<longleftrightarrow> n_pk n \<le> ?k" if "n \<in> set (left_to_go w after s0)" for n
        by (rule page_keys [OF d ne that])
      have "set (left_to_go w ?k s1) \<subseteq> set (left_to_go w after s0) - {n. n_pk n = ?k}" using p k by (auto simp: left_to_go_def pruned_def)
      moreover obtain n where n: "n \<in> set (left_to_go w after s0)" "n_pk n = ?k"
      proof -
        from in_retire_page [OF last_in_set [OF ne]] obtain n where "n \<in> set (flow_nodes s0)" "n_workflow n = w"
          "n_outcome n \<noteq> None" "after < n_pk n" "last ?chunk = (n_pk n, n_task n, n_outcome n)" by (elim bexE conjE)
        then show thesis by (intro that [of n]) (simp_all add: left_to_go_def)
      qed
      ultimately have "set (left_to_go w ?k s1) \<subset> set (left_to_go w after s0)" by blast
      then have "card (set (left_to_go w ?k s1)) < card (set (left_to_go w after s0))" by (intro psubset_card_mono) simp_all
      moreover have "distinct (left_to_go w ?k s1)" "distinct (left_to_go w after s0)"
        using r1 d by (auto simp: left_to_go_def retiring_def distinct_map intro: distinct_filter)
      ultimately have "length (left_to_go w ?k s1) < length (left_to_go w after s0)"
        by (simp only: distinct_card)
      with l0 have "length (left_to_go w ?k s1) < fuel" by simp
      with r1 have "runs (\<lambda>s. s = s1) (retire_from env w step fuel ?k) (good (\<lambda>r s. r \<noteq> None \<and> pruned w (\<lambda>n. ?k < n_pk n) s1 s))"
        by (intro runs_weaken [OF Suc.IH [of s1 ?k]]) simp_all
      then show "runs (\<lambda>s. s = s1) (retire_from env w step fuel ?k) (good (\<lambda>r s. r \<noteq> None \<and> ?Q s))"
      proof (rule runs_weaken)
        fix r s assume g: "good (\<lambda>r s. r \<noteq> None \<and> pruned w (\<lambda>n. ?k < n_pk n) s1 s) r s"
        have "?Q s" if "pruned w (\<lambda>n. ?k < n_pk n) s1 s"
        proof -
          note t = pruned_trans [OF p that]
          have "n_workflow n = w \<and> can_go s0 n \<and> (n_pk n \<in> fst ` set ?chunk \<or> ?k < n_pk n) \<longleftrightarrow> n_workflow n = w \<and> can_go s0 n \<and> after < n_pk n"
            if n: "n \<in> set (flow_nodes s0)" for n
          proof (cases "n_workflow n = w \<and> can_go s0 n \<and> after < n_pk n")
            case True
            with n have "n \<in> set (left_to_go w after s0)" by (auto simp: left_to_go_def can_go_def)
            with keys [of n] True show ?thesis by auto
          next
            case False
            have "after < n_pk n" if "n_pk n \<in> fst ` set ?chunk"
              using that in_retire_page [of _ w after step s0] by fastforce
            with False k show ?thesis by auto
          qed
          then show ?thesis using t by (auto simp: pruned_def intro!: filter_cong)
        qed
        with g show "good (\<lambda>r s. r \<noteq> None \<and> ?Q s) r s" by (elim good_mono) auto
      qed
    qed
    have freeing: "runs (\<lambda>s. pruned w P s0 s \<and> retiring w s) (if ds = [] then State_Monad.return (Inr 0) else release_downstream env ds)
        (good (\<lambda>k s. pruned w P s0 s \<and> retiring w s))" for P ds
    proof (rule runs_if [OF runs_return runs_each])
      fix s1 assume s1: "pruned w P s0 s1 \<and> retiring w s1"
      show "runs (\<lambda>s. s = s1) (release_downstream env ds) (good (\<lambda>k s. pruned w P s0 s \<and> retiring w s))"
      proof (rule runs_weaken [OF runs_release [OF q]])
        show "wf_table (flow_rows s1)" using s1 by (simp add: retiring_def)
        fix r s assume g: "good (\<lambda>k s. \<exists>t. s = s1\<lparr>flow_rows := t\<rparr> \<and> rows_changed (ripe s1 ds) (\<lambda>k. released (fe_now env k)) (flow_rows s1) t) r s"
        have "pruned w P s0 s \<and> retiring w s" if "s = s1\<lparr>flow_rows := t\<rparr>" "rows_changed (ripe s1 ds) (\<lambda>k. released (fe_now env k)) (flow_rows s1) t" for t
          using s1 changed_released [OF that(2)] released_pks [OF changed_released [OF that(2)]] only_released_trans
          by (auto simp: that(1) pruned_def retiring_def retired_workflow_def find_workflow_def wf_table_def)
        with g show "good (\<lambda>k s. pruned w P s0 s \<and> retiring w s) r s" by (elim good_mono) blast
      qed simp
    qed simp
    let ?P = "\<lambda>n. n_pk n \<in> fst ` set ?chunk"
    have rest: "runs (\<lambda>s. pruned w ?P s0 s \<and> retiring w s)
        (raising (if ds = [] then State_Monad.return (Inr 0) else release_downstream env ds) (\<lambda>_.
          raising (retire_from env w step fuel (fst (last ?chunk))) (\<lambda>rest.
            State_Monad.return (Inr (map_option (\<lambda>(n, e). (dn + n, de + e)) rest)))))
        (good (\<lambda>r s. r \<noteq> None \<and> ?Q s))" if "?chunk \<noteq> []" for ds and dn de :: nat
      by (rule runs_raising [OF freeing runs_raising [OF more [OF that] runs_return]]) simp
    have one: "runs (\<lambda>s. s = s0) (reissued_stm env True (transact env (retire_chunk env w step ?chunk)))
        (good (\<lambda>r s. pruned w ?P s0 s \<and> retiring w s))"
      by (rule runs_reissued [OF runs_transact [OF q runs_retire_chunk [OF q r0 refl]]])
    have all: "runs (\<lambda>s. s = s0) (raising (reissued_stm env True (transact env (retire_chunk env w step ?chunk))) (\<lambda>(dn, de, marked).
        raising (if marked = [] then State_Monad.return (Inr 0) else release_downstream env marked) (\<lambda>_.
          raising (retire_from env w step fuel (fst (last ?chunk))) (\<lambda>rest.
            State_Monad.return (Inr (map_option (\<lambda>(n, e). (dn + n, de + e)) rest))))))
        (good (\<lambda>r s. r \<noteq> None \<and> ?Q s))" if "?chunk \<noteq> []"
    proof (rule runs_raising [OF one])
      fix a :: "nat \<times> nat \<times> uuid list"
      obtain dn de ds where a: "a = (dn, de, ds)" by (rule prod_cases3)
      show "runs (\<lambda>s. pruned w ?P s0 s \<and> retiring w s) (case a of (dn, de, marked) \<Rightarrow>
          raising (if marked = [] then State_Monad.return (Inr 0) else release_downstream env marked) (\<lambda>_.
            raising (retire_from env w step fuel (fst (last ?chunk))) (\<lambda>rest.
              State_Monad.return (Inr (map_option (\<lambda>(n, e). (dn + n, de + e)) rest))))) (good (\<lambda>r s. r \<noteq> None \<and> ?Q s))"
        unfolding a prod.case by (rule rest [OF that])
    qed
    have "runs (\<lambda>s. s = s0) (retire_from env w step (Suc fuel) after) (good (\<lambda>r s. r \<noteq> None \<and> ?Q s))"
      unfolding retire_from.simps
      by (rule runs_read_eq [OF q], rule runs_if [OF runs_return all]) (use none in auto)
    then show ?thesis by (rule runs_weaken) auto
  next
    case False
    show ?thesis by (rule runs_absurd) (use False in auto)
  qed
qed

lemma left_to_go_length: "length (left_to_go w after s) \<le> length (nodes_of w s)"
proof -
  have "left_to_go w after s = filter (\<lambda>n. n_outcome n \<noteq> None \<and> after < n_pk n) (nodes_of w s)"
    by (simp add: left_to_go_def nodes_of_def conj_commute conj_left_commute)
  then show ?thesis by simp
qed

section \<open>A retired workflow\<close>

text \<open>The complete workflow of two nodes of \<open>FlowRuns\<close>, stamped; nothing else commits.\<close>

lemma calm_no_revival: "no_revival foreign calm_env"
  unfolding no_revival_def kept_def by (intro allI impI exI conjI) (rule rtranclp.rtrancl_refl, simp_all add: calm_env_def)

definition demo_retired :: flow where
  "demo_retired = demo_finished\<lparr>flow_workflows := [(demo_workflow COMPLETE 2)\<lparr>w_retired_at := Some 50\<rparr>]\<rparr>"

lemma demo_retired_ok:
  "retired_workflow 1 demo_retired" "wf_table (flow_rows demo_retired)" "distinct (map n_pk (flow_nodes demo_retired))"
  "\<forall>m \<in> set (flow_nodes demo_retired). 0 < n_pk m" "length (nodes_of 1 demo_retired) = 2"
  by (simp_all add: demo_retired_def demo_finished_def demo_flow_simps retired_workflow_def find_workflow_def wf_table_def
      node_recorded_def nodes_of_def)

lemma demo_retired_nodes:
  "filter (\<lambda>m. \<not> (n_workflow m = 1 \<and> n_outcome m \<noteq> None
     \<and> (case status_at (n_task m) demo_retired of None \<Rightarrow> True | Some st \<Rightarrow> st \<in> {SUCCESSFUL, DISCARDED}))) (flow_nodes demo_retired) = []"
  by (simp add: demo_retired_def demo_finished_def demo_flow_simps node_recorded_def status_at_def fetch_def)

end
