(* ===== verification/Supervisor.thy ===== *)
theory Supervisor
  imports Prelude "HOL-Library.AList"
begin

text \<open>
  The process supervisor behind \<open>ox_worker --processes N\<close> (\<open>src/django_ox/supervisor.py\<close>): its state, each
  method of \<open>Supervisor\<close>, and \<open>run\<close>.

  Times are whole milliseconds.  Every read of the world (a poll of a child, the clock, the lock, an unlocked read of
  the stop flag, the signal queue) happens at its own instant, counted by \<open>sv_at\<close>; the environment says what is read
  there, and whether another thread's \<open>request_stop\<close> landed just before it.  A dict is an association list in
  insertion order.  \<open>sv_log\<close> is not state of the program: it lists what the supervisor did, newest first.
\<close>

section \<open>Configuration, environment, state\<close>

record sv_config =
  sc_processes :: nat
  sc_restart_delay :: int
  sc_restart_cap :: nat
  sc_restart_window :: int
  sc_backoff_max :: int
  sc_backoff_reset :: int
  sc_kill_grace :: int
  sc_heartbeat :: bool

definition sv_defaults :: "nat \<Rightarrow> bool \<Rightarrow> sv_config" where
  "sv_defaults n hb = \<lparr>sc_processes = n, sc_restart_delay = 1000, sc_restart_cap = 5, sc_restart_window = 60000,
     sc_backoff_max = 30000, sc_backoff_reset = 60000, sc_kill_grace = 5000, sc_heartbeat = hb\<rparr>"

record sv_env =
  se_exit :: "nat \<Rightarrow> nat \<Rightarrow> int option"   \<comment> \<open>instant, process: what poll() returns\<close>
  se_clock :: "nat \<Rightarrow> int"
  se_stop :: "nat \<Rightarrow> bool"               \<comment> \<open>another thread requested a stop\<close>
  se_signals :: "nat \<Rightarrow> nat"             \<comment> \<open>signals the queue hands out before it is empty\<close>
  se_spawns :: "nat \<Rightarrow> bool"             \<comment> \<open>Popen did not raise\<close>

definition recycle_exit_code :: int where
  "recycle_exit_code = 75"

definition sigterm :: int where
  "sigterm = 15"

datatype sv_signal = Terminate | ForceKill

datatype sv_event =
    Started nat nat          \<comment> \<open>slot, process\<close>
  | Sent nat sv_signal       \<comment> \<open>process, signal\<close>
  | Exited nat nat int       \<comment> \<open>slot, process, exit code\<close>
  | Died nat int             \<comment> \<open>slot, time: a death that counts\<close>
  | Removed nat              \<comment> \<open>slot file\<close>
  | Beaten
  | Stopped

record sv_state =
  sv_children :: "(nat \<times> nat) list"
  sv_started_at :: "(nat \<times> int) list"
  sv_exit_codes :: "(nat \<times> int) list"
  sv_restart_due :: "(nat \<times> int) list"
  sv_deaths :: "(nat \<times> int list) list"
  sv_backoff :: "(nat \<times> int) list"
  sv_stopping :: bool
  sv_cap_tripped :: bool
  sv_signals_seen :: nat
  sv_kill_at :: "int option"
  sv_at :: nat
  sv_spawned :: nat
  sv_log :: "sv_event list"

definition new_supervisor :: sv_state where
  "new_supervisor = \<lparr>sv_children = [], sv_started_at = [], sv_exit_codes = [], sv_restart_due = [], sv_deaths = [],
     sv_backoff = [], sv_stopping = False, sv_cap_tripped = False, sv_signals_seen = 0, sv_kill_at = None, sv_at = 0,
     sv_spawned = 0, sv_log = []\<rparr>"

section \<open>Reading the world\<close>

definition next_instant :: "sv_state \<Rightarrow> sv_state" where
  "next_instant s = s\<lparr>sv_at := Suc (sv_at s)\<rparr>"

definition noted :: "sv_event \<Rightarrow> sv_state \<Rightarrow> sv_state" where
  "noted e s = s\<lparr>sv_log := e # sv_log s\<rparr>"

definition request_stop :: "sv_state \<Rightarrow> sv_state" where
  "request_stop s = noted Stopped (s\<lparr>sv_stopping := True, sv_restart_due := []\<rparr>)"

text \<open>Taking the lock, or reading the stop flag without it: another thread's stop may have landed.\<close>

definition glance :: "sv_env \<Rightarrow> sv_state \<Rightarrow> sv_state" where
  "glance env s = (if se_stop env (sv_at s) then request_stop (next_instant s) else next_instant s)"

definition poll_child :: "sv_env \<Rightarrow> nat \<Rightarrow> sv_state \<Rightarrow> int option \<times> sv_state" where
  "poll_child env p s = (se_exit env (sv_at s) p, next_instant s)"

definition read_clock :: "sv_env \<Rightarrow> sv_state \<Rightarrow> int \<times> sv_state" where
  "read_clock env s = (se_clock env (sv_at s), next_instant s)"

definition beat :: "sv_config \<Rightarrow> sv_state \<Rightarrow> sv_state" where
  "beat cfg s = (if sc_heartbeat cfg then noted Beaten s else s)"

definition invalidate_slot :: "sv_config \<Rightarrow> nat \<Rightarrow> sv_state \<Rightarrow> sv_state" where
  "invalidate_slot cfg i s = (if sc_heartbeat cfg then noted (Removed i) s else s)"

section \<open>Children\<close>

text \<open>The child in its slot.\<close>

definition begun :: "nat \<Rightarrow> int \<Rightarrow> sv_state \<Rightarrow> sv_state" where
  "begun i now s = noted (Started i (sv_spawned s)) (s\<lparr>sv_children := AList.update i (sv_spawned s) (sv_children s),
     sv_started_at := AList.update i now (sv_started_at s), sv_exit_codes := AList.delete i (sv_exit_codes s),
     sv_restart_due := AList.delete i (sv_restart_due s), sv_spawned := Suc (sv_spawned s)\<rparr>)"

text \<open>
  \<open>_start\<close>, False when \<open>Popen\<close> raised.  \<open>locked\<close>: the caller holds the lock, so no other thread's stop lands
  before it is released.
\<close>

definition start_slot :: "sv_config \<Rightarrow> sv_env \<Rightarrow> bool \<Rightarrow> nat \<Rightarrow> sv_state \<Rightarrow> bool \<times> sv_state" where
  "start_slot cfg env locked i s =
     (let s1 = (if locked then s else glance env s) in
      if sv_stopping s1 then (True, s1)
      else
        let s2 = next_instant (invalidate_slot cfg i s1) in
        if \<not> se_spawns env (sv_at s1) then (False, s2)
        else
          let (now, s3) = read_clock env s2;
              p = sv_spawned s3;
              s4 = begun i now s3;
              s5 = (if locked then s4 else glance env s4) in
          (True, if sv_stopping s5 then noted (Sent p Terminate) s5 else s5))"

fun signal_each :: "sv_env \<Rightarrow> sv_signal \<Rightarrow> (nat \<times> nat) list \<Rightarrow> sv_state \<Rightarrow> sv_state" where
  "signal_each env sg [] s = s"
| "signal_each env sg ((i, p) # cs) s =
     (let (code, s1) = poll_child env p s in
      signal_each env sg cs (if code = None then noted (Sent p sg) s1 else s1))"

definition signal_children :: "sv_env \<Rightarrow> sv_signal \<Rightarrow> sv_state \<Rightarrow> sv_state" where
  "signal_children env sg s = signal_each env sg (sv_children s) s"

definition record_exit :: "sv_env \<Rightarrow> nat \<Rightarrow> int \<Rightarrow> sv_state \<Rightarrow> sv_state" where
  "record_exit env i code s =
     (let s1 = glance env s;
          seen = (if sv_stopping s1 \<and> code = - sigterm then 0 else code) in
      s1\<lparr>sv_exit_codes := AList.update i seen (sv_exit_codes s1)\<rparr>)"

definition next_delay :: "sv_config \<Rightarrow> nat \<Rightarrow> int \<Rightarrow> sv_state \<Rightarrow> int \<times> sv_state" where
  "next_delay cfg i now s =
     (let lived = now - the_default now (map_of (sv_started_at s) i);
          kept = (if sc_backoff_reset cfg \<le> lived then AList.delete i (sv_backoff s) else sv_backoff s);
          delay = the_default (sc_restart_delay cfg) (map_of kept i) in
      (delay, s\<lparr>sv_backoff := AList.update i (min (delay * 2) (sc_backoff_max cfg)) kept\<rparr>))"

text \<open>Under the lock, unless a stop landed.\<close>

definition set_due :: "sv_env \<Rightarrow> nat \<Rightarrow> int \<Rightarrow> sv_state \<Rightarrow> sv_state" where
  "set_due env i due s =
     (let s1 = glance env s in
      if sv_stopping s1 then s1 else s1\<lparr>sv_restart_due := AList.update i due (sv_restart_due s1)\<rparr>)"

text \<open>The deaths of a slot inside the window that ends \<open>now\<close>.\<close>

definition deaths_in_window :: "sv_config \<Rightarrow> int \<Rightarrow> int list \<Rightarrow> int list" where
  "deaths_in_window cfg now ts = dropWhile (\<lambda>t. sc_restart_window cfg < now - t) (ts @ [now])"

definition count_death :: "sv_config \<Rightarrow> nat \<Rightarrow> int \<Rightarrow> sv_state \<Rightarrow> sv_state" where
  "count_death cfg i now s = noted (Died i now) (s\<lparr>sv_deaths :=
     AList.update i (deaths_in_window cfg now (the_default [] (map_of (sv_deaths s) i))) (sv_deaths s)\<rparr>)"

text \<open>A death of a supervisor that is not stopping.\<close>

definition handle_death :: "sv_config \<Rightarrow> sv_env \<Rightarrow> nat \<Rightarrow> int \<Rightarrow> sv_state \<Rightarrow> sv_state" where
  "handle_death cfg env i code s =
     (let (now, s1) = read_clock env s in
      if code = recycle_exit_code then set_due env i (now + sc_restart_delay cfg) s1
      else
        let s2 = count_death cfg i now s1 in
        if sc_restart_cap cfg < length (the_default [] (map_of (sv_deaths s2) i))
        then signal_children env Terminate (request_stop (s2\<lparr>sv_cap_tripped := True\<rparr>))
        else let (delay, s3) = next_delay cfg i now s2 in set_due env i (now + delay) s3)"

definition gone :: "nat \<Rightarrow> nat \<Rightarrow> int \<Rightarrow> sv_state \<Rightarrow> sv_state" where
  "gone i p code s = noted (Exited i p code) (s\<lparr>sv_children := AList.delete i (sv_children s)\<rparr>)"

definition reap_one :: "sv_config \<Rightarrow> sv_env \<Rightarrow> nat \<times> nat \<Rightarrow> sv_state \<Rightarrow> sv_state" where
  "reap_one cfg env c s =
     (case c of (i, p) \<Rightarrow>
       case poll_child env p s of
         (None, s1) \<Rightarrow> s1
       | (Some code, s1) \<Rightarrow>
           let s2 = glance env (record_exit env i code (invalidate_slot cfg i (gone i p code s1))) in
           if sv_stopping s2 then s2 else handle_death cfg env i code s2)"

definition reap_exited :: "sv_config \<Rightarrow> sv_env \<Rightarrow> sv_state \<Rightarrow> sv_state" where
  "reap_exited cfg env s = fold (reap_one cfg env) (sv_children s) s"

fun start_each :: "sv_config \<Rightarrow> sv_env \<Rightarrow> int \<Rightarrow> (nat \<times> int) list \<Rightarrow> sv_state \<Rightarrow> bool \<times> sv_state" where
  "start_each cfg env now [] s = (True, s)"
| "start_each cfg env now ((i, due) # ds) s =
     (if due \<le> now
      then (case start_slot cfg env True i s of (ok, s1) \<Rightarrow> if ok then start_each cfg env now ds s1 else (False, s1))
      else start_each cfg env now ds s)"

definition start_due :: "sv_config \<Rightarrow> sv_env \<Rightarrow> sv_state \<Rightarrow> bool \<times> sv_state" where
  "start_due cfg env s =
     (let s1 = glance env s in
      if sv_stopping s1 then (True, s1)
      else let (now, s2) = read_clock env s1 in start_each cfg env now (sv_restart_due s2) s2)"

definition kill_overdue :: "sv_env \<Rightarrow> sv_state \<Rightarrow> sv_state" where
  "kill_overdue env s =
     (case sv_kill_at s of
        None \<Rightarrow> s
      | Some t \<Rightarrow>
          let (now, s1) = read_clock env s in
          if now < t then s1
          else
            let alive = fold (\<lambda>c. next_instant) (sv_children s1) (s1\<lparr>sv_kill_at := None\<rparr>) in
            signal_children env ForceKill alive)"

section \<open>Signals\<close>

definition seen_signal :: "sv_config \<Rightarrow> sv_env \<Rightarrow> sv_state \<Rightarrow> sv_state" where
  "seen_signal cfg env s =
     (let s1 = s\<lparr>sv_signals_seen := Suc (sv_signals_seen s)\<rparr> in
      if sv_signals_seen s1 = 1 then s1
      else
        let (now, s2) = read_clock env s1 in
        s2\<lparr>sv_kill_at := Some (if sv_kill_at s1 = None then now + sc_kill_grace cfg else now)\<rparr>)"

definition handle_one :: "sv_config \<Rightarrow> sv_env \<Rightarrow> sv_state \<Rightarrow> sv_state" where
  "handle_one cfg env s = signal_children env Terminate (request_stop (seen_signal cfg env s))"

definition process_signals :: "sv_config \<Rightarrow> sv_env \<Rightarrow> sv_state \<Rightarrow> sv_state" where
  "process_signals cfg env s = (handle_one cfg env ^^ se_signals env (sv_at s)) (next_instant s)"

section \<open>The run\<close>

fun start_slots :: "sv_config \<Rightarrow> sv_env \<Rightarrow> nat list \<Rightarrow> sv_state \<Rightarrow> bool \<times> sv_state" where
  "start_slots cfg env [] s = (True, s)"
| "start_slots cfg env (i # is) s =
     (let s1 = glance env (process_signals cfg env s) in
      if sv_stopping s1 then (True, s1)
      else case start_slot cfg env False i s1 of
        (ok, s2) \<Rightarrow> if ok then start_slots cfg env is s2 else (False, s2))"

text \<open>The loop under \<open>try\<close>: None when \<open>fuel\<close> passes were not enough, False when a start raised.\<close>

fun main_loop :: "sv_config \<Rightarrow> sv_env \<Rightarrow> nat \<Rightarrow> sv_state \<Rightarrow> (bool \<times> sv_state) option" where
  "main_loop cfg env 0 s = None"
| "main_loop cfg env (Suc fuel) s =
     (let s1 = glance env s in
      if sv_children s1 = [] \<and> (sv_restart_due s1 = [] \<or> sv_stopping s1) then Some (True, s1)
      else case start_due cfg env (reap_exited cfg env (process_signals cfg env (beat cfg s1))) of
        (ok, s2) \<Rightarrow>
          if ok then main_loop cfg env fuel (next_instant (kill_overdue env s2)) else Some (False, s2))"

text \<open>The loop under \<open>finally\<close>.\<close>

fun final_loop :: "sv_config \<Rightarrow> sv_env \<Rightarrow> nat \<Rightarrow> sv_state \<Rightarrow> sv_state option" where
  "final_loop cfg env 0 s = None"
| "final_loop cfg env (Suc fuel) s =
     (let s1 = reap_exited cfg env (kill_overdue env (process_signals cfg env (beat cfg s))) in
      if sv_children s1 = [] then Some s1 else final_loop cfg env fuel (next_instant s1))"

definition slot_failures :: "sv_state \<Rightarrow> (nat \<times> int) list" where
  "slot_failures s = filter (\<lambda>x. snd x \<notin> {0, recycle_exit_code}) (sort_key fst (sv_exit_codes s))"

definition supervisor_exit_code :: "sv_state \<Rightarrow> int" where
  "supervisor_exit_code s =
     (let code = (case slot_failures s of [] \<Rightarrow> 0 | x # xs \<Rightarrow> snd x);
          shell = (if code < 0 then 128 - code else code) in
      if sv_cap_tripped s then 1 else shell)"

text \<open>\<open>run\<close>: None when the fuel ran out, \<open>Inl\<close> when a start raised.\<close>

definition run_supervisor :: "sv_config \<Rightarrow> sv_env \<Rightarrow> nat \<Rightarrow> sv_state \<Rightarrow> ((unit + int) \<times> sv_state) option" where
  "run_supervisor cfg env fuel s =
     (case start_slots cfg env [0..<sc_processes cfg] s of
        (False, s1) \<Rightarrow> Some (Inl (), s1)
      | (True, s1) \<Rightarrow>
          (case main_loop cfg env fuel s1 of
             None \<Rightarrow> None
           | Some (ok, s2) \<Rightarrow>
               (case final_loop cfg env fuel (signal_children env Terminate (request_stop (glance env s2))) of
                  None \<Rightarrow> None
                | Some s3 \<Rightarrow> Some (if ok then Inr (supervisor_exit_code s3) else Inl (), s3))))"

end
