(* ===== verification/SupervisorSteps.thy ===== *)
theory SupervisorSteps
  imports Supervisor
begin

text \<open>
  The supervisor as a step relation: every method is a sequence of the steps below, whose guards are what the code
  makes sure of before each of them.  An invariant of the steps is then an invariant of the whole run.
\<close>

inductive sup_step :: "sv_config \<Rightarrow> sv_env \<Rightarrow> sv_state \<Rightarrow> sv_state \<Rightarrow> bool" for cfg env where
  instant: "sup_step cfg env s (next_instant s)"
| stop: "sup_step cfg env s (request_stop s)"
| beaten: "sup_step cfg env s (noted Beaten s)"
| removed: "sup_step cfg env s (noted (Removed i) s)"
| sent: "(sg = ForceKill \<Longrightarrow> 2 \<le> sv_signals_seen s) \<Longrightarrow> sup_step cfg env s (noted (Sent p sg) s)"
| began: "\<lbrakk>\<not> sv_stopping s; i < sc_processes cfg; i \<notin> fst ` set (sv_children s)\<rbrakk> \<Longrightarrow> sup_step cfg env s (begun i now s)"
| exited: "(i, p) \<in> set (sv_children s) \<Longrightarrow> sup_step cfg env s (gone i p code s)"
| recorded: "i < sc_processes cfg \<Longrightarrow> sup_step cfg env s (s\<lparr>sv_exit_codes := AList.update i code (sv_exit_codes s)\<rparr>)"
| due: "\<lbrakk>\<not> sv_stopping s; i < sc_processes cfg; i \<notin> fst ` set (sv_children s)\<rbrakk>
    \<Longrightarrow> sup_step cfg env s (s\<lparr>sv_restart_due := AList.update i t (sv_restart_due s)\<rparr>)"
| delayed: "sup_step cfg env s (snd (next_delay cfg i now s))"
| died: "length (deaths_in_window cfg (se_clock env (sv_at s)) (the_default [] (map_of (sv_deaths s) i))) \<le> sc_restart_cap cfg
    \<Longrightarrow> sup_step cfg env s (count_death cfg i (se_clock env (sv_at s)) (next_instant s))"
| tripped: "sc_restart_cap cfg < length (deaths_in_window cfg (se_clock env (sv_at s)) (the_default [] (map_of (sv_deaths s) i)))
    \<Longrightarrow> sup_step cfg env s (request_stop ((count_death cfg i (se_clock env (sv_at s)) (next_instant s))\<lparr>sv_cap_tripped := True\<rparr>))"
| signalled: "sup_step cfg env s (s\<lparr>sv_signals_seen := Suc (sv_signals_seen s)\<rparr>)"
| armed: "2 \<le> sv_signals_seen s \<Longrightarrow> sup_step cfg env s (s\<lparr>sv_kill_at := Some t\<rparr>)"
| disarmed: "sup_step cfg env s (s\<lparr>sv_kill_at := None\<rparr>)"

text \<open>The slots: at most one child each, and a restart due only where there is none.\<close>

definition slots_ok :: "sv_config \<Rightarrow> sv_state \<Rightarrow> bool" where
  "slots_ok cfg s = (distinct (map fst (sv_children s)) \<and> distinct (map fst (sv_restart_due s))
     \<and> fst ` set (sv_children s) \<subseteq> {..<sc_processes cfg} \<and> fst ` set (sv_restart_due s) \<subseteq> {..<sc_processes cfg}
     \<and> fst ` set (sv_children s) \<inter> fst ` set (sv_restart_due s) = {}
     \<and> (sv_stopping s \<longrightarrow> sv_restart_due s = []) \<and> (sv_kill_at s \<noteq> None \<longrightarrow> 2 \<le> sv_signals_seen s))"

lemma slots_new: "slots_ok cfg new_supervisor"
  by (simp add: slots_ok_def new_supervisor_def)

lemma update_keys: "fst ` set (AList.update k v xs) = insert k (fst ` set xs)"
  by (induction xs) auto

lemma deleted_keys: "fst ` set (AList.delete k xs) = fst ` set xs - {k}"
proof -
  have "set (map fst (AList.delete k xs)) = set (removeAll k (map fst xs))" by (simp only: AList.delete_keys)
  then show ?thesis by simp
qed

lemma slots_step: "sup_step cfg env s s' \<Longrightarrow> slots_ok cfg s \<Longrightarrow> slots_ok cfg s'"
proof (induction rule: sup_step.induct)
  case (began s i now)
  then show ?case
    by (auto simp: slots_ok_def begun_def noted_def update_keys deleted_keys distinct_update distinct_delete)
next
  case (exited i p s code)
  then show ?case by (auto simp: slots_ok_def gone_def noted_def deleted_keys distinct_delete)
next
  case (due s i t)
  then show ?case by (auto simp: slots_ok_def update_keys distinct_update)
next
  case (delayed s i now)
  then show ?case by (simp add: slots_ok_def next_delay_def Let_def)
qed (auto simp: slots_ok_def noted_def request_stop_def next_instant_def count_death_def)

abbreviation sup_steps :: "sv_config \<Rightarrow> sv_env \<Rightarrow> sv_state \<Rightarrow> sv_state \<Rightarrow> bool" where
  "sup_steps cfg env \<equiv> (sup_step cfg env)\<^sup>*\<^sup>*"

lemma slots_steps: "sup_steps cfg env s s' \<Longrightarrow> slots_ok cfg s \<Longrightarrow> slots_ok cfg s'"
  by (induction rule: rtranclp_induct) (auto intro: slots_step)

text \<open>A method that changes no slot's child.\<close>

definition sup_goes :: "sv_config \<Rightarrow> sv_env \<Rightarrow> (sv_state \<Rightarrow> sv_state) \<Rightarrow> bool" where
  "sup_goes cfg env f = (\<forall>s. slots_ok cfg s \<longrightarrow> sup_steps cfg env s (f s) \<and> sv_children (f s) = sv_children s)"

lemma via_comp: "sup_goes cfg env f \<Longrightarrow> sup_goes cfg env g \<Longrightarrow> sup_goes cfg env (\<lambda>s. g (f s))"
  unfolding sup_goes_def by (metis rtranclp_trans slots_steps)

lemma via_id: "sup_goes cfg env (\<lambda>s. s)"
  by (simp add: sup_goes_def)

lemma via_if: "sup_goes cfg env f \<Longrightarrow> sup_goes cfg env g \<Longrightarrow> sup_goes cfg env (\<lambda>s. if b s then f s else g s)"
  by (simp add: sup_goes_def)

lemma via_iter: "sup_goes cfg env f \<Longrightarrow> sup_goes cfg env (\<lambda>s. (f ^^ n) s)"
proof (induction n)
  case (Suc n)
  from via_comp [OF Suc.IH [OF Suc.prems] Suc.prems] show ?case by simp
qed (simp add: sup_goes_def)

lemma via_step: "(\<And>s. sup_step cfg env s (f s)) \<Longrightarrow> (\<And>s. sv_children (f s) = sv_children s) \<Longrightarrow> sup_goes cfg env f"
  unfolding sup_goes_def by blast

lemma via_instant: "sup_goes cfg env next_instant"
  by (rule via_step, rule sup_step.instant) (simp add: next_instant_def)

lemma via_stop: "sup_goes cfg env request_stop"
  by (rule via_step, rule sup_step.stop) (simp add: request_stop_def noted_def)

lemma via_glance: "sup_goes cfg env (glance env)"
  unfolding glance_def by (intro via_if via_comp [OF via_instant via_stop] via_instant)

lemma via_beat: "sup_goes cfg env (beat cfg)"
  unfolding beat_def by (intro via_if via_id) (rule via_step, rule sup_step.beaten, simp add: noted_def)

lemma via_invalidate: "sup_goes cfg env (invalidate_slot cfg i)"
  unfolding invalidate_slot_def by (intro via_if via_id) (rule via_step, rule sup_step.removed, simp add: noted_def)

lemma via_signal_each:
  assumes "slots_ok cfg s" "sg = ForceKill \<Longrightarrow> 2 \<le> sv_signals_seen s"
  shows "sup_steps cfg env s (signal_each env sg cs s) \<and> sv_children (signal_each env sg cs s) = sv_children s"
  using assms
proof (induction env sg cs s rule: signal_each.induct)
  case (2 env sg i p cs s)
  let ?s1 = "next_instant s"
  let ?s2 = "if se_exit env (sv_at s) p = None then noted (Sent p sg) ?s1 else ?s1"
  have k: "sg = ForceKill \<Longrightarrow> 2 \<le> sv_signals_seen ?s1" using 2(3) by (simp add: next_instant_def)
  have a: "sup_steps cfg env s ?s2"
    using sup_step.sent [of sg ?s1 cfg env p, OF k] sup_step.instant [of cfg env s] by auto
  moreover have "sv_signals_seen ?s2 = sv_signals_seen s" "sv_children ?s2 = sv_children s"
    by (simp_all add: noted_def next_instant_def)
  ultimately show ?case using 2(1) [of "(se_exit env (sv_at s) p, ?s1)", OF _ refl] slots_steps [OF a 2(2)] 2(3)
    by (auto simp: poll_child_def intro: rtranclp_trans)
qed simp

lemma via_terminate: "sup_goes cfg env (signal_children env Terminate)"
  unfolding sup_goes_def signal_children_def by (intro allI impI via_signal_each) simp_all

lemma via_record: "i < sc_processes cfg \<Longrightarrow> sup_goes cfg env (record_exit env i code)"
  unfolding record_exit_def Let_def
  by (rule via_comp [OF via_glance]) (auto simp: sup_goes_def intro: sup_step.recorded)

lemma glance_same [simp]:
  "sv_children (glance env s) = sv_children s" "sv_log (next_instant s) = sv_log s" "sv_children (next_instant s) = sv_children s"
  by (simp_all add: glance_def request_stop_def noted_def next_instant_def)

lemma via_set_due:
  assumes "slots_ok cfg s" "i < sc_processes cfg" "i \<notin> fst ` set (sv_children s)"
  shows "sup_steps cfg env s (set_due env i t s)" "sv_children (set_due env i t s) = sv_children s"
proof -
  have "sup_steps cfg env s (glance env s)" using via_glance assms(1) by (simp add: sup_goes_def)
  moreover have "\<not> sv_stopping (glance env s) \<Longrightarrow> sup_step cfg env (glance env s)
      ((glance env s)\<lparr>sv_restart_due := AList.update i t (sv_restart_due (glance env s))\<rparr>)"
    using assms by (intro sup_step.due) simp_all
  ultimately show "sup_steps cfg env s (set_due env i t s)" by (auto simp: set_due_def Let_def)
  show "sv_children (set_due env i t s) = sv_children s" by (simp add: set_due_def Let_def)
qed

lemma via_handle_death:
  assumes s: "slots_ok cfg s" "i < sc_processes cfg" "i \<notin> fst ` set (sv_children s)"
  shows "sup_steps cfg env s (handle_death cfg env i code s)" "sv_children (handle_death cfg env i code s) = sv_children s"
proof -
  let ?now = "se_clock env (sv_at s)" and ?s1 = "next_instant s"
  let ?s2 = "count_death cfg i ?now ?s1"
  let ?ds = "deaths_in_window cfg ?now (the_default [] (map_of (sv_deaths s) i))"
  have s1: "sup_steps cfg env s ?s1" by (auto intro: sup_step.instant)
  note ok1 = slots_steps [OF s1 s(1)]
  have deaths: "the_default [] (map_of (sv_deaths ?s2) i) = ?ds"
    by (simp add: count_death_def noted_def next_instant_def update_conv' the_default_def)
  have same: "sv_children ?s2 = sv_children s" "sv_children (snd (next_delay cfg i ?now ?s2)) = sv_children s"
    by (simp_all add: count_death_def noted_def next_instant_def next_delay_def Let_def)
  let ?t = "request_stop (?s2\<lparr>sv_cap_tripped := True\<rparr>)"
  have trip: "sup_steps cfg env s ?t" "sv_children ?t = sv_children s" if "sc_restart_cap cfg < length ?ds"
    using sup_step.tripped [OF that] by (auto simp: request_stop_def noted_def same)
  have count: "sup_steps cfg env s ?s2" if "\<not> sc_restart_cap cfg < length ?ds"
    using sup_step.died [of cfg env s i] that by auto
  have delay: "sup_steps cfg env s (snd (next_delay cfg i ?now ?s2))" if "\<not> sc_restart_cap cfg < length ?ds"
    by (rule rtranclp.rtrancl_into_rtrancl [OF count [OF that] sup_step.delayed])
  obtain d s3 where d: "next_delay cfg i ?now ?s2 = (d, s3)" by fastforce
  show "sup_steps cfg env s (handle_death cfg env i code s)"
    unfolding handle_death_def Let_def read_clock_def prod.case deaths d
    using rtranclp_trans [OF s1 via_set_due(1) [OF ok1, of i]] s same d
      rtranclp_trans [OF delay via_set_due(1) [OF slots_steps [OF delay s(1)], of i]]
      trip via_terminate [of cfg env] slots_steps [OF trip(1) s(1)]
    by (auto simp: sup_goes_def intro: rtranclp_trans)
  show "sv_children (handle_death cfg env i code s) = sv_children s"
    unfolding handle_death_def Let_def read_clock_def prod.case deaths d
    using via_set_due(2) trip via_terminate [of cfg env] slots_steps [OF trip(1) s(1)] same d
    by (auto simp: sup_goes_def set_due_def Let_def)
qed

section \<open>Reaping\<close>

lemma viaD: "sup_goes cfg env f \<Longrightarrow> slots_ok cfg s \<Longrightarrow> sup_steps cfg env s (f s)"
  "sup_goes cfg env f \<Longrightarrow> slots_ok cfg s \<Longrightarrow> sv_children (f s) = sv_children s"
  by (simp_all add: sup_goes_def)

lemma steps_reap_one:
  assumes s: "slots_ok cfg s" and c: "(i, p) \<in> set (sv_children s)"
  shows "sup_steps cfg env s (reap_one cfg env (i, p) s)"
    "sv_children (reap_one cfg env (i, p) s) =
       (if se_exit env (sv_at s) p = None then sv_children s else AList.delete i (sv_children s))"
proof -
  let ?s1 = "next_instant s"
  have s1: "sup_steps cfg env s ?s1" by (rule viaD(1) [OF via_instant s])
  have "sup_steps cfg env s (reap_one cfg env (i, p) s) \<and> sv_children (reap_one cfg env (i, p) s) =
       (if se_exit env (sv_at s) p = None then sv_children s else AList.delete i (sv_children s))"
  proof (cases "se_exit env (sv_at s) p")
    case None
    then show ?thesis using s1 by (simp add: reap_one_def poll_child_def)
  next
    case (Some code)
    let ?g = "gone i p code ?s1"
    let ?f = "\<lambda>s. glance env (record_exit env i code (invalidate_slot cfg i s))"
    have i: "i < sc_processes cfg" using s c by (force simp: slots_ok_def)
    have g: "sup_steps cfg env s ?g" using s1 sup_step.exited [of i p ?s1 cfg env code] c by auto
    note okg = slots_steps [OF g s]
    have f: "sup_goes cfg env ?f" by (rule via_comp [OF via_comp [OF via_invalidate via_record [OF i]] via_glance])
    have fs: "sup_steps cfg env s (?f ?g)" by (rule rtranclp_trans [OF g viaD(1) [OF f okg]])
    have ch: "sv_children (?f ?g) = AList.delete i (sv_children s)"
      using viaD(2) [OF f okg] by (simp add: gone_def noted_def)
    then have n: "i \<notin> fst ` set (sv_children (?f ?g))" by (simp add: deleted_keys)
    note d = via_handle_death [OF slots_steps [OF fs s] i n, of env code]
    have r: "reap_one cfg env (i, p) s = (if sv_stopping (?f ?g) then ?f ?g else handle_death cfg env i code (?f ?g))"
      using Some by (simp add: reap_one_def poll_child_def Let_def)
    show ?thesis unfolding r using Some fs d ch rtranclp_trans [OF fs d(1)] by simp
  qed
  then show "sup_steps cfg env s (reap_one cfg env (i, p) s)"
    "sv_children (reap_one cfg env (i, p) s) = (if se_exit env (sv_at s) p = None then sv_children s else AList.delete i (sv_children s))"
    by simp_all
qed

lemma steps_reap_each:
  assumes "slots_ok cfg s" "set cs \<subseteq> set (sv_children s)" "distinct (map fst cs)"
  shows "sup_steps cfg env s (fold (reap_one cfg env) cs s)
    \<and> set (sv_children (fold (reap_one cfg env) cs s)) \<subseteq> set (sv_children s)"
  using assms
proof (induction cs arbitrary: s)
  case (Cons c cs)
  obtain i p where c: "c = (i, p)" by fastforce
  let ?r = "reap_one cfg env c s"
  have m: "(i, p) \<in> set (sv_children s)" using Cons.prems(2) c by simp
  note one = steps_reap_one [OF Cons.prems(1) m, of env, folded c]
  have kept: "set (AList.delete i xs) = {x \<in> set xs. fst x \<noteq> i}" for xs :: "(nat \<times> nat) list"
    by (auto simp: AList.delete_eq)
  have sub: "set (sv_children ?r) \<subseteq> set (sv_children s)" unfolding one(2) by (auto simp: kept)
  have "set cs \<subseteq> set (sv_children ?r)" unfolding one(2) using Cons.prems(2,3) c by (force simp: kept)
  with Cons.IH [OF slots_steps [OF one(1) Cons.prems(1)]] Cons.prems(3) one(1) sub
  show ?case by (auto intro: rtranclp_trans)
qed simp

lemma steps_reap: "slots_ok cfg s \<Longrightarrow> sup_steps cfg env s (reap_exited cfg env s)"
  using steps_reap_each [of cfg s "sv_children s" env] by (simp add: reap_exited_def slots_ok_def)

section \<open>Starting\<close>

lemma steps_start_slot:
  assumes s: "slots_ok cfg s" and i: "i < sc_processes cfg" "i \<notin> fst ` set (sv_children s)"
  shows "sup_steps cfg env s (snd (start_slot cfg env locked i s))
    \<and> fst ` set (sv_children (snd (start_slot cfg env locked i s))) \<subseteq> insert i (fst ` set (sv_children s))"
proof -
  let ?look = "\<lambda>s. if locked then s else glance env s"
  have look: "sup_goes cfg env ?look" by (rule via_if [OF via_id via_glance])
  let ?s1 = "?look s"
  have s1: "sup_steps cfg env s ?s1" "sv_children ?s1 = sv_children s" using viaD [OF look s] by simp_all
  note ok1 = slots_steps [OF s1(1) s]
  let ?s2 = "next_instant (invalidate_slot cfg i ?s1)"
  have g2: "sup_goes cfg env (\<lambda>s. next_instant (invalidate_slot cfg i s))" by (rule via_comp [OF via_invalidate via_instant])
  have s2: "sup_steps cfg env s ?s2" "sv_children ?s2 = sv_children s"
    using viaD [OF g2 ok1] s1 by (auto intro: rtranclp_trans)
  let ?s3 = "next_instant ?s2" and ?now = "se_clock env (sv_at ?s2)"
  have s3: "sup_steps cfg env s ?s3" "sv_children ?s3 = sv_children s"
    using rtranclp_trans [OF s2(1) viaD(1) [OF via_instant slots_steps [OF s2(1) s]]] s2(2) by simp_all
  let ?s4 = "begun i ?now ?s3"
  have stop3: "sv_stopping ?s3 = sv_stopping ?s1"
    by (simp add: next_instant_def invalidate_slot_def noted_def)
  have s4: "sup_steps cfg env s ?s4" if "\<not> sv_stopping ?s1"
    using sup_step.began [of ?s3 i cfg env ?now] that s3 i stop3 by auto
  have ch4: "fst ` set (sv_children ?s4) = insert i (fst ` set (sv_children s))"
    using s3(2) by (simp add: begun_def noted_def update_keys)
  let ?s5 = "?look ?s4"
  have s5: "sup_steps cfg env s ?s5" "sv_children ?s5 = sv_children ?s4" if "\<not> sv_stopping ?s1"
    using rtranclp_trans [OF s4 [OF that] viaD(1) [OF look slots_steps [OF s4 [OF that] s]]]
      viaD(2) [OF look slots_steps [OF s4 [OF that] s]] that by simp_all
  let ?s6 = "if sv_stopping ?s5 then noted (Sent (sv_spawned ?s3) Terminate) ?s5 else ?s5"
  have s6: "sup_steps cfg env s ?s6" "sv_children ?s6 = sv_children ?s4" if "\<not> sv_stopping ?s1"
    using s5 [OF that] sup_step.sent [of Terminate ?s5 cfg env "sv_spawned ?s3"] by (auto simp: noted_def)
  have r: "snd (start_slot cfg env locked i s) =
      (if sv_stopping ?s1 then ?s1 else if \<not> se_spawns env (sv_at ?s1) then ?s2 else ?s6)"
    by (simp add: start_slot_def read_clock_def Let_def)
  have i0: "fst ` set (sv_children s) \<subseteq> insert i (fst ` set (sv_children s))" by blast
  show ?thesis unfolding r
  proof (cases "sv_stopping ?s1")
    case False
    note s6 = s6 [OF False]
    have "fst ` set (sv_children ?s6) \<subseteq> insert i (fst ` set (sv_children s))" by (simp only: s6(2) ch4 subset_refl)
    with s6(1) s2 i0 False show "sup_steps cfg env s (if sv_stopping ?s1 then ?s1 else if \<not> se_spawns env (sv_at ?s1) then ?s2 else ?s6)
        \<and> fst ` set (sv_children (if sv_stopping ?s1 then ?s1 else if \<not> se_spawns env (sv_at ?s1) then ?s2 else ?s6))
          \<subseteq> insert i (fst ` set (sv_children s))"
      by (cases "se_spawns env (sv_at ?s1)") (simp_all only: if_True if_False not_True_eq_False not_False_eq_True simp_thms)
  qed (simp only: if_True s1 i0 simp_thms)
qed

lemma disjoint_grow: "B \<subseteq> insert i C \<Longrightarrow> i \<notin> A \<Longrightarrow> A \<inter> C = {} \<Longrightarrow> A \<inter> B = {}"
  by blast

lemma steps_start_each:
  assumes "slots_ok cfg s" "distinct (map fst ds)" "fst ` set ds \<subseteq> {..<sc_processes cfg}" "fst ` set ds \<inter> fst ` set (sv_children s) = {}"
  shows "sup_steps cfg env s (snd (start_each cfg env now ds s))"
  using assms
proof (induction ds arbitrary: s)
  case (Cons d ds)
  obtain i t where d: "d = (i, t)" by fastforce
  obtain ok s1 where o: "start_slot cfg env True i s = (ok, s1)" by fastforce
  note one = steps_start_slot [OF Cons.prems(1), of i env True, unfolded o snd_conv]
  have s1: "sup_steps cfg env s s1" and ch: "fst ` set (sv_children s1) \<subseteq> insert i (fst ` set (sv_children s))"
    using one Cons.prems d by simp_all
  have "sup_steps cfg env s1 (snd (start_each cfg env now ds s1))"
    by (rule Cons.IH [OF slots_steps [OF s1 Cons.prems(1)] _ _ disjoint_grow [OF ch]]) (use Cons.prems d in simp_all)
  moreover have "sup_steps cfg env s (snd (start_each cfg env now ds s))"
    by (rule Cons.IH [OF Cons.prems(1)]) (use Cons.prems d in auto)
  ultimately show ?case using s1 by (auto simp: d o intro: rtranclp_trans)
qed simp

lemma steps_start_due:
  assumes s: "slots_ok cfg s"
  shows "sup_steps cfg env s (snd (start_due cfg env s))"
proof -
  let ?s1 = "glance env s" and ?s2 = "next_instant (glance env s)"
  have s1: "sup_steps cfg env s ?s1" by (rule viaD(1) [OF via_glance s])
  have s2: "sup_steps cfg env s ?s2" by (rule rtranclp_trans [OF s1 viaD(1) [OF via_instant slots_steps [OF s1 s]]])
  note ok = slots_steps [OF s2 s]
  have "sup_steps cfg env ?s2 (snd (start_each cfg env (se_clock env (sv_at ?s1)) (sv_restart_due ?s2) ?s2))"
    by (rule steps_start_each [OF ok]) (use ok in \<open>auto simp: slots_ok_def\<close>)
  then show ?thesis using s1 s2 by (auto simp: start_due_def read_clock_def Let_def intro: rtranclp_trans)
qed

section \<open>Signals\<close>

lemma via_seen: "sup_goes cfg env (seen_signal cfg env)"
  unfolding sup_goes_def
proof (intro allI impI conjI)
  fix s assume s: "slots_ok cfg s"
  let ?s1 = "s\<lparr>sv_signals_seen := Suc (sv_signals_seen s)\<rparr>"
  have s1: "sup_steps cfg env s ?s1" by (rule r_into_rtranclp) (rule sup_step.signalled)
  have s2: "sup_steps cfg env s (next_instant ?s1)"
    by (rule rtranclp_trans [OF s1 viaD(1) [OF via_instant slots_steps [OF s1 s]]])
  have s3: "sup_steps cfg env s ((next_instant ?s1)\<lparr>sv_kill_at := Some t\<rparr>)" if "sv_signals_seen s \<noteq> 0" for t
    using that by (intro rtranclp.rtrancl_into_rtrancl [OF s2] sup_step.armed) (simp add: next_instant_def)
  have r: "seen_signal cfg env s = (if sv_signals_seen s = 0 then ?s1
      else (next_instant ?s1)\<lparr>sv_kill_at := Some (if sv_kill_at s = None then se_clock env (sv_at s) + sc_kill_grace cfg else se_clock env (sv_at s))\<rparr>)"
    by (simp add: seen_signal_def read_clock_def Let_def)
  show "sup_steps cfg env s (seen_signal cfg env s)" unfolding r using s1 s3 by (simp split del: if_split) (simp only: if_split, simp)
  show "sv_children (seen_signal cfg env s) = sv_children s"
    by (simp add: seen_signal_def read_clock_def Let_def)
qed

lemma via_signals: "sup_goes cfg env (process_signals cfg env)"
proof -
  have "sup_goes cfg env (handle_one cfg env)"
    unfolding handle_one_def by (rule via_comp [OF via_comp [OF via_seen via_stop] via_terminate])
  from viaD [OF via_comp [OF via_instant via_iter [OF this]]] show ?thesis
    by (simp add: sup_goes_def process_signals_def)
qed

lemma via_kill: "sup_goes cfg env (kill_overdue env)"
  unfolding sup_goes_def
proof (intro allI impI)
  fix s assume s: "slots_ok cfg s"
  show "sup_steps cfg env s (kill_overdue env s) \<and> sv_children (kill_overdue env s) = sv_children s"
  proof (cases "sv_kill_at s")
    case (Some t)
    let ?s1 = "next_instant s" and ?s2 = "(next_instant s)\<lparr>sv_kill_at := None\<rparr>"
    have s1: "sup_steps cfg env s ?s1" by (rule viaD(1) [OF via_instant s])
    have s2: "sup_steps cfg env s ?s2" using s1 sup_step.disarmed by (rule rtranclp.rtrancl_into_rtrancl)
    have polls: "sup_goes cfg env (fold (\<lambda>c. next_instant) cs)" for cs :: "(nat \<times> nat) list"
    proof (induction cs)
      case (Cons c cs)
      from via_comp [OF via_instant Cons.IH] show ?case by (simp add: comp_def)
    qed (simp add: sup_goes_def)
    have seen: "2 \<le> sv_signals_seen s" using s Some by (simp add: slots_ok_def)
    have keeps: "sv_signals_seen (fold (\<lambda>c. next_instant) cs s) = sv_signals_seen s" for cs :: "(nat \<times> nat) list" and s
      by (induction cs arbitrary: s) (simp_all add: next_instant_def)
    let ?s3 = "fold (\<lambda>c. next_instant) (sv_children ?s1) ?s2"
    have s3: "sup_steps cfg env s ?s3" "sv_children ?s3 = sv_children s"
      using rtranclp_trans [OF s2 viaD(1) [OF polls slots_steps [OF s2 s]]] viaD(2) [OF polls slots_steps [OF s2 s]] by simp_all
    have "2 \<le> sv_signals_seen ?s3" using seen by (simp add: keeps) (simp add: next_instant_def)
    with via_signal_each [OF slots_steps [OF s3(1) s], of ForceKill env] s1 s3 Some show ?thesis
      by (auto simp: kill_overdue_def read_clock_def Let_def signal_children_def intro: rtranclp_trans)
  qed (simp add: kill_overdue_def)
qed

section \<open>The run\<close>

lemma steps_start_slots:
  assumes "slots_ok cfg s" "distinct is" "set is \<subseteq> {..<sc_processes cfg}" "set is \<inter> fst ` set (sv_children s) = {}"
  shows "sup_steps cfg env s (snd (start_slots cfg env is s))"
  using assms
proof (induction "is" arbitrary: s)
  case (Cons i "is")
  let ?s1 = "glance env (process_signals cfg env s)"
  have g: "sup_goes cfg env (\<lambda>s. glance env (process_signals cfg env s))" by (rule via_comp [OF via_signals via_glance])
  note s1 = viaD [OF g Cons.prems(1)]
  obtain ok s2 where o: "start_slot cfg env False i ?s1 = (ok, s2)" by fastforce
  note one = steps_start_slot [OF slots_steps [OF s1(1) Cons.prems(1)], of i env False, unfolded o snd_conv s1(2)]
  have s2: "sup_steps cfg env s s2" and ch: "fst ` set (sv_children s2) \<subseteq> insert i (fst ` set (sv_children s))"
    using one Cons.prems rtranclp_trans [OF s1(1)] by auto
  have "sup_steps cfg env s2 (snd (start_slots cfg env is s2))"
    by (rule Cons.IH [OF slots_steps [OF s2 Cons.prems(1)] _ _ disjoint_grow [OF ch]]) (use Cons.prems in simp_all)
  then show ?case using s1(1) s2 by (auto simp: o Let_def intro: rtranclp_trans)
qed simp

lemma steps_main_loop:
  "slots_ok cfg s \<Longrightarrow> main_loop cfg env fuel s = Some (ok, s') \<Longrightarrow> sup_steps cfg env s s'"
proof (induction fuel arbitrary: s)
  case (Suc fuel)
  let ?s1 = "glance env s"
  let ?s2 = "process_signals cfg env (beat cfg ?s1)"
  let ?s3 = "reap_exited cfg env ?s2"
  have g: "sup_goes cfg env (\<lambda>s. process_signals cfg env (beat cfg (glance env s)))"
    by (rule via_comp [OF via_comp [OF via_glance via_beat] via_signals])
  have s1: "sup_steps cfg env s ?s1" by (rule viaD(1) [OF via_glance Suc.prems(1)])
  have s2: "sup_steps cfg env s ?s2" by (rule viaD(1) [OF g Suc.prems(1)])
  have s3: "sup_steps cfg env s ?s3" by (rule rtranclp_trans [OF s2 steps_reap [OF slots_steps [OF s2 Suc.prems(1)]]])
  obtain b s4 where o: "start_due cfg env ?s3 = (b, s4)" by fastforce
  have s4: "sup_steps cfg env s s4"
    using rtranclp_trans [OF s3 steps_start_due [OF slots_steps [OF s3 Suc.prems(1)], of env]] o by simp
  have h: "sup_goes cfg env (\<lambda>s. next_instant (kill_overdue env s))" by (rule via_comp [OF via_kill via_instant])
  have s5: "sup_steps cfg env s (next_instant (kill_overdue env s4))"
    by (rule rtranclp_trans [OF s4 viaD(1) [OF h slots_steps [OF s4 Suc.prems(1)]]])
  show ?case using Suc.prems(2) s1 s4 rtranclp_trans [OF s5 Suc.IH [OF slots_steps [OF s5 Suc.prems(1)]]]
    by (auto simp: Let_def o split: if_splits)
qed simp

lemma steps_final_loop:
  "slots_ok cfg s \<Longrightarrow> final_loop cfg env fuel s = Some s' \<Longrightarrow> sup_steps cfg env s s' \<and> sv_children s' = []"
proof (induction fuel arbitrary: s)
  case (Suc fuel)
  let ?s1 = "kill_overdue env (process_signals cfg env (beat cfg s))"
  let ?s2 = "reap_exited cfg env ?s1"
  have g: "sup_goes cfg env (\<lambda>s. kill_overdue env (process_signals cfg env (beat cfg s)))"
    by (rule via_comp [OF via_comp [OF via_beat via_signals] via_kill])
  have s1: "sup_steps cfg env s ?s1" by (rule viaD(1) [OF g Suc.prems(1)])
  have s2: "sup_steps cfg env s ?s2" by (rule rtranclp_trans [OF s1 steps_reap [OF slots_steps [OF s1 Suc.prems(1)]]])
  have s3: "sup_steps cfg env s (next_instant ?s2)"
    by (rule rtranclp_trans [OF s2 viaD(1) [OF via_instant slots_steps [OF s2 Suc.prems(1)]]])
  show ?case using Suc.prems(2) s2 Suc.IH [OF slots_steps [OF s3 Suc.prems(1)]] rtranclp_trans [OF s3]
    by (auto simp: Let_def split: if_splits)
qed simp

theorem steps_run:
  assumes s: "slots_ok cfg s" "sv_children s = []" and run: "run_supervisor cfg env fuel s = Some (r, s')"
  shows "sup_steps cfg env s s'" "r \<noteq> Inl () \<Longrightarrow> sv_children s' = []"
proof -
  obtain b s1 where o: "start_slots cfg env [0..<sc_processes cfg] s = (b, s1)" by fastforce
  have s1: "sup_steps cfg env s s1"
    using steps_start_slots [OF s(1), of "[0..<sc_processes cfg]" env] s(2) o by (simp add: lessThan_atLeast0)
  have fin: "sup_goes cfg env (\<lambda>s. signal_children env Terminate (request_stop (glance env s)))"
    by (rule via_comp [OF via_comp [OF via_glance via_stop] via_terminate])
  have "sup_steps cfg env s s' \<and> (r \<noteq> Inl () \<longrightarrow> sv_children s' = [])"
  proof (cases b)
    case True
    with run o obtain ok s2 where m: "main_loop cfg env fuel s1 = Some (ok, s2)"
      by (auto simp: run_supervisor_def split: option.splits)
    have s2: "sup_steps cfg env s s2" by (rule rtranclp_trans [OF s1 steps_main_loop [OF slots_steps [OF s1 s(1)] m]])
    let ?s3 = "signal_children env Terminate (request_stop (glance env s2))"
    have s3: "sup_steps cfg env s ?s3" by (rule rtranclp_trans [OF s2 viaD(1) [OF fin slots_steps [OF s2 s(1)]]])
    from run True o m have "final_loop cfg env fuel ?s3 = Some s'"
      by (auto simp: run_supervisor_def split: option.splits)
    from steps_final_loop [OF slots_steps [OF s3 s(1)] this] rtranclp_trans [OF s3] show ?thesis by blast
  next
    case False
    with run o s1 show ?thesis by (simp add: run_supervisor_def)
  qed
  then show "sup_steps cfg env s s'" "r \<noteq> Inl () \<Longrightarrow> sv_children s' = []" by simp_all
qed

end
