(* ===== verification/SupervisorFacts.thy ===== *)
theory SupervisorFacts
  imports SupervisorSteps
begin

text \<open>
  Invariants of the supervisor's steps: what its history says of its children, when the restart cap trips; and that
  the run ends once a stop was requested and the children exit.
\<close>

section \<open>The history\<close>

text \<open>A child is started in a slot only before any stop, and only when every earlier child of it has exited.\<close>

fun orderly :: "sv_config \<Rightarrow> sv_event list \<Rightarrow> bool" where
  "orderly cfg [] = True"
| "orderly cfg (e # es) = (orderly cfg es \<and> (case e of
     Started i p \<Rightarrow> i < sc_processes cfg \<and> Stopped \<notin> set es \<and> (\<forall>q. Started i q \<in> set es \<longrightarrow> (\<exists>c. Exited i q c \<in> set es))
   | _ \<Rightarrow> True))"

definition history_ok :: "sv_config \<Rightarrow> sv_state \<Rightarrow> bool" where
  "history_ok cfg s = (orderly cfg (sv_log s)
     \<and> (\<forall>i p. (i, p) \<in> set (sv_children s) \<longleftrightarrow> Started i p \<in> set (sv_log s) \<and> (\<forall>c. Exited i p c \<notin> set (sv_log s)))
     \<and> (\<forall>i p. Started i p \<in> set (sv_log s) \<longrightarrow> p < sv_spawned s)
     \<and> (\<forall>i p c. Exited i p c \<in> set (sv_log s) \<longrightarrow> Started i p \<in> set (sv_log s))
     \<and> (sv_stopping s \<longleftrightarrow> Stopped \<in> set (sv_log s))
     \<and> (\<forall>p. Sent p ForceKill \<in> set (sv_log s) \<longrightarrow> 2 \<le> sv_signals_seen s))"

lemma history_new: "history_ok cfg new_supervisor"
  by (simp add: history_ok_def new_supervisor_def)

lemma update_new: "i \<notin> fst ` set xs \<Longrightarrow> set (AList.update i v xs) = insert (i, v) (set xs)"
  by (induction xs) auto

lemma history_step:
  assumes "sup_step cfg env s s'" "slots_ok cfg s" "history_ok cfg s"
  shows "history_ok cfg s'"
  using assms
proof (induction rule: sup_step.induct)
  case (began s i now)
  let ?s = "begun i now s"
  have h: "orderly cfg (sv_log s)" "\<And>i p. (i, p) \<in> set (sv_children s) \<longleftrightarrow> Started i p \<in> set (sv_log s) \<and> (\<forall>c. Exited i p c \<notin> set (sv_log s))"
    "\<And>i p. Started i p \<in> set (sv_log s) \<Longrightarrow> p < sv_spawned s" "\<And>i p c. Exited i p c \<in> set (sv_log s) \<Longrightarrow> Started i p \<in> set (sv_log s)"
    "sv_stopping s \<longleftrightarrow> Stopped \<in> set (sv_log s)" "\<And>p. Sent p ForceKill \<in> set (sv_log s) \<Longrightarrow> 2 \<le> sv_signals_seen s"
    using began.prems(2) unfolding history_ok_def by blast+
  have free: "\<exists>c. Exited i q c \<in> set (sv_log s)" if "Started i q \<in> set (sv_log s)" for q
    using h(2) [of i q] that began.hyps(3) by force
  have log: "sv_log ?s = Started i (sv_spawned s) # sv_log s" "sv_spawned ?s = Suc (sv_spawned s)" "sv_stopping ?s = sv_stopping s"
    "sv_signals_seen ?s = sv_signals_seen s" by (simp_all add: begun_def noted_def)
  have ch: "set (sv_children ?s) = insert (i, sv_spawned s) (set (sv_children s))"
    using update_new [OF began.hyps(3)] by (simp add: begun_def noted_def)
  have fresh: "Exited j (sv_spawned s) c \<notin> set (sv_log s)" for j c using h(3,4) by blast
  show ?case
    unfolding history_ok_def log ch
  proof (intro conjI allI impI)
    show "orderly cfg (Started i (sv_spawned s) # sv_log s)" using h(1,5) free began.hyps by simp
    show "(j, p) \<in> insert (i, sv_spawned s) (set (sv_children s)) \<longleftrightarrow>
        Started j p \<in> set (Started i (sv_spawned s) # sv_log s) \<and> (\<forall>c. Exited j p c \<notin> set (Started i (sv_spawned s) # sv_log s))" for j p
      using h(2) [of j p] fresh by auto
  qed (use h in \<open>auto intro: less_SucI\<close>)
next
  case (exited i p s code)
  let ?s = "gone i p code s"
  have h: "orderly cfg (sv_log s)" "\<And>i p. (i, p) \<in> set (sv_children s) \<longleftrightarrow> Started i p \<in> set (sv_log s) \<and> (\<forall>c. Exited i p c \<notin> set (sv_log s))"
    "\<And>i p. Started i p \<in> set (sv_log s) \<Longrightarrow> p < sv_spawned s" "\<And>i p c. Exited i p c \<in> set (sv_log s) \<Longrightarrow> Started i p \<in> set (sv_log s)"
    "sv_stopping s \<longleftrightarrow> Stopped \<in> set (sv_log s)" "\<And>p. Sent p ForceKill \<in> set (sv_log s) \<Longrightarrow> 2 \<le> sv_signals_seen s"
    using exited.prems(2) unfolding history_ok_def by blast+
  have log: "sv_log ?s = Exited i p code # sv_log s" "sv_spawned ?s = sv_spawned s" "sv_stopping ?s = sv_stopping s"
    "sv_signals_seen ?s = sv_signals_seen s" by (simp_all add: gone_def noted_def)
  have ch: "set (sv_children ?s) = {x \<in> set (sv_children s). fst x \<noteq> i}"
    by (auto simp: gone_def noted_def AList.delete_eq)
  have only: "(i, q) \<in> set (sv_children s) \<longleftrightarrow> q = p" for q
    using exited.prems(1) exited.hyps eq_key_imp_eq_value [of "sv_children s" i p q] unfolding slots_ok_def by blast
  show ?case
    unfolding history_ok_def log ch
  proof (intro conjI allI impI)
    show "orderly cfg (Exited i p code # sv_log s)" using h(1) by simp
    show "(j, q) \<in> {x \<in> set (sv_children s). fst x \<noteq> i} \<longleftrightarrow>
        Started j q \<in> set (Exited i p code # sv_log s) \<and> (\<forall>c. Exited j q c \<notin> set (Exited i p code # sv_log s))" for j q
      using h(2) [of j q] only [of q] by auto
  qed (use h exited.hyps in auto)
next
  case (delayed s i now)
  then show ?case by (simp add: history_ok_def next_delay_def Let_def)
qed (auto simp: history_ok_def noted_def request_stop_def next_instant_def count_death_def)

lemma history_steps:
  assumes "sup_steps cfg env s s'" "slots_ok cfg s" "history_ok cfg s"
  shows "history_ok cfg s'"
  using assms
proof (induction rule: rtranclp_induct)
  case (step t u)
  then show ?case using history_step [OF step.hyps(2)] slots_steps [OF step.hyps(1)] by blast
qed

lemma orderlyD:
  "orderly cfg (newer @ Started i p # older) \<Longrightarrow>
    i < sc_processes cfg \<and> Stopped \<notin> set older \<and> (\<forall>q. Started i q \<in> set older \<longrightarrow> (\<exists>c. Exited i q c \<in> set older))"
  by (induction newer) auto

section \<open>The restart cap\<close>

text \<open>The deaths of a slot in a history, oldest first.\<close>

fun death_times :: "nat \<Rightarrow> sv_event list \<Rightarrow> int list" where
  "death_times i [] = []"
| "death_times i (e # es) = death_times i es @ (case e of Died j t \<Rightarrow> if j = i then [t] else [] | _ \<Rightarrow> [])"

text \<open>Some death of a slot was one too many in the window that ends with it.\<close>

fun over_cap :: "sv_config \<Rightarrow> sv_event list \<Rightarrow> bool" where
  "over_cap cfg [] = False"
| "over_cap cfg (e # es) = (over_cap cfg es \<or> (case e of
     Died i t \<Rightarrow> sc_restart_cap cfg < length (filter (\<lambda>u. t - u \<le> sc_restart_window cfg) (death_times i es @ [t]))
   | _ \<Rightarrow> False))"

definition window_ok :: "sv_config \<Rightarrow> sv_env \<Rightarrow> sv_state \<Rightarrow> bool" where
  "window_ok cfg env s = (\<forall>i. the_default [] (map_of (sv_deaths s) i)
       = filter (\<lambda>u. last (death_times i (sv_log s)) - u \<le> sc_restart_window cfg) (death_times i (sv_log s))
     \<and> sorted (death_times i (sv_log s)) \<and> (\<forall>t \<in> set (death_times i (sv_log s)). \<forall>n \<ge> sv_at s. t \<le> se_clock env n))"

definition cap_ok :: "sv_config \<Rightarrow> sv_state \<Rightarrow> bool" where
  "cap_ok cfg s = (sv_cap_tripped s \<longleftrightarrow> over_cap cfg (sv_log s))"

lemma sorted_dropWhile:
  "sorted ts \<Longrightarrow> dropWhile (\<lambda>t. w < now - t) ts = filter (\<lambda>t. now - t \<le> w) (ts :: int list)"
proof (induction ts)
  case (Cons t ts)
  then show ?case by (auto simp: filter_id_conv intro!: sym [OF filter_True])
qed simp

lemma deaths_counted:
  assumes w: "window_ok cfg env s" and now: "now = se_clock env (sv_at s)"
  shows "deaths_in_window cfg now (the_default [] (map_of (sv_deaths s) i))
    = filter (\<lambda>u. now - u \<le> sc_restart_window cfg) (death_times i (sv_log s) @ [now])"
proof -
  let ?ts = "death_times i (sv_log s)" and ?W = "sc_restart_window cfg"
  have ds: "the_default [] (map_of (sv_deaths s) i) = filter (\<lambda>u. last ?ts - u \<le> ?W) ?ts"
    and so: "sorted ?ts" and le: "\<And>t. t \<in> set ?ts \<Longrightarrow> t \<le> now" using w now by (auto simp: window_ok_def)
  have "sorted (filter (\<lambda>u. last ?ts - u \<le> ?W) ?ts @ [now])"
    using so le by (auto simp: sorted_append intro: sorted_filter [where f = "\<lambda>x. x", simplified])
  then have "deaths_in_window cfg now (the_default [] (map_of (sv_deaths s) i))
      = filter (\<lambda>u. now - u \<le> ?W) (filter (\<lambda>u. last ?ts - u \<le> ?W) ?ts @ [now])"
    by (simp only: deaths_in_window_def ds sorted_dropWhile)
  also have "\<dots> = filter (\<lambda>u. now - u \<le> ?W) (?ts @ [now])"
  proof -
    have "last ?ts - u \<le> ?W" if "u \<in> set ?ts" "now - u \<le> ?W" for u
    proof -
      have "last ?ts \<le> now" using le that(1) by (metis empty_iff empty_set last_in_set)
      with that(2) show ?thesis by simp
    qed
    then show ?thesis by (auto intro!: filter_cong)
  qed
  finally show ?thesis .
qed

lemma window_counted:
  assumes m: "mono (se_clock env)" and w: "window_ok cfg env s" and now: "now = se_clock env (sv_at s)"
  shows "window_ok cfg env (count_death cfg i now (next_instant s))"
proof -
  let ?s = "count_death cfg i now (next_instant s)" and ?W = "sc_restart_window cfg"
  have log: "sv_log ?s = Died i now # sv_log s" "sv_at ?s = Suc (sv_at s)" by (simp_all add: count_death_def noted_def next_instant_def)
  have deaths: "the_default [] (map_of (sv_deaths ?s) j) =
      (if j = i then filter (\<lambda>u. now - u \<le> ?W) (death_times i (sv_log s) @ [now]) else the_default [] (map_of (sv_deaths s) j))" for j
    using deaths_counted [OF w now, of i] by (simp add: count_death_def noted_def next_instant_def update_conv' the_default_def)
  have le: "now \<le> se_clock env n" if "Suc (sv_at s) \<le> n" for n using m that now by (simp add: mono_def)
  show ?thesis
    unfolding window_ok_def log deaths
  proof (intro allI conjI)
    fix j
    show "(if j = i then filter (\<lambda>u. now - u \<le> ?W) (death_times i (sv_log s) @ [now]) else the_default [] (map_of (sv_deaths s) j))
        = filter (\<lambda>u. last (death_times j (Died i now # sv_log s)) - u \<le> ?W) (death_times j (Died i now # sv_log s))"
      using w by (simp add: window_ok_def)
    show "sorted (death_times j (Died i now # sv_log s))" using w now by (auto simp: window_ok_def sorted_append)
    show "\<forall>t \<in> set (death_times j (Died i now # sv_log s)). \<forall>n \<ge> Suc (sv_at s). t \<le> se_clock env n"
      using w le by (auto simp: window_ok_def)
  qed
qed

lemma cap_step:
  assumes "sup_step cfg env s s'" "mono (se_clock env)" "window_ok cfg env s" "cap_ok cfg s"
  shows "window_ok cfg env s' \<and> cap_ok cfg s'"
  using assms
proof (induction rule: sup_step.induct)
  case (died s i)
  let ?now = "se_clock env (sv_at s)"
  let ?s = "count_death cfg i ?now (next_instant s)"
  have log: "sv_log ?s = Died i ?now # sv_log s" "sv_cap_tripped ?s = sv_cap_tripped s"
    by (simp_all add: count_death_def noted_def next_instant_def)
  have "cap_ok cfg ?s" using died.prems(3) died.hyps
    unfolding cap_ok_def log over_cap.simps sv_event.case deaths_counted [OF died.prems(2) refl] by (meson not_less)
  with window_counted [OF died.prems(1,2) refl] show ?case by blast
next
  case (tripped s i)
  let ?now = "se_clock env (sv_at s)"
  let ?s = "count_death cfg i ?now (next_instant s)"
  let ?t = "request_stop (?s\<lparr>sv_cap_tripped := True\<rparr>)"
  have log: "sv_log ?t = Stopped # Died i ?now # sv_log s" "sv_cap_tripped ?t = True"
    by (simp_all add: count_death_def noted_def next_instant_def request_stop_def)
  have "cap_ok cfg ?t" using tripped.hyps
    unfolding cap_ok_def log over_cap.simps sv_event.case deaths_counted [OF tripped.prems(2) refl] by simp
  moreover have "window_ok cfg env ?t" using window_counted [OF tripped.prems(1,2) refl, of i]
    by (simp add: window_ok_def request_stop_def noted_def)
  ultimately show ?case by blast
next
  case (delayed s i now)
  then show ?case by (simp add: window_ok_def cap_ok_def next_delay_def Let_def)
qed (simp_all add: window_ok_def cap_ok_def noted_def request_stop_def next_instant_def begun_def gone_def)

lemma cap_steps:
  assumes "sup_steps cfg env s s'" "mono (se_clock env)" "window_ok cfg env s" "cap_ok cfg s"
  shows "window_ok cfg env s' \<and> cap_ok cfg s'"
  using assms by (induction rule: rtranclp_induct) (auto dest: cap_step)

lemma cap_new: "window_ok cfg env new_supervisor" "cap_ok cfg new_supervisor"
  by (simp_all add: window_ok_def cap_ok_def new_supervisor_def the_default_def)

section \<open>The run ends\<close>

lemma onward_step: "sup_step cfg env s s' \<Longrightarrow> sv_at s \<le> sv_at s' \<and> (sv_stopping s \<longrightarrow> sv_stopping s')"
  by (induction rule: sup_step.induct)
    (simp_all add: noted_def request_stop_def next_instant_def begun_def gone_def count_death_def next_delay_def Let_def)

lemma onward: "sup_steps cfg env s s' \<Longrightarrow> sv_at s \<le> sv_at s' \<and> (sv_stopping s \<longrightarrow> sv_stopping s')"
  by (induction rule: rtranclp_induct) (use onward_step in \<open>fastforce+\<close>)

text \<open>From instant \<open>m\<close> on every child has exited, and another thread's stop or a signal is there to be seen.\<close>

definition ends_at :: "sv_env \<Rightarrow> nat \<Rightarrow> bool" where
  "ends_at env m = ((\<forall>n \<ge> m. \<forall>p. se_exit env n p \<noteq> None) \<and> ((\<forall>n \<ge> m. se_stop env n) \<or> (\<forall>n \<ge> m. 0 < se_signals env n)))"

lemma reap_each_gone:
  assumes "slots_ok cfg s" "set cs \<subseteq> set (sv_children s)" "distinct (map fst cs)" "m \<le> sv_at s" "\<forall>n \<ge> m. \<forall>p. se_exit env n p \<noteq> None"
  shows "fst ` set (sv_children (fold (reap_one cfg env) cs s)) \<inter> fst ` set cs = {}"
  using assms(1-4)
proof (induction cs arbitrary: s)
  case (Cons c cs)
  obtain i p where c: "c = (i, p)" by fastforce
  let ?r = "reap_one cfg env c s" and ?f = "fold (reap_one cfg env) cs (reap_one cfg env c s)"
  have i: "(i, p) \<in> set (sv_children s)" using Cons.prems(2) c by simp
  note one = steps_reap_one [OF Cons.prems(1) i, of env, folded c]
  have ch: "sv_children ?r = AList.delete i (sv_children s)" using one(2) assms(5) Cons.prems(4) by simp
  then have keys: "fst ` set (sv_children ?r) = fst ` set (sv_children s) - {i}" by (simp add: deleted_keys)
  have cs: "set cs \<subseteq> set (sv_children ?r)" unfolding ch using Cons.prems(2,3) c by (force simp: AList.delete_eq)
  note ok = slots_steps [OF one(1) Cons.prems(1)]
  have d: "distinct (map fst cs)" using Cons.prems(3) by simp
  have m: "m \<le> sv_at ?r" using onward [OF one(1)] Cons.prems(4) by simp
  have "fst ` set (sv_children ?f) \<subseteq> fst ` set (sv_children s) - {i}"
    using image_mono [OF conjunct2 [OF steps_reap_each [OF ok cs d, of env]], of fst] unfolding keys .
  then have "i \<notin> fst ` set (sv_children ?f)" by (simp only: subset_Diff_insert simp_thms)
  with Cons.IH [OF ok cs d m] show ?case using c by simp
qed simp

lemma reap_gone:
  assumes "slots_ok cfg s" "ends_at env m" "m \<le> sv_at s"
  shows "sv_children (reap_exited cfg env s) = []"
proof -
  have d: "distinct (map fst (sv_children s))" using assms(1) by (simp add: slots_ok_def)
  have "fst ` set (sv_children (reap_exited cfg env s)) \<subseteq> fst ` set (sv_children s)"
    using image_mono [OF conjunct2 [OF steps_reap_each [OF assms(1) subset_refl d, of env]], of fst] unfolding reap_exited_def .
  then have "fst ` set (sv_children (reap_exited cfg env s)) \<inter> fst ` set (sv_children s) = fst ` set (sv_children (reap_exited cfg env s))"
    by (rule Int_absorb2)
  moreover have "\<forall>n \<ge> m. \<forall>p. se_exit env n p \<noteq> None" using assms(2) unfolding ends_at_def by (rule conjunct1)
  note reap_each_gone [OF assms(1) subset_refl d assms(3) this, folded reap_exited_def]
  ultimately show ?thesis by simp
qed

lemma signal_each_stopping: "sv_stopping (signal_each env sg cs s) = sv_stopping s"
  by (induction env sg cs s rule: signal_each.induct) (simp_all add: poll_child_def next_instant_def noted_def)

lemma head_stops:
  assumes ok: "slots_ok cfg s" and e: "ends_at env m" and m: "m \<le> sv_at s"
  shows "sv_stopping (process_signals cfg env (beat cfg (glance env s)))"
proof (cases "se_stop env (sv_at s)")
  case True
  have g: "sup_goes cfg env (\<lambda>s. process_signals cfg env (beat cfg s))" by (rule via_comp [OF via_beat via_signals])
  have "sv_stopping (glance env s)" using True by (simp add: glance_def request_stop_def noted_def)
  with onward [OF viaD(1) [OF g slots_steps [OF viaD(1) [OF via_glance ok] ok]]] show ?thesis by simp
next
  case False
  let ?s = "beat cfg (glance env s)"
  have "sv_at ?s = Suc (sv_at s)" using False by (simp add: beat_def noted_def glance_def next_instant_def)
  with e m False have "0 < se_signals env (sv_at ?s)" by (auto simp: ends_at_def)
  then obtain k where "se_signals env (sv_at ?s) = Suc k" by (cases "se_signals env (sv_at ?s)") auto
  then show ?thesis
    by (simp add: process_signals_def handle_one_def signal_children_def signal_each_stopping request_stop_def noted_def)
qed

lemma main_loop_done: "sv_children s = [] \<Longrightarrow> sv_stopping s \<Longrightarrow> main_loop cfg env (Suc fuel) s \<noteq> None"
  by (auto simp: Let_def glance_def request_stop_def noted_def next_instant_def)

lemma main_loop_ends:
  assumes e: "ends_at env m"
  shows "\<lbrakk>slots_ok cfg s; m + 2 \<le> fuel + sv_at s; 2 \<le> fuel\<rbrakk> \<Longrightarrow> main_loop cfg env fuel s \<noteq> None"
proof (induction fuel arbitrary: s)
  case (Suc fuel)
  let ?s1 = "glance env s" and ?s2 = "process_signals cfg env (beat cfg (glance env s))"
  let ?s3 = "reap_exited cfg env ?s2"
  have g: "sup_goes cfg env (\<lambda>s. process_signals cfg env (beat cfg (glance env s)))"
    by (rule via_comp [OF via_comp [OF via_glance via_beat] via_signals])
  have s2: "sup_steps cfg env s ?s2" by (rule viaD(1) [OF g Suc.prems(1)])
  note ok2 = slots_steps [OF s2 Suc.prems(1)]
  have s3: "sup_steps cfg env s ?s3" by (rule rtranclp_trans [OF s2 steps_reap [OF ok2]])
  note ok3 = slots_steps [OF s3 Suc.prems(1)]
  obtain b s4 where o: "start_due cfg env ?s3 = (b, s4)" by fastforce
  have s34: "sup_steps cfg env ?s3 s4" using steps_start_due [OF ok3, of env] o by simp
  have h: "sup_goes cfg env (\<lambda>s. next_instant (kill_overdue env s))" by (rule via_comp [OF via_kill via_instant])
  let ?s5 = "next_instant (kill_overdue env s4)"
  note ok4 = slots_steps [OF s34 ok3]
  have s5: "sup_steps cfg env s ?s5" by (rule rtranclp_trans [OF s3 rtranclp_trans [OF s34 viaD(1) [OF h ok4]]])
  have at5: "Suc (sv_at s) \<le> sv_at ?s5"
    using onward [OF rtranclp_trans [OF s3 rtranclp_trans [OF s34 viaD(1) [OF via_kill ok4]]]] by (simp add: next_instant_def)
  have "main_loop cfg env fuel ?s5 \<noteq> None"
  proof (cases "m \<le> sv_at s")
    case True
    have "sv_stopping ?s2" by (rule head_stops [OF Suc.prems(1) e True])
    then have st3: "sv_stopping ?s3" using onward [OF steps_reap [OF ok2]] by simp
    have "m \<le> sv_at ?s2" using onward [OF s2] True by simp
    then have ch3: "sv_children ?s3 = []" by (rule reap_gone [OF ok2 e])
    have "s4 = glance env ?s3" using o st3 by (auto simp: start_due_def Let_def glance_def request_stop_def noted_def next_instant_def split: if_splits)
    then have "sv_children s4 = []" using ch3 by simp
    then have "sv_children ?s5 = []" using viaD(2) [OF h ok4] by simp
    moreover have "sv_stopping ?s5" using onward [OF rtranclp_trans [OF s34 viaD(1) [OF h ok4]]] st3 by simp
    moreover obtain k where "fuel = Suc k" using Suc.prems(3) by (cases fuel) auto
    ultimately show ?thesis by (simp only: main_loop_done not_False_eq_True)
  next
    case False
    show ?thesis by (rule Suc.IH [OF slots_steps [OF s5 Suc.prems(1)]]) (use Suc.prems False at5 in auto)
  qed
  then obtain y where "main_loop cfg env fuel ?s5 = Some y" by blast
  then show ?case by (cases b) (auto simp: Let_def o)
qed simp

lemma final_loop_ends:
  assumes e: "ends_at env m"
  shows "\<lbrakk>slots_ok cfg s; m + 1 \<le> fuel + sv_at s; 1 \<le> fuel\<rbrakk> \<Longrightarrow> final_loop cfg env fuel s \<noteq> None"
proof (induction fuel arbitrary: s)
  case (Suc fuel)
  let ?s1 = "kill_overdue env (process_signals cfg env (beat cfg s))"
  let ?s2 = "reap_exited cfg env ?s1"
  have g: "sup_goes cfg env (\<lambda>s. kill_overdue env (process_signals cfg env (beat cfg s)))"
    by (rule via_comp [OF via_comp [OF via_beat via_signals] via_kill])
  have s1: "sup_steps cfg env s ?s1" by (rule viaD(1) [OF g Suc.prems(1)])
  note ok1 = slots_steps [OF s1 Suc.prems(1)]
  have s2: "sup_steps cfg env s ?s2" by (rule rtranclp_trans [OF s1 steps_reap [OF ok1]])
  have s3: "sup_steps cfg env s (next_instant ?s2)"
    by (rule rtranclp_trans [OF s2 viaD(1) [OF via_instant slots_steps [OF s2 Suc.prems(1)]]])
  have at3: "Suc (sv_at s) \<le> sv_at (next_instant ?s2)" using onward [OF s2] by (simp add: next_instant_def)
  show ?case
  proof (cases "m \<le> sv_at s")
    case True
    then have "m \<le> sv_at ?s1" using onward [OF s1] by simp
    from reap_gone [OF ok1 e this] show ?thesis by (simp add: Let_def)
  next
    case False
    have "final_loop cfg env fuel (next_instant ?s2) \<noteq> None"
      by (rule Suc.IH [OF slots_steps [OF s3 Suc.prems(1)]]) (use Suc.prems False at3 in auto)
    then show ?thesis by (simp add: Let_def)
  qed
qed simp

lemma run_ends:
  assumes e: "ends_at env m" and s: "slots_ok cfg s" "sv_children s = []"
  shows "run_supervisor cfg env (m + 2) s \<noteq> None"
proof -
  obtain b s1 where o: "start_slots cfg env [0..<sc_processes cfg] s = (b, s1)" by fastforce
  have s1: "sup_steps cfg env s s1"
    using steps_start_slots [OF s(1), of "[0..<sc_processes cfg]" env] s(2) o by (simp add: lessThan_atLeast0)
  note ok1 = slots_steps [OF s1 s(1)]
  obtain ok s2 where m: "main_loop cfg env (m + 2) s1 = Some (ok, s2)"
    using main_loop_ends [OF e ok1, of "m + 2"] by auto
  have fin: "sup_goes cfg env (\<lambda>s. signal_children env Terminate (request_stop (glance env s)))"
    by (rule via_comp [OF via_comp [OF via_glance via_stop] via_terminate])
  note ok2 = slots_steps [OF steps_main_loop [OF ok1 m] ok1]
  obtain s3 where "final_loop cfg env (m + 2) (signal_children env Terminate (request_stop (glance env s2))) = Some s3"
    using final_loop_ends [OF e slots_steps [OF viaD(1) [OF fin ok2] ok2], of "m + 2"] by auto
  with o m show ?thesis by (cases b) (simp_all add: run_supervisor_def)
qed

end
