(* ===== verification/SupervisorCodes.thy ===== *)
theory SupervisorCodes
  imports SupervisorFacts
begin

text \<open>
  What the supervisor's exit code says of its children: the code kept for a slot without a child is the code its last
  process exited with, or 0 where that process was killed by the SIGTERM of a stop.
\<close>

fun last_exit :: "nat \<Rightarrow> sv_event list \<Rightarrow> int option" where
  "last_exit i [] = None"
| "last_exit i (e # es) = (case e of Exited j p c \<Rightarrow> if j = i then Some c else last_exit i es | _ \<Rightarrow> last_exit i es)"

definition code_fits :: "int option \<Rightarrow> int option \<Rightarrow> bool" where
  "code_fits kept left = (case left of None \<Rightarrow> kept = None
     | Some c \<Rightarrow> kept = Some c \<or> c = - sigterm \<and> kept = Some 0)"

definition codes_ok :: "sv_state \<Rightarrow> bool" where
  "codes_ok s = (\<forall>i. i \<notin> fst ` set (sv_children s) \<longrightarrow> code_fits (map_of (sv_exit_codes s) i) (last_exit i (sv_log s)))"

text \<open>A method that neither ends a child nor touches the codes.\<close>

definition same_codes :: "sv_state \<Rightarrow> sv_state \<Rightarrow> bool" where
  "same_codes s s' = (sv_children s' = sv_children s \<and> sv_exit_codes s' = sv_exit_codes s
     \<and> (\<forall>i. last_exit i (sv_log s') = last_exit i (sv_log s)))"

lemma same_refl [simp]: "same_codes s s"
  by (simp add: same_codes_def)

lemma same_trans: "same_codes s t \<Longrightarrow> same_codes t u \<Longrightarrow> same_codes s u"
  by (simp add: same_codes_def)

lemma codes_same: "same_codes s s' \<Longrightarrow> codes_ok s \<Longrightarrow> codes_ok s'"
  by (simp add: same_codes_def codes_ok_def)

lemma same_next [simp]: "same_codes s (next_instant s)"
  by (simp add: same_codes_def next_instant_def)

lemma same_noted: "(\<And>i p c. e \<noteq> Exited i p c) \<Longrightarrow> same_codes s (noted e s)"
proof (cases e)
  case (Exited i p c)
  moreover assume "\<And>i p c. e \<noteq> Exited i p c"
  ultimately show ?thesis by blast
qed (simp_all add: same_codes_def noted_def)

lemma same_stop: "same_codes s (request_stop s)"
  by (simp add: same_codes_def request_stop_def noted_def)

lemma same_glance: "same_codes s (glance env s)"
  by (simp add: same_codes_def glance_def request_stop_def noted_def next_instant_def)

lemma same_beat: "same_codes s (beat cfg s)"
  by (simp add: same_codes_def beat_def noted_def)

lemma same_invalidate: "same_codes s (invalidate_slot cfg i s)"
  by (simp add: same_codes_def invalidate_slot_def noted_def)

lemma same_signal_each: "same_codes s (signal_each env sg cs s)"
proof (induction env sg cs s rule: signal_each.induct)
  case (2 env sg i p cs s)
  let ?s = "if se_exit env (sv_at s) p = None then noted (Sent p sg) (next_instant s) else next_instant s"
  have "same_codes s ?s" by (simp add: same_codes_def noted_def next_instant_def)
  from same_trans [OF this 2 [OF _ refl, of "se_exit env (sv_at s) p"]] show ?case
    by (simp add: poll_child_def)
qed simp

lemma same_signals: "same_codes s (signal_children env sg s)"
  by (simp add: signal_children_def same_signal_each)

lemma same_set_due: "same_codes s (set_due env i t s)"
  using same_glance [of s env] by (simp add: set_due_def Let_def same_codes_def)

lemma same_handle_death: "same_codes s (handle_death cfg env i code s)"
proof -
  let ?now = "se_clock env (sv_at s)"
  let ?s2 = "count_death cfg i ?now (next_instant s)"
  have s2: "same_codes s ?s2" "same_codes s (?s2\<lparr>sv_cap_tripped := True\<rparr>)" "same_codes s (snd (next_delay cfg i ?now ?s2))"
    by (simp_all add: same_codes_def count_death_def noted_def next_instant_def next_delay_def Let_def)
  note trip = same_trans [OF same_trans [OF s2(2) same_stop] same_signals]
  note due = same_trans [OF same_next same_set_due] same_trans [OF s2(3) same_set_due]
  show ?thesis unfolding handle_death_def Let_def read_clock_def prod.case
    using trip due by (auto split: prod.split)
qed

lemma same_seen: "same_codes s (seen_signal cfg env s)"
  by (simp add: same_codes_def seen_signal_def read_clock_def Let_def next_instant_def)

lemma same_process: "same_codes s (process_signals cfg env s)"
proof -
  have one: "same_codes s (handle_one cfg env s)" for s
    unfolding handle_one_def by (rule same_trans [OF same_trans [OF same_seen same_stop] same_signals])
  have "same_codes s ((handle_one cfg env ^^ n) s)" for n s
  proof (induction n)
    case (Suc n)
    from same_trans [OF Suc.IH one] show ?case by simp
  qed simp
  then show ?thesis unfolding process_signals_def by (rule same_trans [OF same_next])
qed

lemma same_kill: "same_codes s (kill_overdue env s)"
proof -
  have polls: "same_codes s (fold (\<lambda>c. next_instant) cs s)" for cs :: "(nat \<times> nat) list" and s
  proof (induction cs arbitrary: s)
    case (Cons c cs)
    from same_trans [OF same_next Cons.IH] show ?case by simp
  qed simp
  have "same_codes s ((next_instant s)\<lparr>sv_kill_at := None\<rparr>)" by (simp add: same_codes_def next_instant_def)
  from same_trans [OF same_trans [OF this polls] same_signals] show ?thesis
    by (simp add: kill_overdue_def read_clock_def Let_def split: option.split)
qed

section \<open>Reaping and starting\<close>

lemma codes_reap_one:
  assumes "codes_ok s"
  shows "codes_ok (reap_one cfg env (i, p) s)"
proof (cases "se_exit env (sv_at s) p")
  case None
  then show ?thesis using codes_same [OF same_next assms] by (simp add: reap_one_def poll_child_def)
next
  case (Some code)
  let ?g = "invalidate_slot cfg i (gone i p code (next_instant s))"
  let ?r = "record_exit env i code ?g"
  have keys: "fst ` set (sv_children ?r) = fst ` set (sv_children s) - {i}"
    by (simp add: record_exit_def Let_def invalidate_slot_def gone_def noted_def deleted_keys)
  have log: "last_exit j (sv_log ?r) = (if j = i then Some code else last_exit j (sv_log s))" for j
    by (simp add: record_exit_def Let_def invalidate_slot_def gone_def noted_def glance_def request_stop_def next_instant_def)
  have codes: "\<exists>c. map_of (sv_exit_codes ?r) j = (if j = i then Some c else map_of (sv_exit_codes s) j) \<and> (c = code \<or> code = - sigterm \<and> c = 0)" for j
    by (auto simp: record_exit_def Let_def invalidate_slot_def gone_def noted_def glance_def request_stop_def next_instant_def update_conv')
  have "codes_ok ?r"
    unfolding codes_ok_def keys log
  proof (intro allI impI)
    fix j assume j: "j \<notin> fst ` set (sv_children s) - {i}"
    obtain c where c: "map_of (sv_exit_codes ?r) j = (if j = i then Some c else map_of (sv_exit_codes s) j)"
      "c = code \<or> code = - sigterm \<and> c = 0" using codes [of j] by (elim exE conjE)
    show "code_fits (map_of (sv_exit_codes ?r) j) (if j = i then Some code else last_exit j (sv_log s))"
    proof (cases "j = i")
      case True
      then show ?thesis unfolding c(1) using c(2) by (auto simp: code_fits_def)
    next
      case False
      with j have "j \<notin> fst ` set (sv_children s)" by blast
      with assms show ?thesis unfolding c(1) codes_ok_def using False by simp
    qed
  qed
  then have g: "codes_ok (glance env ?r)" by (rule codes_same [OF same_glance])
  have "reap_one cfg env (i, p) s = (if sv_stopping (glance env ?r) then glance env ?r else handle_death cfg env i code (glance env ?r))"
    using Some by (simp add: reap_one_def poll_child_def Let_def)
  then show ?thesis using g codes_same [OF same_handle_death g] by simp
qed

lemma codes_reap: "codes_ok s \<Longrightarrow> codes_ok (reap_exited cfg env s)"
proof -
  have "codes_ok s \<Longrightarrow> codes_ok (fold (reap_one cfg env) cs s)" for cs s
  proof (induction cs arbitrary: s)
    case (Cons c cs)
    obtain i p where "c = (i, p)" by fastforce
    then show ?case using Cons.IH [OF codes_reap_one [OF Cons.prems]] by simp
  qed simp
  then show "codes_ok s \<Longrightarrow> codes_ok (reap_exited cfg env s)" by (simp add: reap_exited_def)
qed

lemma codes_begun: "codes_ok s \<Longrightarrow> codes_ok (begun i now s)"
  by (auto simp: codes_ok_def begun_def noted_def update_keys delete_conv')

lemma codes_start: "codes_ok s \<Longrightarrow> codes_ok (snd (start_slot cfg env locked i s))"
proof -
  assume s: "codes_ok s"
  let ?look = "\<lambda>s. if locked then s else glance env s"
  have look: "same_codes s (?look s)" for s by (simp add: same_glance)
  let ?s1 = "?look s"
  let ?s2 = "next_instant (invalidate_slot cfg i ?s1)"
  let ?s5 = "?look (begun i (se_clock env (sv_at ?s2)) (next_instant ?s2))"
  have s1: "codes_ok ?s1" by (rule codes_same [OF look s])
  have s2: "codes_ok ?s2" by (rule codes_same [OF same_trans [OF same_invalidate same_next] s1])
  have s5: "codes_ok ?s5" by (rule codes_same [OF look codes_begun [OF codes_same [OF same_next s2]]])
  have s6: "codes_ok (noted (Sent p Terminate) ?s5)" for p by (rule codes_same [OF same_noted s5]) simp
  show ?thesis using s1 s2 s5 s6 by (simp add: start_slot_def read_clock_def Let_def)
qed

lemma codes_start_each: "codes_ok s \<Longrightarrow> codes_ok (snd (start_each cfg env now ds s))"
proof (induction ds arbitrary: s)
  case (Cons d ds)
  obtain i t where d: "d = (i, t)" by fastforce
  obtain ok s1 where o: "start_slot cfg env True i s = (ok, s1)" by fastforce
  have "codes_ok s1" using codes_start [OF Cons.prems, of cfg env True i] o by simp
  with Cons.IH [OF this] Cons.IH [OF Cons.prems] show ?case by (simp add: d o)
qed simp

lemma codes_start_due: "codes_ok s \<Longrightarrow> codes_ok (snd (start_due cfg env s))"
  using codes_same [OF same_glance] codes_start_each [OF codes_same [OF same_trans [OF same_glance same_next]]]
  by (simp add: start_due_def read_clock_def Let_def)

section \<open>The run\<close>

lemma codes_start_slots: "codes_ok s \<Longrightarrow> codes_ok (snd (start_slots cfg env is s))"
proof (induction "is" arbitrary: s)
  case (Cons i "is")
  let ?s1 = "glance env (process_signals cfg env s)"
  have s1: "codes_ok ?s1" by (rule codes_same [OF same_trans [OF same_process same_glance] Cons.prems])
  obtain ok s2 where o: "start_slot cfg env False i ?s1 = (ok, s2)" by fastforce
  have "codes_ok s2" using codes_start [OF s1, of cfg env False i] o by simp
  with Cons.IH [OF this] s1 show ?case by (simp add: o Let_def)
qed simp

lemma codes_main_loop: "codes_ok s \<Longrightarrow> main_loop cfg env fuel s = Some (ok, s') \<Longrightarrow> codes_ok s'"
proof (induction fuel arbitrary: s)
  case (Suc fuel)
  have s1: "codes_ok (glance env s)" by (rule codes_same [OF same_glance Suc.prems(1)])
  let ?s3 = "reap_exited cfg env (process_signals cfg env (beat cfg (glance env s)))"
  have s3: "codes_ok ?s3" by (rule codes_reap [OF codes_same [OF same_trans [OF same_beat same_process] s1]])
  obtain b s4 where o: "start_due cfg env ?s3 = (b, s4)" by fastforce
  have s4: "codes_ok s4" using codes_start_due [OF s3, of cfg env] o by simp
  have s5: "codes_ok (next_instant (kill_overdue env s4))" by (rule codes_same [OF same_trans [OF same_kill same_next] s4])
  show ?case using Suc.prems(2) s1 s4 Suc.IH [OF s5] by (auto simp: Let_def o split: if_splits)
qed simp

lemma codes_final_loop: "codes_ok s \<Longrightarrow> final_loop cfg env fuel s = Some s' \<Longrightarrow> codes_ok s'"
proof (induction fuel arbitrary: s)
  case (Suc fuel)
  let ?s1 = "reap_exited cfg env (kill_overdue env (process_signals cfg env (beat cfg s)))"
  have s1: "codes_ok ?s1"
    by (rule codes_reap [OF codes_same [OF same_trans [OF same_trans [OF same_beat same_process] same_kill] Suc.prems(1)]])
  show ?case using Suc.prems(2) s1 Suc.IH [OF codes_same [OF same_next s1]] by (auto simp: Let_def split: if_splits)
qed simp

lemma codes_run:
  assumes "codes_ok s" "run_supervisor cfg env fuel s = Some (r, s')"
  shows "codes_ok s'"
proof -
  obtain b s1 where o: "start_slots cfg env [0..<sc_processes cfg] s = (b, s1)" by fastforce
  have s1: "codes_ok s1" using codes_start_slots [OF assms(1), of cfg env "[0..<sc_processes cfg]"] o by simp
  have fin: "same_codes s (signal_children env Terminate (request_stop (glance env s)))" for s
    by (rule same_trans [OF same_trans [OF same_glance same_stop] same_signals])
  show ?thesis
  proof (cases b)
    case True
    with assms(2) o obtain ok s2 where m: "main_loop cfg env fuel s1 = Some (ok, s2)"
      by (auto simp: run_supervisor_def split: option.splits)
    with assms(2) o True have "final_loop cfg env fuel (signal_children env Terminate (request_stop (glance env s2))) = Some s'"
      by (auto simp: run_supervisor_def split: option.splits)
    then show ?thesis by (rule codes_final_loop [OF codes_same [OF fin codes_main_loop [OF s1 m]]])
  qed (use assms(2) o s1 in \<open>simp add: run_supervisor_def\<close>)
qed

lemma codes_new: "codes_ok new_supervisor"
  by (simp add: codes_ok_def new_supervisor_def code_fits_def)

section \<open>The code of the run\<close>

text \<open>How a slot's last process left: well when it returned 0, recycled itself, or was killed by the stop's SIGTERM.\<close>

lemma exit_code_zero:
  assumes "\<not> sv_cap_tripped s"
  shows "supervisor_exit_code s = 0 \<longleftrightarrow> (\<forall>x \<in> set (sv_exit_codes s). snd x \<in> {0, recycle_exit_code})"
proof -
  have f: "(\<forall>x \<in> set (sv_exit_codes s). snd x \<in> {0, recycle_exit_code}) \<longleftrightarrow> slot_failures s = []"
    by (simp add: slot_failures_def filter_empty_conv)
  show ?thesis
  proof (cases "slot_failures s")
    case (Cons x xs)
    then have "x \<in> set (slot_failures s)" by simp
    then have "snd x \<noteq> 0" by (auto simp: slot_failures_def)
    then show ?thesis unfolding f using Cons assms by (auto simp: supervisor_exit_code_def Let_def)
  qed (use assms f in \<open>simp add: supervisor_exit_code_def\<close>)
qed

lemma exit_code_nonneg: "0 \<le> supervisor_exit_code s"
  by (auto simp: supervisor_exit_code_def Let_def split: list.split)

lemma run_exit_code: "run_supervisor cfg env fuel s = Some (Inr code, s') \<Longrightarrow> code = supervisor_exit_code s'"
  by (auto simp: run_supervisor_def split: prod.splits bool.splits option.splits if_splits)

lemma codes_from_exits:
  assumes "distinct (map fst codes)" "\<And>i. code_fits (map_of codes i) (last_exit i es)"
    "\<forall>i c. last_exit i es = Some c \<longrightarrow> c \<in> {0, recycle_exit_code}"
  shows "\<forall>x \<in> set codes. snd x \<in> {0, recycle_exit_code}"
proof
  fix x assume "x \<in> set codes"
  with assms(1) have m: "map_of codes (fst x) = Some (snd x)" by simp
  show "snd x \<in> {0, recycle_exit_code}"
  proof (cases "last_exit (fst x) es")
    case (Some c)
    with assms(3) have "c \<in> {0, recycle_exit_code}" by blast
    with assms(2) [of "fst x"] m Some show ?thesis by (auto simp: code_fits_def)
  qed (use assms(2) [of "fst x"] m in \<open>simp add: code_fits_def\<close>)
qed

lemma exits_from_codes:
  assumes "\<And>i. code_fits (map_of codes i) (last_exit i es)" "\<forall>x \<in> set codes. snd x \<in> {0, recycle_exit_code}" "last_exit i es = Some c"
  shows "c \<in> {0, recycle_exit_code, - sigterm}"
proof -
  have "map_of codes i = Some c \<or> c = - sigterm" using assms(1) [of i] assms(3) by (auto simp: code_fits_def)
  moreover have "c \<in> {0, recycle_exit_code}" if "map_of codes i = Some c"
    using bspec [OF assms(2) map_of_SomeD [OF that]] by simp
  ultimately show ?thesis by blast
qed

text \<open>Each slot has one code.\<close>

lemma distinct_codes_step: "sup_step cfg env s s' \<Longrightarrow> distinct (map fst (sv_exit_codes s)) \<Longrightarrow> distinct (map fst (sv_exit_codes s'))"
  by (induction rule: sup_step.induct)
    (simp_all add: noted_def request_stop_def next_instant_def begun_def gone_def count_death_def next_delay_def Let_def
      distinct_update distinct_delete)

lemma distinct_codes: "sup_steps cfg env s s' \<Longrightarrow> distinct (map fst (sv_exit_codes s)) \<Longrightarrow> distinct (map fst (sv_exit_codes s'))"
  by (induction rule: rtranclp_induct) (auto intro: distinct_codes_step)

section \<open>The delays\<close>

text \<open>
  The deaths of a slot whose children each lived less than the reset: \<open>(started, died)\<close>, one after the other.
\<close>

definition early_death :: "sv_config \<Rightarrow> nat \<Rightarrow> int \<times> int \<Rightarrow> sv_state \<Rightarrow> sv_state" where
  "early_death cfg i d s = snd (next_delay cfg i (snd d) (s\<lparr>sv_started_at := AList.update i (fst d) (sv_started_at s)\<rparr>))"

lemma early_death_backoff:
  assumes "snd d - fst d < sc_backoff_reset cfg"
  shows "map_of (sv_backoff (early_death cfg i d s)) i =
    Some (min (the_default (sc_restart_delay cfg) (map_of (sv_backoff s) i) * 2) (sc_backoff_max cfg))"
  using assms by (simp add: early_death_def next_delay_def Let_def update_conv' the_default_def)

lemma early_deaths_backoff:
  assumes "\<forall>d \<in> set ds. snd d - fst d < sc_backoff_reset cfg" "0 \<le> sc_restart_delay cfg" "sc_restart_delay cfg \<le> sc_backoff_max cfg"
    "map_of (sv_backoff s) i = None"
  shows "the_default (sc_restart_delay cfg) (map_of (sv_backoff (fold (early_death cfg i) ds s)) i)
    = min (sc_restart_delay cfg * 2 ^ length ds) (sc_backoff_max cfg)"
  using assms(1)
proof (induction ds rule: rev_induct)
  case Nil
  then show ?case using assms(3,4) by (simp add: the_default_def)
next
  case (snoc d ds)
  let ?a = "sc_restart_delay cfg * 2 ^ length ds" and ?m = "sc_backoff_max cfg"
  have ih: "the_default (sc_restart_delay cfg) (map_of (sv_backoff (fold (early_death cfg i) ds s)) i) = min ?a ?m"
    using snoc by simp
  have d: "snd d - fst d < sc_backoff_reset cfg" using snoc.prems by simp
  have "0 \<le> ?a" using assms(2) by simp
  then have "min (min ?a ?m * 2) ?m = min (?a * 2) ?m" using assms(2,3) by (simp add: min_def)
  then show ?case using early_death_backoff [OF d, of i "fold (early_death cfg i) ds s"] ih
    by (simp add: the_default_def mult.commute mult.left_commute)
qed

section \<open>Two slots that fail\<close>

text \<open>From instant 12 on a stop is requested, slot 0's child has exited with 1 and slot 1's with 3.\<close>

definition demo_sup_env :: sv_env where
  "demo_sup_env = \<lparr>se_exit = (\<lambda>n p. if n < 12 then None else Some (if p = 0 then 1 else 3)), se_clock = int,
     se_stop = (\<lambda>n. 12 \<le> n), se_signals = (\<lambda>n. 0), se_spawns = (\<lambda>n. True)\<rparr>"

lemma demo_sup_run:
  "map_option fst (run_supervisor (sv_defaults 2 True) demo_sup_env 14 new_supervisor) = Some (Inr 1)"
  by code_simp

lemma demo_sup_log:
  "map_option (\<lambda>x. (sv_signals_seen (snd x), Started 1 1 \<in> set (sv_log (snd x))))
     (run_supervisor (sv_defaults 2 True) demo_sup_env 14 new_supervisor) = Some (0, True)"
  by code_simp

lemma demo_sup_facts:
  "run_supervisor (sv_defaults 2 True) demo_sup_env 14 new_supervisor = Some (r, s) \<Longrightarrow>
    sv_signals_seen s = 0 \<and> Started 1 1 \<in> set (sv_log s)"
  using demo_sup_log by simp

text \<open>Slot 0's child returns 0 and slot 1's is killed by the stop's SIGTERM.\<close>

definition demo_clean_env :: sv_env where
  "demo_clean_env = demo_sup_env\<lparr>se_exit := (\<lambda>n p. if n < 12 then None else Some (if p = 0 then 0 else -15))\<rparr>"

lemma demo_clean_run:
  "map_option (\<lambda>x. (fst x, last_exit 1 (sv_log (snd x)) \<noteq> None))
     (run_supervisor (sv_defaults 2 True) demo_clean_env 14 new_supervisor) = Some (Inr 0, True)"
  by code_simp

text \<open>One slot whose child dies with no restart allowed.\<close>

definition demo_cap_env :: sv_env where
  "demo_cap_env = demo_sup_env\<lparr>se_stop := (\<lambda>n. False)\<rparr>"

lemma demo_cap_run:
  "map_option (\<lambda>x. (fst x, over_cap ((sv_defaults 1 True)\<lparr>sc_restart_cap := 0\<rparr>) (sv_log (snd x))))
     (run_supervisor ((sv_defaults 1 True)\<lparr>sc_restart_cap := 0\<rparr>) demo_cap_env 14 new_supervisor) = Some (Inr 1, True)"
  by code_simp

end
