(* ===== verification/Stored.thy ===== *)
theory Stored
  imports Schedules "HOL-Library.AList"
begin

text \<open>
  Stored schedules (\<open>src/django_ox/stored.py\<close>): the row, the rules of \<open>validate_schedule\<close> with every refusal, the
  digest of the columns a boundary is set for, and the schedule a worker builds of a row.

  An instance before it is saved is a \<open>draft\<close>: text, flags and times as their columns take them, the three numbers
  of seconds, the arguments and the bounds as the caller gave them.  What its columns then hold is a \<open>stored_row\<close>.
  The registry, an argument form, JSON normalisation, the conversion and the range of an integer column, the two time
  zones and the hash are parameters (\<open>stored_fw\<close>).
\<close>

section \<open>Values\<close>

text \<open>A datetime with a zone, as its instant, or one without, as the reading it shows; in microseconds.\<close>

datatype py_time = AwareTime int | NaiveTime int

fun is_aware :: "py_time \<Rightarrow> bool" where
  "is_aware (AwareTime m) = True"
| "is_aware (NaiveTime m) = False"

fun time_micros :: "py_time \<Rightarrow> int" where
  "time_micros (AwareTime m) = m"
| "time_micros (NaiveTime m) = m"

text \<open>A bound once its field has cleaned it: none, a datetime, or a value the field does not take as one.\<close>

datatype bound = NoBound | Bound py_time | OtherBound pyval

record kind =
  kd_task :: task_decl
  kd_form :: "((pyval \<times> pyval) list \<Rightarrow> string + (pyval \<times> pyval) list) option"   \<comment> \<open>errors, or the cleaned values\<close>
  kd_permission :: "string option"

record stored_fw =
  fw_registry :: "(string \<times> kind) list"
  fw_use_tz :: bool
  fw_localize :: "int \<Rightarrow> int"            \<comment> \<open>a naive reading in the default time zone\<close>
  fw_fits :: "int \<Rightarrow> bool"               \<comment> \<open>the database's zone shows the instant in years 1 to 9999\<close>
  fw_to_int :: "pyval \<Rightarrow> pyval option"   \<comment> \<open>IntegerField.to_python; None is ValidationError\<close>
  fw_own_low :: "int option"               \<comment> \<open>the validators the fields hold, from the default connection\<close>
  fw_own_high :: "int option"
  fw_low :: "int option"                   \<comment> \<open>the range of the column at the destination\<close>
  fw_high :: "int option"
  fw_json_ok :: "pyval \<Rightarrow> bool"
  fw_valid_task :: "task_decl \<Rightarrow> bool"   \<comment> \<open>Task.using accepts the task\<close>
  fw_digest :: "pyval list \<Rightarrow> string"
  fw_printable :: "string \<Rightarrow> string"

record draft =
  df_name :: string
  df_task_key :: string
  df_trigger :: string
  df_cron :: string
  df_every :: pyval
  df_phase :: pyval
  df_arguments :: pyval
  df_enabled :: bool
  df_start :: bound
  df_end :: bound
  df_deadline :: pyval

section \<open>Ranges\<close>

definition longest_seconds :: int where
  "longest_seconds = delta_max div 1000000"

definition longest_interval_seconds :: int where
  "longest_interval_seconds = max_interval div 1000000"

datatype sched_rule =
    UnknownTask | CronMissing | CronRefused cron_error | CronHasInterval | IntervalMissing | IntervalTooShort
  | PhaseTooLong | IntervalHasCron | UnknownTrigger | DeadlineTooShort | TimeWithoutZone | TimeWithZone
  | ZoneWhileOff | OutsideYears | EndNotAfter | ArgumentsNotMapping | FormRefused string | FormNotJson
  | BelowRange int | AboveRange int | TooManySeconds int | InvalidBlank

text \<open>\<open>_number\<close>\<close>

definition number :: "stored_fw \<Rightarrow> pyval \<Rightarrow> int option" where
  "number fw v = (case fw_to_int fw v of Some (PyInt n) \<Rightarrow> Some n | _ \<Rightarrow> None)"

text \<open>A field's own range validators, \<open>field.run_validators\<close>.\<close>

definition own_range :: "stored_fw \<Rightarrow> int \<Rightarrow> bool" where
  "own_range fw n = ((case fw_own_low fw of None \<Rightarrow> True | Some l \<Rightarrow> l \<le> n)
     \<and> (case fw_own_high fw of None \<Rightarrow> True | Some h \<Rightarrow> n \<le> h))"

text \<open>The destination's range, without the bounds the field holds itself.\<close>

definition column_errors :: "stored_fw \<Rightarrow> int \<Rightarrow> sched_rule list" where
  "column_errors fw n =
     (case fw_low fw of None \<Rightarrow> [] | Some l \<Rightarrow> if fw_own_low fw = Some l \<or> l \<le> n then [] else [BelowRange l])
     @ (case fw_high fw of None \<Rightarrow> [] | Some h \<Rightarrow> if fw_own_high fw = Some h \<or> n \<le> h then [] else [AboveRange h])"

definition seconds_errors :: "stored_fw \<Rightarrow> int \<Rightarrow> pyval \<Rightarrow> sched_rule list" where
  "seconds_errors fw longest v =
     (case number fw v of
        None \<Rightarrow> []
      | Some n \<Rightarrow>
          let column = column_errors fw n in
          if n \<le> longest \<or> column \<noteq> [] then column
          else if own_range fw n then [TooManySeconds longest] else [])"

text \<open>\<open>_range_errors\<close>, in column order.\<close>

definition range_errors :: "stored_fw \<Rightarrow> draft \<Rightarrow> (string \<times> sched_rule list) list" where
  "range_errors fw d = filter (\<lambda>x. snd x \<noteq> [])
     [(''every_seconds'', seconds_errors fw longest_interval_seconds (df_every d)),
      (''phase_seconds'', seconds_errors fw longest_seconds (df_phase d)),
      (''starting_deadline_seconds'', seconds_errors fw longest_seconds (df_deadline d))]"

text \<open>\<open>_ticks_overflow\<close>; \<open>- (- phase div every)\<close> is the quotient rounded up.\<close>

definition ticks_overflow :: "int \<Rightarrow> int \<Rightarrow> bool" where
  "ticks_overflow every phase = (longest_interval_seconds < every
     \<or> longest_interval_seconds < - (- phase div every) * every)"

section \<open>The rules\<close>

definition trigger_errors :: "stored_fw \<Rightarrow> draft \<Rightarrow> (string \<times> sched_rule) list" where
  "trigger_errors fw d =
     (if df_trigger d = ''cron'' then
        (if df_cron d = [] then [(''cron'', CronMissing)]
         else case parse_cron (df_cron d) of Inl e \<Rightarrow> [(''cron'', CronRefused e)] | Inr c \<Rightarrow> [])
        @ (if df_every d = PyNone then [] else [(''every_seconds'', CronHasInterval)])
      else if df_trigger d = ''interval'' then
        (let every = number fw (df_every d); phase = number fw (df_phase d) in
         (if df_every d = PyNone then [(''every_seconds'', IntervalMissing)]
          else case every of
            None \<Rightarrow> []
          | Some n \<Rightarrow>
              if n < 1 then [(''every_seconds'', IntervalTooShort)]
              else case phase of None \<Rightarrow> [] | Some p \<Rightarrow> if n \<le> p then [(''phase_seconds'', PhaseTooLong)] else [])
         @ (if df_cron d = [] then [] else [(''cron'', IntervalHasCron)]))
      else [(''trigger'', UnknownTrigger)])"

definition deadline_errors :: "stored_fw \<Rightarrow> draft \<Rightarrow> (string \<times> sched_rule) list" where
  "deadline_errors fw d =
     (case number fw (df_deadline d) of
        None \<Rightarrow> []
      | Some n \<Rightarrow> if n < 1 then [(''starting_deadline_seconds'', DeadlineTooShort)] else [])"

text \<open>\<open>_outside_the_storable_years\<close>\<close>

definition outside_the_storable_years :: "stored_fw \<Rightarrow> py_time \<Rightarrow> bool" where
  "outside_the_storable_years fw t = (fw_use_tz fw
     \<and> \<not> fw_fits fw (case t of AwareTime m \<Rightarrow> m | NaiveTime m \<Rightarrow> fw_localize fw m))"

text \<open>Of two bounds Python will not compare, the one \<open>USE_TZ\<close> does not expect.\<close>

definition stray_bound :: "stored_fw \<Rightarrow> bound \<Rightarrow> bound \<Rightarrow> (string \<times> sched_rule) list" where
  "stray_bound fw a b =
     (case (a, b) of
        (Bound s, Bound e) \<Rightarrow>
          if is_aware s \<noteq> is_aware e
          then [(if is_aware e \<noteq> fw_use_tz fw then ''end_time'' else ''start_time'',
                 if fw_use_tz fw then TimeWithoutZone else TimeWithZone)]
          else []
      | _ \<Rightarrow> [])"

definition bound_errors :: "stored_fw \<Rightarrow> (string \<times> sched_rule) list \<Rightarrow> string \<Rightarrow> bound \<Rightarrow> (string \<times> sched_rule) list" where
  "bound_errors fw before name b =
     (case b of
        Bound t \<Rightarrow>
          if name \<in> fst ` set before then []
          else if \<not> fw_use_tz fw \<and> is_aware t then [(name, ZoneWhileOff)]
          else if outside_the_storable_years fw t then [(name, OutsideYears)]
          else []
      | _ \<Rightarrow> [])"

definition time_errors :: "stored_fw \<Rightarrow> draft \<Rightarrow> (string \<times> sched_rule) list" where
  "time_errors fw d =
     (let stray = stray_bound fw (df_start d) (df_end d);
          each = stray @ bound_errors fw stray ''start_time'' (df_start d) @ bound_errors fw stray ''end_time'' (df_end d) in
      each @ (case (df_start d, df_end d) of
        (Bound s, Bound e) \<Rightarrow> if each = [] \<and> time_micros e \<le> time_micros s then [(''end_time'', EndNotAfter)] else []
      | _ \<Rightarrow> []))"

definition argument_errors :: "stored_fw \<Rightarrow> draft \<Rightarrow> (string \<times> sched_rule) list" where
  "argument_errors fw d =
     (case df_arguments d of
        PyDict items \<Rightarrow>
          (case Option.bind (map_of (fw_registry fw) (df_task_key d)) kd_form of
             None \<Rightarrow> []
           | Some form \<Rightarrow>
               (case form items of
                  Inl text \<Rightarrow> [(''arguments'', FormRefused text)]
                | Inr cleaned \<Rightarrow> if fw_json_ok fw (PyDict cleaned) then [] else [(''arguments'', FormNotJson)]))
      | _ \<Rightarrow> [(''arguments'', ArgumentsNotMapping)])"

text \<open>The values of \<open>Field.empty_values\<close>.\<close>

definition empty_values :: "pyval list" where
  "empty_values = [PyNone, PyStr '''', PyList [], PyTuple [], PyDict []]"

definition blank_error :: "string \<Rightarrow> pyval \<Rightarrow> (string \<times> sched_rule list) list \<Rightarrow> (string \<times> sched_rule list) list" where
  "blank_error name v found =
     (if name \<in> fst ` set found \<or> v = PyNone \<or> v \<notin> set empty_values then found
      else found @ [(name, [InvalidBlank])])"

definition add_rule :: "string \<times> sched_rule \<Rightarrow> (string \<times> sched_rule list) list \<Rightarrow> (string \<times> sched_rule list) list" where
  "add_rule e found = AList.update (fst e) (the_default [] (map_of found (fst e)) @ [snd e]) found"

text \<open>\<open>validate_schedule\<close>: each field with what was found wrong with it.  \<open>decides\<close>: the registry decides.\<close>

definition validate_schedule :: "stored_fw \<Rightarrow> bool \<Rightarrow> draft \<Rightarrow> (string \<times> sched_rule list) list" where
  "validate_schedule fw decides d =
     (let errors = (if decides \<and> map_of (fw_registry fw) (df_task_key d) = None then [(''task_key'', UnknownTask)] else [])
            @ trigger_errors fw d @ deadline_errors fw d @ time_errors fw d @ argument_errors fw d;
          found = fold add_rule errors (range_errors fw d) in
      blank_error ''end_time'' (case df_end d of OtherBound v \<Rightarrow> v | _ \<Rightarrow> PyNone)
        (blank_error ''starting_deadline_seconds'' (df_deadline d)
          (blank_error ''every_seconds'' (df_every d) found)))"

section \<open>The row\<close>

record stored_row =
  sr_pk :: nat
  sr_name :: string
  sr_task_key :: string
  sr_trigger :: string
  sr_cron :: string
  sr_every :: "int option"
  sr_phase :: int
  sr_arguments :: pyval
  sr_enabled :: bool
  sr_start :: py_time
  sr_boundary_for :: string
  sr_generation :: nat
  sr_end :: "py_time option"
  sr_deadline :: "int option"
  sr_created_at :: int
  sr_updated_at :: int

text \<open>The columns a boundary is set for, in the order the digest takes them.\<close>

definition boundary_values :: "stored_row \<Rightarrow> pyval list" where
  "boundary_values r = [PyStr (sr_cron r), PyBool (sr_enabled r), (case sr_every r of None \<Rightarrow> PyNone | Some n \<Rightarrow> PyInt n),
     PyInt (sr_phase r), PyStr (sr_trigger r)]"

definition boundary_digest :: "stored_fw \<Rightarrow> stored_row \<Rightarrow> string" where
  "boundary_digest fw r = fw_digest fw (boundary_values r)"

text \<open>
  What the columns hold of a draft whose fields' own cleaning passes: a number the field takes and its validators
  hold, a time in the zone the setting keeps it in.
\<close>

definition taken_number :: "stored_fw \<Rightarrow> pyval \<Rightarrow> int option" where
  "taken_number fw v = (case number fw v of None \<Rightarrow> None | Some n \<Rightarrow> if own_range fw n then Some n else None)"

definition taken_optional :: "stored_fw \<Rightarrow> pyval \<Rightarrow> int option option" where
  "taken_optional fw v = (if v = PyNone then Some None else map_option Some (taken_number fw v))"

definition kept_time :: "stored_fw \<Rightarrow> py_time \<Rightarrow> py_time" where
  "kept_time fw t = (if fw_use_tz fw then AwareTime (case t of AwareTime m \<Rightarrow> m | NaiveTime m \<Rightarrow> fw_localize fw m) else t)"

text \<open>The lengths and the blanks of the text columns.\<close>

definition name_taken :: "draft \<Rightarrow> bool" where
  "name_taken d = (df_name d \<noteq> [] \<and> length (df_name d) \<le> 128)"

definition texts_taken :: "draft \<Rightarrow> bool" where
  "texts_taken d = (name_taken d \<and> df_task_key d \<noteq> [] \<and> length (df_task_key d) \<le> 128
     \<and> length (df_cron d) \<le> 128 \<and> df_trigger d \<in> {''cron'', ''interval''})"

definition stored_as :: "stored_fw \<Rightarrow> nat \<Rightarrow> int \<Rightarrow> draft \<Rightarrow> stored_row option" where
  "stored_as fw k now d =
     (case (taken_optional fw (df_every d), taken_number fw (df_phase d), taken_optional fw (df_deadline d), df_start d, df_end d) of
        (Some every, Some phase, Some deadline, Bound s, b) \<Rightarrow>
          if \<not> texts_taken d then None
          else
            let row = (\<lambda>e. \<lparr>sr_pk = k, sr_name = df_name d, sr_task_key = df_task_key d, sr_trigger = df_trigger d,
                  sr_cron = df_cron d, sr_every = every, sr_phase = phase, sr_arguments = df_arguments d,
                  sr_enabled = df_enabled d, sr_start = kept_time fw s, sr_boundary_for = '''', sr_generation = 0,
                  sr_end = e, sr_deadline = deadline, sr_created_at = now, sr_updated_at = now\<rparr>) in
            (case b of NoBound \<Rightarrow> Some (row None) | Bound e \<Rightarrow> Some (row (Some (kept_time fw e))) | OtherBound v \<Rightarrow> None)
      | _ \<Rightarrow> None)"

section \<open>The schedule of a row\<close>

datatype build_error =
    TaskNotRegistered | ArgumentsNotDict | RowFormInvalid string | RowFormNotJson | RowCronRefused cron_error
  | NoInterval | TicksBeforeYearOne | DeltaOverflow | BoundHasZone string | BoundHasNoZone string | TaskRefused

text \<open>The decimal text of a key.\<close>

fun nat_text :: "nat \<Rightarrow> string" where
  "nat_text n = (if n < 10 then [] else nat_text (n div 10)) @ [char_of (48 + n mod 10)]"

declare nat_text.simps [simp del]

definition seconds_of :: "int \<Rightarrow> int option" where
  "seconds_of n = (if delta_min \<le> n * 1000000 \<and> n * 1000000 \<le> delta_max then Some (n * 1000000) else None)"

definition row_trigger :: "stored_row \<Rightarrow> build_error + trigger" where
  "row_trigger r =
     (if sr_trigger r = ''cron'' then
        (case parse_cron (sr_cron r) of Inl e \<Rightarrow> Inl (RowCronRefused e) | Inr c \<Rightarrow> Inr (CronTrigger c))
      else
        let every = the_default 0 (sr_every r) in
        if every = 0 then Inl NoInterval
        else if ticks_overflow every (sr_phase r) then Inl TicksBeforeYearOne
        else (case (seconds_of every, seconds_of (sr_phase r)) of
          (Some e, Some p) \<Rightarrow> Inr (IntervalTrigger e p) | _ \<Rightarrow> Inl DeltaOverflow))"

definition row_arguments :: "stored_fw \<Rightarrow> kind \<Rightarrow> stored_row \<Rightarrow> build_error + (pyval \<times> pyval) list" where
  "row_arguments fw kd r =
     (case sr_arguments r of
        PyDict items \<Rightarrow>
          (case kd_form kd of
             None \<Rightarrow> Inr items
           | Some form \<Rightarrow>
               (case form items of
                  Inl text \<Rightarrow> Inl (RowFormInvalid text)
                | Inr cleaned \<Rightarrow> if fw_json_ok fw (PyDict cleaned) then Inr cleaned else Inl RowFormNotJson))
      | _ \<Rightarrow> Inl ArgumentsNotDict)"

definition bound_mismatch :: "stored_fw \<Rightarrow> string \<Rightarrow> py_time option \<Rightarrow> build_error list" where
  "bound_mismatch fw name b =
     (case b of
        None \<Rightarrow> []
      | Some t \<Rightarrow> if is_aware t = fw_use_tz fw then []
          else [if fw_use_tz fw then BoundHasNoZone name else BoundHasZone name])"

text \<open>\<open>_to_schedule\<close>\<close>

definition to_schedule :: "stored_fw \<Rightarrow> string \<Rightarrow> stored_row \<Rightarrow> build_error + schedule" where
  "to_schedule fw backend r =
     (case map_of (fw_registry fw) (sr_task_key r) of
        None \<Rightarrow> Inl TaskNotRegistered
      | Some kd \<Rightarrow>
          rbind (row_arguments fw kd r) (\<lambda>args.
          rbind (row_trigger r) (\<lambda>trigger.
            case bound_mismatch fw ''start_time'' (Some (sr_start r)) @ bound_mismatch fw ''end_time'' (sr_end r) of
              e # es \<Rightarrow> Inl e
            | [] \<Rightarrow>
                let task = (kd_task kd)\<lparr>td_backend := backend\<rparr>;
                    deadline = map_option seconds_of (sr_deadline r) in
                if td_backend (kd_task kd) \<noteq> backend \<and> \<not> fw_valid_task fw task then Inl TaskRefused
                else if deadline = Some None then Inl DeltaOverflow
                else Inr \<lparr>sched_name = fw_printable fw (sr_name r), sched_task = task,
                  sched_trigger = trigger, sched_args = [], sched_kwargs = args,
                  start_time = Some (time_micros (sr_start r)), end_time = map_option time_micros (sr_end r),
                  starting_deadline = (case deadline of None \<Rightarrow> None | Some d \<Rightarrow> d), anchors = False,
                  dispatch_key = stored_key_prefix @ nat_text (sr_pk r)\<rparr>)))"

end
