(* ===== verification/StoredFacts.thy ===== *)
theory StoredFacts
  imports Stored
begin

text \<open>
  A draft the rules accept makes a row a worker can build, with a trigger that keeps the contract of \<open>Trigger\<close>; and
  no row that is built, however it was written, has a tick its trigger cannot derive.
\<close>

section \<open>What an empty report says\<close>

lemma add_rules_Nil: "fold add_rule es xs = [] \<longleftrightarrow> es = [] \<and> xs = []"
proof (induction es arbitrary: xs)
  case (Cons e es)
  have "add_rule e xs \<noteq> []" by (cases xs) (auto simp: add_rule_def)
  with Cons.IH show ?case by simp
qed simp

lemma blank_Nil: "blank_error name v xs = [] \<Longrightarrow> xs = []"
  by (auto simp: blank_error_def split: if_splits)

lemma validate_Nil:
  assumes "validate_schedule fw True d = []"
  shows "map_of (fw_registry fw) (df_task_key d) \<noteq> None" "trigger_errors fw d = []" "deadline_errors fw d = []"
    "time_errors fw d = []" "argument_errors fw d = []" "range_errors fw d = []"
proof -
  from assms have "fold add_rule ((if map_of (fw_registry fw) (df_task_key d) = None then [(''task_key'', UnknownTask)] else [])
      @ trigger_errors fw d @ deadline_errors fw d @ time_errors fw d @ argument_errors fw d) (range_errors fw d) = []"
    unfolding validate_schedule_def Let_def simp_thms by (rule blank_Nil [OF blank_Nil [OF blank_Nil]])
  then have "(if map_of (fw_registry fw) (df_task_key d) = None then [(''task_key'', UnknownTask)] else [])
      @ trigger_errors fw d @ deadline_errors fw d @ time_errors fw d @ argument_errors fw d = [] \<and> range_errors fw d = []"
    unfolding add_rules_Nil .
  then show "map_of (fw_registry fw) (df_task_key d) \<noteq> None" "trigger_errors fw d = []" "deadline_errors fw d = []"
    "time_errors fw d = []" "argument_errors fw d = []" "range_errors fw d = []"
    by (auto split: if_splits)
qed

lemma range_Nil:
  assumes "range_errors fw d = []"
  shows "seconds_errors fw longest_interval_seconds (df_every d) = []" "seconds_errors fw longest_seconds (df_phase d) = []"
    "seconds_errors fw longest_seconds (df_deadline d) = []"
  using assms by (auto simp: range_errors_def split: if_splits)

text \<open>A number its field takes and the rules let pass is at most the longest.\<close>

lemma taken_in_range:
  assumes "taken_number fw v = Some n" "seconds_errors fw longest v = []"
  shows "n \<le> longest" "own_range fw n" "number fw v = Some n"
  using assms by (auto simp: taken_number_def seconds_errors_def Let_def split: option.splits if_splits)

lemma max_interval_value: "max_interval = 62135596800000000"
  by code_simp

lemma seconds_fit:
  assumes "0 \<le> n" "n \<le> longest_seconds"
  shows "seconds_of n = Some (n * 1000000)"
proof -
  have "longest_seconds * 1000000 \<le> delta_max" by (simp add: longest_seconds_def delta_max_def)
  then show ?thesis using assms by (simp add: seconds_of_def delta_min_def)
qed

lemma interval_longest: "longest_interval_seconds * 1000000 = max_interval" "longest_interval_seconds \<le> longest_seconds"
  by (simp_all add: longest_interval_seconds_def longest_seconds_def max_interval_value delta_max_def)

section \<open>A validated row is built\<close>

lemma trigger_of_valid:
  assumes own: "fw_own_low fw = Some l" "0 \<le> l"
    and t: "trigger_errors fw d = []" and r: "range_errors fw d = []" and row: "stored_as fw k now d = Some row"
  shows "\<exists>tr. row_trigger row = Inr tr \<and> trigger_ok tr"
proof -
  from row obtain every phase where every: "taken_optional fw (df_every d) = Some every" and phase: "taken_number fw (df_phase d) = Some phase"
    and fields: "sr_every row = every" "sr_phase row = phase" "sr_trigger row = df_trigger d" "sr_cron row = df_cron d"
    and tr: "df_trigger d \<in> {''cron'', ''interval''}"
    by (auto simp: stored_as_def texts_taken_def Let_def split: option.splits bound.splits if_splits)
  show ?thesis
  proof (cases "df_trigger d = ''cron''")
    case True
    with t obtain c where "parse_cron (df_cron d) = Inr c"
      by (auto simp: trigger_errors_def split: if_splits sum.splits)
    then show ?thesis using True fields parse_cron_ok by (auto simp: row_trigger_def)
  next
    case False
    with tr have i: "df_trigger d = ''interval''" by simp
    with t every obtain n where n: "taken_number fw (df_every d) = Some n" "every = Some n"
      by (auto simp: trigger_errors_def taken_optional_def Let_def split: if_splits)
    note N = taken_in_range [OF n(1) range_Nil(1) [OF r]]
    note P = taken_in_range [OF phase range_Nil(2) [OF r]]
    have p0: "0 \<le> phase" using P(2) own by (simp add: own_range_def split: option.splits)
    have "1 \<le> n" "phase < n" using t i N(3) P(3) n(1)
      by (auto simp: trigger_errors_def Let_def taken_number_def not_less split: if_splits)
    moreover have "- (- phase div n) * n \<le> n"
    proof (cases "phase = 0")
      case False
      then have "- phase div n = - 1" using p0 \<open>phase < n\<close> by (simp add: zdiv_zminus1_eq_if div_pos_pos_trivial)
      then show ?thesis by simp
    qed (use \<open>1 \<le> n\<close> in simp)
    ultimately have "\<not> ticks_overflow n phase" using N(1) by (simp add: ticks_overflow_def)
    moreover have "n \<le> longest_seconds" using N(1) interval_longest(2) by (rule order_trans)
    then have "seconds_of n = Some (n * 1000000)" using \<open>1 \<le> n\<close> by (intro seconds_fit) simp_all
    moreover have "seconds_of phase = Some (phase * 1000000)" by (rule seconds_fit [OF p0 P(1)])
    moreover have "n * 1000000 \<le> max_interval" using mult_right_mono [OF N(1), of 1000000] interval_longest(1) by simp
    ultimately show ?thesis using False fields n(2) \<open>1 \<le> n\<close> \<open>phase < n\<close> p0
      by (simp add: row_trigger_def the_default_def interval_ok_def min_interval_def)
  qed
qed

lemma times_of_valid:
  assumes t: "time_errors fw d = []" and row: "stored_as fw k now d = Some row"
  shows "bound_mismatch fw ''start_time'' (Some (sr_start row)) @ bound_mismatch fw ''end_time'' (sr_end row) = []"
proof -
  from row obtain s where s: "df_start d = Bound s" "sr_start row = kept_time fw s"
    and e: "sr_end row = (case df_end d of Bound e \<Rightarrow> Some (kept_time fw e) | _ \<Rightarrow> None)"
    by (auto simp: stored_as_def Let_def split: option.splits bound.splits if_splits)
  have stray: "stray_bound fw (df_start d) (df_end d) = []" and b: "bound_errors fw [] ''start_time'' (df_start d) = []"
    "bound_errors fw [] ''end_time'' (df_end d) = []" using t by (auto simp: time_errors_def Let_def)
  have aware: "is_aware (kept_time fw u) = fw_use_tz fw" if "bound_errors fw [] name (Bound u) = []" for u name
    using that by (auto simp: bound_errors_def kept_time_def split: if_splits)
  show ?thesis using aware b s e by (auto simp: bound_mismatch_def split: bound.splits)
qed

lemma arguments_of_valid:
  assumes a: "argument_errors fw d = []" and row: "stored_as fw k now d = Some row"
    and kd: "map_of (fw_registry fw) (df_task_key d) = Some kd"
  shows "\<exists>args. row_arguments fw kd row = Inr args"
proof -
  from row have "sr_arguments row = df_arguments d"
    by (auto simp: stored_as_def Let_def split: option.splits bound.splits if_splits)
  with a kd show ?thesis
    by (auto simp: row_arguments_def argument_errors_def split: pyval.splits option.splits sum.splits if_splits)
qed

lemma valid_row_builds:
  assumes own: "fw_own_low fw = Some l" "0 \<le> l"
    and v: "validate_schedule fw True d = []" and row: "stored_as fw k now d = Some row"
    and valid: "\<forall>kd \<in> snd ` set (fw_registry fw). td_backend (kd_task kd) = backend \<or> fw_valid_task fw ((kd_task kd)\<lparr>td_backend := backend\<rparr>)"
  shows "\<exists>s. to_schedule fw backend row = Inr s \<and> trigger_ok (sched_trigger s)
    \<and> start_time s = Some (time_micros (sr_start row)) \<and> end_time s = map_option time_micros (sr_end row)
    \<and> starting_deadline s = map_option (\<lambda>n. n * 1000000) (sr_deadline row) \<and> dispatch_key s = stored_key_prefix @ nat_text k"
proof -
  note V = validate_Nil [OF v]
  from V(1) obtain kd where kd: "map_of (fw_registry fw) (df_task_key d) = Some kd" by blast
  then have "(df_task_key d, kd) \<in> set (fw_registry fw)" by (rule map_of_SomeD)
  then have task: "td_backend (kd_task kd) = backend \<or> fw_valid_task fw ((kd_task kd)\<lparr>td_backend := backend\<rparr>)"
    using valid by force
  from row obtain deadline where dl: "taken_optional fw (df_deadline d) = Some deadline" "sr_deadline row = deadline"
    and key: "sr_task_key row = df_task_key d" "sr_pk row = k"
    by (auto simp: stored_as_def Let_def split: option.splits bound.splits if_splits)
  have seconds: "map_option seconds_of deadline = map_option (\<lambda>n. Some (n * 1000000)) deadline"
  proof (cases deadline)
    case (Some n)
    with dl(1) have n: "taken_number fw (df_deadline d) = Some n" by (auto simp: taken_optional_def split: if_splits)
    note N = taken_in_range [OF n range_Nil(3) [OF V(6)]]
    have "1 \<le> n" using V(3) N(3) by (simp add: deadline_errors_def split: if_splits)
    with N(1) Some show ?thesis by (simp add: seconds_fit)
  qed simp
  obtain tr where tr: "row_trigger row = Inr tr" "trigger_ok tr" using trigger_of_valid [OF own V(2,6) row] by blast
  obtain args where args: "row_arguments fw kd row = Inr args" using arguments_of_valid [OF V(5) row kd] by blast
  show ?thesis
    using kd key task seconds tr args times_of_valid [OF V(4) row] dl(2)
    by (auto simp: to_schedule_def Let_def rbind_def split: option.splits)
qed

section \<open>A built row derives its ticks\<close>

lemma built_interval_ticks:
  assumes b: "row_trigger r = Inr (IntervalTrigger e p)" and pos: "\<forall>n. sr_every r = Some n \<longrightarrow> 0 \<le> n" "0 \<le> sr_phase r"
    and dt: "full_dt dt" "\<not> dt_aware dt" "micros interval_epoch \<le> micros dt"
  shows "\<exists>t. interval_previous e p dt = Inr t"
proof -
  from b obtain n where n: "sr_every r = Some n" "n \<noteq> 0" "\<not> ticks_overflow n (sr_phase r)" "e = n * 1000000" "p = sr_phase r * 1000000"
    by (auto simp: row_trigger_def Let_def seconds_of_def the_default_def split: if_splits sum.splits option.splits)
  let ?x = "micros dt - micros interval_epoch - p" and ?c = "- (- sr_phase r div n)"
  let ?q = "?x div e * e"
  have n0: "0 < n" using pos(1) n(1,2) by fastforce
  have e0: "0 < e" and p0: "0 \<le> p" using n0 n(4,5) pos(2) by simp_all
  have "- p \<le> ?x" using dt(3) by simp
  then have "(- p) div e \<le> ?x div e" using e0 by (rule zdiv_mono1)
  moreover have "(- p) div e = - sr_phase r div n" unfolding n(4,5)
    using div_mult_mult1_if [of 1000000 "- sr_phase r" n] by (simp add: mult.commute)
  ultimately have "- ?c * e \<le> ?q" using e0 by (intro mult_right_mono) simp_all
  moreover have "?c * e \<le> max_interval"
  proof -
    have "?c * n \<le> longest_interval_seconds" using n(3) by (simp add: ticks_overflow_def)
    then have "?c * n * 1000000 \<le> longest_interval_seconds * 1000000" by (intro mult_right_mono) simp_all
    then show ?thesis using interval_longest(1) n(4) by (simp add: mult.assoc)
  qed
  ultimately have lo: "first_micro \<le> micros interval_epoch + ?q" using micros_epoch by simp
  have "?q \<le> ?x" using e0 by (simp add: minus_mod_eq_div_mult [symmetric])
  then have hi: "micros interval_epoch + ?q \<le> last_micro" "micros interval_epoch + ?q + p \<le> last_micro"
    using micros_range [OF dt(1)] p0 by linarith+
  obtain s where s: "add_micros interval_epoch ?q = Inr s"
    using of_micros_ok [OF lo hi(1)] by (auto simp: add_micros_def)
  then have "micros s = micros interval_epoch + ?q" using micros_of_micros by (simp add: add_micros_def)
  then obtain t where "add_micros s p = Inr t"
    using of_micros_ok [of "micros s + p"] lo hi p0 by (auto simp: add_micros_def)
  with s dt(2) e0 show ?thesis by (simp add: interval_previous_def Let_def)
qed

end
