(* ===== verification/StoredWrites.thy ===== *)
theory StoredWrites
  imports StoredFacts
begin

text \<open>
  The write functions of \<open>stored.py\<close>: creating one row or a batch, updating, pausing and deleting, with the
  permission asked, and the change marker every one of them moves.  A row is locked while it is read and written; a
  name is checked before it is written, and what others commit in between is a parameter (\<open>others\<close>).
\<close>

section \<open>The table\<close>

record store =
  st_rows :: "stored_row list"
  st_changed :: "int option"   \<comment> \<open>the change marker\<close>
  st_next :: nat

definition row_named :: "store \<Rightarrow> string \<Rightarrow> bool" where
  "row_named st name = (name \<in> set (map sr_name (st_rows st)))"

definition find_row :: "nat \<Rightarrow> store \<Rightarrow> stored_row option" where
  "find_row k st = find (\<lambda>r. sr_pk r = k) (st_rows st)"

definition set_row :: "stored_row \<Rightarrow> store \<Rightarrow> store" where
  "set_row r st = st\<lparr>st_rows := map (\<lambda>q. if sr_pk q = sr_pk r then r else q) (st_rows st)\<rparr>"

definition touch_change_row :: "int \<Rightarrow> store \<Rightarrow> store" where
  "touch_change_row now st = st\<lparr>st_changed := Some now\<rparr>"

definition now_time :: "stored_fw \<Rightarrow> int \<Rightarrow> py_time" where
  "now_time fw now = (if fw_use_tz fw then AwareTime now else NaiveTime now)"

section \<open>Fields and permissions\<close>

definition timing_fields :: "string list" where
  "timing_fields = [''trigger'', ''cron'', ''every_seconds'', ''phase_seconds'']"

definition writable_fields :: "string list" where
  "writable_fields = [''name'', ''task_key'', ''trigger'', ''cron'', ''every_seconds'', ''phase_seconds'', ''arguments'',
     ''enabled'', ''end_time'', ''starting_deadline_seconds'']"

definition creatable_fields :: "string list" where
  "creatable_fields = writable_fields @ [''start_time'']"

definition not_writable :: "string list \<Rightarrow> string list \<Rightarrow> string list" where
  "not_writable allowed given = sort (remdups (filter (\<lambda>k. k \<notin> set allowed) given))"

record user =
  us_active :: bool
  us_superuser :: bool
  us_has :: "string \<Rightarrow> bool"
  us_has_on :: "string \<Rightarrow> stored_row \<Rightarrow> bool"

text \<open>\<open>check_permission\<close>, True when it does not raise.\<close>

definition permitted :: "stored_fw \<Rightarrow> user option \<Rightarrow> stored_row \<Rightarrow> bool" where
  "permitted fw user r =
     (case Option.bind (map_of (fw_registry fw) (sr_task_key r)) kd_permission of
        None \<Rightarrow> True
      | Some p \<Rightarrow> (case user of None \<Rightarrow> True | Some u \<Rightarrow> us_has u p \<or> us_has_on u p r))"

text \<open>\<open>_may_change\<close>\<close>

definition may_change :: "stored_fw \<Rightarrow> user option \<Rightarrow> stored_row \<Rightarrow> bool" where
  "may_change fw user r =
     (case user of
        None \<Rightarrow> True
      | Some u \<Rightarrow>
          if map_of (fw_registry fw) (sr_task_key r) = None then us_active u \<and> us_superuser u
          else permitted fw user r)"

datatype row_error = FieldsRefused | RulesRefused "(string \<times> sched_rule list) list" | NameTaken | NameRepeated nat

datatype write_error =
    FieldsNotTaken "string list" | Invalid "row_error list" | PermissionRefused | DuplicateName
  | BatchFieldsNotTaken nat "string list" | BatchInvalid "(nat \<times> row_error) list" | BatchRefused "nat list"
  | DuplicateInBatch nat | NoSuchRow

section \<open>Creating\<close>

definition unsaved :: "stored_fw \<Rightarrow> int \<Rightarrow> string list \<Rightarrow> draft \<Rightarrow> draft" where
  "unsaved fw now given d = (if ''start_time'' \<in> set given then d else d\<lparr>df_start := Bound (now_time fw now)\<rparr>)"

text \<open>
  What \<open>full_clean\<close> finds in a row, whether its name is taken aside: that a column does not hold what was given, and
  what the rules find.
\<close>

definition clean_errors :: "stored_fw \<Rightarrow> draft \<Rightarrow> row_error list" where
  "clean_errors fw d =
     (if stored_as fw 0 0 d = None then [FieldsRefused] else [])
     @ (let found = validate_schedule fw True d in if found = [] then [] else [RulesRefused found])"

definition creation_errors :: "stored_fw \<Rightarrow> store \<Rightarrow> draft \<Rightarrow> row_error list" where
  "creation_errors fw st d = clean_errors fw d @ (if row_named st (df_name d) then [NameTaken] else [])"

text \<open>The row to write, its digest over the values that will be stored.\<close>

definition new_row :: "stored_fw \<Rightarrow> nat \<Rightarrow> int \<Rightarrow> draft \<Rightarrow> stored_row" where
  "new_row fw k now d = (let r = the (stored_as fw k now d) in r\<lparr>sr_boundary_for := boundary_digest fw r\<rparr>)"

text \<open>INSERT; None is the unique index's refusal.\<close>

definition insert_schedule :: "stored_fw \<Rightarrow> int \<Rightarrow> draft \<Rightarrow> store \<Rightarrow> store option" where
  "insert_schedule fw now d st =
     (if row_named st (df_name d) then None
      else Some (st\<lparr>st_rows := st_rows st @ [new_row fw (st_next st) now d], st_next := Suc (st_next st)\<rparr>))"

definition create_schedule :: "stored_fw \<Rightarrow> user option \<Rightarrow> (store \<Rightarrow> store) \<Rightarrow> int \<Rightarrow> string list \<times> draft \<Rightarrow> store
    \<Rightarrow> (write_error + unit) \<times> store" where
  "create_schedule fw user others now x st =
     (case x of (given, caller) \<Rightarrow>
       let refused = not_writable creatable_fields given; d = unsaved fw now given caller in
       if refused \<noteq> [] then (Inl (FieldsNotTaken refused), st)
       else if creation_errors fw st d \<noteq> [] then (Inl (Invalid (creation_errors fw st d)), st)
       else if \<not> permitted fw user (new_row fw 0 now d) then (Inl PermissionRefused, st)
       else let st1 = others st in
         (case insert_schedule fw now d st1 of
            None \<Rightarrow> (Inl DuplicateName, st1)
          | Some st2 \<Rightarrow> (Inr (), touch_change_row now st2)))"

text \<open>
  The failures of a batch: each row's own, and a name an earlier row of the batch carries.  \<open>named\<close> are the acceptable
  names so far with the position each was first seen at.
\<close>

fun batch_failures :: "stored_fw \<Rightarrow> store \<Rightarrow> (string \<times> nat) list \<Rightarrow> nat \<Rightarrow> draft list \<Rightarrow> (nat \<times> row_error) list" where
  "batch_failures fw st named i [] = []"
| "batch_failures fw st named i (d # ds) =
     (let name_ok = (name_taken d \<and> \<not> row_named st (df_name d));
          repeated = (case map_of named (df_name d) of Some j \<Rightarrow> if name_ok then [NameRepeated j] else [] | None \<Rightarrow> []);
          named' = (if name_ok \<and> map_of named (df_name d) = None then (df_name d, i) # named else named) in
      map (Pair i) (creation_errors fw st d @ repeated) @ batch_failures fw st named' (Suc i) ds)"

fun insert_batch :: "stored_fw \<Rightarrow> int \<Rightarrow> nat \<Rightarrow> draft list \<Rightarrow> store \<Rightarrow> write_error + store" where
  "insert_batch fw now i [] st = Inr st"
| "insert_batch fw now i (d # ds) st =
     (case insert_schedule fw now d st of
        None \<Rightarrow> Inl (DuplicateInBatch i)
      | Some st1 \<Rightarrow> insert_batch fw now (Suc i) ds st1)"

definition batch_not_taken :: "(string list \<times> draft) list \<Rightarrow> (nat \<times> string list) list" where
  "batch_not_taken rows = filter (\<lambda>x. snd x \<noteq> []) (map (\<lambda>(i, given, d). (i, not_writable creatable_fields given)) (enumerate 0 rows))"

definition create_schedules :: "stored_fw \<Rightarrow> user option \<Rightarrow> (store \<Rightarrow> store) \<Rightarrow> int \<Rightarrow> (string list \<times> draft) list \<Rightarrow> store
    \<Rightarrow> (write_error + unit) \<times> store" where
  "create_schedules fw user others now rows st =
     (if rows = [] then (Inr (), st)
      else case batch_not_taken rows of
        (i, refused) # _ \<Rightarrow> (Inl (BatchFieldsNotTaken i refused), st)
      | [] \<Rightarrow>
          let drafts = map (\<lambda>(given, d). unsaved fw now given d) rows;
              failures = batch_failures fw st [] 0 drafts;
              denied = map fst (filter (\<lambda>(i, d). \<not> permitted fw user (new_row fw 0 now d)) (enumerate 0 drafts)) in
          if failures \<noteq> [] then (Inl (BatchInvalid failures), st)
          else if denied \<noteq> [] then (Inl (BatchRefused denied), st)
          else let st1 = others st in
            (case insert_batch fw now 0 drafts st1 of
               Inl e \<Rightarrow> (Inl e, st1)
             | Inr st2 \<Rightarrow> (Inr (), touch_change_row now st2)))"

section \<open>Updating and pausing\<close>

definition draft_of :: "stored_row \<Rightarrow> draft" where
  "draft_of r = \<lparr>df_name = sr_name r, df_task_key = sr_task_key r, df_trigger = sr_trigger r, df_cron = sr_cron r,
     df_every = (case sr_every r of None \<Rightarrow> PyNone | Some n \<Rightarrow> PyInt n), df_phase = PyInt (sr_phase r),
     df_arguments = sr_arguments r, df_enabled = sr_enabled r, df_start = Bound (sr_start r),
     df_end = (case sr_end r of None \<Rightarrow> NoBound | Some t \<Rightarrow> Bound t),
     df_deadline = (case sr_deadline r of None \<Rightarrow> PyNone | Some n \<Rightarrow> PyInt n)\<rparr>"

text \<open>
  A number as \<open>stored_value\<close> reads it, what its column will hold whatever the caller passed; None where the field's
  \<open>to_python\<close> refuses it (\<open>_refused\<close>).
\<close>

definition column_value :: "stored_fw \<Rightarrow> pyval \<Rightarrow> pyval option" where
  "column_value fw v = (if v = PyNone then Some PyNone else fw_to_int fw v)"

definition stored_timing :: "stored_fw \<Rightarrow> draft \<Rightarrow> string \<times> string \<times> pyval option \<times> pyval option" where
  "stored_timing fw d = (df_trigger d, df_cron d, column_value fw (df_every d), column_value fw (df_phase d))"

definition timing_refused :: "stored_fw \<Rightarrow> draft \<Rightarrow> bool" where
  "timing_refused fw d = (column_value fw (df_every d) = None \<or> column_value fw (df_phase d) = None)"

definition stale_boundary :: "stored_fw \<Rightarrow> stored_row \<Rightarrow> bool" where
  "stale_boundary fw r = (sr_boundary_for r \<noteq> boundary_digest fw r)"

text \<open>Its boundary moved to \<open>now\<close>, and the write counted.\<close>

definition with_boundary :: "stored_fw \<Rightarrow> int \<Rightarrow> stored_row \<Rightarrow> stored_row" where
  "with_boundary fw now r = r\<lparr>sr_start := now_time fw now, sr_generation := Suc (sr_generation r)\<rparr>"

definition disable_schedule :: "stored_fw \<Rightarrow> user option \<Rightarrow> int \<Rightarrow> nat \<Rightarrow> store \<Rightarrow> (write_error + unit) \<times> store" where
  "disable_schedule fw user now k st =
     (case find_row k st of
        None \<Rightarrow> (Inl NoSuchRow, st)
      | Some r \<Rightarrow>
          if \<not> may_change fw user r then (Inl PermissionRefused, st)
          else
            let off = r\<lparr>sr_enabled := False\<rparr>;
                moved_row = (if stale_boundary fw r then with_boundary fw now off else off);
                written = moved_row\<lparr>sr_boundary_for := boundary_digest fw off, sr_updated_at := now\<rparr> in
            (Inr (), touch_change_row now (set_row written st)))"

text \<open>\<open>_disables_only\<close>\<close>

definition disables_only :: "string list \<Rightarrow> draft \<Rightarrow> bool" where
  "disables_only given d = (set given = {''enabled''} \<and> \<not> df_enabled d)"

text \<open>\<open>change\<close> sets the fields \<open>given\<close> on the locked row's instance, and nothing else.\<close>

definition fresh_boundary :: "stored_fw \<Rightarrow> draft \<Rightarrow> stored_row \<Rightarrow> bool" where
  "fresh_boundary fw d r =
     (let retimed = stored_timing fw d \<noteq> stored_timing fw (draft_of r);
          resumed = (df_enabled d \<and> \<not> sr_enabled r) in
      retimed \<or> resumed \<or> stale_boundary fw r)"

definition change_errors :: "stored_fw \<Rightarrow> store \<Rightarrow> nat \<Rightarrow> draft \<Rightarrow> row_error list" where
  "change_errors fw st k d = clean_errors fw d
     @ (if \<exists>q \<in> set (st_rows st). sr_pk q \<noteq> k \<and> sr_name q = df_name d then [NameTaken] else [])"

definition update_schedule :: "stored_fw \<Rightarrow> user option \<Rightarrow> int \<Rightarrow> string list \<Rightarrow> (draft \<Rightarrow> draft) \<Rightarrow> nat \<Rightarrow> store
    \<Rightarrow> (write_error + unit) \<times> store" where
  "update_schedule fw user now given change k st =
     (let refused = not_writable writable_fields given in
      if refused \<noteq> [] then (Inl (FieldsNotTaken refused), st)
      else case find_row k st of
        None \<Rightarrow> (Inl NoSuchRow, st)
      | Some r \<Rightarrow>
          let d = change (draft_of r) in
          if disables_only given d then disable_schedule fw user now k st
          else if \<not> may_change fw user r then (Inl PermissionRefused, st)
          else if timing_refused fw d then (Inl (Invalid (change_errors fw st k d)), st)
          else
            let fresh = fresh_boundary fw d r;
                d1 = (if fresh then d\<lparr>df_start := Bound (now_time fw now)\<rparr> else d) in
            if change_errors fw st k d1 \<noteq> [] then (Inl (Invalid (change_errors fw st k d1)), st)
            else
              let q = the (stored_as fw k now d1);
                  kept = q\<lparr>sr_created_at := sr_created_at r, sr_start := sr_start r, sr_generation := sr_generation r\<rparr>;
                  written = (if fresh then with_boundary fw now kept else kept)\<lparr>sr_boundary_for := boundary_digest fw q\<rparr> in
              if \<not> permitted fw user written then (Inl PermissionRefused, st)
              else (Inr (), touch_change_row now (set_row written st)))"

section \<open>Deleting\<close>

definition delete_schedule :: "stored_fw \<Rightarrow> user option \<Rightarrow> int \<Rightarrow> nat \<Rightarrow> store \<Rightarrow> (write_error + unit) \<times> store" where
  "delete_schedule fw user now k st =
     (if (case find_row k st of None \<Rightarrow> False | Some r \<Rightarrow> \<not> may_change fw user r) then (Inl PermissionRefused, st)
      else (Inr (), touch_change_row now (st\<lparr>st_rows := filter (\<lambda>r. sr_pk r \<noteq> k) (st_rows st)\<rparr>)))"

text \<open>\<open>_delete_schedules\<close>: every row found is asked before any is deleted.\<close>

definition delete_schedules :: "stored_fw \<Rightarrow> user option \<Rightarrow> int \<Rightarrow> nat list \<Rightarrow> store \<Rightarrow> (write_error + unit) \<times> store" where
  "delete_schedules fw user now ks st =
     (if ks = [] then (Inr (), st)
      else if \<exists>r \<in> set (st_rows st). sr_pk r \<in> set ks \<and> \<not> may_change fw user r then (Inl PermissionRefused, st)
      else (Inr (), touch_change_row now (st\<lparr>st_rows := filter (\<lambda>r. sr_pk r \<notin> set ks) (st_rows st)\<rparr>)))"

section \<open>A batch is its rows one after the other\<close>

fun create_each :: "stored_fw \<Rightarrow> user option \<Rightarrow> int \<Rightarrow> (string list \<times> draft) list \<Rightarrow> store \<Rightarrow> store option" where
  "create_each fw user now [] st = Some st"
| "create_each fw user now (x # xs) st =
     (case create_schedule fw user (\<lambda>t. t) now x st of
        (Inl e, st1) \<Rightarrow> None
      | (Inr u, st1) \<Rightarrow> create_each fw user now xs st1)"

text \<open>What makes a batch acceptable in a store, and the store it makes.\<close>

definition rows_acceptable :: "stored_fw \<Rightarrow> user option \<Rightarrow> int \<Rightarrow> (string list \<times> draft) list \<Rightarrow> store \<Rightarrow> bool" where
  "rows_acceptable fw user now rows st = ((\<forall>x \<in> set rows. not_writable creatable_fields (fst x) = [])
     \<and> (\<forall>x \<in> set rows. let d = unsaved fw now (fst x) (snd x) in
          clean_errors fw d = [] \<and> permitted fw user (new_row fw 0 now d) \<and> \<not> row_named st (df_name d))
     \<and> distinct (map (\<lambda>x. df_name (snd x)) rows))"

fun added :: "stored_fw \<Rightarrow> int \<Rightarrow> draft list \<Rightarrow> store \<Rightarrow> store" where
  "added fw now [] st = st"
| "added fw now (d # ds) st = added fw now ds (st\<lparr>st_rows := st_rows st @ [new_row fw (st_next st) now d], st_next := Suc (st_next st)\<rparr>)"

lemma stored_name: "stored_as fw k now d = Some r \<Longrightarrow> sr_name r = df_name d \<and> sr_pk r = k \<and> texts_taken d"
  by (auto simp: stored_as_def Let_def split: option.splits bound.splits if_splits)

lemma stored_any_key: "stored_as fw k now d = None \<longleftrightarrow> stored_as fw 0 0 d = None"
  by (auto simp: stored_as_def Let_def split: option.splits bound.splits)

lemma new_row_name: "clean_errors fw d = [] \<Longrightarrow> sr_name (new_row fw k now d) = df_name d \<and> sr_pk (new_row fw k now d) = k \<and> texts_taken d"
  using stored_name [of fw k now d] stored_any_key [of fw k now d]
  by (cases "stored_as fw k now d") (auto simp: clean_errors_def new_row_def Let_def split: if_splits)

lemma unsaved_name [simp]: "df_name (unsaved fw now given d) = df_name d"
  by (simp add: unsaved_def)

lemma touch_later: "(touch_change_row t st)\<lparr>st_rows := rs, st_next := n\<rparr> = touch_change_row t (st\<lparr>st_rows := rs, st_next := n\<rparr>)"
  "st_rows (touch_change_row t st) = st_rows st" "st_next (touch_change_row t st) = st_next st"
  by (cases st, simp_all add: touch_change_row_def)

lemma added_touch: "added fw now ds (touch_change_row t st) = touch_change_row t (added fw now ds st)"
  by (induction fw now ds st rule: added.induct) (simp_all only: added.simps touch_later)

lemma row_named_touch [simp]: "row_named (touch_change_row t st) = row_named st"
  by (simp add: row_named_def touch_change_row_def fun_eq_iff)

lemma touch_twice [simp]: "touch_change_row t (touch_change_row t st) = touch_change_row t st"
  by (simp add: touch_change_row_def)

lemma batch_failures_Nil:
  "batch_failures fw st named i ds = [] \<longleftrightarrow>
    (\<forall>d \<in> set ds. clean_errors fw d = [] \<and> \<not> row_named st (df_name d)) \<and> distinct (map df_name ds)
    \<and> df_name ` set ds \<inter> fst ` set named = {}"
proof (induction ds arbitrary: named i)
  case (Cons d ds)
  show ?case
  proof (cases "clean_errors fw d = [] \<and> \<not> row_named st (df_name d)")
    case True
    then have ok: "name_taken d" using new_row_name [of fw d] by (simp add: texts_taken_def)
    show ?thesis
    proof (cases "map_of named (df_name d)")
      case None
      then have "df_name d \<notin> fst ` set named" by (simp add: map_of_eq_None_iff)
      with None ok True show ?thesis by (auto simp: creation_errors_def Let_def Cons.IH)
    next
      case (Some j)
      then have "df_name d \<in> fst ` set named" by (force dest: map_of_SomeD)
      with Some ok True show ?thesis by (auto simp: creation_errors_def Let_def)
    qed
  qed (auto simp: creation_errors_def Let_def)
qed simp

lemma insert_batch_added:
  assumes "\<forall>d \<in> set ds. clean_errors fw d = [] \<and> \<not> row_named st (df_name d)" "distinct (map df_name ds)"
  shows "insert_batch fw now i ds st = Inr (added fw now ds st)"
  using assms
proof (induction ds arbitrary: i st)
  case (Cons d ds)
  let ?s = "st\<lparr>st_rows := st_rows st @ [new_row fw (st_next st) now d], st_next := Suc (st_next st)\<rparr>"
  have n: "sr_name (new_row fw (st_next st) now d) = df_name d" using Cons.prems(1) new_row_name by simp
  have "df_name e \<noteq> df_name d" if "e \<in> set ds" for e
    using Cons.prems(2) imageI [OF that, of df_name] by auto
  then have "\<forall>e \<in> set ds. clean_errors fw e = [] \<and> \<not> row_named ?s (df_name e)"
    using Cons.prems by (simp add: row_named_def n)
  with Cons.IH [of ?s] Cons.prems show ?case by (simp add: insert_schedule_def)
qed simp

lemma create_each_added:
  "create_each fw user now rows st = (if rows_acceptable fw user now rows st
     then Some (if rows = [] then st else touch_change_row now (added fw now (map (\<lambda>(given, d). unsaved fw now given d) rows) st)) else None)"
proof (induction rows arbitrary: st)
  case (Cons x rows)
  obtain given c where x: "x = (given, c)" by fastforce
  let ?d = "unsaved fw now given c"
  let ?good = "not_writable creatable_fields given = [] \<and> clean_errors fw ?d = [] \<and> \<not> row_named st (df_name ?d)
    \<and> permitted fw user (new_row fw 0 now ?d)"
  let ?s = "st\<lparr>st_rows := st_rows st @ [new_row fw (st_next st) now ?d], st_next := Suc (st_next st)\<rparr>"
  have one: "create_schedule fw user (\<lambda>t. t) now x st = (if ?good then (Inr (), touch_change_row now ?s)
      else (fst (create_schedule fw user (\<lambda>t. t) now x st), st))"
    "\<not> ?good \<Longrightarrow> \<exists>e. fst (create_schedule fw user (\<lambda>t. t) now x st) = Inl e"
    by (auto simp: create_schedule_def x Let_def creation_errors_def insert_schedule_def split: if_splits)
  show ?case
  proof (cases ?good)
    case True
    then have n: "sr_name (new_row fw (st_next st) now ?d) = df_name c" using new_row_name by simp
    have other: "df_name c \<notin> (\<lambda>y. df_name (snd y)) ` set rows \<longleftrightarrow> (\<forall>y \<in> set rows. df_name (snd y) \<noteq> df_name c)"
      by (metis (mono_tags, lifting) imageE imageI)
    have named: "row_named (touch_change_row now ?s) m \<longleftrightarrow> m = df_name c \<or> row_named st m" for m
      using n by (auto simp: row_named_def)
    have ok: "rows_acceptable fw user now (x # rows) st \<longleftrightarrow> rows_acceptable fw user now rows (touch_change_row now ?s)"
      using True unfolding rows_acceptable_def x Let_def named unsaved_name by (simp add: other) blast
    have "create_each fw user now (x # rows) st = create_each fw user now rows (touch_change_row now ?s)"
      using one(1) True by simp
    then show ?thesis unfolding Cons.IH using ok by (simp add: x added_touch)
  next
    case False
    then obtain e where "create_schedule fw user (\<lambda>t. t) now x st = (Inl e, st)" using one by (metis prod.collapse snd_conv)
    moreover have "\<not> rows_acceptable fw user now (x # rows) st" using False by (auto simp: rows_acceptable_def x Let_def)
    ultimately show ?thesis by simp
  qed
qed (simp add: rows_acceptable_def)

lemma enumerate_all: "(\<forall>x \<in> set (enumerate k xs). P (snd x)) \<longleftrightarrow> (\<forall>x \<in> set xs. P x)"
  by (induction xs arbitrary: k) auto

lemma create_schedules_added:
  "create_schedules fw user (\<lambda>t. t) now rows st = (Inr (), st') \<longleftrightarrow> create_each fw user now rows st = Some st'"
proof (cases "rows = []")
  case False
  let ?ds = "map (\<lambda>(given, d). unsaved fw now given d) rows"
  have taken: "batch_not_taken rows = [] \<longleftrightarrow> (\<forall>x \<in> set rows. not_writable creatable_fields (fst x) = [])"
    using enumerate_all [where P = "\<lambda>x. not_writable creatable_fields (fst x) = []"]
    by (simp add: batch_not_taken_def filter_map comp_def split_beta filter_empty_conv)
  have fails: "batch_failures fw st [] 0 ?ds = [] \<longleftrightarrow> (\<forall>x \<in> set rows. clean_errors fw (unsaved fw now (fst x) (snd x)) = []
      \<and> \<not> row_named st (df_name (unsaved fw now (fst x) (snd x)))) \<and> distinct (map (\<lambda>x. df_name (snd x)) rows)"
    unfolding batch_failures_Nil by (auto simp: comp_def split_beta)
  have denied: "map fst (filter (\<lambda>(i, d). \<not> permitted fw user (new_row fw 0 now d)) (enumerate 0 ?ds)) = []
      \<longleftrightarrow> (\<forall>x \<in> set rows. permitted fw user (new_row fw 0 now (unsaved fw now (fst x) (snd x))))"
    using enumerate_all [where P = "\<lambda>d. permitted fw user (new_row fw 0 now d)"]
    by (simp add: split_beta filter_empty_conv)
  have ok: "rows_acceptable fw user now rows st \<longleftrightarrow> batch_not_taken rows = [] \<and> batch_failures fw st [] 0 ?ds = []
      \<and> map fst (filter (\<lambda>(i, d). \<not> permitted fw user (new_row fw 0 now d)) (enumerate 0 ?ds)) = []"
    unfolding rows_acceptable_def Let_def taken fails denied by blast
  have ins: "insert_batch fw now 0 ?ds st = Inr (added fw now ?ds st)" if "batch_failures fw st [] 0 ?ds = []"
    using that unfolding batch_failures_Nil by (intro insert_batch_added) simp_all
  show ?thesis unfolding create_each_added ok using False ins
    by (auto simp: create_schedules_def Let_def split: list.split)
qed (auto simp: create_schedules_def)

end
