(* ===== verification/StoredSource.thy ===== *)
theory StoredSource
  imports StoredWrites Dispatch
begin

text \<open>
  \<open>DatabaseScheduleSource\<close> (\<open>stored.py\<close>): what one worker keeps of the stored schedules, the read of every row, the
  boundaries it has found stale and moves, and the row read again under its lock when a tick of it is dispatched.

  Each block of statements under a row's lock is one definition over the table as it is then; what others commit
  before it, and whether the database refuses it, are arguments.  Rows are rows that read; the log lines, and the
  counts that hold them back, are left out.
\<close>

section \<open>The source\<close>

text \<open>A boundary as a worker saw it: the digest column, the start time and the count of boundary writes.\<close>

type_synonym boundary = "string \<times> py_time \<times> nat"

definition boundary_of :: "stored_row \<Rightarrow> boundary" where
  "boundary_of r = (sr_boundary_for r, sr_start r, sr_generation r)"

datatype marker = MarkerUnread | MarkerAt "int option" | MarkerUnreadable

record source =
  so_cached :: "schedule list"
  so_keys :: "string set"
  so_seen :: marker
  so_heal :: "(nat \<times> boundary) list"
  so_last :: "int option"

definition new_source :: source where
  "new_source = \<lparr>so_cached = [], so_keys = {}, so_seen = MarkerUnread, so_heal = [], so_last = None\<rparr>"

definition row_key :: "nat \<Rightarrow> string" where
  "row_key k = stored_key_prefix @ nat_text k"

definition drop_sighting :: "nat \<Rightarrow> source \<Rightarrow> source" where
  "drop_sighting k src = src\<lparr>so_heal := AList.delete k (so_heal src)\<rparr>"

definition sight :: "stored_row \<Rightarrow> (nat \<times> boundary) list \<Rightarrow> (nat \<times> boundary) list" where
  "sight r held = AList.update (sr_pk r) (boundary_of r) held"

section \<open>Moving a stale boundary\<close>

text \<open>
  One row of \<open>_heal\<close>, in its own transaction: \<open>Settled\<close> with the table, or \<open>HealFailed\<close>, rolled back by the database,
  where the sighting stays.
\<close>

datatype heal_end = Settled | HealFailed

definition heal_row :: "stored_fw \<Rightarrow> bool \<Rightarrow> int \<Rightarrow> nat \<Rightarrow> boundary \<Rightarrow> store \<Rightarrow> heal_end \<times> store" where
  "heal_row fw fails now k observed st =
     (if fails then (HealFailed, st)
      else case find_row k st of
        None \<Rightarrow> (Settled, st)
      | Some r \<Rightarrow>
          if boundary_of r \<noteq> observed then (Settled, st)
          else (Settled, touch_change_row now
            (set_row ((with_boundary fw now r)\<lparr>sr_boundary_for := boundary_digest fw r\<rparr>) st)))"

text \<open>What the move of one row meets.\<close>

record heal_look =
  hl_before :: "store \<Rightarrow> store"
  hl_fails :: bool
  hl_now :: int

fun heal_all :: "stored_fw \<Rightarrow> (nat \<Rightarrow> heal_look) \<Rightarrow> (nat \<times> boundary) list \<Rightarrow> source \<Rightarrow> store \<Rightarrow> source \<times> store" where
  "heal_all fw looks [] src st = (src, st)"
| "heal_all fw looks ((k, observed) # held) src st =
     (case heal_row fw (hl_fails (looks k)) (hl_now (looks k)) k observed (hl_before (looks k) st) of
        (Settled, st1) \<Rightarrow> heal_all fw looks held (drop_sighting k src) st1
      | (HealFailed, st1) \<Rightarrow> heal_all fw looks held src st1)"

definition heal :: "stored_fw \<Rightarrow> (nat \<Rightarrow> heal_look) \<Rightarrow> source \<Rightarrow> store \<Rightarrow> source \<times> store" where
  "heal fw looks src st = heal_all fw looks (so_heal src) src st"

section \<open>Reading every row\<close>

text \<open>\<open>_build\<close>: in key order, a row that does not build left out, every row's key kept.\<close>

definition built_rows :: "stored_fw \<Rightarrow> string \<Rightarrow> stored_row list \<Rightarrow> schedule list" where
  "built_rows fw backend rows =
     List.map_filter (\<lambda>r. if sr_enabled r then (case to_schedule fw backend r of Inr s \<Rightarrow> Some s | Inl e \<Rightarrow> None) else None) rows"

definition sighted :: "stored_fw \<Rightarrow> stored_row list \<Rightarrow> (nat \<times> boundary) list \<Rightarrow> (nat \<times> boundary) list" where
  "sighted fw rows held = fold (\<lambda>r h. if stale_boundary fw r then sight r h else h) rows held"

definition build :: "stored_fw \<Rightarrow> string \<Rightarrow> store \<Rightarrow> source \<Rightarrow> source" where
  "build fw backend st src =
     (let rows = sort_key sr_pk (st_rows st) in
      src\<lparr>so_cached := built_rows fw backend rows, so_keys := row_key ` set (map sr_pk rows),
        so_heal := sighted fw rows (so_heal src)\<rparr>)"

text \<open>\<open>_due_for_a_full_read\<close>\<close>

definition due_for_a_full_read :: "int \<Rightarrow> int \<Rightarrow> source \<Rightarrow> bool" where
  "due_for_a_full_read interval clock src = (case so_last src of None \<Rightarrow> True | Some l \<Rightarrow> interval \<le> clock - l)"

text \<open>What one call of \<open>_rows\<close> meets; \<open>ps_marker\<close> is how the database answers the marker's read.\<close>

datatype marker_read = MarkerAnswers | MarkerUnavailable | MarkerHoldsNoDate

record pass =
  ps_first :: "nat \<Rightarrow> heal_look"
  ps_marker :: marker_read
  ps_clock :: int
  ps_before_read :: "store \<Rightarrow> store"
  ps_second :: "nat \<Rightarrow> heal_look"
  ps_before_again :: "store \<Rightarrow> store"
  ps_read_at :: int

definition rows_of :: "stored_fw \<Rightarrow> string \<Rightarrow> int \<Rightarrow> pass \<Rightarrow> source \<Rightarrow> store \<Rightarrow> schedule list \<times> source \<times> store" where
  "rows_of fw backend interval p src0 st0 =
     (let (src, st) = (if so_heal src0 = [] then (src0, st0) else heal fw (ps_first p) src0 st0);
          changed = (if ps_marker p = MarkerAnswers then MarkerAt (st_changed st) else MarkerUnreadable) in
      if ps_marker p = MarkerUnavailable \<or> (changed = so_seen src \<and> \<not> due_for_a_full_read interval (ps_clock p) src)
      then (so_cached src, src, st)
      else
        let st1 = ps_before_read p st; src1 = build fw backend st1 src;
            (src2, st2) =
              (if so_heal src1 = [] then (src1, st1)
               else let (healed, st') = heal fw (ps_second p) src1 st1; st'' = ps_before_again p st' in
                 (build fw backend st'' healed, st''));
            src3 = src2\<lparr>so_seen := changed, so_last := Some (ps_read_at p)\<rparr> in
        (so_cached src3, src3, st2))"

text \<open>\<open>schedules()\<close>: the settings' schedules first.\<close>

definition all_schedules :: "schedule list \<Rightarrow> stored_fw \<Rightarrow> string \<Rightarrow> int \<Rightarrow> pass \<Rightarrow> source \<Rightarrow> store
    \<Rightarrow> schedule list \<times> source \<times> store" where
  "all_schedules settings fw backend interval p src st =
     (case rows_of fw backend interval p src st of (rows, src1, st1) \<Rightarrow> (settings @ rows, src1, st1))"

section \<open>The row at dispatch\<close>

text \<open>\<open>_leave_out\<close>\<close>

definition leave_out :: "nat \<Rightarrow> source \<Rightarrow> source" where
  "leave_out k src = src\<lparr>so_cached := filter (\<lambda>s. dispatch_key s \<noteq> row_key k) (so_cached src)\<rparr>"

text \<open>Whether a lock that was not given is the database's contention.\<close>

definition lock_given_up :: "raised_error \<Rightarrow> bool" where
  "lock_given_up x =
     (case x of
        IntegrityFailure e \<Rightarrow> lock_contention e
      | OperationalFailure e \<Rightarrow> lock_contention e
      | OtherDatabaseFailure e \<Rightarrow> lock_contention e
      | PythonFailure text \<Rightarrow> False)"

text \<open>\<open>_current\<close>: the schedule as its row stands under its lock, or None.\<close>

definition current :: "stored_fw \<Rightarrow> string \<Rightarrow> raised_error option \<Rightarrow> nat \<Rightarrow> source \<Rightarrow> store
    \<Rightarrow> (raised_error + schedule option) \<times> source" where
  "current fw backend fault k src st =
     (case fault of
        Some x \<Rightarrow> (if lock_given_up x then Inr None else Inl x, src)
      | None \<Rightarrow>
          (case find_row k st of
             None \<Rightarrow> (Inr None, let left = leave_out k src in left\<lparr>so_keys := so_keys left - {row_key k}\<rparr>)
           | Some r \<Rightarrow>
               if \<not> sr_enabled r then
                 (Inr None, leave_out k (if stale_boundary fw r then src\<lparr>so_heal := sight r (so_heal src)\<rparr> else src))
               else if stale_boundary fw r then (Inr None, src\<lparr>so_heal := sight r (so_heal src)\<rparr>)
               else (case to_schedule fw backend r of
                  Inl e \<Rightarrow> (Inr None, leave_out k src)
                | Inr s \<Rightarrow> (Inr (Some s), src))))"

end
