(* ===== verification/StoredSys.thy ===== *)
theory StoredSys
  imports StoredSource DispatchFacts
begin

text \<open>
  The stored schedules under any interleaving of the write functions, writes made around them, and any number of
  workers' sources.  The count of boundary writes says whose boundary a row carries: the same count is the same
  boundary, and of the workers that saw one boundary stale, one moves it.
\<close>

section \<open>Steps\<close>

text \<open>Every call of a write function, whatever it returns.\<close>

datatype api_write =
    CreateOne "string list \<times> draft" | CreateMany "(string list \<times> draft) list"
  | Update "string list" "draft \<Rightarrow> draft" nat | Disable nat | Delete nat | DeleteMany "nat list"

fun written_by :: "stored_fw \<Rightarrow> user option \<Rightarrow> int \<Rightarrow> api_write \<Rightarrow> store \<Rightarrow> store" where
  "written_by fw user now (CreateOne x) st = snd (create_schedule fw user (\<lambda>t. t) now x st)"
| "written_by fw user now (CreateMany rows) st = snd (create_schedules fw user (\<lambda>t. t) now rows st)"
| "written_by fw user now (Update given change k) st = snd (update_schedule fw user now given change k st)"
| "written_by fw user now (Disable k) st = snd (disable_schedule fw user now k st)"
| "written_by fw user now (Delete k) st = snd (delete_schedule fw user now k st)"
| "written_by fw user now (DeleteMany ks) st = snd (delete_schedules fw user now ks st)"

text \<open>
  A write around the module (\<open>queryset.update\<close>, a fixture): any columns but the key and the start time, the digest
  and the count, which are this module's.
\<close>

definition around_ok :: "(stored_row \<Rightarrow> stored_row) \<Rightarrow> bool" where
  "around_ok g = (\<forall>r. sr_pk (g r) = sr_pk r \<and> boundary_of (g r) = boundary_of r)"

record schedule_system =
  sy_store :: store
  sy_sources :: "nat \<Rightarrow> source"

inductive stored_step :: "stored_fw \<Rightarrow> string \<Rightarrow> schedule_system \<Rightarrow> schedule_system \<Rightarrow> bool"
  for fw backend where
  Api: "stored_step fw backend s (s\<lparr>sy_store := written_by fw user now w (sy_store s)\<rparr>)"
| Around: "around_ok g \<Longrightarrow> stored_step fw backend s (s\<lparr>sy_store := (sy_store s)\<lparr>st_rows := map g (st_rows (sy_store s))\<rparr>\<rparr>)"
| AddAround: "sr_pk r = st_next (sy_store s) \<Longrightarrow> stored_step fw backend s
    (s\<lparr>sy_store := (sy_store s)\<lparr>st_rows := st_rows (sy_store s) @ [r], st_next := Suc (st_next (sy_store s))\<rparr>\<rparr>)"
| DropAround: "stored_step fw backend s (s\<lparr>sy_store := (sy_store s)\<lparr>st_rows := filter p (st_rows (sy_store s))\<rparr>\<rparr>)"
| Read: "stored_step fw backend s (s\<lparr>sy_sources := (sy_sources s)(i := build fw backend (sy_store s) (sy_sources s i))\<rparr>)"
| AtDispatch: "current fw backend fault k (sy_sources s i) (sy_store s) = (res, src)
    \<Longrightarrow> stored_step fw backend s (s\<lparr>sy_sources := (sy_sources s)(i := src)\<rparr>)"
| Heal: "map_of (so_heal (sy_sources s i)) k = Some observed
    \<Longrightarrow> heal_row fw fails now k observed (sy_store s) = (how, st)
    \<Longrightarrow> stored_step fw backend s (s\<lparr>sy_store := st,
      sy_sources := (sy_sources s)(i := if how = Settled then drop_sighting k (sy_sources s i) else sy_sources s i)\<rparr>)"

definition stored_run :: "stored_fw \<Rightarrow> string \<Rightarrow> schedule_system \<Rightarrow> schedule_system \<Rightarrow> bool" where
  "stored_run fw backend = (stored_step fw backend)\<^sup>*\<^sup>*"

section \<open>Keys\<close>

text \<open>A key names one row, and a key not given yet names none.\<close>

definition keys_ok :: "store \<Rightarrow> bool" where
  "keys_ok st = (distinct (map sr_pk (st_rows st)) \<and> (\<forall>r \<in> set (st_rows st). sr_pk r < st_next st))"

text \<open>
  How a table may follow another: a row of the second is a new key's, or its key was there, and its boundary is as it
  was or counted one more at least.
\<close>

definition counted_on :: "stored_row \<Rightarrow> stored_row \<Rightarrow> bool" where
  "counted_on r q = (sr_generation r < sr_generation q \<or> sr_generation q = sr_generation r \<and> sr_start q = sr_start r)"

definition follows :: "store \<Rightarrow> store \<Rightarrow> bool" where
  "follows st st' = (keys_ok st' \<and> st_next st \<le> st_next st'
     \<and> (\<forall>q \<in> set (st_rows st'). st_next st \<le> sr_pk q \<or> (\<exists>r \<in> set (st_rows st). sr_pk r = sr_pk q \<and> counted_on r q)))"

lemma counted_on_refl [simp]: "counted_on r r"
  by (simp add: counted_on_def)

lemma counted_on_trans: "counted_on a b \<Longrightarrow> counted_on b c \<Longrightarrow> counted_on a c"
  by (auto simp: counted_on_def)

lemma follows_refl: "keys_ok st \<Longrightarrow> follows st st"
  by (auto simp: follows_def)

lemma follows_trans:
  assumes "follows a b" "follows b c"
  shows "follows a c"
  unfolding follows_def
proof (intro conjI ballI)
  show "keys_ok c" "st_next a \<le> st_next c" using assms by (auto simp: follows_def)
  fix q assume "q \<in> set (st_rows c)"
  with assms(2) consider "st_next b \<le> sr_pk q" | r where "r \<in> set (st_rows b)" "sr_pk r = sr_pk q" "counted_on r q"
    by (auto simp: follows_def)
  then show "st_next a \<le> sr_pk q \<or> (\<exists>r \<in> set (st_rows a). sr_pk r = sr_pk q \<and> counted_on r q)"
  proof cases
    case 1
    then show ?thesis using assms(1) by (simp add: follows_def)
  next
    case 2
    from assms(1) 2(1) consider "st_next a \<le> sr_pk r" | p where "p \<in> set (st_rows a)" "sr_pk p = sr_pk r" "counted_on p r"
      by (auto simp: follows_def)
    then show ?thesis using 2 counted_on_trans by cases fastforce+
  qed
qed

lemma key_given: "keys_ok st \<Longrightarrow> r \<in> set (st_rows st) \<Longrightarrow> sr_pk r < st_next st"
  by (simp add: keys_ok_def)

lemma find_row_Some: "find_row k st = Some r \<Longrightarrow> r \<in> set (st_rows st) \<and> sr_pk r = k"
  by (auto simp: find_row_def find_Some_iff)

lemma find_row_in: "keys_ok st \<Longrightarrow> r \<in> set (st_rows st) \<Longrightarrow> find_row (sr_pk r) st = Some r"
  unfolding find_row_def keys_ok_def
proof (induction "st_rows st" arbitrary: st)
  case (Cons x xs)
  from Cons.hyps(1) [of "st\<lparr>st_rows := xs\<rparr>"] Cons.hyps(2) [symmetric] Cons.prems show ?case by (auto simp: image_iff)
qed simp

text \<open>The four ways a table is written.\<close>

lemma touch_keys [simp]: "keys_ok (touch_change_row t st) = keys_ok st" "find_row k (touch_change_row t st) = find_row k st"
  by (simp_all add: keys_ok_def touch_change_row_def find_row_def)

lemma follows_touch [simp]: "follows st (touch_change_row t st') = follows st st'"
  by (simp add: follows_def touch_later)

lemma follows_set:
  assumes k: "keys_ok st" and f: "find_row (sr_pk q) st = Some r" and c: "counted_on r q"
  shows "follows st (set_row q st)"
proof -
  have keys: "map sr_pk (st_rows (set_row q st)) = map sr_pk (st_rows st)" by (auto simp: set_row_def)
  have n: "st_next (set_row q st) = st_next st" by (simp add: set_row_def)
  have "sr_pk x < st_next st" if "x \<in> set (st_rows (set_row q st))" for x
  proof -
    from that have "sr_pk x \<in> set (map sr_pk (st_rows st))" unfolding keys [symmetric] by simp
    then show ?thesis using k by (auto simp: keys_ok_def)
  qed
  then have ok: "keys_ok (set_row q st)" unfolding keys_ok_def keys n using k by (simp add: keys_ok_def)
  have "\<exists>p \<in> set (st_rows st). sr_pk p = sr_pk x \<and> counted_on p x" if "x \<in> set (st_rows (set_row q st))" for x
  proof -
    from that consider "x \<in> set (st_rows st)" | "x = q" by (auto simp: set_row_def split: if_splits)
    then show ?thesis using find_row_Some [OF f] c by cases auto
  qed
  with ok n show ?thesis by (simp add: follows_def)
qed

lemma follows_filter: "keys_ok st \<Longrightarrow> follows st (st\<lparr>st_rows := filter p (st_rows st)\<rparr>)"
  by (auto simp: follows_def keys_ok_def distinct_map_filter intro: counted_on_refl)

lemma follows_append: "keys_ok st \<Longrightarrow> sr_pk r = st_next st
    \<Longrightarrow> follows st (st\<lparr>st_rows := st_rows st @ [r], st_next := Suc (st_next st)\<rparr>)"
  by (auto simp: follows_def keys_ok_def intro: counted_on_refl less_SucI)

lemma follows_map:
  assumes "keys_ok st" "\<And>r. r \<in> set (st_rows st) \<Longrightarrow> sr_pk (g r) = sr_pk r \<and> counted_on r (g r)"
  shows "follows st (st\<lparr>st_rows := map g (st_rows st)\<rparr>)"
proof -
  have "map sr_pk (map g (st_rows st)) = map sr_pk (st_rows st)" using assms(2) by simp
  then show ?thesis using assms by (auto simp: follows_def keys_ok_def simp del: map_map)
qed

section \<open>Every step follows\<close>

lemma new_row_key: "clean_errors fw d = [] \<Longrightarrow> sr_pk (new_row fw k now d) = k"
  by (simp add: new_row_name)

lemma added_follows:
  assumes "keys_ok st" "\<forall>d \<in> set ds. clean_errors fw d = []"
  shows "follows st (added fw now ds st)"
  using assms
proof (induction ds arbitrary: st)
  case (Cons d ds)
  let ?s = "st\<lparr>st_rows := st_rows st @ [new_row fw (st_next st) now d], st_next := Suc (st_next st)\<rparr>"
  have f: "follows st ?s" using Cons.prems by (intro follows_append) (simp_all add: new_row_key)
  then have "keys_ok ?s" by (simp add: follows_def)
  with Cons.IH [of ?s] Cons.prems(2) have "follows ?s (added fw now ds ?s)" by simp
  with f show ?case using follows_trans by simp
qed (simp add: follows_refl)

lemma create_one_follows: "keys_ok st \<Longrightarrow> follows st (snd (create_schedule fw user (\<lambda>t. t) now x st))"
  by (auto simp: create_schedule_def Let_def creation_errors_def insert_schedule_def new_row_key follows_refl
      intro!: follows_append split: prod.splits)

lemma create_many_follows:
  assumes "keys_ok st"
  shows "follows st (snd (create_schedules fw user (\<lambda>t. t) now rows st))"
proof (cases "fst (create_schedules fw user (\<lambda>t. t) now rows st)")
  case (Inl e)
  have "snd (create_schedules fw user (\<lambda>t. t) now rows st) = st"
    using Inl by (auto simp: create_schedules_def Let_def split: list.splits sum.splits if_splits)
  then show ?thesis using assms follows_refl by simp
next
  case (Inr u)
  then have "create_schedules fw user (\<lambda>t. t) now rows st = (Inr (), snd (create_schedules fw user (\<lambda>t. t) now rows st))"
    by (metis old.unit.exhaust prod.collapse)
  then have "create_each fw user now rows st = Some (snd (create_schedules fw user (\<lambda>t. t) now rows st))"
    using create_schedules_added by blast
  then have ok: "rows_acceptable fw user now rows st"
    and st': "snd (create_schedules fw user (\<lambda>t. t) now rows st)
      = (if rows = [] then st else touch_change_row now (added fw now (map (\<lambda>(given, d). unsaved fw now given d) rows) st))"
    by (simp_all add: create_each_added split: if_splits)
  from ok have "follows st (added fw now (map (\<lambda>(given, d). unsaved fw now given d) rows) st)"
    by (intro added_follows assms) (auto simp: rows_acceptable_def Let_def)
  then show ?thesis unfolding st' using assms follows_refl by simp
qed

lemma disable_counts:
  assumes "disable_schedule fw user now k st = (Inr (), st')" "find_row k st = Some r"
  obtains q where "st' = touch_change_row now (set_row q st)" "sr_pk q = k" "counted_on r q" "\<not> sr_enabled q" "\<not> stale_boundary fw q"
proof
  let ?off = "r\<lparr>sr_enabled := False\<rparr>"
  let ?q = "(if stale_boundary fw r then with_boundary fw now ?off else ?off)\<lparr>sr_boundary_for := boundary_digest fw ?off, sr_updated_at := now\<rparr>"
  show "st' = touch_change_row now (set_row ?q st)"
    using assms by (auto simp: disable_schedule_def Let_def split: if_splits)
  show "sr_pk ?q = k" using find_row_Some [OF assms(2)] by (simp add: with_boundary_def)
  show "counted_on r ?q" by (simp add: counted_on_def with_boundary_def)
  show "\<not> sr_enabled ?q" by (simp add: with_boundary_def)
  show "\<not> stale_boundary fw ?q" by (simp add: stale_boundary_def boundary_digest_def boundary_values_def with_boundary_def)
qed

lemma disable_follows: "keys_ok st \<Longrightarrow> follows st (snd (disable_schedule fw user now k st))"
proof (cases "fst (disable_schedule fw user now k st)")
  case (Inl e)
  then have "snd (disable_schedule fw user now k st) = st"
    by (auto simp: disable_schedule_def Let_def split: option.splits if_splits)
  then show "keys_ok st \<Longrightarrow> ?thesis" by (simp add: follows_refl)
next
  case (Inr u)
  assume k: "keys_ok st"
  from Inr obtain r where r: "find_row k st = Some r"
    by (auto simp: disable_schedule_def split: option.splits)
  from Inr have "disable_schedule fw user now k st = (Inr (), snd (disable_schedule fw user now k st))"
    by (metis old.unit.exhaust prod.collapse)
  from disable_counts [OF this r] k r show ?thesis by (metis follows_set follows_touch)
qed

text \<open>What an update that is not a pause writes.\<close>

lemma update_counts:
  assumes u: "update_schedule fw user now given change k st = (Inr (), st')" and r: "find_row k st = Some r"
    and no: "\<not> disables_only given (change (draft_of r))"
  obtains q where "st' = touch_change_row now (set_row q st)" "sr_pk q = k" "counted_on r q" "\<not> stale_boundary fw q"
    "fresh_boundary fw (change (draft_of r)) r \<longrightarrow> sr_start q = now_time fw now \<and> sr_generation q = Suc (sr_generation r)"
    "\<not> fresh_boundary fw (change (draft_of r)) r \<longrightarrow> sr_start q = sr_start r \<and> sr_generation q = sr_generation r"
proof
  let ?d = "change (draft_of r)"
  let ?fresh = "fresh_boundary fw ?d r"
  let ?d1 = "if ?fresh then ?d\<lparr>df_start := Bound (now_time fw now)\<rparr> else ?d"
  let ?s = "the (stored_as fw k now ?d1)"
  let ?kept = "?s\<lparr>sr_created_at := sr_created_at r, sr_start := sr_start r, sr_generation := sr_generation r\<rparr>"
  let ?q = "(if ?fresh then with_boundary fw now ?kept else ?kept)\<lparr>sr_boundary_for := boundary_digest fw ?s\<rparr>"
  have e: "change_errors fw st k ?d1 = []" and st': "st' = touch_change_row now (set_row ?q st)"
    using u r no unfolding update_schedule_def Let_def by (simp_all split: if_splits)
  from e have "stored_as fw 0 0 ?d1 \<noteq> None" unfolding change_errors_def clean_errors_def Let_def by (simp split: if_splits)
  then have "stored_as fw k now ?d1 \<noteq> None" using stored_any_key by metis
  then obtain s where "stored_as fw k now ?d1 = Some s" by blast
  then have pk: "sr_pk ?s = k" using stored_name by fastforce
  show "st' = touch_change_row now (set_row ?q st)" by (rule st')
  show "sr_pk ?q = k" using pk by (cases "?fresh") (simp_all add: with_boundary_def)
  show "counted_on r ?q" by (simp add: counted_on_def with_boundary_def)
  show "\<not> stale_boundary fw ?q" by (simp add: stale_boundary_def boundary_digest_def boundary_values_def with_boundary_def)
  show "?fresh \<longrightarrow> sr_start ?q = now_time fw now \<and> sr_generation ?q = Suc (sr_generation r)" by (simp add: with_boundary_def)
  show "\<not> ?fresh \<longrightarrow> sr_start ?q = sr_start r \<and> sr_generation ?q = sr_generation r" by simp
qed

lemma update_follows:
  assumes "keys_ok st"
  shows "follows st (snd (update_schedule fw user now given change k st))"
proof (cases "find_row k st")
  case None
  then show ?thesis using assms by (simp add: update_schedule_def Let_def follows_refl)
next
  case (Some r)
  show ?thesis
  proof (cases "disables_only given (change (draft_of r))")
    case True
    then show ?thesis using Some assms disable_follows by (simp add: update_schedule_def Let_def follows_refl)
  next
    case False
    show ?thesis
    proof (cases "fst (update_schedule fw user now given change k st)")
      case (Inl e)
      then have "snd (update_schedule fw user now given change k st) = st"
        using Some False unfolding update_schedule_def Let_def by (simp split: if_splits)
      then show ?thesis using assms follows_refl by simp
    next
      case (Inr u)
      then have "update_schedule fw user now given change k st = (Inr (), snd (update_schedule fw user now given change k st))"
        by (metis old.unit.exhaust prod.collapse)
      from update_counts [OF this Some False] assms Some show ?thesis by (metis follows_set follows_touch)
    qed
  qed
qed

lemma delete_follows: "keys_ok st \<Longrightarrow> follows st (snd (delete_schedule fw user now k st))"
  "keys_ok st \<Longrightarrow> follows st (snd (delete_schedules fw user now ks st))"
  by (auto simp: delete_schedule_def delete_schedules_def follows_refl follows_filter)

lemma written_follows: "keys_ok st \<Longrightarrow> follows st (written_by fw user now w st)"
  by (cases w) (simp_all add: create_one_follows create_many_follows update_follows disable_follows delete_follows)

lemma heal_row_follows:
  assumes "keys_ok st" "heal_row fw fails now k observed st = (how, st')"
  shows "follows st st'"
proof (cases "find_row k st")
  case (Some r)
  let ?q = "(with_boundary fw now r)\<lparr>sr_boundary_for := boundary_digest fw r\<rparr>"
  have "follows st (set_row ?q st)"
  proof (rule follows_set [OF assms(1)])
    show "find_row (sr_pk ?q) st = Some r" using Some find_row_Some [OF Some] by (simp add: with_boundary_def)
    show "counted_on r ?q" by (simp add: counted_on_def with_boundary_def)
  qed
  then show ?thesis using assms Some by (auto simp: heal_row_def follows_refl split: if_splits)
qed (use assms in \<open>auto simp: heal_row_def follows_refl split: if_splits\<close>)

lemma step_follows:
  assumes "stored_step fw backend s s'" "keys_ok (sy_store s)"
  shows "follows (sy_store s) (sy_store s')"
  using assms
proof (induction rule: stored_step.induct)
  case (Around g s)
  then show ?case by (auto intro!: follows_map simp: around_ok_def boundary_of_def counted_on_def)
next
  case (Heal s i k observed fails now how st)
  then show ?case using heal_row_follows by simp
qed (simp_all add: written_follows follows_append follows_filter follows_refl)

lemma run_follows:
  assumes "stored_run fw backend s s'" "keys_ok (sy_store s)"
  shows "follows (sy_store s) (sy_store s')"
  using assms(1) unfolding stored_run_def
proof (induction rule: rtranclp_induct)
  case (step y z)
  then have "keys_ok (sy_store y)" by (simp add: follows_def)
  with step show ?case using step_follows follows_trans by blast
qed (simp add: assms(2) follows_refl)

section \<open>One boundary, one count\<close>

lemma run_counted:
  assumes run: "stored_run fw backend s s'" and ok: "keys_ok (sy_store s)"
    and r: "find_row k (sy_store s) = Some r" and q: "find_row k (sy_store s') = Some q"
  shows "counted_on r q"
proof -
  have Q: "q \<in> set (st_rows (sy_store s'))" "sr_pk q = k" and R: "r \<in> set (st_rows (sy_store s))" "sr_pk r = k"
    using find_row_Some r q by blast+
  have "sr_pk r < st_next (sy_store s)" using ok R(1) by (rule key_given)
  with run_follows [OF run ok] Q R obtain p where "p \<in> set (st_rows (sy_store s))" "sr_pk p = k" "counted_on p q"
    by (auto simp: follows_def)
  moreover from this ok r have "p = r" using find_row_in by fastforce
  ultimately show ?thesis by simp
qed

text \<open>After a move the row's count is past the one sighted, so whoever holds the same sighting finds it settled.\<close>

lemma healed_moves:
  assumes h: "heal_row fw False now k observed st = (how, st')" and q: "find_row k st' = Some q" and ok: "keys_ok st"
    and seen: "find_row k st = Some r" "boundary_of r = observed"
  shows "sr_generation q = Suc (sr_generation r) \<and> sr_start q = now_time fw now \<and> \<not> stale_boundary fw q"
proof -
  let ?q = "(with_boundary fw now r)\<lparr>sr_boundary_for := boundary_digest fw r\<rparr>"
  have st': "st' = touch_change_row now (set_row ?q st)" using h seen by (simp add: heal_row_def)
  have k: "sr_pk ?q = k" using find_row_Some [OF seen(1)] by (simp add: with_boundary_def)
  have "?q \<in> set (st_rows (set_row ?q st))"
    using find_row_Some [OF seen(1)] k by (auto simp: set_row_def intro!: image_eqI [of _ _ r])
  moreover have "keys_ok st'" using heal_row_follows [OF ok h] by (simp add: follows_def)
  ultimately have "find_row k st' = Some ?q" using k st' find_row_in by fastforce
  with q have "q = ?q" by simp
  then show ?thesis by (simp add: with_boundary_def stale_boundary_def boundary_digest_def boundary_values_def)
qed

lemma second_heal_settles:
  assumes ok: "keys_ok (sy_store s)" and seen: "find_row k (sy_store s) = Some r"
    and h: "heal_row fw False now k (boundary_of r) (sy_store s) = (how, sy_store s1)" and run: "stored_run fw backend s1 s2"
  shows "snd (heal_row fw fails later k (boundary_of r) (sy_store s2)) = sy_store s2"
proof (cases "find_row k (sy_store s2)")
  case (Some q)
  have f1: "follows (sy_store s) (sy_store s1)" by (rule heal_row_follows [OF ok h])
  have ok1: "keys_ok (sy_store s1)" using f1 by (simp add: follows_def)
  have R: "sr_pk r = k" "r \<in> set (st_rows (sy_store s))" using find_row_Some [OF seen] by auto
  have less: "k < st_next (sy_store s)" using key_given [OF ok R(2)] R(1) by simp
  have Q: "q \<in> set (st_rows (sy_store s2))" "sr_pk q = k" using find_row_Some [OF Some] by auto
  with run_follows [OF run ok1] less f1 obtain p where p: "p \<in> set (st_rows (sy_store s1))" "sr_pk p = k" "counted_on p q"
    by (fastforce simp: follows_def)
  then have "find_row k (sy_store s1) = Some p" using find_row_in [OF ok1] by fastforce
  from healed_moves [OF h this ok seen refl] p(3) have "sr_generation r < sr_generation q" by (auto simp: counted_on_def)
  then have "boundary_of q \<noteq> boundary_of r" by (simp add: boundary_of_def)
  with Some show ?thesis by (simp add: heal_row_def)
qed (simp add: heal_row_def)

end
