(* ===== verification/StoredTicks.thy ===== *)
theory StoredTicks
  imports StoredSys
begin

text \<open>
  What a worker's source answers: the schedules of the rows, under keys no other schedule has; what a full read
  leaves; and what a row must be for a tick of it to be enqueued.
\<close>

section \<open>A tick of a stored schedule\<close>

lemma built_schedule:
  assumes "to_schedule fw backend r = Inr s"
  shows "start_time s = Some (time_micros (sr_start r))" "end_time s = map_option time_micros (sr_end r)"
    "dispatch_key s = row_key (sr_pk r)" "row_trigger r = Inr (sched_trigger s)" "td_backend (sched_task s) = backend"
    "\<not> anchors s" "schedule_key s = row_key (sr_pk r)"
proof -
  show d: "dispatch_key s = row_key (sr_pk r)"
    using assms by (auto simp: to_schedule_def rbind_def row_key_def Let_def split: option.splits sum.splits list.splits if_splits)
  then show "schedule_key s = row_key (sr_pk r)" by (simp add: schedule_key_def row_key_def stored_key_prefix_def)
qed (use assms in \<open>auto simp: to_schedule_def rbind_def Let_def split: option.splits sum.splits list.splits if_splits\<close>)

lemma current_Some:
  assumes "fst (current fw backend fault k src st) = Inr (Some s)"
  obtains r where "find_row k st = Some r" "sr_enabled r" "\<not> stale_boundary fw r" "to_schedule fw backend r = Inr s"
  using assms by (auto simp: current_def Let_def split: option.splits if_splits sum.splits)

lemma dispatched_refreshed:
  assumes "take_turn z now tn s i read d = (Dispatched x, d')"
  obtains cur where "refreshed tn s = Inr (Some cur)" "still_due z now cur i (admitted_at tn)"
proof -
  obtain newest e where b: "dispatch_block z now tn s i newest (before_exists tn d) = (e, d')"
    "block_verdict tn e = Dispatched x"
    using assms block_verdict_Raised by (auto simp: take_turn_def Let_def split: if_splits option.splits prod.splits)
  then have "e \<noteq> NotAdmitted" "\<And>c y. e \<noteq> BlockRaised c y"
    using block_verdict_Raised by (auto simp: block_verdict_def [of tn NotAdmitted])
  with b(1) that show thesis
    by (auto simp: dispatch_block_def split: sum.splits option.splits if_splits)
qed

lemma stored_tick:
  assumes "take_turn z now tn s i read d = (Dispatched x, d')"
    and "refreshed tn s = fst (current fw backend fault k src st)"
  obtains r where "find_row k st = Some r" "sr_enabled r" "\<not> stale_boundary fw r" "time_micros (sr_start r) \<le> i"
    "\<forall>e. sr_end r = Some e \<longrightarrow> i \<le> time_micros e"
proof -
  from assms(1) obtain cur where c: "refreshed tn s = Inr (Some cur)" "still_due z now cur i (admitted_at tn)"
    by (rule dispatched_refreshed)
  from c(1) assms(2) obtain r where r: "find_row k st = Some r" "sr_enabled r" "\<not> stale_boundary fw r" "to_schedule fw backend r = Inr cur"
    using current_Some by metis
  from c(2) built_schedule(1,2) [OF r(4)] have "time_micros (sr_start r) \<le> i" "\<forall>e. sr_end r = Some e \<longrightarrow> i \<le> time_micros e"
    by (auto simp: still_due_def within_bounds_def)
  with r(1-3) that show thesis by blast
qed

section \<open>Keys in the tick log\<close>

definition text_value :: "string \<Rightarrow> nat" where
  "text_value cs = foldl (\<lambda>n c. 10 * n + (of_char c - 48)) 0 cs"

lemma nat_text_value: "text_value (nat_text n) = n"
proof (induction n rule: nat_text.induct)
  case (1 n)
  have digit: "of_char (char_of (48 + n mod 10) :: char) = 48 + n mod 10"
    by (simp add: of_char_of) 
  show ?case
  proof (cases "n < 10")
    case True
    then show ?thesis using digit by (simp add: nat_text.simps [of n] text_value_def)
  next
    case False
    then have "foldl (\<lambda>n c. 10 * n + (of_char c - 48)) 0 (nat_text (n div 10)) = n div 10"
      using 1 by (simp add: text_value_def)
    then show ?thesis using False digit by (simp add: nat_text.simps [of n] text_value_def)
  qed
qed

lemma row_key_inject [simp]: "row_key a = row_key b \<longleftrightarrow> a = b"
  using nat_text_value unfolding row_key_def by (metis same_append_eq)

lemma built_rows_keys:
  assumes "distinct (map sr_pk rows)"
  shows "distinct (map schedule_key (built_rows fw backend rows))"
    "schedule_key ` set (built_rows fw backend rows) \<subseteq> row_key ` set (map sr_pk rows)"
  using assms
  by (induction rows) (auto simp: built_rows_def map_filter_simps built_schedule split: sum.splits option.splits)

lemma source_keys_apart:
  assumes "schedules_from_options fw0 options backend = Inr settings" "distinct (map sched_name settings)" "keys_ok st"
  shows "distinct (map schedule_key (settings @ so_cached (build fw backend st src)))"
proof -
  let ?rows = "sort_key sr_pk (st_rows st)"
  have ok: "settings_schedule_ok backend s" if "s \<in> set settings" for s
    using assms(1) that by (rule schedules_from_options_ok)
  have names: "map schedule_key settings = map sched_name settings" using ok by (simp add: settings_schedule_ok_def)
  have plain: "\<not> has_prefix stored_key_prefix (schedule_key s)" if "s \<in> set settings" for s
    using ok [OF that] by (simp add: settings_schedule_ok_def)
  have prefixed: "has_prefix stored_key_prefix (row_key k)" for k by (simp add: row_key_def has_prefix_def)
  have "distinct (map sr_pk ?rows)"
  proof -
    have "mset (map sr_pk ?rows) = mset (map sr_pk (st_rows st))" by simp
    then show ?thesis using assms(3) mset_eq_imp_distinct_iff unfolding keys_ok_def by blast
  qed
  note keys = built_rows_keys [OF this, where fw = fw and backend = backend]
  define built where "built = built_rows fw backend ?rows"
  have "has_prefix stored_key_prefix x" if "x \<in> set (map schedule_key built)" for x
  proof -
    from that keys(2) obtain k where "x = row_key k" unfolding built_def set_map by blast
    then show ?thesis using prefixed by simp
  qed
  moreover have "\<not> has_prefix stored_key_prefix x" if "x \<in> set (map schedule_key settings)" for x
    using that plain by auto
  ultimately have "set (map schedule_key settings) \<inter> set (map schedule_key built) = {}" by blast
  moreover have "so_cached (build fw backend st src) = built" by (simp add: build_def built_def Let_def)
  ultimately show ?thesis using assms(2) keys(1) unfolding built_def [symmetric] names map_append distinct_append by metis
qed

section \<open>A full read\<close>

text \<open>Every row a read finds stale is sighted with its boundary.\<close>

lemma sighted_distinct: "distinct (map fst held) \<Longrightarrow> distinct (map fst (sighted fw rows held))"
  unfolding sighted_def by (induction rows arbitrary: held) (simp_all add: sight_def distinct_update)

lemma sighted_other: "k \<notin> sr_pk ` set rows \<Longrightarrow> map_of (sighted fw rows held) k = map_of held k"
  unfolding sighted_def by (induction rows arbitrary: held) (simp_all add: sight_def update_conv')

lemma sighted_stale:
  assumes "distinct (map sr_pk rows)" "r \<in> set rows" "stale_boundary fw r"
  shows "map_of (sighted fw rows held) (sr_pk r) = Some (boundary_of r)"
  using assms
proof (induction rows arbitrary: held)
  case (Cons x xs)
  show ?case
  proof (cases "r = x")
    case True
    with Cons.prems have "sr_pk r \<notin> sr_pk ` set xs" by auto
    from sighted_other [OF this] show ?thesis using True Cons.prems(3) by (simp add: sighted_def sight_def update_conv')
  next
    case False
    then show ?thesis using Cons by (simp add: sighted_def)
  qed
qed simp

definition quiet_looks :: "(nat \<Rightarrow> heal_look) \<Rightarrow> bool" where
  "quiet_looks looks = (\<forall>k. \<not> hl_fails (looks k) \<and> hl_before (looks k) = (\<lambda>st. st))"

definition stale_held :: "stored_fw \<Rightarrow> (nat \<times> boundary) list \<Rightarrow> store \<Rightarrow> bool" where
  "stale_held fw held st = (\<forall>r \<in> set (st_rows st). stale_boundary fw r \<longrightarrow> (sr_pk r, boundary_of r) \<in> set held)"

lemma heal_row_held:
  assumes ok: "keys_ok st" and d: "distinct (map fst ((k, observed) # held))" and s: "stale_held fw ((k, observed) # held) st"
    and h: "heal_row fw False now k observed st = (how, st')"
  shows "how = Settled \<and> stale_held fw held st'"
proof (cases "find_row k st")
  case None
  then have "sr_pk r \<noteq> k" if "r \<in> set (st_rows st)" for r using that by (auto simp: find_row_def find_None_iff)
  then show ?thesis using None h s by (auto simp: heal_row_def stale_held_def)
next
  case (Some r)
  have other: "sr_pk x \<noteq> k \<or> x = r" if "x \<in> set (st_rows st)" for x using find_row_in [OF ok that] Some by auto
  show ?thesis
  proof (cases "boundary_of r = observed")
    case True
    let ?q = "(with_boundary fw now r)\<lparr>sr_boundary_for := boundary_digest fw r\<rparr>"
    have st': "how = Settled" "st' = touch_change_row now (set_row ?q st)" using h Some True by (simp_all add: heal_row_def)
    have "\<not> stale_boundary fw ?q" by (simp add: stale_boundary_def boundary_digest_def boundary_values_def with_boundary_def)
    moreover have "x = ?q \<or> x \<in> set (st_rows st) \<and> sr_pk x \<noteq> k" if "x \<in> set (st_rows st')" for x
      using that find_row_Some [OF Some] by (auto simp: st' set_row_def with_boundary_def touch_later split: if_splits)
    ultimately show ?thesis using s st'(1) by (fastforce simp: stale_held_def)
  next
    case False
    then have st': "how = Settled" "st' = st" using h Some by (simp_all add: heal_row_def)
    have "\<not> stale_boundary fw r"
    proof
      assume "stale_boundary fw r"
      with s find_row_Some [OF Some] have "(k, boundary_of r) \<in> set ((k, observed) # held)" by (auto simp: stale_held_def)
      with d False show False by (auto simp: image_iff)
    qed
    then show ?thesis using s st' other by (fastforce simp: stale_held_def)
  qed
qed

lemma heal_all_quiet:
  assumes "quiet_looks looks" "keys_ok st" "distinct (map fst held)" "stale_held fw held st"
    and "heal_all fw looks held src st = (src', st')"
  shows "keys_ok st' \<and> stale_held fw [] st' \<and> so_heal src' = fold AList.delete (map fst held) (so_heal src)"
  using assms
proof (induction held arbitrary: src st)
  case (Cons x held)
  obtain k observed where x: "x = (k, observed)" by (cases x)
  obtain how st1 where h: "heal_row fw False (hl_now (looks k)) k observed st = (how, st1)" by fastforce
  from heal_row_held [OF Cons.prems(2) _ _ h] Cons.prems(3,4) x have H: "how = Settled" "stale_held fw held st1" by blast+
  have "keys_ok st1" using heal_row_follows [OF Cons.prems(2) h] by (simp add: follows_def)
  moreover have "heal_all fw looks held (drop_sighting k src) st1 = (src', st')"
    using Cons.prems(1,5) x h H(1) by (simp add: quiet_looks_def)
  ultimately show ?case using Cons.IH [OF Cons.prems(1)] Cons.prems(3) H(2) x by (simp add: drop_sighting_def)
qed simp

lemma delete_all: "set (map fst held) \<subseteq> set ks \<Longrightarrow> fold AList.delete ks held = []"
proof (induction ks arbitrary: held)
  case (Cons k ks)
  have "set (map fst (AList.delete k held)) \<subseteq> set ks"
    unfolding delete_keys set_removeAll using Cons.prems by auto
  then show ?case using Cons.IH by simp
qed simp

lemma not_stale_sights_none: "\<forall>r \<in> set rows. \<not> stale_boundary fw r \<Longrightarrow> sighted fw rows held = held"
  unfolding sighted_def by (induction rows) simp_all

lemma build_holds_stale:
  assumes "keys_ok st"
  shows "stale_held fw (so_heal (build fw backend st src)) st"
  unfolding stale_held_def
proof (intro ballI impI)
  let ?rows = "sort_key sr_pk (st_rows st)"
  fix r assume r: "r \<in> set (st_rows st)" "stale_boundary fw r"
  have "mset (map sr_pk ?rows) = mset (map sr_pk (st_rows st))" by simp
  then have "distinct (map sr_pk ?rows)" using assms mset_eq_imp_distinct_iff unfolding keys_ok_def by blast
  from sighted_stale [OF this, of r fw "so_heal src"] r
  show "(sr_pk r, boundary_of r) \<in> set (so_heal (build fw backend st src))"
    by (auto simp: build_def Let_def dest: map_of_SomeD)
qed

text \<open>
  A full read that meets no fault and no one else from the read on answers the enabled rows that build, and leaves
  every boundary set for its row's columns and nothing to move.
\<close>

lemma full_read:
  assumes read: "so_heal src = []" "ps_marker p = MarkerAnswers" "MarkerAt (st_changed st) \<noteq> so_seen src \<or> due_for_a_full_read interval (ps_clock p) src"
    and quiet_looks: "quiet_looks (ps_second p)" "ps_before_again p = (\<lambda>st. st)" and ok: "keys_ok (ps_before_read p st)"
    and a: "rows_of fw backend interval p src st = (answer, src', st')"
  shows "answer = built_rows fw backend (sort_key sr_pk (st_rows st')) \<and> so_heal src' = []
    \<and> (\<forall>r \<in> set (st_rows st'). \<not> stale_boundary fw r)"
proof -
  let ?st = "ps_before_read p st" let ?src = "build fw backend ?st src"
  have held: "stale_held fw (so_heal ?src) ?st" by (rule build_holds_stale [OF ok])
  show ?thesis
  proof (cases "so_heal ?src = []")
    case True
    then have "src' = ?src\<lparr>so_seen := MarkerAt (st_changed st), so_last := Some (ps_read_at p)\<rparr>" "st' = ?st" "answer = so_cached src'"
      using a read by (auto simp: rows_of_def Let_def)
    then show ?thesis using True held by (auto simp: stale_held_def build_def Let_def)
  next
    case False
    obtain src1 st1 where h: "heal fw (ps_second p) ?src ?st = (src1, st1)" by fastforce
    have d: "distinct (map fst (so_heal ?src))" using read(1) sighted_distinct [of "[]"] by (simp add: build_def Let_def)
    from heal_all_quiet [OF quiet_looks(1) ok d held h [unfolded heal_def]]
    have H: "stale_held fw [] st1" "so_heal src1 = []" using delete_all [OF subset_refl] by metis+
    have r: "st' = st1" "src' = (build fw backend st1 src1)\<lparr>so_seen := MarkerAt (st_changed st), so_last := Some (ps_read_at p)\<rparr>"
      "answer = so_cached src'" using a read quiet_looks(2) False h by (auto simp: rows_of_def Let_def)
    then show ?thesis using H not_stale_sights_none [of "sort_key sr_pk (st_rows st1)" fw]
      by (auto simp: stale_held_def build_def Let_def)
  qed
qed

end
