(* ===== verification/StoredRuns.thy ===== *)
theory StoredRuns
  imports StoredTicks Samples
begin

text \<open>Stored rows, a source and a dispatch of one, evaluated, for the properties that have hypotheses.\<close>

definition demo_kind :: kind where
  "demo_kind = \<lparr>kd_task = \<lparr>td_path = ''shop.tasks.bill'', td_backend = ''default'', td_queue = PyStr ''default'',
     td_priority = PyInt 0\<rparr>, kd_form = None, kd_permission = None\<rparr>"

text \<open>The digest here is the material itself, cut to what tells these rows apart.\<close>

fun material :: "pyval list \<Rightarrow> string" where
  "material [] = ''''"
| "material (PyStr s # vs) = s @ material vs"
| "material (PyBool b # vs) = (if b then ''T'' else ''F'') @ material vs"
| "material (PyInt n # vs) = nat_text (nat n) @ material vs"
| "material (v # vs) = material vs"

definition demo_stored :: stored_fw where
  "demo_stored = \<lparr>fw_registry = [(''bill'', demo_kind)], fw_use_tz = True, fw_localize = (\<lambda>m. m), fw_fits = (\<lambda>m. True),
     fw_to_int = (\<lambda>v. case v of PyInt n \<Rightarrow> Some v | _ \<Rightarrow> None), fw_own_low = Some 0, fw_own_high = Some 2147483647,
     fw_low = Some 0, fw_high = Some 2147483647, fw_json_ok = (\<lambda>v. True), fw_valid_task = (\<lambda>t. True),
     fw_digest = material, fw_printable = (\<lambda>s. s)\<rparr>"

definition demo_draft :: draft where
  "demo_draft = \<lparr>df_name = ''minutely'', df_task_key = ''bill'', df_trigger = ''interval'', df_cron = '''',
     df_every = PyInt 60, df_phase = PyInt 0, df_arguments = PyDict [], df_enabled = True,
     df_start = Bound (AwareTime (noon - 90000000)), df_end = NoBound, df_deadline = PyInt 30\<rparr>"

definition demo_stored_row :: stored_row where
  "demo_stored_row = \<lparr>sr_pk = 4, sr_name = ''minutely'', sr_task_key = ''bill'', sr_trigger = ''interval'', sr_cron = '''',
     sr_every = Some 60, sr_phase = 0, sr_arguments = PyDict [], sr_enabled = True,
     sr_start = AwareTime (noon - 90000000), sr_boundary_for = '''', sr_generation = 0,
     sr_end = None, sr_deadline = Some 30, sr_created_at = noon, sr_updated_at = noon\<rparr>"

lemma demo_draft_valid: "validate_schedule demo_stored True demo_draft = []"
  by code_simp

lemma demo_draft_stored: "stored_as demo_stored 4 noon demo_draft = Some demo_stored_row"
  by code_simp

text \<open>The row as it is written, and the same paused around the module.\<close>

definition demo_current :: stored_row where
  "demo_current = demo_stored_row\<lparr>sr_boundary_for := boundary_digest demo_stored demo_stored_row\<rparr>"

definition demo_paused :: stored_row where
  "demo_paused = demo_current\<lparr>sr_enabled := False\<rparr>"

definition paused_store :: store where
  "paused_store = \<lparr>st_rows = [demo_paused], st_changed = Some 0, st_next = 5\<rparr>"

definition healed_row :: stored_row where
  "healed_row = (with_boundary demo_stored noon demo_paused)\<lparr>sr_boundary_for := boundary_digest demo_stored demo_paused\<rparr>"

definition healed_store :: store where
  "healed_store = \<lparr>st_rows = [healed_row], st_changed = Some noon, st_next = 5\<rparr>"

lemma demo_digests: "stale_boundary demo_stored demo_paused" "\<not> stale_boundary demo_stored demo_current"
  "\<not> stale_boundary demo_stored healed_row"
  by code_simp+

lemma demo_found: "find_row 4 paused_store = Some demo_paused" "find_row 4 healed_store = Some healed_row"
  "keys_ok paused_store" "keys_ok healed_store"
  by (simp_all add: find_row_def paused_store_def healed_store_def healed_row_def demo_paused_def demo_current_def
      demo_stored_row_def with_boundary_def keys_ok_def)

lemma demo_heal: "heal_row demo_stored False noon 4 (boundary_of demo_paused) paused_store = (Settled, healed_store)"
  by (simp add: heal_row_def demo_found) (simp add: set_row_def touch_change_row_def paused_store_def healed_store_def
      healed_row_def with_boundary_def)

definition paused_system :: schedule_system where
  "paused_system = \<lparr>sy_store = paused_store, sy_sources = (\<lambda>i. new_source\<lparr>so_heal := [(4, boundary_of demo_paused)]\<rparr>)\<rparr>"

definition healed_system :: schedule_system where
  "healed_system = \<lparr>sy_store = healed_store,
     sy_sources = (sy_sources paused_system)(0 := drop_sighting 4 (sy_sources paused_system 0))\<rparr>"

lemma demo_heal_run: "stored_run demo_stored ''default'' paused_system healed_system"
proof -
  have "map_of (so_heal (sy_sources paused_system 0)) 4 = Some (boundary_of demo_paused)"
    "heal_row demo_stored False noon 4 (boundary_of demo_paused) (sy_store paused_system) = (Settled, healed_store)"
    using demo_heal by (simp_all add: paused_system_def)
  from stored_step.Heal [OF this] show ?thesis
    unfolding stored_run_def healed_system_def by (simp add: r_into_rtranclp paused_system_def)
qed

text \<open>A tick of the row at noon, with the row asked for under its lock.\<close>

definition current_store :: store where
  "current_store = \<lparr>st_rows = [demo_current], st_changed = Some 0, st_next = 5\<rparr>"

definition stored_schedule :: schedule where
  "stored_schedule = demo_schedule\<lparr>sched_name := ''minutely'', start_time := Some (noon - 90000000),
     starting_deadline := Some 30000000, anchors := False, dispatch_key := row_key 4\<rparr>"

definition stored_turn :: turn where
  "stored_turn = demo_turn\<lparr>refreshed := (\<lambda>s. fst (current demo_stored ''default'' None 4 new_source current_store))\<rparr>"

lemma demo_stored_turn:
  "take_turn demo_zone noon stored_turn stored_schedule noon Absent \<lparr>ticks = [], enqueued = []\<rparr>
    = (Dispatched (Some 7), \<lparr>ticks = [(new_tick (row_key 4) noon)\<lparr>tick_task := Some 7\<rparr>], enqueued = [7]\<rparr>)"
  by code_simp

text \<open>A first read that finds the pause.\<close>

definition still_look :: "nat \<Rightarrow> heal_look" where
  "still_look k = \<lparr>hl_before = (\<lambda>st. st), hl_fails = False, hl_now = noon\<rparr>"

definition demo_read_pass :: pass where
  "demo_read_pass = \<lparr>ps_first = still_look, ps_marker = MarkerAnswers, ps_clock = 0, ps_before_read = (\<lambda>st. st),
     ps_second = still_look, ps_before_again = (\<lambda>st. st), ps_read_at = 0\<rparr>"

lemma demo_still: "quiet_looks (ps_second demo_read_pass)"
  by (simp add: quiet_looks_def demo_read_pass_def still_look_def)

end
