(* ===== verification/Spec2Isabelle.thy ===== *)
theory Spec2Isabelle
  imports Refine Runs Samples LimitRuns BatchRuns FlowRuns FlowPrune SupervisorCodes StoredRuns
begin

text \<open>
  A verification development of django-ox: a Django task backend whose queue is one database table, and
  oxpull, the package beside it that adds limits, batches and workflows to the same queue.

  Parts of the program.  Tasks are rows of \<open>OxTask\<close> (\<open>src/django_ox/models.py\<close>).  Workers
  (\<open>worker.py\<close>) claim them, run them, renew their leases, write their outcomes, and reap the leases of
  workers that stopped; every hand-over of a row moves its \<open>lease_epoch\<close>, and an outcome is written only
  at the epoch that was claimed.  Operators act on the same rows (\<open>actions.py\<close>, \<open>_waiting.py\<close>).  Recurring
  tasks come from schedules (\<open>schedules.py\<close>, \<open>cron.py\<close>) which every worker evaluates on its own and
  dispatches through one tick log.  oxpull's worker (\<open>src/oxpull/worker.py\<close>) adds conditions to the claim;
  its batches and workflows (\<open>batches.py\<close>, \<open>workflows.py\<close>) read the task rows and are completed by a
  reconciler that runs as a scheduled task.

  Theories, in import order.

  \<open>Prelude\<close>, \<open>PyStr\<close>, \<open>PyVal\<close>: results, collections of rules, and what the code uses of Python's
  text and values.
  \<open>Calendar\<close>, \<open>Clock\<close>: naive datetimes to the minute and to the microsecond, with the calendar's ends as
  error values.
  \<open>Cron\<close> (definitions), \<open>CronWalk\<close> (the parser), \<open>Ticks\<close> and \<open>TickFacts\<close> (the two searches):
  \<open>cron.py\<close>.  The searches are \<open>while\<close> loops (\<open>walk_while\<close>, None when a loop does not end); the locale
  \<open>tick_walk\<close> states what one turn of either loop promises and is interpreted on both bodies.
  \<open>Trigger\<close>, \<open>Schedules\<close>: \<open>schedules.py\<close>.  The locale \<open>ticker\<close> is the contract of
  \<open>Trigger.previous\<close>, interpreted on cron expressions, intervals and their union.
  \<open>TaskRow\<close>: the row, the table, UPDATE and INSERT.  The locale \<open>row_store\<close> states what a pinned UPDATE
  promises and is interpreted on the table.
  \<open>Contention\<close>: \<open>_contention.py\<close>, the retry of a transaction that lost a race.  \<open>TaskIds\<close>,
  \<open>Actions\<close>: \<open>actions.py\<close>.  \<open>Waiting\<close>: \<open>_waiting.py\<close>.
  \<open>Claim\<close>, \<open>Outcome\<close>, \<open>Reaper\<close>, \<open>Recovery\<close>: the parts of \<open>worker.py\<close> that read and write rows;
  where others may act between two statements of one operation, what they do is an argument
  (\<open>others\<close>) of its definition.
  \<open>ClaimFence\<close>: the threads of one worker around a claim and the look that takes back a claim whose call
  raised, as a step relation on the worker's memory.
  \<open>Moves\<close>: the specification of a row's life, one constructor per UPDATE of the package; \<open>System\<close>: the
  whole table under any interleaving of those UPDATEs, each with a value list computed from any version of
  its row that was ever visible; \<open>Refine\<close>: each operation is a path of \<open>System\<close>, and what it reports is
  what the path records.
  \<open>TickLog\<close>, \<open>Report\<close>, \<open>Dispatch\<close>, \<open>DispatchFacts\<close>: the tick log, the failure report and the
  schedule dispatch of \<open>worker.py\<close>.
  \<open>Stored\<close>, \<open>StoredFacts\<close>: the rules, the row and the schedule of a row (\<open>stored.py\<close>, \<open>models.py\<close>);
  \<open>StoredWrites\<close>: its write functions; \<open>StoredSource\<close>: \<open>DatabaseScheduleSource\<close>.  \<open>StoredSys\<close> is the table and
  the workers' sources under any interleaving, writes around the module included; \<open>StoredTicks\<close> what a source
  answers and what a dispatched tick needs of its row.
  \<open>LimitOptions\<close>: oxpull's option parsers.  \<open>RateWindow\<close>, \<open>RateBudget\<close>, \<open>RateRefine\<close>: the windows of a
  rate limit, the budget they implement and the simulation between them.  \<open>ClaimFilter\<close>, \<open>ConcBound\<close>: the
  conditions on a claim and the bound of a concurrency limit.
  \<open>Reissue\<close>: oxpull's \<open>_reissue\<close>.  \<open>Batches\<close>, \<open>BatchFacts\<close>: \<open>batches.py\<close>.
  \<open>Flow\<close> (rows, gate, records), \<open>FlowRelease\<close> (statements, locks, release), \<open>FlowOps\<close> (the other
  operations): \<open>workflows.py\<close>.  An operation is a state transformer over the number of its next statement
  and the committed rows.  \<open>FlowSys\<close> is the specification of a workflow's rows under any interleaving, with
  the history of which tasks succeeded; \<open>FlowPaths\<close> gives one rule per form of statement for showing that an
  operation is a path of it, \<open>FlowRefine\<close>, \<open>FlowGoes\<close> and \<open>FlowEnds\<close> apply them, and \<open>FlowFacts\<close> says what
  the release and the cancellation do when nothing else commits.  \<open>FlowBackstop\<close> holds the release backstop (skip
  queues, pages, visits, rounds), the reconciler's tick and the retirement; \<open>FlowVisits\<close> and \<open>FlowRetire\<close> show
  that they are paths of \<open>FlowSys\<close>, \<open>FlowSweep\<close> and \<open>FlowPrune\<close> what a visit and the deletes achieve when
  nothing else commits, in a calculus of total correctness.
  \<open>Supervisor\<close>: \<open>supervisor.py\<close>.  \<open>SupervisorSteps\<close> gives it as a step relation of which every method is a
  path; \<open>SupervisorFacts\<close> and \<open>SupervisorCodes\<close> hold the invariants, the end of the run and the exit code.
  \<open>Runs\<close>, \<open>Samples\<close>, \<open>LimitRuns\<close>, \<open>BatchRuns\<close>, \<open>FlowRuns\<close> and \<open>StoredRuns\<close> hold the concrete inputs of the witnesses.

  The properties are C1 to C40 below: leases, outcomes, claims, reaper and recovery; operator actions;
  schedules, their dispatch and the stored ones; limits; batches; workflows, their backstop and retirement; the supervisor.

  Bounds.  A cron search walks at most \<open>search_days\<close> days; the property on searches shows that is enough.  A
  contended transaction runs at most \<open>tries\<close> times, as in the code.  Chunks hold \<open>update_chunk_size\<close> keys;
  oxpull's hold \<open>id_chunk_size\<close>.  A cancellation runs at most \<open>max_cancel_passes\<close> levels a tick.  The delete
  loop of a retirement and the two loops of the supervisor take fuel; the properties on them give an amount that is
  enough.

  Parameters.  The framework's task import, task validation and JSON normalisation (\<open>framework\<close>), the
  faults the database raises (\<open>fault\<close>, \<open>reply\<close>, \<open>fe_fault\<close>), what other sessions commit (\<open>others\<close>,
  \<open>fe_others\<close>), which rows are locked (\<open>busy\<close>, \<open>fe_held\<close>), the clocks, a claim filter supplied by a
  subclass, the zone and the poison of a dispatch turn, the case folding of a limit's name, the enqueueing of
  a callback or a node, the hash of a node's name, of stored schedules the registry, its forms and permissions, the
  integer fields, the zones and the digest's hash (\<open>stored_fw\<close>), and of the supervisor its children's exits, the signals, the starts
  that raise and the stops of other threads (\<open>sv_env\<close>).  A workflow write that the code makes under the lock of
  the workflow row is a step of the specification while the row has the status it was read with; the lock
  itself is not modelled.

  Not modelled.  The worker's signals and run loop; heartbeats, metrics, statistics, the admin, management
  commands and migrations; the text of log lines; of stored schedules the rows with values that do
  not read, the importer's preflight and the read back of a written row; of oxpull, unique enqueueing, the SQL probes that
  pick an index and the time bounds set on a session.
\<close>

section \<open>Leases and outcomes\<close>

text \<open>
  C1. However claims, renewals, outcome writes, reaps, refunds and operator actions interleave, no lease
  (task key and epoch) is granted to two claims, at most one outcome is recorded for a lease, and only for
  one that a claim was granted.
\<close>

theorem one_outcome_per_lease:
  assumes "reachable s"
  shows "distinct (map fst (grants s)) \<and> distinct (landed s) \<and> set (landed s) \<subseteq> fst ` set (grants s)"
  using reachable_grants_distinct [OF assms] reachable_landed [OF assms] by blast

theorem one_outcome_per_lease_witness:
  "distinct (map fst (grants demo_settled)) \<and> distinct (landed demo_settled)
     \<and> set (landed demo_settled) \<subseteq> fst ` set (grants demo_settled)"
  by (rule one_outcome_per_lease [OF reachable_settled])

text \<open>
  C2. Every path of \<open>_claim_one\<close> (the PostgreSQL statement, the locking read, the compare-and-set loop with
  others acting between its statements) is a path of the store, and a task it returns carries a lease that was
  granted to this worker and to no other claim.
\<close>

theorem claim_grants_lease:
  assumes "reachable s" "\<forall>n. env_ok (others n)"
    and "claim_one db cfg f noticed busy others now clock (tbl s) = ((Some taken, lost_all), t')"
  shows "\<exists>s'. sys_step\<^sup>*\<^sup>* s s' \<and> tbl s' = t' \<and> taken \<in> seen s'
    \<and> (lease_of taken, worker_id cfg) \<in> set (grants s') \<and> distinct (map fst (grants s'))"
proof -
  from claim_one_path [OF assms] obtain s' where s': "sys_step\<^sup>*\<^sup>* s s'" "tbl s' = t'" "taken \<in> seen s'"
    "(lease_of taken, worker_id cfg) \<in> set (grants s')" unfolding claim_path_def by blast
  with reachable_grants_distinct [OF path_reachable [OF assms(1) s'(1)]] show ?thesis by blast
qed

theorem claim_grants_lease_witness:
  "\<exists>s'. sys_step\<^sup>*\<^sup>* demo_enqueued s' \<and> tbl s' = [demo_claimed] \<and> demo_claimed \<in> seen s'
    \<and> (lease_of demo_claimed, worker_id demo_cfg) \<in> set (grants s') \<and> distinct (map fst (grants s'))"
  using claim_grants_lease [OF reachable_enqueued, of "\<lambda>n t. t" "\<lparr>vendor = Sqlite, skip_locked = False\<rparr>" demo_cfg
      "\<lparr>filter_q = None, filter_sql = None\<rparr>" False "\<lambda>k. False" 1000 "\<lambda>n. 1000" demo_claimed False "[demo_claimed]"]
    env_ok_id demo_claim by simp

text \<open>
  An execution whose row has moved to a later epoch (reclaimed by the reaper, retried, refunded) records
  nothing: its write matches no row, the table is as it was, and it reports that the lease was lost.
\<close>

theorem superseded_execution_writes_nothing:
  assumes "reachable s" "d \<in> seen s" "r \<in> set (tbl s)" "pk r = pk d" "lease_epoch d < lease_epoch r"
  shows "write_outcome d out (tbl s) = ((False, d), tbl s)"
  by (rule superseded_write_refused [OF assms])

theorem superseded_execution_writes_nothing_witness:
  "write_outcome demo_claimed demo_done (tbl demo_reclaimed) = ((False, demo_claimed), tbl demo_reclaimed)"
  by (rule superseded_execution_writes_nothing [OF reachable_reclaimed, of _ "reclaimed_row demo_claimed"])
     (simp_all add: row_simps)



text \<open>
  C4. Every version of a row keeps its bookkeeping: as many worker ids as attempts, no more attempts than
  epochs, a start time exactly from the first attempt on, and the lock fields set exactly while it runs, by
  the last worker of the list.
\<close>

theorem rows_keep_bookkeeping:
  assumes "reachable s" "r \<in> set (tbl s)"
  shows "0 \<le> attempts r \<and> int (length (worker_ids r)) = attempts r \<and> attempts r \<le> lease_epoch r
    \<and> (attempts r = 0 \<longleftrightarrow> started_at r = None)
    \<and> (if status r = RUNNING
       then 1 \<le> attempts r \<and> locked_by r = Some (last (worker_ids r))
         \<and> locked_at r \<noteq> None \<and> lease_expires_at r \<noteq> None
       else locked_by r = None \<and> locked_at r = None \<and> lease_expires_at r = None)"
  using reachable_row_ok [OF assms] unfolding row_ok_def by blast

theorem rows_keep_bookkeeping_witness:
  "int (length (worker_ids demo_claimed)) = attempts demo_claimed \<and> locked_by demo_claimed = Some ''host-7''"
  using rows_keep_bookkeeping [OF reachable_running, of demo_claimed]
  by (simp add: demo_claimed_def row_simps demo_row_def)

text \<open>
  C5. The claim-recovery look never takes back a claim its worker still holds: while claims begin, commit,
  raise, register and settle on other threads, a lease the look refunds is one whose call raised, which is in
  none of the worker's collections and which no call is about to return.
\<close>

theorem recovery_takes_only_raised_claims:
  assumes "fence_reachable s" "looking s = Releasing ls" "l \<in> set ls"
  shows "l \<in> raised_leases s \<and> l \<notin> set (known_leases (mem s)) \<and> (\<forall>i. threads s i \<noteq> Committed l)"
  using look_takes_raised [OF assms] by (simp add: known_tracked)

theorem recovery_takes_only_raised_claims_witness:
  "(1, 1) \<in> raised_leases fence_demo \<and> (1, 1) \<notin> set (known_leases (mem fence_demo))
    \<and> (\<forall>i. threads fence_demo i \<noteq> Committed (1, 1))"
  by (rule recovery_takes_only_raised_claims [OF fence_demo_reachable fence_demo_looking]) simp

text \<open>
  C6. A refund of a claim whose call raised undoes the claim: the row is the one before the claim, two epochs
  later, with the instant of the claim as its last attempt.
\<close>

theorem refund_restores_row:
  assumes "status r = READY" "row_ok r"
  shows "refunded_row (claimed_row cfg clock r) (claimed_row cfg clock r)
    = r\<lparr>lease_epoch := lease_epoch r + 2, last_attempted_at := Some clock\<rparr>"
  using assms by (intro refund_undoes_claim) (simp_all add: row_ok_def)

theorem refund_restores_row_witness:
  "refunded_row demo_claimed demo_claimed = demo_row\<lparr>lease_epoch := 2, last_attempted_at := Some 1000\<rparr>"
  using refund_restores_row [of demo_row demo_cfg 1000] fresh_row_ok [OF demo_fresh]
  by (simp add: demo_claimed_def [symmetric])

text \<open>
  The look never refuses a row it holds: the consistency it demands of a row before a refund (one worker id
  per attempt, its own id last) is an invariant of the store, so a row left out is known or is the reaper's.
\<close>

theorem look_refuses_no_row:
  assumes "reachable s" "r \<in> set (recovery_rows cfg (tbl s))"
  shows "look_verdict cfg now cutoff known r \<noteq> Refused"
  by (rule look_never_refuses [OF assms])

theorem look_refuses_no_row_witness: "look_verdict demo_cfg 1500 0 [] demo_claimed \<noteq> Refused"
  by (rule look_refuses_no_row [OF reachable_running])
     (simp add: recovery_rows_def)

text \<open>
  C7. A result is final: no statement of any worker, reaper or operator changes a row that was ever
  \<open>SUCCESSFUL\<close>.
\<close>

theorem results_are_final:
  assumes "reachable s" "d \<in> seen s" "status d = SUCCESSFUL" "r \<in> set (tbl s)" "pk r = pk d"
  shows "r = d"
  by (rule reachable_successful [OF assms])

theorem results_are_final_witness: "hd (tbl demo_kept) = outcome_fields demo_done demo_claimed"
  by (rule results_are_final [OF reachable_kept demo_kept_seen]) (simp_all add: demo_done_def)

text \<open>
  C8. A task that nobody discarded never exceeds the attempts it was given, and has one left whenever it may
  be claimed.
\<close>

theorem attempts_stay_in_budget:
  assumes "reachable s" "r \<in> set (tbl s)" "\<forall>q \<in> seen s. pk q = pk r \<longrightarrow> status q \<noteq> DISCARDED"
  shows "attempts r \<le> max_attempts r \<and> (status r \<in> {READY, WAITING} \<longrightarrow> attempts r < max_attempts r)"
  using reachable_budget [OF assms(1) _ assms(3)] reachable_seen [OF assms(1)] assms(2)
  unfolding within_budget_def by blast

theorem attempts_stay_in_budget_witness: "attempts demo_claimed \<le> max_attempts demo_claimed"
  using attempts_stay_in_budget [OF reachable_running, of demo_claimed] by simp

text \<open>
  C9. The three claim paths are one: on the same table, with no row locked and nobody between the statements,
  every database claims the same row, writes the same values and leaves the same table.
\<close>

theorem claim_paths_agree:
  assumes "wf_table t"
  shows "claim_one db cfg \<lparr>filter_q = e, filter_sql = e\<rparr> noticed (\<lambda>k. False) (\<lambda>n s. s) now (\<lambda>n. clock) t
    = claim_one db' cfg \<lparr>filter_q = e, filter_sql = e\<rparr> noticed' (\<lambda>k. False) (\<lambda>n s. s) now (\<lambda>n. clock) t"
  unfolding claim_one_same [OF assms] ..

theorem claim_paths_agree_witness:
  "claim_one \<lparr>vendor = Postgresql, skip_locked = True\<rparr> demo_cfg \<lparr>filter_q = None, filter_sql = None\<rparr> False
      (\<lambda>k. False) (\<lambda>n t. t) 1000 (\<lambda>n. 1000) [demo_row] = ((Some demo_claimed, False), [demo_claimed])"
  using claim_paths_agree [of "[demo_row]" "\<lparr>vendor = Postgresql, skip_locked = True\<rparr>" demo_cfg None False 1000 1000
      "\<lparr>vendor = Sqlite, skip_locked = False\<rparr>" False] demo_claim
  by (simp add: wf_table_def)

text \<open>
  A claim takes the first runnable row: of the due \<open>READY\<close> rows of the worker's queues that pass its
  filter, one with the highest priority and, among those, the earliest enqueue; and it comes back empty only
  when there is none.
\<close>

theorem claim_takes_first:
  assumes "wf_table t"
    and "claim_one db cfg \<lparr>filter_q = e, filter_sql = e\<rparr> noticed (\<lambda>k. False) (\<lambda>n s. s) now (\<lambda>n. clock) t
      = ((got, lost_all), t')"
  shows "case got of
      None \<Rightarrow> t' = t \<and> (\<forall>r \<in> set t. \<not> runnable cfg e now r)
    | Some d \<Rightarrow> (\<exists>r \<in> set t. runnable cfg e now r \<and> d = claimed_row cfg clock r \<and> fetch (pk r) t' = Some d
        \<and> (\<forall>q \<in> set t. runnable cfg e now q \<longrightarrow>
              priority q < priority r \<or> priority q = priority r \<and> enqueued_at r \<le> enqueued_at q))"
proof -
  have "claim_one_locking cfg \<lparr>filter_q = e, filter_sql = e\<rparr> (\<lambda>k. False) now clock t = (got, t')"
    using assms(2) unfolding claim_one_same [OF assms(1)] by (auto split: prod.splits)
  from claim_one_locking_first [OF assms(1) this] show ?thesis
    unfolding claim_order_le claim_filter.simps .
qed

theorem claim_takes_first_witness:
  "\<exists>r \<in> set [demo_row]. runnable demo_cfg None 1000 r \<and> demo_claimed = claimed_row demo_cfg 1000 r"
  using claim_takes_first [OF _ demo_claim] by (simp add: wf_table_def)

text \<open>
  A lease is abandoned exactly when its own expiry has passed, for every reaper alike and whatever
  timeout that reaper runs with: a row just claimed or just renewed is safe for the lock timeout of its
  holder.
\<close>

theorem lease_expires_by_itself:
  assumes "0 \<le> lock_timeout cfg"
  shows "(abandoned_lease now cutoff (claimed_row cfg clock r) \<longleftrightarrow> clock + lock_timeout cfg < now)
    \<and> (abandoned_lease now cutoff (renewed_row cfg clock r) \<longleftrightarrow> clock + lock_timeout cfg < now)"
proof
  show "abandoned_lease now cutoff (claimed_row cfg clock r) \<longleftrightarrow> clock + lock_timeout cfg < now"
    by (rule own_expiry_decides [of _ _ clock]) (simp_all add: claimed_row_def assms)
  show "abandoned_lease now cutoff (renewed_row cfg clock r) \<longleftrightarrow> clock + lock_timeout cfg < now"
    by (rule own_expiry_decides [of _ _ clock]) (simp_all add: renewed_row_def assms)
qed

theorem lease_expires_by_itself_witness:
  "\<not> abandoned_lease 300001000 0 demo_claimed \<and> abandoned_lease 300001001 0 demo_claimed"
  using lease_expires_by_itself [of demo_cfg 300001000 0 1000 demo_row]
    lease_expires_by_itself [of demo_cfg 300001001 0 1000 demo_row]
  unfolding demo_claimed_def by (simp add: demo_cfg_def)

text \<open>
  C10. When the reaper's log line names the tasks it requeued, those are exactly the rows its UPDATE moved,
  although the list was read before other sessions acted; every named row became \<open>READY\<close> at its next epoch
  and no other row changed.
\<close>

theorem reaper_names_what_it_requeued:
  assumes "wf_table (others t)"
    and "requeue_abandoned mariadb cfg c others t = ((n, Names ks), t')"
  shows "set ks = {k. \<exists>r. fetch k (others t) = Some r \<and> requeue_pin (at_write c) ks r}
    \<and> (\<forall>k. if k \<in> set ks
          then \<exists>r. fetch k (others t) = Some r \<and> fetch k t' = Some (reclaimed_row r)
          else fetch k t' = fetch k (others t))"
  using requeue_names_exact [OF assms] by simp

theorem reaper_names_what_it_requeued_witness:
  "\<exists>r. fetch 1 demo_pair = Some r \<and> fetch 1 [reclaimed_row demo_claimed, demo_failed] = Some (reclaimed_row r)"
  using reaper_names_what_it_requeued [OF _ demo_requeue] demo_pair_wf by (auto dest: spec [of _ 1])

text \<open>
  \<open>retry_many\<close> retries exactly the retryable rows of its selection, each as \<open>retry\<close> would, and
  returns how many it moved and how many of the distinct ids, malformed ones included, it skipped.
\<close>

theorem retry_many_moves_and_counts:
  assumes "wf_table t" "1 \<le> tries" "\<forall>a m. fault a m = None" "ids_of sel = (ids, malformed)"
    and "retry_many mariadb locking tries fault others sel t = (Inr (changed, skipped), t')"
  shows "changed = int (card {k \<in> set ids. \<exists>r. fetch k t = Some r \<and> retryable r})
    \<and> changed + skipped = int (length ids + malformed) \<and> 0 \<le> skipped
    \<and> fetch k t' = map_option (\<lambda>r. if k \<in> set ids \<and> retryable r then retried r else r) (fetch k t)"
proof -
  have "counted (length ids) malformed (move_in_key_order mariadb locking tries fault others ids retryable retried t)
      = (Inr (changed, skipped), t')" using assms(4,5) by (simp add: retry_many_def)
  from bulk_clean [OF assms(1) keeps_key(1) assms(2,3) ids_of_distinct [OF assms(4)] this] show ?thesis by blast
qed

theorem retry_many_moves_and_counts_witness:
  "fetch 2 [demo_claimed, retried demo_failed] = Some (retried demo_failed)"
  using retry_many_moves_and_counts [OF demo_pair_wf _ _ demo_selection demo_retry_many, of 2] by simp

text \<open>
  C11. A bulk discard is all or nothing: whatever faults its statements meet and whatever other sessions commit
  between its attempts, it has moved its whole selection from the state one attempt started from, or nothing
  at all.
\<close>

theorem bulk_discard_all_or_nothing:
  assumes "1 \<le> tries" "discard_many mariadb locking tries fault others now sel t = (res, t')"
  shows "\<exists>n. 1 \<le> n \<and> n \<le> tries \<and>
    (case res of
       Inl e \<Rightarrow> t' = state_at others t n
     | Inr (changed, skipped) \<Rightarrow>
         t' = move_rows (set (fst (ids_of sel))) discardable (discarded_at now) (state_at others t n)
         \<and> changed = int (rows_moving (set (fst (ids_of sel))) discardable (state_at others t n)))"
proof -
  obtain ids m where i: "ids_of sel = (ids, m)" by fastforce
  obtain out u where o: "move_in_key_order mariadb locking tries fault others ids discardable (discarded_at now) t
      = (out, u)" by fastforce
  from move_in_key_order_cases [OF keeps_key(2) ids_of_distinct [OF i] assms(1) o] obtain n where
    n: "1 \<le> n" "n \<le> tries"
    "\<And>j. out = Inr j \<Longrightarrow> j = rows_moving (set ids) discardable (state_at others t n)
        \<and> u = move_rows (set ids) discardable (discarded_at now) (state_at others t n)"
    "\<And>e. out = Inl e \<Longrightarrow> u = state_at others t n" by metis
  have "(res, t') = counted (length ids) m (out, u)" using assms(2) i o by (simp add: discard_many_def)
  with n i show ?thesis by (intro exI [of _ n]) (cases out; simp add: counted_def)
qed

theorem bulk_discard_all_or_nothing_witness:
  "\<exists>n. 1 \<le> n \<and> n \<le> (1::nat) \<and> demo_pair = state_at (\<lambda>n t. t) demo_pair n"
  using bulk_discard_all_or_nothing [OF _ demo_bulk_fault] by auto

text \<open>
  Two bulk actions meet the rows they share in the same order, on every database: each works through its
  selection in the key order, chunk by chunk, so neither holds a row the other needs while waiting for one
  the other holds.
\<close>

theorem bulk_actions_share_one_order:
  assumes "ids_of sel = (xs, m)" "ids_of sel' = (ys, m')"
    and "\<forall>k \<in> set xs \<inter> set ys. mariadb \<longrightarrow> is_uuid4 k"
  shows "filter (\<lambda>k. k \<in> set ys) (concat (chunks update_chunk_size (sort_key (key_order mariadb) xs)))
    = filter (\<lambda>k. k \<in> set xs) (concat (chunks update_chunk_size (sort_key (key_order mariadb) ys)))"
proof -
  have "inj_on (key_order mariadb) (set xs \<inter> set ys)"
    by (rule key_order_inj_on) (use assms(3) in blast)
  from shared_in_one_order [OF ids_of_distinct [OF assms(1)] ids_of_distinct [OF assms(2)] this]
  show ?thesis by (simp add: concat_chunks update_chunk_size_def)
qed

theorem bulk_actions_share_one_order_witness:
  "filter (\<lambda>k. k \<in> set [3, 2, 1]) (concat (chunks update_chunk_size (sort_key (key_order False) [2, 1])))
    = filter (\<lambda>k. k \<in> set [2, 1]) (concat (chunks update_chunk_size (sort_key (key_order False) [3, 2, 1])))"
  by (rule bulk_actions_share_one_order [OF demo_selection, where sel' = "[Uuid 3, Uuid 2, Uuid 1]" and m' = 0])
     (code_simp, simp)

text \<open>
  Operators cannot touch a running task: neither \<open>retry\<close> nor \<open>discard\<close>, nor the bulk forms, changes
  a row that is \<open>RUNNING\<close> when their UPDATE reaches it, whatever they read before.
\<close>

theorem operators_spare_running:
  assumes "wf_table (others t)" "fetch k (others t) = Some r" "status r = RUNNING"
  shows "(retry others i t = (t1, True) \<longrightarrow> fetch k t1 = Some r)
    \<and> (discard others now i t = (t2, True) \<longrightarrow> fetch k t2 = Some r)
    \<and> fetch k (move_rows A retryable retried (others t)) = Some r
    \<and> fetch k (move_rows A discardable (discarded_at now) (others t)) = Some r"
proof -
  have "\<not> retryable r" "\<not> discardable r"
    using assms(3) by (simp_all add: retryable_def retryable_statuses_def discardable_def discardable_statuses_def)
  then show ?thesis
    using retry_spares_running [where others = others and t = t, OF assms]
      discard_spares_running [where others = others and t = t, OF assms] assms(2)
      fetch_move_rows [OF assms(1) keeps_key(1)] fetch_move_rows [OF assms(1) keeps_key(2)] by auto
qed

theorem operators_spare_running_witness:
  "fetch 1 (move_rows {1, 2} discardable (discarded_at 9) demo_pair) = Some demo_claimed"
  using operators_spare_running [of "\<lambda>t. t" demo_pair 1 demo_claimed] demo_pair_wf by simp

text \<open>
  \<open>revive_many\<close> reports the truth: the fate it returns for each id is the one the row had in the state
  its committed attempt started from, and the rows it moved to \<open>WAITING\<close> are exactly those it reports revived.
\<close>

theorem revive_many_reports_truth:
  assumes "1 \<le> tries" "\<forall>n. wf_table (state_at others t n)"
    and "revive_many mariadb tries fault others given t = (Inr es, t')"
  shows "\<exists>n. 1 \<le> n \<and> n \<le> tries
    \<and> es = map (\<lambda>p. (fst p, revival_of (state_at others t n) p)) (fst (pinned mariadb given))
    \<and> t' = fst (update_where (pins (set (fst (pinned mariadb given))) {DISCARDED}) revived (state_at others t n))"
  by (rule revive_many_Inr [OF assms])

theorem revive_many_reports_truth_witness:
  "\<exists>n. 1 \<le> n \<and> n \<le> (1::nat)
    \<and> [(2, WRONG_STATUS_OR_EPOCH)] = map (\<lambda>p. (fst p, revival_of (state_at (\<lambda>n t. t) demo_pair n) p))
        (fst (pinned False [(Uuid 2, 3)]))"
  using revive_many_reports_truth [OF _ _ demo_revive] demo_state_wf by auto

text \<open>
  The WHERE clause of a bulk statement means what its pins say: the one-epoch comparison and the
  \<open>CASE\<close> over ascending epochs both match a row exactly when its key is pinned at its own epoch and its
  status is wanted.
\<close>

theorem pinned_rows_match_pins:
  assumes "distinct (map fst chunk)"
  shows "pinned_rows chunk statuses r \<longleftrightarrow> (pk r, lease_epoch r) \<in> set chunk \<and> status r \<in> set statuses"
  using pinned_rows_pins [OF assms] by (auto simp: pins_def)

theorem pinned_rows_match_pins_witness:
  "pinned_rows [(1, 1), (2, 4)] [RUNNING] demo_claimed \<and> \<not> pinned_rows [(1, 2), (2, 4)] [RUNNING] demo_claimed"
  using pinned_rows_match_pins [of "[(1, 1), (2, 4)]" "[RUNNING]" demo_claimed]
    pinned_rows_match_pins [of "[(1, 2), (2, 4)]" "[RUNNING]" demo_claimed] by simp

text \<open>
  An outcome is written once or not at all: however often the connection breaks, whether or not the
  server had applied the statement, the table is as it was or as one write leaves it.
\<close>

theorem reconnecting_writes_once:
  assumes "wf_table t" "write_outcome_reconnecting waits first rest (\<lambda>n u. u) d out t = (res, t')"
  shows "t' = t \<or> t' = snd (write_outcome d out t)"
  using reconnecting_once [OF assms(1), of waits first rest d out] assms(2) by auto

theorem reconnecting_writes_once_witness:
  "snd (write_outcome_reconnecting 1 (Broke True True) [Broke False True, Replied] (\<lambda>n u. u) demo_claimed demo_done
      demo_pair) \<in> {demo_pair, snd (write_outcome demo_claimed demo_done demo_pair)}"
  using reconnecting_writes_once [OF demo_pair_wf, of 1 "Broke True True" "[Broke False True, Replied]" demo_claimed
      demo_done] by (metis insert_iff prod.collapse)

text \<open>
  A retry is only ever scheduled for a task with attempts left, and its delay is between nothing and a
  thousand years, whatever the task's own backoff answered.
\<close>

theorem retry_delay_is_bounded:
  assumes "0 \<le> backoff_initial b" "0 \<le> backoff_max b" "backoff_max b \<le> max_seconds"
    and "failure_decision b pol d = Delay s"
  shows "attempts d < max_attempts d \<and> 0 \<le> s \<and> s \<le> max_seconds"
  by (rule failure_delay_bounds [OF assms])

theorem retry_delay_is_bounded_witness: "(2 :: rat) \<le> max_seconds"
  using retry_delay_is_bounded [of "\<lparr>backoff_initial = 2, backoff_max = 60\<rparr>" None demo_claimed 2]
  by (simp add: failure_decision_def worker_delay_def max_seconds_def)

section \<open>Schedules\<close>

text \<open>
  C12. A cron expression the parser accepts is well formed: every field is a non-empty ascending list of
  values in its range, an unrestricted day field is the full range, and some calendar day satisfies the day
  fields.
\<close>

theorem parsed_cron_is_well_formed:
  assumes "parse_cron text = Inr c"
  shows "vals_ok 0 59 (minutes c) \<and> vals_ok 0 23 (hours c) \<and> vals_ok 1 31 (days_of_month c)
    \<and> vals_ok 1 12 (months c) \<and> vals_ok 0 6 (days_of_week c) \<and> \<not> unsatisfiable_days c
    \<and> (\<not> dom_restricted c \<longrightarrow> days_of_month c = [1 .. 31])
    \<and> (\<not> dow_restricted c \<longrightarrow> days_of_week c = [0 .. 6])"
  using parse_cron_ok [OF assms] unfolding cron_ok_def .

theorem parsed_cron_is_well_formed_witness: "vals_ok 1 31 (days_of_month leap_day)"
  using parsed_cron_is_well_formed [OF leap_day_parsed] by blast

text \<open>
  C13. \<open>following\<close>, which jumps over months, days and hours, returns the earliest minute after its argument
  that matches the expression.
\<close>

theorem following_is_next_tick:
  assumes "cron_ok c" "valid_dt dt" "following c dt = Some (Inr r)"
  shows "valid_dt r \<and> matches c r \<and> abs_minutes dt < abs_minutes r
    \<and> (\<forall>x. valid_dt x \<longrightarrow> abs_minutes dt < abs_minutes x \<longrightarrow> abs_minutes x < abs_minutes r \<longrightarrow> \<not> matches c x)"
  by (rule following_earliest_tick [OF assms])

theorem following_is_next_tick_witness: "matches leap_day (at_time 2028 2 29 0 0)"
  using following_is_next_tick [OF leap_day_ok _ leap_day_next]
  by (simp add: valid_at_time valid_date_def days_in_month_def)

text \<open>
  \<open>previous\<close> returns the latest minute at or before its argument that matches the expression.
\<close>

theorem previous_is_last_tick:
  assumes "cron_ok c" "valid_dt dt" "previous c dt = Some (Inr r)"
  shows "valid_dt r \<and> matches c r \<and> abs_minutes r \<le> abs_minutes dt
    \<and> (\<forall>x. valid_dt x \<longrightarrow> abs_minutes r < abs_minutes x \<longrightarrow> abs_minutes x \<le> abs_minutes dt \<longrightarrow> \<not> matches c x)"
  by (rule previous_latest_tick [OF assms])

theorem previous_is_last_tick_witness: "matches leap_day (at_time 2024 2 29 0 0)"
  using previous_is_last_tick [OF leap_day_ok _ leap_day_last]
  by (simp add: valid_at_time valid_date_def days_in_month_def)

text \<open>
  C14. The searches end, and eight years and a bit of calendar are enough: both loops terminate for every date,
  and both find a tick unless they run into the first or last year of the calendar or are given an aware date.
\<close>

theorem searches_end_and_find:
  assumes "cron_ok c" "valid_dt dt"
  shows "(\<exists>res. following c dt = Some res) \<and> (\<exists>res. previous c dt = Some res)
    \<and> (\<not> dt_aware dt \<longrightarrow> abs_minutes dt + 1 + search_days * 1440 \<le> last_minute \<longrightarrow>
         (\<exists>r. following c dt = Some (Inr r)))
    \<and> (\<not> dt_aware dt \<longrightarrow> first_minute \<le> abs_minutes dt - search_days * 1440 \<longrightarrow>
         (\<exists>r. previous c dt = Some (Inr r)))"
  using following_total [OF assms] previous_total [OF assms] following_succeeds [OF assms]
    previous_succeeds [OF assms] by blast

theorem searches_end_and_find_witness: "\<exists>res. previous leap_day (at_time 1 1 1 0 0) = Some res"
  using searches_end_and_find [OF leap_day_ok, of "at_time 1 1 1 0 0"]
  by (simp add: valid_at_time valid_date_def days_in_month_def)

text \<open>
  Two workers looking at different instants derive the same tick unless a tick lies between: of two looks
  the later one's latest tick is not earlier, and if it is not after the earlier look the two ticks are one.
\<close>

theorem workers_derive_the_same_tick:
  assumes "trigger_ok tr" "full_dt a" "full_dt b" "micros a \<le> micros b"
    and "trigger_previous tr a = Some (Inr r)" "trigger_previous tr b = Some (Inr q)"
  shows "micros r \<le> micros q \<and> (micros q \<le> micros a \<longrightarrow> micros q = micros r)"
  using trig.later_clock [OF assms] trig.no_tick_between [OF assms] by blast

theorem workers_derive_the_same_tick_witness:
  "micros (at_time 2026 1 1 12 30) \<le> micros (at_time 2026 1 1 12 30)"
  using workers_derive_the_same_tick [OF _ _ _ _ minute_trigger] by code_simp

text \<open>
  An interval the parser accepts never overflows: from the epoch on, the latest tick of an interval
  trigger exists, is on its grid, and lies less than one interval back.
\<close>

theorem interval_tick_exists:
  assumes "interval_ok every phase" "full_dt dt" "\<not> dt_aware dt" "micros interval_epoch \<le> micros dt"
  shows "\<exists>r. interval_previous every phase dt = Inr r \<and> full_dt r \<and> interval_due every phase r
    \<and> micros r \<le> micros dt \<and> micros dt < micros r + every"
proof -
  obtain r where r: "interval_previous every phase dt = Inr r" using interval_previous_ok [OF assms] by blast
  have "0 < every" using assms(1) by (simp add: interval_ok_def min_interval_def)
  from interval_previous_tick [OF this r] r show ?thesis by blast
qed

theorem interval_tick_exists_witness:
  "\<exists>r. interval_previous 60000000 0 (at_time 2026 1 1 12 30) = Inr r \<and> interval_due 60000000 0 r"
  using interval_tick_exists [of 60000000 0 "at_time 2026 1 1 12 30"] demo_interval by blast

text \<open>
  C15. Schedules from settings: whatever \<open>OPTIONS\<close> holds, a mapping the parser accepts yields only schedules
  with a usable trigger, a name that fits the tick log and cannot collide with a stored schedule's key, and a
  task bound to this backend; nothing else of it is accepted.
\<close>

theorem settings_schedules_are_usable:
  assumes "schedules_from_options fw options alias = Inr ss" "s \<in> set ss"
  shows "trigger_ok (sched_trigger s) \<and> sched_name s \<noteq> [] \<and> \<not> has_prefix stored_key_prefix (sched_name s)
    \<and> length (sched_name s) \<le> schedule_name_max_length \<and> td_backend (sched_task s) = alias
    \<and> schedule_key s = sched_name s"
  using schedules_from_options_ok [OF assms] unfolding settings_schedule_ok_def by blast

theorem settings_schedules_are_usable_witness: "trigger_ok (sched_trigger demo_schedule)"
  using settings_schedules_are_usable [OF demo_settings] by simp

text \<open>
  The check for names a case-insensitive tick log would merge is complete: it is silent exactly when no
  two different configured names are equal after folding.
\<close>

theorem name_folding_check_is_complete:
  "schedule_names_folding_together ts = [] \<longleftrightarrow>
    (\<forall>a \<in> set (map fst ts). \<forall>b \<in> set (map fst ts).
       \<forall>n \<in> set (names_at ts a). \<forall>m \<in> set (names_at ts b). lower n = lower m \<longrightarrow> n = m)"
  using fold_names_Nil [of "[]" "concat (map (names_at ts) (sort (map fst ts)))"]
  by (auto simp: schedule_names_folding_together_def)

theorem name_folding_check_is_complete_witness:
  "schedule_names_folding_together [(''default'', PyDict [(PyStr ''a'', PyNone), (PyStr ''A'', PyNone)])] \<noteq> []"
  unfolding name_folding_check_is_complete
  by (intro notI) (drule bspec [of _ _ "''default''"], simp, code_simp)

section \<open>Dispatch\<close>



text \<open>
  A tick in the log is never dispatched again: a worker that derives an instant already recorded for the
  schedule, however stale its read of the log, enqueues nothing and anchors nothing.
\<close>

theorem recorded_tick_is_not_dispatched:
  assumes "turn_keeps tn s i" "recorded (schedule_key s) i (ticks d)"
    and "take_turn z now tn s i read d = (v, d')"
  shows "v \<noteq> Dispatched r"
  by (rule recorded_not_dispatched [OF assms])

theorem recorded_tick_is_not_dispatched_witness: "Skipped \<noteq> Dispatched (Some 7)"
  by (rule recorded_tick_is_not_dispatched [OF demo_turn_ok(4) _ demo_recorded_turn]) code_simp



text \<open>
  The number a pass returns is the number of tasks it enqueued: with nobody else acting, the tasks it added
  are those of the schedules it dispatched, one each, in their order.
\<close>

theorem pass_counts_its_tasks:
  assumes "\<forall>n. alone (tn n)"
    and "dispatch_schedules z now poison conn_ok limit tn ss d = (Some (vs, n), d')"
  shows "enqueued d' = enqueued d @ dispatched_tasks vs \<and> length (dispatched_tasks vs) = n"
proof (cases "due_ticks z now ss")
  case Nil
  then show ?thesis using assms(2) by (auto simp: dispatch_schedules_def)
next
  case (Cons x due)
  then obtain latest where "take_turns z now tn 0 latest (x # due) d = (Some vs, d')"
    "n = length (dispatched_tasks vs)"
    using assms(2) by (auto simp: dispatch_schedules_def split: option.splits prod.splits)
  then show ?thesis using take_turns_alone [OF assms(1)] by simp
qed

theorem pass_counts_its_tasks_witness:
  "enqueued \<lparr>ticks = [new_tick ''nightly'' (noon - 60000000), demo_fired], enqueued = [7]\<rparr>
    = enqueued demo_log @ dispatched_tasks [(demo_schedule, Dispatched (Some 7))]"
  using pass_counts_its_tasks [OF _ demo_pass] demo_turn_ok(2) by simp

text \<open>
  One schedule's failure is that schedule's: a turn that did not dispatch, for a refused argument, a lost
  race, a fault of its enqueue or an unreadable tick, leaves the log and the queue as they were, and the
  schedules after it are taken exactly as if it had not been there.
\<close>

theorem failed_schedule_leaves_no_trace:
  assumes "alone (tn n)" "take_turn z now (tn n) s i read d = (v, d')"
    and "read = (case map_of latest (schedule_key s) of Some r \<Rightarrow> r | None \<Rightarrow> Absent)"
    and "v \<noteq> PassFails" "\<forall>r. v \<noteq> Dispatched r"
  shows "d' = d \<and> take_turns z now tn n latest ((s, i) # due) d
    = (case take_turns z now tn (n + 1) latest due d of (vs, d'') \<Rightarrow> (map_option (\<lambda>vs. (s, v) # vs) vs, d''))"
  using skipped_turn_alone [where tn = tn and n = n, OF assms(1-4)] take_turn_alone [OF assms(1,2)] assms(5) by blast

theorem failed_schedule_leaves_no_trace_witness:
  "fst (take_turns demo_zone noon (\<lambda>n. refused_turn) 0 [] [(demo_schedule, noon)] demo_log)
    = Some [(demo_schedule, ScheduleFails)]"
  using failed_schedule_leaves_no_trace [where tn = "\<lambda>n. refused_turn" and n = 0 and latest = "[]" and due = "[]",
      OF demo_turn_ok(3) demo_refused_turn] by simp

text \<open>
  Reading the log for many keys at once gives each key its own answer: sliced by the connection's limit
  and halved around values the driver cannot hand over, the read says of every key what a read of that key
  alone would, and an unreadable key never hides another's tick.
\<close>

theorem bounded_read_answers_each_key:
  assumes "k \<in> set keys"
  shows "map_option (\<lambda>found. map_of found k) (latest_ticks poison True limit rows since keys)
    = Some (Some (if poison k then Unreadable else newest_read k since rows))"
  unfolding latest_ticks_narrows using assms by (simp add: map_of_map_restrict restrict_map_def key_read_def)

theorem bounded_read_answers_each_key_witness:
  "map_option (\<lambda>found. map_of found ''b'')
      (latest_ticks (\<lambda>k. k = ''a'') True (Some 3) [new_tick ''b'' 5] 0 [''a'', ''b'']) = Some (Some (ReadAt 5))"
proof -
  have "newest_read ''b'' 0 [new_tick ''b'' 5] = ReadAt 5" by code_simp
  then show ?thesis using bounded_read_answers_each_key [of "''b''" "[''a'', ''b'']" "\<lambda>k. k = ''a''" "Some 3"
        "[new_tick ''b'' 5]" 0] by simp
qed

text \<open>
  No failure is lost in the throttled report: of a run of failures the first is reported in full, every
  later one is in exactly one summary or counted towards the next, and two lines are at least a minute apart.
\<close>

theorem report_accounts_for_failures:
  assumes "failing_run (t # ts) None = (st, lines)"
  shows "\<exists>g rest. st = Some g \<and> lines = (t, 1, 0) # rest \<and> failures g = length (t # ts)
    \<and> 1 + covered rest + unreported g = length (t # ts)
    \<and> sorted_wrt (\<lambda>a b. fst a + report_interval \<le> fst b) lines"
  using failing_run_from_start [OF assms] by metis

theorem report_accounts_for_failures_witness:
  "\<exists>g rest. Some \<lparr>failures = 4, unreported = 1, reported_at = 70000000\<rparr> = Some g
    \<and> [(0, 1, 0), (70000000, 3, 2)] = (0, 1, 0) # rest \<and> 1 + covered rest + unreported g = 4"
  using report_accounts_for_failures [OF demo_failing] by auto

section \<open>Stored schedules\<close>

text \<open>
  C18. A stored schedule the rules accept is one a worker can run: the row its columns then hold builds, with a
  trigger that keeps the contract of a trigger, the row's bounds and deadline, and the key of the row in the tick log.
\<close>

theorem validated_rows_build:
  assumes "fw_own_low fw = Some l" "0 \<le> l"
    and "validate_schedule fw True d = []" "stored_as fw k now d = Some row"
    and "\<forall>kd \<in> snd ` set (fw_registry fw). td_backend (kd_task kd) = backend \<or> fw_valid_task fw ((kd_task kd)\<lparr>td_backend := backend\<rparr>)"
  shows "\<exists>s. to_schedule fw backend row = Inr s \<and> trigger_ok (sched_trigger s)
    \<and> start_time s = Some (time_micros (sr_start row)) \<and> end_time s = map_option time_micros (sr_end row)
    \<and> starting_deadline s = map_option (\<lambda>n. n * 1000000) (sr_deadline row) \<and> dispatch_key s = stored_key_prefix @ nat_text k"
  by (rule valid_row_builds [OF assms])

theorem validated_rows_build_witness:
  "\<exists>s. to_schedule demo_stored ''default'' demo_stored_row = Inr s \<and> trigger_ok (sched_trigger s) \<and> starting_deadline s = Some 30000000"
  using validated_rows_build [OF _ _ demo_draft_valid demo_draft_stored, of 0 "''default''"]
  by (auto simp: demo_stored_def demo_kind_def demo_stored_row_def)

text \<open>
  An interval row that builds, however it was written, has a tick at every clock reading from the epoch on: neither a
  long interval nor a phase of many intervals makes its trigger raise in the dispatch pass.
\<close>

theorem built_rows_derive_ticks:
  assumes "row_trigger r = Inr (IntervalTrigger e p)" "\<forall>n. sr_every r = Some n \<longrightarrow> 0 \<le> n" "0 \<le> sr_phase r"
    and "full_dt dt" "\<not> dt_aware dt" "micros interval_epoch \<le> micros dt"
  shows "\<exists>t. interval_previous e p dt = Inr t"
  by (rule built_interval_ticks [OF assms])

text \<open>
  A batch is accepted exactly when its rows are accepted one after the other, and leaves the same table.
\<close>

theorem batch_is_its_rows:
  "create_schedules fw user (\<lambda>t. t) now rows st = (Inr (), st') \<longleftrightarrow> create_each fw user now rows st = Some st'"
  by (rule create_schedules_added)



text \<open>
  C20. Of the workers that saw one boundary stale, one moves it: its move sets the start time to its clock and the
  digest to the row's columns, and any later move for the same sighting, whatever has happened since and whatever its
  clock reads, leaves the table as it is.
\<close>

theorem one_heal_per_sighting:
  assumes "keys_ok (sy_store s)" "find_row k (sy_store s) = Some r"
    and "heal_row fw False now k (boundary_of r) (sy_store s) = (how, sy_store s1)" "stored_run fw backend s1 s2"
  shows "snd (heal_row fw fails later k (boundary_of r) (sy_store s2)) = sy_store s2
    \<and> (\<forall>q. find_row k (sy_store s1) = Some q \<longrightarrow>
         sr_generation q = Suc (sr_generation r) \<and> sr_start q = now_time fw now \<and> \<not> stale_boundary fw q)"
  using second_heal_settles [OF assms] healed_moves [OF assms(3) _ assms(1,2) refl] by blast

theorem one_heal_per_sighting_witness:
  "snd (heal_row demo_stored False (noon + 5) 4 (boundary_of demo_paused) healed_store) = healed_store
    \<and> sr_start healed_row = AwareTime noon"
  using one_heal_per_sighting [of paused_system 4 demo_paused demo_stored noon Settled healed_system "''default''" healed_system False "noon + 5"]
    demo_found demo_heal by (simp add: paused_system_def healed_system_def stored_run_def now_time_def demo_stored_def)

text \<open>
  C21. A tick of a stored schedule is enqueued only if its row, as locked in the same transaction, is there, is
  enabled, carries a boundary set for the columns it now holds, and wants the instant: not before its boundary and not
  after its end.
\<close>

theorem stored_tick_needs_a_current_row:
  assumes "take_turn z now tn s i read d = (Dispatched x, d')"
    and "refreshed tn s = fst (current fw backend fault k src st)"
  shows "\<exists>r. find_row k st = Some r \<and> sr_enabled r \<and> sr_boundary_for r = boundary_digest fw r
    \<and> time_micros (sr_start r) \<le> i \<and> (\<forall>e. sr_end r = Some e \<longrightarrow> i \<le> time_micros e)"
  by (rule stored_tick [OF assms]) (auto simp: stale_boundary_def)

theorem stored_tick_needs_a_current_row_witness:
  "\<exists>r. find_row 4 current_store = Some r \<and> sr_enabled r \<and> time_micros (sr_start r) \<le> noon"
  using stored_tick_needs_a_current_row [OF demo_stored_turn, of demo_stored "''default''" None 4 new_source current_store]
  by (auto simp: stored_turn_def)



text \<open>
  The schedules of the settings and those of the rows have distinct keys in the tick log.
\<close>

theorem source_keys_are_distinct:
  assumes "schedules_from_options fw0 options backend = Inr settings" "distinct (map sched_name settings)" "keys_ok st"
  shows "distinct (map schedule_key (settings @ so_cached (build fw backend st src)))"
  by (rule source_keys_apart [OF assms])

section \<open>Limits\<close>

text \<open>
  C23. With \<open>W\<close> workers claiming under one rate limit of capacity N, a claim by any of them, whatever
  the others and the database do between its statements, is a run of the limit's budget that admits a task
  exactly when the claim returns one that the limit covers; and the tasks started in the open window are at
  most N + W - 1 plus those whose count was lost.
\<close>

theorem window_admissions_are_bounded:
  assumes "\<forall>n. fair coll c W me (turn env n)" "me < W" "rate_sim coll c me l s b" "obeys_filter take_task"
    and "claim_limited env coll flt gate fails t take_task l (n, s) = (r, l', (n', s'))"
    and "budget_run (rl_limit c) W as fresh_budget = Some b" "0 \<le> rl_limit c"
  shows "\<exists>bs b'. budget_run (rl_limit c) W (as @ bs) fresh_budget = Some b' \<and> tracks coll c me s' b'
    \<and> started b' \<le> rl_limit c + int W - 1 + uncounted b'
    \<and> (\<forall>got. r = Inr got \<longrightarrow> rate_sim coll c me l' s' b'
        \<and> admissions me bs = (if \<exists>x. got = Some x \<and> rl_covers c (task_path x) (queue_name x) then 1 else 0))"
  by (rule claim_within_bound [OF assms])

theorem window_admissions_are_bounded_witness:
  "\<exists>bs b'. budget_run (rl_limit demo_limit) 2 ([Look 1, Admit 1] @ bs) fresh_budget = Some b'
    \<and> tracks id demo_limit 0 demo_rivals_after b' \<and> started b' \<le> 2 + uncounted b' \<and> admissions 0 bs = 1"
proof -
  have cov: "rl_covers demo_limit (task_path demo_claimed) (queue_name demo_claimed)" and cap: "rl_limit demo_limit = 1"
    by (simp_all add: rl_covers_def demo_limit_def demo_claimed_def demo_row_def)
  obtain bs b' where "budget_run (rl_limit demo_limit) 2 ([Look 1, Admit 1] @ bs) fresh_budget = Some b'"
    "tracks id demo_limit 0 demo_rivals_after b'" "started b' \<le> rl_limit demo_limit + int 2 - 1 + uncounted b'"
    "admissions 0 bs = (if \<exists>x. Some demo_claimed = Some x \<and> rl_covers demo_limit (task_path x) (queue_name x) then 1 else 0)"
    using window_admissions_are_bounded [OF demo_env_fair _ demo_rate_sim demo_take_obeys demo_limited_claim demo_budget_run]
      cap by auto
  with cov cap show ?thesis by (intro exI [of _ bs] exI [of _ b']) simp
qed



text \<open>
  Every rate limit the options parser accepts can be applied: its name fits the window table's key and
  stays distinct where case is folded, its capacity is not negative and its period at least a second, it
  covers something, and every queue it names is the backend's.
\<close>

theorem rate_limits_are_usable:
  assumes "rate_limits_from_options options accepted = Inr limits"
  shows "sorted (map rl_name limits) \<and> distinct (map (\<lambda>l. lower (rl_name l)) limits)
    \<and> (\<forall>l \<in> set limits. rl_name l \<noteq> [] \<and> length (rl_name l) \<le> 128 \<and> 0 \<le> rl_limit l \<and> 1 \<le> rl_per l
        \<and> (rl_paths l \<noteq> {} \<or> rl_queues l \<noteq> {}) \<and> (accepted = [] \<or> rl_queues l \<subseteq> set accepted))"
  using rate_limits_from_options_ok [OF assms]
  by (auto simp: rate_limit_ok_def coverage_ok_def max_limit_name_length_def)

theorem rate_limits_are_usable_witness:
  "\<exists>limits. rate_limits_from_options demo_rate_options [''default''] = Inr limits \<and> length limits = 2
    \<and> distinct (map (\<lambda>l. lower (rl_name l)) limits)"
  using rate_limits_are_usable [OF demo_rate_limits] by (simp add: demo_rate_limits)

section \<open>Batches\<close>

text \<open>
  C25. A batch is completed at most once, and its callbacks belong to that completion: in every reachable
  state the completed batches are those in the log, each once; an \<open>on_complete\<close> task exists exactly for a
  completed batch that names one, an \<open>on_success\<close> task only for a completed batch that names one and
  counted no failure, and the total of a completed batch is its number of members.
\<close>

theorem batch_completes_once:
  assumes "batch_reach s cs" "find_batch k s = Some b"
  shows "distinct cs \<and> (b_status b = COMPLETE) = (k \<in> set cs)
    \<and> (b_callback b \<noteq> None) = (k \<in> set cs \<and> fires (b_on_complete b))
    \<and> (b_success b \<noteq> None \<longrightarrow> k \<in> set cs \<and> fires (b_on_success b) \<and> b_failed b = Some 0)
    \<and> (k \<in> set cs \<longrightarrow> b_total b = Some (length (member_tasks k (members s))))"
proof -
  have "batch_ok s cs b" "distinct cs" "b_key b = k"
    using batch_reach_ok [OF assms(1)] assms(2) find_batch_key [OF assms(2)] by (simp_all add: store_ok_def)
  then show ?thesis by (cases "b_status b") (auto simp: batch_ok_def)
qed

theorem batch_completes_once_witness:
  "(b_status demo_batch_done = COMPLETE) = ((1::uuid) \<in> set [1])
    \<and> (b_callback demo_batch_done \<noteq> None) = ((1::uuid) \<in> set [1] \<and> fires (b_on_complete demo_batch_done))"
  using batch_completes_once [OF demo_batch_reach(2) demo_completion(2)] by blast

text \<open>
  C26. A completion says what is so: when the transaction completes a batch, every member's row that exists is
  settled in the reading it counted, the failures it stores are the members' FAILED rows there, and the
  \<open>on_success\<close> task is enqueued exactly when every member's row was there and SUCCESSFUL.
\<close>

theorem completion_is_truthful:
  assumes "batch_reach s cs" "wf_table (others 0 (tasks s))"
    and "complete_once enq others now k s = (Inr (Some (failed, missing)), s')"
  shows "\<exists>b b'. find_batch k s = Some b \<and> b_status b = SEALED \<and> find_batch k s' = Some b'
    \<and> (\<forall>r \<in> set (others 0 (tasks s)). pk r \<in> set (member_tasks k (members s)) \<longrightarrow> status r \<in> settled_statuses)
    \<and> b_failed b' = Some (member_task_counts (member_tasks k (members s)) (others 0 (tasks s)) FAILED)
    \<and> (b_callback b' \<noteq> None) = fires (b_on_complete b)
    \<and> (b_success b' \<noteq> None) = (fires (b_on_success b)
          \<and> clean_run (member_tasks k (members s)) (others 0 (tasks s)))"
proof -
  have "b_status b = SEALED" if "find_batch k s = Some b" for b
    using assms(3) that by (auto simp: complete_once_def split: if_splits)
  with reach_sealed_ok [OF assms(1)] have ok: "sealed_ok k s b" if "find_batch k s = Some b" for b using that by blast
  show ?thesis
    by (rule complete_once_truth [OF assms(3) ok assms(2)]) (assumption | intro exI conjI)+
qed

theorem completion_is_truthful_witness:
  "\<exists>b b'. find_batch 1 demo_ready = Some b \<and> b_status b = SEALED \<and> find_batch 1 demo_complete = Some b'
    \<and> (b_success b' \<noteq> None) = (fires (b_on_success b)
          \<and> clean_run (member_tasks 1 (members demo_ready)) (tasks demo_ready))"
proof -
  have "wf_table (tasks demo_ready)" by (simp add: wf_table_def demo_ready_eq)
  from completion_is_truthful [OF demo_batch_reach(1) _ demo_completion(1)] this show ?thesis by blast
qed

text \<open>
  C27. Every finished batch is completed: a tick of the reconciler that is not cut short by time leaves a sealed
  batch complete when all its members are settled, enqueueing its callbacks works and every conflict its
  transaction loses is one that is issued again, whatever becomes of the other batches it visits, as long as
  other sessions leave the batch's members settled.
\<close>

theorem finished_batches_are_completed:
  assumes "\<forall>i. left i = None" "\<forall>e. \<not> timed_out e" "set (shuffle (sealed_keys s)) = set (sealed_keys s)"
    and "\<forall>j. calm k ks (env j)" "ready_env (env k)" "k \<in> set (sealed_keys s)" "batch_due k ks s"
  shows "batch_completed k (snd (reconcile env timed_out shuffle left took s))"
  by (rule reconcile_completes) (use assms in blast)+

theorem finished_batches_are_completed_witness:
  "batch_completed 1 (snd (reconcile demo_envs (\<lambda>e. False) rev (\<lambda>i. None) (\<lambda>i. 0) demo_two))"
  by (rule finished_batches_are_completed [where ks = "[11]"])
     (simp_all add: demo_calm demo_env_ready demo_due insert_commute)

section \<open>Workflows\<close>



text \<open>
  C29. The claim's gate is sound: a row that either form of the gate (the query or the SQL text) lets through has
  every upstream it was ever given among the tasks that succeeded, though rows and edges are pruned and marked
  meanwhile.
\<close>

theorem gate_waits_for_upstreams:
  assumes "flow_reach outside y" "r \<in> set (flow_rows (fs_store y))" "status r \<notin> {SUCCESSFUL, DISCARDED}"
    and "runnable_filter_sql (fs_store y) r"
  shows "runnable_filter_q (fs_store y) r \<and> (\<forall>u. (u, pk r) \<in> fs_deps y \<longrightarrow> u \<in> fs_won y)"
proof -
  have g: "runnable_filter_q (fs_store y) r" using assms(4) by (simp add: gates_agree)
  note inv = reach_order [OF assms(1)]
  from deps_won [OF order_invD(13) [OF inv assms(2,3)] gate_won [OF inv g]] g show ?thesis by blast
qed

theorem gate_waits_for_upstreams_witness:
  "(10 :: uuid) \<in> fs_won (demo_flow SEALED True SUCCESSFUL WAITING {10} {10})"
proof -
  let ?y = "demo_flow SEALED True SUCCESSFUL WAITING {10} {10}"
  have "demo_task 11 WAITING \<in> set (flow_rows (fs_store ?y))" by (simp add: demo_flow_def demo_store_def)
  moreover have "runnable_filter_sql (fs_store ?y) (demo_task 11 WAITING)"
    by (simp add: runnable_filter_sql_def demo_flow_simps)
  ultimately show ?thesis
    using gate_waits_for_upstreams [OF demo_marked [of False], of "demo_task 11 WAITING"] by (simp add: demo_flow_def demo_task_def)
qed

text \<open>
  C30. Sealing, cancelling, repairing records, releasing, the check after an add and recording an outcome each
  follow a path of the workflow specification from every reachable state, with faults, reissued transactions
  and other sessions' steps between any two of their statements.
\<close>

theorem workflow_operations_are_steps:
  assumes "flow_env_ok outside env" "flow_reach outside y"
  shows "steps_of outside y (seal_workflow env scheduled w) \<and> steps_of outside y (cancel_unreachable env w)
    \<and> steps_of outside y (repair_records env w)
    \<and> (set ids \<subseteq> fs_ids y \<longrightarrow> steps_of outside y (release_downstream env ids))
    \<and> (k \<in> fs_ids y \<longrightarrow> steps_of outside y (recheck_added_node env k))
    \<and> ((st = SUCCESSFUL \<longrightarrow> k \<in> fs_won y) \<longrightarrow> steps_of outside y (record_node_outcome env k st ep))"
proof (intro conjI impI)
  note L = lasting_True
  show "steps_of outside y (seal_workflow env scheduled w)"
    by (rule goes_steps [OF assms(2) goes_seal [OF assms(1) L] TrueI])
  show "steps_of outside y (cancel_unreachable env w)"
    by (rule goes_steps [OF assms(2) goes_cancel_unreachable [OF assms(1) L] TrueI])
  show "steps_of outside y (repair_records env w)"
    by (rule goes_steps [OF assms(2) goes_repair_records [OF assms(1) L] TrueI])
  show "steps_of outside y (release_downstream env ids)" if "set ids \<subseteq> fs_ids y"
    by (rule goes_steps [OF assms(2) goes_release_downstream [OF assms(1) lasting_subset(2) [of outside "set ids"]]]) (use that in auto)
  show "steps_of outside y (recheck_added_node env k)" if "k \<in> fs_ids y"
    by (rule goes_steps [OF assms(2) goes_recheck [OF assms(1) lasting_ids [of outside k]]]) (use that in auto)
  show "steps_of outside y (record_node_outcome env k st ep)" if "st = SUCCESSFUL \<longrightarrow> k \<in> fs_won y"
    by (rule goes_steps [OF assms(2) goes_record_node_outcome [OF assms(1) lasting_impl [OF lasting_won [of outside k], of "st = SUCCESSFUL"]]])
       (use that in auto)
qed

theorem workflow_operations_are_steps_witness:
  "steps_of False (demo_flow SEALED True SUCCESSFUL WAITING {10} {10}) (release_downstream calm_env [11])
    \<and> steps_of False (demo_flow SEALED True SUCCESSFUL WAITING {10} {10}) (record_node_outcome calm_env 10 SUCCESSFUL 0)"
  using workflow_operations_are_steps [OF calm_ok demo_marked, of False undefined 1 "[11]" 10 SUCCESSFUL 0]
  by (simp add: demo_flow_def)

text \<open>
  C31. \<open>release_downstream\<close>, when nothing else commits, moves to READY every waiting row among its ids with no
  unmarked edge into it, over all its chunks, and changes nothing else.
\<close>

theorem release_frees_the_unblocked:
  assumes "quiet env" "wf_table (flow_rows s)"
  shows "\<exists>k m t. run_state (release_downstream env ids) (n, s) = (Inr k, (m, s\<lparr>flow_rows := t\<rparr>))
    \<and> list_all2 (\<lambda>r r'. if pk r \<in> set ids \<and> status r = WAITING
          \<and> (\<forall>e \<in> set (flow_edges s). e_down e = pk r \<longrightarrow> e_satisfied e)
        then \<exists>j. r' = released (fe_now env j) r else r' = r) (flow_rows s) t"
proof -
  from freesE [OF frees_downstream [OF assms(1)] assms(2)] obtain k m t where
    "run_state (release_downstream env ids) (n, s) = (Inr k, (m, s\<lparr>flow_rows := t\<rparr>))"
    "rows_changed (ripe s ids) (\<lambda>j. released (fe_now env j)) (flow_rows s) t" by blast
  then show ?thesis unfolding rows_changed_def ripe_def unblocked_def by blast
qed

theorem release_frees_the_unblocked_witness:
  "\<exists>k m t. run_state (release_downstream calm_env [11]) (0, demo_store SEALED True SUCCESSFUL WAITING)
      = (Inr k, (m, (demo_store SEALED True SUCCESSFUL WAITING)\<lparr>flow_rows := t\<rparr>)) \<and> map status t = [SUCCESSFUL, READY]"
proof -
  have "wf_table (flow_rows (demo_store SEALED True SUCCESSFUL WAITING))" by (simp add: wf_table_def demo_flow_simps)
  from release_frees_the_unblocked [OF calm_quiet this, of "[11]" 0] show ?thesis
    by (auto simp: list_all2_Cons1 demo_flow_simps row_simps)
qed

text \<open>
  One level of the cancellation of a sealed workflow, when nothing else commits, discards exactly the rows
  behind a cancellable edge, returns their number, and changes no other row and no edge.
\<close>

theorem cancel_discards_the_doomed:
  assumes "quiet env" "wf_table (flow_rows s)" "flow_status w s = Some SEALED"
  shows "\<exists>m s'. run_state (cancel_one_level env w) (n, s)
      = (Inr (length (filter (\<lambda>r. \<exists>e \<in> set (cancellable_edges w s). e_down e = pk r) (flow_rows s))), (m, s'))
    \<and> flow_edges s' = flow_edges s
    \<and> list_all2 (\<lambda>r r'. if \<exists>e \<in> set (cancellable_edges w s). e_down e = pk r
        then \<exists>j. r' = discarded_at (fe_now env j) r else r' = r) (flow_rows s) (flow_rows s')"
  using cancel_level_quiet [OF assms, of n] unfolding rows_changed_def doomed_row_def by blast

theorem cancel_discards_the_doomed_witness:
  "\<exists>m s'. run_state (cancel_one_level calm_env 1) (0, demo_store SEALED False FAILED WAITING) = (Inr 1, (m, s'))
    \<and> map status (flow_rows s') = [FAILED, DISCARDED]"
proof -
  let ?s = "demo_store SEALED False FAILED WAITING"
  have s: "wf_table (flow_rows ?s)" "flow_status 1 ?s = Some SEALED" "cancellable_edges 1 ?s = [demo_edge False]"
    by (simp_all add: wf_table_def flow_status_def find_workflow_def cancellable_edges_def dead_at_def status_at_def fetch_def
        dead_statuses_def cancellable_statuses_def demo_flow_simps)
  from cancel_discards_the_doomed [OF calm_quiet s(1,2), of 0] show ?thesis unfolding s(3)
    by (auto simp: list_all2_Cons1 demo_flow_simps row_simps)
qed



text \<open>
  In every reachable state a workflow that is not open has its node count as total, its node rows number
  that count until it is retired, and it is COMPLETE exactly when it was completed, once.
\<close>

theorem workflow_totals_are_node_counts:
  assumes "flow_reach outside y" "find_workflow w (fs_store y) = Some x"
  shows "distinct (fs_complete y) \<and> (w_status x = COMPLETE) = (w \<in> set (fs_complete y))
    \<and> w_total x = (if w_status x = OPEN then None else Some (w_node_count x))
    \<and> (w_retired_at x = None \<longrightarrow> w_node_count x = length (nodes_of w (fs_store y)))"
proof -
  note D = count_invD [OF reach_count [OF assms(1)]]
  have "x \<in> set (flow_workflows (fs_store y))" "w_key x = w" using find_workflow_Some [OF D(1)] assms(2) by auto
  with D(9) [of x] D(2) show ?thesis by (simp add: workflow_ok_def)
qed

theorem workflow_totals_are_node_counts_witness:
  "w_total (demo_workflow SEALED 2) = Some (length (nodes_of 1 (demo_store SEALED True SUCCESSFUL WAITING)))"
  using workflow_totals_are_node_counts [OF demo_marked [of False], of 1 "demo_workflow SEALED 2"]
  by (simp add: demo_flow_simps find_workflow_def)

text \<open>
  C33. The record of a node does not depend on the order its outcomes arrive in: two writes at different epochs, or
  one of them an observation of LOST, leave the same records in either order.
\<close>

theorem records_converge:
  assumes "e1 \<noteq> e2 \<or> st1 = LOST \<or> st2 = LOST \<or> st1 = st2"
  shows "snd (record_nodes pks st2 e2 (snd (record_nodes pks st1 e1 s)))
    = snd (record_nodes pks st1 e1 (snd (record_nodes pks st2 e2 s)))"
  using record_commutes [OF assms] by (simp add: record_nodes_one)

theorem records_converge_witness:
  "snd (record_nodes [1] SUCCESSFUL 0 (snd (record_nodes [1] LOST 0 demo_finished)))
    = snd (record_nodes [1] LOST 0 (snd (record_nodes [1] SUCCESSFUL 0 demo_finished)))"
  by (rule records_converge) simp

text \<open>
  C34. One tick of the release backstop, the deletes of stale scan rows, and a retirement are sequences of the steps
  the workflow system takes, whatever other transactions commit between their statements; for a retirement, the
  other transactions must not bring back a task row the row locks have seen gone.
\<close>

theorem backstop_and_retirement_are_steps:
  assumes "flow_env_ok outside env" "flow_reach outside y"
  shows "steps_of outside y (release_backstop env late)
    \<and> steps_of outside y (visit env late marks w)
    \<and> steps_of outside y (clean_scan_rows env step)
    \<and> (no_revival outside env \<longrightarrow> steps_of outside y (retire_workflow env fuel step w))"
proof (intro conjI impI)
  note L = lasting_True
  show "steps_of outside y (release_backstop env late)"
    by (rule goes_steps [OF assms(2) goes_release_backstop [OF assms(1) L] TrueI])
  show "steps_of outside y (visit env late marks w)"
    by (rule goes_steps [OF assms(2) goes_visit [OF assms(1) L] TrueI])
  show "steps_of outside y (clean_scan_rows env step)"
    by (rule goes_steps [OF assms(2) goes_clean_scan_rows [OF assms(1) L] TrueI])
  show "steps_of outside y (retire_workflow env fuel step w)" if "no_revival outside env"
    by (rule goes_steps [OF assms(2) goes_retire_workflow [OF assms(1) that L] TrueI])
qed

theorem backstop_and_retirement_are_steps_witness:
  "steps_of False (demo_flow SEALED True SUCCESSFUL WAITING {10} {10}) (release_backstop calm_env (\<lambda>n. 2 < n))
    \<and> steps_of False (demo_flow SEALED True SUCCESSFUL WAITING {10} {10}) (retire_workflow calm_env 5 100 1)"
  using backstop_and_retirement_are_steps [OF calm_ok demo_marked, of False "\<lambda>n. 2 < n" "(1, 2)" 1 100 5] calm_no_revival
  by simp



text \<open>
  C36. The deletes of a retirement end, and delete what can go: when nothing else commits, the loop over a retired
  workflow returns within one chunk more than the workflow has nodes, every node of it whose outcome is recorded and
  whose task row is gone or can no longer be retried has been deleted, every other node is kept as it was, and no
  workflow row is touched.
\<close>

theorem retirement_deletes_what_can_go:
  assumes "quiet env" "retired_workflow w s" "wf_table (flow_rows s)" "distinct (map n_pk (flow_nodes s))"
    "\<forall>m \<in> set (flow_nodes s). 0 < n_pk m" "0 < step" "length (nodes_of w s) < fuel"
  shows "\<exists>dn de n' s'. run_state (retire_from env w step fuel 0) (n, s) = (Inr (Some (dn, de)), (n', s'))
    \<and> flow_nodes s' = filter (\<lambda>m. \<not> (n_workflow m = w \<and> n_outcome m \<noteq> None
        \<and> (case status_at (n_task m) s of None \<Rightarrow> True | Some st \<Rightarrow> st \<in> {SUCCESSFUL, DISCARDED}))) (flow_nodes s)
    \<and> flow_workflows s' = flow_workflows s"
proof -
  have l: "length (left_to_go w 0 s) < fuel" using left_to_go_length [of w 0 s] assms(7) by simp
  from runs_retire_from [OF assms(1,6), of s w 0 fuel, unfolded runs_def] assms(2,3,4) l
  have g: "good (\<lambda>r s'. r \<noteq> None \<and> pruned w (\<lambda>n. 0 < n_pk n) s s')
      (fst (run_state (retire_from env w step fuel 0) (n, s))) (snd (snd (run_state (retire_from env w step fuel 0) (n, s))))"
    by (simp add: retiring_def)
  obtain a n' s' where o: "run_state (retire_from env w step fuel 0) (n, s) = (a, (n', s'))" by (rule prod_cases3)
  with g obtain r where r: "a = Inr (Some r)" "pruned w (\<lambda>n. 0 < n_pk n) s s'" by (cases a) auto
  have "flow_nodes s' = filter (\<lambda>m. \<not> (n_workflow m = w \<and> can_go s m)) (flow_nodes s)"
  proof -
    have "flow_nodes s' = filter (\<lambda>m. \<not> (n_workflow m = w \<and> can_go s m \<and> 0 < n_pk m)) (flow_nodes s)"
      using r(2) by (simp only: pruned_def)
    also have "\<dots> = filter (\<lambda>m. \<not> (n_workflow m = w \<and> can_go s m)) (flow_nodes s)"
      by (rule filter_cong [OF refl]) (use assms(5) in simp)
    finally show ?thesis .
  qed
  moreover have "flow_workflows s' = flow_workflows s" using r(2) by (simp add: pruned_def)
  ultimately show ?thesis using o r(1) unfolding can_go_def retirable_statuses_def by (cases r) simp
qed

theorem retirement_deletes_what_can_go_witness:
  "\<exists>dn de n' s'. run_state (retire_from calm_env 1 1 3 0) (0, demo_retired) = (Inr (Some (dn, de)), (n', s')) \<and> flow_nodes s' = []
    \<and> flow_workflows s' = flow_workflows demo_retired"
  using retirement_deletes_what_can_go [OF calm_quiet demo_retired_ok(1,2,3,4), of 1 3 0]
  by (simp add: demo_retired_ok(5) demo_retired_nodes [simplified])

text \<open>
  C37. The supervisor leaves no child behind and never runs two in one slot: when \<open>run\<close> returns a code, every child it
  started has exited; each was started in a slot of the pool, before any stop was requested, and after every earlier
  child of its slot had exited; and no child was sent SIGKILL before a second signal had been received.
\<close>

theorem supervisor_leaves_no_child:
  assumes "run_supervisor cfg env fuel new_supervisor = Some (Inr code, s)"
  shows "(\<forall>i p. Started i p \<in> set (sv_log s) \<longrightarrow> (\<exists>c. Exited i p c \<in> set (sv_log s)))
    \<and> (\<forall>newer older i p. sv_log s = newer @ Started i p # older \<longrightarrow>
        i < sc_processes cfg \<and> Stopped \<notin> set older \<and> (\<forall>q. Started i q \<in> set older \<longrightarrow> (\<exists>c. Exited i q c \<in> set older)))
    \<and> (\<forall>p. Sent p ForceKill \<in> set (sv_log s) \<longrightarrow> 2 \<le> sv_signals_seen s)"
proof -
  have none: "sv_children new_supervisor = []" by (simp add: new_supervisor_def)
  note run = steps_run [OF slots_new none assms]
  have h: "history_ok cfg s" by (rule history_steps [OF run(1) slots_new history_new])
  have "sv_children s = []" by (rule run(2)) simp
  then have "\<forall>i p. Started i p \<in> set (sv_log s) \<longrightarrow> (\<exists>c. Exited i p c \<in> set (sv_log s))"
    using h by (simp add: history_ok_def)
  moreover have "orderly cfg (sv_log s)" "\<forall>p. Sent p ForceKill \<in> set (sv_log s) \<longrightarrow> 2 \<le> sv_signals_seen s"
    using h by (simp_all add: history_ok_def)
  ultimately show ?thesis using orderlyD by metis
qed

theorem supervisor_leaves_no_child_witness:
  "\<exists>s. run_supervisor (sv_defaults 2 True) demo_sup_env 14 new_supervisor = Some (Inr 1, s) \<and> Sent 0 ForceKill \<notin> set (sv_log s)
    \<and> (\<exists>c. Exited 1 1 c \<in> set (sv_log s))"
proof -
  obtain s where s: "run_supervisor (sv_defaults 2 True) demo_sup_env 14 new_supervisor = Some (Inr 1, s)"
    using demo_sup_run by (auto simp: map_option_case split: option.splits)
  have "sv_signals_seen s = 0 \<and> Started 1 1 \<in> set (sv_log s)" using demo_sup_facts [OF s] by simp
  with supervisor_leaves_no_child [OF s] show ?thesis using s by auto
qed

text \<open>
  C38. The supervisor's run ends: when from some read on every child has exited and a stop, from a signal or from
  another thread, is there to be seen, \<open>run\<close> returns, within two passes of its loops beyond that read.
\<close>

theorem supervisor_run_ends:
  assumes "\<forall>n \<ge> m. \<forall>p. se_exit env n p \<noteq> None" "(\<forall>n \<ge> m. se_stop env n) \<or> (\<forall>n \<ge> m. 0 < se_signals env n)"
  shows "run_supervisor cfg env (m + 2) new_supervisor \<noteq> None"
proof -
  have "ends_at env m" using assms by (simp add: ends_at_def)
  then show ?thesis by (rule run_ends [OF _ slots_new]) (simp add: new_supervisor_def)
qed

theorem supervisor_run_ends_witness:
  "run_supervisor (sv_defaults 3 False) demo_sup_env 14 new_supervisor \<noteq> None"
  using supervisor_run_ends [of 12 demo_sup_env "sv_defaults 3 False"] by (simp add: demo_sup_env_def)

text \<open>
  C39. The restart cap trips exactly when it should: over any run on a clock that does not go back, it has tripped if
  and only if some death of a slot was, with the deaths of that slot inside the window before it, more than the cap;
  the deaths dropped from the front of the deque change nothing.
\<close>

theorem restart_cap_counts_the_window:
  assumes "mono (se_clock env)" "run_supervisor cfg env fuel new_supervisor = Some (r, s)"
  shows "sv_cap_tripped s \<longleftrightarrow> over_cap cfg (sv_log s)"
proof -
  have none: "sv_children new_supervisor = []" by (simp add: new_supervisor_def)
  from cap_steps [OF steps_run(1) [OF slots_new none assms(2)] assms(1) cap_new] show ?thesis by (simp add: cap_ok_def)
qed

theorem restart_cap_counts_the_window_witness:
  "\<exists>s. run_supervisor ((sv_defaults 1 True)\<lparr>sc_restart_cap := 0\<rparr>) demo_cap_env 14 new_supervisor = Some (Inr 1, s) \<and> sv_cap_tripped s"
proof -
  let ?cfg = "(sv_defaults 1 True)\<lparr>sc_restart_cap := 0\<rparr>"
  obtain s where s: "run_supervisor ?cfg demo_cap_env 14 new_supervisor = Some (Inr 1, s)" "over_cap ?cfg (sv_log s)"
    using demo_cap_run by (auto simp: map_option_case split: option.splits)
  have "mono (se_clock demo_cap_env)" by (simp add: demo_cap_env_def demo_sup_env_def mono_def)
  from restart_cap_counts_the_window [OF this s(1)] s show ?thesis by blast
qed

text \<open>
  C40. The supervisor's exit code says how its children ended: it is never negative, 1 after the cap tripped, and
  otherwise 0 whenever the last child of every slot returned 0 or recycled itself; and 0 means that every one of them
  did, or was killed by SIGTERM.
\<close>

theorem supervisor_exit_code_is_truthful:
  assumes "run_supervisor cfg env fuel new_supervisor = Some (Inr code, s)"
  shows "0 \<le> code \<and> (sv_cap_tripped s \<longrightarrow> code = 1)
    \<and> (\<not> sv_cap_tripped s \<longrightarrow> (\<forall>i c. last_exit i (sv_log s) = Some c \<longrightarrow> c \<in> {0, recycle_exit_code}) \<longrightarrow> code = 0)
    \<and> (code = 0 \<longrightarrow> (\<forall>i c. last_exit i (sv_log s) = Some c \<longrightarrow> c \<in> {0, recycle_exit_code, - sigterm}))"
proof -
  have none: "sv_children new_supervisor = []" by (simp add: new_supervisor_def)
  note run = steps_run [OF slots_new none assms]
  have code: "code = supervisor_exit_code s" by (rule run_exit_code [OF assms])
  have ch: "sv_children s = []" by (rule run(2)) simp
  have d: "distinct (map fst (sv_exit_codes s))" by (rule distinct_codes [OF run(1)]) (simp add: new_supervisor_def)
  have fits: "code_fits (map_of (sv_exit_codes s) i) (last_exit i (sv_log s))" for i
    using codes_run [OF codes_new assms] ch by (simp add: codes_ok_def)
  have to0: "\<forall>x \<in> set (sv_exit_codes s). snd x \<in> {0, recycle_exit_code}"
    if "\<forall>i c. last_exit i (sv_log s) = Some c \<longrightarrow> c \<in> {0, recycle_exit_code}"
    by (rule codes_from_exits [OF d fits that])
  have from0: "c \<in> {0, recycle_exit_code, - sigterm}"
    if "\<forall>x \<in> set (sv_exit_codes s). snd x \<in> {0, recycle_exit_code}" "last_exit i (sv_log s) = Some c" for i c
    by (rule exits_from_codes [OF fits that])
  have tripped: "sv_cap_tripped s \<Longrightarrow> code = 1" by (simp add: code supervisor_exit_code_def)
  have notripped: "\<not> sv_cap_tripped s" if "code = 0" using tripped that by auto
  show ?thesis
  proof (intro conjI impI allI)
    show "0 \<le> code" unfolding code by (rule exit_code_nonneg)
    show "code = 1" if "sv_cap_tripped s" using tripped that by simp
    show "code = 0" if "\<not> sv_cap_tripped s" "\<forall>i c. last_exit i (sv_log s) = Some c \<longrightarrow> c \<in> {0, recycle_exit_code}"
      unfolding code using exit_code_zero [OF that(1)] to0 [OF that(2)] by blast
    show "c \<in> {0, recycle_exit_code, - sigterm}" if "code = 0" "last_exit i (sv_log s) = Some c" for i c
    proof (rule from0 [OF _ that(2)])
      show "\<forall>x \<in> set (sv_exit_codes s). snd x \<in> {0, recycle_exit_code}"
        using exit_code_zero [OF notripped [OF that(1)]] that(1) code by (simp only: simp_thms)
    qed
  qed
qed

theorem supervisor_exit_code_is_truthful_witness:
  "\<exists>s. run_supervisor (sv_defaults 2 True) demo_clean_env 14 new_supervisor = Some (Inr 0, s)
    \<and> last_exit 1 (sv_log s) \<in> {Some 0, Some recycle_exit_code, Some (- sigterm)}"
proof -
  obtain s where s: "run_supervisor (sv_defaults 2 True) demo_clean_env 14 new_supervisor = Some (Inr 0, s)"
      "last_exit 1 (sv_log s) \<noteq> None"
    using demo_clean_run by (auto simp: map_option_case split: option.splits)
  with supervisor_exit_code_is_truthful [OF s(1)] show ?thesis by auto
qed

text \<open>
  The delay before the restart that follows k early deaths of a slot is the base delay times 2 to the k, up to the
  bound, and the base delay again after a child that lived at least the reset.
\<close>

theorem restart_delays_double:
  assumes "\<forall>d \<in> set ds. snd d - fst d < sc_backoff_reset cfg" "0 \<le> sc_restart_delay cfg" "sc_restart_delay cfg \<le> sc_backoff_max cfg"
    "map_of (sv_backoff s) i = None"
  shows "fst (next_delay cfg i now ((fold (early_death cfg i) ds s)\<lparr>sv_started_at := [(i, began)]\<rparr>))
    = (if sc_backoff_reset cfg \<le> now - began then sc_restart_delay cfg
       else min (sc_restart_delay cfg * 2 ^ length ds) (sc_backoff_max cfg))"
  using early_deaths_backoff [OF assms]
  by (simp add: next_delay_def Let_def the_default_def delete_conv')

theorem restart_delays_double_witness:
  "fst (next_delay (sv_defaults 1 True) 0 900 ((fold (early_death (sv_defaults 1 True) 0) (replicate 6 (0, 5)) new_supervisor)
      \<lparr>sv_started_at := [(0, 800)]\<rparr>)) = 30000"
  using restart_delays_double [of "replicate 6 (0, 5)" "sv_defaults 1 True" new_supervisor 0 900 800]
  by (simp add: sv_defaults_def new_supervisor_def)

end
